(* ===== verification/Prelude.thy ===== *)
theory Prelude
  imports Main "HOL-Library.Word" "HOL-Library.Signed_Division"
begin

text \<open>
  What every component of the model shares: the C integer types, the result type of a C
  function whose behaviour may be undefined or that may not return, array accesses with
  their bounds, the two loop combinators and their rules, and the proof hints.

  A value \<open>Ok x\<close> is a run of the C code that returns \<open>x\<close>; the error codes of the code
  (\<open>-1\<close>, \<open>-EBADF\<close>, ...) are ordinary returned values. \<open>Fault e\<close> is a run with undefined
  behaviour (an access outside an array, a null pointer, an object read before it is
  written, a division by zero) or one that never returns (\<open>Diverges\<close>).
\<close>

unbundle bit_operations_syntax

section \<open>C types\<close>

type_synonym byte = "8 word"
type_synonym word16 = "16 word"
type_synonym dword = "32 word"

datatype fault = OutOfBounds | NullPointer | Uninitialised | DivByZero | Diverges

datatype 'a res = Ok 'a | Fault fault

named_theorems bounded "bounds of the values the code computes"
named_theorems safe "runs of the code that end in a value"

section \<open>Sequencing\<close>

fun bind :: "'a res \<Rightarrow> ('a \<Rightarrow> 'b res) \<Rightarrow> 'b res" where
  "bind (Ok x) f = f x"
| "bind (Fault e) f = Fault e"

lemma bind_eq_Ok [simp]: "bind m f = Ok y \<longleftrightarrow> (\<exists>x. m = Ok x \<and> f x = Ok y)"
  by (cases m) auto

lemma bind_assoc: "bind (bind m f) g = bind m (\<lambda>x. bind (f x) g)"
  by (cases m) auto

lemma bind_cong [fundef_cong]:
  "m = m' \<Longrightarrow> (\<And>x. m' = Ok x \<Longrightarrow> f x = f' x) \<Longrightarrow> bind m f = bind m' f'"
  by (cases m) auto

lemma bind_Ok_right [simp]: "bind m Ok = m"
  by (cases m) auto

definition is_Ok :: "'a res \<Rightarrow> bool" where
  "is_Ok r = (case r of Ok _ \<Rightarrow> True | Fault _ \<Rightarrow> False)"

lemma is_Ok_simps [simp]: "is_Ok (Ok x)" "\<not> is_Ok (Fault e)"
  by (simp_all add: is_Ok_def)

lemma is_Ok_iff: "is_Ok r \<longleftrightarrow> (\<exists>x. r = Ok x)"
  by (cases r) auto

section \<open>Arrays\<close>

definition aget :: "'a list \<Rightarrow> nat \<Rightarrow> 'a res" where
  "aget xs i = (if i < length xs then Ok (xs ! i) else Fault OutOfBounds)"

definition aput :: "'a list \<Rightarrow> nat \<Rightarrow> 'a \<Rightarrow> 'a list res" where
  "aput xs i x = (if i < length xs then Ok (xs[i := x]) else Fault OutOfBounds)"

text \<open>The same with a C \<open>int\<close> as the index, which may be negative.\<close>

definition aget_int :: "'a list \<Rightarrow> int \<Rightarrow> 'a res" where
  "aget_int xs i = (if i < 0 then Fault OutOfBounds else aget xs (nat i))"

definition aput_int :: "'a list \<Rightarrow> int \<Rightarrow> 'a \<Rightarrow> 'a list res" where
  "aput_int xs i x = (if i < 0 then Fault OutOfBounds else aput xs (nat i) x)"

lemma aget_Ok [simp]: "i < length xs \<Longrightarrow> aget xs i = Ok (xs ! i)"
  by (simp add: aget_def)

lemma aget_OutOfBounds [simp]: "length xs \<le> i \<Longrightarrow> aget xs i = Fault OutOfBounds"
  by (simp add: aget_def)

lemma aput_Ok [simp]: "i < length xs \<Longrightarrow> aput xs i x = Ok (xs[i := x])"
  by (simp add: aput_def)

lemma aput_OutOfBounds [simp]: "length xs \<le> i \<Longrightarrow> aput xs i x = Fault OutOfBounds"
  by (simp add: aput_def)

lemma aget_eq_Ok: "aget xs i = Ok x \<longleftrightarrow> i < length xs \<and> x = xs ! i"
  by (auto simp: aget_def)

lemma aput_eq_Ok: "aput xs i x = Ok ys \<longleftrightarrow> i < length xs \<and> ys = xs[i := x]"
  by (auto simp: aput_def)

lemma aget_int_of_nat [simp]: "aget_int xs (int i) = aget xs i"
  by (simp add: aget_int_def)

lemma aput_int_of_nat [simp]: "aput_int xs (int i) x = aput xs i x"
  by (simp add: aput_int_def)

section \<open>Loops\<close>

text \<open>
  \<open>for_each xs body s\<close> runs the body for every index of \<open>xs\<close> in order. The body answers
  \<open>Inl s'\<close> to go on in the state \<open>s'\<close> and \<open>Inr r\<close> for a \<open>return r\<close> inside the loop; the
  loop answers \<open>Inl\<close> of its last state when it runs to its end.
\<close>

fun for_each :: "'i list \<Rightarrow> ('i \<Rightarrow> 's \<Rightarrow> ('s + 'r) res) \<Rightarrow> 's \<Rightarrow> ('s + 'r) res" where
  "for_each [] body s = Ok (Inl s)"
| "for_each (i # is) body s =
     bind (body i s) (\<lambda>r. case r of Inl s' \<Rightarrow> for_each is body s' | Inr x \<Rightarrow> Ok (Inr x))"

lemma for_each_append:
  "for_each (xs @ ys) body s =
     bind (for_each xs body s) (\<lambda>r. case r of Inl s' \<Rightarrow> for_each ys body s' | Inr x \<Rightarrow> Ok (Inr x))"
proof (induction xs arbitrary: s)
  case Nil
  show ?case by simp
next
  case (Cons x xs)
  then show ?case
    by (cases "body x s") (auto split: sum.splits)
qed

lemma for_each_inv:
  assumes "for_each xs body s = Ok (Inl t)" and "I s"
    and "\<And>i s s'. i \<in> set xs \<Longrightarrow> I s \<Longrightarrow> body i s = Ok (Inl s') \<Longrightarrow> I s'"
  shows "I t"
  using assms
proof (induction xs arbitrary: s)
  case Nil
  then show ?case by simp
next
  case (Cons x xs)
  from Cons.prems(1) obtain r where r: "body x s = Ok r"
    and rest: "(case r of Inl s' \<Rightarrow> for_each xs body s' | Inr y \<Rightarrow> Ok (Inr y)) = Ok (Inl t)"
    by auto
  from rest obtain s' where s': "r = Inl s'" by (cases r) auto
  with r rest Cons.prems(2,3) have "for_each xs body s' = Ok (Inl t)" and "I s'" by auto
  then show ?case using Cons.IH Cons.prems(3) by (meson list.set_intros(2))
qed

text \<open>
  A loop over \<open>[0..<n]\<close> whose body never returns early, with the invariant indexed by the
  number of rounds done: the total rule.
\<close>

lemma for_upto_rule:
  assumes "I 0 s"
    and "\<And>i s. i < n \<Longrightarrow> I i s \<Longrightarrow> \<exists>s'. body i s = Ok (Inl s') \<and> I (Suc i) s'"
  shows "\<exists>t. for_each [0..<n] body s = Ok (Inl t) \<and> I n t"
  using assms(2)
proof (induction n)
  case 0
  with assms(1) show ?case by simp
next
  case (Suc n)
  then obtain t where t: "for_each [0..<n] body s = Ok (Inl t)" and "I n t" by auto
  with Suc.prems [of n t] show ?case by (auto simp: for_each_append)
qed

text \<open>A loop over \<open>[0..<n]\<close> that may return early.\<close>

lemma for_upto_or_return:
  assumes "I 0 s"
    and "\<And>i s. i < n \<Longrightarrow> I i s \<Longrightarrow> (\<exists>s'. body i s = Ok (Inl s') \<and> I (Suc i) s') \<or> (\<exists>x. body i s = Ok (Inr x) \<and> R x)"
  shows "(\<exists>t. for_each [0..<n] body s = Ok (Inl t) \<and> I n t) \<or> (\<exists>x. for_each [0..<n] body s = Ok (Inr x) \<and> R x)"
  using assms(2)
proof (induction n)
  case 0
  with assms(1) show ?case by simp
next
  case (Suc n)
  then have "(\<exists>t. for_each [0..<n] body s = Ok (Inl t) \<and> I n t) \<or> (\<exists>x. for_each [0..<n] body s = Ok (Inr x) \<and> R x)" by simp
  then show ?case
  proof (elim disjE exE conjE)
    fix t assume t: "for_each [0..<n] body s = Ok (Inl t)" "I n t"
    with Suc.prems [of n t] show ?thesis by (auto simp: for_each_append)
  qed (simp add: for_each_append)
qed

lemma for_each_map: "for_each (map f xs) body s = for_each xs (\<lambda>i. body (f i)) s"
  by (induction xs arbitrary: s) (auto intro!: bind_cong split: sum.splits)

text \<open>A loop over \<open>[a..<a + n]\<close> that never returns early.\<close>

lemma for_range_rule:
  assumes "I 0 s" and "\<And>i s. i < n \<Longrightarrow> I i s \<Longrightarrow> \<exists>s'. body (a + i) s = Ok (Inl s') \<and> I (Suc i) s'"
  shows "\<exists>t. for_each [a..<a + n] body s = Ok (Inl t) \<and> I n t"
proof -
  have "[a..<a + n] = map (\<lambda>i. a + i) [0..<n]" by (rule nth_equalityI) simp_all
  then show ?thesis using for_upto_rule [of I s n "\<lambda>i. body (a + i)", OF assms] by (simp add: for_each_map)
qed

text \<open>
  A loop runs into a fault when every round goes on (keeping \<open>I\<close>) or has that fault, and one
  round has it for sure.
\<close>

lemma for_each_fault:
  assumes "\<And>i s. i \<in> set xs \<Longrightarrow> I s \<Longrightarrow> body i s = Fault e \<or> (\<exists>s'. body i s = Ok (Inl s') \<and> I s')"
    and "j \<in> set xs" and "\<And>s. I s \<Longrightarrow> body j s = Fault e" and "I s"
  shows "for_each xs body s = Fault e"
  using assms
proof (induction xs arbitrary: s)
  case Nil
  then show ?case by simp
next
  case (Cons x xs)
  from Cons.prems(1) [of x s] Cons.prems(4)
  consider "body x s = Fault e" | s' where "body x s = Ok (Inl s')" "I s'" by auto
  then show ?case
  proof cases
    case 2
    show ?thesis
    proof (cases "x = j")
      case True
      with 2 Cons.prems(3,4) show ?thesis by simp
    next
      case False
      with Cons.prems 2 have "for_each xs body s' = Fault e" by (intro Cons.IH) auto
      with 2 show ?thesis by simp
    qed
  qed simp
qed

text \<open>
  \<open>loop body s\<close> is a loop that may run forever: the body answers \<open>Inl s'\<close> to go on and
  \<open>Inr r\<close> to stop with \<open>r\<close>. A run that never stops is \<open>Fault Diverges\<close>.
\<close>

partial_function (option) loop_opt :: "('s \<Rightarrow> ('s + 'r) res) \<Rightarrow> 's \<Rightarrow> 'r res option" where
  "loop_opt body s =
     (case body s of
        Fault e \<Rightarrow> Some (Fault e)
      | Ok r \<Rightarrow> (case r of Inl s' \<Rightarrow> loop_opt body s' | Inr x \<Rightarrow> Some (Ok x)))"

definition loop :: "('s \<Rightarrow> ('s + 'r) res) \<Rightarrow> 's \<Rightarrow> 'r res" where
  "loop body s = (case loop_opt body s of None \<Rightarrow> Fault Diverges | Some r \<Rightarrow> r)"

lemma loop_unfold:
  "loop body s = bind (body s) (\<lambda>r. case r of Inl s' \<Rightarrow> loop body s' | Inr x \<Rightarrow> Ok x)"
  by (subst loop_def, subst loop_opt.simps)
    (auto simp: loop_def split: res.splits sum.splits)

lemma loop_stop: "body s = Ok (Inr x) \<Longrightarrow> loop body s = Ok x"
  by (subst loop_unfold) simp

lemma loop_step: "body s = Ok (Inl s') \<Longrightarrow> loop body s = loop body s'"
  by (subst loop_unfold) simp

lemma loop_fault: "body s = Fault e \<Longrightarrow> loop body s = Fault e"
  by (subst loop_unfold) simp

text \<open>Total correctness: an invariant and a measure that every further round decreases.\<close>

lemma loop_rule:
  assumes "I s"
    and "\<And>s. I s \<Longrightarrow>
      (\<exists>s'. body s = Ok (Inl s') \<and> I s' \<and> m s' < (m s :: nat)) \<or> (\<exists>x. body s = Ok (Inr x) \<and> Q x)"
  shows "\<exists>x. loop body s = Ok x \<and> Q x"
  using assms(1)
proof (induction "m s" arbitrary: s rule: less_induct)
  case less
  from assms(2) [OF less.prems] show ?case
    by (metis less.hyps loop_step loop_stop)
qed

text \<open>The same for a loop that may run into one kind of fault.\<close>

lemma loop_or_fault:
  assumes "I s"
    and "\<And>s. I s \<Longrightarrow> body s = Fault e \<or>
      (\<exists>s'. body s = Ok (Inl s') \<and> I s' \<and> m s' < (m s :: nat)) \<or> (\<exists>x. body s = Ok (Inr x) \<and> Q x)"
  shows "loop body s = Fault e \<or> (\<exists>x. loop body s = Ok x \<and> Q x)"
  using assms(1)
proof (induction "m s" arbitrary: s rule: less_induct)
  case less
  from assms(2) [OF less.prems]
  consider "body s = Fault e" | s' where "body s = Ok (Inl s')" "I s'" "m s' < m s" | x where "body s = Ok (Inr x)" "Q x"
    by blast
  then show ?case
  proof cases
    case 1
    then show ?thesis by (simp add: loop_fault)
  next
    case 2
    from 2(1) have "loop body s = loop body s'" by (rule loop_step)
    with less.hyps [OF 2(3,2)] show ?thesis by simp
  next
    case 3
    then show ?thesis by (simp add: loop_stop)
  qed
qed

text \<open>A loop whose every state leads to a further state of the same set never stops.\<close>

lemma loop_opt_None:
  assumes "loop_opt body s = Some r" and "I s"
    and "\<And>s. I s \<Longrightarrow> \<exists>s'. body s = Ok (Inl s') \<and> I s'"
  shows False
proof -
  have "\<not> I s"
  proof (rule loop_opt.raw_induct [where P = "\<lambda>b s r. b = body \<longrightarrow> \<not> I s", THEN mp, OF _ assms(1)])
    fix f b s r
    assume IH: "\<And>b s r. f b s = Some r \<Longrightarrow> b = body \<longrightarrow> \<not> I s"
      and eq: "(case b s of Fault e \<Rightarrow> Some (Fault e)
        | Ok r \<Rightarrow> (case r of Inl s' \<Rightarrow> f b s' | Inr x \<Rightarrow> Some (Ok x))) = Some r"
    show "b = body \<longrightarrow> \<not> I s"
    proof (intro impI notI)
      assume b: "b = body" and "I s"
      with assms(3) obtain s' where "body s = Ok (Inl s')" and "I s'" by blast
      with eq b IH show False by simp
    qed
  qed simp
  with assms(2) show False by simp
qed

lemma loop_diverges:
  assumes "I s" and "\<And>s. I s \<Longrightarrow> \<exists>s'. body s = Ok (Inl s') \<and> I s'"
  shows "loop body s = Fault Diverges"
proof (cases "loop_opt body s")
  case None
  then show ?thesis by (simp add: loop_def)
next
  case (Some r)
  with loop_opt_None [OF Some assms] show ?thesis by blast
qed

section \<open>Lists and bytes\<close>

lemma unat_and_mask: "unat (w AND mask k) = unat w mod 2 ^ k"
proof -
  have "unat (w AND mask k) = take_bit k (unat w)"
    by (simp only: take_bit_eq_mask [symmetric] unsigned_take_bit_eq)
  then show ?thesis by (simp only: take_bit_eq_mod)
qed

lemma unat_drop_bit: "unat (drop_bit k w) = unat w div 2 ^ k"
proof -
  have "unat (drop_bit k w) = drop_bit k (unat w)" by (rule unat_drop_bit_eq)
  then show ?thesis by (simp only: drop_bit_eq_div)
qed

lemma sint_of_nat_small: "n < 2 ^ 31 \<Longrightarrow> sint (of_nat n :: dword) = int n"
  by (simp add: signed_of_nat signed_take_bit_int_eq_self)

lemma nth_take_drop [simp]: "i < n \<Longrightarrow> a + n \<le> length xs \<Longrightarrow> take n (drop a xs) ! i = xs ! (a + i)"
  by simp

definition le16 :: "byte list \<Rightarrow> nat \<Rightarrow> word16" where
  "le16 b i = ucast (b ! i) OR push_bit 8 (ucast (b ! (i + 1)))"

definition le32 :: "byte list \<Rightarrow> nat \<Rightarrow> dword" where
  "le32 b i = ucast (b ! i) OR push_bit 8 (ucast (b ! (i + 1)))
     OR push_bit 16 (ucast (b ! (i + 2))) OR push_bit 24 (ucast (b ! (i + 3)))"

definition bytes32 :: "dword \<Rightarrow> byte list" where
  "bytes32 w = [ucast w, ucast (drop_bit 8 w), ucast (drop_bit 16 w), ucast (drop_bit 24 w)]"

lemma length_bytes32 [simp]: "length (bytes32 w) = 4"
  by (simp add: bytes32_def)

lemma bytes32_join:
  "ucast (ucast (w :: dword) :: byte) OR push_bit 8 (ucast (ucast (drop_bit 8 w) :: byte))
     OR push_bit 16 (ucast (ucast (drop_bit 16 w) :: byte))
     OR push_bit 24 (ucast (ucast (drop_bit 24 w) :: byte)) = w"
proof (rule bit_word_eqI)
  fix n assume "n < LENGTH(32)"
  then consider "n < 8" | "8 \<le> n \<and> n < 16" | "16 \<le> n \<and> n < 24" | "24 \<le> n \<and> n < 32"
    by fastforce
  then show "bit (ucast (ucast w :: byte) OR push_bit 8 (ucast (ucast (drop_bit 8 w) :: byte) :: dword)
     OR push_bit 16 (ucast (ucast (drop_bit 16 w) :: byte))
     OR push_bit 24 (ucast (ucast (drop_bit 24 w) :: byte))) n = bit w n"
    by cases (auto simp: bit_simps)
qed

lemma bytes16_join:
  "ucast (ucast (w :: word16) :: byte) OR push_bit 8 (ucast (ucast (drop_bit 8 w) :: byte)) = w"
  by (rule bit_word_eqI) (auto simp: bit_simps)

lemma le32_bytes32 [simp]:
  "i + 4 \<le> length b \<Longrightarrow> take 4 (drop i b) = bytes32 w \<Longrightarrow> le32 b i = w"
proof -
  assume len: "i + 4 \<le> length b" and t: "take 4 (drop i b) = bytes32 w"
  have "b ! (i + k) = bytes32 w ! k" if "k < 4" for k
    using arg_cong [OF t, of "\<lambda>xs. xs ! k"] that len by simp
  from this [of 0] this [of 1] this [of 2] this [of 3] show ?thesis
    by (simp add: le32_def bytes32_def bytes32_join)
qed

end
