(* ===== verification/Kernel_List.thy ===== *)
theory Kernel_List
  imports Prelude
begin

text \<open>
  The intrusive circular lists of zeos_full/list.c and include/list.h. An object \<open>node\<close> is the
  address of a \<open>struct list_head\<close> of the kernel: the anchor of a task, the head of a queue, or
  \<open>NULL\<close>; \<open>links\<close> is the memory of their two pointers. A list is abstracted to the sequence of
  its anchors. The locale \<open>queue_family\<close> states what the scheduler and the semaphores rely on.
\<close>

section \<open>Code\<close>

datatype node = NULL | Task nat | Free_Queue | Ready_Queue | Blocked_Queue | Sem_Queue nat | Zsem_Queue nat
  | Pending_Reads | Console_Blocked | Free_Iorbs | Iorb nat

record links =
  nxt :: "node \<Rightarrow> node"
  prv :: "node \<Rightarrow> node"

definition set_nxt :: "node \<Rightarrow> node \<Rightarrow> links \<Rightarrow> links res" where
  "set_nxt p v h = (if p = NULL then Fault NullPointer else Ok (h\<lparr>nxt := (nxt h)(p := v)\<rparr>))"

definition set_prv :: "node \<Rightarrow> node \<Rightarrow> links \<Rightarrow> links res" where
  "set_prv p v h = (if p = NULL then Fault NullPointer else Ok (h\<lparr>prv := (prv h)(p := v)\<rparr>))"

definition get_nxt :: "links \<Rightarrow> node \<Rightarrow> node res" where
  "get_nxt h p = (if p = NULL then Fault NullPointer else Ok (nxt h p))"

definition get_prv :: "links \<Rightarrow> node \<Rightarrow> node res" where
  "get_prv h p = (if p = NULL then Fault NullPointer else Ok (prv h p))"

definition INIT_LIST_HEAD :: "node \<Rightarrow> links \<Rightarrow> links res" where
  "INIT_LIST_HEAD list h = bind (set_nxt list list h) (set_prv list list)"

definition list_add_between :: "node \<Rightarrow> node \<Rightarrow> node \<Rightarrow> links \<Rightarrow> links res" where
  "list_add_between new prev next h =
     bind (set_prv next new h) (\<lambda>h. bind (set_nxt new next h) (\<lambda>h. bind (set_prv new prev h) (set_nxt prev new)))"

definition list_add :: "node \<Rightarrow> node \<Rightarrow> links \<Rightarrow> links res" where
  "list_add new head h = bind (get_nxt h head) (\<lambda>n. list_add_between new head n h)"

definition list_add_tail :: "node \<Rightarrow> node \<Rightarrow> links \<Rightarrow> links res" where
  "list_add_tail new head h = bind (get_prv h head) (\<lambda>p. list_add_between new p head h)"

definition list_del_between :: "node \<Rightarrow> node \<Rightarrow> links \<Rightarrow> links res" where
  "list_del_between prev next h = bind (set_prv next prev h) (set_nxt prev next)"

definition list_del :: "node \<Rightarrow> links \<Rightarrow> links res" where
  "list_del entry h =
     bind (get_prv h entry) (\<lambda>p. bind (get_nxt h entry) (\<lambda>n. bind (list_del_between p n h) (\<lambda>h.
     bind (set_nxt entry NULL h) (set_prv entry NULL))))"

definition list_is_last :: "links \<Rightarrow> node \<Rightarrow> node \<Rightarrow> bool res" where
  "list_is_last h list head = bind (get_nxt h list) (\<lambda>n. Ok (n = head))"

definition list_empty :: "links \<Rightarrow> node \<Rightarrow> bool res" where
  "list_empty h head = bind (get_nxt h head) (\<lambda>n. Ok (n = head))"

definition list_first :: "links \<Rightarrow> node \<Rightarrow> node res" where
  "list_first h head = get_nxt h head"

section \<open>Lists as sequences\<close>

fun linked :: "links \<Rightarrow> node \<Rightarrow> node list \<Rightarrow> node \<Rightarrow> bool" where
  "linked h a [] b \<longleftrightarrow> nxt h a = b \<and> prv h b = a"
| "linked h a (x # xs) b \<longleftrightarrow> nxt h a = x \<and> prv h x = a \<and> linked h x xs b"

definition is_list :: "links \<Rightarrow> node \<Rightarrow> node list \<Rightarrow> bool" where
  "is_list h q xs \<longleftrightarrow> linked h q xs q \<and> distinct (q # xs) \<and> NULL \<notin> set (q # xs)"

definition insert_links :: "node \<Rightarrow> node \<Rightarrow> node \<Rightarrow> links \<Rightarrow> links" where
  "insert_links new p n h = h\<lparr>prv := (prv h)(n := new, new := p), nxt := (nxt h)(new := n, p := new)\<rparr>"

definition remove_links :: "node \<Rightarrow> node \<Rightarrow> node \<Rightarrow> links \<Rightarrow> links" where
  "remove_links x p n h = h\<lparr>prv := (prv h)(n := p, x := NULL), nxt := (nxt h)(p := n, x := NULL)\<rparr>"

lemma linked_append: "linked h a (xs @ y # ys) b \<longleftrightarrow> linked h a xs y \<and> linked h y ys b"
  by (induction xs arbitrary: a) auto

lemma linked_frame:
  "\<forall>z \<in> set (a # xs). nxt h' z = nxt h z \<Longrightarrow> \<forall>z \<in> set (xs @ [b]). prv h' z = prv h z \<Longrightarrow> linked h' a xs b = linked h a xs b"
  by (induction xs arbitrary: a) auto

lemma linked_ends: "linked h a xs b \<Longrightarrow> nxt h a = hd (xs @ [b]) \<and> prv h b = last (a # xs)"
  by (induction xs arbitrary: a) auto

lemma list_add_between_Ok:
  "new \<noteq> NULL \<Longrightarrow> p \<noteq> NULL \<Longrightarrow> n \<noteq> NULL \<Longrightarrow> new \<noteq> n \<Longrightarrow> list_add_between new p n h = Ok (insert_links new p n h)"
  by (auto simp: list_add_between_def set_nxt_def set_prv_def insert_links_def)

lemma linked_insert:
  assumes "linked h a (ys @ zs) b" and "distinct (a # ys @ zs)" and "distinct (ys @ zs @ [b])" and "new \<notin> set (a # ys @ zs @ [b])"
  shows "linked (insert_links new (last (a # ys)) (hd (zs @ [b])) h) a (ys @ new # zs) b"
  using assms
proof (induction ys arbitrary: a)
  case Nil
  show ?case
  proof (cases zs)
    case Nil
    with Nil.prems show ?thesis by (auto simp: insert_links_def)
  next
    case (Cons z zs')
    with Nil.prems have "linked (insert_links new a z h) z zs' b = linked h z zs' b"
      by (intro linked_frame) (auto simp: insert_links_def)
    with Nil.prems Cons show ?thesis by (auto simp: insert_links_def)
  qed
next
  case (Cons y ys)
  let ?h = "insert_links new (last (y # ys)) (hd (zs @ [b])) h"
  have "linked ?h y (ys @ new # zs) b" using Cons.prems by (intro Cons.IH) auto
  moreover have "last (y # ys) \<in> set (y # ys)" by (rule last_in_set) simp
  then have "a \<noteq> last (y # ys)" using Cons.prems by auto
  moreover have "hd (zs @ [b]) \<in> set (zs @ [b])" by (intro hd_in_set) simp
  then have "y \<noteq> hd (zs @ [b])" using Cons.prems by auto
  ultimately show ?case using Cons.prems by (auto simp: insert_links_def)
qed

lemma linked_remove:
  assumes "linked h a (ys @ x # zs) b" and "distinct (a # ys @ x # zs)" and "distinct (ys @ x # zs @ [b])"
  shows "linked (remove_links x (last (a # ys)) (hd (zs @ [b])) h) a (ys @ zs) b"
  using assms
proof (induction ys arbitrary: a)
  case Nil
  show ?case
  proof (cases zs)
    case Nil
    with Nil.prems show ?thesis by (auto simp: remove_links_def)
  next
    case (Cons z zs')
    with Nil.prems have "linked (remove_links x a z h) z zs' b = linked h z zs' b"
      by (intro linked_frame) (auto simp: remove_links_def)
    with Nil.prems Cons show ?thesis by (auto simp: remove_links_def)
  qed
next
  case (Cons y ys)
  let ?h = "remove_links x (last (y # ys)) (hd (zs @ [b])) h"
  have "linked ?h y (ys @ zs) b" using Cons.prems by (intro Cons.IH) auto
  moreover have "last (y # ys) \<in> set (y # ys)" by (rule last_in_set) simp
  then have "a \<noteq> last (y # ys)" using Cons.prems by auto
  moreover have "hd (zs @ [b]) \<in> set (zs @ [b])" by (intro hd_in_set) simp
  then have "y \<noteq> hd (zs @ [b])" using Cons.prems by auto
  ultimately show ?case using Cons.prems by (auto simp: remove_links_def)
qed

lemma is_list_init: "q \<noteq> NULL \<Longrightarrow> \<exists>h'. INIT_LIST_HEAD q h = Ok h' \<and> is_list h' q []
    \<and> (\<forall>z. z \<noteq> q \<longrightarrow> nxt h' z = nxt h z \<and> prv h' z = prv h z)"
  by (auto simp: INIT_LIST_HEAD_def set_nxt_def set_prv_def is_list_def)

lemma is_list_split:
  assumes "is_list h q (ys @ x # zs)"
  shows "prv h x = last (q # ys)" "nxt h x = hd (zs @ [q])" "last (q # ys) \<noteq> NULL" "hd (zs @ [q]) \<noteq> NULL" "x \<noteq> NULL"
proof -
  from assms have l: "linked h q ys x" "linked h x zs q" by (auto simp: is_list_def linked_append)
  from linked_ends [OF l(1)] show "prv h x = last (q # ys)" by simp
  from linked_ends [OF l(2)] show "nxt h x = hd (zs @ [q])" by simp
  have "last (q # ys) \<in> set (q # ys)" by (rule last_in_set) simp
  with assms show "last (q # ys) \<noteq> NULL" by (auto simp: is_list_def)
  have "hd (zs @ [q]) \<in> set (zs @ [q])" by (intro hd_in_set) simp
  with assms show "hd (zs @ [q]) \<noteq> NULL" by (auto simp: is_list_def)
  from assms show "x \<noteq> NULL" by (auto simp: is_list_def)
qed

lemma list_add_list:
  assumes "is_list h q xs" and "new \<noteq> NULL" and "new \<notin> set (q # xs)"
  shows "list_add new q h = Ok (insert_links new q (hd (xs @ [q])) h)"
    and "is_list (insert_links new q (hd (xs @ [q])) h) q (new # xs)"
proof -
  have l: "linked h q xs q" and q: "q \<noteq> NULL" using assms(1) by (auto simp: is_list_def)
  have n: "hd (xs @ [q]) \<in> set (xs @ [q])" by (intro hd_in_set) simp
  then have "hd (xs @ [q]) \<noteq> NULL" "new \<noteq> hd (xs @ [q])" using assms by (auto simp: is_list_def)
  with q linked_ends [OF l] assms(2) show "list_add new q h = Ok (insert_links new q (hd (xs @ [q])) h)"
    by (simp add: list_add_def get_nxt_def list_add_between_Ok)
  show "is_list (insert_links new q (hd (xs @ [q])) h) q (new # xs)"
    using linked_insert [of h q "[]" xs q new] assms by (auto simp: is_list_def)
qed

lemma list_add_tail_list:
  assumes "is_list h q xs" and "new \<noteq> NULL" and "new \<notin> set (q # xs)"
  shows "list_add_tail new q h = Ok (insert_links new (last (q # xs)) q h)"
    and "is_list (insert_links new (last (q # xs)) q h) q (xs @ [new])"
proof -
  have l: "linked h q xs q" and q: "q \<noteq> NULL" using assms(1) by (auto simp: is_list_def)
  have "last (q # xs) \<in> set (q # xs)" by (rule last_in_set) simp
  then have "last (q # xs) \<noteq> NULL" using assms by (auto simp: is_list_def)
  with q linked_ends [OF l] assms(2,3) show "list_add_tail new q h = Ok (insert_links new (last (q # xs)) q h)"
    by (simp add: list_add_tail_def get_prv_def list_add_between_Ok)
  show "is_list (insert_links new (last (q # xs)) q h) q (xs @ [new])"
    using linked_insert [of h q xs "[]" q new] assms by (auto simp: is_list_def)
qed

lemma list_del_list:
  assumes "is_list h q (ys @ x # zs)"
  shows "list_del x h = Ok (remove_links x (last (q # ys)) (hd (zs @ [q])) h)"
    and "is_list (remove_links x (last (q # ys)) (hd (zs @ [q])) h) q (ys @ zs)"
proof -
  note split = is_list_split [OF assms]
  show "list_del x h = Ok (remove_links x (last (q # ys)) (hd (zs @ [q])) h)"
    using split by (simp add: list_del_def get_prv_def get_nxt_def list_del_between_def set_nxt_def set_prv_def remove_links_def)
  show "is_list (remove_links x (last (q # ys)) (hd (zs @ [q])) h) q (ys @ zs)"
    using linked_remove [of h q ys x zs q] assms by (auto simp: is_list_def)
qed

lemma list_empty_list: "is_list h q xs \<Longrightarrow> list_empty h q = Ok (xs = [])"
  by (cases xs) (auto simp: list_empty_def get_nxt_def is_list_def)

lemma list_first_list: "is_list h q (x # xs) \<Longrightarrow> list_first h q = Ok x"
  by (auto simp: list_first_def get_nxt_def is_list_def)

lemma list_is_last_list: "is_list h q (ys @ x # zs) \<Longrightarrow> list_is_last h x q = Ok (zs = [])"
  using is_list_split [of h q ys x zs]
  by (cases zs) (auto simp: list_is_last_def get_nxt_def is_list_def)

text \<open>A list is not touched by changes to the links of other nodes.\<close>

lemma is_list_frame:
  "is_list h q xs \<Longrightarrow> \<forall>z \<in> set (q # xs). nxt h' z = nxt h z \<and> prv h' z = prv h z \<Longrightarrow> is_list h' q xs"
  using linked_frame [of q xs h' h q] by (auto simp: is_list_def)

section \<open>The lists of the kernel together\<close>

text \<open>\<open>Q\<close> gives the sequence on every initialised list head; \<open>free_node\<close>: an anchor on no list.\<close>

definition free_node :: "(node \<rightharpoonup> node list) \<Rightarrow> node \<Rightarrow> bool" where
  "free_node Q x \<longleftrightarrow> (\<forall>q xs. Q q = Some xs \<longrightarrow> x \<notin> set (q # xs))"

definition separate :: "(node \<rightharpoonup> node list) \<Rightarrow> bool" where
  "separate Q \<longleftrightarrow> (\<forall>q xs. Q q = Some xs \<longrightarrow> distinct (q # xs)) \<and>
     (\<forall>q r xs ys. Q q = Some xs \<longrightarrow> Q r = Some ys \<longrightarrow> q \<noteq> r \<longrightarrow> set (q # xs) \<inter> set (r # ys) = {})"

lemma separateD: "separate Q \<Longrightarrow> Q q = Some xs \<Longrightarrow> Q r = Some ys \<Longrightarrow> q \<noteq> r \<Longrightarrow> set (q # xs) \<inter> set (r # ys) = {}"
  unfolding separate_def by blast

lemma separate_distinct: "separate Q \<Longrightarrow> Q q = Some xs \<Longrightarrow> distinct (q # xs)"
  unfolding separate_def by blast

lemma free_node_upd: "free_node (Q(q \<mapsto> xs)) x \<longleftrightarrow> x \<notin> set (q # xs) \<and> (\<forall>r ys. r \<noteq> q \<longrightarrow> Q r = Some ys \<longrightarrow> x \<notin> set (r # ys))"
  unfolding free_node_def by (auto simp: fun_upd_apply)

lemma free_node_keep:
  assumes "z \<notin> set (q # xs')" and "\<And>xs. Q q = Some xs \<Longrightarrow> z \<notin> set (q # xs)"
  shows "free_node (Q(q \<mapsto> xs')) z = free_node Q z"
proof
  assume l: "free_node (Q(q \<mapsto> xs')) z"
  show "free_node Q z" unfolding free_node_def
  proof (intro allI impI)
    fix r us assume "Q r = Some us"
    with l assms(2) show "z \<notin> set (r # us)" by (cases "r = q") (simp, simp add: free_node_upd)
  qed
next
  assume "free_node Q z"
  with assms(1) show "free_node (Q(q \<mapsto> xs')) z" by (simp only: free_node_upd) (simp only: free_node_def, blast)
qed

lemma separate_updI:
  assumes "separate Q" and "distinct (q # xs)" and "\<And>r ys. r \<noteq> q \<Longrightarrow> Q r = Some ys \<Longrightarrow> set (q # xs) \<inter> set (r # ys) = {}"
  shows "separate (Q(q \<mapsto> xs))"
  unfolding separate_def
proof (intro conjI allI impI)
  fix r ys assume "(Q(q \<mapsto> xs)) r = Some ys"
  then show "distinct (r # ys)" using assms(2) separate_distinct [OF assms(1), of r ys] by (cases "r = q") auto
next
  fix r r' ys ys' assume Q: "(Q(q \<mapsto> xs)) r = Some ys" "(Q(q \<mapsto> xs)) r' = Some ys'" and ne: "r \<noteq> r'"
  show "set (r # ys) \<inter> set (r' # ys') = {}"
  proof (cases "r = q")
    case True
    with Q ne assms(3) [of r' ys'] show ?thesis by simp
  next
    case False
    with Q ne assms(3) [of r ys] separateD [OF assms(1), of r ys r' ys'] show ?thesis
      by (cases "r' = q") (auto simp: Int_commute)
  qed
qed

locale queue_family =
  fixes holds :: "'h \<Rightarrow> (node \<rightharpoonup> node list) \<Rightarrow> bool"
    and init :: "node \<Rightarrow> 'h \<Rightarrow> 'h res"
    and add :: "node \<Rightarrow> node \<Rightarrow> 'h \<Rightarrow> 'h res" and add_tail :: "node \<Rightarrow> node \<Rightarrow> 'h \<Rightarrow> 'h res"
    and del :: "node \<Rightarrow> 'h \<Rightarrow> 'h res"
    and empty :: "'h \<Rightarrow> node \<Rightarrow> bool res" and first :: "'h \<Rightarrow> node \<Rightarrow> node res"
    and queued :: "'h \<Rightarrow> node \<Rightarrow> bool"
  assumes holds_separate: "holds h Q \<Longrightarrow> separate Q"
    and init_law: "holds h Q \<Longrightarrow> q \<noteq> NULL \<Longrightarrow> free_node Q q \<or> Q q = Some [] \<Longrightarrow> \<exists>h'. init q h = Ok h' \<and> holds h' (Q(q \<mapsto> []))"
    and add_law: "holds h Q \<Longrightarrow> Q q = Some xs \<Longrightarrow> x \<noteq> NULL \<Longrightarrow> free_node Q x \<Longrightarrow>
      \<exists>h'. add x q h = Ok h' \<and> holds h' (Q(q \<mapsto> x # xs))"
    and add_tail_law: "holds h Q \<Longrightarrow> Q q = Some xs \<Longrightarrow> x \<noteq> NULL \<Longrightarrow> free_node Q x \<Longrightarrow>
      \<exists>h'. add_tail x q h = Ok h' \<and> holds h' (Q(q \<mapsto> xs @ [x]))"
    and del_law: "holds h Q \<Longrightarrow> Q q = Some (ys @ x # zs) \<Longrightarrow> \<exists>h'. del x h = Ok h' \<and> holds h' (Q(q \<mapsto> ys @ zs))"
    and empty_law: "holds h Q \<Longrightarrow> Q q = Some xs \<Longrightarrow> empty h q = Ok (xs = [])"
    and first_law: "holds h Q \<Longrightarrow> Q q = Some (x # xs) \<Longrightarrow> first h q = Ok x"
    and queued_law: "holds h Q \<Longrightarrow> queued h x \<longleftrightarrow> \<not> free_node Q x"
    and null_law: "holds h Q \<Longrightarrow> free_node Q NULL"
begin

lemma not_null: "holds h Q \<Longrightarrow> Q q = Some xs \<Longrightarrow> x \<in> set (q # xs) \<Longrightarrow> x \<noteq> NULL"
  using null_law [of h Q] unfolding free_node_def by blast

text \<open>A node taken off its list is on none.\<close>

lemma removed_free:
  assumes "holds h Q" and "Q q = Some (ys @ x # zs)"
  shows "free_node (Q(q \<mapsto> ys @ zs)) x"
proof -
  note sep = holds_separate [OF assms(1)]
  have "x \<notin> set (r # us)" if "r \<noteq> q" "Q r = Some us" for r us
    using separateD [OF sep assms(2) that(2)] that(1) by auto
  with separate_distinct [OF sep assms(2)] show ?thesis by (auto simp: free_node_upd)
qed

text \<open>The first node of one queue goes to the end of another: what waking a process does.\<close>

lemma move_first:
  assumes "holds h Q" and "Q q = Some (x # xs)" and "Q r = Some ys" and "q \<noteq> r"
  shows "\<exists>h' h''. first h q = Ok x \<and> del x h = Ok h' \<and> add_tail x r h' = Ok h'' \<and> holds h'' (Q(q \<mapsto> xs, r \<mapsto> ys @ [x]))"
proof -
  from del_law [OF assms(1), of q "[]" x xs] assms(2) obtain h' where h': "del x h = Ok h'" "holds h' (Q(q \<mapsto> xs))" by auto
  have "free_node (Q(q \<mapsto> xs)) x" using removed_free [of h Q q "[]" x xs] assms(1,2) by simp
  moreover have "x \<noteq> NULL" using not_null [OF assms(1,2)] by simp
  ultimately obtain h'' where "add_tail x r h' = Ok h''" "holds h'' (Q(q \<mapsto> xs, r \<mapsto> ys @ [x]))"
    using add_tail_law [OF h'(2), of r ys x] assms(3,4) by auto
  with h' first_law [OF assms(1,2)] show ?thesis by blast
qed

text \<open>Queues are first in, first out.\<close>

lemma fifo:
  assumes "holds h Q" and "Q q = Some xs" and "x \<noteq> NULL" and "free_node Q x"
  shows "\<exists>h'. add_tail x q h = Ok h' \<and> first h' q = Ok (hd (xs @ [x])) \<and> empty h' q = Ok False"
proof -
  from add_tail_law [OF assms] obtain h' where h': "add_tail x q h = Ok h'" "holds h' (Q(q \<mapsto> xs @ [x]))" by auto
  have "xs @ [x] = hd (xs @ [x]) # tl (xs @ [x])" by simp
  then have "first h' q = Ok (hd (xs @ [x]))"
    using first_law [OF h'(2), of q "hd (xs @ [x])" "tl (xs @ [x])"] by (simp del: hd_append)
  with h' empty_law [OF h'(2), of q] show ?thesis by simp
qed

end

section \<open>The lists of list.c are such queues\<close>

definition holds_lists :: "links \<Rightarrow> (node \<rightharpoonup> node list) \<Rightarrow> bool" where
  "holds_lists h Q \<longleftrightarrow> separate Q \<and> (\<forall>q xs. Q q = Some xs \<longrightarrow> is_list h q xs) \<and> (\<forall>x. free_node Q x \<longleftrightarrow> nxt h x = NULL) \<and> free_node Q NULL"

lemma holdsD:
  assumes "holds_lists h Q"
  shows "separate Q" "Q q = Some xs \<Longrightarrow> is_list h q xs" "free_node Q x \<longleftrightarrow> nxt h x = NULL" "free_node Q NULL"
  using assms unfolding holds_lists_def by blast+

lemma holds_not_in: "holds_lists h Q \<Longrightarrow> Q q = Some xs \<Longrightarrow> free_node Q x \<Longrightarrow> x \<notin> set (q # xs)"
  unfolding free_node_def by blast

lemma holds_update:
  assumes holds: "holds_lists h Q" and list: "is_list h' q xs'"
    and others: "\<And>r ys. r \<noteq> q \<Longrightarrow> Q r = Some ys \<Longrightarrow> set (q # xs') \<inter> set (r # ys) = {}"
    and frame: "\<And>z. z \<notin> touched \<Longrightarrow> nxt h' z = nxt h z \<and> prv h' z = prv h z"
    and local: "\<And>r ys z. r \<noteq> q \<Longrightarrow> Q r = Some ys \<Longrightarrow> z \<in> set (r # ys) \<Longrightarrow> z \<notin> touched"
    and free: "\<And>x. free_node (Q(q \<mapsto> xs')) x \<longleftrightarrow> nxt h' x = NULL" "free_node (Q(q \<mapsto> xs')) NULL"
  shows "holds_lists h' (Q(q \<mapsto> xs'))"
proof -
  have "distinct (q # xs')" using list by (simp add: is_list_def)
  from separate_updI [OF holdsD(1) [OF holds] this others] have "separate (Q(q \<mapsto> xs'))" .
  moreover have "is_list h' r ys" if "(Q(q \<mapsto> xs')) r = Some ys" for r ys
  proof (cases "r = q")
    case True
    with that list show ?thesis by simp
  next
    case False
    with that have Q: "Q r = Some ys" by simp
    show ?thesis by (rule is_list_frame [OF holdsD(2) [OF holds Q]]) (use frame local [OF False Q] in blast)
  qed
  ultimately show ?thesis unfolding holds_lists_def using free by blast
qed

lemma is_list_nxt: "is_list h q xs \<Longrightarrow> z \<in> set (q # xs) \<Longrightarrow> nxt h z \<noteq> NULL"
proof -
  assume l: "is_list h q xs" and z: "z \<in> set (q # xs)"
  show "nxt h z \<noteq> NULL"
  proof (cases "z = q")
    case True
    then show ?thesis using l by (cases xs) (auto simp: is_list_def)
  next
    case False
    with z obtain ys zs where "xs = ys @ z # zs" by (auto dest: split_list)
    with is_list_split [of h q ys z zs] l show ?thesis by simp
  qed
qed

lemma holds_insert:
  assumes holds: "holds_lists h Q" and q: "Q q = Some xs" and x: "x \<noteq> NULL" "free_node Q x"
    and pn: "p \<in> set (q # xs)" "n \<in> set (q # xs)"
    and list: "is_list (insert_links x p n h) q xs'" and set: "set xs' = insert x (set xs)"
  shows "holds_lists (insert_links x p n h) (Q(q \<mapsto> xs'))"
proof (rule holds_update [where touched = "{x, p, n}", OF holds list])
  have sep: "separate Q" using holds by (simp add: holds_lists_def)
  have free: "x \<notin> set (r # ys)" if "Q r = Some ys" for r ys using x(2) that unfolding free_node_def by blast
  {
    fix r ys assume r: "r \<noteq> q" "Q r = Some ys"
    from separateD [OF sep q r(2)] r(1) free [OF r(2)] set show "set (q # xs') \<inter> set (r # ys) = {}" by auto
    fix z assume "z \<in> set (r # ys)"
    with separateD [OF sep q r(2)] r(1) free [OF r(2)] pn show "z \<notin> {x, p, n}" by auto
  }
  show "free_node (Q(q \<mapsto> xs')) z \<longleftrightarrow> nxt (insert_links x p n h) z = NULL" for z
  proof (cases "z \<in> set (q # xs')")
    case True
    with is_list_nxt [OF list, of z] show ?thesis by (simp add: free_node_upd)
  next
    case False
    then have "nxt (insert_links x p n h) z = nxt h z" using pn set by (auto simp: insert_links_def)
    moreover have "free_node (Q(q \<mapsto> xs')) z = free_node Q z" using False q set by (intro free_node_keep) auto
    ultimately show ?thesis using holds by (simp add: holds_lists_def)
  qed
  have "NULL \<notin> set (q # xs')" using list by (simp add: is_list_def)
  moreover have "free_node Q NULL" using holds unfolding holds_lists_def by (elim conjE)
  moreover have "NULL \<notin> set (q # xs)" by (rule holds_not_in [OF holds q holdsD(4) [OF holds]])
  ultimately show "free_node (Q(q \<mapsto> xs')) NULL" using q free_node_keep [of NULL q xs' Q] by simp
qed (auto simp: insert_links_def)

interpretation lists: queue_family holds_lists INIT_LIST_HEAD list_add list_add_tail list_del list_empty list_first "\<lambda>h x. nxt h x \<noteq> NULL"
proof
  fix h Q q xs x ys zs
  show "holds_lists h Q \<Longrightarrow> separate Q" by (simp add: holds_lists_def)
  show "holds_lists h Q \<Longrightarrow> free_node Q NULL" unfolding holds_lists_def by (elim conjE)
  show "holds_lists h Q \<Longrightarrow> (nxt h x \<noteq> NULL) \<longleftrightarrow> \<not> free_node Q x" unfolding holds_lists_def by blast
  show "holds_lists h Q \<Longrightarrow> Q q = Some xs \<Longrightarrow> list_empty h q = Ok (xs = [])"
    by (auto simp: holds_lists_def intro: list_empty_list)
  show "holds_lists h Q \<Longrightarrow> Q q = Some (x # xs) \<Longrightarrow> list_first h q = Ok x"
    by (auto simp: holds_lists_def intro: list_first_list)
  {
    assume h: "holds_lists h Q" "Q q = Some xs" "x \<noteq> NULL" "free_node Q x"
    have l: "is_list h q xs" "x \<notin> set (q # xs)" using holdsD(2) [OF h(1,2)] holds_not_in [OF h(1,2,4)] by simp_all
    have n: "hd (xs @ [q]) \<in> set (q # xs)" using hd_in_set [of "xs @ [q]"] by auto
    have p: "last (q # xs) \<in> set (q # xs)" by (rule last_in_set) simp
    show "\<exists>h'. list_add x q h = Ok h' \<and> holds_lists h' (Q(q \<mapsto> x # xs))"
      using list_add_list [OF l(1) h(3) l(2)] holds_insert [OF h _ n, of q "x # xs"] by auto
    show "\<exists>h'. list_add_tail x q h = Ok h' \<and> holds_lists h' (Q(q \<mapsto> xs @ [x]))"
      using list_add_tail_list [OF l(1) h(3) l(2)] holds_insert [OF h p, of q "xs @ [x]"] by auto
  }
  {
    assume h: "holds_lists h Q" "Q q = Some (ys @ x # zs)"
    then have l: "is_list h q (ys @ x # zs)" and sep: "separate Q" by (auto simp: holds_lists_def)
    let ?p = "last (q # ys)" and ?n = "hd (zs @ [q])"
    let ?h = "remove_links x ?p ?n h"
    have pn: "?p \<in> set (q # ys)" "?n \<in> set (zs @ [q])" by (rule last_in_set, simp) (intro hd_in_set, simp)
    have "holds_lists ?h (Q(q \<mapsto> ys @ zs))"
    proof (rule holds_update [where touched = "{x, ?p, ?n}", OF h(1) list_del_list(2) [OF l]])
      {
        fix r us assume r: "r \<noteq> q" "Q r = Some us"
        from separateD [OF sep h(2) r(2)] r(1) show "set (q # ys @ zs) \<inter> set (r # us) = {}" by auto
        fix z assume "z \<in> set (r # us)"
        with separateD [OF sep h(2) r(2)] r(1) pn show "z \<notin> {x, ?p, ?n}" by auto
      }
      show "free_node (Q(q \<mapsto> ys @ zs)) z \<longleftrightarrow> nxt ?h z = NULL" for z
      proof (cases "z = x")
        case True
        have "x \<notin> set (r # us)" if "r \<noteq> q" "Q r = Some us" for r us
          using separateD [OF sep h(2) that(2)] that(1) by auto
        with True separate_distinct [OF sep h(2)] show ?thesis by (auto simp: free_node_upd remove_links_def)
      next
        case zx: False
        show ?thesis
        proof (cases "z \<in> set (q # ys @ zs)")
          case True
          with is_list_nxt [OF list_del_list(2) [OF l], of z] show ?thesis by (simp add: free_node_upd)
        next
          case False
          then have "nxt ?h z = nxt h z" using pn zx by (auto simp: remove_links_def)
          moreover have "free_node (Q(q \<mapsto> ys @ zs)) z = free_node Q z"
            using False zx h(2) by (intro free_node_keep) auto
          ultimately show ?thesis using h(1) by (simp add: holds_lists_def)
        qed
      qed
      have "free_node Q NULL" using h(1) unfolding holds_lists_def by (elim conjE)
      moreover have "NULL \<notin> set (q # ys @ x # zs)" by (rule holds_not_in [OF h holdsD(4) [OF h(1)]])
      ultimately show "free_node (Q(q \<mapsto> ys @ zs)) NULL" using h(2) by (subst free_node_keep) auto
    qed (auto simp: remove_links_def)
    with list_del_list(1) [OF l] show "\<exists>h'. list_del x h = Ok h' \<and> holds_lists h' (Q(q \<mapsto> ys @ zs))" by blast
  }
  {
    assume h: "holds_lists h Q" "q \<noteq> NULL" "free_node Q q \<or> Q q = Some []"
    then have sep: "separate Q" by (simp add: holds_lists_def)
    have other: "q \<notin> set (r # us)" if "r \<noteq> q" "Q r = Some us" for r us
      using h(3) that separateD [OF sep, of q "[]" r us] by (auto simp: free_node_def)
    have only: "us = []" if "Q q = Some us" for us using h(3) that by (auto simp: free_node_def)
    from is_list_init [OF h(2), of h] obtain h' where h': "INIT_LIST_HEAD q h = Ok h'" "is_list h' q []"
      "\<And>z. z \<noteq> q \<Longrightarrow> nxt h' z = nxt h z \<and> prv h' z = prv h z" by auto
    have "holds_lists h' (Q(q \<mapsto> []))"
    proof (rule holds_update [where touched = "{q}", OF h(1) h'(2)])
      show "free_node (Q(q \<mapsto> [])) z \<longleftrightarrow> nxt h' z = NULL" for z
      proof (cases "z = q")
        case True
        with is_list_nxt [OF h'(2), of z] show ?thesis by (simp add: free_node_upd)
      next
        case False
        moreover from False have "free_node (Q(q \<mapsto> [])) z = free_node Q z"
          using only by (intro free_node_keep) auto
        ultimately show ?thesis using h'(3) h(1) by (simp add: holds_lists_def)
      qed
      have "free_node Q NULL" using h(1) unfolding holds_lists_def by (elim conjE)
      then show "free_node (Q(q \<mapsto> [])) NULL" using h(2) only by (subst free_node_keep) auto
    qed (use other h'(3) in auto)
    with h'(1) show "\<exists>h'. INIT_LIST_HEAD q h = Ok h' \<and> holds_lists h' (Q(q \<mapsto> []))" by blast
  }
qed

section \<open>First in, first out\<close>

text \<open>Two queues: task 2 is ready and task 3 waits in semaphore 0.\<close>

definition sample_links :: links where
  "sample_links = \<lparr>
     nxt = (\<lambda>_. NULL)(Ready_Queue := Task 2, Task 2 := Ready_Queue, Sem_Queue 0 := Task 3, Task 3 := Sem_Queue 0),
     prv = (\<lambda>_. NULL)(Ready_Queue := Task 2, Task 2 := Ready_Queue, Sem_Queue 0 := Task 3, Task 3 := Sem_Queue 0)\<rparr>"

definition sample_queues :: "node \<rightharpoonup> node list" where
  "sample_queues = [Ready_Queue \<mapsto> [Task 2], Sem_Queue 0 \<mapsto> [Task 3]]"

lemma sample_holds: "holds_lists sample_links sample_queues"
proof -
  have Q: "sample_queues q = Some xs \<longleftrightarrow> q = Ready_Queue \<and> xs = [Task 2] \<or> q = Sem_Queue 0 \<and> xs = [Task 3]" for q xs
    by (auto simp: sample_queues_def)
  have free: "free_node sample_queues x \<longleftrightarrow> x \<notin> {Ready_Queue, Task 2, Sem_Queue 0, Task 3}" for x
    unfolding free_node_def Q by auto
  show ?thesis
    unfolding holds_lists_def free separate_def Q
    by (auto simp: sample_links_def is_list_def)
qed

lemma sample_free: "free_node sample_queues (Task i) \<longleftrightarrow> i \<noteq> 2 \<and> i \<noteq> 3"
  unfolding free_node_def sample_queues_def by auto

text \<open>
  The lists of list.c are queues: \<open>list_add_tail\<close> of a node that is on no list puts it behind the
  others, leaves all other lists as they were, and \<open>list_first\<close> still gives the one that came first.
\<close>

lemma lists_fifo:
  assumes "holds_lists h Q" and "Q q = Some xs" and "x \<noteq> NULL" and "free_node Q x"
  shows "\<exists>h'. list_add_tail x q h = Ok h' \<and> list_first h' q = Ok (hd (xs @ [x])) \<and> list_empty h' q = Ok False \<and>
    (\<forall>r ys. r \<noteq> q \<longrightarrow> Q r = Some ys \<longrightarrow> is_list h' r ys)"
proof -
  from lists.fifo [OF assms] obtain h' where
    h': "list_add_tail x q h = Ok h'" "list_first h' q = Ok (hd (xs @ [x]))" "list_empty h' q = Ok False" by blast
  moreover from lists.add_tail_law [OF assms] h'(1) have "holds_lists h' (Q(q \<mapsto> xs @ [x]))" by auto
  then have "is_list h' r ys" if "r \<noteq> q" "Q r = Some ys" for r ys
    using holdsD(2) [of h' "Q(q \<mapsto> xs @ [x])" r ys] that by simp
  ultimately show ?thesis by blast
qed

end
