(* ===== verification/Kernel_Utils.thy ===== *)
theory Kernel_Utils
  imports Prelude
begin

text \<open>
  The helpers of zeos_full/utils.c: the copy loops between kernel and user memory, the check
  of user pointers \<open>access_ok\<close> and the clock \<open>get_ticks\<close>. Memory is a function from 32-bit
  addresses to bytes; a copy whose addresses wrap around does what the machine does.
\<close>

section \<open>Copying\<close>

type_synonym memory = "dword \<Rightarrow> byte"

text \<open>\<open>*q++ = *p++\<close> on \<open>DWord\<close> pointers: four bytes are read, then written.\<close>

definition move_dword :: "dword \<Rightarrow> dword \<Rightarrow> memory \<Rightarrow> memory" where
  "move_dword p q m = m(q := m p, q + 1 := m (p + 1), q + 2 := m (p + 2), q + 3 := m (p + 3))"

function copy_data :: "dword \<Rightarrow> dword \<Rightarrow> int \<Rightarrow> memory \<Rightarrow> memory" where
  "copy_data start dest len m =
     (if 4 < len then copy_data (start + 4) (dest + 4) (len - 4) (move_dword start dest m)
      else if 0 < len then copy_data (start + 1) (dest + 1) (len - 1) (m(dest := m start))
      else m)"
  by pat_completeness auto
termination by (relation "measure (\<lambda>(_, _, len, _). nat len)") auto

declare copy_data.simps [simp del]

definition copy_from_user :: "dword \<Rightarrow> dword \<Rightarrow> int \<Rightarrow> memory \<Rightarrow> int \<times> memory" where
  "copy_from_user start dest len m = (0, copy_data start dest len m)"

definition copy_to_user :: "dword \<Rightarrow> dword \<Rightarrow> int \<Rightarrow> memory \<Rightarrow> int \<times> memory" where
  "copy_to_user start dest len m = (0, copy_data start dest len m)"

section \<open>Pointers of the user\<close>

definition USER_FIRST_PAGE :: dword where "USER_FIRST_PAGE = 0x100000 div 0x1000"
definition NUM_PAG_CODE :: nat where "NUM_PAG_CODE = 8"
definition NUM_PAG_DATA :: nat where "NUM_PAG_DATA = 20"
definition VERIFY_READ :: int where "VERIFY_READ = 0"
definition VERIFY_WRITE :: int where "VERIFY_WRITE = 1"

definition access_ok :: "int \<Rightarrow> dword \<Rightarrow> dword \<Rightarrow> int" where
  "access_ok type addr len =
     (let addr_ini = drop_bit 12 addr; addr_fin = drop_bit 12 (addr + len) in
      if addr_fin < addr_ini then 0
      else if type = VERIFY_WRITE \<and> USER_FIRST_PAGE + of_nat NUM_PAG_CODE \<le> addr_ini
          \<and> addr_fin \<le> USER_FIRST_PAGE + of_nat NUM_PAG_CODE + of_nat NUM_PAG_DATA then 1
      else if USER_FIRST_PAGE \<le> addr_ini \<and> addr_fin \<le> USER_FIRST_PAGE + of_nat NUM_PAG_CODE + of_nat NUM_PAG_DATA then 1
      else 0)"

section \<open>The clock\<close>

text \<open>
  \<open>do_div\<close> divides a 64-bit number, given by its halves, by a 32-bit one, with the \<open>divl\<close>
  instruction: the quotient of \<open>upper:low\<close> must fit in 32 bits, else the processor raises a
  divide error. The result is the new 64-bit number and the remainder.
\<close>

definition divl :: "dword \<Rightarrow> dword \<Rightarrow> dword \<Rightarrow> (dword \<times> dword) res" where
  "divl upper low base =
     (let n = unat upper * 2 ^ 32 + unat low in
      if base = 0 \<or> 2 ^ 32 \<le> n div unat base then Fault DivByZero
      else Ok (of_nat (n div unat base), of_nat (n mod unat base)))"

definition do_div :: "64 word \<Rightarrow> dword \<Rightarrow> (64 word \<times> dword) res" where
  "do_div n base =
     (let low = ucast n; high = ucast (drop_bit 32 n);
          upper = (if high \<noteq> 0 then high mod base else high);
          high = (if high \<noteq> 0 then high div base else high) in
      bind (divl upper low base) (\<lambda>(low, md). Ok (push_bit 32 (ucast high) OR ucast low, md)))"

definition CYCLESPERTICK :: dword where "CYCLESPERTICK = 109000"

definition get_ticks :: "64 word \<Rightarrow> dword res" where
  "get_ticks tsc = bind (do_div tsc CYCLESPERTICK) (\<lambda>(ticks, _). Ok (ucast ticks))"

section \<open>What a copy does\<close>

lemma copy_data_word: "4 < len \<Longrightarrow> copy_data p q len m = copy_data (p + 4) (q + 4) (len - 4) (move_dword p q m)"
  by (subst copy_data.simps) simp

lemma copy_data_byte: "0 < len \<Longrightarrow> len \<le> 4 \<Longrightarrow> copy_data p q len m = copy_data (p + 1) (q + 1) (len - 1) (m(q := m p))"
  by (subst copy_data.simps) simp

lemma copy_data_done [simp]: "len \<le> 0 \<Longrightarrow> copy_data p q len m = m"
  by (subst copy_data.simps) simp

definition apart :: "dword \<Rightarrow> dword \<Rightarrow> nat \<Rightarrow> bool" where
  "apart p q n \<longleftrightarrow> (\<forall>i<n. \<forall>j<n. p + of_nat i \<noteq> q + of_nat j)"

text \<open>The destination gets the source, the rest of the memory stays.\<close>

definition copied_over :: "dword \<Rightarrow> dword \<Rightarrow> nat \<Rightarrow> memory \<Rightarrow> memory" where
  "copied_over p q n m a = (if unat (a - q) < n then m (p + (a - q)) else m a)"

lemma copied_over_0 [simp]: "copied_over p q 0 m = m"
  by (auto simp: copied_over_def)

lemma copied_over_Suc:
  assumes "apart p q (Suc n)" and "Suc n < 2 ^ 32"
  shows "copied_over (p + 1) (q + 1) n (m(q := m p)) = copied_over p q (Suc n) m"
proof
  fix a
  show "copied_over (p + 1) (q + 1) n (m(q := m p)) a = copied_over p q (Suc n) m a"
  proof (cases "a = q")
    case True
    have "unat (- 1 :: dword) = 2 ^ 32 - 1" by (simp add: unsigned_minus_1_eq_mask mask_eq_exp_minus_1)
    with True assms(2) show ?thesis by (simp add: copied_over_def)
  next
    case False
    then have ne: "a - q \<noteq> 0" by simp
    then have u: "unat (a - (q + 1)) = unat (a - q) - 1" "0 < unat (a - q)"
      by (simp_all add: diff_diff_add [symmetric] unat_minus_one unat_gt_0)
    have "p + (a - q) \<noteq> q" if "unat (a - q) < Suc n"
    proof -
      have "p + of_nat (unat (a - q)) \<noteq> q + of_nat 0" using assms(1) that unfolding apart_def by blast
      then show ?thesis by simp
    qed
    moreover have "p + 1 + (a - (q + 1)) = p + (a - q)" by simp
    moreover have "(unat (a - (q + 1)) < n) = (unat (a - q) < Suc n)" using u by linarith
    ultimately show ?thesis using False by (simp add: copied_over_def)
  qed
qed

lemma apart_Suc: "apart p q (Suc n) \<Longrightarrow> apart (p + 1) (q + 1) n"
  unfolding apart_def by (metis (no_types, opaque_lifting) Suc_less_eq add.assoc of_nat_Suc)

lemma apart_less: "apart p q n \<Longrightarrow> k \<le> n \<Longrightarrow> apart p q k"
  unfolding apart_def by simp

lemma apart_skip: "apart p q (k + n) \<Longrightarrow> apart (p + of_nat k) (q + of_nat k) n"
proof (induction k arbitrary: p q)
  case (Suc k)
  have "apart (p + 1 + of_nat k) (q + 1 + of_nat k) n" using Suc.prems by (intro Suc.IH apart_Suc) simp
  moreover have "p + 1 + of_nat k = p + of_nat (Suc k)" "q + 1 + of_nat k = q + of_nat (Suc k)" by simp_all
  ultimately show ?case by simp
qed simp

lemma copied_over_append:
  "apart p q (k + n) \<Longrightarrow> k + n < 2 ^ 32 \<Longrightarrow>
   copied_over (p + of_nat k) (q + of_nat k) n (copied_over p q k m) = copied_over p q (k + n) m"
proof (induction k arbitrary: p q m)
  case 0
  show ?case by simp
next
  case (Suc k)
  have a: "apart p q (Suc k)" using apart_less [OF Suc.prems(1), of "Suc k"] by simp
  have "copied_over p q (Suc k + n) m = copied_over (p + 1) (q + 1) (k + n) (m(q := m p))"
    using copied_over_Suc [of p q "k + n" m] Suc.prems by simp
  also have "\<dots> = copied_over (p + 1 + of_nat k) (q + 1 + of_nat k) n (copied_over (p + 1) (q + 1) k (m(q := m p)))"
    using Suc.prems by (intro Suc.IH [symmetric] apart_Suc) simp_all
  also have "copied_over (p + 1) (q + 1) k (m(q := m p)) = copied_over p q (Suc k) m"
    using copied_over_Suc [OF a] Suc.prems(2) by simp
  finally show ?case by (simp add: ac_simps)
qed

lemma move_dword_bytes: "move_dword p q m = copied_over p q 4 m"
proof
  fix a
  consider "a = q" | "a = q + 1" | "a = q + 2" | "a = q + 3" | "a \<noteq> q" "a \<noteq> q + 1" "a \<noteq> q + 2" "a \<noteq> q + 3" by blast
  then show "move_dword p q m a = copied_over p q 4 m a"
  proof cases
    case 5
    have K: "a = q + of_nat k" if "unat (a - q) = k" for k unfolding that [symmetric] by simp
    have "\<not> unat (a - q) < 4"
    proof
      assume "unat (a - q) < 4"
      then consider "unat (a - q) = 0" | "unat (a - q) = 1" | "unat (a - q) = 2" | "unat (a - q) = 3" by linarith
      then show False
      proof cases
        case 1
        from K [OF 1] 5(1) show ?thesis by simp
      next
        case 2
        from K [OF 2] 5(2) show ?thesis by simp
      next
        case 3
        from K [OF 3] 5(3) show ?thesis by simp
      next
        case 4
        from K [OF 4] 5(4) show ?thesis by simp
      qed
    qed
    with 5 show ?thesis by (simp add: move_dword_def copied_over_def)
  qed (simp_all add: move_dword_def copied_over_def)
qed

lemma copy_data_copies:
  "apart p q n \<Longrightarrow> n < 2 ^ 32 \<Longrightarrow> copy_data p q (int n) m = copied_over p q n m"
proof (induction n arbitrary: p q m rule: less_induct)
  case (less n)
  consider "n = 0" | "0 < n" "n \<le> 4" | "4 < n" by linarith
  then show ?case
  proof cases
    case 1
    then show ?thesis by simp
  next
    case 2
    then obtain k where k: "n = Suc k" using gr0_implies_Suc by blast
    have "copy_data p q (int n) m = copy_data (p + 1) (q + 1) (int k) (m(q := m p))"
      using 2 k by (subst copy_data_byte) simp_all
    also have "\<dots> = copied_over (p + 1) (q + 1) k (m(q := m p))"
      using k less.prems apart_Suc [of p q k] by (intro less.IH) simp_all
    also have "\<dots> = copied_over p q n m" using copied_over_Suc [of p q k m] k less.prems by simp
    finally show ?thesis .
  next
    case 3
    then obtain k where k: "n = 4 + k" using le_Suc_ex less_imp_le by blast
    have rest: "apart (p + 4) (q + 4) k" using apart_skip [of p q 4 k] less.prems(1) k by simp
    have "copy_data p q (int n) m = copy_data (p + 4) (q + 4) (int k) (move_dword p q m)"
      using 3 k by (subst copy_data_word) simp_all
    also have "\<dots> = copied_over (p + 4) (q + 4) k (copied_over p q 4 m)"
      unfolding move_dword_bytes using k less.prems rest by (intro less.IH) simp_all
    also have "\<dots> = copied_over p q n m" using copied_over_append [of p q 4 k m] k less.prems by simp
    finally show ?thesis .
  qed
qed

section \<open>What the clock tells\<close>

text \<open>The two-step division is the 64-bit division: \<open>upper\<close> is less than the base.\<close>

lemma two_digits_less: "x < b \<Longrightarrow> l < m \<Longrightarrow> x * m + l < b * (m :: nat)"
proof -
  assume "x < b" "l < m"
  then have "Suc x * m \<le> b * m" by (intro mult_le_mono1) simp
  with \<open>l < m\<close> show ?thesis by simp
qed

lemma div_by_halves:
  assumes "0 < b"
  shows "(h * 2 ^ 32 + l) div b = (h div b) * 2 ^ 32 + ((h mod b) * 2 ^ 32 + l) div (b :: nat)"
proof -
  have "h * M + l = (h mod b) * M + l + b * ((h div b) * M)" for M
  proof -
    have "h * M = (h div b * b + h mod b) * M" by (simp only: div_mult_mod_eq)
    then show ?thesis by (simp only: add_mult_distrib add_mult_distrib2 mult.commute mult.left_commute add.commute add.left_commute)
  qed
  from this [of "2 ^ 32"] show ?thesis using assms by (metis add.commute div_mult_self2 less_irrefl)
qed


lemma get_ticks_divides [safe]: "get_ticks tsc = Ok (of_nat (unat tsc div 109000))"
proof -
  let ?h = "unat tsc div 2 ^ 32" and ?l = "unat tsc mod 2 ^ 32" and ?b = "109000 :: nat"
  define h :: dword where "h = ucast (drop_bit 32 tsc)"
  define low :: dword where "low = ucast tsc"
  have tsc: "unat tsc < 2 ^ 64" using unsigned_less [of tsc] by simp
  then have "?h < 2 ^ 32" by (simp add: div_less_iff_less_mult)
  then have h: "unat h = ?h" by (simp add: h_def unsigned_ucast_eq unat_drop_bit take_bit_nat_eq_self)
  have low: "unat low = ?l" by (simp add: low_def unsigned_ucast_eq take_bit_eq_mod)
  have base: "unat CYCLESPERTICK = ?b" "CYCLESPERTICK \<noteq> 0" by (simp_all add: CYCLESPERTICK_def)
  define upper where "upper = (if h \<noteq> 0 then h mod CYCLESPERTICK else h)"
  have upper: "unat upper = ?h mod ?b" using h base by (auto simp: upper_def unat_mod)
  define q where "q = (?h mod ?b * 2 ^ 32 + ?l) div ?b"
  have q: "q < 2 ^ 32"
  proof -
    have "?h mod ?b * 2 ^ 32 + ?l < ?b * 2 ^ 32" by (intro two_digits_less) simp_all
    then show ?thesis by (simp add: q_def div_less_iff_less_mult)
  qed
  then have d: "divl upper low CYCLESPERTICK = Ok (of_nat q, of_nat ((?h mod ?b * 2 ^ 32 + ?l) mod ?b))"
    using base by (simp add: divl_def Let_def upper low q_def)
  have "unat tsc div ?b = (?h div ?b) * 2 ^ 32 + q"
    using div_by_halves [of ?b ?h ?l] by (simp add: q_def)
  moreover have "(of_nat (x * 2 ^ 32 + q) :: dword) = of_nat q" for x by (simp only: word_unat_eq_iff unat_of_nat) simp
  ultimately have "(of_nat (unat tsc div ?b) :: dword) = of_nat q" by (simp only:)
  moreover have low_half: "ucast (push_bit 32 (ucast u) OR ucast v :: 64 word) = v" for u v :: dword
    by (rule bit_word_eqI) (auto simp: bit_simps)
  have "get_ticks tsc = Ok (of_nat q)"
    unfolding get_ticks_def do_div_def Let_def h_def [symmetric] low_def [symmetric] upper_def [symmetric]
    using d low_half by simp
  ultimately show ?thesis by simp
qed

section \<open>What \<open>access_ok\<close> accepts\<close>

lemma user_pages: "unat USER_FIRST_PAGE = 0x100" "unat (USER_FIRST_PAGE + of_nat NUM_PAG_CODE) = 0x108"
  "unat (USER_FIRST_PAGE + of_nat NUM_PAG_CODE + of_nat NUM_PAG_DATA) = 0x11C"
  by (simp_all add: USER_FIRST_PAGE_def NUM_PAG_CODE_def NUM_PAG_DATA_def)

lemma access_ok_pages:
  "access_ok type addr len = 1 \<longleftrightarrow>
     0x100 \<le> unat addr div 4096 \<and> unat (addr + len) div 4096 \<le> 0x11C \<and> unat addr div 4096 \<le> unat (addr + len) div 4096"
  (is "_ \<longleftrightarrow> ?r")
proof -
  have "access_ok type addr len = 1 \<longleftrightarrow>
    \<not> drop_bit 12 (addr + len) < drop_bit 12 addr \<and> USER_FIRST_PAGE \<le> drop_bit 12 addr
      \<and> drop_bit 12 (addr + len) \<le> USER_FIRST_PAGE + of_nat NUM_PAG_CODE + of_nat NUM_PAG_DATA"
    (is "_ \<longleftrightarrow> ?m")
  proof -
    have "USER_FIRST_PAGE + of_nat NUM_PAG_CODE \<le> p \<Longrightarrow> USER_FIRST_PAGE \<le> p" for p :: dword
      unfolding word_le_nat_alt user_pages by simp
    then show ?thesis by (auto simp: access_ok_def Let_def)
  qed
  also have "?m \<longleftrightarrow> ?r"
    unfolding word_less_nat_alt word_le_nat_alt user_pages by (auto simp: unat_drop_bit)
  finally show ?thesis .
qed

lemma access_ok_bool: "access_ok type addr len = 0 \<or> access_ok type addr len = 1"
  by (simp add: access_ok_def Let_def)

lemma access_ok_bytes:
  assumes "access_ok type addr len = 1" and "unat len < 2 ^ 31" and "k < unat len"
  shows "0x100000 \<le> unat addr + k \<and> unat addr + k < 0x11D000"
proof -
  from assms(1) have p: "0x100 \<le> unat addr div 4096" "unat (addr + len) div 4096 \<le> 0x11C"
    "unat addr div 4096 \<le> unat (addr + len) div 4096" by (simp_all only: access_ok_pages)
  have a: "unat addr < 0x11D000" and ini: "0x100000 \<le> unat addr" using p by linarith+
  have "unat (addr + len) = unat addr + unat len"
    using a assms(2) by (subst unat_plus_if') simp
  with p(2) have "unat addr + unat len < 0x11D000" by linarith
  with ini assms(3) show ?thesis by linarith
qed

section \<open>What the routines promise\<close>

text \<open>
  C39: \<open>copy_data\<close>, which moves four bytes at a time while more than four are left, copies every byte
  of the source to its place in the destination, in order, when the areas do not overlap, and
  changes nothing else.
\<close>

theorem copy_data_equals_memcpy:
  assumes "apart p q n" and "n < 2 ^ 31"
  shows "(\<forall>i<n. copy_data p q (int n) m (q + of_nat i) = m (p + of_nat i)) \<and>
    (\<forall>a. (\<forall>i<n. a \<noteq> q + of_nat i) \<longrightarrow> copy_data p q (int n) m a = m a)"
proof (intro conjI allI impI)
  have n: "n < 2 ^ 32" using assms(2) by simp
  note copied = copy_data_copies [OF assms(1) n, of m]
  {
    fix i assume "i < n"
    moreover from this n have "unat (of_nat i :: dword) = i" by (simp add: unat_of_nat)
    ultimately show "copy_data p q (int n) m (q + of_nat i) = m (p + of_nat i)" by (simp add: copied copied_over_def)
  }
  fix a assume away: "\<forall>i<n. a \<noteq> q + of_nat i"
  have "\<not> unat (a - q) < n"
  proof
    assume "unat (a - q) < n"
    with away have "a \<noteq> q + of_nat (unat (a - q))" by blast
    then show False by simp
  qed
  then show "copy_data p q (int n) m a = m a" by (simp add: copied copied_over_def)
qed

theorem copy_data_equals_memcpy_witness:
  "copy_data 0x1000 0x2000 7 (\<lambda>a. ucast a) (0x2000 + 6) = 6"
proof -
  have "apart 0x1000 0x2000 7"
    unfolding apart_def
  proof (intro allI impI)
    fix i j :: nat assume "i < 7" "j < 7"
    then have "unat (0x1000 + of_nat i :: dword) = 0x1000 + i" "unat (0x2000 + of_nat j :: dword) = 0x2000 + j"
      by (simp_all add: unat_word_ariths unat_of_nat)
    moreover have "0x1000 + i \<noteq> 0x2000 + j" using \<open>i < 7\<close> by simp
    ultimately show "0x1000 + of_nat i \<noteq> (0x2000 + of_nat j :: dword)" by metis
  qed
  from copy_data_equals_memcpy [OF this, THEN conjunct1, rule_format, of 6 "\<lambda>a. ucast a"] show ?thesis by simp
qed

text \<open>
  What \<open>access_ok\<close> accepts lies in the pages of the user: every byte of the area is at
  0x100000 or above and below 0x11D000. The bound is a page beyond the last user page, 0x11B, and
  the code pages pass for \<open>VERIFY_WRITE\<close> as well.
\<close>

lemma access_ok_safe:
  assumes "access_ok type addr len = 1" and "unat len < 2 ^ 31" and "k < unat len"
  shows "0x100000 \<le> unat addr + k \<and> unat addr + k < 0x11D000 \<and> access_ok VERIFY_WRITE addr len = 1"
  using access_ok_bytes [OF assms] assms(1) unfolding access_ok_pages by blast

text \<open>
  \<open>get_ticks\<close>, which divides the 64-bit counter by halves with 32-bit divisions, never divides
  too large a number and returns the low 32 bits of the 64-bit quotient by \<open>CYCLESPERTICK\<close>.
\<close>

lemma ticks_are_quotient: "get_ticks tsc = Ok (of_nat (unat tsc div unat CYCLESPERTICK))"
  using get_ticks_divides [of tsc] by (simp add: CYCLESPERTICK_def)

end
