(* ===== verification/Kernel_State.thy ===== *)
theory Kernel_State
  imports Kernel_List Kernel_Utils
begin

text \<open>
  The state of the ZeOS kernel (zeos_full/include/sched.h, mm.h, stats.h, types.h and the
  globals of sched.c, mm.c, sem.c, zeos_semaphores.c, sys.c) as one record, with the small
  operations all components use.

  A task is named by its index in \<open>task\<close>, its list anchor by \<open>Task i\<close>, a page directory by its
  index in \<open>dir_pages\<close> and a page table by its index in \<open>pagusr_table\<close>. \<open>current()\<close>, which the
  code takes from the stack pointer, is the field \<open>cur\<close>; the switch of the stacks in
  \<open>task_switch\<close> is an update of it (\<open>Kernel_Stacks\<close> and \<open>Kernel_Switch\<close> have the stacks
  themselves). The time stamp counter is the stream \<open>tsc\<close>, one value
  for each \<open>rdtsc\<close>.
\<close>

section \<open>Data\<close>

definition EINVAL :: int where "EINVAL = 22"
definition EFAULT :: int where "EFAULT = 14"
definition NR_TASKS :: nat where "NR_TASKS = 10"
definition CHANNEL_TABLE_SIZE :: nat where "CHANNEL_TABLE_SIZE = 10"
definition TOTAL_PAGES :: nat where "TOTAL_PAGES = 1024"
definition NUM_PAG_KERNEL :: nat where "NUM_PAG_KERNEL = 256"
definition PAG_LOG_INIT_CODE :: nat where "PAG_LOG_INIT_CODE = 0x100"
definition PAG_LOG_INIT_DATA :: nat where "PAG_LOG_INIT_DATA = PAG_LOG_INIT_CODE + NUM_PAG_CODE"

lemmas kernel_sizes = NR_TASKS_def CHANNEL_TABLE_SIZE_def TOTAL_PAGES_def NUM_PAG_KERNEL_def PAG_LOG_INIT_CODE_def
  PAG_LOG_INIT_DATA_def NUM_PAG_CODE_def NUM_PAG_DATA_def

record stats =
  user_ticks :: dword
  system_ticks :: dword
  blocked_ticks :: dword
  ready_ticks :: dword
  elapsed_total_ticks :: dword
  total_trans :: dword
  remaining_ticks :: dword

record channel_table_entry =
  fd :: int
  OFT_entry_num :: int

record task_struct =
  PID :: int
  quantum :: dword
  dir_pages_baseAddr :: "nat option"
  stats :: stats
  channel_table :: "channel_table_entry list"

record sem =
  sem_id :: dword
  sem_count :: dword
  sem_owner :: int
  sem_used :: int

record z_sem =
  z_used :: int
  z_counter :: int
  z_owner :: int

type_synonym page_table_entry = dword

record kernel =
  task :: "task_struct list"
  links :: links
  cur :: nat
  idle_task :: nat
  quantum_left :: int
  dir_usage :: "int list"
  next_PID :: dword
  tsc :: "nat \<Rightarrow> 64 word"
  tss_esp0 :: nat
  cr3 :: "nat option"
  phys_mem :: "byte list"
  dir_pages :: "nat option list"
  pagusr_table :: "page_table_entry list list"
  frame_mem :: "nat \<Rightarrow> byte list"
  semafors :: "sem list"
  zeos_sems :: "z_sem list"

section \<open>Tasks\<close>

definition get_task :: "kernel \<Rightarrow> nat \<Rightarrow> task_struct res" where
  "get_task k i = aget (task k) i"

definition set_task :: "nat \<Rightarrow> (task_struct \<Rightarrow> task_struct) \<Rightarrow> kernel \<Rightarrow> kernel res" where
  "set_task i f k = bind (aget (task k) i) (\<lambda>t. bind (aput (task k) i (f t)) (\<lambda>ts. Ok (k\<lparr>task := ts\<rparr>)))"

text \<open>\<open>list_head_to_task_struct\<close>: of anything but a task's anchor it is a wild pointer.\<close>

fun list_head_to_task_struct :: "node \<Rightarrow> nat res" where
  "list_head_to_task_struct (Task i) = Ok i"
| "list_head_to_task_struct NULL = Fault NullPointer"
| "list_head_to_task_struct _ = Fault OutOfBounds"

definition read_clock :: "kernel \<Rightarrow> (dword \<times> kernel) res" where
  "read_clock k = bind (get_ticks (tsc k 0)) (\<lambda>t. Ok (t, k\<lparr>tsc := \<lambda>n. tsc k (Suc n)\<rparr>))"

text \<open>An operation on the links of the lists.\<close>

definition on_lists :: "(links \<Rightarrow> links res) \<Rightarrow> kernel \<Rightarrow> kernel res" where
  "on_lists f k = bind (f (links k)) (\<lambda>h. Ok (k\<lparr>links := h\<rparr>))"

lemma set_task_Ok [safe]: "i < length (task k) \<Longrightarrow> set_task i f k = Ok (k\<lparr>task := (task k)[i := f (task k ! i)]\<rparr>)"
  by (simp add: set_task_def)

lemma get_task_Ok [safe]: "i < length (task k) \<Longrightarrow> get_task k i = Ok (task k ! i)"
  by (simp add: get_task_def)

lemma read_clock_Ok [safe]: "\<exists>v. read_clock k = Ok (v, k\<lparr>tsc := \<lambda>n. tsc k (Suc n)\<rparr>)"
  by (simp add: read_clock_def get_ticks_divides)

lemma on_lists_Ok: "on_lists f k = Ok k' \<longleftrightarrow> (\<exists>h. f (links k) = Ok h \<and> k' = k\<lparr>links := h\<rparr>)"
  by (auto simp: on_lists_def)

end
