(* ===== verification/Kernel_Memory.thy ===== *)
theory Kernel_Memory
  imports Kernel_State
begin

text \<open>
  Paging and the frames of physical memory (the C code of zeos_full/mm.c): the byte map of
  the frames, the page tables of the processes and the pages of a user process. The processor
  registers of mm.c (GDT, TSS, CR0) are not modelled, except CR3 as the directory in use.
\<close>

section \<open>Frames\<close>

definition FREE_FRAME :: byte where "FREE_FRAME = 0"
definition USED_FRAME :: byte where "USED_FRAME = 1"

definition init_frames :: "kernel \<Rightarrow> (int \<times> kernel) res" where
  "init_frames k =
     bind (for_each [0..<TOTAL_PAGES] (\<lambda>i m. bind (aput m i FREE_FRAME) (\<lambda>m. Ok (Inl m))) (phys_mem k)) (\<lambda>r.
     bind (for_each [0..<NUM_PAG_KERNEL] (\<lambda>i m. bind (aput m i USED_FRAME) (\<lambda>m. Ok (Inl m)))
       (case r of Inl m \<Rightarrow> m | Inr m \<Rightarrow> m)) (\<lambda>r.
     Ok (0, k\<lparr>phys_mem := (case r of Inl m \<Rightarrow> m | Inr m \<Rightarrow> m)\<rparr>)))"

text \<open>\<open>for (i=NUM_PAG_KERNEL; i<TOTAL_PAGES; i += 2)\<close>\<close>

definition frame_candidates :: "nat list" where
  "frame_candidates = map (\<lambda>n. NUM_PAG_KERNEL + 2 * n) [0..<(TOTAL_PAGES - NUM_PAG_KERNEL + 1) div 2]"

definition alloc_frame :: "kernel \<Rightarrow> (int \<times> kernel) res" where
  "alloc_frame k =
     bind (for_each frame_candidates (\<lambda>i k. bind (aget (phys_mem k) i) (\<lambda>v.
        if v = FREE_FRAME
        then bind (aput (phys_mem k) i USED_FRAME) (\<lambda>m. Ok (Inr (int i, k\<lparr>phys_mem := m\<rparr>)))
        else Ok (Inl k))) k) (\<lambda>r.
     Ok (case r of Inr x \<Rightarrow> x | Inl k \<Rightarrow> (-1, k)))"

definition free_frame :: "dword \<Rightarrow> kernel \<Rightarrow> kernel res" where
  "free_frame frame k =
     (if of_nat NUM_PAG_KERNEL < frame \<and> frame < of_nat TOTAL_PAGES
      then bind (aput (phys_mem k) (unat frame) FREE_FRAME) (\<lambda>m. Ok (k\<lparr>phys_mem := m\<rparr>))
      else Ok k)"

section \<open>Page tables\<close>

definition pte_present :: "page_table_entry \<Rightarrow> bool" where "pte_present e = bit e 0"
definition pte_rw :: "page_table_entry \<Rightarrow> bool" where "pte_rw e = bit e 1"
definition pte_user :: "page_table_entry \<Rightarrow> bool" where "pte_user e = bit e 2"
definition pbase_addr :: "page_table_entry \<Rightarrow> dword" where "pbase_addr e = drop_bit 12 e"

text \<open>The assignments \<open>entry = 0; bits.pbase_addr = frame; bits.user/rw/present = 1\<close>; the field has 20 bits.\<close>

definition pte :: "dword \<Rightarrow> bool \<Rightarrow> bool \<Rightarrow> page_table_entry" where
  "pte frame user rw = push_bit 12 frame OR (if user then 4 else 0) OR (if rw then 2 else 0) OR 1"

definition get_PT :: "nat \<Rightarrow> kernel \<Rightarrow> nat res" where
  "get_PT t k = bind (get_task k t) (\<lambda>t. case dir_pages_baseAddr t of
     None \<Rightarrow> Fault NullPointer
   | Some d \<Rightarrow> bind (aget (dir_pages k) d) (\<lambda>e. case e of None \<Rightarrow> Fault NullPointer | Some pt \<Rightarrow> Ok pt))"

definition set_pte :: "nat \<Rightarrow> nat \<Rightarrow> page_table_entry \<Rightarrow> kernel \<Rightarrow> kernel res" where
  "set_pte pt page e k = bind (aget (pagusr_table k) pt) (\<lambda>tab. bind (aput tab page e) (\<lambda>tab.
     Ok (k\<lparr>pagusr_table := (pagusr_table k)[pt := tab]\<rparr>)))"

definition get_pte :: "nat \<Rightarrow> nat \<Rightarrow> kernel \<Rightarrow> page_table_entry res" where
  "get_pte pt page k = bind (aget (pagusr_table k) pt) (\<lambda>tab. aget tab page)"

definition set_ss_pag :: "nat \<Rightarrow> nat \<Rightarrow> dword \<Rightarrow> kernel \<Rightarrow> kernel res" where
  "set_ss_pag pt page frame = set_pte pt page (pte frame True True)"

definition del_ss_pag :: "nat \<Rightarrow> nat \<Rightarrow> kernel \<Rightarrow> kernel res" where
  "del_ss_pag pt page = set_pte pt page 0"

definition get_frame :: "nat \<Rightarrow> nat \<Rightarrow> kernel \<Rightarrow> dword res" where
  "get_frame pt page k = bind (get_pte pt page k) (\<lambda>e. Ok (pbase_addr e))"

definition init_dir_pages :: "kernel \<Rightarrow> kernel res" where
  "init_dir_pages k =
     bind (for_each [0..<NR_TASKS] (\<lambda>i d. bind (aput d i (Some i)) (\<lambda>d. Ok (Inl d))) (dir_pages k)) (\<lambda>r.
     Ok (k\<lparr>dir_pages := (case r of Inl d \<Rightarrow> d | Inr d \<Rightarrow> d)\<rparr>))"

definition init_table_pages :: "kernel \<Rightarrow> kernel res" where
  "init_table_pages k =
     bind (for_each [0..<NR_TASKS] (\<lambda>j k.
       bind (for_each [0..<TOTAL_PAGES] (\<lambda>i k. bind (set_pte j i 0 k) (\<lambda>k. Ok (Inl k))) k) (\<lambda>r.
       for_each [1..<NUM_PAG_KERNEL] (\<lambda>i k. bind (set_pte j i (pte (of_nat i) False True) k) (\<lambda>k. Ok (Inl k)))
         (case r of Inl k \<Rightarrow> k | Inr k \<Rightarrow> k))) k) (\<lambda>r.
     Ok (case r of Inl k \<Rightarrow> k | Inr k \<Rightarrow> k))"

text \<open>\<open>alloc_frame\<close> may answer -1 here: the 20 bits of the field then hold \<open>0xFFFFF\<close>.\<close>

definition set_user_pages :: "nat \<Rightarrow> kernel \<Rightarrow> kernel res" where
  "set_user_pages t k =
     bind (get_PT t k) (\<lambda>pt.
     bind (for_each [0..<NUM_PAG_CODE] (\<lambda>pag k. bind (alloc_frame k) (\<lambda>(f, k).
        bind (set_pte pt (PAG_LOG_INIT_CODE + pag) (pte (word_of_int f) True False) k) (\<lambda>k. Ok (Inl k)))) k) (\<lambda>r.
     bind (for_each [0..<NUM_PAG_DATA] (\<lambda>pag k. bind (alloc_frame k) (\<lambda>(f, k).
        bind (set_pte pt (PAG_LOG_INIT_DATA + pag) (pte (word_of_int f) True True) k) (\<lambda>k. Ok (Inl k))))
        (case r of Inl k \<Rightarrow> k | Inr k \<Rightarrow> k)) (\<lambda>r.
     Ok (case r of Inl k \<Rightarrow> k | Inr k \<Rightarrow> k))))"

definition free_user_pages :: "nat \<Rightarrow> kernel \<Rightarrow> kernel res" where
  "free_user_pages t k =
     bind (get_PT t k) (\<lambda>pt.
     bind (for_each [0..<NUM_PAG_DATA] (\<lambda>pag k.
        bind (get_pte pt (PAG_LOG_INIT_DATA + pag) k) (\<lambda>e.
        bind (free_frame (pbase_addr e) k) (\<lambda>k.
        bind (set_pte pt (PAG_LOG_INIT_DATA + pag) 0 k) (\<lambda>k. Ok (Inl k))))) k) (\<lambda>r.
     Ok (case r of Inl k \<Rightarrow> k | Inr k \<Rightarrow> k)))"

section \<open>The frame allocator\<close>

definition free_frames :: "kernel \<Rightarrow> nat set" where
  "free_frames k = {i. i < length (phys_mem k) \<and> phys_mem k ! i = FREE_FRAME}"

text \<open>The frames the allocator can hand out: every second one behind the kernel.\<close>

definition allocatable :: "kernel \<Rightarrow> nat list" where
  "allocatable k = filter (\<lambda>i. phys_mem k ! i = FREE_FRAME) frame_candidates"

lemma frame_candidates_range: "i \<in> set frame_candidates \<longleftrightarrow> NUM_PAG_KERNEL \<le> i \<and> i < TOTAL_PAGES \<and> even i"
proof
  assume "i \<in> set frame_candidates"
  then show "NUM_PAG_KERNEL \<le> i \<and> i < TOTAL_PAGES \<and> even i" by (auto simp: frame_candidates_def kernel_sizes)
next
  assume i: "NUM_PAG_KERNEL \<le> i \<and> i < TOTAL_PAGES \<and> even i"
  then have "even (i - NUM_PAG_KERNEL)" by (simp add: kernel_sizes)
  then obtain n where "i - NUM_PAG_KERNEL = 2 * n" by (elim evenE)
  with i have "i = NUM_PAG_KERNEL + 2 * n" "n < (TOTAL_PAGES - NUM_PAG_KERNEL + 1) div 2" by (auto simp: kernel_sizes)
  then show "i \<in> set frame_candidates" by (auto simp: frame_candidates_def)
qed

lemma distinct_candidates: "distinct frame_candidates"
  by (simp add: frame_candidates_def distinct_map inj_on_def)

lemma alloc_rounds:
  "\<forall>i \<in> set is. i < length (phys_mem k) \<Longrightarrow>
   for_each is (\<lambda>i k. bind (aget (phys_mem k) i) (\<lambda>v.
        if v = FREE_FRAME
        then bind (aput (phys_mem k) i USED_FRAME) (\<lambda>m. Ok (Inr (int i, k\<lparr>phys_mem := m\<rparr>)))
        else Ok (Inl k))) k
     = Ok (case filter (\<lambda>i. phys_mem k ! i = FREE_FRAME) is of [] \<Rightarrow> Inl k
         | i # _ \<Rightarrow> Inr (int i, k\<lparr>phys_mem := (phys_mem k)[i := USED_FRAME]\<rparr>))"
  by (induction "is") auto

lemma alloc_frame_first [safe]:
  assumes "length (phys_mem k) = TOTAL_PAGES"
  shows "alloc_frame k = Ok (case allocatable k of [] \<Rightarrow> (-1, k)
    | i # _ \<Rightarrow> (int i, k\<lparr>phys_mem := (phys_mem k)[i := USED_FRAME]\<rparr>))"
proof -
  have "\<forall>i \<in> set frame_candidates. i < length (phys_mem k)" using assms by (simp add: frame_candidates_range)
  from alloc_rounds [OF this] show ?thesis
    unfolding alloc_frame_def allocatable_def by (simp split: list.splits)
qed

lemma allocatable_mem: "i \<in> set (allocatable k) \<longleftrightarrow> NUM_PAG_KERNEL \<le> i \<and> i < TOTAL_PAGES \<and> even i \<and> phys_mem k ! i = FREE_FRAME"
  by (auto simp: allocatable_def frame_candidates_range)

lemma allocatable_after:
  assumes "allocatable k = i # is" and "length (phys_mem k) = TOTAL_PAGES"
  shows "allocatable (k\<lparr>phys_mem := (phys_mem k)[i := USED_FRAME]\<rparr>) = is"
proof -
  have i: "i < TOTAL_PAGES" using allocatable_mem [of i k] assms(1) by simp
  have ne: "FREE_FRAME \<noteq> USED_FRAME" by (simp add: FREE_FRAME_def USED_FRAME_def)
  have "allocatable (k\<lparr>phys_mem := (phys_mem k)[i := USED_FRAME]\<rparr>) = filter (\<lambda>j. j \<noteq> i) (allocatable k)"
    unfolding allocatable_def filter_filter
    using assms(2) i ne by (intro filter_cong) (auto simp: nth_list_update frame_candidates_range)
  moreover have "distinct (allocatable k)" by (simp add: allocatable_def distinct_candidates)
  ultimately show ?thesis using assms(1) by (auto simp: filter_id_conv)
qed

lemma free_frame_frees [safe]:
  assumes "length (phys_mem k) = TOTAL_PAGES"
  shows "free_frame f k = Ok (if NUM_PAG_KERNEL < unat f \<and> unat f < TOTAL_PAGES
    then k\<lparr>phys_mem := (phys_mem k)[unat f := FREE_FRAME]\<rparr> else k)"
  using assms by (simp add: free_frame_def word_less_nat_alt kernel_sizes)

lemma alloc_free:
  assumes "allocatable k = i # is" and "length (phys_mem k) = TOTAL_PAGES" and "i \<noteq> NUM_PAG_KERNEL"
  shows "bind (alloc_frame k) (\<lambda>(f, k). free_frame (word_of_int f) k) = Ok k"
proof -
  have i: "NUM_PAG_KERNEL \<le> i" "i < TOTAL_PAGES" "phys_mem k ! i = FREE_FRAME"
    using allocatable_mem [of i k] assms(1) by simp_all
  then have u: "unat (of_nat i :: dword) = i" by (simp add: kernel_sizes unat_of_nat)
  have same: "(phys_mem k)[i := FREE_FRAME] = phys_mem k" using i by (metis list_update_id)
  show ?thesis using i u assms same by (simp add: alloc_frame_first free_frame_frees)
qed

text \<open>Frame 256, the first frame the allocator hands out, is never taken back.\<close>

lemma free_first_frame:
  assumes "length (phys_mem k) = TOTAL_PAGES"
  shows "free_frame (of_nat NUM_PAG_KERNEL) k = Ok k"
  using assms by (simp add: free_frame_frees kernel_sizes)

section \<open>Page table entries\<close>

lemma pte_fields:
  "unat f < 2 ^ 20 \<Longrightarrow> pbase_addr (pte f user rw) = f"
  "pte_present (pte f user rw)" "pte_rw (pte f user rw) = rw" "pte_user (pte f user rw) = user"
proof -
  assume f: "unat f < 2 ^ 20"
  have hi: "\<not> bit f n" if "20 \<le> n" for n
  proof
    assume b: "bit f n"
    then have "n < 32" using bit_imp_le_length [of f n] by simp
    with b have "bit (unat f) n" by (simp add: bit_unsigned_iff)
    moreover have "(2 :: nat) ^ 20 \<le> 2 ^ n" using that by (intro power_increasing) simp_all
    then have "unat f div 2 ^ n = 0" using f by simp
    ultimately show False by (simp add: bit_iff_odd)
  qed
  show "pbase_addr (pte f user rw) = f"
  proof (rule bit_word_eqI)
    fix n assume n: "n < LENGTH(32)"
    have "(4 :: dword) = 2 ^ 2" by simp
    then have "\<not> bit (4 :: dword) (12 + n)" by (simp only: bit_exp_iff) simp
    then show "bit (pbase_addr (pte f user rw)) n = bit f n"
      using n hi [of n] by (cases "n < 20") (auto simp: pbase_addr_def pte_def bit_simps)
  qed
qed (auto simp: pte_def pte_present_def pte_rw_def pte_user_def bit_simps)

section \<open>Handing out all frames\<close>

lemma fill_rounds:
  "n \<le> length m \<Longrightarrow> for_each [0..<n] (\<lambda>i m. bind (aput m i v) (\<lambda>m. Ok (Inl m))) m = (Ok (Inl (replicate n v @ drop n m)) :: ('a list + 'a list) res)"
proof (induction n)
  case (Suc n)
  then have "(replicate n v @ drop n m)[n := v] = replicate (Suc n) v @ drop (Suc n) m"
    by (simp add: list_update_append replicate_append_same [symmetric] Cons_nth_drop_Suc [symmetric])
  with Suc show ?case by (simp add: for_each_append)
qed simp

lemma init_frames_marks [safe]:
  assumes "length (phys_mem k) = TOTAL_PAGES"
  shows "init_frames k = Ok (0, k\<lparr>phys_mem := replicate NUM_PAG_KERNEL USED_FRAME @ replicate (TOTAL_PAGES - NUM_PAG_KERNEL) FREE_FRAME\<rparr>)"
proof -
  have le: "NUM_PAG_KERNEL \<le> TOTAL_PAGES" by (simp add: kernel_sizes)
  have "for_each [0..<TOTAL_PAGES] (\<lambda>i m. bind (aput m i FREE_FRAME) (\<lambda>m. Ok (Inl m))) (phys_mem k)
      = (Ok (Inl (replicate TOTAL_PAGES FREE_FRAME)) :: (byte list + byte list) res)"
    using fill_rounds [of TOTAL_PAGES "phys_mem k"] assms by simp
  moreover have "for_each [0..<NUM_PAG_KERNEL] (\<lambda>i m. bind (aput m i USED_FRAME) (\<lambda>m. Ok (Inl m))) (replicate TOTAL_PAGES FREE_FRAME)
      = (Ok (Inl (replicate NUM_PAG_KERNEL USED_FRAME @ replicate (TOTAL_PAGES - NUM_PAG_KERNEL) FREE_FRAME)) :: (byte list + byte list) res)"
    using fill_rounds [of NUM_PAG_KERNEL "replicate TOTAL_PAGES FREE_FRAME"] le by simp
  ultimately show ?thesis by (simp add: init_frames_def)
qed

fun alloc_frames :: "nat \<Rightarrow> kernel \<Rightarrow> (int list \<times> kernel) res" where
  "alloc_frames 0 k = Ok ([], k)"
| "alloc_frames (Suc n) k = bind (alloc_frame k) (\<lambda>(f, k). bind (alloc_frames n k) (\<lambda>(fs, k). Ok (f # fs, k)))"

lemma alloc_frame_next:
  assumes "length (phys_mem k) = TOTAL_PAGES" and "allocatable k = i # is"
  shows "alloc_frame k = Ok (int i, k\<lparr>phys_mem := (phys_mem k)[i := USED_FRAME]\<rparr>)"
  using assms by (simp add: alloc_frame_first)

lemma alloc_frames_take:
  "length (phys_mem k) = TOTAL_PAGES \<Longrightarrow> n \<le> length (allocatable k) \<Longrightarrow>
   \<exists>k'. alloc_frames n k = Ok (map int (take n (allocatable k)), k') \<and> allocatable k' = drop n (allocatable k) \<and> length (phys_mem k') = TOTAL_PAGES"
proof (induction n arbitrary: k)
  case (Suc n)
  then obtain i is' where i: "allocatable k = i # is'" by (cases "allocatable k") auto
  let ?k = "k\<lparr>phys_mem := (phys_mem k)[i := USED_FRAME]\<rparr>"
  have a: "allocatable ?k = is'" using allocatable_after [OF i Suc.prems(1)] .
  from Suc.IH [of ?k] Suc.prems i a obtain k' where
    "alloc_frames n ?k = Ok (map int (take n is'), k')" "allocatable k' = drop n is'" "length (phys_mem k') = TOTAL_PAGES" by auto
  then show ?case using alloc_frame_next [OF Suc.prems(1) i] i by simp
qed simp

section \<open>A kernel with processes\<close>

text \<open>Idle is task 0 and task 1 may run; task 2 is ready and task 3 waits in semaphore 0 (\<open>sample_queues\<close>).\<close>

definition sample_task :: "nat \<Rightarrow> task_struct" where
  "sample_task i = \<lparr>PID = int i, quantum = 30, dir_pages_baseAddr = Some i,
     stats = \<lparr>user_ticks = 0, system_ticks = 0, blocked_ticks = 0, ready_ticks = 0, elapsed_total_ticks = 0, total_trans = 0, remaining_ticks = 0\<rparr>,
     channel_table = replicate CHANNEL_TABLE_SIZE \<lparr>fd = 0, OFT_entry_num = -1\<rparr>\<rparr>"

definition sample_kernel :: "nat \<Rightarrow> int \<Rightarrow> kernel" where
  "sample_kernel running q = \<lparr>
     task = map sample_task [0..<NR_TASKS], links = sample_links, cur = running, idle_task = 0, quantum_left = q,
     dir_usage = replicate NR_TASKS 1, next_PID = 10, tsc = (\<lambda>n. of_nat n), tss_esp0 = 1, cr3 = Some 1,
     phys_mem = replicate NUM_PAG_KERNEL USED_FRAME @ replicate (TOTAL_PAGES - NUM_PAG_KERNEL) FREE_FRAME,
     dir_pages = map Some [0..<NR_TASKS], pagusr_table = replicate NR_TASKS (replicate TOTAL_PAGES 0),
     frame_mem = (\<lambda>_. []),
     semafors = \<lparr>sem_id = 7, sem_count = 0, sem_owner = 1, sem_used = 1\<rparr> # replicate 19 \<lparr>sem_id = 0xDEAD, sem_count = 0, sem_owner = 0, sem_used = 0\<rparr>,
     zeos_sems = []\<rparr>"

lemma sample_frames: "length (phys_mem (sample_kernel r q)) = TOTAL_PAGES" "allocatable (sample_kernel r q) = frame_candidates"
proof -
  show "length (phys_mem (sample_kernel r q)) = TOTAL_PAGES" by (simp add: sample_kernel_def kernel_sizes)
  show "allocatable (sample_kernel r q) = frame_candidates"
    unfolding allocatable_def
    by (rule filter_True) (auto simp: frame_candidates_range sample_kernel_def nth_append kernel_sizes)
qed

text \<open>
  After \<open>init_frames\<close> the allocator hands out the 384 frames 256, 258, ..., 1022, each once and in
  this order, and then answers -1; the 384 frames between them are never handed out.
\<close>

lemma frames_run_out:
  assumes "length (phys_mem k) = TOTAL_PAGES"
  shows "\<exists>k' k''. init_frames k = Ok (0, k') \<and> alloc_frames 384 k' = Ok (map (\<lambda>n. 256 + 2 * int n) [0..<384], k'') \<and>
    alloc_frame k'' = Ok (-1, k'')"
proof -
  define k' where "k' = k\<lparr>phys_mem := replicate NUM_PAG_KERNEL USED_FRAME @ replicate (TOTAL_PAGES - NUM_PAG_KERNEL) FREE_FRAME\<rparr>"
  have len: "length (phys_mem k') = TOTAL_PAGES" by (simp add: k'_def kernel_sizes)
  have all: "allocatable k' = frame_candidates"
    unfolding allocatable_def
    by (rule filter_True) (auto simp: frame_candidates_range k'_def nth_append kernel_sizes)
  have n: "length frame_candidates = 384" by (simp add: frame_candidates_def kernel_sizes)
  have m: "map int frame_candidates = map (\<lambda>n. 256 + 2 * int n) [0..<384]"
    by (simp add: frame_candidates_def kernel_sizes del: upt_rec_numeral)
  from alloc_frames_take [OF len, of 384] obtain k'' where
    "alloc_frames 384 k' = Ok (map int frame_candidates, k'')" "allocatable k'' = []" "length (phys_mem k'') = TOTAL_PAGES"
    using n by (auto simp: all)
  then show ?thesis using init_frames_marks [OF assms] alloc_frame_first [of k''] m
    by (intro exI [of _ k'] exI [of _ k'']) (simp add: k'_def)
qed

section \<open>The pages of a process\<close>

lemma set_pte_Ok [safe]:
  "pt < length (pagusr_table k) \<Longrightarrow> page < length (pagusr_table k ! pt) \<Longrightarrow>
   set_pte pt page e k = Ok (k\<lparr>pagusr_table := (pagusr_table k)[pt := (pagusr_table k ! pt)[page := e]]\<rparr>)"
  by (simp add: set_pte_def)

lemma get_pte_Ok [safe]:
  "pt < length (pagusr_table k) \<Longrightarrow> page < length (pagusr_table k ! pt) \<Longrightarrow> get_pte pt page k = Ok (pagusr_table k ! pt ! page)"
  by (simp add: get_pte_def)

text \<open>One loop of \<open>set_user_pages\<close>: consecutive pages get the next frames.\<close>

lemma map_pages:
  assumes "length (phys_mem k) = TOTAL_PAGES" and "pt < length (pagusr_table k)" and "length (pagusr_table k ! pt) = TOTAL_PAGES"
    and "first + n \<le> TOTAL_PAGES" and "n \<le> length (allocatable k)"
  shows "\<exists>m tab. for_each [0..<n] (\<lambda>pag k. bind (alloc_frame k) (\<lambda>(f, k).
        bind (set_pte pt (first + pag) (pte (word_of_int f) user rw) k) (\<lambda>k. Ok (Inl k)))) k =
        (Ok (Inl (k\<lparr>phys_mem := m, pagusr_table := (pagusr_table k)[pt := tab]\<rparr>)) :: (kernel + kernel) res) \<and>
      length m = TOTAL_PAGES \<and> allocatable (k\<lparr>phys_mem := m\<rparr>) = drop n (allocatable k) \<and> length tab = TOTAL_PAGES \<and>
      (\<forall>j<n. tab ! (first + j) = pte (of_nat (allocatable k ! j)) user rw) \<and>
      (\<forall>p. p < first \<or> first + n \<le> p \<longrightarrow> tab ! p = pagusr_table k ! pt ! p)"
proof -
  define I where "I = (\<lambda>i k'. \<exists>m tab. k' = k\<lparr>phys_mem := m, pagusr_table := (pagusr_table k)[pt := tab]\<rparr> \<and>
      length m = TOTAL_PAGES \<and> allocatable (k\<lparr>phys_mem := m\<rparr>) = drop i (allocatable k) \<and> length tab = TOTAL_PAGES \<and>
      (\<forall>j<i. tab ! (first + j) = pte (of_nat (allocatable k ! j)) user rw) \<and>
      (\<forall>p. p < first \<or> first + i \<le> p \<longrightarrow> tab ! p = pagusr_table k ! pt ! p))"
  let ?body = "\<lambda>pag k. bind (alloc_frame k) (\<lambda>(f, k).
        bind (set_pte pt (first + pag) (pte (word_of_int f) user rw) k) (\<lambda>k. Ok (Inl k)))"
  have "\<exists>k'. for_each [0..<n] ?body k = (Ok (Inl k') :: (kernel + kernel) res) \<and> I n k'"
  proof (rule for_upto_rule)
    show "I 0 k" unfolding I_def by (rule exI [of _ "phys_mem k"], rule exI [of _ "pagusr_table k ! pt"], use assms in simp)
  next
    fix i k1 assume i: "i < n" and I: "I i k1"
    then obtain m tab where k1: "k1 = k\<lparr>phys_mem := m, pagusr_table := (pagusr_table k)[pt := tab]\<rparr>" and
      m: "length m = TOTAL_PAGES" "allocatable (k\<lparr>phys_mem := m\<rparr>) = drop i (allocatable k)" and len: "length tab = TOTAL_PAGES" and
      tab: "\<forall>j<i. tab ! (first + j) = pte (of_nat (allocatable k ! j)) user rw" "\<forall>p. p < first \<or> first + i \<le> p \<longrightarrow> tab ! p = pagusr_table k ! pt ! p"
      unfolding I_def by blast
    let ?f = "allocatable k ! i" and ?e = "pte (of_nat (allocatable k ! i)) user rw"
    let ?m = "m[?f := USED_FRAME]" and ?tab = "tab[first + i := ?e]"
    have al: "allocatable (k\<lparr>phys_mem := m\<rparr>) = ?f # drop (Suc i) (allocatable k)"
      unfolding m(2) using i assms(5) by (simp add: Cons_nth_drop_Suc)
    have len1: "length (phys_mem k1) = TOTAL_PAGES" "length (phys_mem (k\<lparr>phys_mem := m\<rparr>)) = TOTAL_PAGES" using m(1) by (simp_all add: k1)
    have "allocatable k1 = ?f # drop (Suc i) (allocatable k)" using al by (simp add: allocatable_def k1)
    from alloc_frame_next [OF len1(1) this] have "alloc_frame k1 = Ok (int ?f, k\<lparr>phys_mem := ?m, pagusr_table := (pagusr_table k)[pt := tab]\<rparr>)"
      by (simp add: k1)
    then have "?body i k1 = (Ok (Inl (k\<lparr>phys_mem := ?m, pagusr_table := (pagusr_table k)[pt := ?tab]\<rparr>)) :: (kernel + kernel) res)"
      using assms(2,4) len i by (simp add: set_pte_Ok)
    moreover have "allocatable (k\<lparr>phys_mem := ?m\<rparr>) = drop (Suc i) (allocatable k)" using allocatable_after [OF al len1(2)] by simp
    moreover have "?tab ! (first + j) = pte (of_nat (allocatable k ! j)) user rw" if "j < Suc i" for j
      using tab(1) len i assms(4) that by (cases "j = i") simp_all
    moreover have "?tab ! p = pagusr_table k ! pt ! p" if "p < first \<or> first + Suc i \<le> p" for p using tab(2) that by auto
    ultimately show "\<exists>s'. ?body i k1 = (Ok (Inl s') :: (kernel + kernel) res) \<and> I (Suc i) s'"
      unfolding I_def using m(1) len by - (rule exI, rule conjI, assumption, rule exI [of _ ?m], rule exI [of _ ?tab], simp)
  qed
  then show ?thesis unfolding I_def by blast
qed

text \<open>
  \<open>set_user_pages\<close> gives the process fresh frames: its 8 code pages are mapped read-only and its
  20 data pages writable, all of them accessible to the user, on 28 different frames that the
  allocator does not hand out again.
\<close>

lemma set_user_pages_maps:
  assumes "get_PT t k = Ok pt" and "pt < length (pagusr_table k)" and "length (pagusr_table k ! pt) = TOTAL_PAGES"
    and "length (phys_mem k) = TOTAL_PAGES" and "NUM_PAG_CODE + NUM_PAG_DATA \<le> length (allocatable k)"
  shows "\<exists>m tab. set_user_pages t k = Ok (k\<lparr>phys_mem := m, pagusr_table := (pagusr_table k)[pt := tab]\<rparr>) \<and>
    length m = TOTAL_PAGES \<and> allocatable (k\<lparr>phys_mem := m\<rparr>) = drop (NUM_PAG_CODE + NUM_PAG_DATA) (allocatable k) \<and> length tab = TOTAL_PAGES \<and>
    (\<forall>j < NUM_PAG_CODE. tab ! (PAG_LOG_INIT_CODE + j) = pte (of_nat (allocatable k ! j)) True False) \<and>
    (\<forall>j < NUM_PAG_DATA. tab ! (PAG_LOG_INIT_DATA + j) = pte (of_nat (allocatable k ! (NUM_PAG_CODE + j))) True True) \<and>
    (\<forall>p < PAG_LOG_INIT_CODE. tab ! p = pagusr_table k ! pt ! p)"
proof -
  have sizes: "PAG_LOG_INIT_CODE + NUM_PAG_CODE \<le> TOTAL_PAGES" "PAG_LOG_INIT_DATA + NUM_PAG_DATA \<le> TOTAL_PAGES"
    "PAG_LOG_INIT_CODE + NUM_PAG_CODE \<le> PAG_LOG_INIT_DATA" by (simp_all add: kernel_sizes)
  from map_pages [OF assms(4,2,3) sizes(1), of True False] assms(5) obtain m1 t1 where
    1: "for_each [0..<NUM_PAG_CODE] (\<lambda>pag k. bind (alloc_frame k) (\<lambda>(f, k).
        bind (set_pte pt (PAG_LOG_INIT_CODE + pag) (pte (word_of_int f) True False) k) (\<lambda>k. Ok (Inl k)))) k =
        (Ok (Inl (k\<lparr>phys_mem := m1, pagusr_table := (pagusr_table k)[pt := t1]\<rparr>)) :: (kernel + kernel) res)"
      "length m1 = TOTAL_PAGES" "allocatable (k\<lparr>phys_mem := m1\<rparr>) = drop NUM_PAG_CODE (allocatable k)" "length t1 = TOTAL_PAGES"
      "\<forall>j < NUM_PAG_CODE. t1 ! (PAG_LOG_INIT_CODE + j) = pte (of_nat (allocatable k ! j)) True False"
      "\<forall>p < PAG_LOG_INIT_CODE. t1 ! p = pagusr_table k ! pt ! p"
    by auto
  let ?k1 = "k\<lparr>phys_mem := m1, pagusr_table := (pagusr_table k)[pt := t1]\<rparr>"
  have al: "allocatable ?k1 = drop NUM_PAG_CODE (allocatable k)" using 1(3) by (simp add: allocatable_def)
  have "length (phys_mem ?k1) = TOTAL_PAGES" "pt < length (pagusr_table ?k1)" "length (pagusr_table ?k1 ! pt) = TOTAL_PAGES"
    "NUM_PAG_DATA \<le> length (allocatable ?k1)" using 1(2,4) al assms(2,5) by simp_all
  from map_pages [OF this(1-3) sizes(2) this(4), of True True] assms(2) obtain m tab where
    2: "for_each [0..<NUM_PAG_DATA] (\<lambda>pag k. bind (alloc_frame k) (\<lambda>(f, k).
        bind (set_pte pt (PAG_LOG_INIT_DATA + pag) (pte (word_of_int f) True True) k) (\<lambda>k. Ok (Inl k)))) ?k1 =
        (Ok (Inl (k\<lparr>phys_mem := m, pagusr_table := (pagusr_table k)[pt := tab]\<rparr>)) :: (kernel + kernel) res)"
      "length m = TOTAL_PAGES" "allocatable (?k1\<lparr>phys_mem := m\<rparr>) = drop NUM_PAG_DATA (allocatable ?k1)" "length tab = TOTAL_PAGES"
      "\<forall>j < NUM_PAG_DATA. tab ! (PAG_LOG_INIT_DATA + j) = pte (of_nat (allocatable ?k1 ! j)) True True"
      "\<forall>p. p < PAG_LOG_INIT_DATA \<or> PAG_LOG_INIT_DATA + NUM_PAG_DATA \<le> p \<longrightarrow> tab ! p = t1 ! p"
    by auto
  have "set_user_pages t k = Ok (k\<lparr>phys_mem := m, pagusr_table := (pagusr_table k)[pt := tab]\<rparr>)"
    using assms(1) 1(1) 2(1) by (simp add: set_user_pages_def)
  moreover have "allocatable (k\<lparr>phys_mem := m\<rparr>) = drop (NUM_PAG_CODE + NUM_PAG_DATA) (allocatable k)"
    using 2(3) al by (simp add: allocatable_def add.commute)
  moreover have "tab ! (PAG_LOG_INIT_CODE + j) = pte (of_nat (allocatable k ! j)) True False" if "j < NUM_PAG_CODE" for j
    using that 2(6) 1(5) sizes(3) by simp
  moreover have "tab ! (PAG_LOG_INIT_DATA + j) = pte (of_nat (allocatable k ! (NUM_PAG_CODE + j))) True True" if "j < NUM_PAG_DATA" for j
    using that 2(5) assms(5) unfolding al by simp
  moreover have "tab ! p = pagusr_table k ! pt ! p" if "p < PAG_LOG_INIT_CODE" for p
    using that 2(6) 1(6) sizes(3) by simp
  ultimately show ?thesis using 2(2,4) by (intro exI [of _ m], intro exI [of _ tab]) blast
qed

end
