(* ===== verification/Kernel_Sched.thy ===== *)
theory Kernel_Sched
  imports Kernel_Memory
begin

text \<open>
  Processes and round-robin scheduling (zeos_full/sched.c, with \<open>initialize_sem\<close> of sem.c).
  Here \<open>task_switch\<close> makes another task the current one, and what the code does when a task
  that was switched out runs again is a separate definition. The stacks of the processes, the
  saved stack pointers and \<open>cpu_idle\<close> are in \<open>Kernel_Stacks\<close>, \<open>Kernel_Switch\<close> and
  \<open>Kernel_Tasks\<close>, which use these definitions for the rest of the kernel.
\<close>

section \<open>Directories and statistics\<close>

definition get_DIR :: "nat \<Rightarrow> kernel \<Rightarrow> nat option res" where
  "get_DIR t k = bind (get_task k t) (\<lambda>t. Ok (dir_pages_baseAddr t))"

definition get_CHT :: "nat \<Rightarrow> kernel \<Rightarrow> channel_table_entry list res" where
  "get_CHT t k = bind (get_task k t) (\<lambda>t. Ok (channel_table t))"

definition allocate_DIR :: "nat \<Rightarrow> kernel \<Rightarrow> (int \<times> kernel) res" where
  "allocate_DIR t k =
     bind (for_each [0..<NR_TASKS] (\<lambda>i _. bind (aget (dir_usage k) i) (\<lambda>u. Ok (if u = 0 then Inr i else Inl ()))) ()) (\<lambda>r.
     case r of
       Inl _ \<Rightarrow> Ok (-1, k)
     | Inr i \<Rightarrow> bind (aput (dir_usage k) i (dir_usage k ! i + 1)) (\<lambda>u.
         bind (set_task t (\<lambda>t. t\<lparr>dir_pages_baseAddr := Some i\<rparr>) (k\<lparr>dir_usage := u\<rparr>)) (\<lambda>k. Ok (int i, k))))"

definition finishUserTime :: "nat \<Rightarrow> kernel \<Rightarrow> kernel res" where
  "finishUserTime t k = bind (read_clock k) (\<lambda>(temps, k).
     set_task t (\<lambda>t. t\<lparr>stats := (stats t)\<lparr>user_ticks := user_ticks (stats t) + (temps - elapsed_total_ticks (stats t)),
       elapsed_total_ticks := temps\<rparr>\<rparr>) k)"

definition finishSystemTime :: "nat \<Rightarrow> kernel \<Rightarrow> kernel res" where
  "finishSystemTime t k = bind (read_clock k) (\<lambda>(temps, k).
     set_task t (\<lambda>t. t\<lparr>stats := (stats t)\<lparr>system_ticks := system_ticks (stats t) + (temps - elapsed_total_ticks (stats t)),
       elapsed_total_ticks := temps\<rparr>\<rparr>) k)"

definition finishReadyTime :: "nat \<Rightarrow> kernel \<Rightarrow> kernel res" where
  "finishReadyTime t k = bind (read_clock k) (\<lambda>(temps, k).
     set_task t (\<lambda>t. t\<lparr>stats := (stats t)\<lparr>ready_ticks := ready_ticks (stats t) + (temps - elapsed_total_ticks (stats t)),
       elapsed_total_ticks := temps, total_trans := total_trans (stats t) + 1\<rparr>\<rparr>) k)"

definition user2system :: "kernel \<Rightarrow> kernel res" where "user2system k = finishUserTime (cur k) k"
definition system2user :: "kernel \<Rightarrow> kernel res" where "system2user k = finishSystemTime (cur k) k"
definition system2ready :: "kernel \<Rightarrow> kernel res" where "system2ready k = finishSystemTime (cur k) k"
definition ready2system :: "kernel \<Rightarrow> kernel res" where "ready2system k = finishReadyTime (cur k) k"

definition init_stats :: "nat \<Rightarrow> kernel \<Rightarrow> kernel res" where
  "init_stats t k = bind (read_clock k) (\<lambda>(e, k). bind (read_clock k) (\<lambda>(r, k).
     set_task t (\<lambda>t. t\<lparr>stats := \<lparr>user_ticks = 0, system_ticks = 0, blocked_ticks = 0, ready_ticks = 0,
       elapsed_total_ticks = e, total_trans = 0, remaining_ticks = r\<rparr>\<rparr>) k))"

definition set_quantum :: "nat \<Rightarrow> int \<Rightarrow> kernel \<Rightarrow> kernel res" where
  "set_quantum t new_quantum = set_task t (\<lambda>t. t\<lparr>quantum := word_of_int new_quantum\<rparr>)"

definition get_quantum :: "nat \<Rightarrow> kernel \<Rightarrow> int res" where
  "get_quantum t k = bind (get_task k t) (\<lambda>t. Ok (sint (quantum t)))"

section \<open>Starting\<close>

definition DEFAULT_QUANTUM :: dword where "DEFAULT_QUANTUM = 30"

text \<open>\<open>initialize_sem\<close>\<close>

definition initialize_sem :: "kernel \<Rightarrow> kernel res" where
  "initialize_sem k =
     bind (for_each [0..<20] (\<lambda>i ss. bind (aget ss i) (\<lambda>s.
       bind (aput ss i (s\<lparr>sem_used := 0, sem_id := 0xDEAD, sem_owner := 0xDEAD, sem_count := 0xDEAD\<rparr>)) (\<lambda>ss.
       Ok (Inl ss)))) (semafors k)) (\<lambda>r.
     Ok (k\<lparr>semafors := (case r of Inl ss \<Rightarrow> ss | Inr ss \<Rightarrow> ss)\<rparr>))"

definition init_sched :: "kernel \<Rightarrow> kernel res" where
  "init_sched k =
     bind (on_lists (INIT_LIST_HEAD Free_Queue) k) (\<lambda>k.
     bind (on_lists (INIT_LIST_HEAD Ready_Queue) k) (\<lambda>k.
     bind (for_each [0..<NR_TASKS] (\<lambda>i k.
        bind (set_task i (\<lambda>t. t\<lparr>PID := -1\<rparr>) k) (\<lambda>k.
        bind (on_lists (list_add (Task i) Free_Queue) k) (\<lambda>k.
        bind (aput (dir_usage k) i 0) (\<lambda>u. Ok (Inl (k\<lparr>dir_usage := u\<rparr>)))))) k) (\<lambda>r.
     initialize_sem (case r of Inl k \<Rightarrow> k | Inr k \<Rightarrow> k))))"

text \<open>\<open>l = list_first(&freequeue); list_del(l)\<close> and the task of \<open>l\<close>\<close>

definition take_PCB :: "kernel \<Rightarrow> (nat \<times> kernel) res" where
  "take_PCB k =
     bind (list_first (links k) Free_Queue) (\<lambda>l.
     bind (on_lists (list_del l) k) (\<lambda>k.
     bind (list_head_to_task_struct l) (\<lambda>t. Ok (t, k))))"

definition init_idle :: "kernel \<Rightarrow> kernel res" where
  "init_idle k =
     bind (take_PCB k) (\<lambda>(idle, k).
     bind (set_task idle (\<lambda>t. t\<lparr>PID := sint (next_PID k)\<rparr>) k) (\<lambda>k.
     bind (allocate_DIR idle (k\<lparr>next_PID := next_PID k + 1\<rparr>)) (\<lambda>(_, k).
     bind (init_stats idle (k\<lparr>idle_task := idle\<rparr>)) (\<lambda>k.
     set_task idle (\<lambda>t. t\<lparr>quantum := DEFAULT_QUANTUM\<rparr>) k))))"

definition init_task1 :: "kernel \<Rightarrow> kernel res" where
  "init_task1 k =
     bind (take_PCB k) (\<lambda>(init, k).
     bind (set_task init (\<lambda>t. t\<lparr>PID := sint (next_PID k)\<rparr>) k) (\<lambda>k.
     bind (allocate_DIR init (k\<lparr>next_PID := next_PID k + 1\<rparr>)) (\<lambda>(_, k).
     bind (set_user_pages init k) (\<lambda>k.
     bind (get_DIR init k) (\<lambda>d.
     bind (set_task init (\<lambda>t. t\<lparr>quantum := DEFAULT_QUANTUM\<rparr>) (k\<lparr>cr3 := d, tss_esp0 := init\<rparr>)) (\<lambda>k.
     bind (init_stats init (k\<lparr>quantum_left := sint DEFAULT_QUANTUM\<rparr>)) (\<lambda>k.
     bind (for_each [0..<CHANNEL_TABLE_SIZE] (\<lambda>i k.
        bind (get_CHT init k) (\<lambda>ct.
        bind (aput ct i \<lparr>fd = 0, OFT_entry_num = -1\<rparr>) (\<lambda>ct.
        bind (set_task init (\<lambda>t. t\<lparr>channel_table := ct\<rparr>) k) (\<lambda>k. Ok (Inl k))))) k) (\<lambda>r.
     Ok (case r of Inl k \<Rightarrow> k | Inr k \<Rightarrow> k)))))))))"

section \<open>Scheduling\<close>

definition task_switch :: "nat \<Rightarrow> kernel \<Rightarrow> kernel res" where
  "task_switch new k =
     bind (get_DIR (cur k) k) (\<lambda>d. bind (get_DIR new k) (\<lambda>d'.
     let k = k\<lparr>tss_esp0 := new\<rparr>;
         k = (if d \<noteq> d' then k\<lparr>cr3 := d'\<rparr> else k)
     in Ok (k\<lparr>cur := new\<rparr>)))"

definition update_sched_data_rr :: "kernel \<Rightarrow> kernel" where
  "update_sched_data_rr k = k\<lparr>quantum_left := quantum_left k - 1\<rparr>"

definition needs_sched_rr :: "kernel \<Rightarrow> (int \<times> kernel) res" where
  "needs_sched_rr k =
     (if quantum_left k = 0 \<or> cur k = idle_task k then
        bind (if cur k = idle_task k then list_empty (links k) Ready_Queue else Ok False) (\<lambda>e.
        if e then bind (get_task k (cur k)) (\<lambda>t. Ok (0, k\<lparr>quantum_left := sint (quantum t)\<rparr>))
        else Ok (1, k))
      else Ok (0, k))"

definition update_process_state_rr :: "nat \<Rightarrow> node \<Rightarrow> kernel \<Rightarrow> kernel res" where
  "update_process_state_rr t dst k =
     bind (if nxt (links k) (Task t) \<noteq> NULL then on_lists (list_del (Task t)) k else Ok k) (\<lambda>k.
     if dst \<noteq> NULL \<and> t \<noteq> idle_task k then on_lists (list_add_tail (Task t) dst) k else Ok k)"

definition sched_next_rr :: "kernel \<Rightarrow> kernel res" where
  "sched_next_rr k =
     bind (list_empty (links k) Ready_Queue) (\<lambda>e.
     bind (if \<not> e then
             bind (list_first (links k) Ready_Queue) (\<lambda>l.
             bind (list_head_to_task_struct l) (\<lambda>t.
             bind (on_lists (list_del l) k) (\<lambda>k. Ok (t, k))))
           else Ok (idle_task k, k)) (\<lambda>(t, k).
     bind (get_quantum t k) (\<lambda>q.
     bind (finishSystemTime (cur k) (k\<lparr>quantum_left := q\<rparr>)) (\<lambda>k.
     bind (if t \<noteq> idle_task k then finishReadyTime t k else Ok k) (\<lambda>k.
     task_switch t k)))))"

definition scheduling :: "kernel \<Rightarrow> kernel res" where
  "scheduling k =
     bind (needs_sched_rr (update_sched_data_rr k)) (\<lambda>(r, k).
     if r \<noteq> 0 then bind (update_process_state_rr (cur k) Ready_Queue k) sched_next_rr else Ok k)"

section \<open>The queues of the kernel\<close>

text \<open>
  \<open>queues0 k Q\<close>: the lists hold what \<open>Q\<close> says, only anchors of tasks, and never that of the
  idle task; \<open>queues k Q\<close>: the running task is on no list either.
\<close>

definition queues0 :: "kernel \<Rightarrow> (node \<rightharpoonup> node list) \<Rightarrow> bool" where
  "queues0 k Q \<longleftrightarrow> holds_lists (links k) Q \<and> length (task k) = NR_TASKS \<and> cur k < NR_TASKS \<and> idle_task k < NR_TASKS \<and>
     free_node Q (Task (idle_task k)) \<and> (\<forall>q xs. Q q = Some xs \<longrightarrow> set xs \<subseteq> Task ` {..<NR_TASKS} \<and> q \<notin> range Task)"

definition queues :: "kernel \<Rightarrow> (node \<rightharpoonup> node list) \<Rightarrow> bool" where
  "queues k Q \<longleftrightarrow> queues0 k Q \<and> free_node Q (Task (cur k))"

lemma queues0D:
  assumes "queues0 k Q"
  shows "holds_lists (links k) Q" "length (task k) = NR_TASKS" "cur k < NR_TASKS" "idle_task k < NR_TASKS"
    "free_node Q (Task (idle_task k))" "Q q = Some xs \<Longrightarrow> set xs \<subseteq> Task ` {..<NR_TASKS}" "Q q = Some xs \<Longrightarrow> q \<notin> range Task"
  using assms unfolding queues0_def by blast+

text \<open>What two states have in common when only bookkeeping differs.\<close>

definition same_queues :: "kernel \<Rightarrow> kernel \<Rightarrow> bool" where
  "same_queues k k' \<longleftrightarrow> links k' = links k \<and> idle_task k' = idle_task k \<and> length (task k') = length (task k) \<and>
     semafors k' = semafors k \<and> zeos_sems k' = zeos_sems k \<and> dir_usage k' = dir_usage k \<and> phys_mem k' = phys_mem k \<and> pagusr_table k' = pagusr_table k \<and> dir_pages k' = dir_pages k \<and>
     (\<forall>i < length (task k). quantum (task k' ! i) = quantum (task k ! i) \<and> PID (task k' ! i) = PID (task k ! i) \<and>
       dir_pages_baseAddr (task k' ! i) = dir_pages_baseAddr (task k ! i) \<and> channel_table (task k' ! i) = channel_table (task k ! i))"

lemma same_queues_refl [simp]: "same_queues k k"
  by (simp add: same_queues_def)

lemma same_queues_trans: "same_queues k k' \<Longrightarrow> same_queues k' k'' \<Longrightarrow> same_queues k k''"
  by (simp add: same_queues_def)

lemma finishSystemTime_Ok:
  "t < length (task k) \<Longrightarrow> \<exists>k'. finishSystemTime t k = Ok k' \<and> same_queues k k' \<and> cur k' = cur k \<and> quantum_left k' = quantum_left k"
  using read_clock_Ok [of k] by (auto simp: finishSystemTime_def set_task_Ok same_queues_def nth_list_update)

lemma finishReadyTime_Ok:
  "t < length (task k) \<Longrightarrow> \<exists>k'. finishReadyTime t k = Ok k' \<and> same_queues k k' \<and> cur k' = cur k \<and> quantum_left k' = quantum_left k"
  using read_clock_Ok [of k] by (auto simp: finishReadyTime_def set_task_Ok same_queues_def nth_list_update)

lemma task_switch_Ok:
  "t < length (task k) \<Longrightarrow> cur k < length (task k) \<Longrightarrow>
   \<exists>k'. task_switch t k = Ok k' \<and> same_queues k k' \<and> cur k' = t \<and> quantum_left k' = quantum_left k \<and> tss_esp0 k' = t"
  by (auto simp: task_switch_def get_DIR_def get_task_Ok Let_def same_queues_def)

lemma init_stats_Ok:
  assumes "t < length (task k)"
  shows "\<exists>st ts. init_stats t k = Ok (k\<lparr>tsc := ts, task := (task k)[t := (task k ! t)\<lparr>stats := st\<rparr>]\<rparr>)"
proof -
  obtain a where a: "read_clock k = Ok (a, k\<lparr>tsc := \<lambda>n. tsc k (Suc n)\<rparr>)" using read_clock_Ok by blast
  obtain b where b: "read_clock (k\<lparr>tsc := \<lambda>n. tsc k (Suc n)\<rparr>) = Ok (b, k\<lparr>tsc := \<lambda>n. tsc k (Suc (Suc n))\<rparr>)"
    using read_clock_Ok [of "k\<lparr>tsc := \<lambda>n. tsc k (Suc n)\<rparr>"] by auto
  show ?thesis using a b assms by (auto simp: init_stats_def set_task_Ok)
qed

section \<open>Choosing the next process\<close>

lemma sched_next_ready:
  assumes "queues0 k Q" and "Q Ready_Queue = Some (Task i # rs)"
  shows "\<exists>k'. sched_next_rr k = Ok k' \<and> cur k' = i \<and> holds_lists (links k') (Q(Ready_Queue \<mapsto> rs)) \<and>
    quantum_left k' = sint (quantum (task k ! i)) \<and> same_queues (k\<lparr>links := links k'\<rparr>) k'"
proof -
  note q = queues0D [OF assms(1)]
  have i: "i < length (task k)" using q(6) [OF assms(2)] q(2) by auto
  have ne: "i \<noteq> idle_task k" using holds_not_in [OF q(1) assms(2) q(5)] by auto
  from lists.del_law [OF q(1), of Ready_Queue "[]" "Task i" rs] assms(2) obtain h where
    h: "list_del (Task i) (links k) = Ok h" "holds_lists h (Q(Ready_Queue \<mapsto> rs))" by auto
  let ?k = "k\<lparr>links := h, quantum_left := sint (quantum (task k ! i))\<rparr>"
  from finishSystemTime_Ok [of "cur k" ?k] q obtain k1 where
    k1: "finishSystemTime (cur k) ?k = Ok k1" "same_queues ?k k1" "cur k1 = cur k" "quantum_left k1 = quantum_left ?k" by auto
  then have t1: "length (task k1) = length (task k)" "idle_task k1 = idle_task k" by (simp_all add: same_queues_def)
  from finishReadyTime_Ok [of i k1] i t1 obtain k2 where
    k2: "finishReadyTime i k1 = Ok k2" "same_queues k1 k2" "cur k2 = cur k1" "quantum_left k2 = quantum_left k1" by auto
  then have t2: "length (task k2) = length (task k)" by (simp add: same_queues_def t1)
  from task_switch_Ok [of i k2] i t2 k2(3) k1(3) q obtain k3 where
    k3: "task_switch i k2 = Ok k3" "same_queues k2 k3" "cur k3 = i" "quantum_left k3 = quantum_left k2" by auto
  have "sched_next_rr k = Ok k3"
    using lists.empty_law [OF q(1) assms(2)] lists.first_law [OF q(1) assms(2)] h(1) k1(1) k2(1) k3(1) i ne t1
    by (simp add: sched_next_rr_def on_lists_def get_quantum_def get_task_Ok)
  moreover have same: "same_queues ?k k3" using k1(2) k2(2) k3(2) same_queues_trans by blast
  then have "links k3 = h" by (simp add: same_queues_def)
  moreover from same have "same_queues (k\<lparr>links := h\<rparr>) k3" by (simp add: same_queues_def)
  ultimately show ?thesis using k1(4) k2(4) k3(3,4) h(2) by auto
qed

lemma sched_next_idle:
  assumes "queues0 k Q" and "Q Ready_Queue = Some []"
  shows "\<exists>k'. sched_next_rr k = Ok k' \<and> cur k' = idle_task k \<and> quantum_left k' = sint (quantum (task k ! idle_task k)) \<and> same_queues k k'"
proof -
  note q = queues0D [OF assms(1)]
  let ?i = "idle_task k"
  let ?k = "k\<lparr>quantum_left := sint (quantum (task k ! ?i))\<rparr>"
  from finishSystemTime_Ok [of "cur k" ?k] q obtain k1 where
    k1: "finishSystemTime (cur k) ?k = Ok k1" "same_queues ?k k1" "cur k1 = cur k" "quantum_left k1 = quantum_left ?k" by auto
  then have t1: "length (task k1) = length (task k)" "idle_task k1 = idle_task k" by (simp_all add: same_queues_def)
  from task_switch_Ok [of ?i k1] t1 k1(3) q obtain k3 where
    k3: "task_switch ?i k1 = Ok k3" "same_queues k1 k3" "cur k3 = ?i" "quantum_left k3 = quantum_left k1" by auto
  have "sched_next_rr k = Ok k3"
    using lists.empty_law [OF q(1) assms(2)] k1(1) k3(1) t1 q(2,4)
    by (simp add: sched_next_rr_def get_quantum_def get_task_Ok)
  moreover have "same_queues ?k k3" using k1(2) k3(2) same_queues_trans by blast
  then have "same_queues k k3" by (simp add: same_queues_def)
  ultimately show ?thesis using k1(4) k3(3,4) by auto
qed

text \<open>The queues after a queue lost or gained nodes.\<close>

lemma free_node_subset: "free_node Q x \<Longrightarrow> Q q = Some xs \<Longrightarrow> x \<notin> set xs' \<Longrightarrow> free_node (Q(q \<mapsto> xs')) x"
  by (subst free_node_keep) (auto simp: free_node_def)

lemma queues0_after:
  assumes "queues0 k Q" and "holds_lists (links k') (Q(q \<mapsto> xs'))" and "Q q = Some xs"
    and "set xs' \<subseteq> Task ` {..<NR_TASKS}" and "Task (idle_task k) \<notin> set xs'"
    and "length (task k') = length (task k)" and "idle_task k' = idle_task k" and "cur k' < NR_TASKS"
  shows "queues0 k' (Q(q \<mapsto> xs'))"
proof -
  note q = queues0D [OF assms(1)]
  have "free_node (Q(q \<mapsto> xs')) (Task (idle_task k))" using q(5) assms(3,5) by (rule free_node_subset)
  with assms q(2,4,6,7) show ?thesis unfolding queues0_def by (auto simp: fun_upd_apply)
qed

lemma sched_next_queues:
  assumes "queues0 k Q" and "Q Ready_Queue = Some (x # rs)"
  shows "\<exists>k'. sched_next_rr k = Ok k' \<and> Task (cur k') = x \<and> queues k' (Q(Ready_Queue \<mapsto> rs)) \<and>
    quantum_left k' = sint (quantum (task k ! cur k')) \<and> same_queues (k\<lparr>links := links k'\<rparr>) k'"
proof -
  note q = queues0D [OF assms(1)]
  have sub: "set (x # rs) \<subseteq> Task ` {..<NR_TASKS}" using q(6) [OF assms(2)] .
  then obtain i where i: "x = Task i" "i < NR_TASKS" by auto
  from sched_next_ready [OF assms(1), of i rs] assms(2) i(1) obtain k' where
    k': "sched_next_rr k = Ok k'" "cur k' = i" "holds_lists (links k') (Q(Ready_Queue \<mapsto> rs))"
    "quantum_left k' = sint (quantum (task k ! i))" "same_queues (k\<lparr>links := links k'\<rparr>) k'" by auto
  have "Task (idle_task k) \<notin> set rs" using holds_not_in [OF q(1) assms(2) q(5)] by simp
  moreover have "length (task k') = length (task k)" "idle_task k' = idle_task k" using k'(5) by (simp_all add: same_queues_def)
  ultimately have "queues0 k' (Q(Ready_Queue \<mapsto> rs))"
    using assms(2) sub k'(2,3) i(2) by (intro queues0_after [OF assms(1)]) auto
  moreover have "free_node (Q(Ready_Queue \<mapsto> rs)) (Task i)"
    using lists.removed_free [OF q(1), of Ready_Queue "[]" "Task i" rs] assms(2) i(1) by simp
  ultimately show ?thesis using k' i(1) by (auto simp: queues_def)
qed

lemma update_state_running:
  assumes "queues k Q" and "cur k \<noteq> idle_task k" and "Q dst = Some xs"
  shows "\<exists>h. update_process_state_rr (cur k) dst k = Ok (k\<lparr>links := h\<rparr>) \<and> queues0 (k\<lparr>links := h\<rparr>) (Q(dst \<mapsto> xs @ [Task (cur k)]))"
proof -
  have q0: "queues0 k Q" and free: "free_node Q (Task (cur k))" using assms(1) by (simp_all add: queues_def)
  note q = queues0D [OF q0]
  have off: "nxt (links k) (Task (cur k)) = NULL" using holdsD(3) [OF q(1)] free by simp
  have dst: "dst \<noteq> NULL" using lists.not_null [OF q(1) assms(3)] by simp
  from lists.add_tail_law [OF q(1) assms(3) _ free] obtain h where
    h: "list_add_tail (Task (cur k)) dst (links k) = Ok h" "holds_lists h (Q(dst \<mapsto> xs @ [Task (cur k)]))" by auto
  have "Task (idle_task k) \<notin> set xs" using holds_not_in [OF q(1) assms(3) q(5)] by simp
  with q0 h(2) assms(2,3) q(3,6) have "queues0 (k\<lparr>links := h\<rparr>) (Q(dst \<mapsto> xs @ [Task (cur k)]))"
    by (intro queues0_after [OF q0]) auto
  with h(1) off dst assms(2) show ?thesis by (auto simp: update_process_state_rr_def on_lists_def)
qed

section \<open>Round robin\<close>

lemma scheduling_running:
  "cur k \<noteq> idle_task k \<Longrightarrow> quantum_left k \<noteq> 1 \<Longrightarrow> scheduling k = Ok (k\<lparr>quantum_left := quantum_left k - 1\<rparr>)"
  by (simp add: scheduling_def update_sched_data_rr_def needs_sched_rr_def)

lemma scheduling_expired_aux:
  assumes "queues k Q" and "cur k \<noteq> idle_task k" and "quantum_left k = 1" and "Q Ready_Queue = Some rs"
  shows "\<exists>k'. scheduling k = Ok k' \<and> Task (cur k') = hd (rs @ [Task (cur k)]) \<and>
    queues k' (Q(Ready_Queue \<mapsto> tl (rs @ [Task (cur k)]))) \<and> quantum_left k' = sint (quantum (task k ! cur k')) \<and>
    (\<forall>i < NR_TASKS. quantum (task k' ! i) = quantum (task k ! i)) \<and> idle_task k' = idle_task k"
proof -
  let ?k = "k\<lparr>quantum_left := 0\<rparr>" and ?rs = "rs @ [Task (cur k)]"
  have Q: "queues ?k Q" using assms(1) by (simp add: queues_def queues0_def)
  from update_state_running [OF Q, of Ready_Queue rs] assms(2,4) obtain h where
    h: "update_process_state_rr (cur k) Ready_Queue ?k = Ok (?k\<lparr>links := h\<rparr>)"
      "queues0 (?k\<lparr>links := h\<rparr>) (Q(Ready_Queue \<mapsto> ?rs))" by auto
  have rs: "?rs = hd ?rs # tl ?rs" by simp
  with sched_next_queues [OF h(2), of "hd ?rs" "tl ?rs"] obtain k' where
    k': "sched_next_rr (?k\<lparr>links := h\<rparr>) = Ok k'" "Task (cur k') = hd ?rs" "queues k' (Q(Ready_Queue \<mapsto> tl ?rs))"
    "quantum_left k' = sint (quantum (task k ! cur k'))" "same_queues (?k\<lparr>links := h, links := links k'\<rparr>) k'" by auto
  have "scheduling k = Ok k'"
    using assms(2,3) h(1) k'(1) by (simp add: scheduling_def update_sched_data_rr_def needs_sched_rr_def)
  with k' queues0D(2) [of k Q] assms(1) show ?thesis by (auto simp: same_queues_def queues_def)
qed

text \<open>
  The idle process gives the processor to the first ready process at the next clock tick,
  whatever its quantum, and goes on when there is none.
\<close>

lemma idle_yields:
  assumes "queues k Q" and "cur k = idle_task k" and "Q Ready_Queue = Some rs"
  shows "\<exists>k'. scheduling k = Ok k' \<and> Task (cur k') = (if rs = [] then Task (idle_task k) else hd rs) \<and>
    queues k' (Q(Ready_Queue \<mapsto> tl rs)) \<and> quantum_left k' = sint (quantum (task k ! cur k'))"
proof -
  let ?k = "k\<lparr>quantum_left := quantum_left k - 1\<rparr>"
  have Q: "queues0 ?k Q" "free_node Q (Task (idle_task k))" using assms(1) by (simp_all add: queues_def queues0_def)
  note q = queues0D [OF Q(1)]
  have e: "list_empty (links ?k) Ready_Queue = Ok (rs = [])" using lists.empty_law [OF q(1) assms(3)] .
  show ?thesis
  proof (cases rs)
    case Nil
    then have same: "Q(Ready_Queue \<mapsto> tl rs) = Q" using assms(3) by auto
    let ?k' = "k\<lparr>quantum_left := sint (quantum (task k ! cur k))\<rparr>"
    have "scheduling k = Ok ?k'"
      using assms(2) e Nil q(2,4) by (simp add: scheduling_def update_sched_data_rr_def needs_sched_rr_def get_task_Ok)
    moreover have "queues ?k' Q" using assms(1) by (simp add: queues_def queues0_def)
    ultimately show ?thesis using Nil assms(2) same by auto
  next
    case (Cons x rs')
    have off: "nxt (links k) (Task (idle_task k)) = NULL" using holdsD(3) [OF q(1)] Q(2) by simp
    then have up: "update_process_state_rr (idle_task k) Ready_Queue ?k = Ok ?k" by (simp add: update_process_state_rr_def)
    from sched_next_queues [OF Q(1), of x rs'] assms(3) Cons obtain k' where
      "sched_next_rr ?k = Ok k'" "Task (cur k') = x" "queues k' (Q(Ready_Queue \<mapsto> rs'))" "quantum_left k' = sint (quantum (task k ! cur k'))"
      by auto
    moreover from this(1) have "scheduling k = Ok k'"
      using assms(2) e Cons up by (simp add: scheduling_def update_sched_data_rr_def needs_sched_rr_def)
    ultimately show ?thesis using Cons by auto
  qed
qed

section \<open>What the scheduler promises\<close>

lemma sample_consistent: "queues (sample_kernel 0 q) sample_queues" "queues (sample_kernel 1 q) sample_queues"
proof -
  have t: "set xs \<subseteq> Task ` {..<NR_TASKS} \<and> r \<notin> range Task" if "sample_queues r = Some xs" for r xs
    using that by (auto simp: sample_queues_def NR_TASKS_def split: if_splits)
  show "queues (sample_kernel 0 q) sample_queues" "queues (sample_kernel 1 q) sample_queues"
    unfolding queues_def queues0_def using sample_holds t
    by (auto simp: sample_kernel_def sample_free NR_TASKS_def)
qed

text \<open>
  C34: round robin. When the clock ticks for the last time of the quantum, the running process goes
  to the end of the ready queue and the first one there runs, with the quantum of that process.
\<close>

theorem round_robin:
  assumes "queues k Q" and "cur k \<noteq> idle_task k" and "quantum_left k = 1" and "Q Ready_Queue = Some rs"
  shows "\<exists>k'. scheduling k = Ok k' \<and> Task (cur k') = hd (rs @ [Task (cur k)]) \<and>
    queues k' (Q(Ready_Queue \<mapsto> tl (rs @ [Task (cur k)]))) \<and> quantum_left k' = sint (quantum (task k ! cur k'))"
  using scheduling_expired_aux [OF assms] by blast

theorem round_robin_witness:
  "\<exists>k'. scheduling (sample_kernel 1 1) = Ok k' \<and> cur k' = 2 \<and>
    queues k' (sample_queues(Ready_Queue \<mapsto> [Task 1])) \<and> quantum_left k' = 30"
proof -
  let ?k = "sample_kernel 1 1"
  have f: "cur ?k = 1" "idle_task ?k = 0" "quantum_left ?k = 1" "task ?k = map sample_task [0..<NR_TASKS]"
    by (simp_all add: sample_kernel_def)
  have r: "sample_queues Ready_Queue = Some [Task 2]" by (simp add: sample_queues_def)
  from round_robin [OF sample_consistent(2) _ f(3) r] f obtain k' where
    "scheduling ?k = Ok k'" "cur k' = 2" "queues k' (sample_queues(Ready_Queue \<mapsto> [Task 1]))"
    "quantum_left k' = sint (quantum (task ?k ! cur k'))" by auto
  then show ?thesis using f(4) by (intro exI [of _ k']) (simp add: NR_TASKS_def sample_task_def)
qed

end
