(* ===== verification/Kernel_Sem.thy ===== *)
theory Kernel_Sem
  imports Kernel_Sched
begin

text \<open>
  The semaphores of the system calls (zeos_full/sem.c). A \<open>sem_wait\<close> that blocks switches to
  another process in its middle: \<open>sem_wait\<close> answers \<open>Inr s\<close> then, and
  \<open>sem_wait_resumed s\<close> is what the caller does in slot \<open>s\<close> when it runs again.
\<close>

section \<open>Code\<close>

definition N_SEMAFORS :: nat where "N_SEMAFORS = 20"

definition find_semafor :: "(sem \<Rightarrow> bool) \<Rightarrow> kernel \<Rightarrow> nat option res" where
  "find_semafor P k =
     bind (for_each [0..<N_SEMAFORS] (\<lambda>i _. bind (aget (semafors k) i) (\<lambda>s. Ok (if P s then Inr i else Inl ()))) ()) (\<lambda>r.
     Ok (case r of Inr i \<Rightarrow> Some i | Inl _ \<Rightarrow> None))"

definition get_semafor :: "int \<Rightarrow> kernel \<Rightarrow> nat option res" where
  "get_semafor n_sem = find_semafor (\<lambda>s. sem_id s = word_of_int n_sem)"

definition get_free_semafor :: "kernel \<Rightarrow> nat option res" where
  "get_free_semafor = find_semafor (\<lambda>s. sem_used s = 0)"

definition set_sem :: "nat \<Rightarrow> (sem \<Rightarrow> sem) \<Rightarrow> kernel \<Rightarrow> kernel res" where
  "set_sem i f k = bind (aget (semafors k) i) (\<lambda>s. bind (aput (semafors k) i (f s)) (\<lambda>ss. Ok (k\<lparr>semafors := ss\<rparr>)))"

definition sem_init :: "int \<Rightarrow> dword \<Rightarrow> kernel \<Rightarrow> (int \<times> kernel) res" where
  "sem_init n_sem val k =
     bind (get_semafor n_sem k) (\<lambda>s. if s \<noteq> None then Ok (-EINVAL, k) else
     bind (get_free_semafor k) (\<lambda>s. case s of
       None \<Rightarrow> Ok (-2, k)
     | Some s \<Rightarrow> bind (aget (semafors k) s) (\<lambda>sem. if sem_used sem \<noteq> 0 then Ok (-EINVAL, k) else
         bind (get_task k (cur k)) (\<lambda>t.
         bind (set_sem s (\<lambda>x. x\<lparr>sem_used := 1, sem_count := val, sem_owner := PID t, sem_id := word_of_int n_sem\<rparr>) k) (\<lambda>k.
         bind (on_lists (INIT_LIST_HEAD (Sem_Queue s)) k) (\<lambda>k. Ok (0, k)))))))"

definition sem_wait :: "int \<Rightarrow> kernel \<Rightarrow> ((int + nat) \<times> kernel) res" where
  "sem_wait n_sem k =
     bind (get_semafor n_sem k) (\<lambda>s. case s of
       None \<Rightarrow> Ok (Inl (-EINVAL), k)
     | Some s \<Rightarrow> bind (aget (semafors k) s) (\<lambda>sem. if sem_used sem \<le> 0 then Ok (Inl (-EINVAL), k)
         else if 0 < sem_count sem
         then bind (set_sem s (\<lambda>x. x\<lparr>sem_count := sem_count x - 1\<rparr>) k) (\<lambda>k. Ok (Inl (-1), k))
         else bind (update_process_state_rr (cur k) (Sem_Queue s) k) (\<lambda>k.
              bind (sched_next_rr k) (\<lambda>k. Ok (Inr s, k)))))"

definition sem_wait_resumed :: "nat \<Rightarrow> kernel \<Rightarrow> (int \<times> kernel) res" where
  "sem_wait_resumed s k =
     bind (aget (semafors k) s) (\<lambda>sem. if sem_used sem < 0
       then bind (set_sem s (\<lambda>x. x\<lparr>sem_used := sem_used x + 1\<rparr>) k) (\<lambda>k. Ok (-2, k))
       else Ok (0, k))"

definition sem_signal :: "int \<Rightarrow> kernel \<Rightarrow> (int \<times> kernel) res" where
  "sem_signal n_sem k =
     bind (get_semafor n_sem k) (\<lambda>s. case s of
       None \<Rightarrow> Ok (-EINVAL, k)
     | Some s \<Rightarrow> bind (aget (semafors k) s) (\<lambda>sem. if sem_used sem \<le> 0 then Ok (-EINVAL, k) else
         bind (list_empty (links k) (Sem_Queue s)) (\<lambda>e.
         if e then bind (set_sem s (\<lambda>x. x\<lparr>sem_count := sem_count x + 1\<rparr>) k) (\<lambda>k. Ok (0, k))
         else bind (list_first (links k) (Sem_Queue s)) (\<lambda>p.
              bind (on_lists (list_del p) k) (\<lambda>k.
              bind (on_lists (list_add_tail p Ready_Queue) k) (\<lambda>k. Ok (0, k)))))))"

text \<open>\<open>list_for_each_safe (p, tmp, &s->blocked)\<close> with its body\<close>

definition wake_round :: "nat \<Rightarrow> node \<times> node \<times> kernel \<Rightarrow> ((node \<times> node \<times> kernel) + kernel) res" where
  "wake_round s = (\<lambda>(p, tmp, k).
     if p \<noteq> Sem_Queue s then
       bind (on_lists (list_del p) k) (\<lambda>k.
       bind (set_sem s (\<lambda>x. x\<lparr>sem_used := sem_used x - 1\<rparr>) k) (\<lambda>k.
       bind (on_lists (list_add_tail p Ready_Queue) k) (\<lambda>k.
       bind (get_nxt (links k) tmp) (\<lambda>n. Ok (Inl (tmp, n, k))))))
     else Ok (Inr k))"

definition internal_sem_destroy :: "nat \<Rightarrow> kernel \<Rightarrow> (int \<times> kernel) res" where
  "internal_sem_destroy s k =
     bind (aget (semafors k) s) (\<lambda>sem. if sem_used sem \<le> 0 then Ok (-EINVAL, k) else
     bind (get_task k (cur k)) (\<lambda>t. if sem_owner sem \<noteq> PID t then Ok (-EINVAL, k) else
     bind (set_sem s (\<lambda>x. x\<lparr>sem_used := 0, sem_id := 0xDEAD\<rparr>) k) (\<lambda>k.
     bind (get_nxt (links k) (Sem_Queue s)) (\<lambda>p.
     bind (get_nxt (links k) p) (\<lambda>tmp.
     bind (loop (wake_round s) (p, tmp, k)) (\<lambda>k. Ok (0, k)))))))"

definition sem_destroy :: "int \<Rightarrow> kernel \<Rightarrow> (int \<times> kernel) res" where
  "sem_destroy n_sem k =
     bind (get_semafor n_sem k) (\<lambda>s. case s of None \<Rightarrow> Ok (-EINVAL, k) | Some s \<Rightarrow> internal_sem_destroy s k)"

definition destroy_owned_sems :: "int \<Rightarrow> kernel \<Rightarrow> kernel res" where
  "destroy_owned_sems pid k =
     bind (for_each [0..<N_SEMAFORS] (\<lambda>i k. bind (aget (semafors k) i) (\<lambda>s.
        if 0 < sem_used s \<and> sem_owner s = pid
        then bind (internal_sem_destroy i k) (\<lambda>(_, k). Ok (Inl k)) else Ok (Inl k))) k) (\<lambda>r.
     Ok (case r of Inl k \<Rightarrow> k | Inr k \<Rightarrow> k))"

section \<open>Finding a semaphore\<close>

definition named :: "kernel \<Rightarrow> int \<Rightarrow> nat option" where
  "named k n = find (\<lambda>i. sem_id (semafors k ! i) = word_of_int n) [0..<N_SEMAFORS]"

lemma find_rounds:
  "\<forall>i \<in> set is. i < length xs \<Longrightarrow>
   for_each is (\<lambda>i _. bind (aget xs i) (\<lambda>s. Ok (if P s then Inr i else Inl ()))) ()
     = Ok (case find (\<lambda>i. P (xs ! i)) is of None \<Rightarrow> Inl () | Some i \<Rightarrow> Inr i)"
  by (induction "is") auto

lemma get_semafor_named [safe]: "length (semafors k) = N_SEMAFORS \<Longrightarrow> get_semafor n k = Ok (named k n)"
  using find_rounds [of "[0..<N_SEMAFORS]" "semafors k" "\<lambda>s. sem_id s = word_of_int n"]
  by (simp add: get_semafor_def find_semafor_def named_def split: option.splits)

lemma get_free_found [safe]:
  "length (semafors k) = N_SEMAFORS \<Longrightarrow> get_free_semafor k = Ok (find (\<lambda>i. sem_used (semafors k ! i) = 0) [0..<N_SEMAFORS])"
  using find_rounds [of "[0..<N_SEMAFORS]" "semafors k" "\<lambda>s. sem_used s = 0"]
  by (simp add: get_free_semafor_def find_semafor_def split: option.splits)

lemma named_range: "named k n = Some s \<Longrightarrow> s < N_SEMAFORS \<and> sem_id (semafors k ! s) = word_of_int n"
  unfolding named_def by (auto simp: find_Some_iff)

section \<open>Waiting and signalling\<close>

lemma set_sem_Ok [safe]: "s < length (semafors k) \<Longrightarrow> set_sem s f k = Ok (k\<lparr>semafors := (semafors k)[s := f (semafors k ! s)]\<rparr>)"
  by (simp add: set_sem_def)

lemma sem_wait_takes_aux:
  assumes "length (semafors k) = N_SEMAFORS" and "named k n = Some s" and "0 < sem_used (semafors k ! s)" and "0 < sem_count (semafors k ! s)"
  shows "sem_wait n k = Ok (Inl (-1), k\<lparr>semafors := (semafors k)[s := (semafors k ! s)\<lparr>sem_count := sem_count (semafors k ! s) - 1\<rparr>]\<rparr>)"
  using assms named_range [OF assms(2)] by (simp add: sem_wait_def get_semafor_named set_sem_Ok)

lemma sem_wait_blocks_aux:
  assumes "queues k Q" and "cur k \<noteq> idle_task k" and "Q (Sem_Queue s) = Some bs" and "Q Ready_Queue = Some (x # rs)"
    and "length (semafors k) = N_SEMAFORS" and "named k n = Some s" and "0 < sem_used (semafors k ! s)" and "sem_count (semafors k ! s) = 0"
  shows "\<exists>k'. sem_wait n k = Ok (Inr s, k') \<and> Task (cur k') = x
    \<and> queues k' (Q(Sem_Queue s \<mapsto> bs @ [Task (cur k)], Ready_Queue \<mapsto> rs)) \<and> semafors k' = semafors k"
proof -
  from update_state_running [OF assms(1-3)] obtain h where
    h: "update_process_state_rr (cur k) (Sem_Queue s) k = Ok (k\<lparr>links := h\<rparr>)"
      "queues0 (k\<lparr>links := h\<rparr>) (Q(Sem_Queue s \<mapsto> bs @ [Task (cur k)]))" by auto
  from sched_next_queues [OF h(2), of x rs] assms(4) obtain k' where
    k': "sched_next_rr (k\<lparr>links := h\<rparr>) = Ok k'" "Task (cur k') = x"
      "queues k' (Q(Sem_Queue s \<mapsto> bs @ [Task (cur k)], Ready_Queue \<mapsto> rs))"
      "same_queues (k\<lparr>links := h, links := links k'\<rparr>) k'" by auto
  have "sem_wait n k = Ok (Inr s, k')"
    using assms(5-8) named_range [OF assms(6)] h(1) k'(1) by (simp add: sem_wait_def get_semafor_named)
  with k' show ?thesis by (auto simp: same_queues_def)
qed

lemma sem_signal_wakes_aux:
  assumes "queues k Q" and "Q (Sem_Queue s) = Some (x # bs)" and "Q Ready_Queue = Some rs"
    and "length (semafors k) = N_SEMAFORS" and "named k n = Some s" and "0 < sem_used (semafors k ! s)"
  shows "\<exists>h. sem_signal n k = Ok (0, k\<lparr>links := h\<rparr>) \<and> queues (k\<lparr>links := h\<rparr>) (Q(Sem_Queue s \<mapsto> bs, Ready_Queue \<mapsto> rs @ [x]))"
proof -
  have q0: "queues0 k Q" and free: "free_node Q (Task (cur k))" using assms(1) by (simp_all add: queues_def)
  note q = queues0D [OF q0]
  from lists.move_first [OF q(1) assms(2,3)] obtain h' h where
    h: "list_first (links k) (Sem_Queue s) = Ok x" "list_del x (links k) = Ok h'" "list_add_tail x Ready_Queue h' = Ok h"
      "holds_lists h (Q(Sem_Queue s \<mapsto> bs, Ready_Queue \<mapsto> rs @ [x]))" by auto
  have e: "list_empty (links k) (Sem_Queue s) = Ok False" using lists.empty_law [OF q(1) assms(2)] by simp
  have run: "sem_signal n k = Ok (0, k\<lparr>links := h\<rparr>)"
    using assms(4-6) named_range [OF assms(5)] h(1-3) e by (simp add: sem_signal_def get_semafor_named on_lists_def)
  have out: "free_node (Q(Sem_Queue s \<mapsto> bs, Ready_Queue \<mapsto> rs @ [x])) y" if "free_node Q y" for y
    using that assms(2,3) holds_not_in [OF q(1) assms(2) that] holds_not_in [OF q(1) assms(3) that]
    by (intro free_node_subset [where xs = rs] free_node_subset [where xs = "x # bs"]) auto
  have "queues0 (k\<lparr>links := h\<rparr>) (Q(Sem_Queue s \<mapsto> bs, Ready_Queue \<mapsto> rs @ [x]))"
    unfolding queues0_def using h(4) q(2-4) out [OF q(5)] q(6) [OF assms(2)] q(6) [OF assms(3)] q(6,7) q(7) [OF assms(2)] q(7) [OF assms(3)]
    by (auto simp: fun_upd_apply)
  with run out [OF free] show ?thesis by (auto simp: queues_def)
qed

lemma sem_signal_counts_aux:
  assumes "queues k Q" and "Q (Sem_Queue s) = Some []"
    and "length (semafors k) = N_SEMAFORS" and "named k n = Some s" and "0 < sem_used (semafors k ! s)"
  shows "sem_signal n k = Ok (0, k\<lparr>semafors := (semafors k)[s := (semafors k ! s)\<lparr>sem_count := sem_count (semafors k ! s) + 1\<rparr>]\<rparr>)"
proof -
  have "list_empty (links k) (Sem_Queue s) = Ok True"
    using lists.empty_law [of "links k" Q "Sem_Queue s" "[]"] assms(1,2) by (simp add: queues_def queues0_def)
  with assms(3-5) named_range [OF assms(4)] show ?thesis by (simp add: sem_signal_def get_semafor_named set_sem_Ok)
qed

section \<open>Destroying\<close>

lemma next_in_list:
  assumes "holds_lists h Q" and "Q q = Some (x # xs)"
  shows "get_nxt h x = Ok (hd (xs @ [q]))"
  using is_list_split [of h q "[]" x xs] holdsD(2) [OF assms] by (simp add: get_nxt_def)

lemma next_of_head:
  assumes "holds_lists h Q" and "Q q = Some xs"
  shows "get_nxt h q = Ok (hd (xs @ [q]))"
proof -
  have "q \<noteq> NULL" using lists.not_null [OF assms] by simp
  moreover have "linked h q xs q" using holdsD(2) [OF assms] by (simp add: is_list_def)
  ultimately show ?thesis using linked_ends by (auto simp: get_nxt_def)
qed

lemma wake_all:
  assumes "holds_lists (links k) Q" and "Q (Sem_Queue s) = Some bs" and "Q Ready_Queue = Some rs"
    and "s < length (semafors k)" and "Sem_Queue s \<notin> set bs"
    and "p = hd (bs @ [Sem_Queue s])" and "bs \<noteq> [] \<longrightarrow> tmp = hd (tl bs @ [Sem_Queue s])"
  shows "\<exists>h. loop (wake_round s) (p, tmp, k) = Ok (k\<lparr>links := h,
      semafors := (semafors k)[s := (semafors k ! s)\<lparr>sem_used := sem_used (semafors k ! s) - int (length bs)\<rparr>]\<rparr>)
    \<and> holds_lists h (Q(Sem_Queue s \<mapsto> [], Ready_Queue \<mapsto> rs @ bs))"
  using assms
proof (induction bs arbitrary: k Q rs p tmp)
  case Nil
  then have "loop (wake_round s) (p, tmp, k) = Ok k" by (intro loop_stop) (simp add: wake_round_def)
  moreover have "Q(Sem_Queue s \<mapsto> [], Ready_Queue \<mapsto> rs) = Q" using Nil by (auto simp: fun_eq_iff)
  then have "holds_lists (links k) (Q(Sem_Queue s \<mapsto> [], Ready_Queue \<mapsto> rs @ []))" using Nil(1) by (simp only: append_Nil2)
  ultimately show ?case using Nil(4) by (intro exI [of _ "links k"]) (simp del: fun_upd_apply append_Nil2)
next
  case (Cons b bs)
  let ?Q = "Q(Sem_Queue s \<mapsto> bs, Ready_Queue \<mapsto> rs @ [b])"
  let ?sems = "(semafors k)[s := (semafors k ! s)\<lparr>sem_used := sem_used (semafors k ! s) - 1\<rparr>]"
  have p: "p = b" "tmp = hd (bs @ [Sem_Queue s])" "p \<noteq> Sem_Queue s" using Cons.prems by auto
  from lists.move_first [OF Cons.prems(1-3)] obtain h1 h2 where
    h: "list_del b (links k) = Ok h1" "list_add_tail b Ready_Queue h1 = Ok h2" "holds_lists h2 ?Q" by auto
  let ?k = "k\<lparr>links := h2, semafors := ?sems\<rparr>"
  have "\<exists>n. get_nxt h2 tmp = Ok n \<and> (bs \<noteq> [] \<longrightarrow> n = hd (tl bs @ [Sem_Queue s]))"
  proof (cases bs)
    case Nil
    then show ?thesis using next_of_head [OF h(3), of "Sem_Queue s" "[]"] p(2) by simp
  next
    case (Cons c cs)
    then show ?thesis using next_in_list [OF h(3), of "Sem_Queue s" c cs] p(2) by simp
  qed
  then obtain n where n: "get_nxt h2 tmp = Ok n" "bs \<noteq> [] \<longrightarrow> n = hd (tl bs @ [Sem_Queue s])" by auto
  have step: "loop (wake_round s) (p, tmp, k) = loop (wake_round s) (tmp, n, ?k)"
    using p h(1,2) n(1) Cons.prems(4) by (intro loop_step) (simp add: wake_round_def on_lists_def set_sem_Ok)
  have prems: "holds_lists (links ?k) ?Q" "?Q (Sem_Queue s) = Some bs" "?Q Ready_Queue = Some (rs @ [b])"
    "s < length (semafors ?k)" "Sem_Queue s \<notin> set bs"
    using h(3) Cons.prems(4,5) by (simp_all del: fun_upd_apply) simp_all
  from Cons.IH [OF prems p(2) n(2)] obtain h where
    "loop (wake_round s) (tmp, n, ?k) = Ok (?k\<lparr>links := h,
      semafors := ?sems[s := (?sems ! s)\<lparr>sem_used := sem_used (?sems ! s) - int (length bs)\<rparr>]\<rparr>)"
    "holds_lists h (?Q(Sem_Queue s \<mapsto> [], Ready_Queue \<mapsto> (rs @ [b]) @ bs))"
    by (auto simp del: fun_upd_apply append_assoc)
  moreover have "?Q(Sem_Queue s \<mapsto> [], Ready_Queue \<mapsto> (rs @ [b]) @ bs) = Q(Sem_Queue s \<mapsto> [], Ready_Queue \<mapsto> rs @ b # bs)"
    by (auto simp: fun_eq_iff)
  ultimately show ?case using step Cons.prems(4)
    by (intro exI [of _ h]) (simp add: algebra_simps del: fun_upd_apply)
qed

lemma internal_destroy_wakes:
  assumes "queues k Q" and "Q (Sem_Queue s) = Some bs" and "Q Ready_Queue = Some rs"
    and s: "s < length (semafors k)" and "0 < sem_used (semafors k ! s)"
    and "sem_owner (semafors k ! s) = PID (task k ! cur k)"
  shows "\<exists>h. internal_sem_destroy s k = Ok (0, k\<lparr>links := h,
      semafors := (semafors k)[s := (semafors k ! s)\<lparr>sem_id := 0xDEAD, sem_used := - int (length bs)\<rparr>]\<rparr>)
    \<and> holds_lists h (Q(Sem_Queue s \<mapsto> [], Ready_Queue \<mapsto> rs @ bs))"
proof -
  have q0: "queues0 k Q" using assms(1) by (simp add: queues_def)
  note q = queues0D [OF q0]
  let ?sems = "(semafors k)[s := (semafors k ! s)\<lparr>sem_used := 0, sem_id := 0xDEAD\<rparr>]"
  let ?k = "k\<lparr>semafors := ?sems\<rparr>"
  let ?p = "hd (bs @ [Sem_Queue s])"
  have p: "get_nxt (links k) (Sem_Queue s) = Ok ?p" by (rule next_of_head [OF q(1) assms(2)])
  have "\<exists>n. get_nxt (links k) ?p = Ok n \<and> (bs \<noteq> [] \<longrightarrow> n = hd (tl bs @ [Sem_Queue s]))"
  proof (cases bs)
    case Nil
    then show ?thesis using next_of_head [OF q(1) assms(2)] by simp
  next
    case (Cons c cs)
    then show ?thesis using next_in_list [OF q(1), of "Sem_Queue s" c cs] assms(2) by simp
  qed
  then obtain n' where n': "get_nxt (links k) ?p = Ok n'" "bs \<noteq> [] \<longrightarrow> n' = hd (tl bs @ [Sem_Queue s])" by auto
  have "Sem_Queue s \<notin> set bs" using q(6) [OF assms(2)] by auto
  with wake_all [of ?k Q s bs rs ?p n'] q(1) assms(2,3) s n'(2) obtain h where
    h: "loop (wake_round s) (?p, n', ?k) = Ok (?k\<lparr>links := h,
      semafors := ?sems[s := (?sems ! s)\<lparr>sem_used := sem_used (?sems ! s) - int (length bs)\<rparr>]\<rparr>)"
    "holds_lists h (Q(Sem_Queue s \<mapsto> [], Ready_Queue \<mapsto> rs @ bs))" by auto
  have "internal_sem_destroy s k = Ok (0, ?k\<lparr>links := h,
      semafors := ?sems[s := (?sems ! s)\<lparr>sem_used := sem_used (?sems ! s) - int (length bs)\<rparr>]\<rparr>)"
    using assms(5,6) s p n'(1) h(1) q(2,3) by (simp add: internal_sem_destroy_def get_task_Ok set_sem_Ok)
  with h(2) s show ?thesis by (intro exI [of _ h]) simp
qed

lemma sem_destroy_wakes_aux:
  assumes "queues k Q" and "Q (Sem_Queue s) = Some bs" and "Q Ready_Queue = Some rs"
    and "length (semafors k) = N_SEMAFORS" and "named k n = Some s" and "0 < sem_used (semafors k ! s)"
    and "sem_owner (semafors k ! s) = PID (task k ! cur k)"
  shows "\<exists>h. sem_destroy n k = Ok (0, k\<lparr>links := h,
      semafors := (semafors k)[s := (semafors k ! s)\<lparr>sem_id := 0xDEAD, sem_used := - int (length bs)\<rparr>]\<rparr>)
    \<and> holds_lists h (Q(Sem_Queue s \<mapsto> [], Ready_Queue \<mapsto> rs @ bs))"
proof -
  have s: "s < length (semafors k)" using named_range [OF assms(5)] assms(4) by simp
  from internal_destroy_wakes [OF assms(1-3) s assms(6,7)] assms(4,5) show ?thesis
    by (simp add: sem_destroy_def get_semafor_named)
qed

text \<open>Every process woken so answers -2 and takes one off; after all of them the slot is free again.\<close>

lemma sem_wait_resumed_destroyed:
  assumes "s < length (semafors k)" and "sem_used (semafors k ! s) < 0"
  shows "sem_wait_resumed s k = Ok (-2, k\<lparr>semafors := (semafors k)[s := (semafors k ! s)\<lparr>sem_used := sem_used (semafors k ! s) + 1\<rparr>]\<rparr>)"
  using assms by (simp add: sem_wait_resumed_def set_sem_Ok)

fun resume_all :: "nat \<Rightarrow> nat \<Rightarrow> kernel \<Rightarrow> (int list \<times> kernel) res" where
  "resume_all s 0 k = Ok ([], k)"
| "resume_all s (Suc n) k = bind (sem_wait_resumed s k) (\<lambda>(r, k). bind (resume_all s n k) (\<lambda>(rs, k). Ok (r # rs, k)))"

section \<open>What the calls promise\<close>

text \<open>
  \<open>sem_wait\<close> on a semaphore with count 0 blocks the caller: it goes to the end of the queue of
  the semaphore and the first ready process runs.
\<close>

lemma sem_wait_blocks:
  assumes "queues k Q" and "cur k \<noteq> idle_task k" and "Q (Sem_Queue s) = Some bs" and "Q Ready_Queue = Some (x # rs)"
    and "length (semafors k) = N_SEMAFORS" and "named k n = Some s" and "0 < sem_used (semafors k ! s)" and "sem_count (semafors k ! s) = 0"
  shows "\<exists>k'. sem_wait n k = Ok (Inr s, k') \<and> Task (cur k') = x
    \<and> queues k' (Q(Sem_Queue s \<mapsto> bs @ [Task (cur k)], Ready_Queue \<mapsto> rs)) \<and> semafors k' = semafors k"
  using sem_wait_blocks_aux [OF assms] .

lemma sample_semaphore:
  "length (semafors (sample_kernel r q)) = N_SEMAFORS" "named (sample_kernel r q) 7 = Some 0"
  "semafors (sample_kernel r q) ! 0 = \<lparr>sem_id = 7, sem_count = 0, sem_owner = 1, sem_used = 1\<rparr>"
  by (simp_all add: sample_kernel_def N_SEMAFORS_def named_def upt_conv_Cons del: upt_rec_numeral)

lemma sample_ready: "sample_queues Ready_Queue = Some [Task 2]" "sample_queues (Sem_Queue 0) = Some [Task 3]"
  by (simp_all add: sample_queues_def)

lemma sample_running: "cur (sample_kernel r q) = r" "idle_task (sample_kernel r q) = 0"
  "r < NR_TASKS \<Longrightarrow> PID (task (sample_kernel r q) ! r) = int r"
  by (simp_all add: sample_kernel_def sample_task_def NR_TASKS_def)

text \<open>
  \<open>sem_signal\<close> on a semaphore with blocked processes wakes the one that waits longest: it goes
  to the end of the ready queue, and the count stays.
\<close>

lemma sem_signal_wakes:
  assumes "queues k Q" and "Q (Sem_Queue s) = Some (x # bs)" and "Q Ready_Queue = Some rs"
    and "length (semafors k) = N_SEMAFORS" and "named k n = Some s" and "0 < sem_used (semafors k ! s)"
  shows "\<exists>h. sem_signal n k = Ok (0, k\<lparr>links := h\<rparr>) \<and> queues (k\<lparr>links := h\<rparr>) (Q(Sem_Queue s \<mapsto> bs, Ready_Queue \<mapsto> rs @ [x]))"
  using sem_signal_wakes_aux [OF assms] .

lemma resume_all_some:
  "s < length (semafors k) \<Longrightarrow> sem_used (semafors k ! s) = - int n \<Longrightarrow> m \<le> n \<Longrightarrow>
   \<exists>k'. resume_all s m k = Ok (replicate m (-2), k') \<and> sem_used (semafors k' ! s) = int m - int n"
proof (induction m arbitrary: k n)
  case (Suc m)
  then have neg: "sem_used (semafors k ! s) < 0" by simp
  let ?k = "k\<lparr>semafors := (semafors k)[s := (semafors k ! s)\<lparr>sem_used := sem_used (semafors k ! s) + 1\<rparr>]\<rparr>"
  have le: "m \<le> n - 1" and n: "int (n - 1) = int n - 1" using Suc.prems(3) by auto
  have "s < length (semafors ?k)" "sem_used (semafors ?k ! s) = - int (n - 1)" using Suc.prems n by simp_all
  from Suc.IH [OF this le] obtain k' where
    "resume_all s m ?k = Ok (replicate m (-2), k')" "sem_used (semafors k' ! s) = int m - int (n - 1)" by blast
  then show ?case using sem_wait_resumed_destroyed [OF Suc.prems(1) neg] Suc.prems(3) by auto
qed simp

text \<open>
  C37: \<open>sem_destroy\<close> by the owner makes every blocked process ready, in the order they came. Each
  answers -2 to its \<open>sem_wait\<close> when it runs again, and after the last of them the slot is free
  for \<open>sem_init\<close>, and not before.
\<close>

theorem sem_destroy_frees:
  assumes "queues k Q" and "Q (Sem_Queue s) = Some bs" and "Q Ready_Queue = Some rs"
    and "length (semafors k) = N_SEMAFORS" and "named k n = Some s" and "0 < sem_used (semafors k ! s)"
    and "sem_owner (semafors k ! s) = PID (task k ! cur k)" and "m \<le> length bs"
  shows "\<exists>k' k''. sem_destroy n k = Ok (0, k') \<and> holds_lists (links k') (Q(Sem_Queue s \<mapsto> [], Ready_Queue \<mapsto> rs @ bs)) \<and>
    resume_all s m k' = Ok (replicate m (-2), k'') \<and> (sem_used (semafors k'' ! s) = 0 \<longleftrightarrow> m = length bs)"
proof -
  have s: "s < length (semafors k)" using named_range [OF assms(5)] assms(4) by simp
  from sem_destroy_wakes_aux [OF assms(1-7)] obtain h where
    h: "sem_destroy n k = Ok (0, k\<lparr>links := h,
      semafors := (semafors k)[s := (semafors k ! s)\<lparr>sem_id := 0xDEAD, sem_used := - int (length bs)\<rparr>]\<rparr>)"
    "holds_lists h (Q(Sem_Queue s \<mapsto> [], Ready_Queue \<mapsto> rs @ bs))" by blast
  define k' where "k' = k\<lparr>links := h,
      semafors := (semafors k)[s := (semafors k ! s)\<lparr>sem_id := 0xDEAD, sem_used := - int (length bs)\<rparr>]\<rparr>"
  have "s < length (semafors k')" "sem_used (semafors k' ! s) = - int (length bs)" using s by (simp_all add: k'_def)
  from resume_all_some [OF this assms(8)] obtain k'' where
    "resume_all s m k' = Ok (replicate m (-2), k'')" "sem_used (semafors k'' ! s) = int m - int (length bs)" by blast
  moreover have "links k' = h" by (simp add: k'_def)
  ultimately show ?thesis using h [folded k'_def] assms(8) by (intro exI [of _ k'] exI [of _ k'']) simp
qed

theorem sem_destroy_frees_witness:
  "\<exists>k' k''. sem_destroy 7 (sample_kernel 1 5) = Ok (0, k') \<and> resume_all 0 1 k' = Ok ([-2], k'') \<and> sem_used (semafors k'' ! 0) = 0"
  using sem_destroy_frees [OF sample_consistent(2) sample_ready(2,1) sample_semaphore(1,2), of 5 1]
  by (auto simp: sample_semaphore sample_running NR_TASKS_def)

end
