(* ===== verification/Kernel_Events.thy ===== *)
theory Kernel_Events
  imports Kernel_Sem
begin

text \<open>
  The clock tick and the semaphore calls keep the kernel consistent: none of them runs into a
  fault, every process stays on one queue, running, or the idle process, and the address spaces
  of the processes are untouched.
\<close>

section \<open>The processes on the queues\<close>

definition members :: "(node \<rightharpoonup> node list) \<Rightarrow> node set" where
  "members Q = {x. \<exists>q xs. Q q = Some xs \<and> x \<in> set xs}"

lemma members_cases: "x \<in> members (Q(q \<mapsto> ys)) \<longleftrightarrow> x \<in> set ys \<or> (\<exists>r us. r \<noteq> q \<and> Q r = Some us \<and> x \<in> set us)"
proof
  assume "x \<in> members (Q(q \<mapsto> ys))"
  then obtain r us where r: "(Q(q \<mapsto> ys)) r = Some us" "x \<in> set us" by (auto simp: members_def)
  then show "x \<in> set ys \<or> (\<exists>r us. r \<noteq> q \<and> Q r = Some us \<and> x \<in> set us)" by (cases "r = q") auto
next
  assume "x \<in> set ys \<or> (\<exists>r us. r \<noteq> q \<and> Q r = Some us \<and> x \<in> set us)"
  then show "x \<in> members (Q(q \<mapsto> ys))"
  proof
    assume "x \<in> set ys"
    then show ?thesis unfolding members_def mem_Collect_eq by (intro exI [of _ q] exI [of _ ys]) simp
  next
    assume "\<exists>r us. r \<noteq> q \<and> Q r = Some us \<and> x \<in> set us"
    then obtain r us where "r \<noteq> q" "Q r = Some us" "x \<in> set us" by blast
    then show ?thesis unfolding members_def mem_Collect_eq by (intro exI [of _ r] exI [of _ us]) simp
  qed
qed

lemma members_upd:
  assumes "separate Q" and "Q q = Some xs"
  shows "members (Q(q \<mapsto> ys)) = members Q - set xs \<union> set ys"
proof (rule set_eqI)
  fix x
  have other: "x \<notin> set xs" if "r \<noteq> q" "Q r = Some us" "x \<in> set us" for r us
    using separateD [OF assms that(2)] that(1,3) by auto
  define E where "E \<longleftrightarrow> (\<exists>r us. r \<noteq> q \<and> Q r = Some us \<and> x \<in> set us)"
  have "E \<Longrightarrow> x \<notin> set xs" using other unfolding E_def by blast
  moreover have "x \<in> members Q \<longleftrightarrow> x \<in> set xs \<or> E"
    using members_cases [of x Q q xs, folded E_def] assms(2) by (simp add: fun_upd_idem)
  moreover note members_cases [of x Q q ys, folded E_def]
  ultimately show "x \<in> members (Q(q \<mapsto> ys)) \<longleftrightarrow> x \<in> members Q - set xs \<union> set ys" by blast
qed

lemma members_mem: "Q q = Some xs \<Longrightarrow> set xs \<subseteq> members Q"
  by (auto simp: members_def)

lemma members_init: "Q q = None \<or> Q q = Some [] \<Longrightarrow> members (Q(q \<mapsto> [])) = members Q"
proof (rule set_eqI)
  fix x
  assume q: "Q q = None \<or> Q q = Some []"
  have "r \<noteq> q" if "Q r = Some us" "x \<in> set us" for r us using q that by auto
  then show "x \<in> members (Q(q \<mapsto> [])) \<longleftrightarrow> x \<in> members Q"
    unfolding members_cases unfolding members_def mem_Collect_eq by auto
qed

lemma queues_separate: "queues0 k Q \<Longrightarrow> separate Q"
  using holdsD(1) [OF queues0D(1)] .

text \<open>
  The invariant of the kernel: the ready queue and the queues of the semaphores in use are
  initialised, and \<open>T\<close> is the set of the processes: those on the queues, the running one and idle.
\<close>

definition consistent :: "node set \<Rightarrow> kernel \<Rightarrow> (node \<rightharpoonup> node list) \<Rightarrow> bool" where
  "consistent T k Q \<longleftrightarrow> queues k Q \<and> Ready_Queue \<in> dom Q \<and> length (semafors k) = N_SEMAFORS \<and>
     (\<forall>s < N_SEMAFORS. if 0 < sem_used (semafors k ! s) then Sem_Queue s \<in> dom Q
        else Q (Sem_Queue s) = None \<or> Q (Sem_Queue s) = Some []) \<and>
     T = insert (Task (cur k)) (insert (Task (idle_task k)) (members Q))"

text \<open>What the events of this theory keep beside it: everything but the queues, the semaphores and the times.\<close>

definition same_spaces :: "kernel \<Rightarrow> kernel \<Rightarrow> bool" where
  "same_spaces k k' \<longleftrightarrow> same_queues (k\<lparr>links := links k', semafors := semafors k'\<rparr>) k'"

definition keeps :: "node set \<Rightarrow> kernel \<Rightarrow> (node \<rightharpoonup> node list) \<Rightarrow> kernel \<Rightarrow> (node \<rightharpoonup> node list) \<Rightarrow> bool" where
  "keeps T k Q k' Q' \<longleftrightarrow> consistent T k' Q' \<and> Q' Free_Queue = Q Free_Queue \<and> same_spaces k k'"

lemma keeps_refl: "consistent T k Q \<Longrightarrow> keeps T k Q k Q"
  by (simp add: keeps_def same_spaces_def)

lemma same_spaces_trans: "same_spaces k k' \<Longrightarrow> same_spaces k' k'' \<Longrightarrow> same_spaces k k''"
  by (simp add: same_spaces_def same_queues_def)

lemma keeps_trans: "keeps T k Q k' Q' \<Longrightarrow> keeps T k' Q' k'' Q'' \<Longrightarrow> keeps T k Q k'' Q''"
  unfolding keeps_def using same_spaces_trans by auto

lemma queues0_same:
  "queues0 k Q \<Longrightarrow> links k' = links k \<Longrightarrow> length (task k') = length (task k) \<Longrightarrow> cur k' < NR_TASKS \<Longrightarrow> idle_task k' = idle_task k \<Longrightarrow> queues0 k' Q"
  by (simp add: queues0_def)

lemma sched_next_any:
  assumes "queues0 k Q" and "Q Ready_Queue = Some rs"
  shows "\<exists>k'. sched_next_rr k = Ok k' \<and> Task (cur k') = hd (rs @ [Task (idle_task k)]) \<and> queues k' (Q(Ready_Queue \<mapsto> tl rs)) \<and>
    same_queues (k\<lparr>links := links k'\<rparr>) k'"
proof (cases rs)
  case Nil
  note q = queues0D [OF assms(1)]
  from sched_next_idle [OF assms(1)] assms(2) Nil obtain k' where
    k': "sched_next_rr k = Ok k'" "cur k' = idle_task k" "same_queues k k'" by auto
  have "queues0 k' Q" using k' q(4) by (intro queues0_same [OF assms(1)]) (simp_all add: same_queues_def)
  moreover have "Q(Ready_Queue \<mapsto> tl rs) = Q" using assms(2) Nil by auto
  ultimately show ?thesis using k' Nil q(5) by (auto simp: queues_def same_queues_def)
next
  case (Cons x xs)
  with sched_next_queues [OF assms(1), of x xs] assms(2) show ?thesis by auto
qed

lemma scheduling_any:
  assumes "queues k Q" and "Q Ready_Queue = Some rs"
  shows "\<exists>k' rs'. scheduling k = Ok k' \<and> queues k' (Q(Ready_Queue \<mapsto> rs')) \<and> same_queues (k\<lparr>links := links k'\<rparr>) k' \<and>
    insert (Task (cur k')) (insert (Task (idle_task k)) (set rs')) = insert (Task (cur k)) (insert (Task (idle_task k)) (set rs))"
proof -
  let ?k = "k\<lparr>quantum_left := quantum_left k - 1\<rparr>"
  have Q: "queues ?k Q" "queues0 ?k Q" using assms(1) by (simp_all add: queues_def queues0_def)
  note q = queues0D [OF Q(2)]
  have same: "Q(Ready_Queue \<mapsto> rs) = Q" using assms(2) by auto
  have e: "list_empty (links ?k) Ready_Queue = Ok (rs = [])" using lists.empty_law [OF q(1) assms(2)] .
  consider (run) "cur k \<noteq> idle_task k" "quantum_left k \<noteq> 1" | (expired) "cur k \<noteq> idle_task k" "quantum_left k = 1"
    | (none) "cur k = idle_task k" "rs = []" | (idle) "cur k = idle_task k" "rs \<noteq> []" by blast
  then show ?thesis
  proof cases
    case run
    with scheduling_running [OF run] Q same show ?thesis by (intro exI [of _ ?k] exI [of _ rs]) (simp add: same_queues_def)
  next
    case expired
    from update_state_running [OF Q(1), of Ready_Queue rs] expired assms(2) obtain h where
      h: "update_process_state_rr (cur k) Ready_Queue ?k = Ok (?k\<lparr>links := h\<rparr>)"
        "queues0 (?k\<lparr>links := h\<rparr>) (Q(Ready_Queue \<mapsto> rs @ [Task (cur k)]))" by auto
    have hd2: "hd ((rs @ [Task (cur k)]) @ [x]) = hd (rs @ [Task (cur k)])" for x by (cases rs) simp_all
    from sched_next_any [OF h(2), of "rs @ [Task (cur k)]"] obtain k' where
      k': "sched_next_rr (?k\<lparr>links := h\<rparr>) = Ok k'" "Task (cur k') = hd (rs @ [Task (cur k)])"
        "queues k' (Q(Ready_Queue \<mapsto> tl (rs @ [Task (cur k)])))" "same_queues (k\<lparr>links := links k'\<rparr>) k'"
      using hd2 by (auto simp: same_queues_def simp del: hd_append)
    have "scheduling k = Ok k'"
      using expired h(1) k'(1) by (simp add: scheduling_def update_sched_data_rr_def needs_sched_rr_def)
    moreover have "insert (Task (cur k')) (set (tl (rs @ [Task (cur k)]))) = insert (Task (cur k)) (set rs)"
      unfolding k'(2) by (cases rs) auto
    ultimately show ?thesis using k' by (intro exI [of _ k'] exI [of _ "tl (rs @ [Task (cur k)])"]) auto
  next
    case none
    let ?k' = "k\<lparr>quantum_left := sint (quantum (task k ! cur k))\<rparr>"
    have "scheduling k = Ok ?k'"
      using none e q(2,4) by (simp add: scheduling_def update_sched_data_rr_def needs_sched_rr_def get_task_Ok)
    moreover have "queues ?k' Q" using assms(1) by (simp add: queues_def queues0_def)
    ultimately show ?thesis using none same by (intro exI [of _ ?k'] exI [of _ rs]) (simp add: same_queues_def)
  next
    case idle
    have off: "nxt (links k) (Task (idle_task k)) = NULL" using holdsD(3) [OF q(1)] q(5) by simp
    then have up: "update_process_state_rr (idle_task k) Ready_Queue ?k = Ok ?k" by (simp add: update_process_state_rr_def)
    from sched_next_any [OF Q(2) assms(2)] obtain k' where
      k': "sched_next_rr ?k = Ok k'" "Task (cur k') = hd (rs @ [Task (idle_task k)])" "queues k' (Q(Ready_Queue \<mapsto> tl rs))"
        "same_queues (k\<lparr>links := links k'\<rparr>) k'" by (auto simp: same_queues_def)
    have "scheduling k = Ok k'"
      using idle e up k'(1) by (simp add: scheduling_def update_sched_data_rr_def needs_sched_rr_def)
    with k' idle show ?thesis by (intro exI [of _ k'] exI [of _ "tl rs"]) (cases rs; auto)
  qed
qed

lemma consistentD:
  assumes "consistent T k Q"
  obtains rs where "queues k Q" "queues0 k Q" "free_node Q (Task (cur k))" "Q Ready_Queue = Some rs" "length (semafors k) = N_SEMAFORS"
    "\<And>s. s < N_SEMAFORS \<Longrightarrow> 0 < sem_used (semafors k ! s) \<Longrightarrow> Q (Sem_Queue s) \<noteq> None"
    "\<And>s. s < N_SEMAFORS \<Longrightarrow> \<not> 0 < sem_used (semafors k ! s) \<Longrightarrow> Q (Sem_Queue s) = None \<or> Q (Sem_Queue s) = Some []"
    "T = insert (Task (cur k)) (insert (Task (idle_task k)) (members Q))"
proof -
  from assms have q: "queues k Q" "Ready_Queue \<in> dom Q" "length (semafors k) = N_SEMAFORS"
    and s: "\<forall>s < N_SEMAFORS. if 0 < sem_used (semafors k ! s) then Sem_Queue s \<in> dom Q
        else Q (Sem_Queue s) = None \<or> Q (Sem_Queue s) = Some []"
    and T: "T = insert (Task (cur k)) (insert (Task (idle_task k)) (members Q))"
    by (auto simp: consistent_def)
  from q(2) obtain rs where "Q Ready_Queue = Some rs" by auto
  moreover have "Q (Sem_Queue s) \<noteq> None" if "s < N_SEMAFORS" "0 < sem_used (semafors k ! s)" for s
    using s that by (auto simp: domIff)
  moreover have "Q (Sem_Queue s) = None \<or> Q (Sem_Queue s) = Some []" if "s < N_SEMAFORS" "\<not> 0 < sem_used (semafors k ! s)" for s
    using s that by auto
  ultimately show thesis using that [of rs] q T unfolding queues_def by blast
qed

lemma tick_consistent:
  assumes "consistent T k Q"
  shows "\<exists>k' Q'. scheduling k = Ok k' \<and> keeps T k Q k' Q'"
proof -
  from assms obtain rs where c: "queues k Q" "queues0 k Q" "Q Ready_Queue = Some rs" "length (semafors k) = N_SEMAFORS"
    "\<And>s. s < N_SEMAFORS \<Longrightarrow> 0 < sem_used (semafors k ! s) \<Longrightarrow> Q (Sem_Queue s) \<noteq> None"
    "\<And>s. s < N_SEMAFORS \<Longrightarrow> \<not> 0 < sem_used (semafors k ! s) \<Longrightarrow> Q (Sem_Queue s) = None \<or> Q (Sem_Queue s) = Some []"
    "T = insert (Task (cur k)) (insert (Task (idle_task k)) (members Q))" by (rule consistentD) blast
  from scheduling_any [OF c(1,3)] obtain k' rs' where
    k': "scheduling k = Ok k'" "queues k' (Q(Ready_Queue \<mapsto> rs'))" "same_queues (k\<lparr>links := links k'\<rparr>) k'" and
    eq: "insert (Task (cur k')) (insert (Task (idle_task k)) (set rs')) = insert (Task (cur k)) (insert (Task (idle_task k)) (set rs))"
    by blast
  have m: "members (Q(Ready_Queue \<mapsto> rs')) = members Q - set rs \<union> set rs'"
    by (rule members_upd [OF queues_separate [OF c(2)] c(3)])
  have same: "semafors k' = semafors k" "idle_task k' = idle_task k" using k'(3) by (simp_all add: same_queues_def)
  have "T = insert (Task (cur k')) (insert (Task (idle_task k')) (members (Q(Ready_Queue \<mapsto> rs'))))"
    unfolding c(7) m same using eq members_mem [of Q Ready_Queue rs] c(3) by blast
  then have "consistent T k' (Q(Ready_Queue \<mapsto> rs'))"
    unfolding consistent_def using k'(2) c(4-6) by (auto simp: same domIff)
  moreover have "same_spaces k k'" using k'(3) by (simp add: same_spaces_def same_queues_def)
  ultimately show ?thesis using k'(1) by (intro exI [of _ k'] exI [of _ "Q(Ready_Queue \<mapsto> rs')"]) (simp add: keeps_def)
qed

text \<open>Changing a semaphore so that it stays in use, or stays out of use.\<close>

lemma consistent_set_sem:
  assumes "consistent T k Q" and "s < N_SEMAFORS" and "0 < sem_used x \<longleftrightarrow> 0 < sem_used (semafors k ! s)"
  shows "consistent T (k\<lparr>semafors := (semafors k)[s := x]\<rparr>) Q"
  using assms unfolding consistent_def queues_def queues0_def by (auto simp: nth_list_update split: if_splits)

lemma keeps_upd:
  "consistent T (k\<lparr>links := h\<rparr>) Q' \<Longrightarrow> Q' Free_Queue = Q Free_Queue \<Longrightarrow> keeps T k Q (k\<lparr>links := h\<rparr>) Q'"
  "consistent T (k\<lparr>links := h, semafors := ss\<rparr>) Q' \<Longrightarrow> Q' Free_Queue = Q Free_Queue \<Longrightarrow> keeps T k Q (k\<lparr>links := h, semafors := ss\<rparr>) Q'"
  "consistent T (k\<lparr>semafors := ss\<rparr>) Q \<Longrightarrow> keeps T k Q (k\<lparr>semafors := ss\<rparr>) Q"
  by (simp_all add: keeps_def same_spaces_def)

lemmas keeps_set_sem = keeps_upd(3) [OF consistent_set_sem]

lemma moved_sets:
  assumes "R \<subseteq> A" and "B \<subseteq> A" and "insert i B' = insert c (insert i B)" and "insert c' (insert i R') = insert i R"
  shows "insert c' (insert i (A - B \<union> B' - R \<union> R')) = insert c (insert i A)"
proof -
  have "insert c' (insert i (A - B \<union> B' - R \<union> R')) = (A - B \<union> B' - R) \<union> insert c' (insert i R')" by blast
  also have "\<dots> = (A - B) \<union> R \<union> insert i B'" unfolding assms(4) by blast
  also have "\<dots> = insert c (insert i A)" unfolding assms(3) using assms(1,2) by blast
  finally show ?thesis .
qed

lemma block_consistent:
  assumes "consistent T k Q" and "named k n = Some s" and "0 < sem_used (semafors k ! s)" and "sem_count (semafors k ! s) = 0"
  shows "\<exists>r k' Q'. sem_wait n k = Ok (r, k') \<and> keeps T k Q k' Q'"
proof -
  from assms(1) obtain rs where c: "queues k Q" "queues0 k Q" "free_node Q (Task (cur k))" "Q Ready_Queue = Some rs" "length (semafors k) = N_SEMAFORS"
    "\<And>s. s < N_SEMAFORS \<Longrightarrow> 0 < sem_used (semafors k ! s) \<Longrightarrow> Q (Sem_Queue s) \<noteq> None"
    "\<And>s. s < N_SEMAFORS \<Longrightarrow> \<not> 0 < sem_used (semafors k ! s) \<Longrightarrow> Q (Sem_Queue s) = None \<or> Q (Sem_Queue s) = Some []"
    "T = insert (Task (cur k)) (insert (Task (idle_task k)) (members Q))" by (rule consistentD) blast
  have s: "s < N_SEMAFORS" using named_range [OF assms(2)] by simp
  with c(6) assms(3) obtain bs where bs: "Q (Sem_Queue s) = Some bs" by blast
  have run: "sem_wait n k = bind (update_process_state_rr (cur k) (Sem_Queue s) k) (\<lambda>k. bind (sched_next_rr k) (\<lambda>k. Ok (Inr s, k)))"
    using assms(2-4) s c(5) by (simp add: sem_wait_def get_semafor_named)
  define bs' where "bs' = (if cur k = idle_task k then bs else bs @ [Task (cur k)])"
  let ?Q = "Q(Sem_Queue s \<mapsto> bs')"
  have "\<exists>h. update_process_state_rr (cur k) (Sem_Queue s) k = Ok (k\<lparr>links := h\<rparr>) \<and> queues0 (k\<lparr>links := h\<rparr>) ?Q"
  proof (cases "cur k = idle_task k")
    case True
    have "nxt (links k) (Task (idle_task k)) = NULL" using holdsD(3) [OF queues0D(1) [OF c(2)]] queues0D(5) [OF c(2)] by simp
    then have "update_process_state_rr (cur k) (Sem_Queue s) k = Ok k" using True by (simp add: update_process_state_rr_def)
    moreover have "?Q = Q" using bs True by (auto simp: bs'_def)
    ultimately show ?thesis using c(2) by (intro exI [of _ "links k"]) simp
  next
    case False
    from update_state_running [OF c(1) False bs] False show ?thesis by (simp add: bs'_def)
  qed
  then obtain h where h: "update_process_state_rr (cur k) (Sem_Queue s) k = Ok (k\<lparr>links := h\<rparr>)" "queues0 (k\<lparr>links := h\<rparr>) ?Q" by blast
  have ready: "?Q Ready_Queue = Some rs" using c(4) by simp
  from sched_next_any [OF h(2) ready] obtain k' where
    k': "sched_next_rr (k\<lparr>links := h\<rparr>) = Ok k'" "Task (cur k') = hd (rs @ [Task (idle_task k)])" "queues k' (?Q(Ready_Queue \<mapsto> tl rs))"
      "same_queues (k\<lparr>links := h, links := links k'\<rparr>) k'"
    by (auto simp del: fun_upd_apply hd_append)
  then have same: "semafors k' = semafors k" "idle_task k' = idle_task k" by (simp_all add: same_queues_def)
  have m: "members (?Q(Ready_Queue \<mapsto> tl rs)) = members Q - set bs \<union> set bs' - set rs \<union> set (tl rs)"
    using members_upd [OF queues_separate [OF h(2)] ready] members_upd [OF queues_separate [OF c(2)] bs] by (simp del: fun_upd_apply)
  have new: "insert (Task (cur k')) (insert (Task (idle_task k)) (set (tl rs))) = insert (Task (idle_task k)) (set rs)"
    unfolding k'(2) by (cases rs) auto
  have "insert (Task (idle_task k)) (set bs') = insert (Task (cur k)) (insert (Task (idle_task k)) (set bs))"
    by (auto simp: bs'_def)
  from moved_sets [OF members_mem [of Q Ready_Queue rs] members_mem [of Q "Sem_Queue s" bs] this new] c(4) bs
  have "T = insert (Task (cur k')) (insert (Task (idle_task k')) (members (?Q(Ready_Queue \<mapsto> tl rs))))"
    unfolding c(8) m same by simp
  then have "consistent T k' (?Q(Ready_Queue \<mapsto> tl rs))"
    unfolding consistent_def using k'(3) c(5-7) assms(3) s by (auto simp: same domIff)
  moreover have "same_spaces k k'" using k'(4) by (simp add: same_spaces_def same_queues_def)
  ultimately show ?thesis using run h(1) k'(1)
    by (intro exI [of _ "Inr s"] exI [of _ k'] exI [of _ "?Q(Ready_Queue \<mapsto> tl rs)"]) (simp add: keeps_def)
qed

lemma consistentI:
  assumes "queues k Q" and "Ready_Queue \<in> dom Q" and "length (semafors k) = N_SEMAFORS"
    and "\<And>s. s < N_SEMAFORS \<Longrightarrow> if 0 < sem_used (semafors k ! s) then Sem_Queue s \<in> dom Q
        else Q (Sem_Queue s) = None \<or> Q (Sem_Queue s) = Some []"
    and "T = insert (Task (cur k)) (insert (Task (idle_task k)) (members Q))"
  shows "consistent T k Q"
  unfolding consistent_def using assms by blast

lemma wait_consistent:
  assumes "consistent T k Q"
  shows "\<exists>r k' Q'. sem_wait n k = Ok (r, k') \<and> keeps T k Q k' Q'"
proof -
  have len: "length (semafors k) = N_SEMAFORS" using assms by (simp add: consistent_def)
  show ?thesis
  proof (cases "named k n")
    case None
    then have "sem_wait n k = Ok (Inl (-EINVAL), k)" using len by (simp add: sem_wait_def get_semafor_named)
    with keeps_refl [OF assms] show ?thesis by blast
  next
    case (Some s)
    then have s: "s < N_SEMAFORS" using named_range by blast
    consider "sem_used (semafors k ! s) \<le> 0" | "0 < sem_used (semafors k ! s)" "0 < sem_count (semafors k ! s)"
      | "0 < sem_used (semafors k ! s)" "sem_count (semafors k ! s) = 0" using word_gt_0 [of "sem_count (semafors k ! s)"] by force
    then show ?thesis
    proof cases
      case 1
      then have "sem_wait n k = Ok (Inl (-EINVAL), k)" using len Some s by (simp add: sem_wait_def get_semafor_named)
      with keeps_refl [OF assms] show ?thesis by blast
    next
      case 2
      from sem_wait_takes_aux [OF len Some 2] keeps_set_sem [OF assms s, of "(semafors k ! s)\<lparr>sem_count := sem_count (semafors k ! s) - 1\<rparr>"]
      show ?thesis by auto
    next
      case 3
      show ?thesis by (rule block_consistent [OF assms Some 3])
    qed
  qed
qed

lemma move_consistent:
  assumes "consistent T k Q" and "s < N_SEMAFORS" and "Q (Sem_Queue s) = Some (as @ bs)" and "Q Ready_Queue = Some rs"
    and "queues k' (Q(Sem_Queue s \<mapsto> bs, Ready_Queue \<mapsto> rs @ as))" and "cur k' = cur k" "idle_task k' = idle_task k"
    and "semafors k' = (semafors k)[s := x]" and "0 < sem_used x \<or> bs = []"
  shows "consistent T k' (Q(Sem_Queue s \<mapsto> bs, Ready_Queue \<mapsto> rs @ as))"
proof -
  let ?Q = "Q(Sem_Queue s \<mapsto> bs)"
  have c: "queues0 k Q" "length (semafors k) = N_SEMAFORS" "T = insert (Task (cur k)) (insert (Task (idle_task k)) (members Q))"
    using assms(1) by (auto simp: consistent_def queues_def)
  note sep = queues_separate [OF c(1)]
  have "separate ?Q"
  proof (rule separate_updI [OF sep])
    show "distinct (Sem_Queue s # bs)" using separate_distinct [OF sep assms(3)] by simp
    show "set (Sem_Queue s # bs) \<inter> set (r # ys) = {}" if "r \<noteq> Sem_Queue s" "Q r = Some ys" for r ys
      using separateD [OF sep assms(3) that(2)] that(1) by auto
  qed
  moreover have ready: "?Q Ready_Queue = Some rs" using assms(4) by simp
  ultimately have "members (?Q(Ready_Queue \<mapsto> rs @ as)) = members Q - set (as @ bs) \<union> set bs - set rs \<union> set (rs @ as)"
    using members_upd [OF sep assms(3), of bs] members_upd [of ?Q Ready_Queue rs "rs @ as"] by (simp del: fun_upd_apply set_append)
  also have "\<dots> = members Q"
    using separateD [OF sep assms(3,4)] members_mem [of Q "Sem_Queue s" "as @ bs"] members_mem [of Q Ready_Queue rs] assms(3,4) by auto
  finally have m: "members (?Q(Ready_Queue \<mapsto> rs @ as)) = members Q" .
  have "if 0 < sem_used (semafors k' ! t) then Sem_Queue t \<in> dom (?Q(Ready_Queue \<mapsto> rs @ as))
      else (?Q(Ready_Queue \<mapsto> rs @ as)) (Sem_Queue t) = None \<or> (?Q(Ready_Queue \<mapsto> rs @ as)) (Sem_Queue t) = Some []"
    if "t < N_SEMAFORS" for t
  proof (cases "t = s")
    case True
    then show ?thesis using assms(8,9) that c(2) by auto
  next
    case False
    then have "semafors k' ! t = semafors k ! t" "(?Q(Ready_Queue \<mapsto> rs @ as)) (Sem_Queue t) = Q (Sem_Queue t)" using assms(8) by simp_all
    moreover have "if 0 < sem_used (semafors k ! t) then Sem_Queue t \<in> dom Q else Q (Sem_Queue t) = None \<or> Q (Sem_Queue t) = Some []"
      using assms(1) that unfolding consistent_def by blast
    ultimately show ?thesis unfolding domIff by presburger
  qed
  then show ?thesis
    by (rule consistentI [OF assms(5), rotated 2]) (simp_all only: m assms(6-8) c length_list_update, simp)
qed

lemma signal_consistent:
  assumes "consistent T k Q"
  shows "\<exists>r k' Q'. sem_signal n k = Ok (r, k') \<and> keeps T k Q k' Q'"
proof -
  from assms obtain rs where c: "queues k Q" "queues0 k Q" "Q Ready_Queue = Some rs" "length (semafors k) = N_SEMAFORS"
    "\<And>s. s < N_SEMAFORS \<Longrightarrow> 0 < sem_used (semafors k ! s) \<Longrightarrow> Q (Sem_Queue s) \<noteq> None" by (rule consistentD) blast
  show ?thesis
  proof (cases "named k n")
    case None
    then have "sem_signal n k = Ok (-EINVAL, k)" using c(4) by (simp add: sem_signal_def get_semafor_named)
    with keeps_refl [OF assms] show ?thesis by blast
  next
    case (Some s)
    then have s: "s < N_SEMAFORS" using named_range by blast
    show ?thesis
    proof (cases "0 < sem_used (semafors k ! s)")
      case False
      then have "sem_signal n k = Ok (-EINVAL, k)" using c(4) Some s by (simp add: sem_signal_def get_semafor_named)
      with keeps_refl [OF assms] show ?thesis by blast
    next
      case used: True
      with c(5) s obtain bs where bs: "Q (Sem_Queue s) = Some bs" by blast
      show ?thesis
      proof (cases bs)
        case Nil
        from sem_signal_counts_aux [OF c(1) bs [unfolded Nil] c(4) Some used]
          keeps_set_sem [OF assms s, of "(semafors k ! s)\<lparr>sem_count := sem_count (semafors k ! s) + 1\<rparr>"]
        show ?thesis by auto
      next
        case (Cons x xs)
        from sem_signal_wakes_aux [OF c(1) bs [unfolded Cons] c(3,4) Some used] obtain h where
          h: "sem_signal n k = Ok (0, k\<lparr>links := h\<rparr>)" "queues (k\<lparr>links := h\<rparr>) (Q(Sem_Queue s \<mapsto> xs, Ready_Queue \<mapsto> rs @ [x]))" by blast
        from move_consistent [OF assms s _ c(3) h(2), of "semafors k ! s"] bs Cons used
        have "consistent T (k\<lparr>links := h\<rparr>) (Q(Sem_Queue s \<mapsto> xs, Ready_Queue \<mapsto> rs @ [x]))" by simp
        then have "keeps T k Q (k\<lparr>links := h\<rparr>) (Q(Sem_Queue s \<mapsto> xs, Ready_Queue \<mapsto> rs @ [x]))"
          by (rule keeps_upd(1)) simp
        with h(1) show ?thesis by blast
      qed
    qed
  qed
qed

lemma internal_destroy_consistent:
  assumes "consistent T k Q" and s: "s < N_SEMAFORS"
  shows "\<exists>r k' Q'. internal_sem_destroy s k = Ok (r, k') \<and> keeps T k Q k' Q' \<and> cur k' = cur k"
proof -
  from assms(1) obtain rs where c: "queues k Q" "queues0 k Q" "Q Ready_Queue = Some rs" "length (semafors k) = N_SEMAFORS"
    "\<And>s. s < N_SEMAFORS \<Longrightarrow> 0 < sem_used (semafors k ! s) \<Longrightarrow> Q (Sem_Queue s) \<noteq> None"
    "free_node Q (Task (cur k))" by (rule consistentD) blast
  note q = queues0D [OF c(2)]
  show ?thesis
  proof (cases "0 < sem_used (semafors k ! s) \<and> sem_owner (semafors k ! s) = PID (task k ! cur k)")
    case False
    then have "internal_sem_destroy s k = Ok (-EINVAL, k)" using c(4) s q(2,3) by (auto simp: internal_sem_destroy_def get_task_Ok)
    with keeps_refl [OF assms(1)] show ?thesis by blast
  next
    case used: True
    with c(5) s obtain bs where bs: "Q (Sem_Queue s) = Some bs" by blast
    let ?x = "(semafors k ! s)\<lparr>sem_id := 0xDEAD, sem_used := - int (length bs)\<rparr>"
    let ?Q = "Q(Sem_Queue s \<mapsto> [], Ready_Queue \<mapsto> rs @ bs)"
    from internal_destroy_wakes [OF c(1) bs c(3), of] s c(4) used obtain h where
      h: "internal_sem_destroy s k = Ok (0, k\<lparr>links := h, semafors := (semafors k)[s := ?x]\<rparr>)" "holds_lists h ?Q" by auto
    have out: "free_node ?Q y" if "free_node Q y" for y
      using that bs c(3) holds_not_in [OF q(1) bs that] holds_not_in [OF q(1) c(3) that]
      by (intro free_node_subset [where xs = rs] free_node_subset [where xs = bs]) auto
    have "queues (k\<lparr>links := h, semafors := (semafors k)[s := ?x]\<rparr>) ?Q"
      unfolding queues_def queues0_def
      using h(2) q(2-4) out [OF q(5)] out [OF c(6)] q(6) [OF bs] q(6) [OF c(3)] q(6,7) q(7) [OF bs] q(7) [OF c(3)]
      by (auto simp: fun_upd_apply)
    from move_consistent [OF assms(1) s _ c(3) this, of ?x] bs
    have "consistent T (k\<lparr>links := h, semafors := (semafors k)[s := ?x]\<rparr>) ?Q" by simp
    then have "keeps T k Q (k\<lparr>links := h, semafors := (semafors k)[s := ?x]\<rparr>) ?Q" by (rule keeps_upd(2)) simp
    with h(1) show ?thesis by (intro exI conjI) (assumption | simp)+
  qed
qed

lemma destroy_consistent:
  assumes "consistent T k Q"
  shows "\<exists>r k' Q'. sem_destroy n k = Ok (r, k') \<and> keeps T k Q k' Q'"
proof (cases "named k n")
  case None
  then have "sem_destroy n k = Ok (-EINVAL, k)" using assms by (simp add: sem_destroy_def get_semafor_named consistent_def)
  with keeps_refl [OF assms] show ?thesis by blast
next
  case (Some s)
  then have "sem_destroy n k = internal_sem_destroy s k" using assms by (simp add: sem_destroy_def get_semafor_named consistent_def)
  with internal_destroy_consistent [OF assms, of s] named_range [OF Some] show ?thesis by auto
qed

text \<open>\<open>destroy_owned_sems\<close>: any number of slots.\<close>

lemma destroy_owned_consistent:
  assumes "consistent T k Q"
  shows "\<exists>k' Q'. destroy_owned_sems pid k = Ok k' \<and> keeps T k Q k' Q' \<and> cur k' = cur k"
proof -
  let ?body = "\<lambda>i k. bind (aget (semafors k) i) (\<lambda>s.
        if 0 < sem_used s \<and> sem_owner s = pid
        then bind (internal_sem_destroy i k) (\<lambda>(_, k). Ok (Inl k)) else Ok (Inl k))"
  have "\<exists>k'. for_each [0..<N_SEMAFORS] ?body k = (Ok (Inl k') :: (kernel + kernel) res) \<and> (\<exists>Q'. keeps T k Q k' Q' \<and> cur k' = cur k)"
  proof (rule for_upto_rule [where I = "\<lambda>_ k'. \<exists>Q'. keeps T k Q k' Q' \<and> cur k' = cur k"])
    show "\<exists>Q'. keeps T k Q k Q' \<and> cur k = cur k" using keeps_refl [OF assms] by blast
  next
    fix i k1 assume i: "i < N_SEMAFORS" and "\<exists>Q'. keeps T k Q k1 Q' \<and> cur k1 = cur k"
    then obtain Q1 where Q1: "keeps T k Q k1 Q1" "cur k1 = cur k" by blast
    then have c1: "consistent T k1 Q1" by (simp add: keeps_def)
    from internal_destroy_consistent [OF this i] obtain r k2 Q2 where
      k2: "internal_sem_destroy i k1 = Ok (r, k2)" "keeps T k1 Q1 k2 Q2" and cur: "cur k2 = cur k1" by blast
    have "i < length (semafors k1)" using c1 i by (simp add: consistent_def)
    then have "\<exists>k3 Q3. ?body i k1 = (Ok (Inl k3) :: (kernel + kernel) res) \<and> keeps T k1 Q1 k3 Q3 \<and> cur k3 = cur k1"
      using k2 cur keeps_refl [OF c1] by (cases "0 < sem_used (semafors k1 ! i) \<and> sem_owner (semafors k1 ! i) = pid") auto
    then obtain k3 Q3 where k3: "?body i k1 = (Ok (Inl k3) :: (kernel + kernel) res)" "keeps T k1 Q1 k3 Q3" "cur k3 = cur k1" by blast
    have "keeps T k Q k3 Q3" by (rule keeps_trans [OF Q1(1) k3(2)])
    moreover have "cur k3 = cur k" using k3(3) Q1(2) by simp
    ultimately show "\<exists>s'. ?body i k1 = (Ok (Inl s') :: (kernel + kernel) res) \<and> (\<exists>Q'. keeps T k Q s' Q' \<and> cur s' = cur k)"
      using k3(1) by blast
  qed
  then show ?thesis by (auto simp: destroy_owned_sems_def)
qed

lemma init_consistent:
  assumes "consistent T k Q"
  shows "\<exists>r k' Q'. sem_init n v k = Ok (r, k') \<and> keeps T k Q k' Q'"
proof -
  from assms obtain rs where c: "queues k Q" "queues0 k Q" "free_node Q (Task (cur k))" "Q Ready_Queue = Some rs" "length (semafors k) = N_SEMAFORS"
    "\<And>s. s < N_SEMAFORS \<Longrightarrow> 0 < sem_used (semafors k ! s) \<Longrightarrow> Q (Sem_Queue s) \<noteq> None"
    "\<And>s. s < N_SEMAFORS \<Longrightarrow> \<not> 0 < sem_used (semafors k ! s) \<Longrightarrow> Q (Sem_Queue s) = None \<or> Q (Sem_Queue s) = Some []"
    "T = insert (Task (cur k)) (insert (Task (idle_task k)) (members Q))" by (rule consistentD) blast
  note q = queues0D [OF c(2)]
  consider "named k n \<noteq> None" | "named k n = None" "find (\<lambda>i. sem_used (semafors k ! i) = 0) [0..<N_SEMAFORS] = None"
    | s where "named k n = None" "find (\<lambda>i. sem_used (semafors k ! i) = 0) [0..<N_SEMAFORS] = Some s" by blast
  then show ?thesis
  proof cases
    case 1
    then have "sem_init n v k = Ok (-EINVAL, k)" using c(5) by (simp add: sem_init_def get_semafor_named)
    with keeps_refl [OF assms] show ?thesis by blast
  next
    case 2
    then have "sem_init n v k = Ok (-2, k)" using c(5) by (simp add: sem_init_def get_semafor_named get_free_found)
    with keeps_refl [OF assms] show ?thesis by blast
  next
    case 3
    then have s: "s < N_SEMAFORS" "sem_used (semafors k ! s) = 0" by (auto simp: find_Some_iff)
    with c(7) have Qs: "Q (Sem_Queue s) = None \<or> Q (Sem_Queue s) = Some []" by simp
    have "free_node Q (Sem_Queue s) \<or> Q (Sem_Queue s) = Some []"
    proof (cases "Q (Sem_Queue s)")
      case None
      have "Sem_Queue s \<notin> set (r # xs)" if "Q r = Some xs" for r xs using q(6) [OF that] that None by auto
      then show ?thesis unfolding free_node_def by blast
    qed (use Qs in simp)
    from lists.init_law [OF q(1) _ this] obtain h where h: "INIT_LIST_HEAD (Sem_Queue s) (links k) = Ok h" "holds_lists h (Q(Sem_Queue s \<mapsto> []))"
      by auto
    let ?x = "(semafors k ! s)\<lparr>sem_used := 1, sem_count := v, sem_owner := PID (task k ! cur k), sem_id := word_of_int n\<rparr>"
    let ?k = "k\<lparr>semafors := (semafors k)[s := ?x], links := h\<rparr>" and ?Q = "Q(Sem_Queue s \<mapsto> [])"
    have run: "sem_init n v k = Ok (0, ?k)"
      using 3 c(5) s q(2,3) h(1) by (simp add: sem_init_def get_semafor_named get_free_found get_task_Ok set_sem_Ok on_lists_def)
    have out: "free_node ?Q y" if "free_node Q y" "y \<in> range Task" for y
      using that by (auto simp: free_node_upd) (auto simp: free_node_def)
    have "queues ?k ?Q"
      unfolding queues_def queues0_def using h(2) q(2-4) out [OF q(5)] out [OF c(3)] q(6,7)
      by (auto simp: fun_upd_apply)
    moreover have "if 0 < sem_used (semafors ?k ! t) then Sem_Queue t \<in> dom ?Q else ?Q (Sem_Queue t) = None \<or> ?Q (Sem_Queue t) = Some []"
      if "t < N_SEMAFORS" for t
      using that c(5-7) s(1) by (cases "t = s") (auto simp: domIff)
    moreover have "Ready_Queue \<in> dom ?Q" using c(4) by auto
    moreover have "length (semafors ?k) = N_SEMAFORS" using c(5) by simp
    moreover have "T = insert (Task (cur ?k)) (insert (Task (idle_task ?k)) (members ?Q))"
      using c(8) members_init [of Q "Sem_Queue s", OF Qs] by (simp del: fun_upd_apply)
    ultimately have "consistent T ?k ?Q" unfolding consistent_def by blast
    then have "keeps T k Q ?k ?Q" by (simp add: keeps_def same_spaces_def same_queues_def)
    with run show ?thesis by blast
  qed
qed

lemma resume_consistent:
  assumes "consistent T k Q" and "s < N_SEMAFORS"
  shows "\<exists>r k' Q'. sem_wait_resumed s k = Ok (r, k') \<and> keeps T k Q k' Q'"
proof (cases "sem_used (semafors k ! s) < 0")
  case True
  have "s < length (semafors k)" using assms by (simp add: consistent_def)
  from sem_wait_resumed_destroyed [OF this True] keeps_set_sem [OF assms, of "(semafors k ! s)\<lparr>sem_used := sem_used (semafors k ! s) + 1\<rparr>"] True
  show ?thesis by auto
next
  case False
  then have "sem_wait_resumed s k = Ok (0, k)" using assms by (simp add: sem_wait_resumed_def consistent_def)
  with keeps_refl [OF assms(1)] show ?thesis by blast
qed

end
