(* ===== verification/Text.thy ===== *)
theory Text
  imports Prelude
begin

text \<open>
  NUL-terminated strings and the number printers of the repository: \<open>strlen\<close> and \<open>itoa\<close> of
  zeos_full/libc.c, its copies in zeos_full/zeos_interrupt.c and (as \<open>itoaSystem\<close>)
  file-system/fat32.c, and \<open>itoahex\<close> of zeos_full/utils.c. A buffer is the list of its bytes;
  a write past its end is a fault. The digit loop writes the least significant digit first
  and the second loop swaps the digits into place; \<open>itoa_reads_back\<close> and \<open>itoahex_prints\<close> show
  that the buffer then holds the positional notation of the argument.
\<close>

section \<open>Strings\<close>

text \<open>The characters of a literal; the terminating zero is not among them.\<close>

definition chars :: "string \<Rightarrow> byte list" where
  "chars = map of_char"

definition strlen :: "byte list \<Rightarrow> nat res" where
  "strlen a = loop (\<lambda>i. bind (aget a i) (\<lambda>c. Ok (if c \<noteq> 0 then Inl (Suc i) else Inr i))) 0"

text \<open>The buffer \<open>b\<close> starts with the string \<open>s\<close>.\<close>

definition holds_string :: "byte list \<Rightarrow> byte list \<Rightarrow> bool" where
  "holds_string b s \<longleftrightarrow> 0 \<notin> set s \<and> (\<exists>rest. b = s @ 0 # rest)"

lemma strlen_loop:
  "0 \<notin> set s \<Longrightarrow> i \<le> length s \<Longrightarrow>
   loop (\<lambda>i. bind (aget (s @ 0 # rest) i) (\<lambda>c. Ok (if c \<noteq> 0 then Inl (Suc i) else Inr i))) i
     = Ok (length s)"
proof (induction "length s - i" arbitrary: i)
  case 0
  then show ?case by (subst loop_stop) (auto simp: nth_append)
next
  case (Suc n)
  then have "i < length s" by simp
  moreover from this Suc.prems have "s ! i \<noteq> 0" by (metis nth_mem)
  ultimately show ?case
    using Suc.hyps(1) [of "Suc i"] Suc.hyps(2) Suc.prems
    by (subst loop_step) (auto simp: nth_append)
qed

lemma strlen_holds_string: "holds_string b s \<Longrightarrow> strlen b = Ok (length s)"
  by (auto simp: holds_string_def strlen_def intro: strlen_loop)

section \<open>Numbers\<close>

text \<open>
  The first loop of the printers, \<open>while (a>0) { b[i]=...; a=a/base; i++; }\<close>, with \<open>off\<close> the
  position of \<open>b\<close> in its buffer (2 in \<open>itoahex\<close>, after the prefix).
\<close>

definition digit_loop :: "int \<Rightarrow> (int \<Rightarrow> byte) \<Rightarrow> nat \<Rightarrow> int \<Rightarrow> byte list \<Rightarrow> (byte list \<times> nat) res" where
  "digit_loop base dig off a b =
     loop (\<lambda>(a, b, i).
       if a > 0 then bind (aput b (off + i) (dig (a smod base))) (\<lambda>b'. Ok (Inl (a sdiv base, b', Suc i)))
       else Ok (Inr (b, i))) (a, b, 0)"

text \<open>The second loop: \<open>c=b[i1]; b[i1]=b[i-i1-1]; b[i-i1-1]=c;\<close> for \<open>i1 < i/2\<close>.\<close>

definition swap_digit :: "nat \<Rightarrow> nat \<Rightarrow> nat \<Rightarrow> byte list \<Rightarrow> (byte list + byte list) res" where
  "swap_digit off i i1 b =
     bind (aget b (off + i1)) (\<lambda>c.
     bind (aget b (off + (i - i1 - 1))) (\<lambda>d.
     bind (aput b (off + i1) d) (\<lambda>b'.
     bind (aput b' (off + (i - i1 - 1)) c) (\<lambda>b''. Ok (Inl b'')))))"

definition swap_loop :: "nat \<Rightarrow> nat \<Rightarrow> byte list \<Rightarrow> byte list res" where
  "swap_loop off i b =
     bind (for_each [0..<i div 2] (swap_digit off i) b) (\<lambda>r. Ok (case r of Inl b' \<Rightarrow> b' | Inr b' \<Rightarrow> b'))"

definition decimal_digit :: "int \<Rightarrow> byte" where
  "decimal_digit d = word_of_int (d + 48)"

definition itoa :: "int \<Rightarrow> byte list \<Rightarrow> byte list res" where
  "itoa a b =
     (if a = 0 then bind (aput b 0 48) (\<lambda>b'. aput b' 1 0)
      else bind (digit_loop 10 decimal_digit 0 a b) (\<lambda>(b', i).
           bind (swap_loop 0 i b') (\<lambda>b''. aput b'' i 0)))"

text \<open>\<open>itoaSystem\<close> and the \<open>itoa\<close> of zeos_interrupt.c are the same text as \<open>itoa\<close> of libc.c.\<close>

definition itoaSystem :: "int \<Rightarrow> byte list \<Rightarrow> byte list res" where
  "itoaSystem a b =
     (if a = 0 then bind (aput b 0 48) (\<lambda>b'. aput b' 1 0)
      else bind (digit_loop 10 decimal_digit 0 a b) (\<lambda>(b', i).
           bind (swap_loop 0 i b') (\<lambda>b''. aput b'' i 0)))"

definition zeos_itoa :: "int \<Rightarrow> byte list \<Rightarrow> byte list res" where
  "zeos_itoa a b =
     (if a = 0 then bind (aput b 0 48) (\<lambda>b'. aput b' 1 0)
      else bind (digit_loop 10 decimal_digit 0 a b) (\<lambda>(b', i).
           bind (swap_loop 0 i b') (\<lambda>b''. aput b'' i 0)))"

text \<open>The digit of \<open>itoahex\<close>: \<open>x + '0'\<close> below ten, a letter by the \<open>switch\<close> above.\<close>

definition hex_digit :: "int \<Rightarrow> byte" where
  "hex_digit x =
     (if x < 10 then word_of_int (x + 48)
      else if x = 10 then 65 else if x = 11 then 66 else if x = 12 then 67
      else if x = 13 then 68 else if x = 14 then 69 else if x = 15 then 70 else 63)"

definition itoahex :: "dword \<Rightarrow> byte list \<Rightarrow> byte list res" where
  "itoahex a b =
     bind (aput b 0 48) (\<lambda>b. bind (aput b 1 120) (\<lambda>b.
     if a = 0 then bind (aput b 2 48) (\<lambda>b'. aput b' 3 0)
     else bind (digit_loop 16 hex_digit 2 (uint a) b) (\<lambda>(b', i).
          bind (swap_loop 2 i b') (\<lambda>b''. aput b'' (2 + i) 0))))"

section \<open>The printers write the positional notation\<close>

text \<open>The digits of a number, least significant first.\<close>

fun digits :: "nat \<Rightarrow> nat \<Rightarrow> nat list" where
  "digits base n = (if base < 2 \<or> n = 0 then [] else (n mod base) # digits base (n div base))"

declare digits.simps [simp del]

lemma digits_0 [simp]: "digits base 0 = []"
  by (simp add: digits.simps)

lemma digits_less: "d \<in> set (digits base n) \<Longrightarrow> d < base"
proof (induction base n rule: digits.induct)
  case (1 base n)
  then show ?case by (subst (asm) digits.simps) (auto split: if_splits)
qed

lemma digits_value: "1 < base \<Longrightarrow> foldr (\<lambda>d n. d + base * n) (digits base n) 0 = n"
proof (induction base n rule: digits.induct)
  case (1 base n)
  then show ?case by (subst digits.simps) auto
qed

lemma digits_length: "1 < base \<Longrightarrow> n < base ^ k \<Longrightarrow> length (digits base n) \<le> k"
proof (induction base n arbitrary: k rule: digits.induct)
  case (1 base n)
  show ?case
  proof (cases "n = 0")
    case True
    then show ?thesis by simp
  next
    case False
    with "1.prems" obtain k' where k: "k = Suc k'" by (cases k) auto
    with "1.prems" have "n div base < base ^ k'"
      by (simp add: less_mult_imp_div_less mult.commute)
    with "1.IH" [of k'] "1.prems" False k show ?thesis by (subst digits.simps) auto
  qed
qed

lemma digits_last: "1 < base \<Longrightarrow> n \<noteq> 0 \<Longrightarrow> digits base n \<noteq> [] \<and> last (digits base n) \<noteq> 0"
proof (induction base n rule: digits.induct)
  case (1 base n)
  show ?case
  proof (cases "n div base = 0")
    case True
    with "1.prems" show ?thesis by (subst (1 2) digits.simps) (auto simp: div_eq_0_iff)
  next
    case False
    with "1" show ?thesis by (subst (1 2) digits.simps) auto
  qed
qed

lemma sdiv_nonneg: "0 \<le> a \<Longrightarrow> 0 < b \<Longrightarrow> (a :: int) sdiv b = a div b"
  by (cases "a = 0") (auto simp: signed_divide_int_def sgn_if)

lemma smod_nonneg: "0 \<le> a \<Longrightarrow> 0 < b \<Longrightarrow> (a :: int) smod b = a mod b"
  by (cases "a = 0") (auto simp: signed_modulo_int_def sgn_if)

text \<open>What the digit loop leaves: the digits in \<open>b\<close> from position \<open>off\<close> on, and their number.\<close>

definition with_segment :: "nat \<Rightarrow> byte list \<Rightarrow> byte list \<Rightarrow> byte list" where
  "with_segment off seg b = take off b @ seg @ drop (off + length seg) b"

lemma length_with_segment [simp]:
  "off + length seg \<le> length b \<Longrightarrow> length (with_segment off seg b) = length b"
  by (simp add: with_segment_def)

lemma with_segment_Nil [simp]: "with_segment off [] b = b"
  by (simp add: with_segment_def)

lemma with_segment_Cons:
  "off + length (x # xs) \<le> length b \<Longrightarrow>
   with_segment (Suc off) xs (b[off := x]) = with_segment off (x # xs) b"
  by (simp add: with_segment_def take_Suc_conv_app_nth drop_update_cancel)

lemma digit_loop_digits:
  assumes "1 < base"
  shows "off + i + length (digits base n) \<le> length b \<Longrightarrow>
    loop (\<lambda>(a, b, i).
       if a > 0 then bind (aput b (off + i) (dig (a smod int base))) (\<lambda>b'. Ok (Inl (a sdiv int base, b', Suc i)))
       else Ok (Inr (b, i))) (int n, b, i)
     = Ok (with_segment (off + i) (map (dig \<circ> int) (digits base n)) b, i + length (digits base n))"
  using assms
proof (induction base n arbitrary: b i rule: digits.induct)
  case (1 base n)
  show ?case
  proof (cases "n = 0")
    case True
    then show ?thesis by (subst loop_unfold) simp
  next
    case False
    with "1.prems" have ds: "digits base n = n mod base # digits base (n div base)"
      by (subst digits.simps) auto
    with "1.prems" False have
      "loop (\<lambda>(a, b, i).
         if a > 0 then bind (aput b (off + i) (dig (a smod int base))) (\<lambda>b'. Ok (Inl (a sdiv int base, b', Suc i)))
         else Ok (Inr (b, i))) (int (n div base), b[off + i := dig (int (n mod base))], Suc i)
       = Ok (with_segment (off + Suc i) (map (dig \<circ> int) (digits base (n div base)))
             (b[off + i := dig (int (n mod base))]), Suc i + length (digits base (n div base)))"
      by (intro "1.IH") auto
    with False "1.prems" ds show ?thesis
      by (subst loop_unfold)
        (simp add: smod_nonneg sdiv_nonneg with_segment_Cons zmod_int zdiv_int)
  qed
qed

lemma swap_loop_rounds:
  assumes "off + n \<le> length b" and "k \<le> n div 2"
  shows "\<exists>t. for_each [0..<k] (swap_digit off n) b = Ok (Inl t) \<and> length t = length b \<and>
    (\<forall>j < length b. t ! j =
      (if off \<le> j \<and> j < off + n \<and> (j - off < k \<or> n - k \<le> j - off)
       then b ! (off + (n - 1 - (j - off))) else b ! j))"
  using assms(2)
proof (induction k)
  case 0
  then show ?case by auto
next
  case (Suc k)
  then obtain t where t: "for_each [0..<k] (swap_digit off n) b = Ok (Inl t)" "length t = length b"
    and nth: "\<forall>j < length b. t ! j =
      (if off \<le> j \<and> j < off + n \<and> (j - off < k \<or> n - k \<le> j - off)
       then b ! (off + (n - 1 - (j - off))) else b ! j)" by auto
  let ?t = "t[off + k := t ! (off + (n - k - 1)), off + (n - k - 1) := t ! (off + k)]"
  have k: "k < n - k - 1" and k2: "off + (n - k - 1) < length b" using Suc.prems assms(1) by auto
  then have step: "swap_digit off n k t = Ok (Inl ?t)"
    using t(2) by (simp add: swap_digit_def)
  have "?t ! j =
      (if off \<le> j \<and> j < off + n \<and> (j - off < Suc k \<or> n - Suc k \<le> j - off)
       then b ! (off + (n - 1 - (j - off))) else b ! j)" if "j < length b" for j
  proof -
    consider "j = off + k" | "j = off + (n - k - 1)" | "j \<noteq> off + k" "j \<noteq> off + (n - k - 1)" by blast
    then show ?thesis
      using that k k2 nth t(2) by cases (auto simp: nth_list_update)
  qed
  with t step show ?case by (intro exI [of _ ?t]) (auto simp: for_each_append)
qed

lemma swap_loop_rev:
  assumes "off + length seg \<le> length b"
  shows "swap_loop off (length seg) (with_segment off seg b) = Ok (with_segment off (rev seg) b)"
proof -
  let ?b = "with_segment off seg b"
  obtain t where t: "for_each [0..<length seg div 2] (swap_digit off (length seg)) ?b = Ok (Inl t)"
      "length t = length ?b"
    and nth: "\<forall>j < length ?b. t ! j =
      (if off \<le> j \<and> j < off + length seg \<and> (j - off < length seg div 2 \<or> length seg - length seg div 2 \<le> j - off)
       then ?b ! (off + (length seg - 1 - (j - off))) else ?b ! j)"
    using swap_loop_rounds [of off "length seg" ?b "length seg div 2"] assms by auto
  have "t = with_segment off (rev seg) b"
  proof (rule nth_equalityI)
    show "length t = length (with_segment off (rev seg) b)" using t(2) assms by simp
  next
    fix j assume j: "j < length t"
    consider "j < off" | "off + length seg \<le> j" | "off \<le> j" "j < off + length seg" by linarith
    then show "t ! j = with_segment off (rev seg) b ! j"
    proof cases
      case 3
      then obtain d where d: "j = off + d" "d < length seg" by (metis add_less_cancel_left le_Suc_ex)
      have at: "?b ! (off + e) = seg ! e" if "e < length seg" for e
        using that assms by (simp add: with_segment_def nth_append)
      have mid: "\<not> (d < length seg div 2 \<or> length seg - length seg div 2 \<le> d) \<Longrightarrow> d = length seg - 1 - d"
        using d(2) by linarith
      have "t ! j = (if d < length seg div 2 \<or> length seg - length seg div 2 \<le> d
          then ?b ! (off + (length seg - 1 - d)) else ?b ! (off + d))"
        using nth [rule_format, of j] j t(2) d by simp
      also have "\<dots> = seg ! (length seg - 1 - d)"
        using at [of d] at [of "length seg - 1 - d"] d(2) mid by (auto split: if_splits)
      finally have "t ! j = seg ! (length seg - 1 - d)" .
      also have "seg ! (length seg - 1 - d) = with_segment off (rev seg) b ! j"
        using d assms by (simp add: with_segment_def nth_append rev_nth)
      finally show ?thesis .
    qed (use nth j t(2) assms in \<open>auto simp: with_segment_def nth_append\<close>)
  qed
  with t(1) show ?thesis by (simp add: swap_loop_def)
qed

definition decimal :: "nat \<Rightarrow> byte list" where
  "decimal n = (if n = 0 then [48] else map (decimal_digit \<circ> int) (rev (digits 10 n)))"

definition hexadecimal :: "nat \<Rightarrow> byte list" where
  "hexadecimal n = [48, 120] @ (if n = 0 then [48] else map (hex_digit \<circ> int) (rev (digits 16 n)))"

lemma itoa_steps:
  assumes "0 < n" and "length (digits 10 n) < length b"
  shows "bind (digit_loop 10 decimal_digit 0 (int n) b) (\<lambda>(b', i).
           bind (swap_loop 0 i b') (\<lambda>b''. aput b'' i 0)) = Ok (with_segment 0 (decimal n @ [0]) b)"
proof -
  let ?seg = "map (decimal_digit \<circ> int) (digits 10 n)"
  from assms have "digit_loop 10 decimal_digit 0 (int n) b = Ok (with_segment 0 ?seg b, length ?seg)"
    using digit_loop_digits [of 10 0 0 n b decimal_digit, unfolded of_nat_numeral] by (simp add: digit_loop_def)
  moreover from assms have "swap_loop 0 (length ?seg) (with_segment 0 ?seg b) = Ok (with_segment 0 (rev ?seg) b)"
    by (intro swap_loop_rev) simp
  ultimately show ?thesis
    using assms by (simp add: decimal_def with_segment_def rev_map list_update_append Cons_nth_drop_Suc [symmetric])
qed

lemma itoa_decimal_aux:
  assumes "0 \<le> a" and "length (decimal (nat a)) < length b"
  shows "itoa a b = Ok (with_segment 0 (decimal (nat a) @ [0]) b)"
proof (cases "a = 0")
  case True
  with assms(2) obtain x y b' where "b = x # y # b'" by (cases b rule: list.exhaust; cases "tl b") (auto simp: decimal_def)
  with True show ?thesis by (simp add: itoa_def decimal_def with_segment_def)
next
  case False
  with assms have "0 < nat a" and "length (digits 10 (nat a)) < length b" by (auto simp: decimal_def)
  from itoa_steps [OF this] assms False show ?thesis by (simp add: itoa_def)
qed

lemma decimal_length: "n < 2 ^ 31 \<Longrightarrow> length (decimal n) \<le> 10"
  using digits_length [of 10 n 10] by (simp add: decimal_def)

lemma unat_decimal_digit: "d < 10 \<Longrightarrow> unat (decimal_digit (int d)) = d + 48"
proof -
  assume "d < 10"
  moreover have "decimal_digit (int d) = of_nat (d + 48)" by (simp add: decimal_digit_def)
  ultimately show ?thesis by (simp only: unat_of_nat) simp
qed

lemma decimal_digit_nonzero: "d < 10 \<Longrightarrow> decimal_digit (int d) \<noteq> 0"
  using unat_decimal_digit [of d] by auto

lemma decimal_no_nul: "0 \<notin> set (decimal n)"
  using digits_less [of _ 10 n] decimal_digit_nonzero by (auto simp: decimal_def)

lemma takeWhile_with_segment: "0 \<notin> set t \<Longrightarrow> takeWhile (\<lambda>c. c \<noteq> 0) (with_segment 0 (t @ [0]) b) = t"
proof -
  assume "0 \<notin> set t"
  then have "\<forall>c \<in> set t. c \<noteq> 0" by auto
  then show ?thesis by (simp add: with_segment_def takeWhile_append2)
qed

text \<open>Reading a decimal string back: the value it stands for.\<close>

definition parse_decimal :: "byte list \<Rightarrow> nat" where
  "parse_decimal s = foldl (\<lambda>n c. 10 * n + (unat c - 48)) 0 s"

lemma parse_decimal_digits: "\<forall>d \<in> set ds. d < 10 \<Longrightarrow>
  foldl (\<lambda>n c. 10 * n + (unat c - 48)) 0 (map (decimal_digit \<circ> int) (rev ds)) = foldr (\<lambda>d n. d + 10 * n) ds 0"
  by (induction ds) (auto simp: unat_decimal_digit)

lemma parse_decimal: "parse_decimal (decimal n) = n"
proof (cases "n = 0")
  case True
  then show ?thesis by (simp add: parse_decimal_def decimal_def)
next
  case False
  with parse_decimal_digits [of "digits 10 n"] digits_less [of _ 10 n] digits_value [of 10 n]
  show ?thesis by (simp add: parse_decimal_def decimal_def)
qed

lemma hex_no_nul: "0 \<notin> set (hexadecimal n)"
proof -
  have "hex_digit (int d) \<noteq> 0" if "d < 16" for d
  proof (cases "d < 10")
    case True
    then have "hex_digit (int d) = decimal_digit (int d)" by (simp add: hex_digit_def decimal_digit_def)
    with True decimal_digit_nonzero show ?thesis by simp
  qed (simp add: hex_digit_def)
  then show ?thesis using digits_less [of _ 16 n] by (auto simp: hexadecimal_def)
qed

lemma itoahex_digits_aux:
  assumes "length (hexadecimal (unat a)) < length b"
  shows "itoahex a b = Ok (with_segment 0 (hexadecimal (unat a) @ [0]) b)"
proof -
  from assms have "2 < length b" by (simp add: hexadecimal_def)
  then obtain x y b' where b: "b = x # y # b'" and b': "b' \<noteq> []"
    by (cases b rule: list.exhaust; cases "tl b") auto
  show ?thesis
  proof (cases "a = 0")
    case True
    with assms b b' show ?thesis
      by (cases b') (auto simp: itoahex_def hexadecimal_def with_segment_def neq_Nil_conv)
  next
    case False
    then have n: "0 < unat a" by (simp add: unat_gt_0)
    let ?seg = "map (hex_digit \<circ> int) (digits 16 (unat a))"
    let ?b = "48 # 120 # b'"
    have len: "2 + length ?seg < length ?b" using assms n b by (simp add: hexadecimal_def)
    then have "digit_loop 16 hex_digit 2 (uint a) ?b = Ok (with_segment 2 ?seg ?b, length ?seg)"
      using digit_loop_digits [of 16 2 0 "unat a" ?b hex_digit, unfolded of_nat_numeral]
      by (simp add: digit_loop_def)
    moreover from len have "swap_loop 2 (length ?seg) (with_segment 2 ?seg ?b) = Ok (with_segment 2 (rev ?seg) ?b)"
      by (intro swap_loop_rev) simp
    ultimately show ?thesis
      using False n len b
      by (simp add: itoahex_def hexadecimal_def with_segment_def rev_map list_update_append
        Cons_nth_drop_Suc [symmetric] numeral_2_eq_2)
  qed
qed

lemma hexadecimal_length: "length (hexadecimal (unat (a :: dword))) \<le> 10"
proof -
  have "unat a < 2 ^ LENGTH(32)" by (rule unsigned_less)
  then show ?thesis using digits_length [of 16 "unat a" 8] by (simp add: hexadecimal_def)
qed

section \<open>Properties\<close>

text \<open>
  For every non-negative \<open>int\<close> and a buffer of eleven bytes, \<open>itoa\<close> writes a terminated string,
  whose length \<open>strlen\<close> finds and whose digits read back as the number; \<open>itoaSystem\<close> and the \<open>itoa\<close>
  of zeos_interrupt.c write the same.
\<close>

lemma itoa_reads_back:
  assumes "0 \<le> a" and "a < 2 ^ 31" and "11 \<le> length b"
  shows "\<exists>b' t. itoa a b = Ok b' \<and> itoaSystem a b = Ok b' \<and> zeos_itoa a b = Ok b' \<and> length b' = length b \<and>
    holds_string b' t \<and> strlen b' = Ok (length t) \<and> parse_decimal t = nat a"
proof -
  let ?t = "decimal (nat a)"
  have "length ?t \<le> 10" using assms by (intro decimal_length) simp
  with assms have len: "length ?t < length b" by simp
  have run: "itoa a b = Ok (with_segment 0 (?t @ [0]) b)" by (rule itoa_decimal_aux [OF assms(1) len])
  have h: "holds_string (with_segment 0 (?t @ [0]) b) ?t"
    using decimal_no_nul [of "nat a"] by (simp add: holds_string_def with_segment_def)
  from run h len strlen_holds_string [OF h] parse_decimal [of "nat a"] show ?thesis
    by (intro exI [of _ "with_segment 0 (?t @ [0]) b"] exI [of _ ?t])
      (simp add: itoa_def itoaSystem_def zeos_itoa_def)
qed

text \<open>
  \<open>itoahex\<close> writes \<open>0x\<close> and the hexadecimal digits of its \<open>unsigned int\<close>, at most ten
  characters and the terminating zero.
\<close>

lemma itoahex_prints:
  assumes "11 \<le> length b"
  shows "itoahex a b = Ok (hexadecimal (unat a) @ 0 # drop (length (hexadecimal (unat a)) + 1) b)
    \<and> length (hexadecimal (unat a)) \<le> 10 \<and> 0 \<notin> set (hexadecimal (unat a))"
  using itoahex_digits_aux [of a b] hexadecimal_length [of a] hex_no_nul [of "unat a"] assms
  by (simp add: with_segment_def)

end
