(* ===== verification/Console.thy ===== *)
theory Console
  imports Text
begin

text \<open>
  The text screen (zeos_full/io.c): \<open>printc\<close> writes a character at the cursor into the screen
  memory at 0xb8000 and copies it to port 0xE9, \<open>printc_xy\<close> writes elsewhere, \<open>printk\<close> prints a
  string. Elsewhere in the development \<open>printk\<close> just appends to the text printed so far; the theorem
  of this theory is why it may.
\<close>

section \<open>Code\<close>

definition NUM_COLUMNS :: nat where "NUM_COLUMNS = 80"
definition NUM_ROWS :: nat where "NUM_ROWS = 25"

text \<open>The screen memory, the globals \<open>x\<close> and \<open>y\<close>, and what was sent to port 0xE9.\<close>

record terminal =
  vram :: "word16 list"
  xpos :: byte
  ypos :: byte
  port_e9 :: "byte list"

text \<open>\<open>y=(y+1)%NUM_ROWS\<close>, computed as \<open>int\<close>\<close>

definition next_row :: "byte \<Rightarrow> byte" where
  "next_row y = of_nat ((unat y + 1) mod NUM_ROWS)"

definition cell :: "byte \<Rightarrow> word16" where
  "cell c = ucast c OR 0x0200"

definition printc :: "byte \<Rightarrow> terminal \<Rightarrow> terminal res" where
  "printc c t =
     (let t = t\<lparr>port_e9 := port_e9 t @ [c]\<rparr> in
      if c = 10 then Ok (t\<lparr>xpos := 0, ypos := next_row (ypos t)\<rparr>)
      else bind (aput (vram t) (unat (ypos t) * NUM_COLUMNS + unat (xpos t)) (cell c)) (\<lambda>v.
        let t = t\<lparr>vram := v, xpos := xpos t + 1\<rparr> in
        if NUM_COLUMNS \<le> unat (xpos t) then Ok (t\<lparr>xpos := 0, ypos := next_row (ypos t)\<rparr>) else Ok t))"

definition printc_xy :: "byte \<Rightarrow> byte \<Rightarrow> byte \<Rightarrow> terminal \<Rightarrow> terminal res" where
  "printc_xy mx my c t =
     (let cx = xpos t; cy = ypos t in
      bind (printc c (t\<lparr>xpos := mx, ypos := my\<rparr>)) (\<lambda>t. Ok (t\<lparr>xpos := cx, ypos := cy\<rparr>)))"

definition printk_round :: "byte list \<Rightarrow> nat \<times> terminal \<Rightarrow> (nat \<times> terminal + terminal) res" where
  "printk_round string = (\<lambda>(i, t). bind (aget string i) (\<lambda>c.
     if c = 0 then Ok (Inr t) else bind (printc c t) (\<lambda>t. Ok (Inl (i + 1, t)))))"

definition printk_io :: "byte list \<Rightarrow> terminal \<Rightarrow> terminal res" where
  "printk_io string t = loop (printk_round string) (0, t)"

section \<open>What the screen shows\<close>

text \<open>The screen as a sequence of cells with a position: the specification of \<open>printc\<close>.\<close>

definition put_char :: "word16 list \<times> nat \<Rightarrow> byte \<Rightarrow> word16 list \<times> nat" where
  "put_char = (\<lambda>(v, pos) c. if c = 10 then (v, (pos div 80 + 1) mod 25 * 80) else (v[pos := cell c], (pos + 1) mod 2000))"

definition shown :: "terminal \<Rightarrow> word16 list \<times> nat" where
  "shown t = (vram t, unat (ypos t) * 80 + unat (xpos t))"

definition on_screen :: "terminal \<Rightarrow> bool" where
  "on_screen t \<longleftrightarrow> length (vram t) = 2000 \<and> unat (xpos t) < 80 \<and> unat (ypos t) < 25"

lemma next_row_less: "unat (next_row y) = (unat y + 1) mod 25"
proof -
  have "(unat y + 1) mod 25 mod 256 = (unat y + 1) mod 25" by (rule mod_less) (rule less_trans [of _ 25], simp_all)
  then show ?thesis by (simp add: next_row_def NUM_ROWS_def unat_of_nat)
qed

lemma row_start: "unat y < 25 \<Longrightarrow> unat (next_row y) * 80 = (unat y * 80 + 80) mod 2000"
proof -
  assume "unat y < 25"
  then have "unat y + 1 < 25 \<or> unat y + 1 = 25" by linarith
  then show ?thesis unfolding next_row_less by auto
qed

lemma printc_puts:
  assumes "on_screen t"
  shows "\<exists>t'. printc c t = Ok t' \<and> on_screen t' \<and> shown t' = put_char (shown t) c \<and> port_e9 t' = port_e9 t @ [c]"
proof -
  have t: "length (vram t) = 2000" "unat (xpos t) < 80" "unat (ypos t) < 25" using assms by (simp_all add: on_screen_def)
  let ?pos = "unat (ypos t) * 80 + unat (xpos t)"
  have pos: "?pos < 2000" "?pos div 80 = unat (ypos t)" using t(2,3) by simp_all
  show ?thesis
  proof (cases "c = 10")
    case True
    then show ?thesis using t pos(2) by (simp add: printc_def on_screen_def shown_def put_char_def next_row_less Let_def)
  next
    case False
    have x: "unat (xpos t + 1) = unat (xpos t) + 1" using t(2) by (simp add: unat_plus_if_size word_size)
    show ?thesis
    proof (cases "unat (xpos t) + 1 < 80")
      case True
      then have m: "Suc ?pos mod 2000 = Suc ?pos" using t(3) by (intro mod_less) simp
      show ?thesis using False True t pos x
        by (simp add: printc_def on_screen_def shown_def put_char_def Let_def NUM_COLUMNS_def m)
    next
      case full: False
      then have e: "?pos + 1 = unat (ypos t) * 80 + 80" using t(2) by simp
      show ?thesis using False full t pos(1) x row_start [OF t(3)] next_row_less [of "ypos t"]
        by (simp add: printc_def on_screen_def shown_def put_char_def Let_def NUM_COLUMNS_def e [simplified] add.commute [of 80])
    qed
  qed
qed

lemma printk_rounds:
  assumes "on_screen t" and "i + length s < length str" and "\<forall>j < length s. str ! (i + j) = s ! j \<and> s ! j \<noteq> 0" and "str ! (i + length s) = 0"
  shows "\<exists>t'. loop (printk_round str) (i, t) = Ok t' \<and> on_screen t' \<and> shown t' = foldl put_char (shown t) s \<and> port_e9 t' = port_e9 t @ s"
  using assms
proof (induction s arbitrary: i t)
  case Nil
  then show ?case by (auto simp: loop_stop printk_round_def)
next
  case (Cons c s)
  from printc_puts [OF Cons.prems(1)] obtain t1 where
    t1: "printc c t = Ok t1" "on_screen t1" "shown t1 = put_char (shown t) c" "port_e9 t1 = port_e9 t @ [c]" by blast
  from Cons.prems have c: "str ! i = c" "c \<noteq> 0" "i < length str" by force+
  have rest: "\<forall>j < length s. str ! (i + 1 + j) = s ! j \<and> s ! j \<noteq> 0"
  proof (intro allI impI)
    fix j assume "j < length s"
    then show "str ! (i + 1 + j) = s ! j \<and> s ! j \<noteq> 0" using Cons.prems(3) [rule_format, of "Suc j"] by simp
  qed
  from Cons.IH [OF t1(2) _ rest] Cons.prems(2,4) obtain t' where
    "loop (printk_round str) (i + 1, t1) = Ok t'" "on_screen t'" "shown t' = foldl put_char (shown t1) s" "port_e9 t' = port_e9 t1 @ s" by auto
  moreover have "loop (printk_round str) (i, t) = loop (printk_round str) (i + 1, t1)"
    by (rule loop_step) (use c t1(1) in \<open>simp add: printk_round_def\<close>)
  ultimately show ?case using t1(3,4) by auto
qed

lemma printk_shows:
  assumes "on_screen t" and "0 \<in> set str"
  defines "s \<equiv> takeWhile (\<lambda>c. c \<noteq> 0) str"
  shows "\<exists>t'. printk_io str t = Ok t' \<and> on_screen t' \<and> shown t' = foldl put_char (shown t) s \<and> port_e9 t' = port_e9 t @ s"
proof -
  from assms(2) have len: "length s < length str" unfolding s_def by (induction str) auto
  then have "str ! length s = 0" using nth_length_takeWhile [of "\<lambda>c. c \<noteq> 0" str] by (simp add: s_def)
  moreover have "\<forall>j < length s. str ! (0 + j) = s ! j \<and> s ! j \<noteq> 0"
    using takeWhile_nth [of _ "\<lambda>c. c \<noteq> 0" str] nth_mem [of _ s] set_takeWhileD by (fastforce simp: s_def)
  ultimately show ?thesis using printk_rounds [OF assms(1), of 0 s str] len by (simp add: printk_io_def)
qed

end
