(* ===== verification/Sys_Process.thy ===== *)
theory Sys_Process
  imports Kernel_Events
begin

text \<open>
  The system calls on processes (zeos_full/sys.c from line 358): \<open>sys_getpid\<close>, \<open>sys_fork\<close>,
  \<open>sys_exit\<close>, \<open>sys_getstats\<close>, \<open>sys_clone\<close> and the wrappers of the semaphores.

  A user page is accessed through the page table of the running process: \<open>frame_mem\<close> holds
  what the frames hold. The stack of a child (the return address \<open>ret_from_fork\<close>, the stack and
  the function of a thread) is in \<open>Kernel_Tasks\<close>; here a child that runs for the first time
  answers \<open>ret_from_fork\<close>.
\<close>

section \<open>Code\<close>

definition ENOMEM :: int where "ENOMEM = 12"

definition sys_getpid :: "kernel \<Rightarrow> int res" where
  "sys_getpid k = bind (get_task k (cur k)) (\<lambda>t. Ok (PID t))"

definition ret_from_fork :: int where "ret_from_fork = 0"

text \<open>
  \<open>copy_data( current(), child, sizeof(union task_union) )\<close>: the whole PCB, its list anchor included.
\<close>

definition copy_PCB :: "nat \<Rightarrow> kernel \<Rightarrow> kernel res" where
  "copy_PCB child k =
     bind (get_task k (cur k)) (\<lambda>t.
     bind (set_task child (\<lambda>_. t) k) (\<lambda>k.
     let h = links k in
     Ok (k\<lparr>links := h\<lparr>nxt := (nxt h)(Task child := nxt h (Task (cur k))), prv := (prv h)(Task child := prv h (Task (cur k)))\<rparr>\<rparr>)))"

text \<open>
  The loop that fills \<open>v\<close>; when a frame is missing it gives those it has back and answers \<open>Inr\<close>.
\<close>

definition take_frames :: "kernel \<Rightarrow> ((int list \<times> kernel) + kernel) res" where
  "take_frames = (\<lambda>k. for_each [0..<NUM_PAG_DATA] (\<lambda>i (v, k).
     bind (alloc_frame k) (\<lambda>(f, k).
     if f < 0 then
       bind (for_each [0..<i] (\<lambda>j k. bind (free_frame (word_of_int (v ! j)) k) (\<lambda>k. Ok (Inl k))) k) (\<lambda>r.
       Ok (Inr (case r of Inl k \<Rightarrow> k | Inr k \<Rightarrow> k)))
     else Ok (Inl (v @ [f], k)))) ([], k))"

text \<open>\<open>ptChild[i].entry = ptFather[i].entry\<close>\<close>

definition share_page :: "nat \<Rightarrow> nat \<Rightarrow> nat \<Rightarrow> kernel \<Rightarrow> (kernel + kernel) res" where
  "share_page ptChild ptFather i k = bind (get_pte ptFather i k) (\<lambda>e. bind (set_pte ptChild i e k) (\<lambda>k. Ok (Inl k)))"

text \<open>
  \<open>copy_data\<close> of a whole page from page \<open>src\<close> to page \<open>dst\<close> of the running process; a page that
  is not present is a page fault.
\<close>

definition copy_page :: "nat \<Rightarrow> nat \<Rightarrow> nat \<Rightarrow> kernel \<Rightarrow> kernel res" where
  "copy_page pt src dst k =
     bind (get_pte pt src k) (\<lambda>s. bind (get_pte pt dst k) (\<lambda>d.
     if pte_present s \<and> pte_present d
     then Ok (k\<lparr>frame_mem := (frame_mem k)(unat (pbase_addr d) := frame_mem k (unat (pbase_addr s)))\<rparr>)
     else Fault OutOfBounds))"

definition inherit_page :: "nat \<Rightarrow> nat \<Rightarrow> int list \<Rightarrow> nat \<Rightarrow> kernel \<Rightarrow> (kernel + kernel) res" where
  "inherit_page ptChild ptFather v i k =
     bind (aget v (i - NUM_PAG_KERNEL - NUM_PAG_CODE)) (\<lambda>f.
     bind (set_ss_pag ptChild i (word_of_int f) k) (\<lambda>k.
     bind (set_ss_pag ptFather (i + NUM_PAG_DATA) (word_of_int f) k) (\<lambda>k.
     bind (copy_page ptFather i (i + NUM_PAG_DATA) k) (\<lambda>k.
     bind (del_ss_pag ptFather (i + NUM_PAG_DATA) k) (\<lambda>k. Ok (Inl k))))))"

definition last_state :: "('s + 's) \<Rightarrow> 's" where
  "last_state r = (case r of Inl s \<Rightarrow> s | Inr s \<Rightarrow> s)"

definition inherit_space :: "nat \<Rightarrow> int list \<Rightarrow> kernel \<Rightarrow> kernel res" where
  "inherit_space child v k =
     bind (allocate_DIR child k) (\<lambda>(_, k).
     bind (get_PT child k) (\<lambda>ptChild.
     bind (get_PT (cur k) k) (\<lambda>ptFather.
     bind (for_each [0..<NUM_PAG_KERNEL] (share_page ptChild ptFather) k) (\<lambda>r.
     bind (for_each [NUM_PAG_KERNEL..<NUM_PAG_KERNEL + NUM_PAG_CODE] (share_page ptChild ptFather) (last_state r)) (\<lambda>r.
     bind (for_each [NUM_PAG_KERNEL + NUM_PAG_CODE..<NUM_PAG_KERNEL + NUM_PAG_CODE + NUM_PAG_DATA]
        (inherit_page ptChild ptFather v) (last_state r)) (\<lambda>r.
     bind (get_DIR (cur k) (last_state r)) (\<lambda>d. Ok ((last_state r)\<lparr>cr3 := d\<rparr>))))))))"

text \<open>\<open>child->PID = ++PID; init_stats(&child->stats); list_add_tail( &child->list, &readyqueue )\<close>\<close>

definition start_child :: "nat \<Rightarrow> kernel \<Rightarrow> kernel res" where
  "start_child child k =
     bind (set_task child (\<lambda>t. t\<lparr>PID := sint (next_PID k + 1)\<rparr>) (k\<lparr>next_PID := next_PID k + 1\<rparr>)) (\<lambda>k.
     bind (init_stats child k) (\<lambda>k.
     on_lists (list_add_tail (Task child) Ready_Queue) k))"

definition sys_fork :: "kernel \<Rightarrow> (int \<times> kernel) res" where
  "sys_fork k =
     bind (list_empty (links k) Free_Queue) (\<lambda>e. if e then Ok (-ENOMEM, k) else
     bind (list_first (links k) Free_Queue) (\<lambda>l.
     bind (list_head_to_task_struct l) (\<lambda>child.
     bind (take_frames k) (\<lambda>r. case r of
       Inr k \<Rightarrow> Ok (-ENOMEM, k)
     | Inl (v, k) \<Rightarrow>
         bind (on_lists (list_del l) k) (\<lambda>k.
         bind (copy_PCB child k) (\<lambda>k.
         bind (inherit_space child v k) (\<lambda>k.
         bind (start_child child k) (\<lambda>k. Ok (sint (next_PID k), k)))))))))"

text \<open>The index of the directory of a task; \<open>None\<close> is the null pointer.\<close>

definition find_dir_usage :: "nat \<Rightarrow> kernel \<Rightarrow> nat option res" where
  "find_dir_usage t k =
     bind (get_task k t) (\<lambda>t.
     bind (for_each [0..<NR_TASKS] (\<lambda>i _. Ok (if dir_pages_baseAddr t = Some i then Inr i else Inl ())) ()) (\<lambda>r.
     Ok (case r of Inr i \<Rightarrow> Some i | Inl _ \<Rightarrow> None)))"

text \<open>\<open>*dir = *dir + n\<close>, and the new value\<close>

definition add_dir_usage :: "nat option \<Rightarrow> int \<Rightarrow> kernel \<Rightarrow> (int \<times> kernel) res" where
  "add_dir_usage dir n k = (case dir of
     None \<Rightarrow> Fault NullPointer
   | Some d \<Rightarrow> bind (aget (dir_usage k) d) (\<lambda>u. bind (aput (dir_usage k) d (u + n)) (\<lambda>us. Ok (u + n, k\<lparr>dir_usage := us\<rparr>))))"

definition sys_exit :: "kernel \<Rightarrow> kernel res" where
  "sys_exit k =
     bind (find_dir_usage (cur k) k) (\<lambda>dir.
     bind (add_dir_usage dir (-1) k) (\<lambda>(u, k).
     bind (if u = 0 then free_user_pages (cur k) k else Ok k) (\<lambda>k.
     bind (get_task k (cur k)) (\<lambda>t.
     bind (destroy_owned_sems (PID t) k) (\<lambda>k.
     bind (set_task (cur k) (\<lambda>t. t\<lparr>PID := -1\<rparr>) k) (\<lambda>k.
     bind (update_process_state_rr (cur k) Free_Queue k) sched_next_rr))))))"

text \<open>\<open>sizeof(struct stats)\<close> is 28; what is copied to the user is the second result.\<close>

definition sys_getstats :: "int \<Rightarrow> dword \<Rightarrow> kernel \<Rightarrow> (int \<times> stats option \<times> kernel) res" where
  "sys_getstats pid s k =
     (if pid < 0 then Ok (-1, None, k)
      else if s = 0 then Ok (-EFAULT, None, k)
      else if access_ok VERIFY_WRITE s 28 = 0 then Ok (-EFAULT, None, k)
      else bind (for_each [0..<NR_TASKS] (\<lambda>i k. bind (get_task k i) (\<lambda>t.
          if PID t = pid then
            bind (finishSystemTime i k) (\<lambda>k.
            bind (get_task k i) (\<lambda>t.
            let st = stats t; tmp = remaining_ticks st;
                out = st\<lparr>elapsed_total_ticks := elapsed_total_ticks st - tmp, remaining_ticks := word_of_int (quantum_left k)\<rparr> in
            bind (set_task i (\<lambda>t. t\<lparr>stats := out\<lparr>remaining_ticks := tmp\<rparr>\<rparr>) k) (\<lambda>k. Ok (Inr (out, k)))))
          else Ok (Inl k))) k) (\<lambda>r.
        Ok (case r of Inr (out, k) \<Rightarrow> (0, Some out, k) | Inl k \<Rightarrow> (-1, None, k))))"

definition sys_clone :: "dword \<Rightarrow> dword \<Rightarrow> kernel \<Rightarrow> (int \<times> kernel) res" where
  "sys_clone func stack k =
     (if func = 0 then Ok (-EFAULT, k)
      else if stack = 0 then Ok (-EFAULT, k)
      else if access_ok VERIFY_READ func 4 = 0 then Ok (-EFAULT, k)
      else if access_ok VERIFY_WRITE stack 4 = 0 then Ok (-EFAULT, k)
      else
        bind (list_empty (links k) Free_Queue) (\<lambda>e. if e then Ok (-ENOMEM, k) else
        bind (list_first (links k) Free_Queue) (\<lambda>l.
        bind (on_lists (list_del l) k) (\<lambda>k.
        bind (list_head_to_task_struct l) (\<lambda>child.
        bind (copy_PCB child k) (\<lambda>k.
        bind (find_dir_usage child k) (\<lambda>dir.
        bind (add_dir_usage dir 1 k) (\<lambda>(_, k).
        bind (start_child child k) (\<lambda>k.
        bind (get_task k child) (\<lambda>t. Ok (PID t, k)))))))))))"

definition sys_sem_init :: "int \<Rightarrow> dword \<Rightarrow> kernel \<Rightarrow> (int \<times> kernel) res" where
  "sys_sem_init n_sem val = sem_init n_sem val"
definition sys_sem_wait :: "int \<Rightarrow> kernel \<Rightarrow> ((int + nat) \<times> kernel) res" where
  "sys_sem_wait n_sem = sem_wait n_sem"
definition sys_sem_signal :: "int \<Rightarrow> kernel \<Rightarrow> (int \<times> kernel) res" where
  "sys_sem_signal n_sem = sem_signal n_sem"
definition sys_sem_destroy :: "int \<Rightarrow> kernel \<Rightarrow> (int \<times> kernel) res" where
  "sys_sem_destroy n_sem = sem_destroy n_sem"

end
