(* ===== verification/Kernel_Spaces.thy ===== *)
theory Kernel_Spaces
  imports Sys_Process
begin

text \<open>
  The address spaces of the processes and the invariant of the whole kernel, \<open>sound\<close>: the queues are
  consistent, every process has a page directory whose usage is counted right, and the data pages
  of the user processes are present, on frames that are in use and all different. The lemmas are on
  the parts of \<open>sys_fork\<close>, \<open>sys_clone\<close> and \<open>sys_exit\<close>: taking frames, copying a PCB, sharing and
  copying pages, joining the ready queue.
\<close>

section \<open>The PCB and the directory of a child\<close>

lemma holds_copied_anchor:
  assumes "holds_lists h Q" and "free_node Q x"
  shows "holds_lists (h\<lparr>nxt := (nxt h)(x := NULL), prv := (prv h)(x := v)\<rparr>) Q"
proof -
  have "nxt h x = NULL" using holdsD(3) [OF assms(1)] assms(2) by simp
  then have nxt: "(nxt h)(x := NULL) = nxt h" by auto
  have "is_list (h\<lparr>prv := (prv h)(x := v)\<rparr>) q xs" if "Q q = Some xs" for q xs
    by (rule is_list_frame [OF holdsD(2) [OF assms(1) that]]) (use holds_not_in [OF assms(1) that assms(2)] in auto)
  moreover have "separate Q" "free_node Q NULL" "\<forall>x. free_node Q x \<longleftrightarrow> nxt h x = NULL"
    using holdsD [OF assms(1)] by auto
  ultimately show ?thesis unfolding nxt holds_lists_def by simp
qed

lemma copy_PCB_Ok:
  assumes "child < length (task k)" and "cur k < length (task k)" and "nxt (links k) (Task (cur k)) = NULL"
  shows "copy_PCB child k = Ok (k\<lparr>task := (task k)[child := task k ! cur k],
    links := (links k)\<lparr>nxt := (nxt (links k))(Task child := NULL), prv := (prv (links k))(Task child := prv (links k) (Task (cur k)))\<rparr>\<rparr>)"
  using assms by (simp add: copy_PCB_def get_task_Ok set_task_Ok Let_def)

lemma allocate_DIR_finds:
  assumes "length (dir_usage k) = NR_TASKS" and "t < length (task k)" and "\<exists>d < NR_TASKS. dir_usage k ! d = 0"
  shows "\<exists>d < NR_TASKS. dir_usage k ! d = 0 \<and> allocate_DIR t k = Ok (int d,
    k\<lparr>dir_usage := (dir_usage k)[d := 1], task := (task k)[t := (task k ! t)\<lparr>dir_pages_baseAddr := Some d\<rparr>]\<rparr>)"
proof -
  have "find (\<lambda>i. dir_usage k ! i = 0) [0..<NR_TASKS] \<noteq> None" using assms(3) by (auto simp: find_None_iff)
  then obtain d where d: "find (\<lambda>i. dir_usage k ! i = 0) [0..<NR_TASKS] = Some d" by auto
  then have range: "d < NR_TASKS" "dir_usage k ! d = 0" by (auto simp: find_Some_iff)
  have "for_each [0..<NR_TASKS] (\<lambda>i _. bind (aget (dir_usage k) i) (\<lambda>u. Ok (if u = 0 then Inr i else Inl ()))) () = Ok (Inr d)"
    using find_rounds [of "[0..<NR_TASKS]" "dir_usage k" "\<lambda>u. u = 0"] assms(1) d by simp
  with range assms show ?thesis by (intro exI [of _ d]) (simp add: allocate_DIR_def set_task_Ok)
qed

section \<open>Frames for a child\<close>

text \<open>\<open>kept_frames k m\<close>: the map \<open>m\<close> differs from that of \<open>k\<close> only in frames that are free there.\<close>

definition kept_frames :: "kernel \<Rightarrow> byte list \<Rightarrow> bool" where
  "kept_frames k m \<longleftrightarrow> length m = TOTAL_PAGES \<and> (\<forall>i. i \<notin> set (allocatable k) \<longrightarrow> m ! i = phys_mem k ! i)"

lemma free_rounds:
  assumes "kept_frames k m" and "\<And>j. j < n \<Longrightarrow> unat (f j) \<in> set (allocatable k)"
  shows "\<exists>m'. for_each [0..<n] (\<lambda>j k. bind (free_frame (f j) k) (\<lambda>k. Ok (Inl k))) (k\<lparr>phys_mem := m\<rparr>) =
      (Ok (Inl (k\<lparr>phys_mem := m'\<rparr>)) :: (kernel + kernel) res) \<and> kept_frames k m'"
proof -
  let ?body = "\<lambda>j k. bind (free_frame (f j) k) (\<lambda>k. Ok (Inl k))"
  have "\<exists>t. for_each [0..<n] ?body (k\<lparr>phys_mem := m\<rparr>) = (Ok (Inl t) :: (kernel + kernel) res) \<and> (\<exists>m. t = k\<lparr>phys_mem := m\<rparr> \<and> kept_frames k m)"
  proof (rule for_upto_rule [where I = "\<lambda>_ t. \<exists>m. t = k\<lparr>phys_mem := m\<rparr> \<and> kept_frames k m"])
    show "\<exists>m'. k\<lparr>phys_mem := m\<rparr> = k\<lparr>phys_mem := m'\<rparr> \<and> kept_frames k m'" using assms(1) by blast
  next
    fix i t assume i: "i < n" and "\<exists>m. t = k\<lparr>phys_mem := m\<rparr> \<and> kept_frames k m"
    then obtain m where m: "t = k\<lparr>phys_mem := m\<rparr>" "kept_frames k m" by blast
    then have "length (phys_mem t) = TOTAL_PAGES" by (simp add: kept_frames_def)
    from free_frame_frees [OF this, of "f i"] m(1)
    have "free_frame (f i) t = Ok (k\<lparr>phys_mem := m\<rparr>) \<or> free_frame (f i) t = Ok (k\<lparr>phys_mem := m[unat (f i) := FREE_FRAME]\<rparr>)" by auto
    moreover have "kept_frames k (m[unat (f i) := FREE_FRAME])"
      using m(2) assms(2) [OF i] unfolding kept_frames_def by (metis length_list_update nth_list_update_neq)
    ultimately show "\<exists>s'. ?body i t = (Ok (Inl s') :: (kernel + kernel) res) \<and> (\<exists>m. s' = k\<lparr>phys_mem := m\<rparr> \<and> kept_frames k m)"
      using m(2) by auto
  qed
  then show ?thesis by auto
qed

lemma take_frames_cases:
  assumes "length (phys_mem k) = TOTAL_PAGES"
  shows "(\<exists>m. NUM_PAG_DATA \<le> length (allocatable k) \<and> take_frames k = Ok (Inl (map int (take NUM_PAG_DATA (allocatable k)), k\<lparr>phys_mem := m\<rparr>)) \<and>
      kept_frames k m \<and> (\<forall>i \<in> set (take NUM_PAG_DATA (allocatable k)). m ! i = USED_FRAME))
    \<or> (\<exists>m. length (allocatable k) < NUM_PAG_DATA \<and> take_frames k = Ok (Inr (k\<lparr>phys_mem := m\<rparr>)) \<and> kept_frames k m)"
proof -
  let ?al = "allocatable k"
  define body where "body = (\<lambda>i (v, k). bind (alloc_frame k) (\<lambda>(f, k).
     if f < 0 then
       bind (for_each [0..<i] (\<lambda>j k. bind (free_frame (word_of_int (v ! j)) k) (\<lambda>k. Ok (Inl k))) k) (\<lambda>r.
       Ok (Inr (case r of Inl k \<Rightarrow> k | Inr k \<Rightarrow> k)) :: ((int list \<times> kernel) + kernel) res)
     else Ok (Inl (v @ [f], k))))"
  define I where "I = (\<lambda>i (v, k'). i \<le> length ?al \<and> v = map int (take i ?al) \<and>
     (\<exists>m. k' = k\<lparr>phys_mem := m\<rparr> \<and> kept_frames k m \<and> allocatable k' = drop i ?al \<and> (\<forall>i \<in> set (take i ?al). m ! i = USED_FRAME)))"
  define R where "R = (\<lambda>k'. length ?al < NUM_PAG_DATA \<and> (\<exists>m. k' = k\<lparr>phys_mem := m\<rparr> \<and> kept_frames k m))"
  have "(\<exists>t. for_each [0..<NUM_PAG_DATA] body ([], k) = Ok (Inl t) \<and> I NUM_PAG_DATA t)
    \<or> (\<exists>x. for_each [0..<NUM_PAG_DATA] body ([], k) = Ok (Inr x) \<and> R x)"
  proof (rule for_upto_or_return)
    show "I 0 ([], k)" using assms by (auto simp: I_def kept_frames_def intro!: exI [of _ "phys_mem k"])
  next
    fix i st assume i: "i < NUM_PAG_DATA" and "I i st"
    then obtain m where st: "st = (map int (take i ?al), k\<lparr>phys_mem := m\<rparr>)" and m: "kept_frames k m" "\<forall>i \<in> set (take i ?al). m ! i = USED_FRAME"
      and al: "i \<le> length ?al" "allocatable (k\<lparr>phys_mem := m\<rparr>) = drop i ?al" by (cases st) (auto simp: I_def)
    let ?k = "k\<lparr>phys_mem := m\<rparr>"
    have len: "length (phys_mem ?k) = TOTAL_PAGES" using m(1) by (simp add: kept_frames_def)
    show "(\<exists>s'. body i st = Ok (Inl s') \<and> I (Suc i) s') \<or> (\<exists>x. body i st = Ok (Inr x) \<and> R x)"
    proof (cases "i < length ?al")
      case True
      let ?m = "m[?al ! i := USED_FRAME]"
      have mem: "?al ! i \<in> set ?al" using True by simp
      then have "?al ! i < TOTAL_PAGES" using allocatable_mem by blast
      then have "?m ! f = USED_FRAME" if "f \<in> set (take (Suc i) ?al)" for f
        using that m(2) len True by (cases "f = ?al ! i") (auto simp: take_Suc_conv_app_nth)
      moreover have "kept_frames k ?m" using m(1) mem unfolding kept_frames_def by (metis length_list_update nth_list_update_neq)
      moreover have "allocatable ?k = ?al ! i # drop (Suc i) ?al" using True unfolding al(2) by (simp add: Cons_nth_drop_Suc)
      from alloc_frame_next [OF len this] allocatable_after [OF this len]
      have "body i st = Ok (Inl (map int (take (Suc i) ?al), k\<lparr>phys_mem := ?m\<rparr>))" "allocatable (k\<lparr>phys_mem := ?m\<rparr>) = drop (Suc i) ?al"
        using True by (simp_all add: body_def st take_Suc_conv_app_nth)
      ultimately show ?thesis using True by (auto simp: I_def)
    next
      case False
      then have "allocatable ?k = []" using al by simp
      then have none: "alloc_frame ?k = Ok (-1, ?k)" using alloc_frame_first [OF len] by simp
      have "unat (word_of_int (map int (take i ?al) ! j) :: dword) \<in> set ?al" if "j < i" for j
      proof -
        have "?al ! j \<in> set ?al" using that False al(1) by simp
        moreover from this have "?al ! j < TOTAL_PAGES" using allocatable_mem by blast
        then have "unat (of_nat (?al ! j) :: dword) = ?al ! j" by (simp add: unat_of_nat kernel_sizes)
        ultimately show ?thesis using that al(1) by simp
      qed
      from free_rounds [OF m(1), of i "\<lambda>j. word_of_int (map int (take i ?al) ! j)", OF this] none False al(1) i
      show ?thesis by (auto simp: body_def st R_def)
    qed
  qed
  moreover have "take_frames k = for_each [0..<NUM_PAG_DATA] body ([], k)" by (simp add: take_frames_def body_def)
  ultimately show ?thesis by (auto simp: I_def R_def)
qed

section \<open>Page tables\<close>

lemma share_pages:
  assumes "c < length (pagusr_table k)" and "f < length (pagusr_table k)" and "c \<noteq> f"
    and "length (pagusr_table k ! c) = TOTAL_PAGES" and "length (pagusr_table k ! f) = TOTAL_PAGES" and "a + n \<le> TOTAL_PAGES"
  shows "\<exists>tab. for_each [a..<a + n] (share_page c f) k = Ok (Inl (k\<lparr>pagusr_table := (pagusr_table k)[c := tab]\<rparr>)) \<and> length tab = TOTAL_PAGES \<and>
    (\<forall>p < TOTAL_PAGES. tab ! p = (if a \<le> p \<and> p < a + n then pagusr_table k ! f ! p else pagusr_table k ! c ! p))"
proof -
  define I where "I = (\<lambda>i k'. \<exists>tab. k' = k\<lparr>pagusr_table := (pagusr_table k)[c := tab]\<rparr> \<and> length tab = TOTAL_PAGES \<and>
    (\<forall>p < TOTAL_PAGES. tab ! p = (if a \<le> p \<and> p < a + i then pagusr_table k ! f ! p else pagusr_table k ! c ! p)))"
  have "\<exists>t. for_each [a..<a + n] (share_page c f) k = Ok (Inl t) \<and> I n t"
  proof (rule for_range_rule)
    show "I 0 k" unfolding I_def using assms(4) by (intro exI [of _ "pagusr_table k ! c"]) auto
  next
    fix i k' assume i: "i < n" and "I i k'"
    then obtain tab where k': "k' = k\<lparr>pagusr_table := (pagusr_table k)[c := tab]\<rparr>" and tab: "length tab = TOTAL_PAGES"
      "\<forall>p < TOTAL_PAGES. tab ! p = (if a \<le> p \<and> p < a + i then pagusr_table k ! f ! p else pagusr_table k ! c ! p)" by (auto simp: I_def)
    let ?tab = "tab[a + i := pagusr_table k ! f ! (a + i)]"
    have "share_page c f (a + i) k' = Ok (Inl (k\<lparr>pagusr_table := (pagusr_table k)[c := ?tab]\<rparr>))"
      using assms i tab(1) by (simp add: share_page_def k' get_pte_Ok set_pte_Ok)
    moreover have "I (Suc i) (k\<lparr>pagusr_table := (pagusr_table k)[c := ?tab]\<rparr>)"
      unfolding I_def using tab i assms(6) by (intro exI [of _ ?tab]) (auto simp: nth_list_update)
    ultimately show "\<exists>s'. share_page c f (a + i) k' = Ok (Inl s') \<and> I (Suc i) s'" by blast
  qed
  then show ?thesis by (auto simp: I_def)
qed

text \<open>
  The loop over the data pages: the child's pages are mapped to the new frames, writable, and
  the temporary entries of the father are cleared; \<open>copied_frames\<close> is what the copies do to memory.
\<close>

fun copied_frames :: "(nat \<times> nat) list \<Rightarrow> (nat \<Rightarrow> byte list) \<Rightarrow> nat \<Rightarrow> byte list" where
  "copied_frames [] m = m"
| "copied_frames ((src, dst) # ps) m = copied_frames ps (m(dst := m src))"

lemma copied_frames_append: "copied_frames (ps @ [(src, dst)]) m = (copied_frames ps m)(dst := copied_frames ps m src)"
  by (induction ps m rule: copied_frames.induct) (simp_all del: fun_upd_apply)

lemma inherit_pages:
  assumes "c < length (pagusr_table k)" and "f < length (pagusr_table k)" and "c \<noteq> f"
    and "length (pagusr_table k ! c) = TOTAL_PAGES" and "length (pagusr_table k ! f) = TOTAL_PAGES"
    and mapped: "\<forall>j < NUM_PAG_DATA. pte_present (pagusr_table k ! f ! (PAG_LOG_INIT_DATA + j))"
    and v: "length v = NUM_PAG_DATA" "\<forall>j < NUM_PAG_DATA. v ! j < 2 ^ 20"
  shows "\<exists>tc tf. for_each [NUM_PAG_KERNEL + NUM_PAG_CODE..<NUM_PAG_KERNEL + NUM_PAG_CODE + NUM_PAG_DATA] (inherit_page c f (map int v)) k =
      Ok (Inl (k\<lparr>pagusr_table := (pagusr_table k)[c := tc, f := tf],
        frame_mem := copied_frames (map (\<lambda>j. (unat (pbase_addr (pagusr_table k ! f ! (PAG_LOG_INIT_DATA + j))), v ! j)) [0..<NUM_PAG_DATA]) (frame_mem k)\<rparr>)) \<and>
    length tc = TOTAL_PAGES \<and> length tf = TOTAL_PAGES \<and>
    (\<forall>p < TOTAL_PAGES. tc ! p = (if PAG_LOG_INIT_DATA \<le> p \<and> p < PAG_LOG_INIT_DATA + NUM_PAG_DATA
        then pte (of_nat (v ! (p - PAG_LOG_INIT_DATA))) True True else pagusr_table k ! c ! p)) \<and>
    (\<forall>p < TOTAL_PAGES. tf ! p = (if PAG_LOG_INIT_DATA + NUM_PAG_DATA \<le> p \<and> p < PAG_LOG_INIT_DATA + NUM_PAG_DATA + NUM_PAG_DATA
        then 0 else pagusr_table k ! f ! p))"
proof -
  let ?a = "NUM_PAG_KERNEL + NUM_PAG_CODE" and ?n = "NUM_PAG_DATA"
  have a: "?a = PAG_LOG_INIT_DATA" by (simp add: kernel_sizes)
  have le: "?a + 2 * ?n \<le> TOTAL_PAGES" by (simp add: kernel_sizes)
  define src where "src = (\<lambda>j. unat (pbase_addr (pagusr_table k ! f ! (PAG_LOG_INIT_DATA + j))))"
  define I where "I = (\<lambda>i k'. \<exists>tc tf. k' = k\<lparr>pagusr_table := (pagusr_table k)[c := tc, f := tf],
        frame_mem := copied_frames (map (\<lambda>j. (src j, v ! j)) [0..<i]) (frame_mem k)\<rparr> \<and>
    length tc = TOTAL_PAGES \<and> length tf = TOTAL_PAGES \<and>
    (\<forall>p < TOTAL_PAGES. tc ! p = (if ?a \<le> p \<and> p < ?a + i then pte (of_nat (v ! (p - ?a))) True True else pagusr_table k ! c ! p)) \<and>
    (\<forall>p < TOTAL_PAGES. tf ! p = (if ?a + ?n \<le> p \<and> p < ?a + ?n + i then 0 else pagusr_table k ! f ! p)))"
  have "\<exists>t. for_each [?a..<?a + ?n] (inherit_page c f (map int v)) k = Ok (Inl t) \<and> I ?n t"
  proof (rule for_range_rule)
    show "I 0 k" unfolding I_def
      by (rule exI [of _ "pagusr_table k ! c"], rule exI [of _ "pagusr_table k ! f"], use assms(4,5) in auto)
  next
    fix i k' assume i: "i < ?n" and "I i k'"
    then obtain tc tf where k': "k' = k\<lparr>pagusr_table := (pagusr_table k)[c := tc, f := tf],
        frame_mem := copied_frames (map (\<lambda>j. (src j, v ! j)) [0..<i]) (frame_mem k)\<rparr>"
      and len: "length tc = TOTAL_PAGES" "length tf = TOTAL_PAGES"
      and tc: "\<forall>p < TOTAL_PAGES. tc ! p = (if ?a \<le> p \<and> p < ?a + i then pte (of_nat (v ! (p - ?a))) True True else pagusr_table k ! c ! p)"
      and tf: "\<forall>p < TOTAL_PAGES. tf ! p = (if ?a + ?n \<le> p \<and> p < ?a + ?n + i then 0 else pagusr_table k ! f ! p)" by (auto simp: I_def)
    let ?e = "pte (of_nat (v ! i)) True True"
    let ?tc = "tc[?a + i := ?e]" and ?tf = "tf[?a + i + ?n := 0]"
    let ?m = "copied_frames (map (\<lambda>j. (src j, v ! j)) [0..<Suc i]) (frame_mem k)"
    have p: "?a + i < TOTAL_PAGES" "?a + i + ?n < TOTAL_PAGES" "?a + i \<noteq> ?a + i + ?n" using i le by (simp_all add: kernel_sizes)
    have "tf ! (?a + i) = pagusr_table k ! f ! (?a + i)" using tf p(1) i by simp
    then have there: "pte_present (tf ! (?a + i))" "unat (pbase_addr (tf ! (?a + i))) = src i" using mapped i by (simp_all add: a src_def)
    have vi: "v ! i < 2 ^ 20" using v(2) i by simp
    then have "unat (of_nat (v ! i) :: dword) = v ! i" by (simp add: unat_of_nat)
    then have new: "unat (pbase_addr ?e) = v ! i" "pte_present ?e" using pte_fields(1) [of "of_nat (v ! i)"] vi by (simp_all add: pte_fields)
    have "inherit_page c f (map int v) (?a + i) k' = Ok (Inl (k\<lparr>pagusr_table := (pagusr_table k)[c := ?tc, f := ?tf], frame_mem := ?m\<rparr>))"
      using assms(1-3) len p i v(1) there new
      by (simp add: inherit_page_def set_ss_pag_def del_ss_pag_def copy_page_def k' get_pte_Ok set_pte_Ok copied_frames_append
          list_update_swap [of c f] add.commute [of i])
    moreover have "I (Suc i) (k\<lparr>pagusr_table := (pagusr_table k)[c := ?tc, f := ?tf], frame_mem := ?m\<rparr>)"
      unfolding I_def
    proof (rule exI [of _ ?tc], rule exI [of _ ?tf], intro conjI allI impI)
      fix q assume "q < TOTAL_PAGES"
      then show "?tc ! q = (if ?a \<le> q \<and> q < ?a + Suc i then pte (of_nat (v ! (q - ?a))) True True else pagusr_table k ! c ! q)"
        "?tf ! q = (if ?a + ?n \<le> q \<and> q < ?a + ?n + Suc i then 0 else pagusr_table k ! f ! q)"
        using tc tf len p by (auto simp: nth_list_update)
    qed (use len in simp_all)
    ultimately show "\<exists>s'. inherit_page c f (map int v) (?a + i) k' = Ok (Inl s') \<and> I (Suc i) s'" by blast
  qed
  then obtain t where t: "for_each [?a..<?a + ?n] (inherit_page c f (map int v)) k = Ok (Inl t)" "I ?n t" by blast
  show ?thesis using t(2) unfolding t(1) unfolding I_def src_def a by simp
qed

section \<open>The queues when a process is created\<close>

text \<open>The PCB taken from the free queue gets the (empty) anchor of the running process and joins the ready queue.\<close>

lemma birth:
  assumes "consistent T k Q" and "Q Free_Queue = Some (Task c # fs)" and "Q Ready_Queue = Some rs"
  defines "copied \<equiv> \<lambda>h. h\<lparr>nxt := (nxt h)(Task c := NULL), prv := (prv h)(Task c := prv h (Task (cur k)))\<rparr>"
  shows "\<exists>h h'. list_del (Task c) (links k) = Ok h \<and> nxt h (Task (cur k)) = NULL \<and> list_add_tail (Task c) Ready_Queue (copied h) = Ok h' \<and>
    (\<forall>k'. links k' = h' \<and> length (task k') = NR_TASKS \<and> cur k' = cur k \<and> idle_task k' = idle_task k \<and> semafors k' = semafors k \<longrightarrow>
      consistent T k' (Q(Free_Queue \<mapsto> fs, Ready_Queue \<mapsto> rs @ [Task c])))"
proof -
  let ?Q1 = "Q(Free_Queue \<mapsto> fs)" and ?Q2 = "Q(Free_Queue \<mapsto> fs, Ready_Queue \<mapsto> rs @ [Task c])"
  have c: "queues k Q" "queues0 k Q" "free_node Q (Task (cur k))" using assms(1) by (auto simp: consistent_def queues_def)
  note q = queues0D [OF c(2)]
  from lists.del_law [OF q(1), of Free_Queue "[]" "Task c" fs] assms(2) obtain h where
    h: "list_del (Task c) (links k) = Ok h" "holds_lists h ?Q1" by auto
  have keep: "free_node ?Q1 y" if "free_node Q y" for y
    using holds_not_in [OF q(1) assms(2) that] by (intro free_node_subset [OF that assms(2)]) simp
  have c1: "free_node ?Q1 (Task c)" using lists.removed_free [OF q(1), of Free_Queue "[]" "Task c" fs] assms(2) by simp
  have off: "nxt h (Task (cur k)) = NULL" using holdsD(3) [OF h(2)] keep [OF c(3)] by simp
  have ready: "?Q1 Ready_Queue = Some rs" using assms(3) by simp
  have "holds_lists (copied h) ?Q1" unfolding copied_def by (rule holds_copied_anchor [OF h(2) c1])
  from lists.add_tail_law [OF this ready _ c1] obtain h' where
    h': "list_add_tail (Task c) Ready_Queue (copied h) = Ok h'" "holds_lists h' ?Q2" by auto
  have range: "c < NR_TASKS" using q(6) [OF assms(2)] by auto
  have ne: "free_node ?Q2 y" if "free_node Q y" for y
    using holds_not_in [OF h(2) ready keep [OF that]] holds_not_in [OF q(1) assms(2) that]
    by (intro free_node_subset [OF keep [OF that] ready]) auto
  have "members ?Q1 = members Q - set (Task c # fs) \<union> set fs"
    by (rule members_upd [OF queues_separate [OF c(2)] assms(2)])
  moreover have "members ?Q2 = members ?Q1 - set rs \<union> set (rs @ [Task c])"
    by (rule members_upd [OF holdsD(1) [OF h(2)] ready])
  ultimately have "members ?Q2 = members Q - set (Task c # fs) \<union> set fs - set rs \<union> (set rs \<union> {Task c})"
    by (simp del: fun_upd_apply)
  also have "\<dots> = members Q"
    using separateD [OF queues_separate [OF c(2)] assms(2,3)] members_mem [of Q, OF assms(2)] members_mem [of Q, OF assms(3)] by auto
  finally have m: "members ?Q2 = members Q" .
  have "consistent T k' ?Q2"
    if k': "links k' = h'" "length (task k') = NR_TASKS" "cur k' = cur k" "idle_task k' = idle_task k" "semafors k' = semafors k" for k'
  proof (rule consistentI)
    show "queues k' ?Q2" unfolding queues_def queues0_def
      using k' h'(2) q(3,4) ne [OF q(5)] ne [OF c(3)] q(6,7) q(6) [OF assms(2)] q(6) [OF assms(3)] range by auto
    show "Ready_Queue \<in> dom ?Q2" by simp
    show "length (semafors k') = N_SEMAFORS" using assms(1) k' by (simp add: consistent_def)
    show "T = insert (Task (cur k')) (insert (Task (idle_task k')) (members ?Q2))"
      unfolding m k'(3,4) using assms(1) unfolding consistent_def by blast
    show "if 0 < sem_used (semafors k' ! s) then Sem_Queue s \<in> dom ?Q2 else ?Q2 (Sem_Queue s) = None \<or> ?Q2 (Sem_Queue s) = Some []"
      if "s < N_SEMAFORS" for s using assms(1) that unfolding consistent_def k'(5) by auto
  qed
  with h h' off show ?thesis by blast
qed

section \<open>Processes in the machine\<close>

text \<open>\<open>live Q\<close>: the tasks that are processes, \<open>sharing\<close>: those with page directory \<open>d\<close>.\<close>

definition live :: "(node \<rightharpoonup> node list) \<Rightarrow> nat set" where
  "live Q = {i. i < NR_TASKS \<and> Task i \<notin> set (the (Q Free_Queue))}"

definition dir_of :: "kernel \<Rightarrow> nat \<Rightarrow> nat option" where
  "dir_of k i = dir_pages_baseAddr (task k ! i)"

definition sharing :: "kernel \<Rightarrow> nat set \<Rightarrow> nat \<Rightarrow> nat set" where
  "sharing k L d = {i \<in> L. dir_of k i = Some d}"

definition data_frame :: "kernel \<Rightarrow> nat \<times> nat \<Rightarrow> nat" where
  "data_frame k = (\<lambda>(d, j). unat (pbase_addr (pagusr_table k ! d ! (PAG_LOG_INIT_DATA + j))))"

text \<open>The data pages of the user processes: the page \<open>j\<close> of directory \<open>d\<close>.\<close>

definition data_pages :: "kernel \<Rightarrow> nat set \<Rightarrow> (nat \<times> nat) set" where
  "data_pages k L = {d. \<exists>i \<in> L. i \<noteq> idle_task k \<and> dir_of k i = Some d} \<times> {..<NUM_PAG_DATA}"

definition tables :: "kernel \<Rightarrow> bool" where
  "tables k \<longleftrightarrow> length (dir_usage k) = NR_TASKS \<and> dir_pages k = map Some [0..<NR_TASKS] \<and> length (pagusr_table k) = NR_TASKS \<and>
     (\<forall>pt < NR_TASKS. length (pagusr_table k ! pt) = TOTAL_PAGES) \<and> length (phys_mem k) = TOTAL_PAGES"

text \<open>
  The address spaces: every process has a directory, the usage counts are right, and the data
  pages of the user processes are present, on frames that are in use and are all different.
\<close>

definition counted :: "kernel \<Rightarrow> nat set \<Rightarrow> bool" where
  "counted k L \<longleftrightarrow> (\<forall>i \<in> L. \<exists>d < NR_TASKS. dir_of k i = Some d) \<and> (\<forall>d < NR_TASKS. dir_usage k ! d = int (card (sharing k L d)))"

definition isolated :: "kernel \<Rightarrow> nat set \<Rightarrow> bool" where
  "isolated k L \<longleftrightarrow> inj_on (data_frame k) (data_pages k L) \<and>
     (\<forall>(d, j) \<in> data_pages k L. pte_present (pagusr_table k ! d ! (PAG_LOG_INIT_DATA + j)) \<and>
       data_frame k (d, j) < TOTAL_PAGES \<and> phys_mem k ! data_frame k (d, j) \<noteq> FREE_FRAME)"

definition sound :: "kernel \<Rightarrow> (node \<rightharpoonup> node list) \<Rightarrow> bool" where
  "sound k Q \<longleftrightarrow> consistent (Task ` {..<NR_TASKS}) k Q \<and> Free_Queue \<in> dom Q \<and> tables k \<and> counted k (live Q) \<and> isolated k (live Q)"

lemma sound_live:
  assumes "sound k Q"
  shows "cur k \<in> live Q" "idle_task k \<in> live Q"
proof -
  from assms obtain fs where Q: "queues k Q" "Q Free_Queue = Some fs" by (auto simp: sound_def consistent_def)
  then have "cur k < NR_TASKS" "idle_task k < NR_TASKS" "free_node Q (Task (cur k))" "free_node Q (Task (idle_task k))"
    by (auto simp: queues_def queues0_def)
  with Q(2) show "cur k \<in> live Q" "idle_task k \<in> live Q" by (auto simp: live_def free_node_def)
qed

lemma finite_live: "finite (live Q)" "card (live Q) \<le> NR_TASKS"
proof -
  have sub: "live Q \<subseteq> {..<NR_TASKS}" by (auto simp: live_def)
  then show "finite (live Q)" by (rule finite_subset) simp
  from card_mono [OF _ sub] show "card (live Q) \<le> NR_TASKS" by simp
qed

text \<open>The address spaces of a set of processes are decided by these fields.\<close>

lemma same_pages:
  assumes "\<And>i. i \<in> L \<Longrightarrow> dir_of k' i = dir_of k i" and "idle_task k' = idle_task k"
    and "pagusr_table k' = pagusr_table k" and "phys_mem k' = phys_mem k"
  shows "isolated k' L = isolated k L" and "dir_usage k' = dir_usage k \<Longrightarrow> counted k' L = counted k L"
proof -
  have "data_pages k' L = data_pages k L" using assms(1,2) by (auto simp: data_pages_def)
  moreover have "data_frame k' = data_frame k" using assms(3) by (simp add: data_frame_def)
  ultimately show "isolated k' L = isolated k L" using assms(3,4) by (simp add: isolated_def)
  have "sharing k' L = sharing k L" by (intro ext) (use assms(1) in \<open>auto simp: sharing_def\<close>)
  then show "counted k' L = counted k L" if "dir_usage k' = dir_usage k" using that assms(1) by (simp add: counted_def)
qed

definition other_processes :: "kernel \<Rightarrow> nat set \<Rightarrow> bool" where
  "other_processes k L \<longleftrightarrow> tables k \<and> counted k L \<and> isolated k L"

lemma others_same:
  assumes "other_processes k L" and "\<And>i. i \<in> L \<Longrightarrow> dir_of k' i = dir_of k i" and "idle_task k' = idle_task k" "dir_usage k' = dir_usage k"
    "phys_mem k' = phys_mem k" "pagusr_table k' = pagusr_table k" "dir_pages k' = dir_pages k"
  shows "other_processes k' L"
proof -
  from same_pages [of L k' k, OF assms(2,3,6,5)] assms(4) have "isolated k' L = isolated k L" "counted k' L = counted k L" by simp_all
  with assms show ?thesis unfolding other_processes_def tables_def by simp
qed

lemma same_spaces_others:
  assumes "other_processes k L" and "same_spaces k k'" and "L \<subseteq> {..<length (task k)}"
  shows "other_processes k' L"
  by (rule others_same [OF assms(1)]) (use assms(2,3) in \<open>auto simp: same_spaces_def same_queues_def dir_of_def\<close>)

text \<open>What changes none of the address spaces.\<close>

lemma same_spaces_sound:
  assumes "sound k Q" and "keeps (Task ` {..<NR_TASKS}) k Q k' Q'"
  shows "sound k' Q'"
proof -
  have s: "consistent (Task ` {..<NR_TASKS}) k' Q'" "Q' Free_Queue = Q Free_Queue" "same_spaces k k'"
    using assms(2) by (simp_all add: keeps_def)
  have "length (task k) = NR_TASKS" using assms(1) by (simp add: sound_def consistent_def queues_def queues0_def)
  then have "live Q \<subseteq> {..<length (task k)}" by (auto simp: live_def)
  moreover have "other_processes k (live Q)" using assms(1) by (simp add: sound_def other_processes_def)
  ultimately have "other_processes k' (live Q)" using same_spaces_others [OF _ s(3)] by blast
  moreover have "live Q' = live Q" using s(2) by (simp add: live_def)
  moreover have "Free_Queue \<in> dom Q'" using s(2) assms(1) by (auto simp: sound_def domIff)
  ultimately show ?thesis using s(1) by (simp add: sound_def other_processes_def)
qed

lemma counted_none:
  assumes "counted k L" and "finite L" and "d < NR_TASKS"
  shows "dir_usage k ! d = 0 \<longleftrightarrow> (\<forall>i \<in> L. dir_of k i \<noteq> Some d)"
proof -
  have "dir_usage k ! d = int (card (sharing k L d))" using assms by (simp add: counted_def)
  moreover have "finite (sharing k L d)" using assms(2) by (simp add: sharing_def)
  ultimately show ?thesis by (auto simp: sharing_def)
qed

text \<open>There are as many directories as processes, so a new process finds one.\<close>

lemma free_directory:
  assumes "counted k L" and "finite L" and "card L < NR_TASKS"
  shows "\<exists>d < NR_TASKS. dir_usage k ! d = 0"
proof (rule ccontr)
  assume "\<not> ?thesis"
  then have "{..<NR_TASKS} \<subseteq> (\<lambda>i. the (dir_of k i)) ` L" using counted_none [OF assms(1,2)] by force
  from card_mono [OF finite_imageI [OF assms(2)] this] card_image_le [OF assms(2), of "\<lambda>i. the (dir_of k i)"] assms(3)
  show False by simp
qed

lemma live_taken:
  assumes "separate Q" and "Q Free_Queue = Some (Task c # fs)" and "c < NR_TASKS"
  shows "live (Q(Free_Queue \<mapsto> fs, Ready_Queue \<mapsto> rs)) = insert c (live Q)" and "c \<notin> live Q" and "card (live Q) < NR_TASKS"
proof -
  have "Task c \<notin> set fs" using separate_distinct [OF assms(1,2)] by simp
  then show "live (Q(Free_Queue \<mapsto> fs, Ready_Queue \<mapsto> rs)) = insert c (live Q)" using assms(2,3) by (auto simp: live_def)
  show c: "c \<notin> live Q" using assms(2) by (simp add: live_def)
  have "live Q \<subset> {..<NR_TASKS}" using c assms(3) by (auto simp: live_def)
  from psubset_card_mono [OF _ this] show "card (live Q) < NR_TASKS" by simp
qed

text \<open>The frames of the data pages are not those the allocator hands out.\<close>

lemma data_frame_not_allocatable:
  assumes "isolated k L" and "x \<in> data_pages k L"
  shows "data_frame k x \<notin> set (allocatable k)"
  using assms by (cases x) (auto simp: isolated_def allocatable_mem)

lemma isolatedD:
  assumes "isolated k L" and "i \<in> L" and "i \<noteq> idle_task k" and "dir_of k i = Some d" and "j < NUM_PAG_DATA"
  shows "(d, j) \<in> data_pages k L" "pte_present (pagusr_table k ! d ! (PAG_LOG_INIT_DATA + j))"
proof -
  show "(d, j) \<in> data_pages k L" using assms by (auto simp: data_pages_def)
  then show "pte_present (pagusr_table k ! d ! (PAG_LOG_INIT_DATA + j))" using assms(1) by (auto simp: isolated_def)
qed

text \<open>Giving frames that the allocator hands out, or nothing, changes no page of a process.\<close>

lemma isolated_kept:
  assumes "isolated k L" and "kept_frames k m"
  shows "isolated (k\<lparr>phys_mem := m\<rparr>) L"
proof -
  have same: "data_pages (k\<lparr>phys_mem := m\<rparr>) L = data_pages k L" "data_frame (k\<lparr>phys_mem := m\<rparr>) = data_frame k"
    by (simp_all add: data_pages_def data_frame_def dir_of_def)
  have "m ! data_frame k x = phys_mem k ! data_frame k x" if "x \<in> data_pages k L" for x
    using data_frame_not_allocatable [OF assms(1) that] assms(2) unfolding kept_frames_def by blast
  with assms(1) show ?thesis unfolding isolated_def same by (auto simp: case_prod_beta)
qed

section \<open>The address space of a child\<close>

lemma child_counted:
  assumes k: "counted k L" "finite L" and c: "c \<notin> L" and d: "d < NR_TASKS" "dir_usage k ! d = 0" "length (dir_usage k) = NR_TASKS"
    and k': "\<And>i. i \<in> insert c L \<Longrightarrow> dir_of k' i = (if i = c then Some d else dir_of k i)" "dir_usage k' = (dir_usage k)[d := 1]"
  shows "counted k' (insert c L)"
proof -
  have none: "\<forall>i \<in> L. dir_of k i \<noteq> Some d" using counted_none [OF k d(1)] d(2) by simp
  have "sharing k' (insert c L) e = (if e = d then {c} else sharing k L e)" for e
    using none c k'(1) by (auto simp: sharing_def split: if_splits)
  moreover have "\<exists>e < NR_TASKS. dir_of k' i = Some e" if "i \<in> insert c L" for i
    using that k'(1) [OF that] k(1) d(1) by (auto simp: counted_def)
  ultimately show ?thesis using k(1) d by (auto simp: counted_def k'(2) nth_list_update)
qed

lemma child_isolated:
  assumes k: "isolated k L" "counted k L" "finite L" and c: "c \<notin> L" "idle_task k \<in> L" and d: "d < NR_TASKS" "dir_usage k ! d = 0"
    and v: "NUM_PAG_DATA \<le> length (allocatable k)"
    and m: "kept_frames k m" "\<forall>i \<in> set (take NUM_PAG_DATA (allocatable k)). m ! i = USED_FRAME"
    and k': "\<And>i. i \<in> insert c L \<Longrightarrow> dir_of k' i = (if i = c then Some d else dir_of k i)" "idle_task k' = idle_task k" "phys_mem k' = m"
    and new: "\<And>j. j < NUM_PAG_DATA \<Longrightarrow> pagusr_table k' ! d ! (PAG_LOG_INIT_DATA + j) = pte (of_nat (allocatable k ! j)) True True"
    and old: "\<And>e j. j < NUM_PAG_DATA \<Longrightarrow> e < NR_TASKS \<Longrightarrow> e \<noteq> d \<Longrightarrow>
      pagusr_table k' ! e ! (PAG_LOG_INIT_DATA + j) = pagusr_table k ! e ! (PAG_LOG_INIT_DATA + j)"
  shows "isolated k' (insert c L)"
proof -
  let ?al = "allocatable k"
  have none: "\<forall>i \<in> L. dir_of k i \<noteq> Some d" using counted_none [OF k(2,3) d(1)] d(2) by simp
  have pages: "data_pages k' (insert c L) = data_pages k L \<union> {d} \<times> {..<NUM_PAG_DATA}"
    using c k'(1,2) unfolding data_pages_def by force
  have same: "data_frame k' x = data_frame k x" "pte_present (pagusr_table k' ! fst x ! (PAG_LOG_INIT_DATA + snd x)) =
      pte_present (pagusr_table k ! fst x ! (PAG_LOG_INIT_DATA + snd x))" if "x \<in> data_pages k L" for x
  proof -
    from that obtain i where i: "i \<in> L" "dir_of k i = Some (fst x)" "snd x < NUM_PAG_DATA" by (auto simp: data_pages_def)
    then have "fst x \<noteq> d" "fst x < NR_TASKS" using none k(2) by (auto simp: counted_def)
    from old [OF i(3) this(2,1)] show "data_frame k' x = data_frame k x" "pte_present (pagusr_table k' ! fst x ! (PAG_LOG_INIT_DATA + snd x)) =
      pte_present (pagusr_table k ! fst x ! (PAG_LOG_INIT_DATA + snd x))" by (simp_all add: data_frame_def case_prod_beta)
  qed
  have al: "?al ! j \<in> set (take NUM_PAG_DATA ?al)" "?al ! j \<in> set ?al" "?al ! j < TOTAL_PAGES" if "j < NUM_PAG_DATA" for j
  proof -
    show "?al ! j \<in> set (take NUM_PAG_DATA ?al)" using that v by (auto simp: in_set_conv_nth intro!: exI [of _ j])
    then show "?al ! j \<in> set ?al" by (rule in_set_takeD)
    then show "?al ! j < TOTAL_PAGES" using allocatable_mem by blast
  qed
  have fresh: "data_frame k' (d, j) = ?al ! j" if "j < NUM_PAG_DATA" for j
  proof -
    have "unat (of_nat (?al ! j) :: dword) = ?al ! j" using al(3) [OF that] by (simp add: unat_of_nat kernel_sizes)
    then show ?thesis using new [OF that] al(3) [OF that] pte_fields(1) [of "of_nat (?al ! j)"] by (simp add: data_frame_def kernel_sizes)
  qed
  have apart: "data_frame k' (d, j) \<noteq> data_frame k' x" if "j < NUM_PAG_DATA" "x \<in> data_pages k L" for j x
    using fresh [OF that(1)] same(1) [OF that(2)] al(2) [OF that(1)] data_frame_not_allocatable [OF k(1) that(2)] by auto
  have "distinct ?al" by (simp add: allocatable_def distinct_candidates)
  then have "inj_on (data_frame k') ({d} \<times> {..<NUM_PAG_DATA})" using fresh v by (auto simp: inj_on_def nth_eq_iff_index_eq)
  moreover have "inj_on (data_frame k') (data_pages k L)"
    using k(1) same(1) unfolding isolated_def by (metis (no_types, lifting) inj_on_cong)
  ultimately have "inj_on (data_frame k') (data_pages k' (insert c L))"
    unfolding pages using apart unfolding inj_on_Un by (auto simp: image_iff) (metis (no_types, lifting))+
  moreover have "pte_present (pagusr_table k' ! fst x ! (PAG_LOG_INIT_DATA + snd x)) \<and> data_frame k' x < TOTAL_PAGES \<and> m ! data_frame k' x \<noteq> FREE_FRAME"
    if "x \<in> data_pages k' (insert c L)" for x
  proof (cases "x \<in> data_pages k L")
    case True
    have "m ! data_frame k x = phys_mem k ! data_frame k x"
      using data_frame_not_allocatable [OF k(1) True] m(1) unfolding kept_frames_def by blast
    with True same [OF True] k(1) show ?thesis by (auto simp: isolated_def case_prod_beta)
  next
    case False
    with that obtain j where x: "x = (d, j)" "j < NUM_PAG_DATA" unfolding pages by auto
    have "m ! (?al ! j) = USED_FRAME" using m(2) al(1) [OF x(2)] by blast
    then show ?thesis using fresh [OF x(2)] al(3) [OF x(2)] new [OF x(2)] by (simp add: x(1) pte_fields FREE_FRAME_def USED_FRAME_def)
  qed
  ultimately show ?thesis unfolding isolated_def k'(3) by (auto simp: case_prod_beta)
qed

end
