(* ===== verification/Kernel_Fork.thy ===== *)
theory Kernel_Fork
  imports Kernel_Spaces
begin

text \<open>
  \<open>sys_fork\<close> and \<open>sys_clone\<close>: what they answer, the address space the new process gets, and that
  they keep the invariant of the kernel.
\<close>

section \<open>The address space of a forked process\<close>

lemma get_PT_Ok:
  "i < length (task k) \<Longrightarrow> dir_of k i = Some d \<Longrightarrow> dir_pages k = map Some [0..<NR_TASKS] \<Longrightarrow> d < NR_TASKS \<Longrightarrow> get_PT i k = Ok d"
  by (simp add: get_PT_def get_task_Ok dir_of_def)

text \<open>\<open>inherit_space\<close>: kernel and code are shared, the data is copied to the new frames.\<close>

lemma inherit_space_Ok:
  assumes tab: "tables k" and len: "length (task k) = NR_TASKS" and c: "c < NR_TASKS" "cur k < NR_TASKS" "c \<noteq> cur k"
    and f: "dir_of k (cur k) = Some f" "f < NR_TASKS" "dir_usage k ! f \<noteq> 0" and free: "\<exists>d < NR_TASKS. dir_usage k ! d = 0"
    and mapped: "\<forall>j < NUM_PAG_DATA. pte_present (pagusr_table k ! f ! (PAG_LOG_INIT_DATA + j))"
    and v: "length v = NUM_PAG_DATA" "\<forall>j < NUM_PAG_DATA. v ! j < 2 ^ 20"
  shows "\<exists>d tc tf. inherit_space c (map int v) k = Ok (k\<lparr>dir_usage := (dir_usage k)[d := 1],
        task := (task k)[c := (task k ! c)\<lparr>dir_pages_baseAddr := Some d\<rparr>], pagusr_table := (pagusr_table k)[d := tc, f := tf],
        frame_mem := copied_frames (map (\<lambda>j. (data_frame k (f, j), v ! j)) [0..<NUM_PAG_DATA]) (frame_mem k), cr3 := Some f\<rparr>) \<and>
    d < NR_TASKS \<and> dir_usage k ! d = 0 \<and> length tc = TOTAL_PAGES \<and> length tf = TOTAL_PAGES \<and>
    (\<forall>p < PAG_LOG_INIT_DATA. tc ! p = pagusr_table k ! f ! p) \<and>
    (\<forall>j < NUM_PAG_DATA. tc ! (PAG_LOG_INIT_DATA + j) = pte (of_nat (v ! j)) True True) \<and>
    (\<forall>p < TOTAL_PAGES. p < PAG_LOG_INIT_DATA + NUM_PAG_DATA \<longrightarrow> tf ! p = pagusr_table k ! f ! p)"
proof -
  have t: "length (dir_usage k) = NR_TASKS" "dir_pages k = map Some [0..<NR_TASKS]" "length (pagusr_table k) = NR_TASKS"
    "\<And>pt. pt < NR_TASKS \<Longrightarrow> length (pagusr_table k ! pt) = TOTAL_PAGES" using tab by (simp_all add: tables_def)
  have le: "NUM_PAG_KERNEL + NUM_PAG_CODE \<le> TOTAL_PAGES" "NUM_PAG_KERNEL \<le> TOTAL_PAGES" "PAG_LOG_INIT_DATA + NUM_PAG_DATA \<le> TOTAL_PAGES"
    and a: "PAG_LOG_INIT_DATA = NUM_PAG_KERNEL + NUM_PAG_CODE" by (simp_all add: kernel_sizes)
  from allocate_DIR_finds [OF t(1) _ free, of c] c len obtain d where d: "d < NR_TASKS" "dir_usage k ! d = 0" and
    alloc: "allocate_DIR c k = Ok (int d, k\<lparr>dir_usage := (dir_usage k)[d := 1], task := (task k)[c := (task k ! c)\<lparr>dir_pages_baseAddr := Some d\<rparr>]\<rparr>)"
    by auto
  have ne: "d \<noteq> f" using d(2) f(3) by auto
  define k1 where "k1 = k\<lparr>dir_usage := (dir_usage k)[d := 1], task := (task k)[c := (task k ! c)\<lparr>dir_pages_baseAddr := Some d\<rparr>]\<rparr>"
  have k1: "pagusr_table k1 = pagusr_table k" "cur k1 = cur k" "frame_mem k1 = frame_mem k" by (simp_all add: k1_def)
  have pt: "get_PT c k1 = Ok d" "get_PT (cur k) k1 = Ok f"
    using c len t(2) d(1) f by (auto intro!: get_PT_Ok simp: k1_def dir_of_def)
  from share_pages [of d k1 f 0 NUM_PAG_KERNEL] t d(1) f(2) ne le obtain t1 where
    t1: "for_each [0..<NUM_PAG_KERNEL] (share_page d f) k1 = Ok (Inl (k1\<lparr>pagusr_table := (pagusr_table k)[d := t1]\<rparr>))" "length t1 = TOTAL_PAGES"
      "\<And>p. p < NUM_PAG_KERNEL \<Longrightarrow> t1 ! p = pagusr_table k ! f ! p" by (auto simp: k1)
  define k2 where "k2 = k1\<lparr>pagusr_table := (pagusr_table k)[d := t1]\<rparr>"
  have "length (pagusr_table k2 ! d) = TOTAL_PAGES" "length (pagusr_table k2 ! f) = TOTAL_PAGES" "length (pagusr_table k2) = NR_TASKS"
    using t d(1) f(2) ne t1(2) by (simp_all add: k2_def)
  from share_pages [of d k2 f NUM_PAG_KERNEL NUM_PAG_CODE, OF _ _ ne this(1,2) le(1)] this(3) d(1) f(2) obtain t2 where
    t2: "for_each [NUM_PAG_KERNEL..<NUM_PAG_KERNEL + NUM_PAG_CODE] (share_page d f) k2 = Ok (Inl (k2\<lparr>pagusr_table := (pagusr_table k2)[d := t2]\<rparr>))"
      "length t2 = TOTAL_PAGES"
      "\<forall>p < TOTAL_PAGES. t2 ! p = (if NUM_PAG_KERNEL \<le> p \<and> p < NUM_PAG_KERNEL + NUM_PAG_CODE then pagusr_table k2 ! f ! p else pagusr_table k2 ! d ! p)"
    by auto
  have t2': "t2 ! p = pagusr_table k ! f ! p" if "p < PAG_LOG_INIT_DATA" for p
    using that t2(3) t1(3) [of p] le(1) d(1) ne t(3) by (simp add: k2_def a)
  define k3 where "k3 = k2\<lparr>pagusr_table := (pagusr_table k2)[d := t2]\<rparr>"
  have k3: "pagusr_table k3 = (pagusr_table k)[d := t2]" "k3 = k1\<lparr>pagusr_table := (pagusr_table k)[d := t2]\<rparr>" by (simp_all add: k3_def k2_def)
  have f3: "pagusr_table k3 ! f = pagusr_table k ! f" "pagusr_table k3 ! d = t2" "length (pagusr_table k3) = NR_TASKS"
    using ne t(3) d(1) by (simp_all add: k3(1))
  from inherit_pages [of d k3 f v, OF _ _ ne _ _ _ v] f3 t2(2) t(4) [OF f(2)] d(1) f(2) mapped obtain tc tf where
    run: "for_each [NUM_PAG_KERNEL + NUM_PAG_CODE..<NUM_PAG_KERNEL + NUM_PAG_CODE + NUM_PAG_DATA] (inherit_page d f (map int v)) k3 =
      Ok (Inl (k3\<lparr>pagusr_table := (pagusr_table k3)[d := tc, f := tf],
        frame_mem := copied_frames (map (\<lambda>j. (data_frame k (f, j), v ! j)) [0..<NUM_PAG_DATA]) (frame_mem k)\<rparr>))"
    and lens: "length tc = TOTAL_PAGES" "length tf = TOTAL_PAGES"
    and tc: "\<forall>p < TOTAL_PAGES. tc ! p = (if PAG_LOG_INIT_DATA \<le> p \<and> p < PAG_LOG_INIT_DATA + NUM_PAG_DATA
        then pte (of_nat (v ! (p - PAG_LOG_INIT_DATA))) True True else t2 ! p)"
    and tf: "\<forall>p < TOTAL_PAGES. tf ! p = (if PAG_LOG_INIT_DATA + NUM_PAG_DATA \<le> p \<and> p < PAG_LOG_INIT_DATA + NUM_PAG_DATA + NUM_PAG_DATA
        then 0 else pagusr_table k ! f ! p)"
    unfolding f3(1,2) by (auto simp: data_frame_def k3(2) k1 simp del: upt_Suc)
  have "inherit_space c (map int v) k = Ok (k1\<lparr>pagusr_table := (pagusr_table k)[d := tc, f := tf],
      frame_mem := copied_frames (map (\<lambda>j. (data_frame k (f, j), v ! j)) [0..<NUM_PAG_DATA]) (frame_mem k), cr3 := Some f\<rparr>)"
    using alloc pt t1(1) t2(1) run f(1) c len
    by (simp add: inherit_space_def k1_def [symmetric] last_state_def k1(2) k2_def [symmetric] k3_def [symmetric] k3(1))
      (simp add: k3(2) k1_def get_DIR_def get_task_Ok dir_of_def)
  moreover have "tc ! (PAG_LOG_INIT_DATA + j) = pte (of_nat (v ! j)) True True" if "j < NUM_PAG_DATA" for j
    using tc le(3) that by simp
  moreover have "tc ! p = pagusr_table k ! f ! p" if "p < PAG_LOG_INIT_DATA" for p using tc le(3) that t2' [OF that] by simp
  moreover have "\<forall>p < TOTAL_PAGES. p < PAG_LOG_INIT_DATA + NUM_PAG_DATA \<longrightarrow> tf ! p = pagusr_table k ! f ! p" using tf by simp
  ultimately show ?thesis using d lens unfolding k1_def by - (rule exI [of _ d], rule exI [of _ tc], rule exI [of _ tf], simp)
qed

lemma start_child_Ok:
  assumes "c < length (task k)" and "list_add_tail (Task c) Ready_Queue (links k) = Ok h"
  shows "\<exists>st ts. start_child c k = Ok (k\<lparr>next_PID := next_PID k + 1, tsc := ts,
    task := (task k)[c := (task k ! c)\<lparr>PID := sint (next_PID k + 1), stats := st\<rparr>], links := h\<rparr>)"
proof -
  from init_stats_Ok [of c "k\<lparr>next_PID := next_PID k + 1, task := (task k)[c := (task k ! c)\<lparr>PID := sint (next_PID k + 1)\<rparr>]\<rparr>"] assms
  obtain st ts where "init_stats c (k\<lparr>next_PID := next_PID k + 1, task := (task k)[c := (task k ! c)\<lparr>PID := sint (next_PID k + 1)\<rparr>]\<rparr>) =
      Ok (k\<lparr>next_PID := next_PID k + 1, tsc := ts, task := (task k)[c := (task k ! c)\<lparr>PID := sint (next_PID k + 1), stats := st\<rparr>]\<rparr>)" by auto
  with assms show ?thesis by (intro exI [of _ st] exI [of _ ts]) (simp add: start_child_def set_task_Ok on_lists_def)
qed

lemma copied_frames_other: "x \<notin> snd ` set ps \<Longrightarrow> copied_frames ps m x = m x"
  by (induction ps m rule: copied_frames.induct) auto

text \<open>Copies whose destinations are different and no sources do not disturb each other.\<close>

lemma copied_frames_apart:
  "distinct (map snd ps) \<Longrightarrow> fst ` set ps \<inter> snd ` set ps = {} \<Longrightarrow> (src, dst) \<in> set ps \<Longrightarrow> copied_frames ps m dst = m src"
proof (induction ps m rule: copied_frames.induct)
  case (2 s d ps m)
  show ?case
  proof (cases "(src, dst) = (s, d)")
    case True
    then show ?thesis using 2 by (simp add: copied_frames_other)
  next
    case False
    with 2(4) have "(src, dst) \<in> set ps" by auto
    moreover from this 2 have ne: "src \<noteq> d" by force
    ultimately have "copied_frames ps (m(d := m s)) dst = (m(d := m s)) src" using 2(2,3) by (intro 2(1)) auto
    with ne show ?thesis by simp
  qed
qed simp

lemma first_frames:
  assumes "NUM_PAG_DATA \<le> length (allocatable k)"
  shows "\<forall>j < NUM_PAG_DATA. allocatable k ! j \<in> set (take NUM_PAG_DATA (allocatable k)) \<and> allocatable k ! j < 2 ^ 20"
proof (intro allI impI conjI)
  fix j assume j: "j < NUM_PAG_DATA"
  then show "allocatable k ! j \<in> set (take NUM_PAG_DATA (allocatable k))" using assms by (auto simp: in_set_conv_nth intro!: exI [of _ j])
  then have "allocatable k ! j \<in> set (allocatable k)" by (rule in_set_takeD)
  then have "allocatable k ! j < TOTAL_PAGES" using allocatable_mem by blast
  then show "allocatable k ! j < 2 ^ 20" by (simp add: kernel_sizes)
qed

section \<open>Fork\<close>

lemma soundD:
  assumes "sound k Q"
  obtains rs fs f where "Q Ready_Queue = Some rs" "Q Free_Queue = Some fs" "holds_lists (links k) Q" "separate Q"
    "length (task k) = NR_TASKS" "cur k < NR_TASKS" "idle_task k < NR_TASKS" "length (phys_mem k) = TOTAL_PAGES"
    "dir_of k (cur k) = Some f" "f < NR_TASKS" "dir_usage k ! f \<noteq> 0" "set fs \<subseteq> Task ` {..<NR_TASKS}"
proof -
  have c: "consistent (Task ` {..<NR_TASKS}) k Q" "Free_Queue \<in> dom Q" "tables k" "counted k (live Q)" using assms by (simp_all add: sound_def)
  then have q0: "queues0 k Q" by (simp add: consistent_def queues_def)
  note q = queues0D [OF q0]
  from c obtain rs fs where r: "Q Ready_Queue = Some rs" "Q Free_Queue = Some fs" by (auto simp: consistent_def)
  note cur = sound_live(1) [OF assms]
  with c(4) obtain f where f: "dir_of k (cur k) = Some f" "f < NR_TASKS" by (auto simp: counted_def)
  with counted_none [OF c(4) finite_live(1), of f] cur have "dir_usage k ! f \<noteq> 0" by auto
  with that [OF r q(1) holdsD(1) [OF q(1)] q(2-4) _ f _ q(6) [OF r(2)]] c(3) show thesis by (simp add: tables_def)
qed

lemma fork_fails:
  assumes "sound k Q" and "Q Free_Queue = Some [] \<or> length (allocatable k) < NUM_PAG_DATA"
  shows "\<exists>m. sys_fork k = Ok (-ENOMEM, k\<lparr>phys_mem := m\<rparr>) \<and> kept_frames k m"
proof -
  from assms(1) obtain fs where s: "Q Free_Queue = Some fs" "holds_lists (links k) Q" "length (phys_mem k) = TOTAL_PAGES"
    and sub: "set fs \<subseteq> Task ` {..<NR_TASKS}" by (rule soundD) blast
  note e = lists.empty_law [OF s(2,1)]
  show ?thesis
  proof (cases fs)
    case Nil
    then have "sys_fork k = Ok (-ENOMEM, k\<lparr>phys_mem := phys_mem k\<rparr>)" using e by (simp add: sys_fork_def)
    with s(3) show ?thesis by (intro exI [of _ "phys_mem k"]) (simp add: kept_frames_def)
  next
    case (Cons x xs)
    with sub obtain c where c: "fs = Task c # xs" by auto
    with assms(2) s(1) take_frames_cases [OF s(3)] obtain m where "take_frames k = Ok (Inr (k\<lparr>phys_mem := m\<rparr>))" "kept_frames k m" by auto
    moreover have "list_first (links k) Free_Queue = Ok (Task c)" using lists.first_law [OF s(2), of Free_Queue "Task c" xs] s(1) c by simp
    ultimately show ?thesis using e c by (intro exI [of _ m]) (simp add: sys_fork_def)
  qed
qed

text \<open>\<open>forked k k' c f d\<close>: task \<open>c\<close> is a copy of the running process in directory \<open>f\<close>, with the directory \<open>d\<close> of its own.\<close>

definition forked :: "kernel \<Rightarrow> kernel \<Rightarrow> nat \<Rightarrow> nat \<Rightarrow> nat \<Rightarrow> bool" where
  "forked k k' c f d \<longleftrightarrow> d < NR_TASKS \<and> dir_usage k ! d = 0 \<and> d \<noteq> f \<and>
     length (task k') = NR_TASKS \<and> cur k' = cur k \<and> idle_task k' = idle_task k \<and> semafors k' = semafors k \<and>
     (\<forall>i. dir_of k' i = (if i = c then Some d else dir_of k i)) \<and> PID (task k' ! c) = sint (next_PID k + 1) \<and>
     dir_usage k' = (dir_usage k)[d := 1] \<and> dir_pages k' = dir_pages k \<and>
     kept_frames k (phys_mem k') \<and> (\<forall>i \<in> set (take NUM_PAG_DATA (allocatable k)). phys_mem k' ! i = USED_FRAME) \<and>
     frame_mem k' = copied_frames (map (\<lambda>j. (data_frame k (f, j), allocatable k ! j)) [0..<NUM_PAG_DATA]) (frame_mem k) \<and>
     (\<exists>tc tf. pagusr_table k' = (pagusr_table k)[d := tc, f := tf] \<and> length tc = TOTAL_PAGES \<and> length tf = TOTAL_PAGES \<and>
       (\<forall>p < PAG_LOG_INIT_DATA. tc ! p = pagusr_table k ! f ! p) \<and>
       (\<forall>j < NUM_PAG_DATA. tc ! (PAG_LOG_INIT_DATA + j) = pte (of_nat (allocatable k ! j)) True True) \<and>
       (\<forall>p < TOTAL_PAGES. p < PAG_LOG_INIT_DATA + NUM_PAG_DATA \<longrightarrow> tf ! p = pagusr_table k ! f ! p))"

lemma fork_runs:
  assumes s: "sound k Q" and cur: "cur k \<noteq> idle_task k" and free: "Q Free_Queue = Some (Task c # fs)" "NUM_PAG_DATA \<le> length (allocatable k)"
    and f: "dir_of k (cur k) = Some f" and rs: "Q Ready_Queue = Some rs"
  shows "\<exists>k' d. sys_fork k = Ok (sint (next_PID k + 1), k') \<and> forked k k' c f d \<and>
    consistent (Task ` {..<NR_TASKS}) k' (Q(Free_Queue \<mapsto> fs, Ready_Queue \<mapsto> rs @ [Task c]))"
proof -
  from s obtain fs' f' where q: "holds_lists (links k) Q" "separate Q" "length (task k) = NR_TASKS" "cur k < NR_TASKS" "length (phys_mem k) = TOTAL_PAGES"
    and f': "dir_of k (cur k) = Some f'" "f' < NR_TASKS" "dir_usage k ! f' \<noteq> 0" and sub: "Q Free_Queue = Some fs'" "set fs' \<subseteq> Task ` {..<NR_TASKS}"
    by (rule soundD) blast
  have fr: "f < NR_TASKS" "dir_usage k ! f \<noteq> 0" using f' f by simp_all
  have c: "c < NR_TASKS" using sub free(1) by auto
  note live = live_taken [OF q(2) free(1) c]
  have S: "tables k" "counted k (live Q)" "isolated k (live Q)" "consistent (Task ` {..<NR_TASKS}) k Q" using s by (simp_all add: sound_def)
  note curL = sound_live [OF s]
  have ne: "c \<noteq> cur k" using live(2) curL(1) by auto
  let ?v = "take NUM_PAG_DATA (allocatable k)"
  from take_frames_cases [OF q(5)] free(2) obtain m where m: "take_frames k = Ok (Inl (map int ?v, k\<lparr>phys_mem := m\<rparr>))" "kept_frames k m"
    "\<forall>i \<in> set ?v. m ! i = USED_FRAME" by auto
  from birth [OF S(4) free(1) rs] obtain h h' where h: "list_del (Task c) (links k) = Ok h" "nxt h (Task (cur k)) = NULL"
    "list_add_tail (Task c) Ready_Queue (h\<lparr>nxt := (nxt h)(Task c := NULL), prv := (prv h)(Task c := prv h (Task (cur k)))\<rparr>) = Ok h'" and
    cons: "\<And>k'. links k' = h' \<Longrightarrow> length (task k') = NR_TASKS \<Longrightarrow> cur k' = cur k \<Longrightarrow> idle_task k' = idle_task k \<Longrightarrow> semafors k' = semafors k \<Longrightarrow>
      consistent (Task ` {..<NR_TASKS}) k' (Q(Free_Queue \<mapsto> fs, Ready_Queue \<mapsto> rs @ [Task c]))" by blast
  define k1 where "k1 = k\<lparr>phys_mem := m, links := h\<lparr>nxt := (nxt h)(Task c := NULL), prv := (prv h)(Task c := prv h (Task (cur k)))\<rparr>,
    task := (task k)[c := task k ! cur k]\<rparr>"
  have copy: "copy_PCB c (k\<lparr>phys_mem := m, links := h\<rparr>) = Ok k1"
    using c q(3,4) h(2) by (simp add: copy_PCB_Ok k1_def)
  have k1: "pagusr_table k1 = pagusr_table k" "cur k1 = cur k" "dir_usage k1 = dir_usage k" "dir_of k1 (cur k) = Some f" "data_frame k1 = data_frame k"
    "frame_mem k1 = frame_mem k" "task k1 ! c = task k ! cur k" "length (task k1) = NR_TASKS"
    using f ne q(3,4) c by (simp_all add: k1_def dir_of_def data_frame_def)
  have tab1: "tables k1" using S(1) m(2) by (simp add: tables_def k1_def kept_frames_def)
  have v: "length ?v = NUM_PAG_DATA" "\<forall>j < NUM_PAG_DATA. ?v ! j < 2 ^ 20"
    using free(2) first_frames [OF free(2)] by (simp_all add: kernel_sizes)
  have "\<forall>j < NUM_PAG_DATA. pte_present (pagusr_table k ! f ! (PAG_LOG_INIT_DATA + j))" using isolatedD(2) [OF S(3) curL(1) cur f] by blast
  from inherit_space_Ok [of k1 c f ?v, unfolded k1, OF tab1 refl c q(4) ne refl fr free_directory [OF S(2) finite_live(1) live(3)] this v]
  obtain d tc tf where space: "inherit_space c (map int ?v) k1 = Ok (k1\<lparr>dir_usage := (dir_usage k)[d := 1],
        task := (task k1)[c := (task k ! cur k)\<lparr>dir_pages_baseAddr := Some d\<rparr>], pagusr_table := (pagusr_table k)[d := tc, f := tf],
        frame_mem := copied_frames (map (\<lambda>j. (data_frame k (f, j), ?v ! j)) [0..<NUM_PAG_DATA]) (frame_mem k), cr3 := Some f\<rparr>)"
    and d: "d < NR_TASKS" "dir_usage k ! d = 0" and lens: "length tc = TOTAL_PAGES" "length tf = TOTAL_PAGES"
    and tc: "\<forall>p < PAG_LOG_INIT_DATA. tc ! p = pagusr_table k ! f ! p" "\<forall>j < NUM_PAG_DATA. tc ! (PAG_LOG_INIT_DATA + j) = pte (of_nat (?v ! j)) True True"
    and tf: "\<forall>p < TOTAL_PAGES. p < PAG_LOG_INIT_DATA + NUM_PAG_DATA \<longrightarrow> tf ! p = pagusr_table k ! f ! p"
    by blast
  define k2 where "k2 = k1\<lparr>dir_usage := (dir_usage k)[d := 1],
        task := (task k1)[c := (task k ! cur k)\<lparr>dir_pages_baseAddr := Some d\<rparr>], pagusr_table := (pagusr_table k)[d := tc, f := tf],
        frame_mem := copied_frames (map (\<lambda>j. (data_frame k (f, j), ?v ! j)) [0..<NUM_PAG_DATA]) (frame_mem k), cr3 := Some f\<rparr>"
  have "c < length (task k2)" "list_add_tail (Task c) Ready_Queue (links k2) = Ok h'"
    using h(3) c q(3) by (simp_all add: k2_def k1_def)
  from start_child_Ok [OF this] obtain st ts where start: "start_child c k2 = Ok (k2\<lparr>next_PID := next_PID k + 1, tsc := ts,
    task := (task k2)[c := (task k2 ! c)\<lparr>PID := sint (next_PID k + 1), stats := st\<rparr>], links := h'\<rparr>)"
    by (auto simp: k2_def k1_def)
  define k' where "k' = k2\<lparr>next_PID := next_PID k + 1, tsc := ts,
    task := (task k2)[c := (task k2 ! c)\<lparr>PID := sint (next_PID k + 1), stats := st\<rparr>], links := h'\<rparr>"
  have e: "list_empty (links k) Free_Queue = Ok False" "list_first (links k) Free_Queue = Ok (Task c)"
    using lists.empty_law [OF q(1) free(1)] lists.first_law [OF q(1) free(1)] by simp_all
  have run: "sys_fork k = Ok (sint (next_PID k + 1), k')"
    using e m(1) h(1) copy space [folded k2_def] start [folded k'_def]
    by (simp add: sys_fork_def on_lists_def) (simp add: k'_def)
  have mem: "map (\<lambda>j. (data_frame k (f, j), ?v ! j)) [0..<NUM_PAG_DATA] = map (\<lambda>j. (data_frame k (f, j), allocatable k ! j)) [0..<NUM_PAG_DATA]" by simp
  have "d \<noteq> f" using d(2) fr(2) by auto
  moreover have "pagusr_table k' = (pagusr_table k)[d := tc, f := tf]" by (simp add: k'_def k2_def)
  ultimately have "forked k k' c f d" unfolding forked_def using c q(3) m(2,3) d lens tc tf
    by (auto simp: k'_def k2_def k1_def dir_of_def nth_list_update mem)
  with run show ?thesis using cons [of k'] c q(3) by (intro exI [of _ k'] exI [of _ d]) (simp add: k'_def k2_def k1_def)
qed

text \<open>After a fork the invariant holds, and the child has its own copy of the data of the parent.\<close>

lemma forkedD:
  assumes "forked k k' c f d" and "tables k" and "f < NR_TASKS" and "j < NUM_PAG_DATA"
  shows "pagusr_table k' ! d ! (PAG_LOG_INIT_DATA + j) = pte (of_nat (allocatable k ! j)) True True"
    and "e \<noteq> d \<Longrightarrow> pagusr_table k' ! e ! (PAG_LOG_INIT_DATA + j) = pagusr_table k ! e ! (PAG_LOG_INIT_DATA + j)"
proof -
  from assms(1) obtain tc tf where t: "pagusr_table k' = (pagusr_table k)[d := tc, f := tf]" "d < NR_TASKS" "d \<noteq> f"
    "\<forall>j < NUM_PAG_DATA. tc ! (PAG_LOG_INIT_DATA + j) = pte (of_nat (allocatable k ! j)) True True"
    "\<forall>p < TOTAL_PAGES. p < PAG_LOG_INIT_DATA + NUM_PAG_DATA \<longrightarrow> tf ! p = pagusr_table k ! f ! p" unfolding forked_def by blast
  have len: "length (pagusr_table k) = NR_TASKS" using assms(2) by (simp add: tables_def)
  show "pagusr_table k' ! d ! (PAG_LOG_INIT_DATA + j) = pte (of_nat (allocatable k ! j)) True True" using t len assms(4) by simp
  have "PAG_LOG_INIT_DATA + j < TOTAL_PAGES" using assms(4) by (simp add: kernel_sizes)
  then show "pagusr_table k' ! e ! (PAG_LOG_INIT_DATA + j) = pagusr_table k ! e ! (PAG_LOG_INIT_DATA + j)" if "e \<noteq> d"
    using t len assms(3,4) that by (cases "e = f") simp_all
qed

lemma fork_sound:
  assumes s: "sound k Q" and free: "Q Free_Queue = Some (Task c # fs)" "NUM_PAG_DATA \<le> length (allocatable k)" and f: "f < NR_TASKS"
    and forked: "forked k k' c f d" and cons: "consistent (Task ` {..<NR_TASKS}) k' (Q(Free_Queue \<mapsto> fs, Ready_Queue \<mapsto> rs))"
  shows "sound k' (Q(Free_Queue \<mapsto> fs, Ready_Queue \<mapsto> rs))"
proof -
  have S: "tables k" "counted k (live Q)" "isolated k (live Q)" using s by (simp_all add: sound_def)
  from s obtain fs' where q: "separate Q" "Q Free_Queue = Some fs'" "set fs' \<subseteq> Task ` {..<NR_TASKS}" by (rule soundD) blast
  then have c: "c < NR_TASKS" using free(1) by auto
  note live = live_taken [OF q(1) free(1) c]
  note F = forked [unfolded forked_def]
  have "counted k' (insert c (live Q))"
    by (rule child_counted [OF S(2) finite_live(1) live(2), of d]) (use S(1) F in \<open>simp_all add: tables_def\<close>)
  moreover have "isolated k' (insert c (live Q))"
    by (rule child_isolated [OF S(3,2) finite_live(1) live(2) sound_live(2) [OF s] _ _ free(2) _ _ _ _ refl, of d])
      (use F forkedD [OF forked S(1) f] in simp_all)
  moreover have "tables k'"
  proof -
    from F obtain tc tf where t: "pagusr_table k' = (pagusr_table k)[d := tc, f := tf]" "length tc = TOTAL_PAGES" "length tf = TOTAL_PAGES" by blast
    have "length (pagusr_table k' ! pt) = TOTAL_PAGES" if "pt < NR_TASKS" for pt
      using that t S(1) by (cases "pt = f"; cases "pt = d") (simp_all add: tables_def)
    then show ?thesis using S(1) F t(1) by (simp add: tables_def kept_frames_def)
  qed
  ultimately show ?thesis using cons unfolding sound_def live(1) by simp
qed

lemma fork_memory:
  assumes s: "sound k Q" and cur: "cur k \<noteq> idle_task k" "dir_of k (cur k) = Some f" and free: "NUM_PAG_DATA \<le> length (allocatable k)" and f: "f < NR_TASKS"
    and forked: "forked k k' c f d" and j: "j < NUM_PAG_DATA"
  shows "data_frame k' (f, j) = data_frame k (f, j)" "frame_mem k' (data_frame k (f, j)) = frame_mem k (data_frame k (f, j))"
    "frame_mem k' (data_frame k' (d, j)) = frame_mem k (data_frame k (f, j))"
proof -
  have S: "tables k" "isolated k (live Q)" using s by (simp_all add: sound_def)
  let ?al = "allocatable k" and ?ps = "map (\<lambda>j. (data_frame k (f, j), allocatable k ! j)) [0..<NUM_PAG_DATA]"
  have ne: "f \<noteq> d" using forked by (simp add: forked_def)
  note new = forkedD(1) [OF forked S(1) f j] and old = forkedD(2) [OF forked S(1) f j ne]
  show "data_frame k' (f, j) = data_frame k (f, j)" using old by (simp add: data_frame_def)
  have dsts: "map snd ?ps = take NUM_PAG_DATA ?al" using free by (intro nth_equalityI) simp_all
  have set: "snd ` set ?ps = set (take NUM_PAG_DATA ?al)" by (simp only: set_map [symmetric] dsts)
  have src: "data_frame k (f, i) \<notin> set (take NUM_PAG_DATA ?al)" if "i < NUM_PAG_DATA" for i
    using data_frame_not_allocatable [OF S(2) isolatedD(1) [OF S(2) sound_live(1) [OF s] cur that]] in_set_takeD by fast
  have mem: "frame_mem k' = copied_frames ?ps (frame_mem k)" using forked unfolding forked_def by blast
  show "frame_mem k' (data_frame k (f, j)) = frame_mem k (data_frame k (f, j))"
    unfolding mem using src [OF j] set by (intro copied_frames_other) simp
  have "distinct (map snd ?ps)" unfolding dsts by (simp add: allocatable_def distinct_candidates)
  moreover have "fst ` set ?ps \<inter> snd ` set ?ps = {}" unfolding set using src by auto
  ultimately have "copied_frames ?ps (frame_mem k) (?al ! j) = frame_mem k (data_frame k (f, j))"
    using j by (intro copied_frames_apart) auto
  moreover have "data_frame k' (d, j) = ?al ! j"
  proof -
    have lt: "?al ! j < 2 ^ 20" using first_frames [OF free] j by blast
    then have "unat (of_nat (?al ! j) :: dword) = ?al ! j" by (simp add: unat_of_nat)
    with lt new pte_fields(1) [of "of_nat (?al ! j)"] show ?thesis by (simp add: data_frame_def)
  qed
  ultimately show "frame_mem k' (data_frame k' (d, j)) = frame_mem k (data_frame k (f, j))" by (simp add: mem)
qed

lemma consistent_same:
  "consistent T k Q \<Longrightarrow> links k' = links k \<Longrightarrow> length (task k') = length (task k) \<Longrightarrow> cur k' = cur k \<Longrightarrow> idle_task k' = idle_task k \<Longrightarrow>
   semafors k' = semafors k \<Longrightarrow> consistent T k' Q"
  by (simp add: consistent_def queues_def queues0_def)

lemma kept_sound:
  assumes "sound k Q" and "kept_frames k m"
  shows "sound (k\<lparr>phys_mem := m\<rparr>) Q"
proof -
  have "consistent (Task ` {..<NR_TASKS}) (k\<lparr>phys_mem := m\<rparr>) Q"
    by (rule consistent_same [of _ k]) (use assms(1) in \<open>simp_all add: sound_def\<close>)
  moreover have "sharing (k\<lparr>phys_mem := m\<rparr>) = sharing k" by (intro ext) (simp add: sharing_def dir_of_def)
  ultimately show ?thesis using assms isolated_kept [OF _ assms(2)]
    unfolding sound_def by (simp add: tables_def counted_def kept_frames_def) (simp add: dir_of_def)
qed

lemma fork_keeps_sound:
  assumes "sound k Q" and "cur k \<noteq> idle_task k"
  shows "\<exists>r k' Q'. sys_fork k = Ok (r, k') \<and> sound k' Q'"
proof -
  from assms(1) obtain rs fs f where q: "Q Ready_Queue = Some rs" "Q Free_Queue = Some fs" "dir_of k (cur k) = Some f" "f < NR_TASKS"
    "set fs \<subseteq> Task ` {..<NR_TASKS}" by (rule soundD) blast
  show ?thesis
  proof (cases "fs = [] \<or> length (allocatable k) < NUM_PAG_DATA")
    case True
    with fork_fails [OF assms(1)] q(2) obtain m where "sys_fork k = Ok (-ENOMEM, k\<lparr>phys_mem := m\<rparr>)" "kept_frames k m" by auto
    with kept_sound [OF assms(1)] show ?thesis by blast
  next
    case False
    then obtain c xs where c: "Q Free_Queue = Some (Task c # xs)" "NUM_PAG_DATA \<le> length (allocatable k)" using q by (cases fs) auto
    from fork_runs [OF assms c q(3,1)] obtain k' d where k': "sys_fork k = Ok (sint (next_PID k + 1), k')" "forked k k' c f d"
      "consistent (Task ` {..<NR_TASKS}) k' (Q(Free_Queue \<mapsto> xs, Ready_Queue \<mapsto> rs @ [Task c]))" by blast
    with fork_sound [OF assms(1) c q(4) k'(2,3)] show ?thesis by blast
  qed
qed

section \<open>Clone\<close>

lemma find_index_rounds: "for_each is (\<lambda>i _. Ok (if P i then Inr i else Inl ())) () = Ok (case find P is of Some i \<Rightarrow> Inr i | None \<Rightarrow> Inl ())"
  by (induction "is") simp_all

lemma find_dir_usage_Ok:
  assumes "t < length (task k)" and "dir_of k t = Some d" and "d < NR_TASKS"
  shows "find_dir_usage t k = Ok (Some d)"
proof -
  have "find (\<lambda>i. dir_pages_baseAddr (task k ! t) = Some i) [0..<NR_TASKS] = Some d"
    unfolding find_Some_iff by (rule exI [of _ d]) (use assms(2,3) in \<open>simp add: dir_of_def\<close>)
  with assms(1) show ?thesis by (simp add: find_dir_usage_def get_task_Ok find_index_rounds)
qed

lemma add_dir_usage_Ok: "d < length (dir_usage k) \<Longrightarrow> add_dir_usage (Some d) n k = Ok (dir_usage k ! d + n, k\<lparr>dir_usage := (dir_usage k)[d := dir_usage k ! d + n]\<rparr>)"
  by (simp add: add_dir_usage_def)

lemma thread_counted:
  assumes k: "counted k L" "finite L" and c: "c \<notin> L" "t \<in> L" and f: "dir_of k t = Some f" "length (dir_usage k) = NR_TASKS"
    and k': "\<And>i. i \<in> insert c L \<Longrightarrow> dir_of k' i = (if i = c then Some f else dir_of k i)" "dir_usage k' = (dir_usage k)[f := dir_usage k ! f + 1]"
  shows "counted k' (insert c L)"
proof -
  have fr: "f < NR_TASKS" using k(1) c(2) f(1) by (auto simp: counted_def)
  have "sharing k' (insert c L) e = (if e = f then insert c (sharing k L e) else sharing k L e)" for e
    using c k'(1) by (auto simp: sharing_def split: if_splits)
  moreover have "c \<notin> sharing k L f" "finite (sharing k L f)" using c k(2) by (simp_all add: sharing_def)
  moreover have "\<exists>e < NR_TASKS. dir_of k' i = Some e" if "i \<in> insert c L" for i
    using that k'(1) [OF that] k(1) fr by (auto simp: counted_def)
  ultimately show ?thesis using k(1) fr f(2) by (auto simp: counted_def k'(2) nth_list_update)
qed

lemma clone_runs:
  assumes s: "sound k Q" and free: "Q Free_Queue = Some (Task c # fs)" and f: "dir_of k (cur k) = Some f" and rs: "Q Ready_Queue = Some rs"
    and args: "func \<noteq> 0" "stack \<noteq> 0" "access_ok VERIFY_READ func 4 \<noteq> 0" "access_ok VERIFY_WRITE stack 4 \<noteq> 0"
  shows "\<exists>k'. sys_clone func stack k = Ok (sint (next_PID k + 1), k') \<and>
    consistent (Task ` {..<NR_TASKS}) k' (Q(Free_Queue \<mapsto> fs, Ready_Queue \<mapsto> rs @ [Task c])) \<and> cur k' = cur k \<and>
    idle_task k' = idle_task k \<and> (\<forall>i. dir_of k' i = (if i = c then Some f else dir_of k i)) \<and> PID (task k' ! c) = sint (next_PID k + 1) \<and>
    dir_usage k' = (dir_usage k)[f := dir_usage k ! f + 1] \<and> dir_pages k' = dir_pages k \<and> pagusr_table k' = pagusr_table k \<and>
    phys_mem k' = phys_mem k \<and> frame_mem k' = frame_mem k"
proof -
  from s obtain fs' f' where q: "holds_lists (links k) Q" "separate Q" "length (task k) = NR_TASKS" "cur k < NR_TASKS"
    and f': "dir_of k (cur k) = Some f'" "f' < NR_TASKS" and sub: "Q Free_Queue = Some fs'" "set fs' \<subseteq> Task ` {..<NR_TASKS}"
    by (rule soundD) blast
  have fr: "f < NR_TASKS" using f' f by simp
  have c: "c < NR_TASKS" using sub free by auto
  have S: "tables k" "consistent (Task ` {..<NR_TASKS}) k Q" using s by (simp_all add: sound_def)
  from birth [OF S(2) free rs] obtain h h' where h: "list_del (Task c) (links k) = Ok h" "nxt h (Task (cur k)) = NULL"
    "list_add_tail (Task c) Ready_Queue (h\<lparr>nxt := (nxt h)(Task c := NULL), prv := (prv h)(Task c := prv h (Task (cur k)))\<rparr>) = Ok h'" and
    cons: "\<And>k'. links k' = h' \<Longrightarrow> length (task k') = NR_TASKS \<Longrightarrow> cur k' = cur k \<Longrightarrow> idle_task k' = idle_task k \<Longrightarrow> semafors k' = semafors k \<Longrightarrow>
      consistent (Task ` {..<NR_TASKS}) k' (Q(Free_Queue \<mapsto> fs, Ready_Queue \<mapsto> rs @ [Task c]))" by blast
  define k1 where "k1 = k\<lparr>links := h\<lparr>nxt := (nxt h)(Task c := NULL), prv := (prv h)(Task c := prv h (Task (cur k)))\<rparr>,
    task := (task k)[c := task k ! cur k]\<rparr>"
  have copy: "copy_PCB c (k\<lparr>links := h\<rparr>) = Ok k1" using c q(3,4) h(2) by (simp add: copy_PCB_Ok k1_def)
  have "find_dir_usage c k1 = Ok (Some f)"
    by (rule find_dir_usage_Ok) (use c q(3) f fr in \<open>simp_all add: k1_def dir_of_def\<close>)
  moreover define k2 where "k2 = k1\<lparr>dir_usage := (dir_usage k)[f := dir_usage k ! f + 1]\<rparr>"
  have "add_dir_usage (Some f) 1 k1 = Ok (dir_usage k ! f + 1, k2)"
    using add_dir_usage_Ok [of f k1 1] fr S(1) by (simp add: k2_def k1_def tables_def)
  moreover have "c < length (task k2)" "list_add_tail (Task c) Ready_Queue (links k2) = Ok h'"
    using h(3) c q(3) by (simp_all add: k2_def k1_def)
  from start_child_Ok [OF this] obtain st ts where start: "start_child c k2 = Ok (k2\<lparr>next_PID := next_PID k + 1, tsc := ts,
    task := (task k2)[c := (task k2 ! c)\<lparr>PID := sint (next_PID k + 1), stats := st\<rparr>], links := h'\<rparr>)"
    by (auto simp: k2_def k1_def)
  moreover define k' where "k' = k2\<lparr>next_PID := next_PID k + 1, tsc := ts,
    task := (task k2)[c := (task k2 ! c)\<lparr>PID := sint (next_PID k + 1), stats := st\<rparr>], links := h'\<rparr>"
  moreover have "get_task k' c = Ok (task k' ! c)" using c q(3) by (simp add: get_task_Ok k'_def k2_def k1_def)
  moreover have pid: "PID (task k' ! c) = sint (next_PID k + 1)" using c q(3) by (simp add: k'_def k2_def k1_def)
  moreover have e: "list_empty (links k) Free_Queue = Ok False" "list_first (links k) Free_Queue = Ok (Task c)"
    using lists.empty_law [OF q(1) free(1)] lists.first_law [OF q(1) free(1)] by simp_all
  ultimately have run: "sys_clone func stack k = Ok (sint (next_PID k + 1), k')"
    using args h(1) copy by (simp add: sys_clone_def on_lists_def)
  have "\<forall>i. dir_of k' i = (if i = c then Some f else dir_of k i)"
    using c q(3) f by (simp add: k'_def k2_def k1_def dir_of_def nth_list_update)
  with run pid show ?thesis using cons [of k'] q(3)
    by (intro exI [of _ k']) (simp add: k'_def k2_def k1_def)
qed

lemma clone_sound:
  assumes "sound k Q" and cur: "cur k \<noteq> idle_task k" and free: "Q Free_Queue = Some (Task c # fs)" and rs: "Q Ready_Queue = Some rs"
    and f: "dir_of k (cur k) = Some f"
    and args: "func \<noteq> 0" "stack \<noteq> 0" "access_ok VERIFY_READ func 4 \<noteq> 0" "access_ok VERIFY_WRITE stack 4 \<noteq> 0"
    and run: "sys_clone func stack k = Ok (r, k')"
  shows "sound k' (Q(Free_Queue \<mapsto> fs, Ready_Queue \<mapsto> rs @ [Task c]))"
proof -
  from clone_runs [OF assms(1) free f rs args] run have
    k': "consistent (Task ` {..<NR_TASKS}) k' (Q(Free_Queue \<mapsto> fs, Ready_Queue \<mapsto> rs @ [Task c]))"
      "idle_task k' = idle_task k" "\<forall>i. dir_of k' i = (if i = c then Some f else dir_of k i)"
      "dir_usage k' = (dir_usage k)[f := dir_usage k ! f + 1]" "dir_pages k' = dir_pages k" "pagusr_table k' = pagusr_table k" "phys_mem k' = phys_mem k"
    by auto
  from assms(1) have sep: "separate Q" by (rule soundD)
  from assms(1) free have c: "c < NR_TASKS" by (elim soundD) auto
  note live = live_taken [OF sep free c]
  note L = sound_live [OF assms(1)]
  have S: "tables k" "counted k (live Q)" "isolated k (live Q)" using assms(1) by (simp_all add: sound_def)
  have "tables k'" using S(1) k'(4-7) by (simp add: tables_def)
  moreover have "counted k' (insert c (live Q))"
    by (rule thread_counted [OF S(2) finite_live(1) live(2) L(1) f]) (use S(1) k' in \<open>simp_all add: tables_def\<close>)
  moreover have pages: "data_pages k' (insert c (live Q)) = data_pages k (live Q)"
    using k'(2,3) live(2) L cur f unfolding data_pages_def by auto
  have frame: "data_frame k' = data_frame k" using k'(6) by (simp add: data_frame_def)
  have "isolated k' (insert c (live Q))" using S(3) unfolding isolated_def pages frame k'(6,7) .
  ultimately show ?thesis unfolding sound_def live(1) using k'(1) by simp
qed

lemma clone_keeps_sound:
  assumes "sound k Q" and cur: "cur k \<noteq> idle_task k"
  shows "\<exists>r k' Q'. sys_clone func stack k = Ok (r, k') \<and> sound k' Q'"
proof -
  from assms(1) obtain rs fs f where q: "Q Ready_Queue = Some rs" "Q Free_Queue = Some fs" "dir_of k (cur k) = Some f"
    "set fs \<subseteq> Task ` {..<NR_TASKS}" "holds_lists (links k) Q" by (rule soundD) blast
  show ?thesis
  proof (cases "func = 0 \<or> stack = 0 \<or> access_ok VERIFY_READ func 4 = 0 \<or> access_ok VERIFY_WRITE stack 4 = 0 \<or> fs = []")
    case True
    then have "\<exists>r. sys_clone func stack k = Ok (r, k)" using lists.empty_law [OF q(5,2)] by (auto simp: sys_clone_def)
    with assms(1) show ?thesis by blast
  next
    case False
    then obtain c xs where c: "Q Free_Queue = Some (Task c # xs)" using q by (cases fs) auto
    have args: "func \<noteq> 0" "stack \<noteq> 0" "access_ok VERIFY_READ func 4 \<noteq> 0" "access_ok VERIFY_WRITE stack 4 \<noteq> 0" using False by auto
    from clone_runs [OF assms(1) c q(3,1) args] obtain k' where "sys_clone func stack k = Ok (sint (next_PID k + 1), k')" by blast
    with clone_sound [OF assms c q(1,3) args this] show ?thesis by blast
  qed
qed

end
