(* ===== verification/Kernel_Boot.thy ===== *)
theory Kernel_Boot
  imports Kernel_Fork
begin

text \<open>
  Starting the kernel: \<open>init_mm\<close> (zeos_full/mm.c) and the part of \<open>main\<close> (zeos_full/system.c) that sets
  up memory and processes. From zeroed globals it ends with task 8 running as process 1, task 9 as
  the idle process, the other eight tasks free, and the invariant of the kernel.
\<close>

section \<open>Code\<close>

definition init_mm :: "kernel \<Rightarrow> kernel res" where
  "init_mm k =
     bind (init_table_pages k) (\<lambda>k.
     bind (init_frames k) (\<lambda>(_, k).
     bind (init_dir_pages k) (\<lambda>k.
     bind (allocate_DIR 0 k) (\<lambda>(_, k).
     bind (get_DIR 0 k) (\<lambda>d. Ok (k\<lparr>cr3 := d\<rparr>))))))"

text \<open>
  The part of \<open>main\<close> (zeos_full/system.c) that sets up memory and processes. \<open>return_gate\<close> goes to
  user mode; the next interrupt takes the stack of \<open>tss.esp0\<close>, so that is the running process.
\<close>

definition boot :: "kernel \<Rightarrow> kernel res" where
  "boot k = bind (init_mm k) (\<lambda>k. bind (init_sched k) (\<lambda>k. bind (init_idle k) (\<lambda>k. bind (init_task1 k) (\<lambda>k. Ok (k\<lparr>cur := tss_esp0 k\<rparr>)))))"

section \<open>Memory\<close>

lemma set_table_rounds:
  assumes "pt < length (pagusr_table k)" and "a + n \<le> length (pagusr_table k ! pt)"
  shows "\<exists>tab. for_each [a..<a + n] (\<lambda>i k. bind (set_pte pt i (f i) k) (\<lambda>k. Ok (Inl k))) k = (Ok (Inl (k\<lparr>pagusr_table := (pagusr_table k)[pt := tab]\<rparr>)) :: (kernel + kernel) res) \<and>
    length tab = length (pagusr_table k ! pt) \<and> (\<forall>i < length tab. tab ! i = (if a \<le> i \<and> i < a + n then f i else pagusr_table k ! pt ! i))"
proof -
  define I where "I = (\<lambda>n k'. \<exists>tab. k' = k\<lparr>pagusr_table := (pagusr_table k)[pt := tab]\<rparr> \<and> length tab = length (pagusr_table k ! pt) \<and>
    (\<forall>i < length tab. tab ! i = (if a \<le> i \<and> i < a + n then f i else pagusr_table k ! pt ! i)))"
  have "\<exists>t. for_each [a..<a + n] (\<lambda>i k. bind (set_pte pt i (f i) k) (\<lambda>k. Ok (Inl k))) k = (Ok (Inl t) :: (kernel + kernel) res) \<and> I n t"
  proof (rule for_range_rule)
    show "I 0 k" unfolding I_def by (rule exI [of _ "pagusr_table k ! pt"]) auto
  next
    fix i k1 assume i: "i < n" and "I i k1"
    then obtain tab where k1: "k1 = k\<lparr>pagusr_table := (pagusr_table k)[pt := tab]\<rparr>" and tab: "length tab = length (pagusr_table k ! pt)"
      "\<forall>i' < length tab. tab ! i' = (if a \<le> i' \<and> i' < a + i then f i' else pagusr_table k ! pt ! i')" unfolding I_def by blast
    let ?tab = "tab[a + i := f (a + i)]"
    have p: "a + i < length tab" using assms(2) i tab(1) by simp
    have "bind (set_pte pt (a + i) (f (a + i)) k1) (\<lambda>k. Ok (Inl k)) = (Ok (Inl (k\<lparr>pagusr_table := (pagusr_table k)[pt := ?tab]\<rparr>)) :: (kernel + kernel) res)"
      using assms i tab(1) by (simp add: set_pte_Ok k1)
    moreover have "I (Suc i) (k\<lparr>pagusr_table := (pagusr_table k)[pt := ?tab]\<rparr>)"
      unfolding I_def using p by - (rule exI [of _ ?tab], use tab in \<open>auto simp: nth_list_update\<close>)
    ultimately show "\<exists>s'. bind (set_pte pt (a + i) (f (a + i)) k1) (\<lambda>k. Ok (Inl k)) = (Ok (Inl s') :: (kernel + kernel) res) \<and> I (Suc i) s'" by blast
  qed
  then show ?thesis unfolding I_def by blast
qed

text \<open>The page table of a process without user pages.\<close>

definition kernel_table :: "page_table_entry list" where
  "kernel_table = map (\<lambda>i. if 1 \<le> i \<and> i < NUM_PAG_KERNEL then pte (of_nat i) False True else 0) [0..<TOTAL_PAGES]"

lemma init_one_table:
  assumes "j < length (pagusr_table k)" and "length (pagusr_table k ! j) = TOTAL_PAGES"
  shows "bind (for_each [0..<TOTAL_PAGES] (\<lambda>i k. bind (set_pte j i 0 k) (\<lambda>k. Ok (Inl k))) k) (\<lambda>r.
       for_each [1..<NUM_PAG_KERNEL] (\<lambda>i k. bind (set_pte j i (pte (of_nat i) False True) k) (\<lambda>k. Ok (Inl k)))
         (case r of Inl k \<Rightarrow> k | Inr k \<Rightarrow> k)) = (Ok (Inl (k\<lparr>pagusr_table := (pagusr_table k)[j := kernel_table]\<rparr>)) :: (kernel + kernel) res)"
proof -
  have le: "1 + 255 \<le> TOTAL_PAGES" "NUM_PAG_KERNEL = 1 + 255" by (simp_all add: kernel_sizes)
  from set_table_rounds [of j k 0 TOTAL_PAGES "\<lambda>_. 0"] assms obtain t where
    t: "for_each [0..<TOTAL_PAGES] (\<lambda>i k. bind (set_pte j i 0 k) (\<lambda>k. Ok (Inl k))) k = (Ok (Inl (k\<lparr>pagusr_table := (pagusr_table k)[j := t]\<rparr>)) :: (kernel + kernel) res)"
      "length t = TOTAL_PAGES" "\<And>i. i < TOTAL_PAGES \<Longrightarrow> t ! i = 0" by auto
  let ?k = "k\<lparr>pagusr_table := (pagusr_table k)[j := t]\<rparr>"
  from set_table_rounds [of j ?k 1 255 "\<lambda>i. pte (of_nat i) False True"] assms(1) t(2) le(1) obtain tab where
    tab: "for_each [1..<1 + 255] (\<lambda>i k. bind (set_pte j i (pte (of_nat i) False True) k) (\<lambda>k. Ok (Inl k))) ?k =
        (Ok (Inl (?k\<lparr>pagusr_table := (pagusr_table k)[j := tab]\<rparr>)) :: (kernel + kernel) res)" "length tab = TOTAL_PAGES"
      "\<And>i. i < TOTAL_PAGES \<Longrightarrow> tab ! i = (if 1 \<le> i \<and> i < 1 + 255 then pte (of_nat i) False True else t ! i)" by auto
  have "tab = kernel_table"
    by (rule nth_equalityI) (simp_all add: kernel_table_def tab(2), simp add: tab(3) t(3) le(2))
  with t(1) tab(1) show ?thesis unfolding le(2) by simp
qed

lemma init_table_pages_Ok:
  assumes "length (pagusr_table k) = NR_TASKS" and "\<forall>pt < NR_TASKS. length (pagusr_table k ! pt) = TOTAL_PAGES"
  shows "init_table_pages k = Ok (k\<lparr>pagusr_table := replicate NR_TASKS kernel_table\<rparr>)"
proof -
  define I where "I = (\<lambda>n k'. k' = k\<lparr>pagusr_table := replicate n kernel_table @ drop n (pagusr_table k)\<rparr>)"
  let ?body = "\<lambda>j k. bind (for_each [0..<TOTAL_PAGES] (\<lambda>i k. bind (set_pte j i 0 k) (\<lambda>k. Ok (Inl k))) k) (\<lambda>r.
       for_each [1..<NUM_PAG_KERNEL] (\<lambda>i k. bind (set_pte j i (pte (of_nat i) False True) k) (\<lambda>k. Ok (Inl k)))
         (case r of Inl k \<Rightarrow> k | Inr k \<Rightarrow> k))"
  have "\<exists>t. for_each [0..<NR_TASKS] ?body k = (Ok (Inl t) :: (kernel + kernel) res) \<and> I NR_TASKS t"
  proof (rule for_upto_rule)
    show "I 0 k" by (simp add: I_def)
  next
    fix n k1 assume n: "n < NR_TASKS" and "I n k1"
    then have k1: "k1 = k\<lparr>pagusr_table := replicate n kernel_table @ drop n (pagusr_table k)\<rparr>" by (simp add: I_def)
    have row: "pagusr_table k1 ! n = pagusr_table k ! n" "n < length (pagusr_table k1)" using n assms(1) by (simp_all add: k1 nth_append)
    have "?body n k1 = (Ok (Inl (k1\<lparr>pagusr_table := (pagusr_table k1)[n := kernel_table]\<rparr>)) :: (kernel + kernel) res)"
      by (rule init_one_table) (use row n assms(2) in simp_all)
    moreover have "(pagusr_table k1)[n := kernel_table] = replicate (Suc n) kernel_table @ drop (Suc n) (pagusr_table k)"
      using n assms(1) by (simp add: k1 list_update_append replicate_append_same [symmetric] Cons_nth_drop_Suc [symmetric])
    ultimately show "\<exists>s'. ?body n k1 = (Ok (Inl s') :: (kernel + kernel) res) \<and> I (Suc n) s'" by (simp add: I_def k1)
  qed
  then obtain t where t: "for_each [0..<NR_TASKS] ?body k = (Ok (Inl t) :: (kernel + kernel) res)" "I NR_TASKS t" by blast
  show ?thesis unfolding init_table_pages_def t(1) using t(2) assms(1) by (simp add: I_def)
qed

lemma init_dir_pages_Ok:
  assumes "length (dir_pages k) = NR_TASKS"
  shows "init_dir_pages k = Ok (k\<lparr>dir_pages := map Some [0..<NR_TASKS]\<rparr>)"
proof -
  have "\<exists>t. for_each [0..<NR_TASKS] (\<lambda>i d. bind (aput d i (Some i)) (\<lambda>d. Ok (Inl d))) (dir_pages k) = (Ok (Inl t) :: (nat option list + nat option list) res) \<and>
      t = map Some [0..<NR_TASKS] @ drop NR_TASKS (dir_pages k)"
  proof (rule for_upto_rule)
    fix i d assume i: "i < NR_TASKS" and d: "d = map Some [0..<i] @ drop i (dir_pages k)"
    show "\<exists>d'. bind (aput d i (Some i)) (\<lambda>d. Ok (Inl d)) = (Ok (Inl d') :: (nat option list + nat option list) res) \<and>
        d' = map Some [0..<Suc i] @ drop (Suc i) (dir_pages k)"
      using i assms by (simp add: d list_update_append Cons_nth_drop_Suc [symmetric])
  qed simp
  with assms show ?thesis by (auto simp: init_dir_pages_def)
qed

text \<open>The globals as the image has them: arrays of their sizes, zero in the links and the usage counts.\<close>

definition blank :: "kernel \<Rightarrow> bool" where
  "blank k \<longleftrightarrow> length (task k) = NR_TASKS \<and> (\<forall>t \<in> set (task k). length (channel_table t) = CHANNEL_TABLE_SIZE) \<and>
     nxt (links k) = (\<lambda>_. NULL) \<and> dir_usage k = replicate NR_TASKS 0 \<and> next_PID k = 0 \<and> length (semafors k) = N_SEMAFORS \<and>
     length (phys_mem k) = TOTAL_PAGES \<and> length (dir_pages k) = NR_TASKS \<and>
     length (pagusr_table k) = NR_TASKS \<and> (\<forall>pt < NR_TASKS. length (pagusr_table k ! pt) = TOTAL_PAGES)"

definition boot_frames :: "byte list" where
  "boot_frames = replicate NUM_PAG_KERNEL USED_FRAME @ replicate (TOTAL_PAGES - NUM_PAG_KERNEL) FREE_FRAME"

lemma init_mm_Ok:
  assumes "blank k"
  shows "\<exists>d u. init_mm k = Ok (k\<lparr>pagusr_table := replicate NR_TASKS kernel_table, phys_mem := boot_frames, dir_pages := map Some [0..<NR_TASKS],
    dir_usage := u, task := (task k)[0 := (task k ! 0)\<lparr>dir_pages_baseAddr := Some d\<rparr>], cr3 := Some d\<rparr>) \<and> length u = NR_TASKS"
proof -
  note b = assms [unfolded blank_def]
  define k1 where "k1 = k\<lparr>pagusr_table := replicate NR_TASKS kernel_table, phys_mem := boot_frames, dir_pages := map Some [0..<NR_TASKS]\<rparr>"
  have "init_table_pages k = Ok (k\<lparr>pagusr_table := replicate NR_TASKS kernel_table\<rparr>)" by (rule init_table_pages_Ok) (use b in simp_all)
  moreover have "init_frames (k\<lparr>pagusr_table := replicate NR_TASKS kernel_table\<rparr>) =
      Ok (0, k\<lparr>pagusr_table := replicate NR_TASKS kernel_table, phys_mem := boot_frames\<rparr>)"
    using init_frames_marks [of "k\<lparr>pagusr_table := replicate NR_TASKS kernel_table\<rparr>"] b by (simp add: boot_frames_def)
  moreover have "init_dir_pages (k\<lparr>pagusr_table := replicate NR_TASKS kernel_table, phys_mem := boot_frames\<rparr>) = Ok k1"
    using init_dir_pages_Ok [of "k\<lparr>pagusr_table := replicate NR_TASKS kernel_table, phys_mem := boot_frames\<rparr>"] b by (simp add: k1_def)
  moreover have pos: "0 < NR_TASKS" by (simp add: NR_TASKS_def)
  then have "\<exists>d < NR_TASKS. dir_usage k1 ! d = 0" using b by (intro exI [of _ 0]) (simp add: k1_def)
  from allocate_DIR_finds [of k1 0, OF _ _ this] b pos obtain d where
    al: "allocate_DIR 0 k1 = Ok (int d, k1\<lparr>dir_usage := (dir_usage k1)[d := 1], task := (task k1)[0 := (task k1 ! 0)\<lparr>dir_pages_baseAddr := Some d\<rparr>]\<rparr>)"
    by (auto simp: k1_def)
  define k2 where "k2 = k1\<lparr>dir_usage := (dir_usage k1)[d := 1], task := (task k1)[0 := (task k1 ! 0)\<lparr>dir_pages_baseAddr := Some d\<rparr>]\<rparr>"
  have len: "length (task k2) = NR_TASKS" "length (task k) = NR_TASKS" using b by (simp_all add: k2_def k1_def)
  have "get_task k2 0 = Ok (task k2 ! 0)" by (rule get_task_Ok) (simp only: len pos)
  moreover have "task k2 ! 0 = (task k ! 0)\<lparr>dir_pages_baseAddr := Some d\<rparr>"
    unfolding k2_def k1_def using len(2) pos by (simp del: length_greater_0_conv add: nth_list_update)
  moreover note al [folded k2_def]
  ultimately have "init_mm k = Ok (k2\<lparr>cr3 := Some d\<rparr>)" by (simp add: init_mm_def get_DIR_def)
  then show ?thesis using b by (intro exI [of _ d] exI [of _ "(dir_usage k1)[d := 1]"]) (simp add: k2_def, simp add: k1_def)
qed

section \<open>Processes\<close>

text \<open>The lists while the kernel starts: \<open>n\<close> tasks are free, the last ones first.\<close>

definition boot_queues :: "nat \<Rightarrow> node \<rightharpoonup> node list" where
  "boot_queues n = [Ready_Queue \<mapsto> [], Free_Queue \<mapsto> map Task (rev [0..<n])]"

lemma boot_queues_simps:
  "boot_queues n Free_Queue = Some (map Task (rev [0..<n]))" "boot_queues n Ready_Queue = Some []" "boot_queues n (Sem_Queue s) = None"
  "(boot_queues n)(Free_Queue \<mapsto> map Task (rev [0..<m])) = boot_queues m" "free_node (boot_queues n) (Task i) \<longleftrightarrow> n \<le> i"
  "members (boot_queues n) = Task ` {..<n}"
proof -
  show "free_node (boot_queues n) (Task i) \<longleftrightarrow> n \<le> i" by (auto simp: free_node_def boot_queues_def)
  have "q = Free_Queue \<and> x \<in> Task ` {..<n}" if "boot_queues n q = Some xs" "x \<in> set xs" for q xs x
    using that by (cases "q = Free_Queue"; cases "q = Ready_Queue") (auto simp: boot_queues_def)
  moreover have "Task ` {..<n} \<subseteq> members (boot_queues n)"
    using members_mem [of "boot_queues n" Free_Queue "map Task (rev [0..<n])"] by (auto simp: boot_queues_def)
  ultimately show "members (boot_queues n) = Task ` {..<n}" unfolding members_def by blast
qed (simp_all add: boot_queues_def)

lemma boot_first: "boot_queues (Suc n) Free_Queue = Some ([] @ Task n # map Task (rev [0..<n]))"
  by (simp add: boot_queues_simps)

lemma no_lists:
  assumes "nxt h = (\<lambda>_. NULL)"
  shows "holds_lists h (\<lambda>_. None)"
  using assms by (simp add: holds_lists_def separate_def free_node_def)

lemma initialize_sem_Ok:
  assumes "length (semafors k) = N_SEMAFORS"
  shows "\<exists>ss. initialize_sem k = Ok (k\<lparr>semafors := ss\<rparr>) \<and> length ss = N_SEMAFORS \<and> (\<forall>s < N_SEMAFORS. sem_used (ss ! s) = 0)"
proof -
  let ?body = "\<lambda>i (ss :: sem list). bind (aget ss i) (\<lambda>s.
       bind (aput ss i (s\<lparr>sem_used := 0, sem_id := 0xDEAD, sem_owner := 0xDEAD, sem_count := 0xDEAD\<rparr>)) (\<lambda>ss. Ok (Inl ss)))"
  have n: "N_SEMAFORS = 20" by (simp add: N_SEMAFORS_def)
  have "\<exists>t. for_each [0..<20] ?body (semafors k) = (Ok (Inl t) :: (sem list + sem list) res) \<and> length t = N_SEMAFORS \<and> (\<forall>s < 20. sem_used (t ! s) = 0)"
  proof (rule for_upto_rule)
    show "length (semafors k) = N_SEMAFORS \<and> (\<forall>s < 0. sem_used (semafors k ! s) = 0)" using assms by simp
  next
    fix i and ss :: "sem list" assume "i < 20" and "length ss = N_SEMAFORS \<and> (\<forall>s < i. sem_used (ss ! s) = 0)"
    then show "\<exists>s'. ?body i ss = (Ok (Inl s') :: (sem list + sem list) res) \<and> length s' = N_SEMAFORS \<and> (\<forall>s < Suc i. sem_used (s' ! s) = 0)"
      by (auto simp: n nth_list_update less_Suc_eq)
  qed
  then show ?thesis by (auto simp: initialize_sem_def n)
qed

lemma init_sched_Ok:
  assumes "nxt (links k) = (\<lambda>_. NULL)" and "length (task k) = NR_TASKS" and "length (dir_usage k) = NR_TASKS" and "length (semafors k) = N_SEMAFORS"
  shows "\<exists>h ts ss. init_sched k = Ok (k\<lparr>links := h, task := ts, dir_usage := replicate NR_TASKS 0, semafors := ss\<rparr>) \<and>
    holds_lists h (boot_queues NR_TASKS) \<and> length ts = NR_TASKS \<and> (\<forall>i < NR_TASKS. ts ! i = (task k ! i)\<lparr>PID := -1\<rparr>) \<and>
    length ss = N_SEMAFORS \<and> (\<forall>s < N_SEMAFORS. sem_used (ss ! s) = 0)"
proof -
  have "free_node (\<lambda>_. None) Free_Queue" by (simp add: free_node_def)
  with lists.init_law [OF no_lists [OF assms(1)], of Free_Queue] obtain h1 where
    h1: "INIT_LIST_HEAD Free_Queue (links k) = Ok h1" "holds_lists h1 [Free_Queue \<mapsto> []]" by auto
  have "free_node [Free_Queue \<mapsto> []] Ready_Queue" by (simp add: free_node_def)
  with lists.init_law [OF h1(2), of Ready_Queue] obtain h2 where
    h2: "INIT_LIST_HEAD Ready_Queue h1 = Ok h2" "holds_lists h2 [Free_Queue \<mapsto> [], Ready_Queue \<mapsto> []]" by auto
  have "[Free_Queue \<mapsto> [], Ready_Queue \<mapsto> []] = boot_queues 0" by (auto simp: boot_queues_def)
  with h2(2) have h2': "holds_lists h2 (boot_queues 0)" by simp
  let ?body = "\<lambda>i k. bind (set_task i (\<lambda>t. t\<lparr>PID := -1\<rparr>) k) (\<lambda>k. bind (on_lists (list_add (Task i) Free_Queue) k) (\<lambda>k.
        bind (aput (dir_usage k) i 0) (\<lambda>u. Ok (Inl (k\<lparr>dir_usage := u\<rparr>)))))"
  define I where "I = (\<lambda>n k'. \<exists>h ts us. k' = k\<lparr>links := h, task := ts, dir_usage := us\<rparr> \<and> holds_lists h (boot_queues n) \<and>
    length ts = NR_TASKS \<and> (\<forall>i < NR_TASKS. ts ! i = (if i < n then (task k ! i)\<lparr>PID := -1\<rparr> else task k ! i)) \<and>
    us = replicate n 0 @ drop n (dir_usage k))"
  have "\<exists>k'. for_each [0..<NR_TASKS] ?body (k\<lparr>links := h2\<rparr>) = (Ok (Inl k') :: (kernel + kernel) res) \<and> I NR_TASKS k'"
  proof (rule for_upto_rule)
    show "I 0 (k\<lparr>links := h2\<rparr>)" unfolding I_def
      by (rule exI [of _ h2], rule exI [of _ "task k"], rule exI [of _ "dir_usage k"]) (simp add: h2' assms(2))
  next
    fix n k1 assume n: "n < NR_TASKS" and "I n k1"
    then obtain h ts where k1: "k1 = k\<lparr>links := h, task := ts, dir_usage := replicate n 0 @ drop n (dir_usage k)\<rparr>" and
      h: "holds_lists h (boot_queues n)" and ts: "length ts = NR_TASKS" "\<forall>i < NR_TASKS. ts ! i = (if i < n then (task k ! i)\<lparr>PID := -1\<rparr> else task k ! i)"
      unfolding I_def by blast
    from lists.add_law [OF h boot_queues_simps(1), of "Task n"] obtain h' where
      h': "list_add (Task n) Free_Queue h = Ok h'" "holds_lists h' ((boot_queues n)(Free_Queue \<mapsto> Task n # map Task (rev [0..<n])))"
      by (auto simp: boot_queues_simps)
    have "(boot_queues n)(Free_Queue \<mapsto> Task n # map Task (rev [0..<n])) = boot_queues (Suc n)"
      using boot_queues_simps(4) [of n "Suc n"] by simp
    with h'(2) have q: "holds_lists h' (boot_queues (Suc n))" by simp
    let ?k = "k\<lparr>links := h', task := ts[n := (ts ! n)\<lparr>PID := -1\<rparr>], dir_usage := replicate (Suc n) 0 @ drop (Suc n) (dir_usage k)\<rparr>"
    have "(replicate n 0 @ drop n (dir_usage k))[n := 0] = replicate (Suc n) 0 @ drop (Suc n) (dir_usage k)"
      using n assms(3) by (simp add: list_update_append replicate_append_same [symmetric] Cons_nth_drop_Suc [symmetric])
    then have "?body n k1 = (Ok (Inl ?k) :: (kernel + kernel) res)"
      using n ts(1) h'(1) assms(3) by (simp add: k1 set_task_Ok on_lists_def)
    moreover have "I (Suc n) ?k" unfolding I_def
      by (rule exI [of _ h'], rule exI [of _ "ts[n := (ts ! n)\<lparr>PID := -1\<rparr>]"], rule exI, intro conjI, rule refl, rule q,
        use n ts in \<open>auto simp: nth_list_update less_Suc_eq\<close>)
    ultimately show "\<exists>s'. ?body n k1 = (Ok (Inl s') :: (kernel + kernel) res) \<and> I (Suc n) s'" by blast
  qed
  then obtain h ts where run: "for_each [0..<NR_TASKS] ?body (k\<lparr>links := h2\<rparr>) =
      (Ok (Inl (k\<lparr>links := h, task := ts, dir_usage := replicate NR_TASKS 0\<rparr>)) :: (kernel + kernel) res)" and
    h: "holds_lists h (boot_queues NR_TASKS)" and ts: "length ts = NR_TASKS" "\<forall>i < NR_TASKS. ts ! i = (task k ! i)\<lparr>PID := -1\<rparr>"
    unfolding I_def using assms(3) by auto
  from initialize_sem_Ok [of "k\<lparr>links := h, task := ts, dir_usage := replicate NR_TASKS 0\<rparr>"] assms(4) obtain ss where
    ss: "initialize_sem (k\<lparr>links := h, task := ts, dir_usage := replicate NR_TASKS 0\<rparr>) =
      Ok (k\<lparr>links := h, task := ts, dir_usage := replicate NR_TASKS 0, semafors := ss\<rparr>)" "length ss = N_SEMAFORS"
      "\<forall>s < N_SEMAFORS. sem_used (ss ! s) = 0" by auto
  have "init_sched k = Ok (k\<lparr>links := h, task := ts, dir_usage := replicate NR_TASKS 0, semafors := ss\<rparr>)"
    using h1(1) h2(1) run ss(1) by (simp add: init_sched_def on_lists_def)
  with h ts ss(2,3) show ?thesis by blast
qed

lemma take_PCB_Ok:
  assumes "holds_lists (links k) (boot_queues (Suc n))"
  shows "\<exists>h. take_PCB k = Ok (n, k\<lparr>links := h\<rparr>) \<and> holds_lists h (boot_queues n)"
proof -
  from lists.del_law [OF assms boot_first] obtain h where
    h: "list_del (Task n) (links k) = Ok h" "holds_lists h (boot_queues n)" by (auto simp: boot_queues_simps)
  have "list_first (links k) Free_Queue = Ok (Task n)"
    by (rule lists.first_law [OF assms]) (simp add: boot_queues_simps)
  with h show ?thesis by (intro exI [of _ h]) (simp add: take_PCB_def on_lists_def)
qed

lemma init_idle_Ok:
  assumes "holds_lists (links k) (boot_queues (Suc n))" and "n < NR_TASKS" and "length (task k) = NR_TASKS"
    and "length (dir_usage k) = NR_TASKS" and "\<exists>d < NR_TASKS. dir_usage k ! d = 0"
  shows "\<exists>h t d ts. init_idle k = Ok (k\<lparr>links := h, next_PID := next_PID k + 1, dir_usage := (dir_usage k)[d := 1], idle_task := n,
      tsc := ts, task := (task k)[n := t]\<rparr>) \<and>
    holds_lists h (boot_queues n) \<and> d < NR_TASKS \<and> dir_usage k ! d = 0 \<and> dir_pages_baseAddr t = Some d \<and> PID t = sint (next_PID k)"
proof -
  from take_PCB_Ok [OF assms(1)] obtain h where h: "take_PCB k = Ok (n, k\<lparr>links := h\<rparr>)" "holds_lists h (boot_queues n)" by blast
  define k1 where "k1 = k\<lparr>links := h, task := (task k)[n := (task k ! n)\<lparr>PID := sint (next_PID k)\<rparr>], next_PID := next_PID k + 1\<rparr>"
  from allocate_DIR_finds [of k1 n] assms(2-5) obtain d where d: "d < NR_TASKS" "dir_usage k ! d = 0" and
    alloc: "allocate_DIR n k1 = Ok (int d, k1\<lparr>dir_usage := (dir_usage k)[d := 1],
      task := (task k)[n := (task k ! n)\<lparr>PID := sint (next_PID k), dir_pages_baseAddr := Some d\<rparr>]\<rparr>)"
    by (auto simp: k1_def)
  define k2 where "k2 = k1\<lparr>dir_usage := (dir_usage k)[d := 1],
      task := (task k)[n := (task k ! n)\<lparr>PID := sint (next_PID k), dir_pages_baseAddr := Some d\<rparr>], idle_task := n\<rparr>"
  from init_stats_Ok [of n k2] assms(2,3) obtain st ts where
    st: "init_stats n k2 = Ok (k2\<lparr>tsc := ts, task := (task k)[n := (task k ! n)\<lparr>PID := sint (next_PID k), dir_pages_baseAddr := Some d, stats := st\<rparr>]\<rparr>)"
    by (auto simp: k2_def)
  define t where "t = (task k ! n)\<lparr>PID := sint (next_PID k), dir_pages_baseAddr := Some d, stats := st, quantum := DEFAULT_QUANTUM\<rparr>"
  have "init_idle k = Ok (k2\<lparr>tsc := ts, task := (task k)[n := t]\<rparr>)"
    using h(1) alloc st assms(2,3) by (simp add: init_idle_def set_task_Ok k1_def [symmetric] k2_def [symmetric] t_def)
  with h(2) d show ?thesis by (intro exI [of _ h] exI [of _ t] exI [of _ d] exI [of _ ts]) (simp add: k2_def k1_def t_def)
qed

definition no_channel :: channel_table_entry where "no_channel = \<lparr>fd = 0, OFT_entry_num = -1\<rparr>"

lemma init_channels:
  assumes "c < length (task k)" and "length (channel_table (task k ! c)) = CHANNEL_TABLE_SIZE"
  shows "for_each [0..<CHANNEL_TABLE_SIZE] (\<lambda>i k. bind (get_CHT c k) (\<lambda>ct. bind (aput ct i \<lparr>fd = 0, OFT_entry_num = -1\<rparr>) (\<lambda>ct.
        bind (set_task c (\<lambda>t. t\<lparr>channel_table := ct\<rparr>) k) (\<lambda>k. Ok (Inl k))))) k =
      (Ok (Inl (k\<lparr>task := (task k)[c := (task k ! c)\<lparr>channel_table := replicate CHANNEL_TABLE_SIZE no_channel\<rparr>]\<rparr>)) :: (kernel + kernel) res)"
proof -
  let ?tab = "channel_table (task k ! c)"
  let ?body = "\<lambda>i k. bind (get_CHT c k) (\<lambda>ct. bind (aput ct i \<lparr>fd = 0, OFT_entry_num = -1\<rparr>) (\<lambda>ct.
        bind (set_task c (\<lambda>t. t\<lparr>channel_table := ct\<rparr>) k) (\<lambda>k. Ok (Inl k))))"
  define after where "after = (\<lambda>n. k\<lparr>task := (task k)[c := (task k ! c)\<lparr>channel_table := replicate n no_channel @ drop n ?tab\<rparr>]\<rparr>)"
  have "\<exists>t. for_each [0..<CHANNEL_TABLE_SIZE] ?body k = (Ok (Inl t) :: (kernel + kernel) res) \<and> t = after CHANNEL_TABLE_SIZE"
  proof (rule for_upto_rule)
    show "k = after 0" by (simp add: after_def)
  next
    fix i k1 assume i: "i < CHANNEL_TABLE_SIZE" and k1: "k1 = after i"
    have "(replicate i no_channel @ drop i ?tab)[i := no_channel] = replicate (Suc i) no_channel @ drop (Suc i) ?tab"
      using i assms(2) by (simp add: list_update_append replicate_append_same [symmetric] Cons_nth_drop_Suc [symmetric])
    then show "\<exists>s'. ?body i k1 = (Ok (Inl s') :: (kernel + kernel) res) \<and> s' = after (Suc i)"
      using i assms by (simp add: k1 after_def get_CHT_def get_task_Ok set_task_Ok no_channel_def [symmetric])
  qed
  with assms(2) show ?thesis by (simp add: after_def)
qed

lemma init_task1_Ok:
  assumes "holds_lists (links k) (boot_queues (Suc n))" and n: "n < NR_TASKS" "length (task k) = NR_TASKS"
    and dir: "length (dir_usage k) = NR_TASKS" "\<exists>d < NR_TASKS. dir_usage k ! d = 0" "dir_pages k = map Some [0..<NR_TASKS]"
    and tab: "length (pagusr_table k) = NR_TASKS" "\<forall>pt < NR_TASKS. length (pagusr_table k ! pt) = TOTAL_PAGES"
    and mem: "length (phys_mem k) = TOTAL_PAGES" "NUM_PAG_CODE + NUM_PAG_DATA \<le> length (allocatable k)"
    and ct: "length (channel_table (task k ! n)) = CHANNEL_TABLE_SIZE"
  shows "\<exists>k' d m tab. init_task1 k = Ok k' \<and> holds_lists (links k') (boot_queues n) \<and> d < NR_TASKS \<and> dir_usage k ! d = 0 \<and>
    length (task k') = NR_TASKS \<and> (\<forall>i. dir_of k' i = (if i = n then Some d else dir_of k i)) \<and> PID (task k' ! n) = sint (next_PID k) \<and>
    channel_table (task k' ! n) = replicate CHANNEL_TABLE_SIZE no_channel \<and>
    dir_usage k' = (dir_usage k)[d := 1] \<and> tss_esp0 k' = n \<and> next_PID k' = next_PID k + 1 \<and> idle_task k' = idle_task k \<and> semafors k' = semafors k \<and> dir_pages k' = dir_pages k \<and>
    phys_mem k' = m \<and> pagusr_table k' = (pagusr_table k)[d := tab] \<and>
    length m = TOTAL_PAGES \<and> allocatable (k\<lparr>phys_mem := m\<rparr>) = drop (NUM_PAG_CODE + NUM_PAG_DATA) (allocatable k) \<and> length tab = TOTAL_PAGES \<and>
    (\<forall>j < NUM_PAG_DATA. tab ! (PAG_LOG_INIT_DATA + j) = pte (of_nat (allocatable k ! (NUM_PAG_CODE + j))) True True) \<and>
    (\<forall>j < NUM_PAG_CODE. tab ! (PAG_LOG_INIT_CODE + j) = pte (of_nat (allocatable k ! j)) True False) \<and>
    (\<forall>p < PAG_LOG_INIT_CODE. tab ! p = pagusr_table k ! d ! p) \<and> cr3 k' = Some d"
proof -
  from take_PCB_Ok [OF assms(1)] obtain h where h: "take_PCB k = Ok (n, k\<lparr>links := h\<rparr>)" "holds_lists h (boot_queues n)" by blast
  define t1 where "t1 = (task k ! n)\<lparr>PID := sint (next_PID k)\<rparr>"
  define k1 where "k1 = k\<lparr>links := h, task := (task k)[n := t1], next_PID := next_PID k + 1\<rparr>"
  from allocate_DIR_finds [of k1 n] n dir(1,2) obtain d where d: "d < NR_TASKS" "dir_usage k ! d = 0" and
    alloc: "allocate_DIR n k1 = Ok (int d, k1\<lparr>dir_usage := (dir_usage k)[d := 1], task := (task k)[n := t1\<lparr>dir_pages_baseAddr := Some d\<rparr>]\<rparr>)"
    by (auto simp: k1_def)
  define k2 where "k2 = k1\<lparr>dir_usage := (dir_usage k)[d := 1], task := (task k)[n := t1\<lparr>dir_pages_baseAddr := Some d\<rparr>]\<rparr>"
  have same: "phys_mem k2 = phys_mem k" "pagusr_table k2 = pagusr_table k" by (simp_all add: k2_def k1_def)
  have al2: "allocatable k2 = allocatable k" by (simp add: allocatable_def same(1))
  have "get_PT n k2 = Ok d" by (rule get_PT_Ok) (use n d(1) dir(3) in \<open>simp_all add: k2_def k1_def dir_of_def\<close>)
  from set_user_pages_maps [OF this] d(1) tab mem obtain m tb where
    maps: "set_user_pages n k2 = Ok (k2\<lparr>phys_mem := m, pagusr_table := (pagusr_table k)[d := tb]\<rparr>)" and
    m: "length m = TOTAL_PAGES" "allocatable (k2\<lparr>phys_mem := m\<rparr>) = drop (NUM_PAG_CODE + NUM_PAG_DATA) (allocatable k)" "length tb = TOTAL_PAGES"
      "\<forall>j < NUM_PAG_DATA. tb ! (PAG_LOG_INIT_DATA + j) = pte (of_nat (allocatable k ! (NUM_PAG_CODE + j))) True True"
      "\<forall>j < NUM_PAG_CODE. tb ! (PAG_LOG_INIT_CODE + j) = pte (of_nat (allocatable k ! j)) True False"
      "\<forall>p < PAG_LOG_INIT_CODE. tb ! p = pagusr_table k ! d ! p"
    unfolding same al2 by auto
  define k3 where "k3 = k2\<lparr>phys_mem := m, pagusr_table := (pagusr_table k)[d := tb]\<rparr>"
  define t3 where "t3 = t1\<lparr>dir_pages_baseAddr := Some d, quantum := DEFAULT_QUANTUM\<rparr>"
  have t3: "get_DIR n k3 = Ok (Some d)" "task k3 = (task k)[n := t1\<lparr>dir_pages_baseAddr := Some d\<rparr>]" "length (task k3) = NR_TASKS"
    using n by (simp_all add: get_DIR_def get_task_Ok k3_def k2_def k1_def)
  define k4 where "k4 = k3\<lparr>cr3 := Some d, tss_esp0 := n, task := (task k)[n := t3], quantum_left := sint DEFAULT_QUANTUM\<rparr>"
  have len4: "length (task k4) = NR_TASKS" "task k4 = (task k)[n := t3]" using n by (simp_all add: k4_def)
  with init_stats_Ok [of n k4] n obtain st ts where st: "init_stats n k4 = Ok (k4\<lparr>tsc := ts, task := (task k)[n := t3\<lparr>stats := st\<rparr>]\<rparr>)" by auto
  define k5 where "k5 = k4\<lparr>tsc := ts, task := (task k)[n := t3\<lparr>stats := st\<rparr>]\<rparr>"
  define k' where "k' = k5\<lparr>task := (task k)[n := t3\<lparr>stats := st, channel_table := replicate CHANNEL_TABLE_SIZE no_channel\<rparr>]\<rparr>"
  have "n < length (task k5)" "length (channel_table (task k5 ! n)) = CHANNEL_TABLE_SIZE" using n ct by (simp_all add: k5_def t3_def t1_def)
  note init_channels [OF this]
  moreover have "(task k5)[n := (task k5 ! n)\<lparr>channel_table := replicate CHANNEL_TABLE_SIZE no_channel\<rparr>] =
      (task k)[n := t3\<lparr>stats := st, channel_table := replicate CHANNEL_TABLE_SIZE no_channel\<rparr>]" using n by (simp add: k5_def)
  moreover have "set_task n (\<lambda>t. t\<lparr>quantum := DEFAULT_QUANTUM\<rparr>) (k3\<lparr>cr3 := Some d, tss_esp0 := n\<rparr>) =
      Ok (k3\<lparr>cr3 := Some d, tss_esp0 := n, task := (task k)[n := t3]\<rparr>)" using n t3(2,3) by (simp add: set_task_Ok t3_def)
  moreover have "set_task n (\<lambda>t. t\<lparr>PID := sint (next_PID k)\<rparr>) (k\<lparr>links := h\<rparr>) = Ok (k\<lparr>links := h, task := (task k)[n := t1]\<rparr>)"
    using n by (simp add: set_task_Ok t1_def)
  ultimately have "init_task1 k = Ok k'"
    using h(1) alloc [folded k2_def] maps [folded k3_def] t3(1) st [folded k5_def]
    by (simp add: init_task1_def k1_def [symmetric] k4_def [symmetric] k'_def)
  moreover have "\<forall>i. dir_of k' i = (if i = n then Some d else dir_of k i)" using n by (simp add: k'_def dir_of_def t3_def nth_list_update)
  moreover have "PID (task k' ! n) = sint (next_PID k)" "channel_table (task k' ! n) = replicate CHANNEL_TABLE_SIZE no_channel"
    using n by (simp_all add: k'_def t3_def t1_def)
  moreover have "allocatable (k\<lparr>phys_mem := m\<rparr>) = drop (NUM_PAG_CODE + NUM_PAG_DATA) (allocatable k)" using m(2) by (simp add: allocatable_def)
  ultimately show ?thesis using h(2) d m(1,3-6) n
    by - (rule exI [of _ k'], rule exI [of _ d], rule exI [of _ m], rule exI [of _ tb], simp add: k'_def k5_def k4_def k3_def k2_def k1_def)
qed

section \<open>The first process\<close>

lemma first_isolated:
  assumes d: "d < length (pagusr_table k)" and L: "data_pages k L = {d} \<times> {..<NUM_PAG_DATA}"
    and tab: "\<forall>j < NUM_PAG_DATA. pagusr_table k ! d ! (PAG_LOG_INIT_DATA + j) = pte (of_nat (allocatable k0 ! (NUM_PAG_CODE + j))) True True"
    and al: "NUM_PAG_CODE + NUM_PAG_DATA \<le> length (allocatable k0)" "allocatable k = drop (NUM_PAG_CODE + NUM_PAG_DATA) (allocatable k0)"
  shows "isolated k L"
proof -
  let ?f = "\<lambda>j. allocatable k0 ! (NUM_PAG_CODE + j)"
  have dist: "distinct (allocatable k0)" by (simp add: allocatable_def distinct_candidates)
  have f: "?f j \<in> set (allocatable k0)" "?f j < TOTAL_PAGES" if "j < NUM_PAG_DATA" for j
  proof -
    show "?f j \<in> set (allocatable k0)" using that al(1) by simp
    then show "?f j < TOTAL_PAGES" using allocatable_mem by blast
  qed
  have frame: "data_frame k (d, j) = ?f j" if "j < NUM_PAG_DATA" for j
  proof -
    have "unat (of_nat (?f j) :: dword) = ?f j" using f(2) [OF that] by (simp add: unat_of_nat kernel_sizes)
    moreover have "?f j < 2 ^ 20" using f(2) [OF that] by (simp add: kernel_sizes)
    ultimately show ?thesis using tab that pte_fields(1) [of "of_nat (?f j)"] by (simp add: data_frame_def)
  qed
  have used: "phys_mem k ! ?f j \<noteq> FREE_FRAME" if "j < NUM_PAG_DATA" for j
  proof
    assume "phys_mem k ! ?f j = FREE_FRAME"
    then have "?f j \<in> set (allocatable k)" using f(1) [OF that] by (simp add: allocatable_mem)
    then have "?f j \<in> set (drop (NUM_PAG_CODE + NUM_PAG_DATA) (allocatable k0))" by (simp only: al(2))
    moreover have "?f j \<in> set (take (NUM_PAG_CODE + NUM_PAG_DATA) (allocatable k0))"
      using that al(1) by (auto simp: in_set_conv_nth intro!: exI [of _ "NUM_PAG_CODE + j"])
    ultimately show False using dist set_take_disj_set_drop_if_distinct [of "allocatable k0" "NUM_PAG_CODE + NUM_PAG_DATA" "NUM_PAG_CODE + NUM_PAG_DATA"] by blast
  qed
  have "inj_on (data_frame k) ({d} \<times> {..<NUM_PAG_DATA})"
    using frame dist al(1) by (auto simp: inj_on_def nth_eq_iff_index_eq)
  with frame used f(2) tab show ?thesis unfolding isolated_def L by (simp add: pte_fields)
qed

text \<open>The kernel pages from 1 on and the user pages are present in the current directory.\<close>

definition user_mapped :: "kernel \<Rightarrow> bool" where
  "user_mapped k \<longleftrightarrow> (\<exists>d. cr3 k = Some d \<and> d < NR_TASKS \<and>
     (\<forall>p. 1 \<le> p \<and> p < PAG_LOG_INIT_DATA + NUM_PAG_DATA \<longrightarrow> pte_present (pagusr_table k ! d ! p)))"

lemma pte_always_present: "pte_present (pte f u r)"
  by (auto simp: pte_present_def pte_def bit_simps)

lemma first_process_mapped:
  assumes "cr3 k = Some d" "d < NR_TASKS" "length (pagusr_table k) = NR_TASKS" "pagusr_table k ! d = tab"
    and "\<forall>p < PAG_LOG_INIT_CODE. tab ! p = kernel_table ! p"
    and "\<forall>j < NUM_PAG_CODE. tab ! (PAG_LOG_INIT_CODE + j) = pte (f j) True False"
    and "\<forall>j < NUM_PAG_DATA. tab ! (PAG_LOG_INIT_DATA + j) = pte (g j) True True"
  shows "user_mapped k"
  unfolding user_mapped_def
proof (intro exI conjI allI impI)
  fix p assume p: "1 \<le> p \<and> p < PAG_LOG_INIT_DATA + NUM_PAG_DATA"
  consider (kernel) "p < PAG_LOG_INIT_CODE" | (code) "PAG_LOG_INIT_CODE \<le> p" "p - PAG_LOG_INIT_CODE < NUM_PAG_CODE"
    | (data) "PAG_LOG_INIT_DATA \<le> p" "p - PAG_LOG_INIT_DATA < NUM_PAG_DATA"
    using p unfolding PAG_LOG_INIT_DATA_def by linarith
  then show "pte_present (pagusr_table k ! d ! p)"
  proof cases
    case kernel
    then show ?thesis using p assms(4,5) by (simp add: pte_always_present kernel_table_def kernel_sizes)
  next
    case code
    then show ?thesis using spec [OF assms(6), of "p - PAG_LOG_INIT_CODE"] assms(4) by (simp add: pte_always_present)
  next
    case data
    then show ?thesis using spec [OF assms(7), of "p - PAG_LOG_INIT_DATA"] assms(4) by (simp add: pte_always_present)
  qed
qed (use assms in simp_all)

lemma boot_Ok:
  assumes "blank k"
  shows "\<exists>k'. boot k = Ok k' \<and> sound k' (boot_queues 8) \<and> cur k' = 8 \<and> idle_task k' = 9 \<and> PID (task k' ! 8) = 1 \<and> next_PID k' = 2 \<and>
    allocatable k' = drop 28 frame_candidates \<and> channel_table (task k' ! 8) = replicate CHANNEL_TABLE_SIZE no_channel \<and> (\<forall>s < N_SEMAFORS. sem_used (semafors k' ! s) = 0) \<and> user_mapped k'"
proof -
  note b = assms [unfolded blank_def]
  have N: "NR_TASKS = Suc 9" "(9::nat) = Suc 8" by (simp_all add: NR_TASKS_def)
  from init_mm_Ok [OF assms] obtain k1 d0 where k1: "init_mm k = Ok k1" "links k1 = links k" "task k1 = (task k)[0 := (task k ! 0)\<lparr>dir_pages_baseAddr := Some d0\<rparr>]"
    "length (dir_usage k1) = NR_TASKS" "semafors k1 = semafors k" "next_PID k1 = 0" "phys_mem k1 = boot_frames" "dir_pages k1 = map Some [0..<NR_TASKS]"
    "pagusr_table k1 = replicate NR_TASKS kernel_table" using b by auto
  from init_sched_Ok [of k1] k1 b obtain k2 where k2: "init_sched k1 = Ok k2" "holds_lists (links k2) (boot_queues (Suc 9))" "length (task k2) = NR_TASKS"
    "\<forall>i < NR_TASKS. task k2 ! i = (task k1 ! i)\<lparr>PID := -1\<rparr>" "dir_usage k2 = replicate NR_TASKS 0" "length (semafors k2) = N_SEMAFORS"
    "\<forall>s < N_SEMAFORS. sem_used (semafors k2 ! s) = 0" "next_PID k2 = 0" "phys_mem k2 = boot_frames" "dir_pages k2 = map Some [0..<NR_TASKS]"
    "pagusr_table k2 = replicate NR_TASKS kernel_table" unfolding N(1) [symmetric] by auto
  have ct2: "length (channel_table (task k2 ! 8)) = CHANNEL_TABLE_SIZE" using k2(4) k1(3) b by (simp add: N(1))
  have c2: "counted k2 {}" using k2(5) by (simp add: counted_def sharing_def)
  have "(9::nat) < NR_TASKS" by (simp add: NR_TASKS_def)
  from init_idle_Ok [OF k2(2) this k2(3) _ free_directory [OF c2 finite.emptyI]] k2(5) obtain k3 d3 where
    k3: "init_idle k2 = Ok k3" "holds_lists (links k3) (boot_queues (Suc 8))" "d3 < NR_TASKS" "dir_usage k2 ! d3 = 0"
      "\<And>i. i < NR_TASKS \<Longrightarrow> dir_of k3 i = (if i = 9 then Some d3 else dir_of k2 i)" "dir_usage k3 = (dir_usage k2)[d3 := 1]" "idle_task k3 = 9"
      "length (task k3) = NR_TASKS" "task k3 ! 8 = task k2 ! 8" "next_PID k3 = 1" "semafors k3 = semafors k2" "phys_mem k3 = boot_frames"
      "dir_pages k3 = map Some [0..<NR_TASKS]" "pagusr_table k3 = replicate NR_TASKS kernel_table"
    using k2(3,8-11) by (auto simp: NR_TASKS_def dir_of_def nth_list_update)
  have c3: "counted k3 {9}"
    by (rule child_counted [OF c2 _ _ k3(3,4)]) (use k3(5,6) k2(5) in \<open>simp_all add: NR_TASKS_def\<close>)
  have al: "allocatable k3 = frame_candidates" "NUM_PAG_CODE + NUM_PAG_DATA \<le> length (allocatable k3)"
  proof -
    show "allocatable k3 = frame_candidates" unfolding allocatable_def
      by (rule filter_True) (auto simp: frame_candidates_range k3(12) boot_frames_def nth_append kernel_sizes)
    then show "NUM_PAG_CODE + NUM_PAG_DATA \<le> length (allocatable k3)" by (simp add: frame_candidates_def kernel_sizes)
  qed
  have "(8::nat) < NR_TASKS" "length (dir_usage k3) = NR_TASKS" "length (phys_mem k3) = TOTAL_PAGES" "length (pagusr_table k3) = NR_TASKS"
    "\<forall>pt < NR_TASKS. length (pagusr_table k3 ! pt) = TOTAL_PAGES" "length (channel_table (task k3 ! 8)) = CHANNEL_TABLE_SIZE"
    using k3(6,9,12,14) k2(5) ct2 by (simp_all add: boot_frames_def kernel_table_def) (simp_all add: kernel_sizes)
  from init_task1_Ok [OF k3(2) this(1) k3(8) this(2) free_directory [OF c3] k3(13) this(4,5,3) al(2) this(6)] obtain k4 d m tab where
    k4: "init_task1 k3 = Ok k4" "holds_lists (links k4) (boot_queues 8)" "d < NR_TASKS" "dir_usage k3 ! d = 0" "length (task k4) = NR_TASKS"
      "\<forall>i. dir_of k4 i = (if i = 8 then Some d else dir_of k3 i)" "PID (task k4 ! 8) = 1" "channel_table (task k4 ! 8) = replicate CHANNEL_TABLE_SIZE no_channel"
      "dir_usage k4 = (dir_usage k3)[d := 1]" "tss_esp0 k4 = 8" "next_PID k4 = 2" "idle_task k4 = 9" "semafors k4 = semafors k2" "dir_pages k4 = map Some [0..<NR_TASKS]"
      "phys_mem k4 = m" "pagusr_table k4 = (pagusr_table k3)[d := tab]" and
    m: "length m = TOTAL_PAGES" "allocatable (k3\<lparr>phys_mem := m\<rparr>) = drop (NUM_PAG_CODE + NUM_PAG_DATA) (allocatable k3)" "length tab = TOTAL_PAGES"
      "\<forall>j < NUM_PAG_DATA. tab ! (PAG_LOG_INIT_DATA + j) = pte (of_nat (allocatable k3 ! (NUM_PAG_CODE + j))) True True"
      "\<forall>j < NUM_PAG_CODE. tab ! (PAG_LOG_INIT_CODE + j) = pte (of_nat (allocatable k3 ! j)) True False"
      "\<forall>p < PAG_LOG_INIT_CODE. tab ! p = pagusr_table k3 ! d ! p" "cr3 k4 = Some d"
    using k3(7,10,11,13) by (auto simp: NR_TASKS_def)
  have live: "live (boot_queues 8) = {8, 9}" by (auto simp: live_def boot_queues_simps NR_TASKS_def)
  let ?k = "k4\<lparr>cur := 8\<rparr>"
  have counted4: "counted k4 {8, 9}"
    by (rule child_counted [OF c3 _ _ k4(3,4)]) (use k4(6,9) k3(6) k2(5) in simp_all)
  have "dir_of k3 9 = Some d3" using k3(5) by (simp add: NR_TASKS_def)
  then have pages: "data_pages k4 {8, 9} = {d} \<times> {..<NUM_PAG_DATA}" using k4(6,12) by (auto simp: data_pages_def)
  have al4: "allocatable k4 = drop (NUM_PAG_CODE + NUM_PAG_DATA) (allocatable k3)" using m(2) by (simp add: allocatable_def k4(15))
  from first_isolated [OF _ pages _ al(2) al4] k4(3,16) k3(14) m(4) have isolated4: "isolated k4 {8, 9}" by simp
  have "tables k4" using k4(3,9,14,15,16) k3(6,14) k2(5) m(1,3) by (auto simp: tables_def nth_list_update kernel_table_def)
  then have "other_processes k4 {8, 9}" using counted4 isolated4 by (simp add: other_processes_def)
  then have others: "other_processes ?k {8, 9}" by (rule others_same) (simp_all add: dir_of_def)
  have "consistent (Task ` {..<NR_TASKS}) ?k (boot_queues 8)"
  proof (rule consistentI)
    have sub: "set xs \<subseteq> Task ` {..<NR_TASKS} \<and> q \<notin> range Task" if "boot_queues 8 q = Some xs" for q xs
      using that by (auto simp: boot_queues_def NR_TASKS_def split: if_splits)
    show "queues ?k (boot_queues 8)" unfolding queues_def queues0_def
      using k4(2,5,12) sub by (simp add: boot_queues_simps) (simp add: NR_TASKS_def)
    show "if 0 < sem_used (semafors ?k ! s) then Sem_Queue s \<in> dom (boot_queues 8)
        else boot_queues 8 (Sem_Queue s) = None \<or> boot_queues 8 (Sem_Queue s) = Some []" if "s < N_SEMAFORS" for s
      using k2(7) k4(13) that by (simp add: boot_queues_simps)
    show "Task ` {..<NR_TASKS} = insert (Task (cur ?k)) (insert (Task (idle_task ?k)) (members (boot_queues 8)))"
      unfolding boot_queues_simps using k4(12) by (auto simp: NR_TASKS_def)
  qed (use k2(6) k4(13) in \<open>simp_all add: boot_queues_def\<close>)
  with others have "sound ?k (boot_queues 8)" unfolding sound_def live other_processes_def by (auto simp: boot_queues_def)
  moreover have "boot k = Ok ?k" using k1(1) k2(1) k3(1) k4(1,10) by (simp add: boot_def)
  moreover have "allocatable ?k = drop 28 frame_candidates" using al4 al(1) by (simp add: allocatable_def kernel_sizes)
  moreover have "user_mapped ?k"
    by (rule first_process_mapped [where d = d and tab = tab and f = "\<lambda>j. of_nat (allocatable k3 ! j)" and g = "\<lambda>j. of_nat (allocatable k3 ! (NUM_PAG_CODE + j))"])
      (use m(4-7) k4(3,16) k3(14) in simp_all)
  ultimately show ?thesis using k4(7,8,11,12,13) k2(7) by (intro exI [of _ ?k]) simp
qed

end
