(* ===== verification/Kernel_Exit.thy ===== *)
theory Kernel_Exit
  imports Kernel_Fork
begin

text \<open>
  \<open>sys_exit\<close>: the last process of a directory gives its frames back, the semaphores of the process are
  destroyed, it joins the free queue and another process runs; the invariant of the kernel is kept.
\<close>

section \<open>Exit\<close>

text \<open>The frames of the data pages are freed and the pages are unmapped; nothing else changes.\<close>

lemma free_user_pages_frees:
  assumes t: "t < length (task k)" "dir_of k t = Some f" "f < NR_TASKS" and S: "tables k"
  shows "\<exists>m tab. free_user_pages t k = Ok (k\<lparr>phys_mem := m, pagusr_table := (pagusr_table k)[f := tab]\<rparr>) \<and>
    length m = TOTAL_PAGES \<and> length tab = TOTAL_PAGES \<and> (\<forall>i. i \<notin> {data_frame k (f, j) | j. j < NUM_PAG_DATA} \<longrightarrow> m ! i = phys_mem k ! i) \<and>
    (\<forall>j < NUM_PAG_DATA. tab ! (PAG_LOG_INIT_DATA + j) = 0) \<and> (\<forall>j < NUM_PAG_DATA. (NUM_PAG_KERNEL < data_frame k (f, j) \<and> data_frame k (f, j) < TOTAL_PAGES \<longrightarrow> m ! data_frame k (f, j) = FREE_FRAME))"
proof -
  define I where "I = (\<lambda>n k'. \<exists>m tab. k' = k\<lparr>phys_mem := m, pagusr_table := (pagusr_table k)[f := tab]\<rparr> \<and>
    length m = TOTAL_PAGES \<and> length tab = TOTAL_PAGES \<and> (\<forall>i. i \<notin> {data_frame k (f, j) | j. j < NUM_PAG_DATA} \<longrightarrow> m ! i = phys_mem k ! i) \<and>
    (\<forall>j < NUM_PAG_DATA. tab ! (PAG_LOG_INIT_DATA + j) = (if j < n then 0 else pagusr_table k ! f ! (PAG_LOG_INIT_DATA + j))) \<and>
    (\<forall>j < n. NUM_PAG_KERNEL < data_frame k (f, j) \<and> data_frame k (f, j) < TOTAL_PAGES \<longrightarrow> m ! data_frame k (f, j) = FREE_FRAME))"
  have tabs: "f < length (pagusr_table k)" "length (pagusr_table k ! f) = TOTAL_PAGES" using S t(3) by (simp_all add: tables_def)
  let ?body = "\<lambda>pag k. bind (get_pte f (PAG_LOG_INIT_DATA + pag) k) (\<lambda>e. bind (free_frame (pbase_addr e) k) (\<lambda>k.
        bind (set_pte f (PAG_LOG_INIT_DATA + pag) 0 k) (\<lambda>k. Ok (Inl k))))"
  have "\<exists>k'. for_each [0..<NUM_PAG_DATA] ?body k = (Ok (Inl k') :: (kernel + kernel) res) \<and> I NUM_PAG_DATA k'"
  proof (rule for_upto_rule)
    show "I 0 k" unfolding I_def
      by (rule exI [of _ "phys_mem k"], rule exI [of _ "pagusr_table k ! f"], use tabs S in \<open>simp add: tables_def\<close>)
  next
    fix n k1 assume n: "n < NUM_PAG_DATA" and "I n k1"
    then obtain m tab where k1: "k1 = k\<lparr>phys_mem := m, pagusr_table := (pagusr_table k)[f := tab]\<rparr>" and
      m: "length m = TOTAL_PAGES" "\<forall>i. i \<notin> {data_frame k (f, j) | j. j < NUM_PAG_DATA} \<longrightarrow> m ! i = phys_mem k ! i" and
      tab: "length tab = TOTAL_PAGES" "\<forall>j < NUM_PAG_DATA. tab ! (PAG_LOG_INIT_DATA + j) = (if j < n then 0 else pagusr_table k ! f ! (PAG_LOG_INIT_DATA + j))" and
      free: "\<forall>j < n. NUM_PAG_KERNEL < data_frame k (f, j) \<and> data_frame k (f, j) < TOTAL_PAGES \<longrightarrow> m ! data_frame k (f, j) = FREE_FRAME"
      unfolding I_def by blast
    let ?i = "data_frame k (f, n)" and ?p = "PAG_LOG_INIT_DATA + n"
    define m' where "m' = (if NUM_PAG_KERNEL < ?i \<and> ?i < TOTAL_PAGES then m[?i := FREE_FRAME] else m)"
    have p: "?p < TOTAL_PAGES" using n by (simp add: kernel_sizes)
    have "get_pte f ?p k1 = Ok (pagusr_table k ! f ! ?p)" using tabs(1) tab n p by (simp add: get_pte_Ok k1)
    moreover have "free_frame (pbase_addr (pagusr_table k ! f ! ?p)) k1 = Ok (k1\<lparr>phys_mem := m'\<rparr>)"
      using m(1) by (simp add: free_frame_frees k1 m'_def data_frame_def)
    moreover have "set_pte f ?p 0 (k1\<lparr>phys_mem := m'\<rparr>) = Ok (k\<lparr>phys_mem := m', pagusr_table := (pagusr_table k)[f := tab[?p := 0]]\<rparr>)"
      using tabs(1) tab(1) p by (simp add: set_pte_Ok k1)
    moreover have "length m' = TOTAL_PAGES" using m(1) by (simp add: m'_def)
    moreover have "m' ! i = phys_mem k ! i" if "i \<notin> {data_frame k (f, j) | j. j < NUM_PAG_DATA}" for i
    proof -
      have "i \<noteq> ?i" using that n by blast
      then show ?thesis using m(2) that by (simp add: m'_def)
    qed
    moreover have "tab[?p := 0] ! (PAG_LOG_INIT_DATA + j) = (if j < Suc n then 0 else pagusr_table k ! f ! (PAG_LOG_INIT_DATA + j))"
      if "j < NUM_PAG_DATA" for j using that tab p by (cases "j = n") auto
    moreover have "m' ! data_frame k (f, j) = FREE_FRAME" if "j < Suc n" "NUM_PAG_KERNEL < data_frame k (f, j)" "data_frame k (f, j) < TOTAL_PAGES" for j
      using free that m(1) by (cases "j = n") (auto simp: m'_def nth_list_update less_Suc_eq)
    ultimately show "\<exists>s'. ?body n k1 = (Ok (Inl s') :: (kernel + kernel) res) \<and> I (Suc n) s'"
      unfolding I_def using tab(1) by - (rule exI, rule conjI, simp, rule exI [of _ m'], rule exI [of _ "tab[?p := 0]"], simp)
  qed
  then obtain k' where k': "for_each [0..<NUM_PAG_DATA] ?body k = (Ok (Inl k') :: (kernel + kernel) res)" "I NUM_PAG_DATA k'" by blast
  have "free_user_pages t k = Ok k'"
    using k'(1) get_PT_Ok [OF t(1,2) _ t(3)] S by (simp add: free_user_pages_def tables_def)
  with k'(2) show ?thesis unfolding I_def by simp
qed

lemma exit_counted:
  assumes k: "counted k L" "finite L" and t: "t \<in> L" "dir_of k t = Some f" "length (dir_usage k) = NR_TASKS"
    and k': "\<And>i. i \<in> L \<Longrightarrow> dir_of k' i = dir_of k i" "dir_usage k' = (dir_usage k)[f := dir_usage k ! f - 1]"
  shows "counted k' (L - {t})"
proof -
  have fr: "f < NR_TASKS" using k(1) t(1,2) by (auto simp: counted_def)
  have "sharing k' (L - {t}) e = (if e = f then sharing k L e - {t} else sharing k L e)" for e
    using t(2) k'(1) by (auto simp: sharing_def)
  moreover have "t \<in> sharing k L f" "finite (sharing k L f)" using t k(2) by (simp_all add: sharing_def)
  then have "int (card (sharing k L f - {t})) = int (card (sharing k L f)) - 1"
    by (metis card_Diff_singleton card_gt_0_iff empty_iff int_ops(2) of_nat_diff Suc_leI One_nat_def)
  moreover have "\<exists>e < NR_TASKS. dir_of k' i = Some e" if "i \<in> L - {t}" for i
    using that k'(1) k(1) by (auto simp: counted_def)
  ultimately show ?thesis using k(1) fr t(3) by (auto simp: counted_def k'(2) nth_list_update)
qed

text \<open>The first half of \<open>sys_exit\<close>: the directory is given up, and its data pages when nobody else uses it.\<close>

lemma exit_isolated:
  assumes k: "isolated k L" "t \<in> L" "t \<noteq> idle_task k" "dir_of k t = Some f" and none: "\<forall>i \<in> L - {t}. dir_of k i \<noteq> Some f"
    and m: "\<forall>i. i \<notin> {data_frame k (f, j) | j. j < NUM_PAG_DATA} \<longrightarrow> m ! i = phys_mem k ! i"
    and k': "\<And>i. dir_of k' i = dir_of k i" "idle_task k' = idle_task k" "phys_mem k' = m" "pagusr_table k' = (pagusr_table k)[f := tab]"
  shows "isolated k' (L - {t})"
proof -
  have sub: "data_pages k' (L - {t}) \<subseteq> data_pages k L" using k' by (auto simp: data_pages_def)
  have ne: "fst x \<noteq> f" if "x \<in> data_pages k' (L - {t})" for x using that none k'(1) by (auto simp: data_pages_def)
  have row: "pagusr_table k' ! fst x = pagusr_table k ! fst x" if "x \<in> data_pages k' (L - {t})" for x
    using ne [OF that] by (simp add: k'(4))
  then have frame: "data_frame k' x = data_frame k x" if "x \<in> data_pages k' (L - {t})" for x
    using that by (simp add: data_frame_def case_prod_beta)
  have "m ! data_frame k x = phys_mem k ! data_frame k x" if x: "x \<in> data_pages k' (L - {t})" for x
  proof -
    have "data_frame k x \<noteq> data_frame k (f, j)" if "j < NUM_PAG_DATA" for j
    proof
      assume "data_frame k x = data_frame k (f, j)"
      moreover have "(f, j) \<in> data_pages k L" using k(2-4) that by (auto simp: data_pages_def)
      ultimately have "x = (f, j)" using k(1) x sub unfolding isolated_def by (meson inj_onD subsetD)
      with ne [OF x] show False by simp
    qed
    then show ?thesis using m by blast
  qed
  moreover have "inj_on (data_frame k') (data_pages k' (L - {t}))"
    using k(1) frame sub unfolding isolated_def by (metis (no_types, lifting) inj_on_cong inj_on_subset)
  ultimately show ?thesis using k(1) frame row sub unfolding isolated_def k'(3) by (auto simp: case_prod_beta)
qed

text \<open>All data pages of directory \<open>f\<close> but one on frame 256, which \<open>free_frame\<close> does not take back.\<close>

definition data_freed :: "kernel \<Rightarrow> nat \<Rightarrow> byte list \<Rightarrow> bool" where
  "data_freed k f m \<longleftrightarrow> (\<forall>j < NUM_PAG_DATA. NUM_PAG_KERNEL < data_frame k (f, j) \<and> data_frame k (f, j) < TOTAL_PAGES \<longrightarrow> m ! data_frame k (f, j) = FREE_FRAME)"

lemma exit_releases:
  assumes s: "sound k Q" and cur: "cur k \<noteq> idle_task k" and f: "dir_of k (cur k) = Some f"
  defines "k0 \<equiv> k\<lparr>dir_usage := (dir_usage k)[f := dir_usage k ! f - 1]\<rparr>"
  shows "\<exists>k1. find_dir_usage (cur k) k = Ok (Some f) \<and> add_dir_usage (Some f) (-1) k = Ok (dir_usage k ! f - 1, k0) \<and>
    (if dir_usage k ! f - 1 = 0 then free_user_pages (cur k0) k0 else Ok k0) = Ok k1 \<and>
    other_processes k1 (live Q - {cur k}) \<and> (if dir_usage k ! f = 1 then data_freed k f (phys_mem k1) else phys_mem k1 = phys_mem k) \<and>
    task k1 = task k \<and> links k1 = links k \<and> cur k1 = cur k \<and> idle_task k1 = idle_task k \<and> semafors k1 = semafors k"
proof -
  from s obtain f' where q: "length (task k) = NR_TASKS" "cur k < NR_TASKS" and f': "dir_of k (cur k) = Some f'" "f' < NR_TASKS"
    by (rule soundD) blast
  have fr: "f < NR_TASKS" using f' f by simp
  have S: "tables k" "counted k (live Q)" "isolated k (live Q)" using s by (simp_all add: sound_def)
  note L = sound_live(1) [OF s]
  have len: "length (dir_usage k) = NR_TASKS" using S(1) by (simp add: tables_def)
  have "find_dir_usage (cur k) k = Ok (Some f)" by (rule find_dir_usage_Ok) (use q f fr in simp_all)
  moreover have "add_dir_usage (Some f) (-1) k = Ok (dir_usage k ! f - 1, k0)"
    using add_dir_usage_Ok [of f k "-1"] fr len by (simp add: k0_def)
  moreover have tab0: "tables k0" using S(1) by (simp add: k0_def tables_def)
  have dirs: "dir_of k0 = dir_of k" by (intro ext) (simp add: k0_def dir_of_def)
  have count: "counted k1 (live Q - {cur k})" if "dir_of k1 = dir_of k" "dir_usage k1 = dir_usage k0" for k1
    by (rule exit_counted [OF S(2) finite_live(1) L f len]) (simp_all add: that k0_def)
  moreover have "\<exists>k1. (if dir_usage k ! f - 1 = 0 then free_user_pages (cur k0) k0 else Ok k0) = Ok k1 \<and>
    other_processes k1 (live Q - {cur k}) \<and> (if dir_usage k ! f = 1 then data_freed k f (phys_mem k1) else phys_mem k1 = phys_mem k) \<and>
    task k1 = task k \<and> links k1 = links k \<and> cur k1 = cur k \<and> idle_task k1 = idle_task k \<and> semafors k1 = semafors k"
  proof (cases "dir_usage k ! f - 1 = 0")
    case True
    have none: "\<forall>i \<in> live Q - {cur k}. dir_of k i \<noteq> Some f"
      using counted_none [OF count [OF dirs refl] _ fr] True fr len finite_live(1) dirs by (simp add: k0_def)
    from free_user_pages_frees [of "cur k0" k0 f, OF _ _ fr tab0] q f dirs obtain m tab where
      run: "free_user_pages (cur k0) k0 = Ok (k0\<lparr>phys_mem := m, pagusr_table := (pagusr_table k)[f := tab]\<rparr>)" and
      m: "length m = TOTAL_PAGES" "length tab = TOTAL_PAGES" "\<forall>i. i \<notin> {data_frame k0 (f, j) | j. j < NUM_PAG_DATA} \<longrightarrow> m ! i = phys_mem k ! i" "data_freed k0 f m"
      by (auto simp: k0_def data_freed_def)
    let ?k1 = "k0\<lparr>phys_mem := m, pagusr_table := (pagusr_table k)[f := tab]\<rparr>"
    have frame: "data_frame k0 = data_frame k" by (simp add: k0_def data_frame_def)
    have same: "dir_of ?k1 = dir_of k" by (intro ext) (simp add: dir_of_def k0_def)
    have "isolated ?k1 (live Q - {cur k})"
      by (rule exit_isolated [OF S(3) L cur f none m(3) [unfolded frame]]) (simp_all add: same, simp add: k0_def)
    moreover have "tables ?k1" using tab0 m(1,2) fr by (auto simp: tables_def k0_def nth_list_update)
    ultimately have "other_processes ?k1 (live Q - {cur k})" using count [OF same] by (simp add: other_processes_def)
    moreover have "data_freed k f m" using m(4) by (simp add: data_freed_def frame)
    ultimately show ?thesis using run True by (intro exI [of _ ?k1]) (simp add: k0_def)
  next
    case False
    have "isolated k0 (live Q) = isolated k (live Q)" by (rule same_pages(1)) (simp_all add: dirs, simp_all add: k0_def)
    moreover have "data_pages k0 (live Q - {cur k}) \<subseteq> data_pages k0 (live Q)" by (auto simp: data_pages_def)
    ultimately have "isolated k0 (live Q - {cur k})" using S(3) unfolding isolated_def by (meson inj_on_subset subsetD)
    then have "other_processes k0 (live Q - {cur k})" using count [OF dirs refl] tab0 by (simp add: other_processes_def)
    then show ?thesis using False by (intro exI [of _ k0]) (simp add: k0_def)
  qed
  ultimately show ?thesis by blast
qed

text \<open>The second half: the process goes to the free queue and the next one runs.\<close>

lemma exit_switches:
  assumes "consistent T k Q" and "cur k \<noteq> idle_task k" and free: "Q Free_Queue = Some fs" and rs: "Q Ready_Queue = Some rs"
  shows "\<exists>h k'. update_process_state_rr (cur k) Free_Queue k = Ok (k\<lparr>links := h\<rparr>) \<and> sched_next_rr (k\<lparr>links := h\<rparr>) = Ok k' \<and>
    Task (cur k') = hd (rs @ [Task (idle_task k)]) \<and>
    consistent T k' (Q(Free_Queue \<mapsto> fs @ [Task (cur k)], Ready_Queue \<mapsto> tl rs)) \<and> same_spaces k k'"
proof -
  let ?Q = "Q(Free_Queue \<mapsto> fs @ [Task (cur k)])"
  have c: "queues k Q" "queues0 k Q" "length (semafors k) = N_SEMAFORS" "T = insert (Task (cur k)) (insert (Task (idle_task k)) (members Q))"
    using assms(1) by (auto simp: consistent_def queues_def)
  from update_state_running [OF c(1) assms(2) free] obtain h where
    h: "update_process_state_rr (cur k) Free_Queue k = Ok (k\<lparr>links := h\<rparr>)" "queues0 (k\<lparr>links := h\<rparr>) ?Q" by blast
  have ready: "?Q Ready_Queue = Some rs" using rs by simp
  from sched_next_any [OF h(2) ready] obtain k' where
    k': "sched_next_rr (k\<lparr>links := h\<rparr>) = Ok k'" "Task (cur k') = hd (rs @ [Task (idle_task k)])" "queues k' (?Q(Ready_Queue \<mapsto> tl rs))"
      "same_queues (k\<lparr>links := h, links := links k'\<rparr>) k'" by (auto simp del: fun_upd_apply hd_append)
  then have same: "semafors k' = semafors k" "idle_task k' = idle_task k" by (simp_all add: same_queues_def)
  have m: "members (?Q(Ready_Queue \<mapsto> tl rs)) = members Q - set fs \<union> set (fs @ [Task (cur k)]) - set rs \<union> set (tl rs)"
    using members_upd [OF queues_separate [OF h(2)] ready] members_upd [OF queues_separate [OF c(2)] free] by (simp del: fun_upd_apply set_append)
  have new: "insert (Task (cur k')) (insert (Task (idle_task k)) (set (tl rs))) = insert (Task (idle_task k)) (set rs)"
    unfolding k'(2) by (cases rs) auto
  have "insert (Task (idle_task k)) (set (fs @ [Task (cur k)])) = insert (Task (cur k)) (insert (Task (idle_task k)) (set fs))" by auto
  from moved_sets [OF members_mem [of Q, OF rs] members_mem [of Q, OF free] this new]
  have "T = insert (Task (cur k')) (insert (Task (idle_task k')) (members (?Q(Ready_Queue \<mapsto> tl rs))))" unfolding c(4) m same by simp
  moreover have "if 0 < sem_used (semafors k' ! s) then Sem_Queue s \<in> dom (?Q(Ready_Queue \<mapsto> tl rs))
      else (?Q(Ready_Queue \<mapsto> tl rs)) (Sem_Queue s) = None \<or> (?Q(Ready_Queue \<mapsto> tl rs)) (Sem_Queue s) = Some []" if "s < N_SEMAFORS" for s
    using assms(1) that unfolding consistent_def same by auto
  ultimately have "consistent T k' (?Q(Ready_Queue \<mapsto> tl rs))"
    using k'(3) c(3) by - (rule consistentI, assumption, simp, simp only: same, assumption+)
  moreover have "same_spaces k k'" using k'(4) by (simp add: same_spaces_def same_queues_def)
  ultimately show ?thesis using h(1) k'(1,2) by blast
qed

lemma exit_runs:
  assumes s: "sound k Q" and cur: "cur k \<noteq> idle_task k"
    and f: "dir_of k (cur k) = Some f"
  shows "\<exists>k' Q'. sys_exit k = Ok k' \<and> sound k' Q' \<and> live Q' = live Q - {cur k} \<and> PID (task k' ! cur k) = -1 \<and>
    (if dir_usage k ! f = 1 then data_freed k f (phys_mem k') else phys_mem k' = phys_mem k)"
proof -
  let ?T = "Task ` {..<NR_TASKS}" and ?L = "live Q - {cur k}"
  from s obtain fs where free: "Q Free_Queue = Some fs" and len: "length (task k) = NR_TASKS" "cur k < NR_TASKS"
    by (rule soundD) blast
  from exit_releases [OF s cur f] obtain k0 k1 where
    start: "find_dir_usage (cur k) k = Ok (Some f)" "add_dir_usage (Some f) (-1) k = Ok (dir_usage k ! f - 1, k0)" "cur k0 = cur k"
      "(if dir_usage k ! f - 1 = 0 then free_user_pages (cur k0) k0 else Ok k0) = Ok k1" and
    freed: "if dir_usage k ! f = 1 then data_freed k f (phys_mem k1) else phys_mem k1 = phys_mem k" and
    k1: "other_processes k1 ?L" "task k1 = task k" "links k1 = links k" "cur k1 = cur k" "idle_task k1 = idle_task k" "semafors k1 = semafors k"
    by auto
  have "consistent ?T k1 Q" by (rule consistent_same [of _ k]) (use s k1 in \<open>simp_all add: sound_def\<close>)
  from destroy_owned_consistent [OF this, of "PID (task k ! cur k)"] obtain k2 Q2 where
    k2: "destroy_owned_sems (PID (task k ! cur k)) k1 = Ok k2" "keeps ?T k1 Q k2 Q2" "cur k2 = cur k" using k1(4) by auto
  have sub: "?L \<subseteq> {..<NR_TASKS}" by (auto simp: live_def)
  have c2: "consistent ?T k2 Q2" "Q2 Free_Queue = Some fs" "same_spaces k1 k2" using k2(2) free by (simp_all add: keeps_def)
  then have len2: "length (task k2) = NR_TASKS" "idle_task k2 = idle_task k" using len k1(2,5) by (simp_all add: same_spaces_def same_queues_def)
  have others2: "other_processes k2 ?L" by (rule same_spaces_others [OF k1(1) c2(3)]) (use sub len k1(2) in simp)
  define k3 where "k3 = k2\<lparr>task := (task k2)[cur k := (task k2 ! cur k)\<lparr>PID := -1\<rparr>]\<rparr>"
  have c3: "consistent ?T k3 Q2" by (rule consistent_same [OF c2(1)]) (simp_all add: k3_def)
  have others3: "other_processes k3 ?L" by (rule others_same [OF others2]) (auto simp: k3_def dir_of_def)
  from c3 obtain rs where rs: "Q2 Ready_Queue = Some rs" by (auto simp: consistent_def)
  have k3: "cur k3 = cur k" "idle_task k3 = idle_task k" "length (task k3) = NR_TASKS" using k2(3) len2 by (simp_all add: k3_def)
  from exit_switches [OF c3 _ c2(2) rs] cur k3(1,2) obtain h k' where
    fin: "update_process_state_rr (cur k) Free_Queue k3 = Ok (k3\<lparr>links := h\<rparr>)" "sched_next_rr (k3\<lparr>links := h\<rparr>) = Ok k'"
      "consistent ?T k' (Q2(Free_Queue \<mapsto> fs @ [Task (cur k)], Ready_Queue \<mapsto> tl rs))" "same_spaces k3 k'"
    by (auto simp del: fun_upd_apply)
  let ?Q = "Q2(Free_Queue \<mapsto> fs @ [Task (cur k)], Ready_Queue \<mapsto> tl rs)"
  have "other_processes k' ?L" by (rule same_spaces_others [OF others3 fin(4)]) (use sub k3(3) in simp)
  moreover have live: "live ?Q = ?L" using free by (auto simp: live_def)
  ultimately have "sound k' ?Q" using fin(3) unfolding sound_def live by (simp add: other_processes_def)
  moreover have "sys_exit k = Ok k'"
    using start k1(2,4) k2(1,3) fin(1,2) len len2(1) by (simp add: sys_exit_def get_task_Ok set_task_Ok k3_def)
  moreover have "phys_mem k' = phys_mem k1" using c2(3) fin(4) by (simp add: same_spaces_def same_queues_def k3_def)
  moreover have "PID (task k' ! cur k) = -1" using fin(4) k3(3) len(2) len2(1) by (simp add: same_spaces_def same_queues_def k3_def)
  ultimately show ?thesis using live freed by auto
qed

end
