(* ===== verification/Kernel_Runs.thy ===== *)
theory Kernel_Runs
  imports Kernel_Boot Kernel_Exit
begin

text \<open>
  Runs of the kernel: what can happen once it has started is a sequence of clock ticks and system
  calls. Whatever the sequence, no operation runs into a fault, and the invariant of the kernel
  holds in every state that is reached.
\<close>

section \<open>Statistics\<close>

lemma same_queues_sound:
  assumes "sound k Q" and "same_queues k k'" and "cur k' = cur k"
  shows "sound k' Q"
proof -
  have "consistent (Task ` {..<NR_TASKS}) k Q" using assms(1) by (simp add: sound_def)
  from consistent_same [OF this, of k'] assms(2,3) have "consistent (Task ` {..<NR_TASKS}) k' Q" by (simp add: same_queues_def)
  then have "keeps (Task ` {..<NR_TASKS}) k Q k' Q" using assms(2) by (simp add: keeps_def same_spaces_def same_queues_def)
  with assms(1) show ?thesis by (rule same_spaces_sound)
qed

lemma finishUserTime_Ok:
  "t < length (task k) \<Longrightarrow> \<exists>k'. finishUserTime t k = Ok k' \<and> same_queues k k' \<and> cur k' = cur k"
  using read_clock_Ok [of k] by (auto simp: finishUserTime_def set_task_Ok same_queues_def nth_list_update)

text \<open>\<open>sys_getstats\<close> answers for the first task with the process number, and only times change.\<close>

lemma getstats_Ok:
  assumes "length (task k) = NR_TASKS"
  shows "\<exists>r s k'. sys_getstats pid p k = Ok (r, s, k') \<and> same_queues k k' \<and> cur k' = cur k"
proof (cases "pid < 0 \<or> p = 0 \<or> access_ok VERIFY_WRITE p 28 = 0")
  case True
  then show ?thesis by (auto simp: sys_getstats_def)
next
  case False
  let ?body = "\<lambda>i k. bind (get_task k i) (\<lambda>t.
          if PID t = pid then
            bind (finishSystemTime i k) (\<lambda>k.
            bind (get_task k i) (\<lambda>t.
            let st = stats t; tmp = remaining_ticks st;
                out = st\<lparr>elapsed_total_ticks := elapsed_total_ticks st - tmp, remaining_ticks := word_of_int (quantum_left k)\<rparr> in
            bind (set_task i (\<lambda>t. t\<lparr>stats := out\<lparr>remaining_ticks := tmp\<rparr>\<rparr>) k) (\<lambda>k. Ok (Inr (out, k)))))
          else Ok (Inl k))"
  have "(\<exists>t. for_each [0..<NR_TASKS] ?body k = Ok (Inl t) \<and> t = k) \<or>
    (\<exists>x. for_each [0..<NR_TASKS] ?body k = Ok (Inr x) \<and> same_queues k (snd x) \<and> cur (snd x) = cur k)"
  proof (rule for_upto_or_return)
    fix i s assume i: "i < NR_TASKS" and s: "s = k"
    then have t: "get_task k i = Ok (task k ! i)" using assms by (simp add: get_task_Ok)
    show "(\<exists>s'. ?body i s = Ok (Inl s') \<and> s' = k) \<or> (\<exists>x. ?body i s = Ok (Inr x) \<and> same_queues k (snd x) \<and> cur (snd x) = cur k)"
    proof (cases "PID (task k ! i) = pid")
      case True
      from finishSystemTime_Ok [of i k] i assms obtain k1 where
        k1: "finishSystemTime i k = Ok k1" "same_queues k k1" "cur k1 = cur k" by auto
      then have len: "i < length (task k1)" using i assms by (simp add: same_queues_def)
      define st where "st = stats (task k1 ! i)"
      define out where "out = st\<lparr>elapsed_total_ticks := elapsed_total_ticks st - remaining_ticks st, remaining_ticks := word_of_int (quantum_left k1)\<rparr>"
      define k2 where "k2 = k1\<lparr>task := (task k1)[i := (task k1 ! i)\<lparr>stats := out\<lparr>remaining_ticks := remaining_ticks st\<rparr>\<rparr>]\<rparr>"
      have "?body i s = Ok (Inr (out, k2))"
        using t True k1(1) len by (simp add: s get_task_Ok set_task_Ok Let_def st_def out_def k2_def)
      moreover have "same_queues k k2" using k1(2) len by (auto simp: same_queues_def k2_def nth_list_update)
      moreover have "cur k2 = cur k" using k1(3) by (simp add: k2_def)
      ultimately show ?thesis by (intro disjI2 exI [of _ "(out, k2)"] conjI) (assumption | simp only: snd_conv)+
    qed (use t s in simp)
  qed simp
  then obtain r where r: "for_each [0..<NR_TASKS] ?body k = Ok r"
    "case r of Inl t \<Rightarrow> t = k | Inr (out, k') \<Rightarrow> same_queues k k' \<and> cur k' = cur k" by fastforce
  show ?thesis
  proof (cases r)
    case (Inl t)
    with r have "sys_getstats pid p k = Ok (-1, None, k)" using False by (simp add: sys_getstats_def)
    then show ?thesis by auto
  next
    case (Inr x)
    with r have "sys_getstats pid p k = Ok (0, Some (fst x), snd x)" using False by (cases x) (simp add: sys_getstats_def)
    with r Inr show ?thesis by (cases x) auto
  qed
qed

section \<open>Runs\<close>

text \<open>
  \<open>Sem_Resume\<close> is the rest of a \<open>sem_wait\<close> when its caller runs again; \<open>Enter\<close> and \<open>Leave\<close> are the
  accounting at the borders of the kernel.
\<close>

datatype event = Tick | Enter | Leave | Fork | Clone dword dword | Exit | Get_Stats int dword
  | Sem_Init int dword | Sem_Wait int | Sem_Signal int | Sem_Destroy int | Sem_Resume nat

fun event_step :: "event \<Rightarrow> kernel \<Rightarrow> kernel res" where
  "event_step Tick k = scheduling k"
| "event_step Enter k = user2system k"
| "event_step Leave k = system2user k"
| "event_step Fork k = bind (sys_fork k) (\<lambda>(_, k). Ok k)"
| "event_step (Clone f s) k = bind (sys_clone f s k) (\<lambda>(_, k). Ok k)"
| "event_step Exit k = sys_exit k"
| "event_step (Get_Stats p s) k = bind (sys_getstats p s k) (\<lambda>(_, _, k). Ok k)"
| "event_step (Sem_Init n v) k = bind (sys_sem_init n v k) (\<lambda>(_, k). Ok k)"
| "event_step (Sem_Wait n) k = bind (sys_sem_wait n k) (\<lambda>(_, k). Ok k)"
| "event_step (Sem_Signal n) k = bind (sys_sem_signal n k) (\<lambda>(_, k). Ok k)"
| "event_step (Sem_Destroy n) k = bind (sys_sem_destroy n k) (\<lambda>(_, k). Ok k)"
| "event_step (Sem_Resume s) k = bind (sem_wait_resumed s k) (\<lambda>(_, k). Ok k)"

text \<open>The idle process makes no system call.\<close>

fun possible :: "event \<Rightarrow> kernel \<Rightarrow> bool" where
  "possible Fork k \<longleftrightarrow> cur k \<noteq> idle_task k"
| "possible (Clone f s) k \<longleftrightarrow> cur k \<noteq> idle_task k"
| "possible Exit k \<longleftrightarrow> cur k \<noteq> idle_task k"
| "possible (Sem_Resume s) k \<longleftrightarrow> s < N_SEMAFORS"
| "possible _ k \<longleftrightarrow> True"

inductive reaches :: "kernel \<Rightarrow> kernel \<Rightarrow> bool" for k0 where
  start: "reaches k0 k0"
| step: "reaches k0 k \<Longrightarrow> possible e k \<Longrightarrow> event_step e k = Ok k' \<Longrightarrow> reaches k0 k'"

definition kernel_inv :: "kernel \<Rightarrow> bool" where
  "kernel_inv k \<longleftrightarrow> (\<exists>Q. sound k Q)"

lemma keeps_inv:
  assumes "sound k Q" and "\<exists>r k' Q'. f k = Ok (r, k') \<and> keeps (Task ` {..<NR_TASKS}) k Q k' Q'"
  shows "\<exists>k'. bind (f k) (\<lambda>(_, k). Ok k) = Ok k' \<and> kernel_inv k'"
proof -
  from assms(2) obtain r k' Q' where k': "f k = Ok (r, k')" "keeps (Task ` {..<NR_TASKS}) k Q k' Q'" by blast
  with same_spaces_sound [OF assms(1) k'(2)] show ?thesis by (auto simp: kernel_inv_def)
qed

lemma sound_inv:
  assumes "\<exists>r k' Q'. f k = Ok (r, k') \<and> sound k' Q'"
  shows "\<exists>k'. bind (f k) (\<lambda>(_, k). Ok k) = Ok k' \<and> kernel_inv k'"
  using assms by (auto simp: kernel_inv_def)

lemma event_sound:
  assumes "kernel_inv k" and "possible e k"
  shows "\<exists>k'. event_step e k = Ok k' \<and> kernel_inv k'"
proof -
  from assms(1) obtain Q where Q: "sound k Q" by (auto simp: kernel_inv_def)
  then have c: "consistent (Task ` {..<NR_TASKS}) k Q" by (simp add: sound_def)
  from Q have len: "length (task k) = NR_TASKS" "cur k < NR_TASKS" by (auto elim: soundD)
  have time: "\<exists>k'. f k = Ok k' \<and> kernel_inv k'" if "\<exists>k'. f k = Ok k' \<and> same_queues k k' \<and> cur k' = cur k" for f
    using that same_queues_sound [OF Q] by (auto simp: kernel_inv_def)
  show ?thesis
  proof (cases e)
    case Tick
    from tick_consistent [OF c] obtain k' Q' where k': "scheduling k = Ok k'" "keeps (Task ` {..<NR_TASKS}) k Q k' Q'" by blast
    with same_spaces_sound [OF Q k'(2)] show ?thesis unfolding Tick by (auto simp: kernel_inv_def)
  next
    case Enter
    then show ?thesis using time [of "finishUserTime (cur k)", OF finishUserTime_Ok] len by (simp add: user2system_def)
  next
    case Leave
    then show ?thesis using time [of "finishSystemTime (cur k)"] finishSystemTime_Ok [of "cur k" k] len by (auto simp: system2user_def)
  next
    case Fork
    then show ?thesis using sound_inv [of sys_fork, OF fork_keeps_sound [OF Q]] assms(2) by simp
  next
    case (Clone f s)
    then show ?thesis using sound_inv [of "sys_clone f s", OF clone_keeps_sound [OF Q]] assms(2) by simp
  next
    case Exit
    from Q obtain f where "dir_of k (cur k) = Some f" by (auto elim: soundD)
    with exit_runs [OF Q] assms(2) Exit show ?thesis by (auto simp: kernel_inv_def)
  next
    case (Get_Stats p s)
    from getstats_Ok [OF len(1), of p s] obtain r st k' where "sys_getstats p s k = Ok (r, st, k')" "same_queues k k'" "cur k' = cur k" by blast
    with same_queues_sound [OF Q] show ?thesis unfolding Get_Stats by (auto simp: kernel_inv_def)
  next
    case (Sem_Init n v)
    with keeps_inv [of k Q "sem_init n v", OF Q init_consistent [OF c]] show ?thesis by (simp add: sys_sem_init_def)
  next
    case (Sem_Wait n)
    with keeps_inv [of k Q "sem_wait n", OF Q wait_consistent [OF c]] show ?thesis by (simp add: sys_sem_wait_def)
  next
    case (Sem_Signal n)
    with keeps_inv [of k Q "sem_signal n", OF Q signal_consistent [OF c]] show ?thesis by (simp add: sys_sem_signal_def)
  next
    case (Sem_Destroy n)
    with keeps_inv [of k Q "sem_destroy n", OF Q destroy_consistent [OF c]] show ?thesis by (simp add: sys_sem_destroy_def)
  next
    case (Sem_Resume s)
    with keeps_inv [of k Q "sem_wait_resumed s", OF Q resume_consistent [OF c]] assms(2) show ?thesis by simp
  qed
qed

lemma reaches_inv: "reaches k0 k \<Longrightarrow> kernel_inv k0 \<Longrightarrow> kernel_inv k"
proof (induction rule: reaches.induct)
  case (step k e k')
  with event_sound [of k e] show ?case by auto
qed

section \<open>A kernel as it is loaded\<close>

definition blank_kernel :: kernel where
  "blank_kernel = \<lparr>
     task = replicate NR_TASKS \<lparr>PID = 0, quantum = 0, dir_pages_baseAddr = None,
       stats = \<lparr>user_ticks = 0, system_ticks = 0, blocked_ticks = 0, ready_ticks = 0, elapsed_total_ticks = 0, total_trans = 0, remaining_ticks = 0\<rparr>,
       channel_table = replicate CHANNEL_TABLE_SIZE \<lparr>fd = 0, OFT_entry_num = 0\<rparr>\<rparr>,
     links = \<lparr>nxt = (\<lambda>_. NULL), prv = (\<lambda>_. NULL)\<rparr>, cur = 3, idle_task = 0, quantum_left = 0,
     dir_usage = replicate NR_TASKS 0, next_PID = 0, tsc = (\<lambda>n. of_nat n), tss_esp0 = 0, cr3 = None,
     phys_mem = replicate TOTAL_PAGES 0, dir_pages = replicate NR_TASKS None, pagusr_table = replicate NR_TASKS (replicate TOTAL_PAGES 0),
     frame_mem = (\<lambda>_. []), semafors = replicate N_SEMAFORS \<lparr>sem_id = 0, sem_count = 0, sem_owner = 0, sem_used = 0\<rparr>, zeos_sems = []\<rparr>"

lemma blank_kernel_blank: "blank blank_kernel"
  by (simp add: blank_def blank_kernel_def)

text \<open>The state the kernel starts in, for the examples below.\<close>

lemma started:
  obtains k0 where "boot blank_kernel = Ok k0" "sound k0 (boot_queues 8)" "cur k0 = 8" "idle_task k0 = 9" "next_PID k0 = 2"
    "NUM_PAG_DATA \<le> length (allocatable k0)" "boot_queues 8 Free_Queue = Some (Task 7 # map Task (rev [0..<7]))" "boot_queues 8 Ready_Queue = Some []"
proof -
  from boot_Ok [OF blank_kernel_blank] obtain k0 where k0: "boot blank_kernel = Ok k0" "sound k0 (boot_queues 8)" "cur k0 = 8" "idle_task k0 = 9"
    "next_PID k0 = 2" "allocatable k0 = drop 28 frame_candidates" by auto
  have "NUM_PAG_DATA \<le> length (allocatable k0)" unfolding k0(6) by (simp add: frame_candidates_def kernel_sizes)
  moreover have "boot_queues 8 Free_Queue = Some (Task 7 # map Task (rev [0..<7]))" "boot_queues 8 Ready_Queue = Some []"
    using boot_first [of 7] by (simp_all add: boot_queues_simps)
  ultimately show thesis using k0 that by blast
qed

section \<open>What the kernel promises\<close>

text \<open>
  From zeroed globals the kernel starts: task 8 runs as process 1, task 9 is idle, the tasks 7
  to 0 are free, the first 28 frames of the allocator are taken, and the invariant holds.
\<close>

lemma boot_starts:
  assumes "blank k"
  shows "\<exists>k'. boot k = Ok k' \<and> kernel_inv k' \<and> cur k' = 8 \<and> idle_task k' = 9 \<and> PID (task k' ! 8) = 1 \<and>
    holds_lists (links k') [Ready_Queue \<mapsto> [], Free_Queue \<mapsto> map Task [7, 6, 5, 4, 3, 2, 1, 0]] \<and> allocatable k' = drop 28 frame_candidates"
proof -
  from boot_Ok [OF assms] obtain k' where k': "boot k = Ok k'" "sound k' (boot_queues 8)" "cur k' = 8" "idle_task k' = 9" "PID (task k' ! 8) = 1"
    "allocatable k' = drop 28 frame_candidates" by auto
  have "holds_lists (links k') (boot_queues 8)" using k'(2) by (simp add: sound_def consistent_def queues_def queues0_def)
  then have "holds_lists (links k') [Ready_Queue \<mapsto> [], Free_Queue \<mapsto> map Task [7, 6, 5, 4, 3, 2, 1, 0]]"
    by (simp add: boot_queues_def eval_nat_numeral)
  with k' show ?thesis by (auto simp: kernel_inv_def)
qed



text \<open>
  C10: processes are isolated. In every state that is reached, two user processes with different
  page directories have their data pages on different frames, and no frame of a process is free.
\<close>

theorem processes_isolated:
  assumes "blank k" and "boot k = Ok k0" and "reaches k0 k'"
  shows "\<exists>Q. holds_lists (links k') Q \<and> cur k' \<in> live Q \<and> (\<forall>p \<in> live Q - {idle_task k'}. \<exists>d. dir_of k' p = Some d \<and>
    (\<forall>j < NUM_PAG_DATA. phys_mem k' ! data_frame k' (d, j) \<noteq> FREE_FRAME) \<and>
    (\<forall>p' \<in> live Q - {idle_task k'}. \<forall>d'. dir_of k' p' = Some d' \<and> d' \<noteq> d \<longrightarrow>
       (\<forall>j < NUM_PAG_DATA. \<forall>j' < NUM_PAG_DATA. data_frame k' (d, j) \<noteq> data_frame k' (d', j'))))"
proof -
  have "kernel_inv k0" using boot_Ok [OF assms(1)] assms(2) by (auto simp: kernel_inv_def)
  with assms(3) have "kernel_inv k'" by (rule reaches_inv)
  then obtain Q where Q: "sound k' Q" by (auto simp: kernel_inv_def)
  then have iso: "isolated k' (live Q)" "counted k' (live Q)" and h: "holds_lists (links k') Q"
    by (auto simp: sound_def consistent_def queues_def queues0_def)
  have page: "(d, j) \<in> data_pages k' (live Q)" if "p \<in> live Q - {idle_task k'}" "dir_of k' p = Some d" "j < NUM_PAG_DATA" for p d j
    using isolatedD(1) [OF iso(1), of p d j] that by simp
  have "\<exists>d. dir_of k' p = Some d \<and> (\<forall>j < NUM_PAG_DATA. phys_mem k' ! data_frame k' (d, j) \<noteq> FREE_FRAME) \<and>
    (\<forall>p' \<in> live Q - {idle_task k'}. \<forall>d'. dir_of k' p' = Some d' \<and> d' \<noteq> d \<longrightarrow>
       (\<forall>j < NUM_PAG_DATA. \<forall>j' < NUM_PAG_DATA. data_frame k' (d, j) \<noteq> data_frame k' (d', j')))" if p: "p \<in> live Q - {idle_task k'}" for p
  proof -
    from iso(2) p obtain d where d: "dir_of k' p = Some d" by (auto simp: counted_def)
    have "phys_mem k' ! data_frame k' (d, j) \<noteq> FREE_FRAME" if "j < NUM_PAG_DATA" for j
      using page [OF p d that] iso(1) by (auto simp: isolated_def)
    moreover have "data_frame k' (d, j) \<noteq> data_frame k' (d', j')"
      if "p' \<in> live Q - {idle_task k'}" "dir_of k' p' = Some d'" "d' \<noteq> d" "j < NUM_PAG_DATA" "j' < NUM_PAG_DATA" for p' d' j j'
      using page [OF p d that(4)] page [OF that(1,2,5)] that(3) iso(1) by (auto simp: isolated_def dest: inj_onD)
    ultimately show ?thesis using d by blast
  qed
  with h sound_live(1) [OF Q] show ?thesis by blast
qed

theorem processes_isolated_witness:
  "\<exists>k0 Q. boot blank_kernel = Ok k0 \<and> holds_lists (links k0) Q \<and> cur k0 \<in> live Q"
proof -
  obtain k0 where "boot blank_kernel = Ok k0" by (rule started)
  with processes_isolated [OF blank_kernel_blank this reaches.start] show ?thesis by blast
qed

text \<open>
  C18: \<open>sys_fork\<close> with a free PCB and 20 free frames: the caller gets the number of the child, which
  is ready behind the others and has a directory of its own. The child's data pages hold what those
  of the caller hold, on other frames, its kernel and code pages are the same, and the caller's data
  is as before.
\<close>

theorem fork_copies:
  assumes "sound k Q" and "cur k \<noteq> idle_task k" and "Q Free_Queue = Some (Task c # fs)" and "Q Ready_Queue = Some rs"
    and "NUM_PAG_DATA \<le> length (allocatable k)"
  shows "\<exists>k' d f. sys_fork k = Ok (sint (next_PID k + 1), k') \<and> sound k' (Q(Free_Queue \<mapsto> fs, Ready_Queue \<mapsto> rs @ [Task c])) \<and>
    PID (task k' ! c) = sint (next_PID k + 1) \<and> dir_of k (cur k) = Some f \<and> dir_of k' (cur k) = Some f \<and> dir_of k' c = Some d \<and> d \<noteq> f \<and>
    (\<forall>p < PAG_LOG_INIT_DATA. pagusr_table k' ! d ! p = pagusr_table k ! f ! p) \<and>
    (\<forall>j < NUM_PAG_DATA. data_frame k' (d, j) \<noteq> data_frame k' (f, j) \<and> data_frame k' (f, j) = data_frame k (f, j) \<and>
       frame_mem k' (data_frame k' (d, j)) = frame_mem k (data_frame k (f, j)) \<and>
       frame_mem k' (data_frame k' (f, j)) = frame_mem k (data_frame k (f, j)))"
proof -
  from assms(1) obtain f where f: "dir_of k (cur k) = Some f" "f < NR_TASKS" by (rule soundD) blast
  from fork_runs [OF assms(1,2,3,5) f(1) assms(4)] obtain k' d where run: "sys_fork k = Ok (sint (next_PID k + 1), k')" "forked k k' c f d"
    "consistent (Task ` {..<NR_TASKS}) k' (Q(Free_Queue \<mapsto> fs, Ready_Queue \<mapsto> rs @ [Task c]))" by blast
  have s: "sound k' (Q(Free_Queue \<mapsto> fs, Ready_Queue \<mapsto> rs @ [Task c]))" by (rule fork_sound [OF assms(1,3,5) f(2) run(2,3)])
  from assms(1) have sep: "separate Q" by (rule soundD)
  from assms(1,3) have c: "c < NR_TASKS" by (elim soundD) auto
  note live = live_taken [OF sep assms(3) c]
  note F = run(2) [unfolded forked_def]
  have ne: "c \<noteq> cur k" "c \<noteq> idle_task k" using live(2) sound_live [OF assms(1)] by auto
  have dirs: "dir_of k' c = Some d" "dir_of k' (cur k) = Some f" "idle_task k' = idle_task k" "d \<noteq> f" using F ne(1) f(1) by simp_all
  have iso: "isolated k' (live (Q(Free_Queue \<mapsto> fs, Ready_Queue \<mapsto> rs @ [Task c])))" using s by (simp add: sound_def)
  have "data_frame k' (d, j) \<noteq> data_frame k' (f, j)" if "j < NUM_PAG_DATA" for j
  proof
    assume eq: "data_frame k' (d, j) = data_frame k' (f, j)"
    have "(d, j) \<in> data_pages k' (insert c (live Q))" "(f, j) \<in> data_pages k' (insert c (live Q))"
      using dirs ne assms(2) sound_live(1) [OF assms(1)] that by (auto simp: data_pages_def)
    with eq iso dirs(4) show False unfolding live(1) isolated_def by (auto dest: inj_onD)
  qed
  moreover have "pagusr_table k' ! d ! p = pagusr_table k ! f ! p" if "p < PAG_LOG_INIT_DATA" for p
    using F that assms(1) by (auto simp: sound_def tables_def)
  moreover note fork_memory [OF assms(1,2) f(1) assms(5) f(2) run(2)]
  moreover have "PID (task k' ! c) = sint (next_PID k + 1)" using F by blast
  ultimately show ?thesis using run(1) s dirs f(1)
    by - (rule exI [of _ k'], rule exI [of _ d], rule exI [of _ f], simp)
qed

theorem fork_copies_witness:
  "\<exists>k0 k' d f. boot blank_kernel = Ok k0 \<and> sys_fork k0 = Ok (3, k') \<and> PID (task k' ! 7) = 3 \<and> dir_of k' 8 = Some f \<and> dir_of k' 7 = Some d \<and>
    data_frame k' (d, 0) \<noteq> data_frame k' (f, 0) \<and> frame_mem k' (data_frame k' (d, 0)) = frame_mem k0 (data_frame k0 (f, 0))"
proof -
  obtain k0 where k0: "boot blank_kernel = Ok k0" "sound k0 (boot_queues 8)" "cur k0 = 8" "idle_task k0 = 9" "next_PID k0 = 2"
    "NUM_PAG_DATA \<le> length (allocatable k0)" "boot_queues 8 Free_Queue = Some (Task 7 # map Task (rev [0..<7]))" "boot_queues 8 Ready_Queue = Some []"
    by (rule started)
  have "0 < NUM_PAG_DATA" by (simp add: kernel_sizes)
  moreover have "cur k0 \<noteq> idle_task k0" using k0(3,4) by simp
  ultimately show ?thesis using fork_copies [OF k0(2) _ k0(7,8,6)] k0(1,3,5) by fastforce
qed

text \<open>
  Without a free PCB or without 20 free frames \<open>sys_fork\<close> answers \<open>-ENOMEM\<close>; only the map of the
  frames may differ afterwards, and only in frames that were free.
\<close>

lemma fork_refuses:
  assumes "sound k Q" and "Q Free_Queue = Some [] \<or> length (allocatable k) < NUM_PAG_DATA"
  shows "\<exists>m. sys_fork k = Ok (-12, k\<lparr>phys_mem := m\<rparr>) \<and> sound (k\<lparr>phys_mem := m\<rparr>) Q \<and>
    (\<forall>i. phys_mem k ! i \<noteq> FREE_FRAME \<longrightarrow> m ! i = phys_mem k ! i)"
proof -
  from fork_fails [OF assms] obtain m where m: "sys_fork k = Ok (-ENOMEM, k\<lparr>phys_mem := m\<rparr>)" "kept_frames k m" by blast
  have "m ! i = phys_mem k ! i" if "phys_mem k ! i \<noteq> FREE_FRAME" for i
    using m(2) that allocatable_mem [of i k] unfolding kept_frames_def by blast
  with m kept_sound [OF assms(1) m(2)] show ?thesis by (auto simp: ENOMEM_def)
qed

lemma fold_marks:
  "length (fold (\<lambda>i m. m[i := v]) is m) = length m"
  "(fold (\<lambda>i m. m[i := v]) is m) ! i = (if i \<in> set is \<and> i < length m then v else m ! i)"
proof (induction "is" arbitrary: m)
  case (Cons a "is")
  case 1
  from Cons.IH(1) show ?case by simp
  case 2
  from Cons.IH(2) [of "m[a := v]"] show ?case by (cases "a = i"; cases "i < length m") (auto simp: list_update_beyond)
qed simp_all

text \<open>The kernel after its start, with every frame taken.\<close>

text \<open>
  \<open>sys_clone\<close> makes a process in the caller's address space: the same directory, counted once
  more, and no page or frame changes. A null pointer or one outside of the user's pages is refused.
\<close>

lemma clone_shares:
  assumes "sound k Q" and "cur k \<noteq> idle_task k" and "Q Free_Queue = Some (Task c # fs)" and "Q Ready_Queue = Some rs"
  shows "\<exists>r k'. sys_clone func stack k = Ok (r, k') \<and>
    (if func = 0 \<or> stack = 0 \<or> access_ok VERIFY_READ func 4 = 0 \<or> access_ok VERIFY_WRITE stack 4 = 0 then r = -14 \<and> k' = k
     else r = sint (next_PID k + 1) \<and> PID (task k' ! c) = r \<and> sound k' (Q(Free_Queue \<mapsto> fs, Ready_Queue \<mapsto> rs @ [Task c])) \<and>
       (\<exists>f. dir_of k (cur k) = Some f \<and> dir_of k' c = Some f \<and> dir_usage k' = (dir_usage k)[f := dir_usage k ! f + 1]) \<and>
       pagusr_table k' = pagusr_table k \<and> phys_mem k' = phys_mem k \<and> frame_mem k' = frame_mem k)"
proof (cases "func = 0 \<or> stack = 0 \<or> access_ok VERIFY_READ func 4 = 0 \<or> access_ok VERIFY_WRITE stack 4 = 0")
  case True
  then show ?thesis by (auto simp: sys_clone_def EFAULT_def)
next
  case False
  from assms(1) obtain f where f: "dir_of k (cur k) = Some f" by (rule soundD) blast
  have args: "func \<noteq> 0" "stack \<noteq> 0" "access_ok VERIFY_READ func 4 \<noteq> 0" "access_ok VERIFY_WRITE stack 4 \<noteq> 0" using False by auto
  from clone_runs [OF assms(1,3) f assms(4) args] obtain k' where k': "sys_clone func stack k = Ok (sint (next_PID k + 1), k')"
    "\<forall>i. dir_of k' i = (if i = c then Some f else dir_of k i)" "PID (task k' ! c) = sint (next_PID k + 1)"
    "dir_usage k' = (dir_usage k)[f := dir_usage k ! f + 1]" "pagusr_table k' = pagusr_table k" "phys_mem k' = phys_mem k" "frame_mem k' = frame_mem k"
    by blast
  with clone_sound [OF assms f args k'(1)] args f show ?thesis by simp
qed

text \<open>
  C33: \<open>sys_exit\<close> takes the process off: its PCB is free, its number is -1 and another process runs. The
  last process of a directory gives its data frames back (but never frame 256); otherwise no frame
  is freed.
\<close>

theorem exit_frees:
  assumes "sound k Q" and "cur k \<noteq> idle_task k"
  shows "\<exists>k' Q' f. sys_exit k = Ok k' \<and> sound k' Q' \<and> live Q' = live Q - {cur k} \<and> PID (task k' ! cur k) = -1 \<and> dir_of k (cur k) = Some f \<and>
    (if dir_usage k ! f = 1 then \<forall>j < NUM_PAG_DATA. 256 < data_frame k (f, j) \<longrightarrow> phys_mem k' ! data_frame k (f, j) = FREE_FRAME
     else phys_mem k' = phys_mem k)"
proof -
  from assms(1) obtain f where f: "dir_of k (cur k) = Some f" by (rule soundD) blast
  from exit_runs [OF assms f] obtain k' Q' where k': "sys_exit k = Ok k'" "sound k' Q'" "live Q' = live Q - {cur k}" "PID (task k' ! cur k) = -1"
    "if dir_usage k ! f = 1 then data_freed k f (phys_mem k') else phys_mem k' = phys_mem k" by blast
  have iso: "isolated k (live Q)" using assms(1) by (simp add: sound_def)
  have "data_frame k (f, j) < TOTAL_PAGES" if "j < NUM_PAG_DATA" for j
    using isolatedD(1) [OF iso sound_live(1) [OF assms(1)] assms(2) f that] iso by (auto simp: isolated_def)
  then have "if dir_usage k ! f = 1 then \<forall>j < NUM_PAG_DATA. 256 < data_frame k (f, j) \<longrightarrow> phys_mem k' ! data_frame k (f, j) = FREE_FRAME
     else phys_mem k' = phys_mem k" using k'(5)
    by (cases "dir_usage k ! f = 1") (auto simp: data_freed_def NUM_PAG_KERNEL_def)
  with k'(1-4) f show ?thesis by blast
qed

theorem exit_frees_witness:
  "\<exists>k0 k' Q'. boot blank_kernel = Ok k0 \<and> sys_exit k0 = Ok k' \<and> sound k' Q' \<and> live Q' = {9} \<and> PID (task k' ! 8) = -1"
proof -
  obtain k0 where k0: "boot blank_kernel = Ok k0" "sound k0 (boot_queues 8)" "cur k0 = 8" "idle_task k0 = 9" by (rule started)
  have "live (boot_queues 8) - {8} = {9}" by (auto simp: live_def boot_queues_simps NR_TASKS_def)
  with exit_frees [OF k0(2)] k0(1,3,4) show ?thesis by fastforce
qed

end
