(* ===== verification/Kernel_Interrupts.thy ===== *)
theory Kernel_Interrupts
  imports Console Kernel_Runs
begin

text \<open>
  Interrupts (zeos_full/interrupt.c, zeos_interrupt.c and entry.S): the interrupt descriptor table,
  the clock with the time it shows on the screen, the keyboard and the exceptions.

  The address of a handler is the parameter \<open>addr\<close>. Each handler of entry.S is its routine between
  \<open>SAVE_ALL\<close> (\<open>user2system\<close>) and \<open>RESTORE_ALL\<close> (\<open>system2user\<close>). A local array starts as zeros: the
  code reads only what it wrote before.
\<close>

section \<open>The interrupt descriptor table\<close>

definition IDT_ENTRIES :: nat where "IDT_ENTRIES = 256"
definition KERNEL_CS :: word16 where "KERNEL_CS = 0x10"

record gate =
  lowOffset :: word16
  segmentSelector :: word16
  flags :: word16
  highOffset :: word16

definition lowWord :: "dword \<Rightarrow> word16" where "lowWord a = ucast (a AND 0xFFFF)"
definition highWord :: "dword \<Rightarrow> word16" where "highWord a = ucast (drop_bit 16 a AND 0xFFFF)"

definition setInterruptHandler :: "nat \<Rightarrow> dword \<Rightarrow> int \<Rightarrow> gate list \<Rightarrow> gate list res" where
  "setInterruptHandler vector handler pl idt =
     (let fl = push_bit 13 (word_of_int pl) OR 0x8E00 in
      aput idt vector \<lparr>lowOffset = lowWord handler, segmentSelector = KERNEL_CS, flags = fl, highOffset = highWord handler\<rparr>)"

text \<open>The same text: the flags of a trap gate are commented out.\<close>

definition setTrapHandler :: "nat \<Rightarrow> dword \<Rightarrow> int \<Rightarrow> gate list \<Rightarrow> gate list res" where
  "setTrapHandler vector handler pl idt =
     (let fl = push_bit 13 (word_of_int pl) OR 0x8E00 in
      aput idt vector \<lparr>lowOffset = lowWord handler, segmentSelector = KERNEL_CS, flags = fl, highOffset = highWord handler\<rparr>)"

datatype exception = Divide_Error | Debug | NM1 | Breakpoint | Overflow | Bounds_Check | Invalid_Opcode
  | Device_Not_Available | Double_Fault | Coprocessor_Segment_Overrun | Invalid_TSS | Segment_Not_Present
  | Stack_Exception | General_Protection | Page_Fault | Intel_Reserved | Floating_Point_Error | Alignment_Check

datatype handler = Exception exception | Clock | Keyboard | Mifault | Ide | System_Call

fun set_gates :: "(handler \<Rightarrow> dword) \<Rightarrow> (nat \<times> handler \<times> int) list \<Rightarrow> gate list \<Rightarrow> gate list res" where
  "set_gates addr [] idt = Ok idt"
| "set_gates addr ((v, h, pl) # gs) idt = bind (setInterruptHandler v (addr h) pl idt) (set_gates addr gs)"

definition set_handlers :: "(handler \<Rightarrow> dword) \<Rightarrow> gate list \<Rightarrow> gate list res" where
  "set_handlers addr = set_gates addr
     [(0, Exception Divide_Error, 0), (1, Exception Debug, 0), (2, Exception NM1, 0), (3, Exception Breakpoint, 0),
      (4, Exception Overflow, 0), (5, Exception Bounds_Check, 0), (6, Exception Invalid_Opcode, 0),
      (7, Exception Device_Not_Available, 0), (8, Exception Double_Fault, 0), (9, Exception Coprocessor_Segment_Overrun, 0),
      (10, Exception Invalid_TSS, 0), (11, Exception Segment_Not_Present, 0), (12, Exception Stack_Exception, 0),
      (13, Exception General_Protection, 0), (14, Exception Page_Fault, 0), (15, Exception Intel_Reserved, 0),
      (16, Exception Floating_Point_Error, 0), (17, Exception Alignment_Check, 0)]"

text \<open>The register IDTR gets the address of the table and its limit, the second result.\<close>

definition setIdt :: "(handler \<Rightarrow> dword) \<Rightarrow> gate list \<Rightarrow> (gate list \<times> nat) res" where
  "setIdt addr idt =
     bind (set_handlers addr idt) (\<lambda>idt.
     bind (set_gates addr [(33, Keyboard, 0), (32, Clock, 0), (14, Mifault, 0), (46, Ide, 0), (0x80, System_Call, 3)] idt) (\<lambda>idt.
     Ok (idt, IDT_ENTRIES * 8 - 1)))"

section \<open>Exceptions\<close>

definition newline :: byte where "newline = 10"

fun exception_text :: "exception \<Rightarrow> string" where
  "exception_text Divide_Error = ''Divide error fault''"
| "exception_text Debug = ''Debug fault''"
| "exception_text NM1 = ''nm1 fault''"
| "exception_text Breakpoint = ''Breakpoint fault''"
| "exception_text Overflow = ''Overflow fault''"
| "exception_text Bounds_Check = ''Bounds check fault''"
| "exception_text Invalid_Opcode = ''Invalid opcode fault''"
| "exception_text Device_Not_Available = ''Device not available fault''"
| "exception_text Double_Fault = ''double fault''"
| "exception_text Coprocessor_Segment_Overrun = ''Coprocessor segment overrun fault''"
| "exception_text Invalid_TSS = ''Invalid tss fault''"
| "exception_text Segment_Not_Present = ''Segment not present fault''"
| "exception_text Stack_Exception = ''Stack exception fault''"
| "exception_text General_Protection = ''General protection fault''"
| "exception_text Page_Fault = ''Page fault''"
| "exception_text Intel_Reserved = ''Intel reserved fault''"
| "exception_text Floating_Point_Error = ''Floating point fault''"
| "exception_text Alignment_Check = ''Alignment check fault''"

text \<open>Every routine prints its text and stays in \<open>while(1)\<close>.\<close>

definition exception_routine :: "exception \<Rightarrow> terminal \<Rightarrow> terminal res" where
  "exception_routine e t =
     bind (printk_io (newline # chars (exception_text e) @ [newline, 0]) t) (\<lambda>t. loop (\<lambda>t. Ok (Inl t)) t)"

definition print_hex :: "byte list \<Rightarrow> dword \<Rightarrow> byte list \<times> terminal \<Rightarrow> (byte list \<times> terminal) res" where
  "print_hex label v = (\<lambda>(b, t).
     bind (printk_io (label @ [0]) t) (\<lambda>t. bind (itoahex v b) (\<lambda>b. bind (printk_io b t) (\<lambda>t. Ok (b, t)))))"

definition mifault_routine :: "dword \<Rightarrow> dword \<Rightarrow> dword \<Rightarrow> dword \<Rightarrow> terminal \<Rightarrow> terminal res" where
  "mifault_routine eip cs esp ss t =
     bind (print_hex (chars ''Fallo de pagina'' @ [newline] @ chars '' eip = '') eip (replicate 20 0, t)) (\<lambda>bt.
     bind (print_hex (newline # chars '' cs  = '') cs bt) (\<lambda>bt.
     bind (print_hex (newline # chars '' esp = '') esp bt) (\<lambda>bt.
     bind (print_hex (newline # chars '' ss  = '') ss bt) (\<lambda>(b, t). Ok t))))"

section \<open>Keyboard and clock\<close>

text \<open>
  The four characters that are not ASCII: in the file each is three bytes between quotes, a
  multi-character constant of which a \<open>char\<close> keeps the last byte.
\<close>

definition char_map :: "byte list" where
  "char_map = [0, 0] @ chars ''1234567890'' @ [39, 0xBD, 0, 0] @ chars ''qwertyuiop'' @ [96, 43, 0, 0] @ chars ''asdfghjkl'' @
     [0xBD, 0, 0xBD, 0, 0xBD] @ chars ''zxcvbnm,.-'' @ [0, 42] @ replicate 15 0 @ chars ''789-456+1230'' @ [0, 0, 0, 60] @ replicate 11 0"

text \<open>\<open>c\<close> is the byte read from port 0x60.\<close>

definition keyboard_routine :: "byte \<Rightarrow> terminal \<Rightarrow> terminal res" where
  "keyboard_routine c t =
     (if c AND 0x80 = 0
      then bind (aget char_map (unat c)) (\<lambda>v. if v \<noteq> 0 then printc_xy 0 0 v t else printc_xy 0 0 67 t)
      else Ok t)"

record pc =
  kernel_of :: kernel
  screen :: terminal
  clocks :: int
  segs :: int
  mins :: int
  zeos_ticks :: int

text \<open>The \<open>printc_xy\<close> local to \<open>zeos_show_clock\<close>: it leaves the cursor alone.\<close>

definition clock_cell :: "byte \<Rightarrow> byte \<Rightarrow> byte \<Rightarrow> terminal \<Rightarrow> terminal res" where
  "clock_cell mx my c t = bind (aput (vram t) (unat my * 80 + unat mx) (cell c)) (\<lambda>v. Ok (t\<lparr>vram := v\<rparr>))"

definition draw_clock :: "pc \<Rightarrow> pc res" where
  "draw_clock p =
     bind (zeos_itoa (mins p) (replicate 4 0)) (\<lambda>cmins.
     bind (zeos_itoa (segs p) (replicate 4 0)) (\<lambda>csegs.
     bind (clock_cell 70 0 (if 10 \<le> mins p then cmins ! 0 else 48) (screen p)) (\<lambda>t.
     bind (clock_cell 71 0 (if 10 \<le> mins p then cmins ! 1 else cmins ! 0) t) (\<lambda>t.
     bind (clock_cell 72 0 58 t) (\<lambda>t.
     bind (clock_cell 73 0 (if 10 \<le> segs p then csegs ! 0 else 48) t) (\<lambda>t.
     bind (clock_cell 74 0 (if 10 \<le> segs p then csegs ! 1 else csegs ! 0) t) (\<lambda>t. Ok (p\<lparr>screen := t\<rparr>))))))))"

definition zeos_show_clock :: "pc \<Rightarrow> pc res" where
  "zeos_show_clock p =
     (let p = p\<lparr>clocks := clocks p + 1\<rparr> in
      if clocks p = 18 then
        let p = p\<lparr>segs := segs p + 1, clocks := 0\<rparr>;
            p = (if segs p = 60 then p\<lparr>segs := 0, mins := mins p + 1\<rparr> else p) in
        draw_clock p
      else Ok p)"

definition on_kernel :: "(kernel \<Rightarrow> kernel res) \<Rightarrow> pc \<Rightarrow> pc res" where
  "on_kernel f p = bind (f (kernel_of p)) (\<lambda>k. Ok (p\<lparr>kernel_of := k\<rparr>))"

definition clock_routine :: "pc \<Rightarrow> pc res" where
  "clock_routine p = bind (zeos_show_clock (p\<lparr>zeos_ticks := zeos_ticks p + 1\<rparr>)) (on_kernel scheduling)"

definition clock_handler :: "pc \<Rightarrow> pc res" where
  "clock_handler p = bind (on_kernel user2system p) (\<lambda>p. bind (clock_routine p) (on_kernel system2user))"

definition keyboard_handler :: "byte \<Rightarrow> pc \<Rightarrow> pc res" where
  "keyboard_handler c p =
     bind (on_kernel user2system p) (\<lambda>p.
     bind (keyboard_routine c (screen p)) (\<lambda>t. on_kernel system2user (p\<lparr>screen := t\<rparr>)))"

definition sys_gettime :: "int \<Rightarrow> int" where "sys_gettime ticks = ticks"

section \<open>Gates\<close>

definition gate_target :: "gate \<Rightarrow> dword" where
  "gate_target g = ucast (lowOffset g) OR push_bit 16 (ucast (highOffset g))"
definition gate_dpl :: "gate \<Rightarrow> word16" where "gate_dpl g = drop_bit 13 (flags g) AND 3"
definition gate_present :: "gate \<Rightarrow> bool" where "gate_present g = bit (flags g) 15"

lemma target_join: "ucast (lowWord a) OR push_bit 16 (ucast (highWord a)) = a"
proof (rule bit_word_eqI)
  fix n assume n: "n < LENGTH(32)"
  have m: "(0xFFFF :: dword) = mask 16" by (simp add: mask_numeral)
  have "n < 16 \<or> 16 \<le> n" by linarith
  then show "bit (ucast (lowWord a) OR push_bit 16 (ucast (highWord a)) :: dword) n = bit a n"
    using n by (auto simp: lowWord_def highWord_def m bit_simps)
qed

lemma gate_flags:
  "drop_bit 13 (push_bit 13 (word_of_int 0) OR 0x8E00 :: word16) AND 3 = 0" "bit (push_bit 13 (word_of_int 0) OR 0x8E00 :: word16) 15"
  "drop_bit 13 (push_bit 13 (word_of_int 3) OR 0x8E00 :: word16) AND 3 = 3" "bit (push_bit 13 (word_of_int 3) OR 0x8E00 :: word16) 15"
  by simp_all

lemma set_gates_append: "set_gates addr (gs @ gs') idt = bind (set_gates addr gs idt) (set_gates addr gs')"
proof (induction gs arbitrary: idt)
  case (Cons g gs)
  then show ?case by (cases g) (auto simp: bind_assoc intro!: bind_cong)
qed simp

text \<open>What \<open>setIdt\<close> writes: the last gate of a vector wins.\<close>

lemma set_gates_Ok:
  assumes "\<forall>(v, h, pl) \<in> set gs. v < length idt \<and> (pl = 0 \<or> pl = 3)"
  shows "\<exists>idt'. set_gates addr gs idt = Ok idt' \<and> length idt' = length idt \<and>
    (\<forall>v < length idt. case map_of (rev gs) v of None \<Rightarrow> idt' ! v = idt ! v
      | Some (h, pl) \<Rightarrow> gate_target (idt' ! v) = addr h \<and> gate_present (idt' ! v) \<and> gate_dpl (idt' ! v) = word_of_int pl \<and>
          segmentSelector (idt' ! v) = KERNEL_CS)"
  using assms
proof (induction gs arbitrary: idt)
  case (Cons g gs)
  obtain v h pl where g: "g = (v, h, pl)" by (cases g) auto
  define x where "x = \<lparr>lowOffset = lowWord (addr h), segmentSelector = KERNEL_CS, flags = push_bit 13 (word_of_int pl) OR 0x8E00, highOffset = highWord (addr h)\<rparr>"
  have v: "v < length idt" "pl = 0 \<or> pl = 3" using Cons.prems g by auto
  have x: "gate_target x = addr h" "gate_present x" "gate_dpl x = word_of_int pl" "segmentSelector x = KERNEL_CS"
    using v(2) gate_flags by (auto simp: x_def gate_target_def target_join gate_present_def gate_dpl_def)
  from Cons.IH [of "idt[v := x]"] Cons.prems obtain idt' where
    I: "set_gates addr gs (idt[v := x]) = Ok idt'" "length idt' = length idt"
      "\<forall>v' < length idt. case map_of (rev gs) v' of None \<Rightarrow> idt' ! v' = idt[v := x] ! v'
      | Some (h, pl) \<Rightarrow> gate_target (idt' ! v') = addr h \<and> gate_present (idt' ! v') \<and> gate_dpl (idt' ! v') = word_of_int pl \<and>
          segmentSelector (idt' ! v') = KERNEL_CS" by auto
  have "set_gates addr (g # gs) idt = Ok idt'"
    using I(1) v(1) by (simp add: g setInterruptHandler_def x_def Let_def)
  moreover have "case map_of (rev (g # gs)) v' of None \<Rightarrow> idt' ! v' = idt ! v'
      | Some (h, pl) \<Rightarrow> gate_target (idt' ! v') = addr h \<and> gate_present (idt' ! v') \<and> gate_dpl (idt' ! v') = word_of_int pl \<and>
          segmentSelector (idt' ! v') = KERNEL_CS" if "v' < length idt" for v'
    using I(3) [rule_format, OF that] x v(1)
    by (cases "map_of (rev gs) v'"; cases "v' = v") (auto simp: g map_add_def)
  ultimately show ?case using I(2) by blast
qed simp

text \<open>What \<open>setIdt\<close> enters, in its order.\<close>

definition idt_entries :: "(nat \<times> handler \<times> int) list" where
  "idt_entries =
     [(0, Exception Divide_Error, 0), (1, Exception Debug, 0), (2, Exception NM1, 0), (3, Exception Breakpoint, 0),
      (4, Exception Overflow, 0), (5, Exception Bounds_Check, 0), (6, Exception Invalid_Opcode, 0),
      (7, Exception Device_Not_Available, 0), (8, Exception Double_Fault, 0), (9, Exception Coprocessor_Segment_Overrun, 0),
      (10, Exception Invalid_TSS, 0), (11, Exception Segment_Not_Present, 0), (12, Exception Stack_Exception, 0),
      (13, Exception General_Protection, 0), (14, Exception Page_Fault, 0), (15, Exception Intel_Reserved, 0),
      (16, Exception Floating_Point_Error, 0), (17, Exception Alignment_Check, 0)] @
     [(33, Keyboard, 0), (32, Clock, 0), (14, Mifault, 0), (46, Ide, 0), (0x80, System_Call, 3)]"

lemma setIdt_enters:
  assumes "length idt = 256"
  obtains idt' where "setIdt addr idt = Ok (idt', 2047)" and "length idt' = 256"
    and "\<forall>v < 256. case map_of (rev idt_entries) v of None \<Rightarrow> idt' ! v = idt ! v
      | Some (h, pl) \<Rightarrow> gate_target (idt' ! v) = addr h \<and> gate_present (idt' ! v) \<and> gate_dpl (idt' ! v) = word_of_int pl \<and>
          segmentSelector (idt' ! v) = KERNEL_CS"
proof -
  have "\<forall>(v, h, pl) \<in> set idt_entries. v < 256 \<and> (pl = 0 \<or> pl = 3)" by (simp add: idt_entries_def)
  with set_gates_Ok [of idt_entries idt addr] assms obtain idt' where
    run: "set_gates addr idt_entries idt = Ok idt'" "length idt' = 256" and
    G: "\<forall>v < 256. case map_of (rev idt_entries) v of None \<Rightarrow> idt' ! v = idt ! v
      | Some (h, pl) \<Rightarrow> gate_target (idt' ! v) = addr h \<and> gate_present (idt' ! v) \<and> gate_dpl (idt' ! v) = word_of_int pl \<and>
          segmentSelector (idt' ! v) = KERNEL_CS" by auto
  have "setIdt addr idt = Ok (idt', 2047)"
    using run(1) unfolding idt_entries_def set_gates_append by (auto simp: setIdt_def set_handlers_def IDT_ENTRIES_def simp del: set_gates.simps)
  then show thesis using that run(2) G by blast
qed

text \<open>
  After \<open>setIdt\<close> the processor finds each handler at its vector, and the only gate a program in
  user mode can call is 0x80, the system calls.
\<close>

lemma idt_gates:
  assumes "length idt = 256" and "\<forall>v < 256. \<not> gate_present (idt ! v)"
  shows "\<exists>idt'. setIdt addr idt = Ok (idt', 2047) \<and> length idt' = 256 \<and>
    gate_target (idt' ! 0) = addr (Exception Divide_Error) \<and> gate_target (idt' ! 13) = addr (Exception General_Protection) \<and>
    gate_target (idt' ! 14) = addr Mifault \<and> gate_target (idt' ! 32) = addr Clock \<and> gate_target (idt' ! 33) = addr Keyboard \<and>
    gate_target (idt' ! 46) = addr Ide \<and> gate_target (idt' ! 0x80) = addr System_Call \<and>
    (\<forall>v < 256. gate_present (idt' ! v) \<longrightarrow> segmentSelector (idt' ! v) = KERNEL_CS \<and> (gate_dpl (idt' ! v) \<noteq> 0 \<longrightarrow> v = 0x80))"
proof -
  from setIdt_enters [OF assms(1), of addr] obtain idt' where run: "setIdt addr idt = Ok (idt', 2047)" "length idt' = 256" and
    G: "\<forall>v < 256. case map_of (rev idt_entries) v of None \<Rightarrow> idt' ! v = idt ! v
      | Some (h, pl) \<Rightarrow> gate_target (idt' ! v) = addr h \<and> gate_present (idt' ! v) \<and> gate_dpl (idt' ! v) = word_of_int pl \<and>
          segmentSelector (idt' ! v) = KERNEL_CS" by blast
  have "segmentSelector (idt' ! v) = KERNEL_CS \<and> (gate_dpl (idt' ! v) \<noteq> 0 \<longrightarrow> v = 0x80)" if "v < 256" "gate_present (idt' ! v)" for v
  proof (cases "map_of (rev idt_entries) v")
    case None
    then show ?thesis using G [rule_format, OF that(1)] that assms(2) by (simp only: option.case)
  next
    case (Some hp)
    then have "(v, hp) \<in> set idt_entries" using map_of_SomeD [OF Some] by (simp only: set_rev)
    then have "snd hp = 0 \<or> v = 0x80" by (auto simp: idt_entries_def)
    then show ?thesis using G [rule_format, OF that(1)] Some by (cases hp) (auto simp del: rev.simps append.simps)
  qed
  moreover have "gate_target (idt' ! 0) = addr (Exception Divide_Error)" "gate_target (idt' ! 13) = addr (Exception General_Protection)"
    "gate_target (idt' ! 14) = addr Mifault" "gate_target (idt' ! 32) = addr Clock" "gate_target (idt' ! 33) = addr Keyboard"
    "gate_target (idt' ! 46) = addr Ide" "gate_target (idt' ! 0x80) = addr System_Call"
    using spec [where x = "0", OF G] spec [where x = "13", OF G] spec [where x = "14", OF G] spec [where x = "32", OF G] spec [where x = "33", OF G] spec [where x = "46", OF G] spec [where x = "0x80", OF G]
    by (simp_all add: idt_entries_def)
  ultimately show ?thesis using run by blast
qed

definition blank_terminal :: terminal where
  "blank_terminal = \<lparr>vram = replicate 2000 0, xpos = 0, ypos = 15, port_e9 = []\<rparr>"

section \<open>The clock keeps time\<close>

definition on_tick :: "nat \<Rightarrow> pc \<Rightarrow> bool" where
  "on_tick n p \<longleftrightarrow> zeos_ticks p = int n \<and> clocks p = int (n mod 18) \<and> segs p = int (n div 18 mod 60) \<and> mins p = int (n div 1080)"

definition two_digits :: "nat \<Rightarrow> byte list" where
  "two_digits n = [decimal_digit (int (n div 10)), decimal_digit (int (n mod 10))]"

text \<open>MM:SS after \<open>n\<close> ticks, as the 18 ticks of a second are counted.\<close>

definition clock_face :: "nat \<Rightarrow> byte list" where
  "clock_face n = two_digits (n div 1080) @ [58] @ two_digits (n div 18 mod 60)"

lemma tick_counts:
  fixes n :: nat
  shows "int (n mod 18) + 1 = 18 \<longleftrightarrow> Suc n mod 18 = 0"
    and "Suc n mod 18 \<noteq> 0 \<Longrightarrow> Suc n mod 18 = Suc (n mod 18) \<and> Suc n div 18 = n div 18 \<and> Suc n div 1080 = n div 1080"
    and "Suc n mod 18 = 0 \<Longrightarrow> Suc n div 18 = Suc (n div 18)"
    and "Suc n mod 18 = 0 \<Longrightarrow> n div 18 mod 60 + 1 = 60 \<Longrightarrow> Suc (n div 18) mod 60 = 0 \<and> Suc n div 1080 = n div 1080 + 1"
    and "Suc n mod 18 = 0 \<Longrightarrow> n div 18 mod 60 + 1 \<noteq> 60 \<Longrightarrow> Suc (n div 18) mod 60 = n div 18 mod 60 + 1 \<and> Suc n div 1080 = n div 1080"
proof -
  have d: "x div 1080 = x div 18 div 60" for x :: nat by (simp add: div_mult2_eq [symmetric])
  show "int (n mod 18) + 1 = 18 \<longleftrightarrow> Suc n mod 18 = 0" by (simp add: mod_Suc)
  show "Suc n mod 18 \<noteq> 0 \<Longrightarrow> Suc n mod 18 = Suc (n mod 18) \<and> Suc n div 18 = n div 18 \<and> Suc n div 1080 = n div 1080"
    unfolding d by (simp add: mod_Suc div_Suc split: if_splits)
  show s: "Suc n mod 18 = 0 \<Longrightarrow> Suc n div 18 = Suc (n div 18)" by (simp add: div_Suc)
  show "Suc n mod 18 = 0 \<Longrightarrow> n div 18 mod 60 + 1 = 60 \<Longrightarrow> Suc (n div 18) mod 60 = 0 \<and> Suc n div 1080 = n div 1080 + 1"
    unfolding d using s by (simp add: mod_Suc div_Suc)
  show "Suc n mod 18 = 0 \<Longrightarrow> n div 18 mod 60 + 1 \<noteq> 60 \<Longrightarrow> Suc (n div 18) mod 60 = n div 18 mod 60 + 1 \<and> Suc n div 1080 = n div 1080"
    unfolding d using s by (simp add: mod_Suc div_Suc)
qed

lemma decimal_below_100: "n < 100 \<Longrightarrow> decimal n = (if 10 \<le> n then two_digits n else [decimal_digit (int n)])"
  by (auto simp: decimal_def two_digits_def digits.simps [of 10 n] digits.simps [of 10 "n div 10"] decimal_digit_def)

lemma itoa_two_digits:
  assumes "n < 100"
  shows "\<exists>b. zeos_itoa (int n) (replicate 4 0) = Ok b \<and>
    (if 10 \<le> n then b ! 0 else 48) = two_digits n ! 0 \<and> (if 10 \<le> n then b ! 1 else b ! 0) = two_digits n ! 1"
proof -
  have "zeos_itoa (int n) (replicate 4 0) = Ok (with_segment 0 (decimal n @ [0]) (replicate 4 0))"
    using itoa_decimal_aux [of "int n" "replicate 4 0"] decimal_below_100 [OF assms]
    by (simp add: itoa_def zeos_itoa_def two_digits_def)
  then show ?thesis using decimal_below_100 [OF assms]
    by (auto simp: with_segment_def two_digits_def decimal_digit_def)
qed

definition draw_face :: "byte list \<Rightarrow> terminal \<Rightarrow> terminal" where
  "draw_face s t = t\<lparr>vram := (vram t)[70 := cell (s ! 0), 71 := cell (s ! 1), 72 := cell (s ! 2), 73 := cell (s ! 3), 74 := cell (s ! 4)]\<rparr>"

lemma draw_face_on_screen: "on_screen t \<Longrightarrow> on_screen (draw_face s t) \<and> xpos (draw_face s t) = xpos t \<and> ypos (draw_face s t) = ypos t \<and>
    port_e9 (draw_face s t) = port_e9 t"
  by (simp add: draw_face_def on_screen_def)

lemma show_clock_counts:
  assumes "on_screen (screen p)" and "on_tick n p" and "Suc n < 108000"
  shows "\<exists>p'. zeos_show_clock (p\<lparr>zeos_ticks := zeos_ticks p + 1\<rparr>) = Ok p' \<and> on_tick (Suc n) p' \<and> kernel_of p' = kernel_of p \<and>
    screen p' = (if Suc n mod 18 = 0 then draw_face (clock_face (Suc n)) (screen p) else screen p)"
proof (cases "Suc n mod 18 = 0")
  case False
  then show ?thesis using tick_counts(1,2) [of n] assms(2) by (simp add: zeos_show_clock_def on_tick_def Let_def)
next
  case True
  let ?m = "Suc n div 1080" and ?s = "Suc n div 18 mod 60"
  have m: "?m < 100" "?s < 100" using assms(3) by (auto simp: less_mult_imp_div_less intro: less_trans [of _ 60])
  from itoa_two_digits [OF m(1)] itoa_two_digits [OF m(2)] obtain bm bs where
    b: "zeos_itoa (int ?m) (replicate 4 0) = Ok bm" "(if 10 \<le> ?m then bm ! 0 else 48) = two_digits ?m ! 0" "(if 10 \<le> ?m then bm ! 1 else bm ! 0) = two_digits ?m ! 1"
       "zeos_itoa (int ?s) (replicate 4 0) = Ok bs" "(if 10 \<le> ?s then bs ! 0 else 48) = two_digits ?s ! 0" "(if 10 \<le> ?s then bs ! 1 else bs ! 0) = two_digits ?s ! 1" by blast
  define q where "q = p\<lparr>zeos_ticks := int (Suc n), clocks := 0, segs := int ?s, mins := int ?m\<rparr>"
  have tick: "zeos_ticks p = int n" "clocks p + 1 = 18" "segs p = int (n div 18 mod 60)" "mins p = int (n div 1080)"
    using assms(2) tick_counts(1) [of n] True by (simp_all add: on_tick_def)
  have q: "segs p + 1 = 60 \<Longrightarrow> p\<lparr>zeos_ticks := zeos_ticks p + 1, clocks := 0, segs := 0, mins := mins p + 1\<rparr> = q"
    "segs p + 1 \<noteq> 60 \<Longrightarrow> p\<lparr>zeos_ticks := zeos_ticks p + 1, segs := segs p + 1, clocks := 0\<rparr> = q"
  proof -
    assume "segs p + 1 = 60"
    then have "n div 18 mod 60 + 1 = 60" using tick(3) by simp
    then show "p\<lparr>zeos_ticks := zeos_ticks p + 1, clocks := 0, segs := 0, mins := mins p + 1\<rparr> = q"
      using tick tick_counts(3) [OF True] tick_counts(4) [OF True] by (simp add: q_def)
  next
    assume "segs p + 1 \<noteq> 60"
    then have "n div 18 mod 60 + 1 \<noteq> 60" using tick(3) by simp
    then show "p\<lparr>zeos_ticks := zeos_ticks p + 1, segs := segs p + 1, clocks := 0\<rparr> = q"
      using tick tick_counts(3) [OF True] tick_counts(5) [OF True] by (simp add: q_def)
  qed
  have len: "length (vram (screen p)) = 2000" using assms(1) by (simp add: on_screen_def)
  have i: "(10 \<le> int ?m) = (10 \<le> ?m)" "(10 \<le> int ?s) = (10 \<le> ?s)" by linarith+
  have f: "clock_face (Suc n) ! 0 = two_digits ?m ! 0" "clock_face (Suc n) ! Suc 0 = two_digits ?m ! Suc 0" "clock_face (Suc n) ! 2 = 58"
    "clock_face (Suc n) ! 3 = two_digits ?s ! 0" "clock_face (Suc n) ! 4 = two_digits ?s ! 1"
    by (simp_all add: clock_face_def two_digits_def)
  have draw: "draw_clock q = Ok (q\<lparr>screen := draw_face (clock_face (Suc n)) (screen q)\<rparr>)"
    using b len i by (simp add: draw_clock_def clock_cell_def q_def draw_face_def f)
  have "segs q \<noteq> 60" using mod_less_divisor [of 60 "Suc n div 18"] by (simp add: q_def)
  then have "zeos_show_clock (p\<lparr>zeos_ticks := zeos_ticks p + 1\<rparr>) = draw_clock q"
    using q tick(2) by (cases "segs p + 1 = 60") (simp_all add: zeos_show_clock_def Let_def)
  then have "zeos_show_clock (p\<lparr>zeos_ticks := zeos_ticks p + 1\<rparr>) = Ok (q\<lparr>screen := draw_face (clock_face (Suc n)) (screen q)\<rparr>)"
    by (simp only: draw)
  then show ?thesis using True by (simp add: on_tick_def q_def)
qed

lemma clock_tells_time_aux:
  assumes "kernel_inv (kernel_of p)" and "on_screen (screen p)" and "on_tick n p" and "Suc n < 108000"
  shows "\<exists>p'. clock_routine p = Ok p' \<and> kernel_inv (kernel_of p') \<and> on_tick (Suc n) p' \<and> sys_gettime (zeos_ticks p') = int n + 1 \<and> on_screen (screen p') \<and>
    screen p' = (if Suc n mod 18 = 0 then draw_face (clock_face (Suc n)) (screen p) else screen p)"
proof -
  from show_clock_counts [OF assms(2-)] obtain q where
    q: "zeos_show_clock (p\<lparr>zeos_ticks := zeos_ticks p + 1\<rparr>) = Ok q" "on_tick (Suc n) q" "kernel_of q = kernel_of p"
      "screen q = (if Suc n mod 18 = 0 then draw_face (clock_face (Suc n)) (screen p) else screen p)" by blast
  from event_sound [OF assms(1), of Tick] obtain k' where "scheduling (kernel_of p) = Ok k'" "kernel_inv k'" by auto
  then show ?thesis using q draw_face_on_screen [OF assms(2)] assms(2)
    by (intro exI [of _ "q\<lparr>kernel_of := k'\<rparr>"]) (simp add: clock_routine_def on_kernel_def on_tick_def sys_gettime_def)
qed

text \<open>
  Below 100 minutes every clock interrupt counts one tick, 18 of them make a second, 60 seconds
  a minute; each second the corner of the screen shows the time as MM:SS, and the kernel stays sound.
\<close>

lemma clock_tells_time:
  assumes "kernel_inv (kernel_of p)" and "on_screen (screen p)" and "on_tick n p" and "Suc n < 108000"
  shows "\<exists>p'. clock_routine p = Ok p' \<and> kernel_inv (kernel_of p') \<and> on_tick (Suc n) p' \<and> sys_gettime (zeos_ticks p') = int n + 1 \<and> on_screen (screen p') \<and>
    screen p' = (if Suc n mod 18 = 0 then draw_face (clock_face (Suc n)) (screen p) else screen p)"
  by (rule clock_tells_time_aux [OF assms])

text \<open>
  After 1000 minutes the clock writes beyond \<open>cmins\<close>: the handler of tick 1080000 leaves the array.
\<close>

lemma clock_overflows:
  assumes "on_tick 1079999 p"
  shows "clock_routine p = Fault OutOfBounds"
proof -
  have d: "(1 :: int) sdiv 10 = 0" "(1 :: int) smod 10 = 1" by (simp_all add: signed_divide_int_def signed_modulo_int_def)
  have "zeos_itoa 1000 (replicate 4 0) = Fault OutOfBounds" 
    by (simp add: zeos_itoa_def digit_loop_def loop_step loop_stop decimal_digit_def swap_loop_def swap_digit_def d)
  then show ?thesis using assms by (simp add: clock_routine_def zeos_show_clock_def draw_clock_def on_tick_def Let_def)
qed

section \<open>Keys, exceptions and the console\<close>

lemma printc_xy_puts:
  assumes "on_screen t" and "unat mx < 80" and "unat my < 25"
  shows "\<exists>t'. printc_xy mx my c t = Ok t' \<and> on_screen t' \<and> xpos t' = xpos t \<and> ypos t' = ypos t \<and>
    vram t' = fst (put_char (vram t, unat my * 80 + unat mx) c) \<and> port_e9 t' = port_e9 t @ [c]"
proof -
  have "on_screen (t\<lparr>xpos := mx, ypos := my\<rparr>)" using assms by (simp add: on_screen_def)
  from printc_puts [OF this, of c] obtain t' where
    "printc c (t\<lparr>xpos := mx, ypos := my\<rparr>) = Ok t'" "on_screen t'" "shown t' = put_char (vram t, unat my * 80 + unat mx) c" "port_e9 t' = port_e9 t @ [c]"
    by (auto simp: shown_def)
  moreover from this(3) have "vram t' = fst (put_char (vram t, unat my * 80 + unat mx) c)"
    by (metis shown_def fst_conv)
  ultimately show ?thesis using assms(1) by (simp add: printc_xy_def Let_def on_screen_def)
qed

lemma printc_xy_below: 
  assumes "length (vram t) = 2000" and "25 \<le> unat my" and "c \<noteq> 10"
  shows "printc_xy mx my c t = Fault OutOfBounds"
  using assms by (simp add: printc_xy_def printc_def Let_def NUM_COLUMNS_def)

lemma key_press: "c AND 0x80 = 0 \<longleftrightarrow> unat c < 128" for c :: byte
proof -
  have "c AND 0x80 = 0 \<longleftrightarrow> \<not> bit c 7" using and_exp_eq_0_iff_not_bit [of c 7] by simp
  also have "\<dots> \<longleftrightarrow> even (unat c div 128)"
    using bit_iff_odd [of "unat c" 7] by (simp add: bit_unsigned_iff)
  also have "\<dots> \<longleftrightarrow> unat c < 128"
  proof -
    have "unat c < 256" using unsigned_less [of c] by simp
    then have "unat c div 128 = 0 \<or> unat c div 128 = 1" by linarith
    then show ?thesis by (auto simp: div_eq_0_iff)
  qed
  finally show ?thesis .
qed

lemma char_map_printable: "length char_map = 98" "10 \<notin> set char_map"
  by code_simp+

lemma keyboard_shows:
  assumes "on_screen t" and "unat c < 98"
  shows "\<exists>t'. keyboard_routine c t = Ok t' \<and> on_screen t' \<and> xpos t' = xpos t \<and> ypos t' = ypos t \<and>
    vram t' = (vram t)[0 := cell (if char_map ! unat c = 0 then 67 else char_map ! unat c)]"
proof -
  let ?v = "if char_map ! unat c = 0 then 67 else char_map ! unat c"
  have "char_map ! unat c \<in> set char_map" using assms(2) by (intro nth_mem) (simp add: char_map_printable)
  with char_map_printable(2) have v: "?v \<noteq> 10" by (auto split: if_splits)
  have get: "aget char_map (unat c) = Ok (char_map ! unat c)" using assms(2) by (simp add: char_map_printable)
  from printc_xy_puts [OF assms(1), of 0 0 ?v] v get show ?thesis using assms(2)
    by (auto simp: keyboard_routine_def key_press put_char_def)
qed

lemma keyboard_release: "128 \<le> unat c \<Longrightarrow> keyboard_routine c t = Ok t"
  by (simp add: keyboard_routine_def key_press)

lemma keyboard_beyond: "98 \<le> unat c \<Longrightarrow> unat c < 128 \<Longrightarrow> keyboard_routine c t = Fault OutOfBounds"
  by (simp add: keyboard_routine_def key_press char_map_printable)

lemma exception_hangs:
  assumes "on_screen t"
  shows "exception_routine e t = Fault Diverges"
proof -
  from printk_shows [OF assms, of "newline # chars (exception_text e) @ [newline, 0]"] obtain t' where
    "printk_io (newline # chars (exception_text e) @ [newline, 0]) t = Ok t'" by auto
  then show ?thesis by (simp add: exception_routine_def loop_diverges [where I = "\<lambda>_. True"])
qed

text \<open>
  C22: the screen is well formed, a memory of 2000 cells with the cursor inside, behind whatever is
  printed in its bounds: a character at the cursor or at a place of the 25 rows, a string, a key of the table.
\<close>

theorem screen_kept:
  assumes "on_screen t" and "unat mx < 80" and "unat my < 25" and "0 \<in> set str" and "unat key < 98 \<or> 128 \<le> unat key"
  shows "(\<exists>t'. printc c t = Ok t' \<and> on_screen t') \<and> (\<exists>t'. printk_io str t = Ok t' \<and> on_screen t') \<and>
    (\<exists>t'. printc_xy mx my c t = Ok t' \<and> on_screen t' \<and> xpos t' = xpos t \<and> ypos t' = ypos t) \<and>
    (\<exists>t'. keyboard_routine key t = Ok t' \<and> on_screen t' \<and> xpos t' = xpos t \<and> ypos t' = ypos t)"
  using printc_puts [OF assms(1), of c] printk_shows [OF assms(1,4)] printc_xy_puts [OF assms(1-3), of c]
    keyboard_shows [OF assms(1), of key] keyboard_release [of key t] assms(1,5) by auto

theorem screen_kept_witness:
  "\<exists>t'. keyboard_routine 2 \<lparr>vram = replicate 2000 0, xpos = 79, ypos = 24, port_e9 = []\<rparr> = Ok t' \<and> on_screen t'"
  using screen_kept [of "\<lparr>vram = replicate 2000 0, xpos = 79, ypos = 24, port_e9 = []\<rparr>" 0 0 "[0]" 2] by (auto simp: on_screen_def)

text \<open>
  C23: \<open>printk\<close> puts the characters of its string in the cells from the cursor on, wraps at the end of a
  line and from the last row to the first, and sends the same bytes to port 0xE9: the text the other
  parts of the development append is the text that is shown.
\<close>

theorem printk_refines:
  assumes "on_screen t" and "0 \<in> set str"
  shows "\<exists>t'. printk_io str t = Ok t' \<and> shown t' = foldl put_char (shown t) (takeWhile (\<lambda>c. c \<noteq> 0) str) \<and>
    port_e9 t' = port_e9 t @ takeWhile (\<lambda>c. c \<noteq> 0) str"
  using printk_shows [OF assms] by auto

theorem printk_refines_witness:
  "\<exists>t'. printk_io [65, 10, 66, 0] \<lparr>vram = replicate 2000 0, xpos = 0, ypos = 24, port_e9 = []\<rparr> = Ok t' \<and>
     vram t' ! 1920 = 0x0241 \<and> vram t' ! 0 = 0x0242 \<and> unat (ypos t') * 80 + unat (xpos t') = 1"
  using printk_refines [of "\<lparr>vram = replicate 2000 0, xpos = 0, ypos = 24, port_e9 = []\<rparr>" "[65, 10, 66, 0]"]
  by (auto simp: on_screen_def shown_def put_char_def cell_def)

text \<open>
  The keyboard table has 98 entries, and the handler reads it at every scan code below 128: the
  codes from 98 on are read behind the table.
\<close>

lemma keyboard_bounds:
  assumes "on_screen t" and "unat c < 128"
  shows "(\<exists>t'. keyboard_routine c t = Ok t') \<longleftrightarrow> unat c < 98"
  using keyboard_shows [OF assms(1)] keyboard_beyond [of c t] assms(2) by (cases "unat c < 98") auto

section \<open>Sequences of interrupts\<close>

datatype interrupt = Tick_Irq | Key_Irq byte

fun interrupt_step :: "interrupt \<Rightarrow> pc \<Rightarrow> pc res" where
  "interrupt_step Tick_Irq p = clock_handler p"
| "interrupt_step (Key_Irq c) p = keyboard_handler c p"

fun interrupts :: "interrupt list \<Rightarrow> pc \<Rightarrow> pc res" where
  "interrupts [] p = Ok p"
| "interrupts (i # is) p = bind (interrupt_step i p) (interrupts is)"

definition pc_inv :: "nat \<Rightarrow> pc \<Rightarrow> bool" where
  "pc_inv n p \<longleftrightarrow> kernel_inv (kernel_of p) \<and> on_screen (screen p) \<and> on_tick n p"

lemma on_kernel_inv:
  assumes "pc_inv n p" and "possible e (kernel_of p)" and "event_step e = f"
  shows "\<exists>p'. on_kernel f p = Ok p' \<and> pc_inv n p'"
proof -
  from event_sound [OF _ assms(2)] assms(1,3) obtain k' where "f (kernel_of p) = Ok k'" "kernel_inv k'" by (auto simp: pc_inv_def)
  then show ?thesis using assms(1) by (auto simp: on_kernel_def pc_inv_def on_tick_def)
qed

lemma clock_handler_inv:
  assumes "pc_inv n p" and "Suc n < 108000"
  shows "\<exists>p'. clock_handler p = Ok p' \<and> pc_inv (Suc n) p'"
proof -
  from on_kernel_inv [OF assms(1), of Enter] obtain p1 where p1: "on_kernel user2system p = Ok p1" "pc_inv n p1" by (auto simp: fun_eq_iff)
  from clock_tells_time_aux [of p1 n] p1(2) assms(2) obtain p2 where p2: "clock_routine p1 = Ok p2" "pc_inv (Suc n) p2" by (auto simp: pc_inv_def)
  from on_kernel_inv [OF p2(2), of Leave] obtain p3 where "on_kernel system2user p2 = Ok p3" "pc_inv (Suc n) p3" by (auto simp: fun_eq_iff)
  with p1 p2 show ?thesis by (simp add: clock_handler_def)
qed

lemma keyboard_handler_inv:
  assumes "pc_inv n p" and "unat c < 98 \<or> 128 \<le> unat c"
  shows "\<exists>p'. keyboard_handler c p = Ok p' \<and> pc_inv n p'"
proof -
  from on_kernel_inv [OF assms(1), of Enter] obtain p1 where p1: "on_kernel user2system p = Ok p1" "pc_inv n p1" by (auto simp: fun_eq_iff)
  then obtain t where t: "keyboard_routine c (screen p1) = Ok t" "on_screen t"
    using keyboard_shows [of "screen p1" c] keyboard_release [of c] assms(2) by (auto simp: pc_inv_def)
  have "pc_inv n (p1\<lparr>screen := t\<rparr>)" using p1(2) t(2) by (simp add: pc_inv_def on_tick_def)
  from on_kernel_inv [OF this, of Leave] obtain p2 where "on_kernel system2user (p1\<lparr>screen := t\<rparr>) = Ok p2" "pc_inv n p2" by (auto simp: fun_eq_iff)
  with p1 t show ?thesis by (simp add: keyboard_handler_def)
qed

text \<open>
  C19: any sequence of clock and keyboard interrupts below 100 minutes, with scan codes inside the
  table, runs without a fault, counts its ticks, and leaves a sound kernel and a well-formed screen.
\<close>

theorem interrupts_safe:
  assumes "kernel_inv (kernel_of p)" and "on_screen (screen p)" and "on_tick n p"
    and "n + count_list is Tick_Irq < 108000" and "\<forall>c. Key_Irq c \<in> set is \<longrightarrow> unat c < 98 \<or> 128 \<le> unat c"
  shows "\<exists>p'. interrupts is p = Ok p' \<and> kernel_inv (kernel_of p') \<and> on_screen (screen p') \<and> sys_gettime (zeos_ticks p') = int (n + count_list is Tick_Irq)"
proof -
  have "\<exists>p'. interrupts is p = Ok p' \<and> pc_inv (n + count_list is Tick_Irq) p'"
    if "pc_inv n p" "n + count_list is Tick_Irq < 108000" "\<forall>c. Key_Irq c \<in> set is \<longrightarrow> unat c < 98 \<or> 128 \<le> unat c" for n p
    using that
  proof (induction "is" arbitrary: n p)
    case (Cons i "is")
    show ?case
    proof (cases i)
      case Tick_Irq
      with clock_handler_inv [OF Cons.prems(1)] Cons.prems(2) obtain p1 where p1: "interrupt_step i p = Ok p1" "pc_inv (Suc n) p1" by auto
      from Cons.IH [OF p1(2)] Cons.prems(2,3) Tick_Irq p1(1) show ?thesis by auto
    next
      case (Key_Irq c)
      with keyboard_handler_inv [OF Cons.prems(1), of c] Cons.prems(3) obtain p1 where p1: "interrupt_step i p = Ok p1" "pc_inv n p1" by auto
      from Cons.IH [OF p1(2)] Cons.prems(2,3) Key_Irq p1(1) show ?thesis by auto
    qed
  qed auto
  from this [of n p] assms show ?thesis by (auto simp: pc_inv_def on_tick_def sys_gettime_def)
qed

theorem interrupts_safe_witness:
  "\<exists>k0 p'. boot blank_kernel = Ok k0 \<and>
     interrupts [Tick_Irq, Key_Irq 2, Tick_Irq, Key_Irq 0x82] \<lparr>kernel_of = k0, screen = blank_terminal, clocks = 0, segs = 0, mins = 0, zeos_ticks = 0\<rparr> = Ok p' \<and>
     sys_gettime (zeos_ticks p') = 2 \<and> kernel_inv (kernel_of p')"
proof -
  obtain k0 where k0: "boot blank_kernel = Ok k0" "sound k0 (boot_queues 8)" by (rule started)
  let ?p = "\<lparr>kernel_of = k0, screen = blank_terminal, clocks = 0, segs = 0, mins = 0, zeos_ticks = 0\<rparr>"
  have "kernel_inv (kernel_of ?p)" "on_screen (screen ?p)" "on_tick 0 ?p"
    using k0(2) by (auto simp: kernel_inv_def on_screen_def blank_terminal_def on_tick_def)
  from interrupts_safe [OF this, of "[Tick_Irq, Key_Irq 2, Tick_Irq, Key_Irq 0x82]"] k0(1) show ?thesis by auto
qed

end
