(* ===== verification/Kernel_Zsem.thy ===== *)
theory Kernel_Zsem
  imports Kernel_Events Kernel_Interrupts
begin

text \<open>
  The second implementation of semaphores (zeos_full/zeos_semaphores.c), by number instead of name,
  with the same convention for calls that switch to another process: \<open>Inr\<close> is the state in their
  middle, and the definition \<open>_resumed\<close> is what the caller does when it runs again. What they print
  is not represented.

  The locale \<open>counting_semaphore\<close> says what a semaphore is: a count and the processes that wait, in
  their order. sem.c and zeos_semaphores.c both keep this contract.
\<close>

section \<open>Code\<close>

definition Z_MAX_SEMS :: nat where "Z_MAX_SEMS = 10"
definition Z_EINVAL :: int where "Z_EINVAL = 1"

definition get_zsem :: "int \<Rightarrow> kernel \<Rightarrow> z_sem res" where
  "get_zsem i k = aget_int (zeos_sems k) i"

definition set_zsem :: "int \<Rightarrow> (z_sem \<Rightarrow> z_sem) \<Rightarrow> kernel \<Rightarrow> kernel res" where
  "set_zsem i f k = bind (get_zsem i k) (\<lambda>s. bind (aput_int (zeos_sems k) i (f s)) (\<lambda>ss. Ok (k\<lparr>zeos_sems := ss\<rparr>)))"

definition zeos_sys_init_sems :: "kernel \<Rightarrow> (int \<times> kernel) res" where
  "zeos_sys_init_sems k =
     bind (for_each [0..<Z_MAX_SEMS] (\<lambda>i k. bind (set_zsem (int i) (\<lambda>s. s\<lparr>z_used := 0\<rparr>) k) (\<lambda>k.
        bind (on_lists (INIT_LIST_HEAD (Zsem_Queue i)) k) (\<lambda>k. Ok (Inl k)))) k) (\<lambda>r.
     Ok (0, case r of Inl k \<Rightarrow> k | Inr k \<Rightarrow> k))"

text \<open>The range check that the calls share.\<close>

definition bad_sem_id :: "int \<Rightarrow> bool" where
  "bad_sem_id sid \<longleftrightarrow> sid < 0 \<or> sid > int Z_MAX_SEMS"

text \<open>\<open>while (s->used < 0)\<close>: each round lets the others run; the caller comes back to the test.\<close>

definition zeos_sys_sem_init_resumed :: "int \<Rightarrow> int \<Rightarrow> kernel \<Rightarrow> ((int + unit) \<times> kernel) res" where
  "zeos_sys_sem_init_resumed sid val k =
     bind (get_zsem sid k) (\<lambda>s.
     if z_used s < 0 then
       bind (update_process_state_rr (cur k) Ready_Queue k) (\<lambda>k. bind (sched_next_rr k) (\<lambda>k. Ok (Inr (), k)))
     else
       bind (get_task k (cur k)) (\<lambda>t.
       bind (set_zsem sid (\<lambda>s. s\<lparr>z_used := 1, z_counter := val, z_owner := PID t\<rparr>) k) (\<lambda>k.
       bind (on_lists (INIT_LIST_HEAD (Zsem_Queue (nat sid))) k) (\<lambda>k. Ok (Inl 0, k)))))"

definition zeos_sys_sem_init :: "int \<Rightarrow> int \<Rightarrow> kernel \<Rightarrow> ((int + unit) \<times> kernel) res" where
  "zeos_sys_sem_init sid val k =
     (if bad_sem_id sid then Ok (Inl (-Z_EINVAL), k) else
      bind (get_zsem sid k) (\<lambda>s.
      if 0 < z_used s then Ok (Inl (-Z_EINVAL), k)
      else zeos_sys_sem_init_resumed sid val k))"

text \<open>\<open>list_for_each_safe (p, tmp, &s->sem_blocked)\<close> with its body\<close>

definition zeos_wake_round :: "int \<Rightarrow> node \<times> node \<times> kernel \<Rightarrow> ((node \<times> node \<times> kernel) + kernel) res" where
  "zeos_wake_round sid = (\<lambda>(p, tmp, k).
     if p \<noteq> Zsem_Queue (nat sid) then
       bind (set_zsem sid (\<lambda>s. s\<lparr>z_used := z_used s - 1\<rparr>) k) (\<lambda>k.
       bind (list_head_to_task_struct p) (\<lambda>t.
       bind (update_process_state_rr t Ready_Queue k) (\<lambda>k.
       bind (get_nxt (links k) tmp) (\<lambda>n. Ok (Inl (tmp, n, k))))))
     else Ok (Inr k))"

definition zeos_sys_sem_destroy :: "int \<Rightarrow> kernel \<Rightarrow> (int \<times> kernel) res" where
  "zeos_sys_sem_destroy sid k =
     (if bad_sem_id sid then Ok (-Z_EINVAL, k) else
      bind (get_zsem sid k) (\<lambda>s.
      if z_used s \<le> 0 then Ok (-Z_EINVAL, k) else
      bind (get_task k (cur k)) (\<lambda>t.
      if z_owner s \<noteq> PID t then Ok (-Z_EINVAL, k) else
      bind (set_zsem sid (\<lambda>s. s\<lparr>z_used := 0\<rparr>) k) (\<lambda>k.
      bind (get_nxt (links k) (Zsem_Queue (nat sid))) (\<lambda>p.
      bind (get_nxt (links k) p) (\<lambda>tmp.
      bind (loop (zeos_wake_round sid) (p, tmp, k)) (\<lambda>k. Ok (0, k))))))))"

definition zeos_sys_sem_signal :: "int \<Rightarrow> kernel \<Rightarrow> (int \<times> kernel) res" where
  "zeos_sys_sem_signal sid k =
     (if bad_sem_id sid then Ok (-Z_EINVAL, k) else
      bind (get_zsem sid k) (\<lambda>s.
      if z_used s \<le> 0 then Ok (-Z_EINVAL, k) else
      bind (list_empty (links k) (Zsem_Queue (nat sid))) (\<lambda>e.
      if e then bind (set_zsem sid (\<lambda>s. s\<lparr>z_counter := z_counter s + 1\<rparr>) k) (\<lambda>k. Ok (0, k))
      else
        bind (list_first (links k) (Zsem_Queue (nat sid))) (\<lambda>p.
        bind (list_head_to_task_struct p) (\<lambda>t.
        bind (update_process_state_rr t Ready_Queue k) (\<lambda>k. Ok (0, k)))))))"

definition zeos_sys_sem_wait :: "int \<Rightarrow> kernel \<Rightarrow> ((int + unit) \<times> kernel) res" where
  "zeos_sys_sem_wait sid k =
     (if bad_sem_id sid then Ok (Inl (-Z_EINVAL), k) else
      bind (get_zsem sid k) (\<lambda>s.
      if z_used s \<le> 0 then Ok (Inl (-Z_EINVAL), k)
      else if 0 < z_counter s then bind (set_zsem sid (\<lambda>s. s\<lparr>z_counter := z_counter s - 1\<rparr>) k) (\<lambda>k. Ok (Inl 0, k))
      else
        bind (update_process_state_rr (cur k) (Zsem_Queue (nat sid)) k) (\<lambda>k.
        bind (sched_next_rr k) (\<lambda>k. Ok (Inr (), k)))))"

definition zeos_sys_sem_wait_resumed :: "int \<Rightarrow> kernel \<Rightarrow> (int \<times> kernel) res" where
  "zeos_sys_sem_wait_resumed sid k =
     bind (get_zsem sid k) (\<lambda>s.
     if z_used s < 0 then bind (set_zsem sid (\<lambda>s. s\<lparr>z_used := z_used s + 1\<rparr>) k) (\<lambda>k. Ok (-2, k))
     else Ok (0, k))"

definition zeos_blocked_round :: "int \<Rightarrow> nat \<Rightarrow> kernel \<Rightarrow> node \<Rightarrow> (node + bool) res" where
  "zeos_blocked_round pid i k tmp =
     (if tmp \<noteq> Zsem_Queue i then
        bind (list_head_to_task_struct tmp) (\<lambda>t.
        bind (get_task k t) (\<lambda>p.
        if PID p = pid then Ok (Inr True) else bind (get_nxt (links k) tmp) (\<lambda>n. Ok (Inl n))))
      else Ok (Inr False))"

definition zeos_is_blocked_pid :: "int \<Rightarrow> kernel \<Rightarrow> int res" where
  "zeos_is_blocked_pid pid k =
     bind (for_each [0..<Z_MAX_SEMS] (\<lambda>i _.
        bind (get_nxt (links k) (Zsem_Queue i)) (\<lambda>p.
        bind (loop (zeos_blocked_round pid i k) p) (\<lambda>b. Ok (if b then Inr () else Inl ())))) ()) (\<lambda>r.
     Ok (case r of Inr _ \<Rightarrow> 1 | Inl _ \<Rightarrow> 0))"

definition zeos_sys_nice :: "int \<Rightarrow> kernel \<Rightarrow> (int \<times> kernel) res" where
  "zeos_sys_nice q k =
     bind (get_quantum (cur k) k) (\<lambda>old. bind (set_quantum (cur k) q k) (\<lambda>k. Ok (old, k)))"

text \<open>\<open>call_handler\<close> is the address of \<open>zeos_call_handler\<close>.\<close>

definition zeos_init_auxjp :: "dword \<Rightarrow> kernel \<times> gate list \<Rightarrow> (kernel \<times> gate list) res" where
  "zeos_init_auxjp call_handler = (\<lambda>(k, idt).
     bind (zeos_sys_init_sems k) (\<lambda>(_, k).
     bind (setTrapHandler 0x82 call_handler 3 idt) (\<lambda>idt. Ok (k, idt))))"

text \<open>
  Interrupt 0x82 of zeos_semaphores_syscall.S: the handler indexes its table with the register as it
  is. The calls get the registers as numbers.
\<close>

definition zeos_call_table :: "(int \<Rightarrow> int \<Rightarrow> kernel \<Rightarrow> ((int + unit) \<times> kernel) res) list" where
  "zeos_call_table =
     [zeos_sys_sem_init, \<lambda>ebx ecx k. bind (zeos_sys_sem_destroy ebx k) (\<lambda>(r, k). Ok (Inl r, k)),
      \<lambda>ebx ecx k. bind (zeos_sys_sem_signal ebx k) (\<lambda>(r, k). Ok (Inl r, k)), \<lambda>ebx ecx. zeos_sys_sem_wait ebx,
      \<lambda>ebx ecx k. bind (zeos_sys_nice ebx k) (\<lambda>(r, k). Ok (Inl r, k))]"

definition zeos_call_handler :: "dword \<Rightarrow> int \<Rightarrow> int \<Rightarrow> kernel \<Rightarrow> ((int + unit) \<times> kernel) res" where
  "zeos_call_handler eax ebx ecx k =
     bind (user2system k) (\<lambda>k. bind (aget_int zeos_call_table (sint eax)) (\<lambda>call. bind (call ebx ecx k) (\<lambda>(r, k).
     case r of Inl _ \<Rightarrow> bind (system2user k) (\<lambda>k. Ok (r, k)) | Inr _ \<Rightarrow> Ok (r, k))))"

section \<open>The contract of a semaphore\<close>

datatype sem_op = Wait_Op | Signal_Op

text \<open>
  A run of operations by whatever process is running; the idle process, without a \<open>caller\<close>, does not
  wait. The result is the number of signals less the number of waits.
\<close>

fun sem_run :: "('k \<Rightarrow> (bool \<times> 'k) res) \<Rightarrow> ('k \<Rightarrow> 'k res) \<Rightarrow> ('k \<Rightarrow> node option) \<Rightarrow> sem_op list \<Rightarrow> 'k \<Rightarrow> (int \<times> 'k) res" where
  "sem_run wait signal caller [] k = Ok (0, k)"
| "sem_run wait signal caller (Wait_Op # ops) k =
     (case caller k of None \<Rightarrow> sem_run wait signal caller ops k
      | Some p \<Rightarrow> bind (wait k) (\<lambda>(b, k). bind (sem_run wait signal caller ops k) (\<lambda>(d, k). Ok (d - 1, k))))"
| "sem_run wait signal caller (Signal_Op # ops) k =
     bind (signal k) (\<lambda>k. bind (sem_run wait signal caller ops k) (\<lambda>(d, k). Ok (d + 1, k)))"

text \<open>\<open>rep k c ws\<close>: in the state \<open>k\<close> the count is \<open>c\<close> and \<open>ws\<close> wait; \<open>top\<close> bounds the count.\<close>

locale counting_semaphore =
  fixes wait :: "'k \<Rightarrow> (bool \<times> 'k) res" and signal :: "'k \<Rightarrow> 'k res"
    and rep :: "'k \<Rightarrow> nat \<Rightarrow> node list \<Rightarrow> bool" and caller :: "'k \<Rightarrow> node option" and top :: nat
  assumes wait_law: "rep k c ws \<Longrightarrow> caller k = Some p \<Longrightarrow>
      \<exists>b k'. wait k = Ok (b, k') \<and> (if 0 < c then \<not> b \<and> rep k' (c - 1) ws else b \<and> rep k' 0 (ws @ [p]))"
    and signal_law: "rep k c ws \<Longrightarrow> Suc c < top \<Longrightarrow>
      \<exists>k'. signal k = Ok k' \<and> (case ws of [] \<Rightarrow> rep k' (Suc c) [] | w # ws' \<Rightarrow> rep k' c ws')"
begin

text \<open>No signal is lost: the count less the number of waiting processes is the balance of the run.\<close>

lemma balance:
  "rep k c ws \<Longrightarrow> c + length ops < top \<Longrightarrow> c = 0 \<or> ws = [] \<Longrightarrow>
   \<exists>d k' c' ws'. sem_run wait signal caller ops k = Ok (d, k') \<and> rep k' c' ws' \<and> (c' = 0 \<or> ws' = []) \<and>
     int c' - int (length ws') = int c - int (length ws) + d"
proof (induction ops arbitrary: k c ws)
  case Nil
  then show ?case by auto
next
  case (Cons oper ops)
  show ?case
  proof (cases oper)
    case Wait_Op
    show ?thesis
    proof (cases "caller k")
      case None
      with Cons.IH [OF Cons.prems(1)] Cons.prems(2,3) Wait_Op show ?thesis by simp
    next
      case (Some p)
      from wait_law [OF Cons.prems(1) Some] obtain b k1 where
        k1: "wait k = Ok (b, k1)" "if 0 < c then \<not> b \<and> rep k1 (c - 1) ws else b \<and> rep k1 0 (ws @ [p])" by blast
      define c1 ws1 where "c1 = c - 1" and "ws1 = (if 0 < c then ws else ws @ [p])"
      have 1: "rep k1 c1 ws1" "c1 + length ops < top" "c1 = 0 \<or> ws1 = []" "int c1 - int (length ws1) = int c - int (length ws) - 1"
        using k1(2) Cons.prems(2,3) by (auto simp: c1_def ws1_def split: if_splits)
      from Cons.IH [OF 1(1-3)] obtain d k' c' ws' where
        "sem_run wait signal caller ops k1 = Ok (d, k')" "rep k' c' ws'" "c' = 0 \<or> ws' = []" "int c' - int (length ws') = int c1 - int (length ws1) + d" by blast
      then show ?thesis using Wait_Op Some k1(1) 1(4) by (intro exI [of _ "d - 1"] exI [of _ k'] exI [of _ c'] exI [of _ ws']) simp
    qed
  next
    case Signal_Op
    have "Suc c < top" using Cons.prems(2) by simp
    from signal_law [OF Cons.prems(1) this] obtain k1 where
      k1: "signal k = Ok k1" "case ws of [] \<Rightarrow> rep k1 (Suc c) [] | w # ws' \<Rightarrow> rep k1 c ws'" by blast
    define c1 where "c1 = (if ws = [] then Suc c else c)"
    have 1: "rep k1 c1 (tl ws)" "c1 + length ops < top" "c1 = 0 \<or> tl ws = []" "int c1 - int (length (tl ws)) = int c - int (length ws) + 1"
      using k1(2) Cons.prems(2,3) by (auto simp: c1_def split: list.splits)
    from Cons.IH [OF 1(1-3)] obtain d k' c' ws' where
      "sem_run wait signal caller ops k1 = Ok (d, k')" "rep k' c' ws'" "c' = 0 \<or> ws' = []" "int c' - int (length ws') = int c1 - int (length (tl ws)) + d" by blast
    then show ?thesis using Signal_Op k1(1) 1(4) by (intro exI [of _ "d + 1"] exI [of _ k'] exI [of _ c'] exI [of _ ws']) simp
  qed
qed

end

section \<open>Both implementations keep it\<close>

definition running :: "kernel \<Rightarrow> node option" where
  "running k = (if cur k = idle_task k then None else Some (Task (cur k)))"

text \<open>The running process goes to the end of queue \<open>q\<close> and the next ready one, or idle, runs.\<close>

lemma block_on:
  assumes "queues k Q" and "cur k \<noteq> idle_task k" and "Q q = Some ws" and "Q Ready_Queue = Some rs" and "q \<noteq> Ready_Queue"
  obtains k1 k' where "update_process_state_rr (cur k) q k = Ok k1" "sched_next_rr k1 = Ok k'"
    "queues k' (Q(q \<mapsto> ws @ [Task (cur k)], Ready_Queue \<mapsto> tl rs))" "semafors k' = semafors k" "zeos_sems k' = zeos_sems k"
proof -
  from update_state_running [OF assms(1-3)] obtain h where
    h: "update_process_state_rr (cur k) q k = Ok (k\<lparr>links := h\<rparr>)" "queues0 (k\<lparr>links := h\<rparr>) (Q(q \<mapsto> ws @ [Task (cur k)]))" by blast
  from sched_next_any [OF h(2), of rs] assms(4,5) obtain k' where
    k': "sched_next_rr (k\<lparr>links := h\<rparr>) = Ok k'" "queues k' (Q(q \<mapsto> ws @ [Task (cur k)], Ready_Queue \<mapsto> tl rs))"
      "same_queues (k\<lparr>links := h, links := links k'\<rparr>) k'" by auto
  show thesis by (rule that [OF h(1) k'(1,2)]) (use k'(3) in \<open>simp_all add: same_queues_def\<close>)
qed

text \<open>The first process of queue \<open>q\<close> becomes ready.\<close>

lemma wake_first:
  assumes "queues k Q" and "Q q = Some (x # ws)" and "Q Ready_Queue = Some rs" and "q \<noteq> Ready_Queue"
  obtains t h where "list_empty (links k) q = Ok False" "list_first (links k) q = Ok x" "list_head_to_task_struct x = Ok t"
    "update_process_state_rr t Ready_Queue k = Ok (k\<lparr>links := h\<rparr>)" "queues (k\<lparr>links := h\<rparr>) (Q(q \<mapsto> ws, Ready_Queue \<mapsto> rs @ [x]))"
proof -
  have q0: "queues0 k Q" and free: "free_node Q (Task (cur k))" using assms(1) by (simp_all add: queues_def)
  note q = queues0D [OF q0]
  from q(6) [OF assms(2)] obtain t where t: "x = Task t" by auto
  from lists.move_first [OF q(1) assms(2,3,4)] obtain h' h where
    h: "list_first (links k) q = Ok x" "list_del x (links k) = Ok h'" "list_add_tail x Ready_Queue h' = Ok h"
      "holds_lists h (Q(q \<mapsto> ws, Ready_Queue \<mapsto> rs @ [x]))" by auto
  have e: "list_empty (links k) q = Ok False" using lists.empty_law [OF q(1) assms(2)] by simp
  have "x \<in> set (q # x # ws)" by simp
  with assms(2) have "\<not> free_node Q x" unfolding free_node_def by blast
  then have on: "nxt (links k) x \<noteq> NULL" using holdsD(3) [OF q(1)] by simp
  have "t \<noteq> idle_task k" using holds_not_in [OF q(1) assms(2) q(5)] t by auto
  then have up: "update_process_state_rr t Ready_Queue k = Ok (k\<lparr>links := h\<rparr>)"
    using on h(2,3) t by (simp add: update_process_state_rr_def on_lists_def)
  have out: "free_node (Q(q \<mapsto> ws, Ready_Queue \<mapsto> rs @ [x])) y" if "free_node Q y" for y
    using that assms(2,3) holds_not_in [OF q(1) assms(2) that] holds_not_in [OF q(1) assms(3) that]
    by (intro free_node_subset [where xs = rs] free_node_subset [where xs = "x # ws"]) (use assms(4) in auto)
  have "queues0 (k\<lparr>links := h\<rparr>) (Q(q \<mapsto> ws, Ready_Queue \<mapsto> rs @ [x]))"
    unfolding queues0_def using h(4) q(2-4) out [OF q(5)] q(6) [OF assms(2)] q(6) [OF assms(3)] q(6,7) q(7) [OF assms(2)] q(7) [OF assms(3)]
    by (auto simp: fun_upd_apply)
  with out [OF free] have "queues (k\<lparr>links := h\<rparr>) (Q(q \<mapsto> ws, Ready_Queue \<mapsto> rs @ [x]))" by (simp add: queues_def)
  then show thesis using that e h(1) t up by simp
qed


lemma queues_same: "queues k Q \<Longrightarrow> queues (k\<lparr>semafors := x\<rparr>) Q \<and> queues (k\<lparr>zeos_sems := y\<rparr>) Q"
  by (simp add: queues_def queues0_def)

definition zrep :: "nat \<Rightarrow> kernel \<Rightarrow> nat \<Rightarrow> node list \<Rightarrow> bool" where
  "zrep i k c ws \<longleftrightarrow> i < Z_MAX_SEMS \<and> length (zeos_sems k) = Z_MAX_SEMS \<and> 0 < z_used (zeos_sems k ! i) \<and>
     z_counter (zeos_sems k ! i) = int c \<and> (\<exists>Q rs. queues k Q \<and> Q (Zsem_Queue i) = Some ws \<and> Q Ready_Queue = Some rs)"

definition zwait :: "nat \<Rightarrow> kernel \<Rightarrow> (bool \<times> kernel) res" where
  "zwait i k = bind (zeos_sys_sem_wait (int i) k) (\<lambda>(r, k). Ok (r = Inr (), k))"

definition zsignal :: "nat \<Rightarrow> kernel \<Rightarrow> kernel res" where
  "zsignal i k = bind (zeos_sys_sem_signal (int i) k) (\<lambda>(r, k). Ok k)"

lemma zsem_access:
  assumes "i < Z_MAX_SEMS" and "length (zeos_sems k) = Z_MAX_SEMS"
  shows "\<not> bad_sem_id (int i)" "get_zsem (int i) k = Ok (zeos_sems k ! i)"
    "set_zsem (int i) f k = Ok (k\<lparr>zeos_sems := (zeos_sems k)[i := f (zeos_sems k ! i)]\<rparr>)"
  using assms by (simp_all add: bad_sem_id_def get_zsem_def set_zsem_def aput_int_def)

interpretation zs: counting_semaphore "zwait i" "zsignal i" "zrep i" running "2 ^ 31" for i
proof
  fix k c ws p
  assume rep: "zrep i k c ws" and p: "running k = Some p"
  from rep obtain Q rs where r: "i < Z_MAX_SEMS" "length (zeos_sems k) = Z_MAX_SEMS" "0 < z_used (zeos_sems k ! i)" "z_counter (zeos_sems k ! i) = int c"
    "queues k Q" "Q (Zsem_Queue i) = Some ws" "Q Ready_Queue = Some rs" by (auto simp: zrep_def)
  note acc = zsem_access [OF r(1,2)]
  show "\<exists>b k'. zwait i k = Ok (b, k') \<and> (if 0 < c then \<not> b \<and> zrep i k' (c - 1) ws else b \<and> zrep i k' 0 (ws @ [p]))"
  proof (cases "0 < c")
    case True
    let ?k = "k\<lparr>zeos_sems := (zeos_sems k)[i := (zeos_sems k ! i)\<lparr>z_counter := int c - 1\<rparr>]\<rparr>"
    have "zwait i k = Ok (False, ?k)" using True r(3,4) by (simp add: zwait_def zeos_sys_sem_wait_def acc)
    moreover have "zrep i ?k (c - 1) ws" using True r queues_same [OF r(5)] by (auto simp: zrep_def)
    ultimately show ?thesis using True by (intro exI [of _ False] exI [of _ ?k]) simp
  next
    case False
    from p have cp: "cur k \<noteq> idle_task k" "p = Task (cur k)" by (auto simp: running_def split: if_splits)
    obtain k1 k' where k': "update_process_state_rr (cur k) (Zsem_Queue i) k = Ok k1" "sched_next_rr k1 = Ok k'"
      "queues k' (Q(Zsem_Queue i \<mapsto> ws @ [Task (cur k)], Ready_Queue \<mapsto> tl rs))" "semafors k' = semafors k" "zeos_sems k' = zeos_sems k"
      by (rule block_on [OF r(5) cp(1) r(6,7)]) simp
    have "zwait i k = Ok (True, k')" using False r(3,4) k'(1,2) by (simp add: zwait_def zeos_sys_sem_wait_def acc)
    moreover have "zrep i k' 0 (ws @ [p])" using k'(3,5) r(1-4) False cp(2) unfolding zrep_def by fastforce
    ultimately show ?thesis using False by (intro exI [of _ True] exI [of _ k']) simp
  qed
next
  fix k c ws
  assume rep: "zrep i k c ws" and "Suc c < 2 ^ 31"
  from rep obtain Q rs where r: "i < Z_MAX_SEMS" "length (zeos_sems k) = Z_MAX_SEMS" "0 < z_used (zeos_sems k ! i)" "z_counter (zeos_sems k ! i) = int c"
    "queues k Q" "Q (Zsem_Queue i) = Some ws" "Q Ready_Queue = Some rs" by (auto simp: zrep_def)
  note acc = zsem_access [OF r(1,2)]
  show "\<exists>k'. zsignal i k = Ok k' \<and> (case ws of [] \<Rightarrow> zrep i k' (Suc c) [] | w # ws' \<Rightarrow> zrep i k' c ws')"
  proof (cases ws)
    case Nil
    have e: "list_empty (links k) (Zsem_Queue i) = Ok True"
      using lists.empty_law [of "links k" Q "Zsem_Queue i" "[]"] r(5,6) Nil by (simp add: queues_def queues0_def)
    let ?k = "k\<lparr>zeos_sems := (zeos_sems k)[i := (zeos_sems k ! i)\<lparr>z_counter := int c + 1\<rparr>]\<rparr>"
    have "zsignal i k = Ok ?k" using r(3,4) e by (simp add: zsignal_def zeos_sys_sem_signal_def acc)
    moreover have "zrep i ?k (Suc c) []" using r queues_same [OF r(5)] Nil by (auto simp: zrep_def)
    ultimately show ?thesis using Nil by simp
  next
    case (Cons w ws')
    obtain t h where h: "list_empty (links k) (Zsem_Queue i) = Ok False" "list_first (links k) (Zsem_Queue i) = Ok w" "list_head_to_task_struct w = Ok t"
      "update_process_state_rr t Ready_Queue k = Ok (k\<lparr>links := h\<rparr>)" "queues (k\<lparr>links := h\<rparr>) (Q(Zsem_Queue i \<mapsto> ws', Ready_Queue \<mapsto> rs @ [w]))"
      by (rule wake_first [OF r(5) _ r(7), of "Zsem_Queue i" w ws']) (use r(6) Cons in simp_all)
    have "zsignal i k = Ok (k\<lparr>links := h\<rparr>)" using r(3) h(1-4) by (simp add: zsignal_def zeos_sys_sem_signal_def acc)
    moreover have "zrep i (k\<lparr>links := h\<rparr>) c ws'" using h(5) r(1-4) unfolding zrep_def by fastforce
    ultimately show ?thesis using Cons by simp
  qed
qed

definition srep :: "int \<Rightarrow> kernel \<Rightarrow> nat \<Rightarrow> node list \<Rightarrow> bool" where
  "srep n k c ws \<longleftrightarrow> length (semafors k) = N_SEMAFORS \<and> (\<exists>s Q rs. named k n = Some s \<and> 0 < sem_used (semafors k ! s) \<and>
     unat (sem_count (semafors k ! s)) = c \<and> queues k Q \<and> Q (Sem_Queue s) = Some ws \<and> Q Ready_Queue = Some rs)"

definition swait :: "int \<Rightarrow> kernel \<Rightarrow> (bool \<times> kernel) res" where
  "swait n k = bind (sys_sem_wait n k) (\<lambda>(r, k). Ok (case r of Inl _ \<Rightarrow> False | Inr _ \<Rightarrow> True, k))"

definition ssignal :: "int \<Rightarrow> kernel \<Rightarrow> kernel res" where
  "ssignal n k = bind (sys_sem_signal n k) (\<lambda>(r, k). Ok k)"

lemma named_count: "named (k\<lparr>semafors := (semafors k)[s := (semafors k ! s)\<lparr>sem_count := c\<rparr>]\<rparr>) n = named k n"
proof -
  have "sem_id ((semafors k)[s := (semafors k ! s)\<lparr>sem_count := c\<rparr>] ! i) = sem_id (semafors k ! i)" for i
    by (cases "i = s"; cases "s < length (semafors k)") (simp_all add: list_update_beyond)
  then show ?thesis by (simp add: named_def)
qed

interpretation ss: counting_semaphore "swait n" "ssignal n" "srep n" running "2 ^ 32" for n
proof
  fix k c ws p
  assume rep: "srep n k c ws" and p: "running k = Some p"
  from rep obtain s Q rs where r: "length (semafors k) = N_SEMAFORS" "named k n = Some s" "0 < sem_used (semafors k ! s)" "unat (sem_count (semafors k ! s)) = c"
    "queues k Q" "Q (Sem_Queue s) = Some ws" "Q Ready_Queue = Some rs" by (auto simp: srep_def)
  have s: "s < length (semafors k)" using named_range [OF r(2)] r(1) by simp
  show "\<exists>b k'. swait n k = Ok (b, k') \<and> (if 0 < c then \<not> b \<and> srep n k' (c - 1) ws else b \<and> srep n k' 0 (ws @ [p]))"
  proof (cases "0 < c")
    case True
    then have pos: "0 < sem_count (semafors k ! s)" using r(4) by (simp add: word_less_nat_alt)
    let ?k = "k\<lparr>semafors := (semafors k)[s := (semafors k ! s)\<lparr>sem_count := sem_count (semafors k ! s) - 1\<rparr>]\<rparr>"
    have "swait n k = Ok (False, ?k)" using sem_wait_takes_aux [OF r(1-3) pos] by (simp add: swait_def sys_sem_wait_def)
    moreover have "srep n ?k (c - 1) ws" using r s queues_same [OF r(5)] pos named_count [of k s _ n]
      unfolding srep_def by (auto simp: unat_minus_one)
    ultimately show ?thesis using True by (intro exI [of _ False] exI [of _ ?k]) simp
  next
    case False
    then have zero: "sem_count (semafors k ! s) = 0" using r(4) by (simp add: unat_eq_0)
    from p have cp: "cur k \<noteq> idle_task k" "p = Task (cur k)" by (auto simp: running_def split: if_splits)
    obtain k1 k' where k': "update_process_state_rr (cur k) (Sem_Queue s) k = Ok k1" "sched_next_rr k1 = Ok k'"
      "queues k' (Q(Sem_Queue s \<mapsto> ws @ [Task (cur k)], Ready_Queue \<mapsto> tl rs))" "semafors k' = semafors k" "zeos_sems k' = zeos_sems k"
      by (rule block_on [OF r(5) cp(1) r(6,7)]) simp
    have "swait n k = Ok (True, k')" using zero r(1-3) s k'(1,2) by (simp add: swait_def sys_sem_wait_def sem_wait_def get_semafor_named)
    moreover have "named k' n = named k n" using k'(4) by (simp add: named_def)
    then have "srep n k' 0 (ws @ [p])" using k'(3,4) r(1-4) False cp(2) unfolding srep_def by fastforce
    ultimately show ?thesis using False by (intro exI [of _ True] exI [of _ k']) simp
  qed
next
  fix k c ws
  assume rep: "srep n k c ws" and top: "Suc c < 2 ^ 32"
  from rep obtain s Q rs where r: "length (semafors k) = N_SEMAFORS" "named k n = Some s" "0 < sem_used (semafors k ! s)" "unat (sem_count (semafors k ! s)) = c"
    "queues k Q" "Q (Sem_Queue s) = Some ws" "Q Ready_Queue = Some rs" by (auto simp: srep_def)
  have s: "s < length (semafors k)" using named_range [OF r(2)] r(1) by simp
  show "\<exists>k'. ssignal n k = Ok k' \<and> (case ws of [] \<Rightarrow> srep n k' (Suc c) [] | w # ws' \<Rightarrow> srep n k' c ws')"
  proof (cases ws)
    case Nil
    let ?k = "k\<lparr>semafors := (semafors k)[s := (semafors k ! s)\<lparr>sem_count := sem_count (semafors k ! s) + 1\<rparr>]\<rparr>"
    have "ssignal n k = Ok ?k" using sem_signal_counts_aux [OF r(5) _ r(1-3)] r(6) Nil by (simp add: ssignal_def sys_sem_signal_def)
    moreover have "unat (sem_count (semafors k ! s) + 1) = Suc c" using top r(4) by (simp add: unat_plus_if_size word_size)
    then have "srep n ?k (Suc c) []" using r s queues_same [OF r(5)] Nil named_count [of k s _ n] unfolding srep_def by auto
    ultimately show ?thesis using Nil by simp
  next
    case (Cons w ws')
    from sem_signal_wakes_aux [OF r(5) _ r(7,1,2,3), of w ws'] r(6) Cons obtain h where
      h: "sem_signal n k = Ok (0, k\<lparr>links := h\<rparr>)" "queues (k\<lparr>links := h\<rparr>) (Q(Sem_Queue s \<mapsto> ws', Ready_Queue \<mapsto> rs @ [w]))" by auto
    have "ssignal n k = Ok (k\<lparr>links := h\<rparr>)" using h(1) by (simp add: ssignal_def sys_sem_signal_def)
    moreover have "named (k\<lparr>links := h\<rparr>) n = named k n" by (simp add: named_def)
    then have "srep n (k\<lparr>links := h\<rparr>) c ws'" using h(2) r(1-4) unfolding srep_def by fastforce
    ultimately show ?thesis using Cons by simp
  qed
qed


section \<open>What the calls promise\<close>

text \<open>
  C35: the semaphores of sem.c lose no signal and no waiting process: behind any run of signals and
  waits, whoever makes them, the count less the number of waiting processes has grown by the
  signals less the waits, and nobody waits while the count is positive.
\<close>

theorem sem_balance:
  assumes "srep n k c ws" and "c = 0 \<or> ws = []" and "c + length ops < 2 ^ 32"
  shows "\<exists>d k' c' ws'. sem_run (swait n) (ssignal n) running ops k = Ok (d, k') \<and> srep n k' c' ws' \<and> (c' = 0 \<or> ws' = []) \<and>
    int c' - int (length ws') = int c - int (length ws) + d"
  using ss.balance [OF assms(1,3,2)] .

theorem sem_balance_witness:
  "\<exists>d k' c' ws'. sem_run (swait 7) (ssignal 7) running [Signal_Op, Signal_Op, Wait_Op] (sample_kernel 1 5) = Ok (d, k') \<and> srep 7 k' c' ws' \<and>
    int c' - int (length ws') = d - 1"
proof -
  have "srep 7 (sample_kernel 1 5) 0 [Task 3]"
    unfolding srep_def using sample_semaphore [of 1 5] sample_consistent(2) [of 5] sample_ready by fastforce
  from sem_balance [OF this, of "[Signal_Op, Signal_Op, Wait_Op]"] show ?thesis by fastforce
qed

text \<open>
  C36: the semaphores of zeos_semaphores.c keep the same contract.
\<close>

theorem zeos_sem_balance:
  assumes "zrep i k c ws" and "c = 0 \<or> ws = []" and "c + length ops < 2 ^ 31"
  shows "\<exists>d k' c' ws'. sem_run (zwait i) (zsignal i) running ops k = Ok (d, k') \<and> zrep i k' c' ws' \<and> (c' = 0 \<or> ws' = []) \<and>
    int c' - int (length ws') = int c - int (length ws) + d"
  using zs.balance [OF assms(1,3,2)] .

text \<open>The sample kernel with semaphore 0 of count 1.\<close>

lemma sample_zsem:
  obtains k where "zrep 0 k 1 []" "cur k = 1"
proof -
  have q: "queues (sample_kernel 1 5) sample_queues" using sample_consistent(2) .
  then have h: "holds_lists (links (sample_kernel 1 5)) sample_queues" by (simp add: queues_def queues0_def)
  have "free_node sample_queues (Zsem_Queue 0)" by (auto simp: free_node_def sample_queues_def)
  with lists.init_law [OF h, of "Zsem_Queue 0"] obtain h' where h': "holds_lists h' (sample_queues(Zsem_Queue 0 \<mapsto> []))" by auto
  define k where "k = (sample_kernel 1 5)\<lparr>links := h', zeos_sems := replicate 10 \<lparr>z_used = 1, z_counter = 1, z_owner = 1\<rparr>\<rparr>"
  have free: "free_node (sample_queues(Zsem_Queue 0 \<mapsto> [])) (Task i)" if "free_node sample_queues (Task i)" for i
    using that by (auto simp: free_node_def split: if_splits)
  have "queues k (sample_queues(Zsem_Queue 0 \<mapsto> []))"
    using q h' free by (auto simp: queues_def queues0_def k_def split: if_splits)
  then have "zrep 0 k 1 []" unfolding zrep_def using sample_ready by (fastforce simp: k_def Z_MAX_SEMS_def)
  moreover have "cur k = 1" by (simp add: k_def sample_running)
  ultimately show thesis by (rule that)
qed

theorem zeos_sem_balance_witness:
  "\<exists>k d k' c' ws'. zrep 0 k 1 [] \<and> sem_run (zwait 0) (zsignal 0) running [Wait_Op, Wait_Op, Signal_Op] k = Ok (d, k') \<and> zrep 0 k' c' ws' \<and>
    int c' - int (length ws') = 1 + d"
proof -
  obtain k where k: "zrep 0 k 1 []" by (rule sample_zsem)
  from zeos_sem_balance [OF k, of "[Wait_Op, Wait_Op, Signal_Op]"] k show ?thesis by fastforce
qed

text \<open>
  The range check of zeos_semaphores.c lets the number \<open>Z_MAX_SEMS\<close> pass: all four calls read the
  semaphore behind the table.
\<close>

lemma zeos_sem_overrun:
  assumes "length (zeos_sems k) = Z_MAX_SEMS"
  shows "zeos_sys_sem_init 10 v k = Fault OutOfBounds \<and> zeos_sys_sem_destroy 10 k = Fault OutOfBounds \<and>
    zeos_sys_sem_signal 10 k = Fault OutOfBounds \<and> zeos_sys_sem_wait 10 k = Fault OutOfBounds \<and>
    (sid < 0 \<or> 10 < sid \<longrightarrow> zeos_sys_sem_wait sid k = Ok (Inl (-Z_EINVAL), k))"
  using assms by (simp add: zeos_sys_sem_init_def zeos_sys_sem_destroy_def zeos_sys_sem_signal_def zeos_sys_sem_wait_def
      bad_sem_id_def get_zsem_def Z_MAX_SEMS_def aget_int_def)

section \<open>Looking for a blocked process, destroying\<close>

lemma blocked_loop:
  assumes "is_list (links k) (Zsem_Queue i) (ys @ map Task ts)" and "set ts \<subseteq> {..<length (task k)}"
  shows "loop (zeos_blocked_round pid i k) (hd (map Task ts @ [Zsem_Queue i])) = Ok (\<exists>t \<in> set ts. PID (task k ! t) = pid)"
  using assms
proof (induction ts arbitrary: ys)
  case Nil
  then show ?case by (simp add: loop_stop zeos_blocked_round_def)
next
  case (Cons t ts)
  have t: "get_task k t = Ok (task k ! t)" using Cons.prems(2) by (simp add: get_task_Ok)
  show ?case
  proof (cases "PID (task k ! t) = pid")
    case True
    then show ?thesis using t by (simp add: loop_stop zeos_blocked_round_def)
  next
    case False
    have n: "get_nxt (links k) (Task t) = Ok (hd (map Task ts @ [Zsem_Queue i]))"
      using is_list_split [of "links k" "Zsem_Queue i" ys "Task t" "map Task ts"] Cons.prems(1) by (simp add: get_nxt_def)
    have "loop (zeos_blocked_round pid i k) (Task t) = loop (zeos_blocked_round pid i k) (hd (map Task ts @ [Zsem_Queue i]))"
      using False t n by (intro loop_step) (simp add: zeos_blocked_round_def)
    with Cons.IH [of "ys @ [Task t]"] Cons.prems False show ?thesis by simp
  qed
qed

text \<open>\<open>zeos_is_blocked_pid\<close> answers whether a process with the number waits in one of the semaphores.\<close>

lemma is_blocked_pid_finds:
  assumes "holds_lists (links k) Q" and "\<And>i. i < Z_MAX_SEMS \<Longrightarrow> Q (Zsem_Queue i) = Some (map Task (ts i)) \<and> set (ts i) \<subseteq> {..<length (task k)}"
  shows "zeos_is_blocked_pid pid k = Ok (if \<exists>i < Z_MAX_SEMS. \<exists>t \<in> set (ts i). PID (task k ! t) = pid then 1 else 0)"
proof -
  let ?round = "\<lambda>i (_ :: unit). bind (get_nxt (links k) (Zsem_Queue i)) (\<lambda>p. bind (loop (zeos_blocked_round pid i k) p) (\<lambda>b. Ok (if b then Inr () else Inl ())))"
  have one: "?round i () = Ok (if \<exists>t \<in> set (ts i). PID (task k ! t) = pid then Inr () else Inl ())" if "i < Z_MAX_SEMS" for i
    using next_of_head [OF assms(1), of "Zsem_Queue i" "map Task (ts i)"] blocked_loop [of k i "[]" "ts i" pid]
      holdsD(2) [OF assms(1), of "Zsem_Queue i" "map Task (ts i)"] assms(2) [OF that] by simp
  have rounds: "for_each is ?round () = Ok (if \<exists>i \<in> set is. \<exists>t \<in> set (ts i). PID (task k ! t) = pid then Inr () else Inl ())"
    if "set is \<subseteq> {..<Z_MAX_SEMS}" for "is"
    using that
  proof (induction "is")
    case (Cons i "is")
    then have i: "i < Z_MAX_SEMS" by simp
    show ?case unfolding for_each.simps one [OF i]
      using Cons by (cases "\<exists>t \<in> set (ts i). PID (task k ! t) = pid") simp_all
  qed simp
  have "set [0..<Z_MAX_SEMS] \<subseteq> {..<Z_MAX_SEMS}" by auto
  note run = rounds [OF this]
  show ?thesis unfolding zeos_is_blocked_pid_def run by auto
qed

end
