(* ===== verification/Block_Device.thy ===== *)
theory Block_Device
  imports Prelude
begin

text \<open>
  The interface between the file system (file-system/fat32.c) and the disk driver
  (disk-driver/ide.c): \<open>ideread\<close> and \<open>idewrite\<close> as disk-driver/ide.h declares them, with the
  buffer as the list of its bytes, the block number as the C \<open>unsigned\<close> and the returned
  \<open>int\<close>. The file system is written against a \<open>blockdev\<close>; the driver provides one.

  The locale \<open>block_device\<close> states what ide.h promises: blocks of 512 bytes, a read that
  fills the buffer with the block, a write that replaces the block and nothing else, and
  \<open>-1\<close> (with no effect) for a block the disk does not have.
\<close>

record 'd blockdev =
  bread :: "byte list \<Rightarrow> dword \<Rightarrow> 'd \<Rightarrow> (int \<times> byte list \<times> 'd) res"
  bwrite :: "byte list \<Rightarrow> dword \<Rightarrow> 'd \<Rightarrow> (int \<times> 'd) res"

locale block_device =
  fixes dev :: "'d blockdev" and contents :: "'d \<Rightarrow> nat \<Rightarrow> byte list"
    and ok :: "'d \<Rightarrow> bool" and nblocks :: nat
  assumes length_contents: "ok d \<Longrightarrow> length (contents d k) = 512"
    and read_block: "ok d \<Longrightarrow> unat n < nblocks \<Longrightarrow> 512 \<le> length b \<Longrightarrow>
      \<exists>d'. bread dev b n d = Ok (0, contents d (unat n) @ drop 512 b, d') \<and> ok d' \<and> contents d' = contents d"
    and read_missing: "ok d \<Longrightarrow> nblocks \<le> unat n \<Longrightarrow> unat n < 2 ^ 28 \<Longrightarrow>
      \<exists>d'. bread dev b n d = Ok (-1, b, d') \<and> ok d' \<and> contents d' = contents d"
    and write_block: "ok d \<Longrightarrow> unat n < nblocks \<Longrightarrow> 512 \<le> length b \<Longrightarrow>
      \<exists>d'. bwrite dev b n d = Ok (0, d') \<and> ok d' \<and> contents d' = (contents d)(unat n := take 512 b)"
    and write_missing: "ok d \<Longrightarrow> nblocks \<le> unat n \<Longrightarrow> unat n < 2 ^ 28 \<Longrightarrow>
      \<exists>d'. bwrite dev b n d = Ok (-1, d') \<and> ok d' \<and> contents d' = contents d"
begin

text \<open>What a client relies on most: a block reads back as it was last written.\<close>

lemma read_after_write:
  assumes "ok d" and "unat n < nblocks" and "length b = 512" and "length c = 512"
  shows "\<exists>d' d''. bwrite dev b n d = Ok (0, d') \<and> bread dev c n d' = Ok (0, b, d'') \<and> ok d''
    \<and> contents d'' = (contents d)(unat n := b)"
proof -
  from write_block [of d n b] assms obtain d' where d': "bwrite dev b n d = Ok (0, d')" "ok d'"
    "contents d' = (contents d)(unat n := b)" by auto
  with read_block [of d' n c] assms show ?thesis by auto
qed

lemma read_other_after_write:
  assumes "ok d" and "unat n < nblocks" and "unat m < nblocks" and "n \<noteq> m" and "length b = 512" and "length c = 512"
  shows "\<exists>d' d''. bwrite dev b n d = Ok (0, d') \<and> bread dev c m d' = Ok (0, contents d (unat m), d'')"
proof -
  from write_block [of d n b] assms obtain d' where d': "bwrite dev b n d = Ok (0, d')" "ok d'"
    "contents d' = (contents d)(unat n := b)" by auto
  moreover from assms have "unat m \<noteq> unat n" by (simp add: word_unat_eq_iff)
  ultimately show ?thesis using read_block [of d' m c] assms by auto
qed

end

section \<open>Local buffers\<close>

text \<open>
  The file system reads blocks into local arrays that nothing has written before. A read
  that fails leaves such an array indeterminate and every caller reads it at once, so it is
  a fault; so is a read into an array of fewer than 512 bytes, which the driver overruns.
\<close>

definition read_fresh :: "'d blockdev \<Rightarrow> nat \<Rightarrow> dword \<Rightarrow> 'd \<Rightarrow> (byte list \<times> 'd) res" where
  "read_fresh dev size_b n d =
     (if size_b < 512 then Fault OutOfBounds
      else bind (bread dev (replicate 512 0) n d) (\<lambda>(r, b, d').
        if r = 0 then Ok (b, d') else Fault Uninitialised))"

context block_device begin

lemma read_fresh_block [safe]:
  "ok d \<Longrightarrow> unat n < nblocks \<Longrightarrow> 512 \<le> size_b \<Longrightarrow>
   \<exists>d'. read_fresh dev size_b n d = Ok (contents d (unat n), d') \<and> ok d' \<and> contents d' = contents d"
  using read_block [of d n "replicate 512 0"] by (auto simp: read_fresh_def)

end

end
