(* ===== verification/Fat32_Layout.thy ===== *)
theory Fat32_Layout
  imports Block_Device Text
begin

text \<open>
  The data of file-system/fat32.h, the globals of file-system/fat32.c as the state record
  \<open>'d fs\<close>, and the functions that read and write the on-disk formats: \<open>getFAT32attributes\<close>,
  \<open>initializeRootDir\<close>, \<open>getDirectoryEntry\<close>, \<open>setDirectoryEntry\<close> and \<open>getDiskSector\<close>.

  Plain \<open>char\<close> is signed (gcc on x86): a \<open>char\<close> read from a sector and stored in a wider
  unsigned field is sign-extended (\<open>scast\<close>). Text that \<open>printk\<close> writes to the screen is
  appended to \<open>console\<close>. \<open>junk\<close> is what uninitialised \<open>char\<close> variables happen to hold: each
  such variable takes the next element.
\<close>

section \<open>Data\<close>

record DirectoryEntry =
  filename :: "byte list"
  attributes :: byte
  WNT :: byte
  creation_secs :: byte
  creation_time :: word16
  creation_date :: word16
  last_access :: word16
  first_cluster_hi :: word16
  last_mod_time :: word16
  last_mod_date :: word16
  first_cluster_lo :: word16
  file_size :: dword

record BPB =
  bytesPerSector :: word16
  sectorsPerCluster :: byte
  reservedSectors :: word16
  FATs :: byte
  rootDirEntries :: word16
  numSectors :: word16
  mediaDescriptor :: byte
  sectorsPerTrack :: word16
  numHeads :: word16
  hiddenSectors :: dword
  numSectorsLSC :: dword

record EBR =
  sectorsPerFAT :: dword
  EBR_flags :: word16
  FATversion :: word16
  rootClusterNum :: dword
  FSInfoSectorNum :: word16
  bkBootSectorNum :: word16
  driveNum :: byte
  signature :: byte
  systemId :: "byte list"

record FSInfo =
  leadSignature :: dword
  otherSignature :: dword
  lastKnownCluster :: dword
  whereClusters :: dword
  trailSignature :: dword

definition FAT_SIZE :: nat where "FAT_SIZE = 2048"

record 'd fs =
  biosParameterBlock :: BPB
  extendedBootRecord :: EBR
  fsInfoStruct :: FSInfo
  rootDirectory :: DirectoryEntry
  FAT :: "dword list"
  device :: 'd
  console :: "byte list"
  junk :: "nat \<Rightarrow> byte"

text \<open>The parameters of the volume as numbers.\<close>

abbreviation bps :: "'d fs \<Rightarrow> nat" where
  "bps s \<equiv> unat (bytesPerSector (biosParameterBlock s))"

abbreviation spc :: "'d fs \<Rightarrow> nat" where
  "spc s \<equiv> unat (sectorsPerCluster (biosParameterBlock s))"

abbreviation reserved :: "'d fs \<Rightarrow> nat" where
  "reserved s \<equiv> unat (reservedSectors (biosParameterBlock s))"

lemma unat_ucast_word16 [simp]: "unat (ucast (w :: word16) :: dword) = unat w"
proof -
  have "unat w < 65536" using unsigned_less [of w] by simp
  then show ?thesis by (simp add: unsigned_ucast_eq take_bit_nat_eq_self)
qed

lemma unat_ucast_byte [simp]: "unat (ucast (w :: byte) :: dword) = unat w"
proof -
  have "unat w < 256" using unsigned_less [of w] by simp
  then show ?thesis by (simp add: unsigned_ucast_eq take_bit_nat_eq_self)
qed

section \<open>Screen and disk\<close>

definition printk :: "byte list \<Rightarrow> 'd fs \<Rightarrow> 'd fs" where
  "printk str s = s\<lparr>console := console s @ takeWhile (\<lambda>c. c \<noteq> 0) str\<rparr>"

text \<open>
  \<open>ideread(buf, n)\<close> into a local array of \<open>sz\<close> bytes whose content so far is \<open>bo\<close>
  (\<open>None\<close>: not written yet). The returned code is ignored by every caller, so a failed
  read leaves the array as it was.
\<close>

definition read_buf :: "'d blockdev \<Rightarrow> nat \<Rightarrow> byte list option \<Rightarrow> dword \<Rightarrow> 'd fs \<Rightarrow> (byte list \<times> 'd fs) res" where
  "read_buf dev sz bo n s =
     (case bo of
        None \<Rightarrow> bind (read_fresh dev sz n (device s)) (\<lambda>(b, d). Ok (b, s\<lparr>device := d\<rparr>))
      | Some b \<Rightarrow> bind (bread dev b n (device s)) (\<lambda>(_, b', d). Ok (b', s\<lparr>device := d\<rparr>)))"

definition write_buf :: "'d blockdev \<Rightarrow> byte list \<Rightarrow> dword \<Rightarrow> 'd fs \<Rightarrow> 'd fs res" where
  "write_buf dev b n s = bind (bwrite dev b n (device s)) (\<lambda>(_, d). Ok (s\<lparr>device := d\<rparr>))"

section \<open>Boot sector and FSInfo sector\<close>

definition parse_BPB :: "byte list \<Rightarrow> BPB" where
  "parse_BPB b = \<lparr>
     bytesPerSector = le16 b 0x0B, sectorsPerCluster = b ! 0x0D, reservedSectors = le16 b 0x0E,
     FATs = b ! 0x10, rootDirEntries = le16 b 0x11, numSectors = le16 b 0x13,
     mediaDescriptor = b ! 0x15, sectorsPerTrack = le16 b 0x16, numHeads = le16 b 0x18,
     hiddenSectors = le32 b 0x1A, numSectorsLSC = le32 b 0x20\<rparr>"

definition parse_EBR :: "byte list \<Rightarrow> EBR" where
  "parse_EBR b = \<lparr>
     sectorsPerFAT = le32 b 0x24, EBR_flags = le16 b 0x28, FATversion = le16 b 0x2A,
     rootClusterNum = le32 b 0x2C, FSInfoSectorNum = le16 b 0x30, bkBootSectorNum = le16 b 0x32,
     driveNum = b ! 0x40, signature = b ! 0x42, systemId = map (\<lambda>i. b ! (0x52 + i)) [0..<8]\<rparr>"

definition parse_FSInfo :: "byte list \<Rightarrow> FSInfo" where
  "parse_FSInfo b = \<lparr>
     leadSignature = le32 b 0x00, otherSignature = le32 b 0x1E4, lastKnownCluster = le32 b 0x1E8,
     whereClusters = le32 b 0x1EC, trailSignature = le32 b 0x1FC\<rparr>"

text \<open>One line of the statistics: \<open>itoaSystem(v, buf); printk(label); printk(buf); printk(end)\<close>.\<close>

definition print_stat :: "string \<Rightarrow> int \<Rightarrow> string \<Rightarrow> byte list \<times> 'd fs \<Rightarrow> (byte list \<times> 'd fs) res" where
  "print_stat label v tail = (\<lambda>(buf, s).
     bind (itoaSystem v buf) (\<lambda>buf. Ok (buf, printk (chars tail) (printk buf (printk (chars label) s)))))"

definition print_stats :: "'d fs \<Rightarrow> 'd fs res" where
  "print_stats s =
     bind (print_stat ''Bytes per sector: '' (uint (bytesPerSector (biosParameterBlock s))) [CHR 0x0A] (replicate 50 0, s))
     (\<lambda>r. bind (print_stat ''Sectors per cluster: '' (uint (sectorsPerCluster (biosParameterBlock s))) [CHR 0x0A] r)
     (\<lambda>r. bind (print_stat ''Reserved sectors: '' (uint (reservedSectors (biosParameterBlock s))) [CHR 0x0A] r)
     (\<lambda>r. bind (print_stat ''Sectors per FAT: '' (sint (sectorsPerFAT (extendedBootRecord s))) [CHR 0x0A] r)
     (\<lambda>r. bind (print_stat ''Root dir cluster: '' (sint (rootClusterNum (extendedBootRecord s))) [CHR 0x0A, CHR 0x0A] r)
     (\<lambda>(_, s). Ok s)))))"

definition getFAT32attributes :: "'d blockdev \<Rightarrow> 'd fs \<Rightarrow> 'd fs res" where
  "getFAT32attributes dev s =
     bind (read_buf dev 512 None 0 s) (\<lambda>(bootRecord, s).
     bind (read_buf dev 512 None 1 s) (\<lambda>(fsInfo, s).
     let s = s\<lparr>biosParameterBlock := parse_BPB bootRecord, extendedBootRecord := parse_EBR bootRecord,
               fsInfoStruct := parse_FSInfo fsInfo\<rparr>;
         s = (if bytesPerSector (biosParameterBlock s) \<noteq> 512 \<and> sectorsPerCluster (biosParameterBlock s) \<noteq> 8
              then printk (chars (''Unsupported number of bytes per sector and/or sectors per cluster.'' @ [CHR 0x0A])) s
              else s)
     in print_stats s))"

definition initializeRootDir :: "'d fs \<Rightarrow> 'd fs" where
  "initializeRootDir s =
     (let root = rootClusterNum (extendedBootRecord s) in
      s\<lparr>rootDirectory := (rootDirectory s)\<lparr>
          filename := 47 # replicate 10 32, attributes := 0x10,
          first_cluster_hi := ucast (drop_bit 16 root), first_cluster_lo := ucast root\<rparr>\<rparr>)"

section \<open>Directory entries\<close>

text \<open>A local \<open>DirectoryEntry\<close> before \<open>getDirectoryEntry\<close>; no field it leaves unset is ever read.\<close>

definition blank_entry :: DirectoryEntry where
  "blank_entry = \<lparr>filename = replicate 11 0, attributes = 0, WNT = 0, creation_secs = 0, creation_time = 0,
     creation_date = 0, last_access = 0, first_cluster_hi = 0, last_mod_time = 0, last_mod_date = 0,
     first_cluster_lo = 0, file_size = 0\<rparr>"

definition getDirectoryEntry :: "byte list \<Rightarrow> DirectoryEntry \<Rightarrow> int \<Rightarrow> DirectoryEntry res" where
  "getDirectoryEntry sector entry offset =
     (let offset = (if offset smod 32 \<noteq> 0 then 0 else offset) in
      bind (for_each [0..<11] (\<lambda>i name. bind (aget_int sector (int i + offset)) (\<lambda>c. Ok (Inl (name[i := c]))))
        (filename entry)) (\<lambda>r.
      let name = (case r of Inl n \<Rightarrow> n | Inr n \<Rightarrow> n) in
      bind (aget_int sector (0x0B + offset)) (\<lambda>attr.
      bind (aget_int sector (0x14 + offset)) (\<lambda>hi.
      bind (aget_int sector (0x1A + offset)) (\<lambda>lo.
      bind (aget_int sector (0x1C + offset)) (\<lambda>sz.
      Ok (entry\<lparr>filename := name, attributes := attr, first_cluster_hi := scast hi,
            first_cluster_lo := scast lo, file_size := scast sz\<rparr>)))))))"

definition setDirectoryEntry :: "byte list \<Rightarrow> DirectoryEntry \<Rightarrow> int \<Rightarrow> byte list res" where
  "setDirectoryEntry sector entry offset =
     bind (for_each [0..<11] (\<lambda>i sec. bind (aget (filename entry) i) (\<lambda>c.
        bind (aput_int sec (int i + offset) c) (\<lambda>sec. Ok (Inl sec)))) sector) (\<lambda>r.
     let sector = (case r of Inl b \<Rightarrow> b | Inr b \<Rightarrow> b) in
     bind (aput_int sector (0x0B + offset) (attributes entry)) (\<lambda>sector.
     bind (aput_int sector (0x14 + offset) (ucast (first_cluster_hi entry))) (\<lambda>sector.
     bind (aput_int sector (0x15 + offset) (ucast (drop_bit 8 (first_cluster_hi entry)))) (\<lambda>sector.
     bind (aput_int sector (0x1A + offset) (ucast (first_cluster_lo entry))) (\<lambda>sector.
     bind (aput_int sector (0x1B + offset) (ucast (drop_bit 8 (first_cluster_lo entry)))) (\<lambda>sector.
     bind (aput_int sector (0x1C + offset) (ucast (file_size entry))) (\<lambda>sector.
     bind (aput_int sector (0x1D + offset) (ucast (drop_bit 8 (file_size entry)))) (\<lambda>sector.
     bind (aput_int sector (0x1E + offset) (ucast (drop_bit 16 (file_size entry)))) (\<lambda>sector.
     aput_int sector (0x1F + offset) (ucast (drop_bit 24 (file_size entry))))))))))))"

text \<open>\<open>((DWord)(first_cluster_hi))<<16 | first_cluster_lo\<close>\<close>

definition entry_cluster :: "DirectoryEntry \<Rightarrow> dword" where
  "entry_cluster e = push_bit 16 (ucast (first_cluster_hi e)) OR ucast (first_cluster_lo e)"

section \<open>Sectors\<close>

definition getDiskSector :: "'d fs \<Rightarrow> dword \<Rightarrow> int \<Rightarrow> dword" where
  "getDiskSector s cluster offset =
     cluster * ucast (sectorsPerCluster (biosParameterBlock s))
     + ucast (reservedSectors (biosParameterBlock s)) + word_of_int offset"

section \<open>Directory entries in a sector\<close>

text \<open>What the two entry functions compute on a sector that holds the whole entry.\<close>

definition decode_entry :: "byte list \<Rightarrow> nat \<Rightarrow> DirectoryEntry \<Rightarrow> DirectoryEntry" where
  "decode_entry sector k e =
     e\<lparr>filename := take 11 (drop k sector), attributes := sector ! (k + 0x0B),
       first_cluster_hi := scast (sector ! (k + 0x14)), first_cluster_lo := scast (sector ! (k + 0x1A)),
       file_size := scast (sector ! (k + 0x1C))\<rparr>"

text \<open>The 32 bytes of the slot: \<open>setDirectoryEntry\<close> leaves the bytes 12 to 19 and 22 to 25 alone.\<close>

definition encode_entry :: "DirectoryEntry \<Rightarrow> byte list \<Rightarrow> byte list" where
  "encode_entry e old =
     filename e @ [attributes e] @ take 8 (drop 12 old)
     @ [ucast (first_cluster_hi e), ucast (drop_bit 8 (first_cluster_hi e))] @ take 4 (drop 22 old)
     @ [ucast (first_cluster_lo e), ucast (drop_bit 8 (first_cluster_lo e))] @ bytes32 (file_size e)"

lemma copy_in_rounds:
  "k + n \<le> length sector \<Longrightarrow> n \<le> length name \<Longrightarrow>
   for_each [0..<n] (\<lambda>i name. bind (aget_int sector (int i + int k)) (\<lambda>c. Ok (Inl (name[i := c])))) name
     = Ok (Inl (take n (drop k sector) @ drop n name))"
proof (induction n)
  case 0
  show ?case by simp
next
  case (Suc n)
  then have "drop n name = name ! n # drop (Suc n) name" by (simp add: Cons_nth_drop_Suc)
  with Suc show ?case
    by (simp add: for_each_append aget_int_def nat_add_distrib take_Suc_conv_app_nth
      list_update_append add.commute)
qed

lemma copy_out_rounds:
  "k + n \<le> length sector \<Longrightarrow> n \<le> length name \<Longrightarrow>
   for_each [0..<n] (\<lambda>i sec. bind (aget name i) (\<lambda>c. bind (aput_int sec (int i + int k) c) (\<lambda>sec. Ok (Inl sec)))) sector
     = Ok (Inl (take k sector @ take n name @ drop (k + n) sector))"
proof (induction n)
  case 0
  show ?case by simp
next
  case (Suc n)
  then have "drop (k + n) sector = sector ! (k + n) # drop (Suc (k + n)) sector"
    by (simp add: Cons_nth_drop_Suc)
  with Suc show ?case
    by (simp add: for_each_append aput_int_def nat_add_distrib take_Suc_conv_app_nth
      list_update_append add.commute)
qed

lemma numeral_offset: "numeral m + int k = int (k + numeral m)"
  by simp

lemma aget_int_add [simp]: "aget_int xs (numeral m + int k) = aget xs (k + numeral m)"
  by (simp only: numeral_offset aget_int_of_nat)

lemma aput_int_add [simp]: "aput_int xs (numeral m + int k) x = aput xs (k + numeral m) x"
  by (simp only: numeral_offset aput_int_of_nat)

lemma smod_32_slot: "int (32 * k) smod 32 = 0"
  by (simp add: smod_nonneg)

lemma getDirectoryEntry_slot:
  assumes "32 * k + 32 \<le> length sector" and "length (filename e) = 11"
  shows "getDirectoryEntry sector e (int (32 * k)) = Ok (decode_entry sector (32 * k) e)"
proof -
  have "for_each [0..<11] (\<lambda>i name. bind (aget_int sector (int i + int (32 * k))) (\<lambda>c. Ok (Inl (name[i := c]))))
      (filename e) = (Ok (Inl (take 11 (drop (32 * k) sector))) :: (byte list + byte list) res)"
    using copy_in_rounds [of "32 * k" 11 sector "filename e"] assms by simp
  then show ?thesis
    using assms smod_32_slot [of k] unfolding getDirectoryEntry_def decode_entry_def Let_def
    by (simp del: of_nat_mult)
qed

lemma setDirectoryEntry_slot:
  assumes "k + 32 \<le> length sector" and "length (filename e) = 11"
  shows "setDirectoryEntry sector e (int k) =
    Ok (take k sector @ encode_entry e (take 32 (drop k sector)) @ drop (k + 32) sector)"
proof -
  let ?s = "take k sector @ filename e @ drop (k + 11) sector"
  let ?hi = "first_cluster_hi e" let ?lo = "first_cluster_lo e" let ?sz = "file_size e"
  define R where "R = ?s[k + 0x0B := attributes e, k + 0x14 := ucast ?hi, k + 0x15 := ucast (drop_bit 8 ?hi),
    k + 0x1A := ucast ?lo, k + 0x1B := ucast (drop_bit 8 ?lo), k + 0x1C := ucast ?sz,
    k + 0x1D := ucast (drop_bit 8 ?sz), k + 0x1E := ucast (drop_bit 16 ?sz), k + 0x1F := ucast (drop_bit 24 ?sz)]"
  let ?E = "encode_entry e (take 32 (drop k sector))"
  have "for_each [0..<11] (\<lambda>i sec. bind (aget (filename e) i) (\<lambda>c. bind (aput_int sec (int i + int k) c)
      (\<lambda>sec. Ok (Inl sec)))) sector = (Ok (Inl ?s) :: (byte list + byte list) res)"
    using copy_out_rounds [of k 11 sector "filename e"] assms by simp
  then have run: "setDirectoryEntry sector e (int k) = Ok R"
    using assms unfolding setDirectoryEntry_def Let_def R_def by simp
  have lenR: "length R = length sector" using assms by (simp add: R_def)
  have lenE: "length ?E = 32" using assms by (simp add: encode_entry_def)
  have outside: "R ! j = sector ! j" if "j < k \<or> k + 32 \<le> j" "j < length sector" for j
  proof (cases "j < k")
    case True
    then show ?thesis using that assms by (simp add: R_def nth_append)
  next
    case False
    with that obtain i where "j = k + 32 + i" using le_Suc_ex by blast
    then show ?thesis using that assms by (simp add: R_def nth_append ac_simps)
  qed
  have inside: "R ! (k + d) = ?E ! d" if "d < 32" for d
  proof -
    have gap1: "R ! (k + (12 + i)) = ?E ! (12 + i)" if "i < 8" for i
      using that assms by (simp add: R_def encode_entry_def nth_append nth_list_update ac_simps)
    have gap2: "R ! (k + (22 + i)) = ?E ! (22 + i)" if "i < 4" for i
      using that assms by (simp add: R_def encode_entry_def nth_append nth_list_update ac_simps)
    have "d < 11 \<or> d = 11 \<or> (12 \<le> d \<and> d < 20) \<or> d = 20 \<or> d = 21 \<or> (22 \<le> d \<and> d < 26)
        \<or> d = 26 \<or> d = 27 \<or> d = 28 \<or> d = 29 \<or> d = 30 \<or> d = 31" using that by linarith
    moreover have "R ! (k + d) = ?E ! d" if "12 \<le> d \<and> d < 20"
    proof -
      from that have "d - 12 < 8" by linarith
      with gap1 [of "d - 12"] that show ?thesis by simp
    qed
    moreover have "R ! (k + d) = ?E ! d" if "22 \<le> d \<and> d < 26"
    proof -
      from that have "d - 22 < 4" by linarith
      with gap2 [of "d - 22"] that show ?thesis by simp
    qed
    ultimately show ?thesis
      using assms by (elim disjE) (simp_all add: R_def encode_entry_def bytes32_def nth_append nth_list_update)
  qed
  have "R = take k sector @ ?E @ drop (k + 32) sector"
  proof (rule nth_equalityI)
    show "length R = length (take k sector @ ?E @ drop (k + 32) sector)" using lenR lenE assms by simp
  next
    fix j assume "j < length R"
    then show "R ! j = (take k sector @ ?E @ drop (k + 32) sector) ! j"
      using outside [of j] inside [of "j - k"] lenR lenE assms
      by (cases "j < k"; cases "j < k + 32") (auto simp: nth_append)
  qed
  with run show ?thesis by simp
qed

lemma length_encode_entry [simp]:
  "length (filename e) = 11 \<Longrightarrow> 32 \<le> length old \<Longrightarrow> length (encode_entry e old) = 32"
  by (simp add: encode_entry_def)

text \<open>An entry read back after it was written: the wide fields keep their low byte only.\<close>

lemma decode_encode:
  assumes "k + 32 \<le> length sector" and "length (filename e) = 11"
  shows "decode_entry (take k sector @ encode_entry e (take 32 (drop k sector)) @ drop (k + 32) sector) k f =
    f\<lparr>filename := filename e, attributes := attributes e, first_cluster_hi := scast (ucast (first_cluster_hi e) :: byte),
      first_cluster_lo := scast (ucast (first_cluster_lo e) :: byte), file_size := scast (ucast (file_size e) :: byte)\<rparr>"
  using assms by (simp add: decode_entry_def encode_entry_def bytes32_def nth_append)

section \<open>The byte a wide field keeps\<close>

lemma odd_div_128: "0 \<le> x \<Longrightarrow> x < 256 \<Longrightarrow> odd (x div 128) \<longleftrightarrow> \<not> x < (128 :: int)"
  using int_div_pos_eq [of x 128 1 "x - 128"] by (cases "x < 128") auto

lemma wrap_16: "128 \<le> x \<Longrightarrow> x < 256 \<Longrightarrow> (x - 256) mod 65536 = (x + 0xFF00 :: int)"
  using int_mod_pos_eq [of "x - 256" 65536 "-1" "x + 0xFF00"] by simp

lemma sint_byte: "sint (b :: byte) = (if uint b < 128 then uint b else uint b - 256)"
proof -
  have b: "0 \<le> uint b" "uint b < 256" using uint_bounded [of b] by simp_all
  have "sint b = signed_take_bit (LENGTH(8) - Suc 0) (uint b)" by (simp only: sint_uint One_nat_def)
  also have "\<dots> = take_bit (Suc 7) (uint b) - 2 ^ Suc 7 * of_bool (bit (uint b) 7)"
    by (subst signed_take_bit_eq_take_bit_minus) simp
  also have "take_bit (Suc 7) (uint b) = uint b" using b by (simp add: take_bit_eq_mod)
  also have "bit (uint b) 7 \<longleftrightarrow> \<not> uint b < 128"
    using odd_div_128 [OF b] by (simp add: bit_iff_odd)
  finally show ?thesis by simp
qed

lemma uint_scast_byte16: "uint (scast (b :: byte) :: word16) = (if uint b < 128 then uint b else uint b + 0xFF00)"
proof -
  have b: "0 \<le> uint b" "uint b < 256" using uint_bounded [of b] by simp_all
  have "uint (scast b :: word16) = sint b mod 2 ^ 16" by (simp only: scast_eq uint_word_of_int) simp
  moreover have "uint b < 128 \<Longrightarrow> uint b mod 65536 = uint b" using b by simp
  ultimately show ?thesis using b wrap_16 [of "uint b"] by (simp add: sint_byte)
qed

lemma scast_small: "(w :: word16) < 128 \<Longrightarrow> scast (ucast w :: byte) = w"
proof -
  assume "w < 128"
  then have w: "uint w < 128" by (simp add: word_less_def)
  then have "uint (ucast w :: byte) = uint w" by (simp add: unsigned_ucast_eq take_bit_eq_mod)
  with w have "uint (scast (ucast w :: byte) :: word16) = uint w" by (simp add: uint_scast_byte16)
  then show ?thesis by (simp add: word_uint_eq_iff)
qed

lemma scast_keeps: "(w :: word16) < 0xFF80 \<Longrightarrow> scast (ucast w :: byte) = w \<longleftrightarrow> w < 128"
proof
  assume "w < 0xFF80" and eq: "scast (ucast w :: byte) = w"
  then have "uint w < 0xFF80" by (simp add: word_less_def)
  moreover have "uint w < 128 \<or> 0xFF80 \<le> uint w"
    using uint_scast_byte16 [of "ucast w"] eq by (simp split: if_splits)
  ultimately show "w < 128" by (simp add: word_less_def)
qed (rule scast_small)

section \<open>Properties\<close>

text \<open>
  Writing an entry with \<open>setDirectoryEntry\<close> and reading the slot with \<open>getDirectoryEntry\<close> gives
  the name and the attributes back, and the start cluster just when it is less than 128: the
  reader takes one byte of each half, with its sign.
\<close>

lemma entry_round_trip:
  assumes "32 * k + 32 \<le> length sector" and "length (filename e) = 11" and "length (filename f) = 11"
    and "first_cluster_hi e = 0" and "first_cluster_lo e < 0xFF80"
  shows "\<exists>sector' e'. setDirectoryEntry sector e (int (32 * k)) = Ok sector' \<and> length sector' = length sector \<and>
    (\<forall>i < length sector. i < 32 * k \<or> 32 * k + 32 \<le> i \<longrightarrow> sector' ! i = sector ! i) \<and>
    getDirectoryEntry sector' f (int (32 * k)) = Ok e' \<and> filename e' = filename e \<and> attributes e' = attributes e \<and>
    (entry_cluster e' = entry_cluster e \<longleftrightarrow> first_cluster_lo e < 128)"
proof -
  let ?S = "take (32 * k) sector @ encode_entry e (take 32 (drop (32 * k) sector)) @ drop (32 * k + 32) sector"
  have len: "length ?S = length sector" using assms(1,2) by simp
  have "setDirectoryEntry sector e (int (32 * k)) = Ok ?S" by (rule setDirectoryEntry_slot [OF assms(1,2)])
  moreover have "getDirectoryEntry ?S f (int (32 * k)) = Ok (decode_entry ?S (32 * k) f)"
    using assms(1,3) len by (intro getDirectoryEntry_slot) simp_all
  moreover note dec = decode_encode [OF assms(1,2), of f]
  have "entry_cluster (decode_entry ?S (32 * k) f) = entry_cluster e \<longleftrightarrow> first_cluster_lo e < 128"
    using scast_keeps [OF assms(5)] assms(4) unfolding dec
    by (simp add: entry_cluster_def) (metis unat_ucast_word16 word_unat_eq_iff)
  moreover have "?S ! i = sector ! i" if i: "i < length sector" "i < 32 * k \<or> 32 * k + 32 \<le> i" for i
  proof (cases "i < 32 * k")
    case True
    then show ?thesis using i by (simp add: nth_append)
  next
    case False
    with i(2) obtain d where "i = 32 * k + 32 + d" using le_Suc_ex by blast
    then show ?thesis using assms(1,2) i(1) by (simp add: nth_append)
  qed
  ultimately show ?thesis using len by (intro exI [of _ ?S] exI [of _ "decode_entry ?S (32 * k) f"]) (simp add: dec)
qed

end
