(* ===== verification/Fat32_Table.thy ===== *)
theory Fat32_Table
  imports Fat32_Layout
begin

text \<open>
  The file allocation table of file-system/fat32.c: loading it (\<open>readFATfromDisk\<close>), storing
  a sector of it (\<open>copyFATtoDisk\<close>), allocating a cluster (\<open>allocateCluster\<close>) and freeing a
  chain (\<open>deleteFATchain\<close>), with the cluster chains these operations are about.
\<close>

section \<open>Loading and storing\<close>

definition readFATfromDisk :: "'d blockdev \<Rightarrow> 'd fs \<Rightarrow> 'd fs res" where
  "readFATfromDisk dev s =
     (let startingFATsector = ucast (reservedSectors (biosParameterBlock s)) in
      bind (for_each [0..<unat (sectorsPerFAT (extendedBootRecord s))] (\<lambda>i (bo, s).
        bind (read_buf dev 512 bo (startingFATsector + of_nat i) s) (\<lambda>(FATsector, s).
        bind (for_each [0..<32] (\<lambda>j F.
            bind (aput F (i * 128 + j) (le32 FATsector (4 * j))) (\<lambda>F. Ok (Inl F))) (FAT s)) (\<lambda>r.
        Ok (Inl (Some FATsector, s\<lparr>FAT := (case r of Inl F \<Rightarrow> F | Inr F \<Rightarrow> F)\<rparr>))))) (None, s)) (\<lambda>r.
      let s = (case r of Inl (_, s) \<Rightarrow> s | Inr s \<Rightarrow> s) in
      Ok (printk (chars (''FAT Written to memory'' @ [CHR 0x0A, CHR 0x0A])) s)))"

text \<open>Starting the file system.\<close>

definition initializeFAT :: "'d blockdev \<Rightarrow> 'd fs \<Rightarrow> 'd fs res" where
  "initializeFAT dev s = bind (getFAT32attributes dev s) (\<lambda>s. readFATfromDisk dev (initializeRootDir s))"

text \<open>
  \<open>copyFATtoDisk\<close> fills \<open>FATsector\<close> at \<open>i*4+k-FATsectorStart\<close>. The loop bound is computed
  in 32 bits: for the last 128 cluster numbers it wraps to 0, the loop does not run and the
  sector written is the uninitialised array.
\<close>

definition put_FAT_entry :: "dword list \<Rightarrow> nat \<Rightarrow> nat \<Rightarrow> byte list \<Rightarrow> (byte list + byte list) res" where
  "put_FAT_entry F start i buf =
     bind (aget F i) (\<lambda>v.
     bind (aput buf (i * 4 + 0 - start) (ucast v)) (\<lambda>buf.
     bind (aput buf (i * 4 + 1 - start) (ucast (drop_bit 8 v))) (\<lambda>buf.
     bind (aput buf (i * 4 + 2 - start) (ucast (drop_bit 16 v))) (\<lambda>buf.
     bind (aput buf (i * 4 + 3 - start) (ucast (drop_bit 24 v))) (\<lambda>buf. Ok (Inl buf))))))"

definition copyFATtoDisk :: "'d blockdev \<Rightarrow> dword \<Rightarrow> 'd fs \<Rightarrow> 'd fs res" where
  "copyFATtoDisk dev cluster s =
     (let startingFATsector = ucast (reservedSectors (biosParameterBlock s));
          sector_offset = (cluster * 4) div 512;
          FATsectorStart = cluster - cluster mod 128 in
      if FATsectorStart + 128 < FATsectorStart then Fault Uninitialised
      else bind (for_each [unat FATsectorStart..<unat FATsectorStart + 128]
             (put_FAT_entry (FAT s) (unat FATsectorStart)) (replicate 512 0)) (\<lambda>r.
           write_buf dev (case r of Inl b \<Rightarrow> b | Inr b \<Rightarrow> b) (startingFATsector + sector_offset) s))"

section \<open>Allocating\<close>

definition last_in_chain :: "dword list \<Rightarrow> dword \<Rightarrow> dword res" where
  "last_in_chain F cluster =
     loop (\<lambda>c. bind (aget F (unat c)) (\<lambda>v. Ok (if v < 0x0FFFFFF7 then Inl v else Inr c))) cluster"

text \<open>
  \<open>newFile\<close> is set to 1 when \<open>startingCluster\<close> is 0 and is not initialised otherwise: it then
  holds the next junk byte.
\<close>

definition allocateCluster :: "dword \<Rightarrow> 'd fs \<Rightarrow> (dword \<times> 'd fs) res" where
  "allocateCluster startingCluster s =
     (let newFile = (if startingCluster = 0 then 1 else junk s 0);
          s = s\<lparr>junk := \<lambda>n. junk s (Suc n)\<rparr> in
      bind (if newFile = 0 then last_in_chain (FAT s) startingCluster else Ok startingCluster) (\<lambda>cluster.
      let i = (if whereClusters (fsInfoStruct s) \<noteq> 0xFFFFFFFF then whereClusters (fsInfoStruct s) else 2) in
      bind (for_each [unat i..<FAT_SIZE] (\<lambda>i s.
          bind (aget (FAT s) i) (\<lambda>v.
          if v = 0 then
            bind (if newFile = 0 then aput (FAT s) (unat cluster) (of_nat i) else Ok (FAT s)) (\<lambda>F.
            bind (aput F i 0x0FFFFFFF) (\<lambda>F.
            Ok (Inr (of_nat i, s\<lparr>FAT := F, fsInfoStruct := (fsInfoStruct s)\<lparr>whereClusters := of_nat (i + 1)\<rparr>\<rparr>))))
          else Ok (Inl s))) s) (\<lambda>r.
      Ok (case r of Inr x \<Rightarrow> x | Inl s \<Rightarrow> (0x0FFFFFFF, s)))))"

section \<open>Freeing\<close>

partial_function (option) delete_chain :: "dword list \<Rightarrow> dword \<Rightarrow> dword list res option" where
  "delete_chain F cluster =
     (case aget F (unat cluster) of
        Fault e \<Rightarrow> Some (Fault e)
      | Ok v \<Rightarrow>
          if v < 0x0FFFFFF6
          then Option.bind (delete_chain F v) (\<lambda>r.
                 case r of Fault e \<Rightarrow> Some (Fault e) | Ok F' \<Rightarrow> Some (aput F' (unat cluster) 0))
          else Some (aput F (unat cluster) 0))"

definition deleteFATchain :: "dword \<Rightarrow> 'd fs \<Rightarrow> 'd fs res" where
  "deleteFATchain cluster s =
     (case delete_chain (FAT s) cluster of
        None \<Rightarrow> Fault Diverges
      | Some r \<Rightarrow> bind r (\<lambda>F. Ok (s\<lparr>FAT := F\<rparr>)))"

section \<open>Chains\<close>

text \<open>
  \<open>is_chain F cs\<close>: the clusters \<open>cs\<close> are linked by the table \<open>F\<close> in this order and the last
  one holds an end-of-chain mark; links name data clusters (from 2 on).
\<close>

fun is_chain :: "dword list \<Rightarrow> dword list \<Rightarrow> bool" where
  "is_chain F [] = False"
| "is_chain F [c] = (unat c < length F \<and> 0x0FFFFFF8 \<le> F ! unat c)"
| "is_chain F (c # d # cs) = (unat c < length F \<and> F ! unat c = d \<and> 2 \<le> d \<and> d < 0x0FFFFFF6 \<and> is_chain F (d # cs))"

lemma is_chain_Cons:
  "is_chain F (c # cs) \<longleftrightarrow> unat c < length F \<and>
     (if cs = [] then 0x0FFFFFF8 \<le> F ! unat c
      else F ! unat c = hd cs \<and> 2 \<le> hd cs \<and> hd cs < 0x0FFFFFF6 \<and> is_chain F cs)"
  by (cases cs) auto

lemma is_chain_range: "is_chain F cs \<Longrightarrow> c \<in> set cs \<Longrightarrow> unat c < length F"
  by (induction cs) (auto simp: is_chain_Cons split: if_splits)

lemma end_mark_not_link [simp]: "0x0FFFFFF8 \<le> v \<Longrightarrow> \<not> v < (0x0FFFFFF6 :: dword)" "0x0FFFFFF8 \<le> v \<Longrightarrow> \<not> v < (0x0FFFFFF7 :: dword)"
  by (simp_all add: word_le_nat_alt word_less_nat_alt)

lemma is_chain_unique: "is_chain F (c # cs) \<Longrightarrow> is_chain F (c # ds) \<Longrightarrow> cs = ds"
proof (induction cs arbitrary: c ds)
  case Nil
  then have "0x0FFFFFF8 \<le> F ! unat c" by simp
  with Nil.prems(2) show ?case by (cases ds) auto
next
  case (Cons d cs)
  note IH = Cons.IH and prems = Cons.prems
  then have d: "F ! unat c = d" "d < 0x0FFFFFF6" and rest: "is_chain F (d # cs)" by simp_all
  show ?case
  proof (cases ds)
    case Nil
    with prems(2) d show ?thesis by auto
  next
    case (Cons d' ds')
    with prems(2) d have "d' = d" "is_chain F (d # ds')" by auto
    with IH [OF rest] Cons show ?thesis by simp
  qed
qed

lemma is_chain_suffix: "is_chain F (xs @ c # ys) \<Longrightarrow> is_chain F (c # ys)"
  by (induction xs) (auto simp: is_chain_Cons)

text \<open>A chain never visits a cluster twice: what follows a cluster is determined by it.\<close>

lemma is_chain_distinct: "is_chain F cs \<Longrightarrow> distinct cs"
proof (rule ccontr)
  assume chain: "is_chain F cs" and "\<not> distinct cs"
  then obtain xs ys zs c where cs: "cs = xs @ [c] @ ys @ [c] @ zs" using not_distinct_decomp by blast
  from chain cs is_chain_suffix [of F xs c "ys @ [c] @ zs"] have "is_chain F (c # ys @ c # zs)" by simp
  moreover from chain cs is_chain_suffix [of F "xs @ [c] @ ys" c zs] have "is_chain F (c # zs)" by simp
  ultimately have "ys @ c # zs = zs" by (rule is_chain_unique)
  then have "length (ys @ c # zs) = length zs" by simp
  then show False by simp
qed

lemma is_chain_update_other:
  "unat c \<notin> unat ` set cs \<Longrightarrow> is_chain (F[unat c := v]) cs = is_chain F cs"
  by (induction F cs rule: is_chain.induct) auto

lemma is_chain_update_nat:
  "i \<notin> unat ` set cs \<Longrightarrow> is_chain (F[i := v]) cs = is_chain F cs"
  by (induction F cs rule: is_chain.induct) auto

section \<open>Freeing a chain\<close>

definition clear_all :: "dword list \<Rightarrow> dword list \<Rightarrow> dword list" where
  "clear_all F cs = foldr (\<lambda>c F. F[unat c := 0]) cs F"

lemma length_clear_all [simp]: "length (clear_all F cs) = length F"
  by (induction cs) (auto simp: clear_all_def)

lemma clear_all_Cons: "clear_all F (c # cs) = (clear_all F cs)[unat c := 0]"
  by (simp add: clear_all_def)

lemma clear_all_Nil [simp]: "clear_all F [] = F"
  by (simp add: clear_all_def)

lemma nth_clear_all:
  "i < length F \<Longrightarrow> clear_all F cs ! i = (if i \<in> unat ` set cs then 0 else F ! i)"
proof (induction cs)
  case Nil
  then show ?case by simp
next
  case (Cons c cs)
  then show ?case by (cases "i = unat c") (auto simp: clear_all_Cons)
qed

lemma delete_chain_clears: "is_chain F cs \<Longrightarrow> delete_chain F (hd cs) = Some (Ok (clear_all F cs))"
proof (induction F cs rule: is_chain.induct)
  case (1 F)
  then show ?case by simp
next
  case (2 F c)
  then show ?case by (subst delete_chain.simps) (simp add: clear_all_Cons)
next
  case (3 F c d cs)
  then have "delete_chain F d = Some (Ok (clear_all F (d # cs)))" by simp
  with 3 show ?case by (subst delete_chain.simps) (simp add: clear_all_Cons [of F c])
qed

text \<open>From a set of clusters whose links stay in the set the recursion does not return.\<close>

lemma delete_chain_no_return:
  fixes S :: "dword set"
  assumes "\<And>c. c \<in> S \<Longrightarrow> unat c < length F \<and> F ! unat c < 0x0FFFFFF6 \<and> F ! unat c \<in> S"
  shows "c \<in> S \<Longrightarrow> delete_chain F c = None"
proof (rule ccontr)
  assume c: "c \<in> S" and "delete_chain F c \<noteq> None"
  then obtain r where r: "delete_chain F c = Some r" by auto
  have "G = F \<longrightarrow> d \<notin> S" if "delete_chain G d = Some q" for G :: "dword list" and d :: dword and q
  proof (rule delete_chain.raw_induct [where P = "\<lambda>G (d :: dword) q. G = F \<longrightarrow> d \<notin> S", OF _ that])
    fix f :: "dword list \<Rightarrow> dword \<Rightarrow> dword list res option" and G :: "dword list" and d :: dword and q
    assume IH: "\<And>G (d :: dword) q. f G d = Some q \<Longrightarrow> G = F \<longrightarrow> d \<notin> S"
      and eq: "(case aget G (unat d) of Fault e \<Rightarrow> Some (Fault e)
        | Ok v \<Rightarrow> if v < 0x0FFFFFF6 then Option.bind (f G v) (\<lambda>r. case r of Fault e \<Rightarrow> Some (Fault e)
            | Ok F' \<Rightarrow> Some (aput F' (unat d) 0)) else Some (aput G (unat d) 0)) = Some q"
    show "G = F \<longrightarrow> d \<notin> S"
    proof (intro impI notI)
      assume G: "G = F" and "d \<in> S"
      with assms [of d] eq have "f F (F ! unat d) \<noteq> None" by (cases "f F (F ! unat d)") auto
      then obtain r where "f F (F ! unat d) = Some r" by auto
      from IH [OF this] assms [OF \<open>d \<in> S\<close>] show False by simp
    qed
  qed
  from this [OF r] c show False by simp
qed

section \<open>Allocating a cluster\<close>

text \<open>Where the search starts, and the first free entry from there on.\<close>

definition hint :: "'d fs \<Rightarrow> nat" where
  "hint s = (if whereClusters (fsInfoStruct s) \<noteq> 0xFFFFFFFF then unat (whereClusters (fsInfoStruct s)) else 2)"

definition first_free :: "'d fs \<Rightarrow> nat option" where
  "first_free s = find (\<lambda>i. FAT s ! i = 0) [hint s..<FAT_SIZE]"

definition drop_junk :: "'d fs \<Rightarrow> 'd fs" where
  "drop_junk s = s\<lparr>junk := \<lambda>n. junk s (Suc n)\<rparr>"

lemma drop_junk_select [simp]:
  "FAT (drop_junk s) = FAT s" "fsInfoStruct (drop_junk s) = fsInfoStruct s" "device (drop_junk s) = device s"
  "biosParameterBlock (drop_junk s) = biosParameterBlock s" "extendedBootRecord (drop_junk s) = extendedBootRecord s"
  "hint (drop_junk s) = hint s"
  by (simp_all add: drop_junk_def hint_def)

lemma find_range: "find P [a..<b] = Some i \<Longrightarrow> a \<le> i \<and> i < b \<and> P i \<and> (\<forall>j. a \<le> j \<longrightarrow> j < i \<longrightarrow> \<not> P j)"
proof -
  assume "find P [a..<b] = Some i"
  then obtain k where k: "k < b - a" "i = [a..<b] ! k" "P i" "\<forall>j<k. \<not> P ([a..<b] ! j)"
    by (auto simp: find_Some_iff)
  then have i: "i = a + k" by simp
  have "\<not> P j" if "a \<le> j" "j < i" for j
    using k(4) [rule_format, of "j - a"] k(1) that i by simp
  with k i show ?thesis by auto
qed

lemma search_rounds:
  assumes "\<And>i. i \<in> set xs \<Longrightarrow> i < length (FAT s)" and "\<And>i. i \<in> set xs \<Longrightarrow> g i s = Ok (Inr (h i))"
  shows "for_each xs (\<lambda>i s. bind (aget (FAT s) i) (\<lambda>v. if v = 0 then g i s else Ok (Inl s))) s
    = Ok (case find (\<lambda>i. FAT s ! i = 0) xs of None \<Rightarrow> Inl s | Some i \<Rightarrow> Inr (h i))"
  using assms by (induction xs) auto

lemma first_free_range: "first_free s = Some i \<Longrightarrow> hint s \<le> i \<and> i < FAT_SIZE \<and> FAT s ! i = 0"
  unfolding first_free_def using find_range by fastforce

definition take_cluster :: "nat \<Rightarrow> 'd fs \<Rightarrow> 'd fs" where
  "take_cluster i s = s\<lparr>FAT := (FAT s)[i := 0x0FFFFFFF],
     fsInfoStruct := (fsInfoStruct s)\<lparr>whereClusters := of_nat (i + 1)\<rparr>\<rparr>"

text \<open>Every case of \<open>allocateCluster\<close> in which \<open>newFile\<close> is not 0.\<close>

lemma allocateCluster_unlinked:
  assumes "length (FAT s) = FAT_SIZE" and "c = 0 \<or> junk s 0 \<noteq> 0"
  shows "allocateCluster c s =
    Ok (case first_free s of None \<Rightarrow> (0x0FFFFFFF, drop_junk s)
        | Some i \<Rightarrow> (of_nat i, take_cluster i (drop_junk s)))"
proof -
  let ?s = "drop_junk s"
  define nf where "nf = (if c = 0 then 1 else junk s 0)"
  have nf0: "(nf = 0) = False" using assms(2) by (auto simp: nf_def)
  have h: "unat (if whereClusters (fsInfoStruct ?s) \<noteq> 0xFFFFFFFF then whereClusters (fsInfoStruct ?s) else 2) = hint s"
    by (simp add: hint_def)
  have search: "for_each [hint s..<FAT_SIZE] (\<lambda>i s. bind (aget (FAT s) i) (\<lambda>v. if v = 0 then
        bind (Ok (FAT s)) (\<lambda>F. bind (aput F i 0x0FFFFFFF) (\<lambda>F.
          Ok (Inr (of_nat i, s\<lparr>FAT := F, fsInfoStruct := (fsInfoStruct s)\<lparr>whereClusters := of_nat (i + 1)\<rparr>\<rparr>))))
        else Ok (Inl s))) ?s
      = Ok (case first_free s of None \<Rightarrow> Inl ?s | Some i \<Rightarrow> Inr (of_nat i, take_cluster i ?s))"
    using assms(1) by (subst search_rounds [where h = "\<lambda>i. (of_nat i, take_cluster i ?s)"])
      (auto simp: take_cluster_def first_free_def)
  show ?thesis
    unfolding allocateCluster_def Let_def nf_def [symmetric] drop_junk_def [symmetric] nf0 if_False bind.simps(1) h
    by (simp add: search [unfolded bind.simps(1)] split: option.splits)
qed

text \<open>With an existing chain and \<open>newFile\<close> at 0 the found cluster is linked behind the last one.\<close>

lemma last_in_chain_last [safe]: "is_chain F (c # cs) \<Longrightarrow> last_in_chain F c = Ok (last (c # cs))"
  unfolding last_in_chain_def
proof (induction cs arbitrary: c)
  case Nil
  then show ?case by (intro loop_stop) simp
next
  case (Cons d cs)
  then have "F ! unat c = d" "d < 0x0FFFFFF7" "unat c < length F"
    by (auto simp: word_less_nat_alt)
  with Cons show ?case by (subst loop_step [where s' = d]) auto
qed

definition link_cluster :: "dword \<Rightarrow> nat \<Rightarrow> 'd fs \<Rightarrow> 'd fs" where
  "link_cluster l i s = take_cluster i (s\<lparr>FAT := (FAT s)[unat l := of_nat i]\<rparr>)"

lemma allocateCluster_linked:
  assumes "length (FAT s) = FAT_SIZE" and "c \<noteq> 0" and "junk s 0 = 0" and "is_chain (FAT s) (c # cs)"
  shows "allocateCluster c s =
    Ok (case first_free s of None \<Rightarrow> (0x0FFFFFFF, drop_junk s)
        | Some i \<Rightarrow> (of_nat i, link_cluster (last (c # cs)) i (drop_junk s)))"
proof -
  let ?s = "drop_junk s" and ?l = "last (c # cs)"
  have nf0: "((if c = 0 then 1 else junk s 0) = 0) = True" using assms(2,3) by simp
  have l: "unat ?l < length (FAT s)" using is_chain_range [OF assms(4), of ?l] by simp
  have h: "unat (if whereClusters (fsInfoStruct ?s) \<noteq> 0xFFFFFFFF then whereClusters (fsInfoStruct ?s) else 2) = hint s"
    by (simp add: hint_def)
  have search: "for_each [hint s..<FAT_SIZE] (\<lambda>i s. bind (aget (FAT s) i) (\<lambda>v. if v = 0 then
        bind (aput (FAT s) (unat ?l) (of_nat i)) (\<lambda>F. bind (aput F i 0x0FFFFFFF) (\<lambda>F.
          Ok (Inr (of_nat i, s\<lparr>FAT := F, fsInfoStruct := (fsInfoStruct s)\<lparr>whereClusters := of_nat (i + 1)\<rparr>\<rparr>))))
        else Ok (Inl s))) ?s
      = Ok (case first_free s of None \<Rightarrow> Inl ?s | Some i \<Rightarrow> Inr (of_nat i, link_cluster ?l i ?s))"
    using assms(1) l by (subst search_rounds [where h = "\<lambda>i. (of_nat i, link_cluster ?l i ?s)"])
      (auto simp: take_cluster_def link_cluster_def first_free_def)
  show ?thesis
    unfolding allocateCluster_def Let_def drop_junk_def [symmetric] nf0 if_True drop_junk_select
      last_in_chain_last [OF assms(4)] bind.simps(1) h [unfolded drop_junk_select]
    by (simp add: search split: option.splits)
qed

lemma is_chain_used: "is_chain F cs \<Longrightarrow> c \<in> set cs \<Longrightarrow> F ! unat c \<noteq> 0"
  by (induction F cs rule: is_chain.induct) auto

lemma unat_of_nat_small: "i < 2 ^ 32 \<Longrightarrow> unat (of_nat i :: dword) = i"
  by (simp add: unat_of_nat)

lemma is_chain_extend:
  assumes "is_chain F cs" and "i < length F" and "F ! i = 0" and "2 \<le> i" and "length F \<le> FAT_SIZE"
  shows "is_chain (F[unat (last cs) := of_nat i, i := 0x0FFFFFFF]) (cs @ [of_nat i])"
  using assms(1) is_chain_distinct [OF assms(1)]
proof (induction cs)
  case Nil
  then show ?case by simp
next
  case (Cons c cs)
  have i: "unat (of_nat i :: dword) = i" "i < 0x0FFFFFF6"
    using assms(2,5) by (simp_all add: unat_of_nat_small FAT_SIZE_def)
  have c: "unat c \<noteq> i" "unat c < length F"
    using is_chain_used [OF Cons.prems(1), of c] is_chain_range [OF Cons.prems(1), of c] assms(3) by auto
  show ?case
  proof (cases cs)
    case Nil
    with c i assms(2,4) show ?thesis by (simp add: word_le_nat_alt word_less_nat_alt)
  next
    case (Cons d ds)
    with Cons.prems have "last cs \<noteq> c" by (metis distinct.simps(2) last_in_set list.distinct(1))
    then have "unat (last cs) \<noteq> unat c" by (simp add: word_unat_eq_iff)
    with Cons.IH Cons.prems Cons c show ?thesis by (simp add: is_chain_Cons)
  qed
qed

text \<open>The other chains do not notice.\<close>

lemma is_chain_take_other:
  assumes "is_chain F ds" and "F ! i = 0" and "l \<notin> set ds"
  shows "is_chain (F[unat l := v, i := w]) ds"
proof -
  have "i \<notin> unat ` set ds" using is_chain_used [OF assms(1)] assms(2) by auto
  moreover have "unat l \<notin> unat ` set ds" using assms(3) by (auto simp: word_unat_eq_iff [symmetric])
  ultimately show ?thesis using assms(1) by (simp add: is_chain_update_nat)
qed

section \<open>Storing a sector of the table\<close>

text \<open>
  The first sector (clusters 0 to 127) is stored as it should be; for every further sector of
  the table the index into \<open>FATsector\<close> leaves the array.
\<close>

lemma put_FAT_entry_round:
  assumes "i < length F" and "length buf = 4 * i" and "4 \<le> n"
  shows "put_FAT_entry F 0 i (buf @ replicate n 0) = Ok (Inl (buf @ bytes32 (F ! i) @ replicate (n - 4) 0))"
proof -
  from assms(3) have "n = Suc (Suc (Suc (Suc (n - 4))))" by simp
  then obtain m where "n = Suc (Suc (Suc (Suc m)))" by blast
  with assms show ?thesis
    by (simp add: put_FAT_entry_def bytes32_def list_update_append add.commute)
qed

lemma put_FAT_entry_rounds:
  assumes "128 \<le> length F"
  shows "n \<le> 128 \<Longrightarrow> for_each [0..<n] (put_FAT_entry F 0) (replicate 512 0) =
    Ok (Inl (concat (map bytes32 (take n F)) @ replicate (512 - 4 * n) 0))"
proof (induction n)
  case 0
  show ?case by simp
next
  case (Suc n)
  have "length (concat (map bytes32 (take n F))) = 4 * n"
    using Suc.prems assms by (simp add: length_concat comp_def sum_list_triv min_def)
  with Suc assms show ?case
    by (simp add: for_each_append put_FAT_entry_round take_Suc_conv_app_nth diff_diff_eq)
qed

definition FAT_sector_bytes :: "dword list \<Rightarrow> byte list" where
  "FAT_sector_bytes F = concat (map bytes32 (take 128 F))"

lemma length_FAT_sector_bytes [simp]: "128 \<le> length F \<Longrightarrow> length (FAT_sector_bytes F) = 512"
  by (simp add: FAT_sector_bytes_def length_concat comp_def sum_list_triv min_def)

lemma FAT_sector_bytes_entry:
  "e < 128 \<Longrightarrow> 128 \<le> length F \<Longrightarrow> le32 (FAT_sector_bytes F) (4 * e) = F ! e"
proof -
  assume e: "e < 128" "128 \<le> length F"
  have "FAT_sector_bytes F = concat (map bytes32 (take e F)) @ bytes32 (F ! e) @ concat (map bytes32 (take (127 - e) (drop (Suc e) F)))"
  proof -
    have "take 128 F = take e F @ F ! e # take (127 - e) (drop (Suc e) F)"
      using e id_take_nth_drop [of e "take 128 F"] by (simp add: min_def drop_take)
    then show ?thesis by (simp add: FAT_sector_bytes_def)
  qed
  moreover have "length (concat (map bytes32 (take e F))) = 4 * e"
    using e by (simp add: length_concat comp_def sum_list_triv min_def)
  ultimately show ?thesis using e by (intro le32_bytes32) simp_all
qed

lemma copyFATtoDisk_first:
  assumes "unat cluster < 128" and "128 \<le> length (FAT s)"
  shows "copyFATtoDisk dev cluster s =
    write_buf dev (FAT_sector_bytes (FAT s)) (ucast (reservedSectors (biosParameterBlock s))) s"
proof -
  have m: "cluster mod 128 = cluster" and d: "(cluster * 4) div 512 = 0"
    using assms(1) by (simp_all add: word_unat_eq_iff unat_mod unat_div unat_word_ariths)
  show ?thesis
    using put_FAT_entry_rounds [OF assms(2), of 128] unfolding copyFATtoDisk_def Let_def m d
    by (simp add: FAT_sector_bytes_def)
qed

lemma copyFATtoDisk_overrun:
  assumes "128 \<le> unat cluster" and "unat cluster < FAT_SIZE" and "length (FAT s) = FAT_SIZE"
  shows "copyFATtoDisk dev cluster s = Fault OutOfBounds"
proof -
  define st where "st = unat (cluster - cluster mod 128)"
  have "unat (cluster - cluster mod 128) = unat cluster - unat cluster mod 128"
    by (subst unat_sub) (simp_all add: unat_mod word_le_nat_alt)
  then have st: "st = unat cluster div 128 * 128" by (simp add: st_def minus_mod_eq_div_mult)
  then have b: "128 \<le> st" "st + 128 \<le> FAT_SIZE" using assms(1,2) by (simp_all add: FAT_SIZE_def)
  have nowrap: "\<not> cluster - cluster mod 128 + 128 < cluster - cluster mod 128"
    using b by (simp add: word_less_nat_alt st_def [symmetric] unat_word_ariths FAT_SIZE_def)
  have "for_each [st..<st + 128] (put_FAT_entry (FAT s) st) (replicate 512 0) = (Fault OutOfBounds :: (byte list + byte list) res)"
  proof (rule for_each_fault [where I = "\<lambda>b. length b = 512" and j = "st + 127"])
    fix i and buf :: "byte list" assume "i \<in> set [st..<st + 128]" "length buf = (512 :: nat)"
    then show "put_FAT_entry (FAT s) st i buf = Fault OutOfBounds \<or> (\<exists>s'. put_FAT_entry (FAT s) st i buf = Ok (Inl s') \<and> length s' = 512)"
      using b assms(3) by (auto simp: put_FAT_entry_def aput_def)
  next
    fix buf :: "byte list" assume "length buf = (512 :: nat)"
    then show "put_FAT_entry (FAT s) st (st + 127) buf = Fault OutOfBounds"
      using b assms(3) by (simp add: put_FAT_entry_def aput_def)
  qed simp_all
  then show ?thesis unfolding copyFATtoDisk_def Let_def st_def [symmetric] using nowrap by simp
qed

section \<open>Loading the table\<close>

text \<open>
  The table in memory after \<open>n\<close> sectors were loaded from the blocks \<open>C\<close>: of the 128 entries
  of a sector the loop \<open>j<128\<close>, which counts bytes and not entries, loads the first 32.
\<close>

definition loaded_FAT :: "(nat \<Rightarrow> byte list) \<Rightarrow> nat \<Rightarrow> dword list \<Rightarrow> dword list" where
  "loaded_FAT C n F = map (\<lambda>e. if e div 128 < n \<and> e mod 128 < 32 then le32 (C (e div 128)) (4 * (e mod 128)) else F ! e)
     [0..<length F]"

lemma length_loaded_FAT [simp]: "length (loaded_FAT C n F) = length F"
  by (simp add: loaded_FAT_def)

lemma loaded_FAT_0 [simp]: "loaded_FAT C 0 F = F"
  by (simp add: loaded_FAT_def map_nth)

lemma load_sector_rounds:
  assumes "i * 128 + 31 < length F"
  shows "n \<le> 32 \<Longrightarrow> for_each [0..<n] (\<lambda>j F. bind (aput F (i * 128 + j) (le32 b (4 * j))) (\<lambda>F. Ok (Inl F))) F =
    Ok (Inl (map (\<lambda>e. if i * 128 \<le> e \<and> e < i * 128 + n then le32 b (4 * (e - i * 128)) else F ! e) [0..<length F]))"
proof (induction n)
  case 0
  have "map (\<lambda>e. if i * 128 \<le> e \<and> e < i * 128 + 0 then le32 b (4 * (e - i * 128)) else F ! e) [0..<length F] = F"
    by (rule nth_equalityI) auto
  then show ?case by simp
next
  case (Suc n)
  with assms have "i * 128 + n < length F" by linarith
  moreover have "(map (\<lambda>e. if i * 128 \<le> e \<and> e < i * 128 + n then le32 b (4 * (e - i * 128)) else F ! e) [0..<length F])
      [i * 128 + n := le32 b (4 * n)]
    = map (\<lambda>e. if i * 128 \<le> e \<and> e < i * 128 + Suc n then le32 b (4 * (e - i * 128)) else F ! e) [0..<length F]"
    (is "?L = ?R")
  proof (rule nth_equalityI)
    fix e assume "e < length ?L"
    then show "?L ! e = ?R ! e" by (cases "e = i * 128 + n") auto
  qed simp
  ultimately show ?case using Suc by (simp add: for_each_append)
qed

lemma map_upt_nth: "length xs = n \<Longrightarrow> (\<And>e. e < n \<Longrightarrow> f e = xs ! e) \<Longrightarrow> map f [0..<n] = xs"
  by (intro nth_equalityI) auto

lemma loaded_FAT_Suc:
  "map (\<lambda>e. if n * 128 \<le> e \<and> e < n * 128 + 32 then le32 (C n) (4 * (e - n * 128)) else loaded_FAT C n F ! e)
     [0..<length F] = loaded_FAT C (Suc n) F"
proof -
  have "(if n * 128 \<le> e \<and> e < n * 128 + 32 then le32 (C n) (4 * (e - n * 128)) else loaded_FAT C n F ! e)
      = loaded_FAT C (Suc n) F ! e" if e: "e < length F" for e
  proof (cases "e div 128 = n")
    case True
    then have "e = n * 128 + e mod 128" by auto
    then obtain r where "e = n * 128 + r" "e mod 128 = r" by blast
    with True e show ?thesis by (simp add: loaded_FAT_def)
  next
    case False
    then have "\<not> (n * 128 \<le> e \<and> e < n * 128 + 32)" by (auto intro!: div_nat_eqI)
    moreover from False have "e div 128 < Suc n \<longleftrightarrow> e div 128 < n" by auto
    ultimately show ?thesis using e by (simp only: if_False) (simp add: loaded_FAT_def)
  qed
  then show ?thesis by (intro map_upt_nth) simp_all
qed

context block_device begin


lemma copyFATtoDisk_stores [safe]:
  assumes "ok (device s)" and "unat cluster < 128" and "128 \<le> length (FAT s)" and "reserved s < nblocks"
  shows "\<exists>d. copyFATtoDisk dev cluster s = Ok (s\<lparr>device := d\<rparr>) \<and> ok d
    \<and> contents d = (contents (device s))(reserved s := FAT_sector_bytes (FAT s))"
proof -
  let ?n = "ucast (reservedSectors (biosParameterBlock s)) :: dword"
  have n: "unat ?n = reserved s" by simp
  from write_block [of "device s" ?n "FAT_sector_bytes (FAT s)"] assms n obtain d where
    "bwrite dev (FAT_sector_bytes (FAT s)) ?n (device s) = Ok (0, d)" "ok d"
    "contents d = (contents (device s))(reserved s := FAT_sector_bytes (FAT s))" by auto
  with assms(2,3) show ?thesis by (intro exI [of _ d]) (simp add: copyFATtoDisk_first write_buf_def)
qed

lemma read_buf_block [safe]:
  assumes "ok (device s)" and "unat n < nblocks" and "bo = None \<or> (\<exists>b. bo = Some b \<and> length b = 512)"
  shows "\<exists>d. read_buf dev 512 bo n s = Ok (contents (device s) (unat n), s\<lparr>device := d\<rparr>) \<and> ok d
    \<and> contents d = contents (device s)"
proof (cases bo)
  case None
  from read_fresh_block [of "device s" n 512] assms obtain d where
    "read_fresh dev 512 n (device s) = Ok (contents (device s) (unat n), d)" "ok d" "contents d = contents (device s)"
    by auto
  with None show ?thesis by (intro exI [of _ d]) (simp add: read_buf_def)
next
  case (Some b)
  with assms(3) read_block [of "device s" n b] assms obtain d where
    "bread dev b n (device s) = Ok (0, contents (device s) (unat n), d)" "ok d" "contents d = contents (device s)"
    by auto
  with Some show ?thesis by (intro exI [of _ d]) (simp add: read_buf_def)
qed

lemma readFATfromDisk_loads [safe]:
  assumes "ok (device s)" and "length (FAT s) = FAT_SIZE"
    and n: "n = unat (sectorsPerFAT (extendedBootRecord s))" "n \<le> 16" and "reserved s + n \<le> nblocks"
  shows "\<exists>d. readFATfromDisk dev s = Ok (printk (chars (''FAT Written to memory'' @ [CHR 0x0A, CHR 0x0A]))
      (s\<lparr>FAT := loaded_FAT (\<lambda>i. contents (device s) (reserved s + i)) n (FAT s), device := d\<rparr>))
    \<and> ok d \<and> contents d = contents (device s)"
proof -
  let ?st = "ucast (reservedSectors (biosParameterBlock s)) :: dword"
  let ?C = "\<lambda>i. contents (device s) (reserved s + i)"
  define body where "body = (\<lambda>i (bo, s). bind (read_buf dev 512 bo (?st + of_nat i) s) (\<lambda>(FATsector, s).
        bind (for_each [0..<32] (\<lambda>j F.
            bind (aput F (i * 128 + j) (le32 FATsector (4 * j))) (\<lambda>F. Ok (Inl F))) (FAT s)) (\<lambda>r.
        Ok (Inl (Some FATsector, s\<lparr>FAT := (case r of Inl F \<Rightarrow> F | Inr F \<Rightarrow> F)\<rparr>)) ::
          ((byte list option \<times> 'd fs) + 'd fs) res)))"
  define I where "I = (\<lambda>i (bo :: byte list option, t). (bo = None \<or> (\<exists>b. bo = Some b \<and> length b = 512)) \<and>
    (\<exists>d. t = s\<lparr>FAT := loaded_FAT ?C i (FAT s), device := d\<rparr> \<and> ok d \<and> contents d = contents (device s)))"
  have "\<exists>t. for_each [0..<n] body (None, s) = Ok (Inl t) \<and> I n t"
  proof (rule for_upto_rule)
    show "I 0 (None, s)" using assms(1) by (auto simp: I_def intro!: exI [of _ "device s"])
  next
    fix i bs assume i: "i < n" and "I i bs"
    then obtain bo d where bs: "bs = (bo, s\<lparr>FAT := loaded_FAT ?C i (FAT s), device := d\<rparr>)" and
      bo: "bo = None \<or> (\<exists>b. bo = Some b \<and> length b = 512)" and d: "ok d" "contents d = contents (device s)"
      by (cases bs) (auto simp: I_def)
    have k: "unat (?st + of_nat i) = reserved s + i"
    proof -
      have "reserved s < 2 ^ 16" using unsigned_less [of "reservedSectors (biosParameterBlock s)"] by simp
      with i n(2) show ?thesis by (subst unat_plus_if') (simp add: unat_of_nat)
    qed
    let ?t = "s\<lparr>FAT := loaded_FAT ?C i (FAT s), device := d\<rparr>"
    from read_buf_block [of ?t "?st + of_nat i" bo] k i bo d assms(5) obtain d' where
      r: "read_buf dev 512 bo (?st + of_nat i) ?t = Ok (?C i, ?t\<lparr>device := d'\<rparr>)" "ok d'"
        "contents d' = contents (device s)" by auto
    have "i * 128 + 31 < length (FAT s)" using i n(2) assms(2) by (simp add: FAT_SIZE_def)
    then have "for_each [0..<32] (\<lambda>j F. bind (aput F (i * 128 + j) (le32 (?C i) (4 * j))) (\<lambda>F. Ok (Inl F)))
        (loaded_FAT ?C i (FAT s)) = (Ok (Inl (loaded_FAT ?C (Suc i) (FAT s))) :: (dword list + dword list) res)"
      by (subst load_sector_rounds) (simp_all add: loaded_FAT_Suc [where C = ?C])
    with r have "body i bs = Ok (Inl (Some (?C i), s\<lparr>FAT := loaded_FAT ?C (Suc i) (FAT s), device := d'\<rparr>))"
      by (simp add: body_def bs)
    moreover have "length (?C i) = 512" using length_contents assms(1) by blast
    ultimately show "\<exists>bs'. body i bs = Ok (Inl bs') \<and> I (Suc i) bs'" using r by (auto simp: I_def)
  qed
  then obtain t where "for_each [0..<n] body (None, s) = Ok (Inl t)" "I n t" by blast
  then show ?thesis
    unfolding readFATfromDisk_def Let_def body_def [symmetric] n(1) [symmetric] by (auto simp: I_def)
qed

end

section \<open>Properties\<close>

lemma is_chain_clear_other: "is_chain F cs \<Longrightarrow> set ds \<inter> set cs = {} \<Longrightarrow> is_chain (clear_all F ds) cs"
proof (induction ds)
  case (Cons d ds)
  then have "unat d \<notin> unat ` set cs" by (auto simp: word_unat_eq_iff [symmetric])
  with Cons show ?case by (simp add: clear_all_Cons is_chain_update_nat)
qed simp

text \<open>
  \<open>allocateCluster(0)\<close> takes the first free cluster from the hint on: it marks it as the end of a
  chain, advances the hint behind it and returns it, or returns 0x0FFFFFFF when there is none.
  No other entry of the table changes, so every chain stays one and the new cluster is a chain.
\<close>

lemma allocateCluster_new:
  assumes len: "length (FAT s) = FAT_SIZE"
  shows "\<exists>c s'. allocateCluster 0 s = Ok (c, s') \<and> length (FAT s') = FAT_SIZE \<and>
    (if \<exists>i. hint s \<le> i \<and> i < FAT_SIZE \<and> FAT s ! i = 0
     then hint s \<le> unat c \<and> unat c < FAT_SIZE \<and> FAT s ! unat c = 0 \<and> (\<forall>j. hint s \<le> j \<longrightarrow> j < unat c \<longrightarrow> FAT s ! j \<noteq> 0) \<and>
       FAT s' = (FAT s)[unat c := 0x0FFFFFFF] \<and> whereClusters (fsInfoStruct s') = c + 1 \<and> is_chain (FAT s') [c] \<and>
       (\<forall>cs. is_chain (FAT s) cs \<longrightarrow> is_chain (FAT s') cs)
     else c = 0x0FFFFFFF \<and> FAT s' = FAT s)"
proof (cases "first_free s")
  case None
  then have none: "\<not> (\<exists>i. hint s \<le> i \<and> i < FAT_SIZE \<and> FAT s ! i = 0)"
    by (auto simp: first_free_def find_None_iff)
  from None allocateCluster_unlinked [OF len, of 0] have "allocateCluster 0 s = Ok (0x0FFFFFFF, drop_junk s)" by simp
  with len show ?thesis by (intro exI [of _ "0x0FFFFFFF"] exI [of _ "drop_junk s"]) (simp only: none, simp)
next
  case (Some i)
  then have i: "hint s \<le> i" "i < FAT_SIZE" "FAT s ! i = 0" and least: "\<forall>j. hint s \<le> j \<longrightarrow> j < i \<longrightarrow> FAT s ! j \<noteq> 0"
    using find_range [of "\<lambda>i. FAT s ! i = 0" "hint s" FAT_SIZE i] by (auto simp: first_free_def)
  then have some: "\<exists>i. hint s \<le> i \<and> i < FAT_SIZE \<and> FAT s ! i = 0" by blast
  have u: "unat (of_nat i :: dword) = i" using i(2) by (intro unat_of_nat_small) (simp add: FAT_SIZE_def)
  let ?s = "take_cluster i (drop_junk s)"
  have run: "allocateCluster 0 s = Ok (of_nat i, ?s)" using Some allocateCluster_unlinked [OF len, of 0] by simp
  have F: "FAT ?s = (FAT s)[i := 0x0FFFFFFF]" by (simp add: take_cluster_def)
  have "is_chain (FAT ?s) cs" if "is_chain (FAT s) cs" for cs
  proof -
    have "i \<notin> unat ` set cs" using is_chain_used [OF that] i(3) by auto
    with that show ?thesis by (simp add: F is_chain_update_nat)
  qed
  moreover have "is_chain (FAT ?s) [of_nat i]" using i(2) u len by (simp add: F)
  moreover have "whereClusters (fsInfoStruct ?s) = of_nat i + 1" by (simp add: take_cluster_def)
  ultimately show ?thesis
    using run i least len F by (intro exI [of _ "of_nat i"] exI [of _ ?s]) (simp only: some u if_True, simp add: F)
qed

text \<open>A volume for the examples: a table, no disk, no hint.\<close>

definition sample :: "dword list \<Rightarrow> unit fs" where
  "sample F = \<lparr>
     biosParameterBlock = \<lparr>bytesPerSector = 512, sectorsPerCluster = 8, reservedSectors = 32, FATs = 2, rootDirEntries = 0,
       numSectors = 0, mediaDescriptor = 0xF8, sectorsPerTrack = 0, numHeads = 0, hiddenSectors = 0, numSectorsLSC = 0\<rparr>,
     extendedBootRecord = \<lparr>sectorsPerFAT = 1, EBR_flags = 0, FATversion = 0, rootClusterNum = 2, FSInfoSectorNum = 1,
       bkBootSectorNum = 6, driveNum = 0x80, signature = 0x29, systemId = replicate 8 32\<rparr>,
     fsInfoStruct = \<lparr>leadSignature = 0, otherSignature = 0, lastKnownCluster = 0, whereClusters = 3, trailSignature = 0\<rparr>,
     rootDirectory = blank_entry, FAT = F, device = (), console = [], junk = (\<lambda>_. 0)\<rparr>"

lemma sample_select [simp]: "FAT (sample F) = F" "junk (sample F) n = 0" "hint (sample F) = 3"
  by (simp_all add: sample_def hint_def)

text \<open>
  \<open>allocateCluster\<close> on a file extends its chain by the first free cluster, when the local
  variable \<open>newFile\<close>, which nothing sets in this case, happens to hold 0; every chain that does not
  end in the same cluster stays as it is.
\<close>

lemma allocateCluster_extends:
  assumes len: "length (FAT s) = FAT_SIZE" and c: "c \<noteq> 0" and luck: "junk s 0 = 0" and chain: "is_chain (FAT s) (c # cs)"
    and free: "first_free s = Some i" "2 \<le> i"
  shows "\<exists>s'. allocateCluster c s = Ok (of_nat i, s') \<and> is_chain (FAT s') (c # cs @ [of_nat i]) \<and>
    (\<forall>ds. is_chain (FAT s) ds \<longrightarrow> last (c # cs) \<notin> set ds \<longrightarrow> is_chain (FAT s') ds)"
proof -
  let ?s = "link_cluster (last (c # cs)) i (drop_junk s)"
  have i: "i < FAT_SIZE" "FAT s ! i = 0" using first_free_range [OF free(1)] by auto
  have F: "FAT ?s = (FAT s)[unat (last (c # cs)) := of_nat i, i := 0x0FFFFFFF]"
    by (simp add: link_cluster_def take_cluster_def)
  have "allocateCluster c s = Ok (of_nat i, ?s)" using allocateCluster_linked [OF len c luck chain] free(1) by simp
  moreover have "is_chain (FAT ?s) ((c # cs) @ [of_nat i])"
    unfolding F by (rule is_chain_extend [OF chain _ i(2) free(2)]) (use i len in simp_all)
  moreover have "is_chain (FAT ?s) ds" if "is_chain (FAT s) ds" "last (c # cs) \<notin> set ds" for ds
    unfolding F by (rule is_chain_take_other [OF that(1) i(2) that(2)])
  ultimately show ?thesis by (intro exI [of _ ?s]) simp
qed

text \<open>
  \<open>deleteFATchain\<close> on the first cluster of a chain frees exactly the clusters of the chain.
\<close>

lemma deleteFATchain_frees:
  assumes "is_chain (FAT s) (c # cs)"
  shows "\<exists>s'. deleteFATchain c s = Ok s' \<and> length (FAT s') = length (FAT s) \<and>
    (\<forall>i < length (FAT s). FAT s' ! i = (if i \<in> unat ` set (c # cs) then 0 else FAT s ! i)) \<and>
    (\<forall>ds. is_chain (FAT s) ds \<longrightarrow> set ds \<inter> set (c # cs) = {} \<longrightarrow> is_chain (FAT s') ds)"
proof -
  from delete_chain_clears [OF assms] have "deleteFATchain c s = Ok (s\<lparr>FAT := clear_all (FAT s) (c # cs)\<rparr>)"
    by (simp add: deleteFATchain_def)
  moreover have "is_chain (clear_all (FAT s) (c # cs)) ds" if "is_chain (FAT s) ds" "set ds \<inter> set (c # cs) = {}" for ds
    using is_chain_clear_other [OF that(1)] that(2) by blast
  ultimately show ?thesis
    by (intro exI [of _ "s\<lparr>FAT := clear_all (FAT s) (c # cs)\<rparr>"]) (simp add: nth_clear_all)
qed

text \<open>
  C31: \<open>deleteFATchain\<close> does not return when the links it follows never leave a set of clusters: the
  chain of a table with a cycle, or a free cluster (whose entry 0 leads to entry 0) with a link there.
\<close>

theorem deleteFATchain_cycle:
  fixes S :: "dword set"
  assumes "c \<in> S" and "\<forall>d \<in> S. unat d < length (FAT s) \<and> FAT s ! unat d < 0x0FFFFFF6 \<and> FAT s ! unat d \<in> S"
  shows "deleteFATchain c s = Fault Diverges"
  using delete_chain_no_return [of S "FAT s" c] assms by (simp add: deleteFATchain_def)

theorem deleteFATchain_cycle_witness:
  "deleteFATchain 7 (sample ((replicate FAT_SIZE 0)[7 := 8, 8 := 7])) = Fault Diverges"
  using deleteFATchain_cycle [of 7 "{7, 8}" "sample ((replicate FAT_SIZE 0)[7 := 8, 8 := 7])"] by (simp add: FAT_SIZE_def)

end
