(* ===== verification/Fat32_Path.thy ===== *)
theory Fat32_Path
  imports Fat32_Table
begin

text \<open>
  The path functions of file-system/fat32.c: \<open>extractFilename\<close> and \<open>compareFilename\<close>. A path
  is a NUL-terminated array of bytes; \<open>components\<close> is what it means: the parts between the
  slashes, the first of which is the (empty) part before the leading slash.
\<close>

section \<open>Code\<close>

definition extractFilename :: "byte list \<Rightarrow> byte list \<Rightarrow> nat \<Rightarrow> (int \<times> byte list) res" where
  "extractFilename path name searchPos =
     bind (for_each [0..<11] (\<lambda>i name. bind (aput name i 32) (\<lambda>name. Ok (Inl name))) name) (\<lambda>r.
     let name = (case r of Inl b \<Rightarrow> b | Inr b \<Rightarrow> b) in
     bind (loop (\<lambda>(path_it, slashes).
         if slashes < searchPos then
           bind (aget path path_it) (\<lambda>c.
             Ok (if c = 0 then Inr None
                 else Inl (path_it + 1, if c = 47 then slashes + 1 else slashes)))
         else Ok (Inr (Some path_it))) (0, 0)) (\<lambda>it.
     case it of
       None \<Rightarrow> Ok (-1, name)
     | Some path_it \<Rightarrow>
         bind (loop (\<lambda>(path_it, i, name).
             bind (aget path path_it) (\<lambda>c.
             if c \<noteq> 47 \<and> c \<noteq> 0 \<and> i < 11
             then bind (aput name i c) (\<lambda>name. Ok (Inl (path_it + 1, i + 1, name)))
             else Ok (Inr name))) (path_it, 0, name)) (\<lambda>name. Ok (0, name))))"

definition compareFilename :: "byte list \<Rightarrow> byte list \<Rightarrow> int res" where
  "compareFilename path1 path2 =
     bind (for_each [0..<11] (\<lambda>i _.
         bind (aget path1 i) (\<lambda>a. bind (aget path2 i) (\<lambda>b. Ok (if a \<noteq> b then Inr 0 else Inl ())))) ()) (\<lambda>r.
     Ok (case r of Inr v \<Rightarrow> v | Inl _ \<Rightarrow> 1))"

section \<open>Comparing\<close>

lemma compare_rounds:
  "length a = 11 \<Longrightarrow> length b = 11 \<Longrightarrow> n \<le> 11 \<Longrightarrow>
   for_each [0..<n] (\<lambda>i _. bind (aget a i) (\<lambda>x. bind (aget b i) (\<lambda>y. Ok (if x \<noteq> y then Inr (0 :: int) else Inl ())))) ()
     = Ok (if take n a = take n b then Inl () else Inr 0)"
  by (induction n) (auto simp: for_each_append take_Suc_conv_app_nth)

lemma compareFilename_names [safe]:
  "length a = 11 \<Longrightarrow> length b = 11 \<Longrightarrow> compareFilename a b = Ok (of_bool (a = b))"
  using compare_rounds [of a b 11] by (simp add: compareFilename_def)

section \<open>Components of a path\<close>

fun components :: "byte list \<Rightarrow> byte list list" where
  "components [] = [[]]"
| "components (c # cs) = (if c = 47 then [] # components cs
     else (case components cs of [] \<Rightarrow> [[c]] | d # ds \<Rightarrow> (c # d) # ds))"

definition padded :: "byte list \<Rightarrow> byte list" where
  "padded n = take 11 n @ replicate (11 - length n) 32"

lemma length_padded [simp]: "length (padded n) = 11"
  by (simp add: padded_def)

lemma components_not_Nil [simp]: "components s \<noteq> []"
  by (induction s) (auto split: list.splits)

lemma hd_components: "hd (components s) = takeWhile (\<lambda>c. c \<noteq> 47) s"
proof (induction s)
  case (Cons c s)
  then show ?case by (cases "components s") auto
qed simp

text \<open>What is left of a path after its \<open>n\<close>-th slash.\<close>

fun after_slashes :: "nat \<Rightarrow> byte list \<Rightarrow> byte list option" where
  "after_slashes 0 s = Some s"
| "after_slashes (Suc n) [] = None"
| "after_slashes (Suc n) (c # s) = (if c = 47 then after_slashes n s else after_slashes (Suc n) s)"

lemma after_slashes_components:
  "after_slashes n s = (if n < length (components s) then Some t else None) \<longrightarrow> n < length (components s) \<longrightarrow>
    takeWhile (\<lambda>c. c \<noteq> 47) t = components s ! n"
proof (induction n s rule: after_slashes.induct)
  case (1 s)
  then show ?case by (cases "components s") (auto simp: hd_components [symmetric])
next
  case (3 n c s)
  then show ?case by (cases "components s") (auto split: if_splits)
qed simp

lemma after_slashes_None: "after_slashes n s = None \<longleftrightarrow> length (components s) \<le> n"
proof (induction n s rule: after_slashes.induct)
  case (3 n c s)
  then show ?case by (cases "components s") auto
qed auto

lemma after_slashes_Some: "after_slashes n s = Some t \<Longrightarrow> takeWhile (\<lambda>c. c \<noteq> 47) t = components s ! n"
  using after_slashes_components [of n s t] after_slashes_None [of n s] by (cases "n < length (components s)") auto

section \<open>Extracting\<close>

lemma skip_slashes:
  assumes "path = pre @ s @ 0 # behind" and "0 \<notin> set s"
  shows "loop (\<lambda>(path_it, slashes).
         if slashes < searchPos then
           bind (aget path path_it) (\<lambda>c.
             Ok (if c = 0 then Inr None
                 else Inl (path_it + 1, if c = 47 then slashes + 1 else slashes)))
         else Ok (Inr (Some path_it))) (length pre, k)
    = Ok (map_option (\<lambda>t. length pre + length s - length t) (after_slashes (searchPos - k) s))"
  using assms
proof (induction s arbitrary: pre k)
  case Nil
  then show ?case by (cases "searchPos - k") (auto intro!: loop_stop simp: nth_append)
next
  case (Cons c s)
  show ?case
  proof (cases "k < searchPos")
    case False
    then show ?thesis by (auto intro!: loop_stop)
  next
    case True
    then obtain m where m: "searchPos - k = Suc m" "searchPos - Suc k = m" by (metis Suc_diff_Suc)
    have t: "length t \<le> length s" if "after_slashes n s = Some t" for n t
      using that by (induction n s rule: after_slashes.induct) (auto split: if_splits)
    from Cons.prems have eq: "path = (pre @ [c]) @ s @ 0 # behind" and c: "c \<noteq> 0" "0 \<notin> set s" "path ! length pre = c" "length pre < length path" by auto
    from True show ?thesis
      using Cons.IH [OF eq c(2), of "if c = 47 then Suc k else k"] m c
      by (subst loop_step [where s' = "(length (pre @ [c]), if c = 47 then Suc k else k)"]) (auto simp: nth_append)
  qed
qed

lemma after_slashes_suffix: "after_slashes n s = Some t \<Longrightarrow> s = take (length s - length t) s @ t \<and> length t \<le> length s"
proof (induction n s rule: after_slashes.induct)
  case (3 n c s)
  then show ?case by (auto split: if_splits simp: Suc_diff_le)
qed auto

lemma copy_component:
  assumes "path = pre @ t @ 0 # behind" and "0 \<notin> set t" and "length done + length rest = 11" 
  shows "loop (\<lambda>(path_it, i, name).
             bind (aget path path_it) (\<lambda>c.
             if c \<noteq> 47 \<and> c \<noteq> 0 \<and> i < 11
             then bind (aput name i c) (\<lambda>name. Ok (Inl (path_it + 1, i + 1, name)))
             else Ok (Inr name))) (length pre, length done, done @ rest)
    = Ok (done @ take (length rest) (takeWhile (\<lambda>c. c \<noteq> 47) t) @ drop (length (takeWhile (\<lambda>c. c \<noteq> 47) t)) rest)"
  using assms
proof (induction t arbitrary: pre "done" rest)
  case Nil
  then show ?case by (auto intro!: loop_stop simp: nth_append)
next
  case (Cons c t)
  show ?case
  proof (cases "c = 47 \<or> rest = []")
    case True
    with Cons.prems show ?thesis by (auto intro!: loop_stop simp: nth_append)
  next
    case False
    then obtain r rs where rest: "rest = r # rs" by (cases rest) auto
    from Cons.prems have eq: "path = (pre @ [c]) @ t @ 0 # behind" and c: "c \<noteq> 0" "0 \<notin> set t" "path ! length pre = c" "length pre < length path" by auto
    from False Cons.prems(3) rest show ?thesis
      using Cons.IH [OF eq c(2), of "done @ [c]" rs] c
      by (subst loop_step [where s' = "(length (pre @ [c]), length (done @ [c]), (done @ [c]) @ rs)"])
        (auto simp: nth_append)
  qed
qed

lemma blank_rounds:
  "length name = 11 \<Longrightarrow> n \<le> 11 \<Longrightarrow>
   for_each [0..<n] (\<lambda>i name. bind (aput name i 32) (\<lambda>name. Ok (Inl name))) name
     = Ok (Inl (replicate n 32 @ drop n name))"
proof (induction n)
  case (Suc n)
  then have "drop n name = name ! n # drop (Suc n) name" by (simp add: Cons_nth_drop_Suc)
  with Suc show ?case by (simp add: for_each_append list_update_append replicate_append_same)
qed simp

text \<open>
  \<open>extractFilename\<close> returns the path component number \<open>n\<close>, cut off or padded with blanks to
  eleven characters, and -1 with a blank name when the path has no such component. It looks at
  nothing behind the end of the string.
\<close>

lemma extractFilename_string:
  assumes "0 \<notin> set p" and "length name = 11"
  shows "extractFilename (p @ 0 # behind) name n =
    Ok (if n < length (components p) then (0, padded (components p ! n)) else (-1, replicate 11 32))"
proof -
  have blank: "for_each [0..<11] (\<lambda>i name. bind (aput name i 32) (\<lambda>name. Ok (Inl name))) name
      = (Ok (Inl (replicate 11 32)) :: (byte list + byte list) res)"
    using blank_rounds [OF assms(2), of 11] assms(2) by simp
  show ?thesis
  proof (cases "after_slashes n p")
    case None
    then have "\<not> n < length (components p)" by (simp add: after_slashes_None not_less)
    with None show ?thesis
      unfolding extractFilename_def blank bind.simps Let_def
      using skip_slashes [of "p @ 0 # behind" "[]" p behind n 0] assms(1) by simp
  next
    case (Some t)
    then have n: "n < length (components p)" using after_slashes_None [of n p] by (simp add: not_le)
    from after_slashes_suffix [OF Some] obtain pre where p: "p = pre @ t" by metis
    with assms(1) have t0: "0 \<notin> set t" by simp
    have "extractFilename (p @ 0 # behind) name n = Ok (0, padded (takeWhile (\<lambda>c. c \<noteq> 47) t))"
      unfolding extractFilename_def blank bind.simps Let_def
      using skip_slashes [of "p @ 0 # behind" "[]" p behind n 0] assms(1) Some
        copy_component [of "p @ 0 # behind" pre t behind "[]" "replicate 11 32"] t0 p
      by (simp add: padded_def)
    with n after_slashes_Some [OF Some] show ?thesis by simp
  qed
qed

lemma extractFilename_component [safe]:
  "0 \<notin> set p \<Longrightarrow> length name = 11 \<Longrightarrow> extractFilename (p @ [0]) name n =
    Ok (if n < length (components p) then (0, padded (components p ! n)) else (-1, replicate 11 32))"
  by (rule extractFilename_string)

end
