(* ===== verification/Fat32_Search.thy ===== *)
theory Fat32_Search
  imports Fat32_Path
begin

text \<open>
  Looking a path up (\<open>recursiveSearch\<close> and \<open>searchFile\<close> of file-system/fat32.c), and what it
  computes on a well-formed volume: a directory is the list of the entries in the sectors of
  its cluster chain, and a path is resolved by looking up one name after the other.

  Both recursive calls of \<open>recursiveSearch\<close> are its last action, so the recursion is a loop
  over the cluster and the position in the path; the depth of the C stack is not modelled.
\<close>

section \<open>Code\<close>

datatype outcome = Return dword | Recurse dword

text \<open>\<open>for (int i=0; i<bytesPerSector; i+=32)\<close>\<close>

definition slots :: "nat \<Rightarrow> nat list" where
  "slots n = map (\<lambda>k. 32 * k) [0..<(n + 31) div 32]"

definition search_slot :: "byte list \<Rightarrow> byte list \<Rightarrow> nat \<Rightarrow> unit \<Rightarrow> (unit + outcome) res" where
  "search_slot name sector i _ =
     bind (getDirectoryEntry sector blank_entry (int i)) (\<lambda>entry.
     if filename entry ! 0 = 0x00 then Ok (Inr (Return 0xFFFFFFFF))
     else if filename entry ! 0 = 0x2E then Ok (Inl ())
     else if filename entry ! 0 = 0xE5 then Ok (Inl ())
     else if attributes entry = 0x0F then Ok (Inl ())
     else if attributes entry = 0x10 then
       bind (compareFilename name (filename entry)) (\<lambda>r.
       Ok (if r \<noteq> 0 then Inr (Recurse (entry_cluster entry)) else Inl ()))
     else
       bind (compareFilename name (filename entry)) (\<lambda>r.
       Ok (if r \<noteq> 0 then Inr (Return (entry_cluster entry)) else Inl ())))"

definition search_cluster ::
  "'d blockdev \<Rightarrow> byte list \<Rightarrow> dword \<Rightarrow> 'd fs \<Rightarrow> ((byte list option \<times> 'd fs) + (outcome \<times> 'd fs)) res" where
  "search_cluster dev name cluster s =
     for_each [0..<spc s] (\<lambda>sectorNum (bo, s).
       bind (read_buf dev (bps s) bo (getDiskSector s cluster (int sectorNum)) s) (\<lambda>(sector, s).
       bind (for_each (slots (bps s)) (search_slot name sector) ()) (\<lambda>r.
       Ok (case r of Inl _ \<Rightarrow> Inl (Some sector, s) | Inr x \<Rightarrow> Inr (x, s))))) (None, s)"

definition recursiveSearch :: "'d blockdev \<Rightarrow> byte list \<Rightarrow> dword \<Rightarrow> nat \<Rightarrow> 'd fs \<Rightarrow> (dword \<times> 'd fs) res" where
  "recursiveSearch dev path cluster searchPos s =
     loop (\<lambda>(cluster, searchPos, s).
       bind (extractFilename path (replicate 11 0) searchPos) (\<lambda>(ret, name).
       if ret = -1 then Ok (Inr (cluster, s))
       else bind (search_cluster dev name cluster s) (\<lambda>r.
         case r of
           Inr (Return v, s) \<Rightarrow> Ok (Inr (v, s))
         | Inr (Recurse c, s) \<Rightarrow> Ok (Inl (c, searchPos + 1, s))
         | Inl (_, s) \<Rightarrow>
             if of_nat FAT_SIZE < cluster then Ok (Inr (0xFFFFFFFF, s))
             else bind (aget (FAT s) (unat cluster)) (\<lambda>v.
               Ok (if 0x0FFFFFF7 < v then Inr (0xFFFFFFFF, s) else Inl (v, searchPos, s))))))
       (cluster, searchPos, s)"

definition searchFile :: "'d blockdev \<Rightarrow> byte list \<Rightarrow> 'd fs \<Rightarrow> (int \<times> 'd fs) res" where
  "searchFile dev path s =
     bind (recursiveSearch dev path (rootClusterNum (extendedBootRecord s)) 1 s) (\<lambda>(ret, s).
     Ok (if ret = 0xFFFFFFFF then 0 else sint ret, s))"

text \<open>A path in a larger array is the path: nothing behind its end is looked at.\<close>

lemma searchFile_array:
  assumes "0 \<notin> set p"
  shows "searchFile dev (p @ 0 # behind) s = searchFile dev (p @ [0]) s"
  by (simp add: searchFile_def recursiveSearch_def extractFilename_string [OF assms])

section \<open>Directories\<close>

text \<open>The geometry the code supports: sectors of 512 bytes.\<close>

definition sector_entries :: "byte list \<Rightarrow> DirectoryEntry list" where
  "sector_entries b = map (\<lambda>k. decode_entry b (32 * k) blank_entry) [0..<16]"

definition cluster_sectors :: "'d fs \<Rightarrow> dword \<Rightarrow> nat list" where
  "cluster_sectors s c = map (\<lambda>j. unat (getDiskSector s c (int j))) [0..<spc s]"

definition cluster_entries :: "(nat \<Rightarrow> byte list) \<Rightarrow> 'd fs \<Rightarrow> dword \<Rightarrow> DirectoryEntry list" where
  "cluster_entries C s c = concat (map (\<lambda>n. sector_entries (C n)) (cluster_sectors s c))"

definition dir_entries :: "(nat \<Rightarrow> byte list) \<Rightarrow> 'd fs \<Rightarrow> dword list \<Rightarrow> DirectoryEntry list" where
  "dir_entries C s cs = concat (map (cluster_entries C s) cs)"

text \<open>The first entry that decides the search of a name; \<open>None\<close>: the search goes on behind the list.\<close>

definition skipped :: "DirectoryEntry \<Rightarrow> bool" where
  "skipped e \<longleftrightarrow> filename e ! 0 = 0x2E \<or> filename e ! 0 = 0xE5 \<or> attributes e = 0x0F"

fun scan :: "byte list \<Rightarrow> DirectoryEntry list \<Rightarrow> outcome option" where
  "scan name [] = None"
| "scan name (e # es) =
     (if filename e ! 0 = 0x00 then Some (Return 0xFFFFFFFF)
      else if \<not> skipped e \<and> filename e = name
      then Some (if attributes e = 0x10 then Recurse (entry_cluster e) else Return (entry_cluster e))
      else scan name es)"

lemma scan_append: "scan name (xs @ ys) = (case scan name xs of None \<Rightarrow> scan name ys | Some r \<Rightarrow> Some r)"
  by (induction xs) auto

text \<open>Resolving a path, as the meaning of the search.\<close>

inductive resolves :: "(nat \<Rightarrow> byte list) \<Rightarrow> nat \<Rightarrow> 'd fs \<Rightarrow> dword \<Rightarrow> byte list list \<Rightarrow> dword \<Rightarrow> bool"
  for C :: "nat \<Rightarrow> byte list" and nb :: nat and s :: "'d fs" where
  here: "resolves C nb s c [] c"
| missing: "is_chain (FAT s) (c # cs) \<Longrightarrow> \<forall>d \<in> set (c # cs). \<forall>n \<in> set (cluster_sectors s d). n < nb \<Longrightarrow>
     scan (padded n) (dir_entries C s (c # cs)) = None \<Longrightarrow> resolves C nb s c (n # ns) 0xFFFFFFFF"
| found: "is_chain (FAT s) (c # cs) \<Longrightarrow> \<forall>d \<in> set (c # cs). \<forall>n \<in> set (cluster_sectors s d). n < nb \<Longrightarrow>
     scan (padded n) (dir_entries C s (c # cs)) = Some (Return v) \<Longrightarrow> resolves C nb s c (n # ns) v"
| below: "is_chain (FAT s) (c # cs) \<Longrightarrow> \<forall>d \<in> set (c # cs). \<forall>n \<in> set (cluster_sectors s d). n < nb \<Longrightarrow>
     scan (padded n) (dir_entries C s (c # cs)) = Some (Recurse d) \<Longrightarrow> resolves C nb s d ns v \<Longrightarrow>
     resolves C nb s c (n # ns) v"

section \<open>Searching a sector\<close>

lemma slots_512 [simp]: "slots 512 = map (\<lambda>k. 32 * k) [0..<16]"
  by (simp add: slots_def)

lemma length_blank_filename [simp]: "length (filename blank_entry) = 11"
  by (simp add: blank_entry_def)

lemma length_decoded_filename [simp]:
  "k + 11 \<le> length b \<Longrightarrow> length (filename (decode_entry b k e)) = 11"
  by (simp add: decode_entry_def)

lemma search_slot_entry:
  assumes "length sector = 512" and "length name = 11" and "k < 16"
  shows "search_slot name sector (32 * k) u =
    Ok (case scan name [decode_entry sector (32 * k) blank_entry] of None \<Rightarrow> Inl () | Some r \<Rightarrow> Inr r)"
proof -
  let ?e = "decode_entry sector (32 * k) blank_entry"
  have "getDirectoryEntry sector blank_entry (int (32 * k)) = Ok ?e"
    using assms by (intro getDirectoryEntry_slot) simp_all
  moreover have "length (filename ?e) = 11" using assms by (intro length_decoded_filename) simp
  ultimately show ?thesis
    using assms(2) by (auto simp: search_slot_def skipped_def compareFilename_names simp del: of_nat_mult)
qed

lemma search_sector:
  assumes "length sector = 512" and "length name = 11"
  shows "for_each (slots 512) (search_slot name sector) () =
    Ok (case scan name (sector_entries sector) of None \<Rightarrow> Inl () | Some r \<Rightarrow> Inr r)"
proof -
  have "for_each [0..<k] (\<lambda>i. search_slot name sector (32 * i)) () =
      Ok (case scan name (map (\<lambda>k. decode_entry sector (32 * k) blank_entry) [0..<k]) of None \<Rightarrow> Inl () | Some r \<Rightarrow> Inr r)"
    if "k \<le> 16" for k
    using that
  proof (induction k)
    case (Suc k)
    with assms show ?case
      by (auto simp: for_each_append scan_append search_slot_entry split: option.splits if_splits)
  qed simp
  from this [of 16] show ?thesis by (simp only: slots_512 for_each_map sector_entries_def order_refl)
qed

section \<open>Searching a directory\<close>

lemma recursiveSearch_step:
  assumes "0 \<notin> set p" and "pos < length (components p)"
  shows "recursiveSearch dev (p @ [0]) c pos s =
    bind (search_cluster dev (padded (components p ! pos)) c s) (\<lambda>r.
      case r of
        Inr (Return v, s) \<Rightarrow> Ok (v, s)
      | Inr (Recurse c, s) \<Rightarrow> recursiveSearch dev (p @ [0]) c (pos + 1) s
      | Inl (_, s) \<Rightarrow>
          if of_nat FAT_SIZE < c then Ok (0xFFFFFFFF, s)
          else bind (aget (FAT s) (unat c)) (\<lambda>v.
            if 0x0FFFFFF7 < v then Ok (0xFFFFFFFF, s) else recursiveSearch dev (p @ [0]) v pos s))"
proof -
  have e: "extractFilename (p @ [0]) (replicate 11 0) pos = Ok (0, padded (components p ! pos))"
    using assms extractFilename_component [of p "replicate 11 0" pos] by simp
  show ?thesis
    unfolding recursiveSearch_def
    by (subst loop_unfold, cases "search_cluster dev (padded (components p ! pos)) c s")
      (auto simp: e bind_assoc intro!: bind_cong split: sum.splits outcome.splits)
qed

lemma recursiveSearch_end:
  assumes "0 \<notin> set p" and "length (components p) \<le> pos"
  shows "recursiveSearch dev (p @ [0]) c pos s = Ok (c, s)"
  using assms extractFilename_component [of p "replicate 11 0" pos]
  unfolding recursiveSearch_def by (intro loop_stop) simp

lemma getDiskSector_device [simp]: "getDiskSector (s\<lparr>device := d\<rparr>) = getDiskSector s"
  by (rule ext)+ (simp add: getDiskSector_def)

lemma cluster_sectors_device [simp]: "cluster_sectors (s\<lparr>device := d\<rparr>) = cluster_sectors s"
  by (rule ext) (simp add: cluster_sectors_def)

lemma cluster_entries_device [simp]: "cluster_entries C (s\<lparr>device := d\<rparr>) = cluster_entries C s"
  by (rule ext) (simp add: cluster_entries_def)

lemma dir_entries_device [simp]: "dir_entries C (s\<lparr>device := d\<rparr>) = dir_entries C s"
  by (rule ext) (simp add: dir_entries_def)

definition readable :: "nat \<Rightarrow> 'd fs \<Rightarrow> dword \<Rightarrow> bool" where
  "readable nb s c \<longleftrightarrow> (\<forall>n \<in> set (cluster_sectors s c). n < nb)"

lemma readable_device [simp]: "readable nb (s\<lparr>device := d\<rparr>) = readable nb s"
  by (rule ext) (simp add: readable_def)

context block_device begin

lemma search_cluster_sectors:
  assumes "ok (device s)" and "bps s = 512" and "length name = 11" and "readable nblocks s c"
  shows "k \<le> spc s \<Longrightarrow> \<exists>d bo. for_each [0..<k] (\<lambda>sectorNum (bo, s).
       bind (read_buf dev (bps s) bo (getDiskSector s c (int sectorNum)) s) (\<lambda>(sector, s).
       bind (for_each (slots (bps s)) (search_slot name sector) ()) (\<lambda>r.
       Ok (case r of Inl _ \<Rightarrow> Inl (Some sector, s) | Inr x \<Rightarrow> Inr (x, s))))) (None, s)
     = Ok (case scan name (concat (map (\<lambda>j. sector_entries (contents (device s) (unat (getDiskSector s c (int j))))) [0..<k])) of
         None \<Rightarrow> Inl (bo, s\<lparr>device := d\<rparr>) | Some r \<Rightarrow> Inr (r, s\<lparr>device := d\<rparr>))
     \<and> ok d \<and> contents d = contents (device s) \<and> (bo = None \<or> (\<exists>b. bo = Some b \<and> length b = 512))"
proof (induction k)
  case 0
  show ?case using assms(1) by (auto intro!: exI [of _ "device s"])
next
  case (Suc k)
  then obtain d bo where IH: "for_each [0..<k] (\<lambda>sectorNum (bo, s).
       bind (read_buf dev (bps s) bo (getDiskSector s c (int sectorNum)) s) (\<lambda>(sector, s).
       bind (for_each (slots (bps s)) (search_slot name sector) ()) (\<lambda>r.
       Ok (case r of Inl _ \<Rightarrow> Inl (Some sector, s) | Inr x \<Rightarrow> Inr (x, s))))) (None, s)
     = Ok (case scan name (concat (map (\<lambda>j. sector_entries (contents (device s) (unat (getDiskSector s c (int j))))) [0..<k])) of
         None \<Rightarrow> Inl (bo, s\<lparr>device := d\<rparr>) | Some r \<Rightarrow> Inr (r, s\<lparr>device := d\<rparr>))"
    and d: "ok d" "contents d = contents (device s)" and bo: "bo = None \<or> (\<exists>b. bo = Some b \<and> length b = 512)"
    by auto
  let ?n = "getDiskSector s c (int k)"
  have "unat ?n < nblocks" using assms(4) Suc.prems by (auto simp: readable_def cluster_sectors_def)
  with read_buf_block [of "s\<lparr>device := d\<rparr>" ?n bo] d bo obtain d' where
    r: "read_buf dev 512 bo ?n (s\<lparr>device := d\<rparr>) = Ok (contents (device s) (unat ?n), s\<lparr>device := d'\<rparr>)"
      "ok d'" "contents d' = contents (device s)" by auto
  have len: "length (contents (device s) (unat ?n)) = 512" using length_contents assms(1) by blast
  show ?case
  proof (cases "scan name (concat (map (\<lambda>j. sector_entries (contents (device s) (unat (getDiskSector s c (int j))))) [0..<k]))")
    case (Some x)
    then show ?thesis using IH d bo by (intro exI [of _ d] exI [of _ bo]) (simp add: for_each_append scan_append)
  next
    case None
    then show ?thesis using IH r len assms(2) search_sector [OF len assms(3)]
      by (intro exI [of _ d'] exI [of _ "Some (contents (device s) (unat ?n))"])
        (simp add: for_each_append scan_append split: option.splits)
  qed
qed

lemma search_cluster_scans:
  assumes "ok (device s)" and "bps s = 512" and "length name = 11" and "readable nblocks s c"
  shows "\<exists>d bo. search_cluster dev name c s =
    Ok (case scan name (cluster_entries (contents (device s)) s c) of
         None \<Rightarrow> Inl (bo, s\<lparr>device := d\<rparr>) | Some r \<Rightarrow> Inr (r, s\<lparr>device := d\<rparr>))
     \<and> ok d \<and> contents d = contents (device s)"
  using search_cluster_sectors [OF assms, of "spc s"]
  unfolding search_cluster_def cluster_entries_def cluster_sectors_def by (auto simp: comp_def)

lemma recursiveSearch_chain:
  assumes "0 \<notin> set p" and "pos < length (components p)" and "length (FAT s) = FAT_SIZE" and "bps s = 512"
  shows "is_chain (FAT s) (c # cs) \<Longrightarrow> ok (device s) \<Longrightarrow> \<forall>d \<in> set (c # cs). readable nblocks s d \<Longrightarrow>
    \<exists>d. ok d \<and> contents d = contents (device s) \<and>
      recursiveSearch dev (p @ [0]) c pos s =
        (case scan (padded (components p ! pos)) (dir_entries (contents (device s)) s (c # cs)) of
           None \<Rightarrow> Ok (0xFFFFFFFF, s\<lparr>device := d\<rparr>)
         | Some (Return v) \<Rightarrow> Ok (v, s\<lparr>device := d\<rparr>)
         | Some (Recurse c') \<Rightarrow> recursiveSearch dev (p @ [0]) c' (pos + 1) (s\<lparr>device := d\<rparr>))"
  using assms(3,4)
proof (induction cs arbitrary: c s)
  case Nil
  note chain = Nil.prems(1)
  from chain have c: "unat c < length (FAT s)" "0x0FFFFFF8 \<le> FAT s ! unat c" by simp_all
  then have end_mark: "0x0FFFFFF7 < FAT s ! unat c" by (simp add: word_less_nat_alt word_le_nat_alt)
  from search_cluster_scans [of s "padded (components p ! pos)" c] Nil.prems obtain d bo where
    r: "search_cluster dev (padded (components p ! pos)) c s =
      Ok (case scan (padded (components p ! pos)) (cluster_entries (contents (device s)) s c) of
         None \<Rightarrow> Inl (bo, s\<lparr>device := d\<rparr>) | Some r \<Rightarrow> Inr (r, s\<lparr>device := d\<rparr>))"
    and d: "ok d" "contents d = contents (device s)" by auto
  with c end_mark assms(1,2) show ?case
    by (intro exI [of _ d]) (simp add: recursiveSearch_step dir_entries_def split: option.splits outcome.splits)
next
  case (Cons e cs)
  note chain = Cons.prems(1)
  let ?n = "padded (components p ! pos)"
  from chain have c: "unat c < length (FAT s)" "FAT s ! unat c = e" "e < 0x0FFFFFF6" "is_chain (FAT s) (e # cs)" by simp_all
  then have link: "\<not> 0x0FFFFFF7 < e" and range: "\<not> of_nat FAT_SIZE < c"
    using Cons.prems(4) by (auto simp: word_less_nat_alt FAT_SIZE_def)
  from search_cluster_scans [of s ?n c] Cons.prems obtain d bo where
    r: "search_cluster dev ?n c s =
      Ok (case scan ?n (cluster_entries (contents (device s)) s c) of
         None \<Rightarrow> Inl (bo, s\<lparr>device := d\<rparr>) | Some r \<Rightarrow> Inr (r, s\<lparr>device := d\<rparr>))"
    and d: "ok d" "contents d = contents (device s)" by auto
  show ?case
  proof (cases "scan ?n (cluster_entries (contents (device s)) s c)")
    case None
    have twice: "s\<lparr>device := d, device := d'\<rparr> = s\<lparr>device := d'\<rparr>" for d' by simp
    from Cons.IH [of "s\<lparr>device := d\<rparr>" e, unfolded twice] c Cons.prems d obtain d' where "ok d'" "contents d' = contents (device s)"
      "recursiveSearch dev (p @ [0]) e pos (s\<lparr>device := d\<rparr>) =
        (case scan ?n (dir_entries (contents (device s)) s (e # cs)) of
           None \<Rightarrow> Ok (0xFFFFFFFF, s\<lparr>device := d'\<rparr>)
         | Some (Return v) \<Rightarrow> Ok (v, s\<lparr>device := d'\<rparr>)
         | Some (Recurse c') \<Rightarrow> recursiveSearch dev (p @ [0]) c' (pos + 1) (s\<lparr>device := d'\<rparr>))"
      by (auto simp: readable_device)
    with None r c link range assms(1,2) show ?thesis
      by (intro exI [of _ d']) (simp add: recursiveSearch_step dir_entries_def scan_append)
  next
    case (Some x)
    with r d c link range assms(1,2) show ?thesis
      by (intro exI [of _ d]) (simp add: recursiveSearch_step dir_entries_def scan_append split: outcome.splits)
  qed
qed

lemma recursiveSearch_resolves:
  assumes "resolves (contents (device s)) nblocks s c ns v" and "ok (device s)" and "0 \<notin> set p"
    and "pos \<le> length (components p)" and "ns = drop pos (components p)"
    and "length (FAT s) = FAT_SIZE" and "bps s = 512"
  shows "\<exists>d. recursiveSearch dev (p @ [0]) c pos s = Ok (v, s\<lparr>device := d\<rparr>) \<and> ok d \<and> contents d = contents (device s)"
  using assms
proof -
  have "\<exists>d'. recursiveSearch dev (p @ [0]) c pos (s\<lparr>device := d\<rparr>) = Ok (v, s\<lparr>device := d'\<rparr>) \<and> ok d' \<and> contents d' = contents (device s)"
    if "ok d" "contents d = contents (device s)" "pos \<le> length (components p)" "ns = drop pos (components p)" for d
    using assms(1) that
  proof (induction arbitrary: pos d rule: resolves.induct)
    case (here c)
    with assms(3) show ?case by (intro exI [of _ d]) (simp add: recursiveSearch_end)
  next
    case (missing c cs n ns)
    then have pos: "pos < length (components p)" "components p ! pos = n"
      by (metis drop_all leI list.distinct(1), metis hd_drop_conv_nth drop_all leI list.distinct(1) list.sel(1))
    from recursiveSearch_chain [OF assms(3) pos(1), of "s\<lparr>device := d\<rparr>" c cs] missing assms(6,7) pos show ?case
      by (auto simp: readable_def)
  next
    case (found c cs n v ns)
    then have pos: "pos < length (components p)" "components p ! pos = n"
      by (metis drop_all leI list.distinct(1), metis hd_drop_conv_nth drop_all leI list.distinct(1) list.sel(1))
    from recursiveSearch_chain [OF assms(3) pos(1), of "s\<lparr>device := d\<rparr>" c cs] found assms(6,7) pos show ?case
      by (auto simp: readable_def)
  next
    case (below c cs n e ns v)
    then have pos: "pos < length (components p)" "components p ! pos = n"
      by (metis drop_all leI list.distinct(1), metis hd_drop_conv_nth drop_all leI list.distinct(1) list.sel(1))
    from recursiveSearch_chain [OF assms(3) pos(1), of "s\<lparr>device := d\<rparr>" c cs] below.hyps below.prems assms(6,7) pos
    obtain d' where d': "ok d'" "contents d' = contents (device s)"
      "recursiveSearch dev (p @ [0]) c pos (s\<lparr>device := d\<rparr>) = recursiveSearch dev (p @ [0]) e (pos + 1) (s\<lparr>device := d'\<rparr>)"
      by (auto simp: readable_def)
    have "ns = drop (pos + 1) (components p)" using below.prems(4) pos by (metis Cons_nth_drop_Suc Suc_eq_plus1 list.inject)
    with below.IH [OF d'(1,2)] pos d'(3) show ?case by simp
  qed
  from this [of "device s"] assms show ?thesis by simp
qed

end
end
