(* ===== verification/Fat32_Dir.thy ===== *)
theory Fat32_Dir
  imports Fat32_Search
begin

text \<open>
  Creating and deleting directory entries (\<open>createFile\<close> and \<open>deleteFile\<close> of
  file-system/fat32.c). Both walk over the entries of the directory that \<open>searchFile\<close> finds,
  sector by sector of each cluster of its chain; \<open>walk_directory\<close> is this walk, with the body
  of the innermost loop as its argument.
\<close>

section \<open>The walk\<close>

type_synonym 'd visitor =
  "dword \<Rightarrow> nat \<Rightarrow> dword \<Rightarrow> nat \<Rightarrow> byte list \<times> 'd fs \<Rightarrow> ((byte list \<times> 'd fs) + (int \<times> 'd fs)) res"

definition walk_sector ::
  "'d blockdev \<Rightarrow> 'd visitor \<Rightarrow> dword \<Rightarrow> nat \<Rightarrow> byte list option \<times> 'd fs
    \<Rightarrow> ((byte list option \<times> 'd fs) + (int \<times> 'd fs)) res" where
  "walk_sector dev visit dirCluster sectorNum = (\<lambda>(bo, s).
     let disk_sector = getDiskSector s dirCluster (int sectorNum) in
     bind (read_buf dev 512 bo disk_sector s) (\<lambda>(sector, s).
     bind (for_each (slots (bps s)) (visit dirCluster sectorNum disk_sector) (sector, s)) (\<lambda>r.
     Ok (case r of Inl (sector, s) \<Rightarrow> Inl (Some sector, s) | Inr x \<Rightarrow> Inr x))))"

definition walk_cluster ::
  "'d blockdev \<Rightarrow> 'd visitor \<Rightarrow> int \<Rightarrow> dword \<times> byte list option \<times> 'd fs
    \<Rightarrow> ((dword \<times> byte list option \<times> 'd fs) + (int \<times> 'd fs)) res" where
  "walk_cluster dev visit final = (\<lambda>(dirCluster, bo, s).
     if dirCluster < 0x0FFFFFF7 then
       bind (for_each [0..<spc s] (walk_sector dev visit dirCluster) (bo, s)) (\<lambda>r.
       case r of
         Inr x \<Rightarrow> Ok (Inr x)
       | Inl (bo, s) \<Rightarrow> bind (aget (FAT s) (unat dirCluster)) (\<lambda>v. Ok (Inl (v, bo, s))))
     else Ok (Inr (final, s)))"

definition walk_directory :: "'d blockdev \<Rightarrow> 'd visitor \<Rightarrow> int \<Rightarrow> dword \<Rightarrow> 'd fs \<Rightarrow> (int \<times> 'd fs) res" where
  "walk_directory dev visit final dirCluster s = loop (walk_cluster dev visit final) (dirCluster, None, s)"

section \<open>Creating\<close>

text \<open>The entry of a new file; \<open>char\<close> is signed, so a byte from 0x80 on is less than 0x20.\<close>

definition new_entry :: "byte list \<Rightarrow> byte \<Rightarrow> dword \<Rightarrow> DirectoryEntry \<Rightarrow> DirectoryEntry res" where
  "new_entry name attr newCluster entry =
     bind (for_each [0..<11] (\<lambda>i nm. bind (aget name i) (\<lambda>c.
        bind (aput nm i (if sint c < 0x20 then 0x20 else c)) (\<lambda>nm. Ok (Inl nm)))) (filename entry)) (\<lambda>r.
     Ok (entry\<lparr>filename := (case r of Inl n \<Rightarrow> n | Inr n \<Rightarrow> n), first_cluster_lo := ucast newCluster,
           first_cluster_hi := ucast (drop_bit 16 newCluster), file_size := 0, attributes := attr\<rparr>))"

definition create_visit :: "'d blockdev \<Rightarrow> byte list \<Rightarrow> byte \<Rightarrow> 'd visitor" where
  "create_visit dev name attr dirCluster sectorNum disk_sector i = (\<lambda>(sector, s).
     bind (getDirectoryEntry sector blank_entry (int i)) (\<lambda>entry.
     if filename entry ! 0 = 0x00 then
       bind (allocateCluster 0 s) (\<lambda>(newCluster, s).
       if newCluster = 0x0FFFFFFF then Ok (Inr (-1, s))
       else bind (aput (FAT s) (unat newCluster) 0x0FFFFFFF) (\<lambda>F.
       bind (copyFATtoDisk dev newCluster (s\<lparr>FAT := F\<rparr>)) (\<lambda>s.
       bind (new_entry name attr newCluster entry) (\<lambda>entry.
       bind (setDirectoryEntry sector entry (int i)) (\<lambda>sector.
       if int i = int (bps s) - 32 then
         bind (write_buf dev sector disk_sector s) (\<lambda>s.
         bind (if int sectorNum = int (spc s) - 1
               then bind (allocateCluster dirCluster s) (\<lambda>(c, s). Ok (getDiskSector s c 0, s))
               else Ok (disk_sector + 1, s)) (\<lambda>(disk_sector, s).
         bind (read_buf dev 512 (Some sector) disk_sector s) (\<lambda>(sector, s).
         bind (aput sector 0 0x00) (\<lambda>sector.
         bind (write_buf dev sector disk_sector s) (\<lambda>s.
         Ok (Inr (sint newCluster, s)))))))
       else
         bind (aput sector (i + 32) 0x00) (\<lambda>sector.
         bind (write_buf dev sector disk_sector s) (\<lambda>s.
         Ok (Inr (sint newCluster, s)))))))))
     else Ok (Inl (sector, s))))"

definition createFile :: "'d blockdev \<Rightarrow> byte list \<Rightarrow> byte list \<Rightarrow> byte \<Rightarrow> 'd fs \<Rightarrow> (int \<times> 'd fs) res" where
  "createFile dev path name attr s =
     bind (searchFile dev path s) (\<lambda>(dirCluster, s).
     walk_directory dev (create_visit dev name attr) (-1) (word_of_int dirCluster) s)"

section \<open>Deleting\<close>

definition delete_visit :: "'d blockdev \<Rightarrow> byte list \<Rightarrow> 'd visitor" where
  "delete_visit dev name dirCluster sectorNum disk_sector i = (\<lambda>(sector, s).
     bind (getDirectoryEntry sector blank_entry (int i)) (\<lambda>entry.
     if filename entry ! 0 = 0x00 then Ok (Inr (-2, s))
     else bind (compareFilename name (filename entry)) (\<lambda>r.
       if r \<noteq> 0 then
         (let fileCluster = entry_cluster entry in
          bind (deleteFATchain fileCluster s) (\<lambda>s.
          bind (copyFATtoDisk dev fileCluster s) (\<lambda>s.
          bind (aput sector i 0xE5) (\<lambda>sector.
          bind (for_each [i + 1..<i + 32] (\<lambda>j sec. bind (aput sec j 0x00) (\<lambda>sec. Ok (Inl sec))) sector) (\<lambda>r.
          let sector = (case r of Inl b \<Rightarrow> b | Inr b \<Rightarrow> b) in
          bind (write_buf dev sector disk_sector s) (\<lambda>s.
          Ok (Inl (sector, s))))))))
       else Ok (Inl (sector, s)))))"

definition deleteFile :: "'d blockdev \<Rightarrow> byte list \<Rightarrow> byte list \<Rightarrow> 'd fs \<Rightarrow> (int \<times> 'd fs) res" where
  "deleteFile dev path name s =
     bind (searchFile dev path s) (\<lambda>(dirCluster, s).
     walk_directory dev (delete_visit dev name) 0 (word_of_int dirCluster) s)"

section \<open>Positions in a directory\<close>

text \<open>
  The entries of a directory are numbered along its chain, 16 to a sector: where entry \<open>p\<close> is.
\<close>

definition entry_dir_cluster :: "'d fs \<Rightarrow> dword list \<Rightarrow> nat \<Rightarrow> dword" where
  "entry_dir_cluster s cs p = cs ! (p div (16 * spc s))"

definition entry_sector_num :: "'d fs \<Rightarrow> nat \<Rightarrow> nat" where
  "entry_sector_num s p = p div 16 mod spc s"

definition entry_sector :: "'d fs \<Rightarrow> dword list \<Rightarrow> nat \<Rightarrow> dword" where
  "entry_sector s cs p = getDiskSector s (entry_dir_cluster s cs p) (int (entry_sector_num s p))"

lemma nth_concat_uniform:
  "\<forall>xs \<in> set xss. length xs = m \<Longrightarrow> p < length xss * m \<Longrightarrow> concat xss ! p = xss ! (p div m) ! (p mod m)"
proof (induction xss arbitrary: p)
  case Nil
  then show ?case by simp
next
  case (Cons xs xss)
  show ?case
  proof (cases "p < m")
    case True
    with Cons.prems show ?thesis by (simp add: nth_append)
  next
    case False
    then obtain q where p: "p = m + q" using le_Suc_ex not_le by blast
    from Cons.prems p have "q < length xss * m" "0 < m" by (auto intro: Nat.gr0I)
    moreover from this have "(m + q) div m = Suc (q div m)" by (simp add: div_add_self1)
    ultimately show ?thesis using Cons p by (simp add: nth_append)
  qed
qed

lemma length_concat_uniform: "\<forall>xs \<in> set xss. length xs = m \<Longrightarrow> length (concat xss) = length xss * m"
  by (induction xss) auto

lemma length_sector_entries [simp]: "length (sector_entries b) = 16"
  by (simp add: sector_entries_def)

lemma length_cluster_entries [simp]: "length (cluster_entries C s c) = 16 * spc s"
  unfolding cluster_entries_def cluster_sectors_def by (subst length_concat_uniform [where m = 16]) auto

lemma length_dir_entries [simp]: "length (dir_entries C s cs) = length cs * (16 * spc s)"
  unfolding dir_entries_def by (subst length_concat_uniform [where m = "16 * spc s"]) auto

lemma nth_dir_entries:
  assumes "p < length cs * (16 * spc s)"
  shows "dir_entries C s cs ! p = decode_entry (C (unat (entry_sector s cs p))) (32 * (p mod 16)) blank_entry"
proof -
  let ?m = "16 * spc s"
  have m: "0 < ?m" using assms by (auto intro: Nat.gr0I)
  have c: "p div ?m < length cs" using assms m by (simp add: div_less_iff_less_mult)
  have "dir_entries C s cs ! p = cluster_entries C s (cs ! (p div ?m)) ! (p mod ?m)"
    unfolding dir_entries_def using assms c by (subst nth_concat_uniform [where m = ?m]) auto
  also have "\<dots> = sector_entries (C (unat (getDiskSector s (cs ! (p div ?m)) (int (p mod ?m div 16))))) ! (p mod ?m mod 16)"
  proof -
    have "p mod ?m div 16 < spc s" using m by (simp add: div_less_iff_less_mult mult.commute)
    then show ?thesis
      unfolding cluster_entries_def cluster_sectors_def using m
      by (subst nth_concat_uniform [where m = 16]) (auto simp: mult.commute)
  qed
  also have "p mod ?m div 16 = p div 16 mod spc s" by (simp add: mod_mult2_eq)
  also have "p mod ?m mod 16 = p mod 16" by (simp add: mod_mult2_eq)
  finally show ?thesis by (simp add: sector_entries_def entry_sector_def entry_sector_num_def entry_dir_cluster_def)
qed

section \<open>Walking\<close>

text \<open>What is left of a walk at slot \<open>k\<close> of sector \<open>j\<close> (block \<open>n\<close>) of cluster \<open>c\<close>; \<open>m\<close> sectors to a cluster.\<close>

definition walk_rest where
  "walk_rest dev visit final c j n m k b s =
     bind (for_each (map (\<lambda>k. 32 * k) [k..<16]) (visit c j n) (b, s)) (\<lambda>r.
     case r of Inr x \<Rightarrow> Ok x
     | Inl (b, s) \<Rightarrow> bind (for_each [Suc j..<m] (walk_sector dev visit c) (Some b, s)) (\<lambda>r.
       case r of Inr x \<Rightarrow> Ok x
       | Inl (bo, s) \<Rightarrow> bind (aget (FAT s) (unat c)) (\<lambda>v.
           loop (walk_cluster dev visit final) (v, bo, s))))"

lemma walk_rest_slot:
  "k < 16 \<Longrightarrow> visit c j n (32 * k) (b, s) = Ok (Inl (b', s')) \<Longrightarrow>
   walk_rest dev visit final c j n m k b s = walk_rest dev visit final c j n m (Suc k) b' s'"
  by (simp add: walk_rest_def upt_conv_Cons)

lemma walk_rest_return:
  "k < 16 \<Longrightarrow> visit c j n (32 * k) (b, s) = Ok (Inr x) \<Longrightarrow> walk_rest dev visit final c j n m k b s = Ok x"
  by (simp add: walk_rest_def upt_conv_Cons)

lemma walk_rest_fault:
  "k < 16 \<Longrightarrow> visit c j n (32 * k) (b, s) = Fault e \<Longrightarrow> walk_rest dev visit final c j n m k b s = Fault e"
  by (simp add: walk_rest_def upt_conv_Cons)

lemma walk_rest_last:
  "walk_rest dev visit final c j n (Suc j) 16 b s = bind (aget (FAT s) (unat c)) (\<lambda>v.
     loop (walk_cluster dev visit final) (v, Some b, s))"
  by (simp add: walk_rest_def)

lemma walk_sector_start:
  assumes "read_buf dev 512 bo (getDiskSector s c (int j)) s = Ok (b, s')" and "bps s' = 512"
  shows "walk_sector dev visit c j (bo, s) =
    bind (for_each (map (\<lambda>k. 32 * k) [0..<16]) (visit c j (getDiskSector s c (int j))) (b, s')) (\<lambda>r.
      Ok (case r of Inl (sector, s) \<Rightarrow> Inl (Some sector, s) | Inr x \<Rightarrow> Inr x))"
  using assms by (simp add: walk_sector_def)

lemma walk_rest_sector:
  assumes "Suc j < m" and "read_buf dev 512 (Some b) (getDiskSector s c (int (Suc j))) s = Ok (b', s')" and "bps s' = 512"
  shows "walk_rest dev visit final c j n m 16 b s =
    walk_rest dev visit final c (Suc j) (getDiskSector s c (int (Suc j))) m 0 b' s'"
proof -
  have "[Suc j..<m] = Suc j # [Suc (Suc j)..<m]" using assms(1) by (simp add: upt_conv_Cons)
  then show ?thesis
    using walk_sector_start [OF assms(2,3)]
    by (auto simp: walk_rest_def bind_assoc simp del: upt_rec_numeral of_nat_Suc intro!: bind_cong split: sum.splits)
qed

lemma walk_cluster_start:
  assumes "c < 0x0FFFFFF7" and "0 < spc s" and "read_buf dev 512 bo (getDiskSector s c 0) s = Ok (b, s')" and "bps s' = 512"
  shows "loop (walk_cluster dev visit final) (c, bo, s) =
    walk_rest dev visit final c 0 (getDiskSector s c 0) (spc s) 0 b s'"
proof -
  have "[0..<spc s] = 0 # [Suc 0..<spc s]" using assms(2) by (simp add: upt_conv_Cons)
  with assms(1) walk_sector_start [of dev bo s c 0 b s' visit] assms(3,4) show ?thesis
    by (subst loop_unfold)
      (auto simp: walk_cluster_def walk_rest_def bind_assoc simp del: upt_rec_numeral intro!: bind_cong split: sum.splits)
qed

lemma walk_cluster_end: "0x0FFFFFF8 \<le> c \<Longrightarrow> loop (walk_cluster dev visit final) (c, bo, s) = Ok (final, s)"
  by (intro loop_stop) (simp add: walk_cluster_def)

lemma is_chain_nth:
  "is_chain F cs \<Longrightarrow> Suc i < length cs \<Longrightarrow> F ! unat (cs ! i) = cs ! Suc i \<and> cs ! Suc i < 0x0FFFFFF6 \<and> 2 \<le> cs ! Suc i"
  by (induction F cs arbitrary: i rule: is_chain.induct) (auto simp: nth_Cons split: nat.splits)

lemma is_chain_last: "is_chain F cs \<Longrightarrow> 0x0FFFFFF8 \<le> F ! unat (last cs)"
  by (induction F cs rule: is_chain.induct) auto

definition walk_at where
  "walk_at dev visit final cs p b s =
     walk_rest dev visit final (entry_dir_cluster s cs p) (entry_sector_num s p) (entry_sector s cs p) (spc s) (p mod 16) b s"

lemma entry_dir_cluster_alt: "entry_dir_cluster s cs p = cs ! (p div 16 div spc s)"
  by (simp add: entry_dir_cluster_def div_mult2_eq)

lemma same_geometry:
  assumes "biosParameterBlock s' = biosParameterBlock s"
  shows "entry_dir_cluster s' = entry_dir_cluster s" "entry_sector_num s' = entry_sector_num s"
    "entry_sector s' = entry_sector s" "getDiskSector s' = getDiskSector s" "readable nb s' = readable nb s"
    "dir_entries C s' = dir_entries C s"
proof -
  have "cluster_sectors s' = cluster_sectors s" and "cluster_entries C s' = cluster_entries C s"
    using assms by (auto simp: fun_eq_iff getDiskSector_def cluster_sectors_def cluster_entries_def)
  with assms show "entry_dir_cluster s' = entry_dir_cluster s" "entry_sector_num s' = entry_sector_num s"
    "entry_sector s' = entry_sector s" "getDiskSector s' = getDiskSector s" "readable nb s' = readable nb s"
    "dir_entries C s' = dir_entries C s"
    by (intro ext, simp add: entry_dir_cluster_def entry_sector_num_def entry_sector_def getDiskSector_def
      readable_def dir_entries_def)+
qed

text \<open>An entry that the visitor leaves alone.\<close>

definition quiet where
  "quiet visit s C cs p \<longleftrightarrow> (\<forall>d. let n = entry_sector s cs p in
     visit (entry_dir_cluster s cs p) (entry_sector_num s p) n (32 * (p mod 16)) (C (unat n), s\<lparr>device := d\<rparr>)
       = Ok (Inl (C (unat n), s\<lparr>device := d\<rparr>)))"

context block_device begin

lemma entry_sector_readable:
  assumes "\<forall>c \<in> set cs. readable nblocks s c" and "p < length cs * (16 * spc s)"
  shows "unat (entry_sector s cs p) < nblocks"
proof -
  have m: "0 < spc s" using assms(2) by (auto intro: Nat.gr0I)
  then have "p div (16 * spc s) < length cs" using assms(2) by (simp add: div_less_iff_less_mult)
  then have "readable nblocks s (entry_dir_cluster s cs p)" using assms(1) by (simp add: entry_dir_cluster_def)
  moreover have "entry_sector_num s p < spc s" using m by (simp add: entry_sector_num_def)
  ultimately show ?thesis by (auto simp: readable_def cluster_sectors_def entry_sector_def)
qed

lemma walk_at_step:
  assumes chain: "is_chain (FAT s') cs" and p: "Suc p < length cs * (16 * spc s)"
    and visit: "visit (entry_dir_cluster s cs p) (entry_sector_num s p) (entry_sector s cs p) (32 * (p mod 16)) (b, s)
      = Ok (Inl (b', s'))"
    and geo: "biosParameterBlock s' = biosParameterBlock s" "bps s = 512"
    and dev': "ok (device s')" "\<forall>c \<in> set cs. readable nblocks s c"
    and b': "b' = contents (device s') (unat (entry_sector s cs p))"
  shows "\<exists>d. ok d \<and> contents d = contents (device s') \<and>
    walk_at dev visit final cs p b s =
      walk_at dev visit final cs (Suc p) (contents (device s') (unat (entry_sector s cs (Suc p)))) (s'\<lparr>device := d\<rparr>)"
proof -
  let ?c = "entry_dir_cluster s cs p" and ?j = "entry_sector_num s p" and ?n = "entry_sector s cs p"
  let ?n' = "entry_sector s cs (Suc p)"
  have m: "0 < spc s" using p by (auto intro: Nat.gr0I)
  have range: "?j < spc s" using m by (simp add: entry_sector_num_def)
  note geo' = same_geometry [OF geo(1)]
  from read_buf_block [OF dev'(1) entry_sector_readable [OF dev'(2) p], of "Some b'"] length_contents [OF dev'(1)] b'
  obtain d where d: "read_buf dev 512 (Some b') ?n' s' = Ok (contents (device s') (unat ?n'), s'\<lparr>device := d\<rparr>)"
    "ok d" "contents d = contents (device s')" by auto
  have slot: "walk_at dev visit final cs p b s = walk_rest dev visit final ?c ?j ?n (spc s) (Suc (p mod 16)) b' s'"
    unfolding walk_at_def using visit by (intro walk_rest_slot) simp_all
  show ?thesis
  proof (cases "Suc (p mod 16) < 16")
    case True
    then have 1: "Suc p mod 16 = Suc (p mod 16)" "Suc p div 16 = p div 16" by (simp_all add: mod_Suc div_Suc)
    have "entry_dir_cluster s cs (Suc p) = ?c" "entry_sector_num s (Suc p) = ?j"
      using 1 by (simp_all add: entry_dir_cluster_alt entry_sector_num_def)
    then have "walk_at dev visit final cs (Suc p) b' s' = walk_at dev visit final cs p b s"
      and "?n' = ?n" using slot 1 by (simp_all add: walk_at_def geo' geo(1) entry_sector_def)
    with b' dev'(1) show ?thesis by (intro exI [of _ "device s'"]) simp
  next
    case False
    then have 15: "Suc (p mod 16) = 16" using mod_less_divisor [of 16 p] by linarith
    then have 2: "Suc p mod 16 = 0" "Suc p div 16 = Suc (p div 16)" by (simp_all add: mod_Suc div_Suc)
    let ?x = "p div 16"
    show ?thesis
    proof (cases "Suc ?j < spc s")
      case True
      then have 3: "Suc ?x mod spc s = Suc (?x mod spc s)" "Suc ?x div spc s = ?x div spc s"
        by (simp_all add: mod_Suc div_Suc entry_sector_num_def)
      then have e: "entry_dir_cluster s cs (Suc p) = ?c" "entry_sector_num s (Suc p) = Suc ?j"
        using 2 by (simp_all add: entry_dir_cluster_alt entry_sector_num_def)
      then have n': "?n' = getDiskSector s ?c (int (Suc ?j))" by (simp add: entry_sector_def)
      have "walk_rest dev visit final ?c ?j ?n (spc s) 16 b' s' =
          walk_rest dev visit final ?c (Suc ?j) (getDiskSector s' ?c (int (Suc ?j))) (spc s) 0
            (contents (device s') (unat ?n')) (s'\<lparr>device := d\<rparr>)"
        using True d(1) geo by (intro walk_rest_sector) (simp_all add: n' geo')
      with slot 15 e n' 2 d geo geo' show ?thesis
        by (intro exI [of _ d]) (simp add: walk_at_def same_geometry [of "s'\<lparr>device := d\<rparr>" s])
    next
      case False
      with range have last: "Suc ?j = spc s" by simp
      then have 3: "Suc ?x mod spc s = 0" "Suc ?x div spc s = Suc (?x div spc s)"
        by (simp_all add: mod_Suc div_Suc entry_sector_num_def)
      let ?i = "?x div spc s"
      have e: "entry_dir_cluster s cs (Suc p) = cs ! Suc ?i" "entry_sector_num s (Suc p) = 0" "?c = cs ! ?i"
        using 2 3 by (simp_all add: entry_dir_cluster_alt entry_sector_num_def)
      have "Suc p div (16 * spc s) < length cs" using p m by (simp add: div_less_iff_less_mult)
      then have i: "Suc ?i < length cs" using 2 3 by (simp add: div_mult2_eq)
      from is_chain_nth [OF chain i] have link: "FAT s' ! unat ?c = cs ! Suc ?i" "cs ! Suc ?i < 0x0FFFFFF6"
        by (simp_all add: e)
      have inr: "unat ?c < length (FAT s')" using is_chain_range [OF chain, of ?c] i e(3) by simp
      have n': "?n' = getDiskSector s (cs ! Suc ?i) 0" using e by (simp add: entry_sector_def)
      have "cs ! Suc ?i < 0x0FFFFFF7" using link(2) by (simp add: word_less_nat_alt)
      then have start: "loop (walk_cluster dev visit final) (cs ! Suc ?i, Some b', s') =
          walk_rest dev visit final (cs ! Suc ?i) 0 (getDiskSector s' (cs ! Suc ?i) 0) (spc s') 0
            (contents (device s') (unat ?n')) (s'\<lparr>device := d\<rparr>)"
        using m d(1) geo by (intro walk_cluster_start) (simp_all add: n' geo')
      have "walk_rest dev visit final ?c ?j ?n (spc s) 16 b' s' =
          loop (walk_cluster dev visit final) (cs ! Suc ?i, Some b', s')"
        using inr link(1) walk_rest_last [of dev visit final ?c ?j ?n b' s'] by (simp add: last)
      with slot 15 e n' 2 d geo geo' start show ?thesis
        by (intro exI [of _ d]) (simp add: walk_at_def same_geometry [of "s'\<lparr>device := d\<rparr>" s])
    qed
  qed
qed

text \<open>From the start of a directory, and over a stretch of entries the visitor leaves alone.\<close>

lemma walk_directory_start:
  assumes "is_chain (FAT s) (c # cs)" and "length (FAT s) \<le> FAT_SIZE" and "0 < spc s" and "bps s = 512" and "ok (device s)"
    and "readable nblocks s c"
  shows "\<exists>d. ok d \<and> contents d = contents (device s) \<and>
    walk_directory dev visit final c s =
      walk_at dev visit final (c # cs) 0 (contents (device s) (unat (entry_sector s (c # cs) 0))) (s\<lparr>device := d\<rparr>)"
proof -
  have c: "c < 0x0FFFFFF7"
    using is_chain_range [OF assms(1), of c] assms(2) by (simp add: word_less_nat_alt FAT_SIZE_def)
  have e: "entry_dir_cluster s (c # cs) 0 = c" "entry_sector_num s 0 = 0" "entry_sector s (c # cs) 0 = getDiskSector s c 0"
    by (simp_all add: entry_dir_cluster_def entry_sector_num_def entry_sector_def)
  have "unat (getDiskSector s c 0) < nblocks"
    using assms(3,6) by (force simp: readable_def cluster_sectors_def)
  from read_buf_block [OF assms(5) this, of None] obtain d where
    d: "read_buf dev 512 None (getDiskSector s c 0) s = Ok (contents (device s) (unat (getDiskSector s c 0)), s\<lparr>device := d\<rparr>)"
      "ok d" "contents d = contents (device s)" by auto
  have "walk_directory dev visit final c s = walk_rest dev visit final c 0 (getDiskSector s c 0) (spc s) 0
      (contents (device s) (unat (getDiskSector s c 0))) (s\<lparr>device := d\<rparr>)"
    unfolding walk_directory_def using c assms(3,4) d(1) by (intro walk_cluster_start) simp_all
  with d e show ?thesis
    by (intro exI [of _ d]) (simp add: walk_at_def same_geometry [of "s\<lparr>device := d\<rparr>" s])
qed

lemma walk_quiet:
  assumes "is_chain (FAT s) cs" and "bps s = 512" and "\<forall>c \<in> set cs. readable nblocks s c"
    and "p \<le> q" and "q < length cs * (16 * spc s)" and "\<And>r. p \<le> r \<Longrightarrow> r < q \<Longrightarrow> quiet visit s C cs r"
    and "ok d" and "contents d = C"
  shows "\<exists>d'. ok d' \<and> contents d' = C \<and>
    walk_at dev visit final cs p (C (unat (entry_sector s cs p))) (s\<lparr>device := d\<rparr>) =
    walk_at dev visit final cs q (C (unat (entry_sector s cs q))) (s\<lparr>device := d'\<rparr>)"
  using assms(4,5,6)
proof (induction q rule: dec_induct)
  case base
  with assms(7,8) show ?case by (intro exI [of _ d]) simp
next
  case (step q)
  then obtain d1 where d1: "ok d1" "contents d1 = C"
    "walk_at dev visit final cs p (C (unat (entry_sector s cs p))) (s\<lparr>device := d\<rparr>) =
      walk_at dev visit final cs q (C (unat (entry_sector s cs q))) (s\<lparr>device := d1\<rparr>)" by auto
  let ?s = "s\<lparr>device := d1\<rparr>"
  note geo = same_geometry [of ?s s, simplified]
  have "quiet visit s C cs q" using step by simp
  then have "visit (entry_dir_cluster ?s cs q) (entry_sector_num ?s q) (entry_sector ?s cs q) (32 * (q mod 16))
      (C (unat (entry_sector s cs q)), ?s) = Ok (Inl (C (unat (entry_sector s cs q)), ?s))"
    by (simp add: quiet_def Let_def geo)
  from walk_at_step [of ?s cs q ?s visit, OF _ _ this] assms(1-3) step.prems(1) d1(1,2) obtain d2 where
    "ok d2" "contents d2 = C" "walk_at dev visit final cs q (C (unat (entry_sector s cs q))) ?s =
      walk_at dev visit final cs (Suc q) (C (unat (entry_sector s cs (Suc q)))) (s\<lparr>device := d2\<rparr>)"
    by (auto simp: geo)
  with d1(3) show ?case by auto
qed

lemma walk_to_end:
  assumes "is_chain (FAT s) cs" and "bps s = 512" and "\<forall>c \<in> set cs. readable nblocks s c"
    and "p < length cs * (16 * spc s)" and "\<And>r. p \<le> r \<Longrightarrow> r < length cs * (16 * spc s) \<Longrightarrow> quiet visit s C cs r"
    and "ok d" and "contents d = C"
  shows "\<exists>d'. ok d' \<and> contents d' = C \<and>
    walk_at dev visit final cs p (C (unat (entry_sector s cs p))) (s\<lparr>device := d\<rparr>) = Ok (final, s\<lparr>device := d'\<rparr>)"
proof -
  define m where "m = spc s"
  have m: "0 < m" using assms(4) by (auto simp: m_def intro: Nat.gr0I)
  obtain l where l: "length cs = Suc l" using assms(1) by (cases cs) auto
  define q where "q = l * (16 * m) + (16 * m - 1)"
  have q: "Suc q = length cs * (16 * spc s)" using m by (simp add: q_def l m_def)
  have div: "q div 16 = l * m + (m - 1)" "q mod 16 = 15"
  proof -
    have eq: "q = (l * m + (m - 1)) * 16 + 15" using m by (cases m) (simp_all add: q_def algebra_simps)
    have "(x * 16 + 15) div 16 = x \<and> (x * 16 + 15) mod 16 = 15" for x :: nat by simp
    with eq show "q div 16 = l * m + (m - 1)" "q mod 16 = 15" by blast+
  qed
  have e: "entry_dir_cluster s cs q = last cs" "Suc (entry_sector_num s q) = spc s"
  proof -
    have "(l * m + x) div m = l \<and> (l * m + x) mod m = x" if "x < m" for x using that by simp
    from this [of "m - 1"] m have "q div 16 div m = l" "q div 16 mod m = m - 1" unfolding div(1) by auto
    moreover from l have "last cs = cs ! l" by (subst last_conv_nth) auto
    ultimately show "entry_dir_cluster s cs q = last cs" "Suc (entry_sector_num s q) = spc s"
      using m by (auto simp: entry_dir_cluster_alt entry_sector_num_def m_def)
  qed
  from walk_quiet [OF assms(1-3), of p q visit C d] assms(4-7) q obtain d' where d': "ok d'" "contents d' = C"
    "walk_at dev visit final cs p (C (unat (entry_sector s cs p))) (s\<lparr>device := d\<rparr>) =
      walk_at dev visit final cs q (C (unat (entry_sector s cs q))) (s\<lparr>device := d'\<rparr>)" by auto
  let ?s = "s\<lparr>device := d'\<rparr>" and ?b = "C (unat (entry_sector s cs q))"
  note geo = same_geometry [of ?s s, simplified]
  have in_range: "unat (last cs) < length (FAT s)"
    using is_chain_range [OF assms(1), of "last cs"] l by (cases cs) auto
  have "quiet visit s C cs q" using assms(4,5) q by simp
  then have "walk_at dev visit final cs q ?b ?s =
      walk_rest dev visit final (last cs) (entry_sector_num s q) (entry_sector s cs q) (spc s) 16 ?b ?s"
    unfolding walk_at_def geo e(1) div(2)
    using walk_rest_slot [of 15 visit "last cs" "entry_sector_num s q" "entry_sector s cs q" ?b ?s ?b ?s]
    by (simp add: quiet_def Let_def e div(2))
  also have "\<dots> = Ok (final, ?s)"
    using walk_rest_last [of dev visit final "last cs" "entry_sector_num s q" "entry_sector s cs q" ?b ?s]
      is_chain_last [OF assms(1)] in_range
    by (simp add: e(2) walk_cluster_end)
  finally show ?thesis using d' by auto
qed

end
end
