(* ===== verification/Fat32_Create.thy ===== *)
theory Fat32_Create
  imports Fat32_Dir
begin

text \<open>
  What \<open>createFile\<close> and \<open>searchFile\<close> of file-system/fat32.c do to a directory, entry by entry:
  the first end-of-directory entry becomes the new file, the entry behind it the new end.
\<close>

section \<open>Finding the directory\<close>

context block_device begin

lemma searchFile_resolves:
  assumes "resolves (contents (device s)) nblocks s (rootClusterNum (extendedBootRecord s)) (tl (components p)) v"
    and "ok (device s)" and "0 \<notin> set p" and "length (FAT s) = FAT_SIZE" and "bps s = 512"
  shows "\<exists>d. searchFile dev (p @ [0]) s = Ok (if v = 0xFFFFFFFF then 0 else sint v, s\<lparr>device := d\<rparr>)
    \<and> ok d \<and> contents d = contents (device s)"
proof -
  have "Suc 0 \<le> length (components p)" by (cases "components p") auto
  with recursiveSearch_resolves [OF assms(1-3), of 1] assms(4,5) show ?thesis
    by (auto simp: searchFile_def drop_Suc)
qed

end

lemma word_of_sint [simp]: "word_of_int (sint (v :: dword)) = v"
  by simp

section \<open>The new entry\<close>

definition clean_char :: "byte \<Rightarrow> byte" where
  "clean_char c = (if sint c < 0x20 then 0x20 else c)"

definition created_entry :: "byte list \<Rightarrow> byte \<Rightarrow> dword \<Rightarrow> DirectoryEntry \<Rightarrow> DirectoryEntry" where
  "created_entry name attr newc e = e\<lparr>filename := map clean_char name, first_cluster_lo := ucast newc,
     first_cluster_hi := ucast (drop_bit 16 newc), file_size := 0, attributes := attr\<rparr>"

lemma clean_rounds:
  "length name = 11 \<Longrightarrow> length old = 11 \<Longrightarrow> n \<le> 11 \<Longrightarrow>
   for_each [0..<n] (\<lambda>i nm. bind (aget name i) (\<lambda>c.
        bind (aput nm i (if sint c < 0x20 then 0x20 else c)) (\<lambda>nm. Ok (Inl nm)))) old
     = Ok (Inl (map clean_char (take n name) @ drop n old))"
proof (induction n)
  case 0
  then show ?case by simp
next
  case (Suc n)
  then have "drop n old = old ! n # drop (Suc n) old" by (simp add: Cons_nth_drop_Suc)
  with Suc show ?case
    by (simp add: for_each_append list_update_append take_Suc_conv_app_nth clean_char_def)
qed

lemma new_entry_created [safe]:
  "length name = 11 \<Longrightarrow> length (filename e) = 11 \<Longrightarrow> new_entry name attr newc e = Ok (created_entry name attr newc e)"
  (is "_ \<Longrightarrow> _ \<Longrightarrow> ?thesis")
proof -
  assume "length name = 11" "length (filename e) = 11"
  then have "for_each [0..<11] (\<lambda>i nm. bind (aget name i) (\<lambda>c.
        bind (aput nm i (if sint c < 0x20 then 0x20 else c)) (\<lambda>nm. Ok (Inl nm)))) (filename e)
     = (Ok (Inl (map clean_char name)) :: (byte list + byte list) res)"
    using clean_rounds [of name "filename e" 11] by simp
  then show ?thesis by (simp add: new_entry_def created_entry_def)
qed

lemma length_created_filename [simp]: "length (filename (created_entry name attr newc e)) = length name"
  by (simp add: created_entry_def)

section \<open>The sector after creating\<close>

definition put_entry :: "DirectoryEntry \<Rightarrow> nat \<Rightarrow> byte list \<Rightarrow> byte list" where
  "put_entry e k b = take (32 * k) b @ encode_entry e (take 32 (drop (32 * k) b)) @ drop (32 * k + 32) b"

lemma length_put_entry [simp]:
  "length b = 512 \<Longrightarrow> k < 16 \<Longrightarrow> length (filename e) = 11 \<Longrightarrow> length (put_entry e k b) = 512"
  by (simp add: put_entry_def)

lemma nth_put_entry_other:
  "length b = 512 \<Longrightarrow> k < 16 \<Longrightarrow> length (filename e) = 11 \<Longrightarrow> i < 32 * k \<or> 32 * k + 32 \<le> i \<Longrightarrow> i < 512 \<Longrightarrow>
   put_entry e k b ! i = b ! i"
  by (auto simp: put_entry_def nth_append)

lemma decode_cong:
  assumes "length b = 512" "length b' = 512" "k < 16" and "\<And>i. 32 * k \<le> i \<Longrightarrow> i < 32 * k + 32 \<Longrightarrow> b ! i = b' ! i"
  shows "decode_entry b (32 * k) f = decode_entry b' (32 * k) f"
proof -
  have "take 11 (drop (32 * k) b) = take 11 (drop (32 * k) b')"
    using assms by (intro nth_equalityI) auto
  then show ?thesis using assms by (simp add: decode_entry_def)
qed

lemma decode_put_other:
  assumes "length b = 512" "k < 16" "length (filename e) = 11" "k' < 16" "k' \<noteq> k"
  shows "decode_entry (put_entry e k b) (32 * k') f = decode_entry b (32 * k') f"
proof (rule decode_cong)
  fix i assume i: "32 * k' \<le> i" "i < 32 * k' + 32"
  with assms(4,5) have "i < 32 * k \<or> 32 * k + 32 \<le> i" "i < 512" by auto
  with assms show "put_entry e k b ! i = b ! i" by (simp add: nth_put_entry_other)
qed (use assms in simp_all)

lemma decode_put_same:
  assumes "length b = 512" "k < 16" "length (filename e) = 11"
  shows "decode_entry (put_entry e k b) (32 * k) f =
    f\<lparr>filename := filename e, attributes := attributes e, first_cluster_hi := scast (ucast (first_cluster_hi e) :: byte),
      first_cluster_lo := scast (ucast (first_cluster_lo e) :: byte), file_size := scast (ucast (file_size e) :: byte)\<rparr>"
  unfolding put_entry_def using assms by (intro decode_encode) simp_all

lemma entry_cluster_small:
  assumes "c < 128"
  shows "entry_cluster (e\<lparr>first_cluster_hi := scast (ucast (ucast (drop_bit 16 c) :: word16) :: byte),
    first_cluster_lo := scast (ucast (ucast c :: word16) :: byte), file_size := z\<rparr>) = c"
proof -
  have c: "unat c < 128" using assms by (simp add: word_less_nat_alt)
  have hi: "drop_bit 16 c = 0" using c by (simp add: word_unat_eq_iff unat_drop_bit)
  have lo: "unat (ucast c :: word16) = unat c" using c by (simp add: unsigned_ucast_eq take_bit_nat_eq_self)
  then have "(ucast c :: word16) < 128" using c by (simp add: word_less_nat_alt)
  then have "scast (ucast (ucast c :: word16) :: byte) = (ucast c :: word16)" by (rule scast_small)
  then have "entry_cluster (e\<lparr>first_cluster_hi := scast (ucast (ucast (drop_bit 16 c) :: word16) :: byte),
      first_cluster_lo := scast (ucast (ucast c :: word16) :: byte), file_size := z\<rparr>) = ucast (ucast c :: word16)"
    by (simp add: entry_cluster_def hi)
  also have "\<dots> = c" using lo by (simp add: word_unat_eq_iff)
  finally show ?thesis .
qed

section \<open>The visit that creates\<close>

lemma create_visit_quiet:
  assumes "length b = 512" "k < 16" and "filename (decode_entry b (32 * k) blank_entry) ! 0 \<noteq> 0"
  shows "create_visit dev name attr c j n (32 * k) (b, s) = Ok (Inl (b, s))"
proof -
  have "getDirectoryEntry b blank_entry (int (32 * k)) = Ok (decode_entry b (32 * k) blank_entry)"
    using assms by (intro getDirectoryEntry_slot) simp_all
  with assms(3) show ?thesis by (simp add: create_visit_def del: of_nat_mult)
qed

lemma create_visit_full:
  assumes "length b = 512" "k < 16" and "filename (decode_entry b (32 * k) blank_entry) ! 0 = 0"
    and "length (FAT s) = FAT_SIZE" and "first_free s = None"
  shows "create_visit dev name attr c j n (32 * k) (b, s) = Ok (Inr (-1, drop_junk s))"
proof -
  have "getDirectoryEntry b blank_entry (int (32 * k)) = Ok (decode_entry b (32 * k) blank_entry)"
    using assms by (intro getDirectoryEntry_slot) simp_all
  with assms(3-5) show ?thesis by (simp add: create_visit_def allocateCluster_unlinked del: of_nat_mult)
qed

lemma unat_of_nat_FAT: "i < FAT_SIZE \<Longrightarrow> unat (of_nat i :: dword) = i"
  by (simp add: FAT_SIZE_def unat_of_nat_small)

lemma sint_of_nat_FAT: "i < FAT_SIZE \<Longrightarrow> sint (of_nat i :: dword) = int i"
  by (simp add: FAT_SIZE_def sint_of_nat_small)

definition created_fs :: "nat \<Rightarrow> 'd fs \<Rightarrow> 'd fs" where
  "created_fs i s = take_cluster i (drop_junk s)"

lemma created_fs_FAT: "FAT (created_fs i s) = (FAT s)[i := 0x0FFFFFFF]"
  by (simp add: created_fs_def take_cluster_def)

lemma create_visit_overrun:
  assumes "length b = 512" "k < 16" and "filename (decode_entry b (32 * k) blank_entry) ! 0 = 0"
    and "length (FAT s) = FAT_SIZE" and "first_free s = Some i" and "128 \<le> i"
  shows "create_visit dev name attr c j n (32 * k) (b, s) = Fault OutOfBounds"
proof -
  have i: "i < FAT_SIZE" "unat (of_nat i :: dword) = i" using first_free_range [OF assms(5)] by (auto simp: unat_of_nat_FAT)
  then have ne: "of_nat i \<noteq> (0x0FFFFFFF :: dword)" by (auto simp: FAT_SIZE_def word_unat_eq_iff)
  have "getDirectoryEntry b blank_entry (int (32 * k)) = Ok (decode_entry b (32 * k) blank_entry)"
    using assms by (intro getDirectoryEntry_slot) simp_all
  moreover have "copyFATtoDisk dev (of_nat i) (t\<lparr>FAT := F\<rparr>) = Fault OutOfBounds" if "length F = FAT_SIZE" for t :: "'a fs" and F
    using that i assms(6) by (intro copyFATtoDisk_overrun) simp_all
  ultimately show ?thesis using assms(3-5) i ne
    by (simp add: create_visit_def allocateCluster_unlinked take_cluster_def del: of_nat_mult)
qed

context block_device begin

lemma create_visit_creates:
  assumes "length b = 512" "k < 15" and "filename (decode_entry b (32 * k) blank_entry) ! 0 = 0"
    and "length (FAT s) = FAT_SIZE" and "first_free s = Some i" and "i < 128" and "length name = 11"
    and "ok (device s)" and "unat n < nblocks" and "reserved s < nblocks" and "bps s = 512"
  shows "\<exists>d. create_visit dev name attr c j n (32 * k) (b, s) = Ok (Inr (int i, (created_fs i s)\<lparr>device := d\<rparr>))
    \<and> ok d \<and> contents d = (contents (device s))(reserved s := FAT_sector_bytes ((FAT s)[i := 0x0FFFFFFF]),
      unat n := (put_entry (created_entry name attr (of_nat i) (decode_entry b (32 * k) blank_entry)) k b)[32 * k + 32 := 0])"
proof -
  let ?e = "created_entry name attr (of_nat i) (decode_entry b (32 * k) blank_entry)"
  let ?b = "(put_entry ?e k b)[32 * k + 32 := 0]" and ?s = "created_fs i s"
  have i: "i < FAT_SIZE" "unat (of_nat i :: dword) = i" using first_free_range [OF assms(5)] by (auto simp: unat_of_nat_FAT)
  then have ne: "of_nat i \<noteq> (0x0FFFFFFF :: dword)" by (auto simp: FAT_SIZE_def word_unat_eq_iff)
  have get: "getDirectoryEntry b blank_entry (int (32 * k)) = Ok (decode_entry b (32 * k) blank_entry)"
    using assms by (intro getDirectoryEntry_slot) simp_all
  have len: "length (filename (decode_entry b (32 * k) blank_entry)) = 11"
    using assms by (intro length_decoded_filename) simp
  have set: "setDirectoryEntry b ?e (int (32 * k)) = Ok (put_entry ?e k b)"
    unfolding put_entry_def using assms by (intro setDirectoryEntry_slot) simp_all
  have eqs: "?s\<lparr>FAT := (FAT s)[i := 0x0FFFFFFF]\<rparr> = ?s" by (simp add: created_fs_def take_cluster_def)
  have sel: "FAT ?s = (FAT s)[i := 0x0FFFFFFF]" "device ?s = device s" "biosParameterBlock ?s = biosParameterBlock s"
    by (simp_all add: created_fs_def take_cluster_def)
  from copyFATtoDisk_stores [of ?s "of_nat i"] assms(4,6,8,10) i obtain d1 where
    d1: "copyFATtoDisk dev (of_nat i) ?s = Ok (?s\<lparr>device := d1\<rparr>)" "ok d1"
      "contents d1 = (contents (device s))(reserved s := FAT_sector_bytes ((FAT s)[i := 0x0FFFFFFF]))"
    by (auto simp: sel FAT_SIZE_def)
  from write_block [OF d1(2) assms(9), of ?b] assms(1,2,7) obtain d2 where
    d2: "bwrite dev ?b n d1 = Ok (0, d2)" "ok d2" "contents d2 = (contents d1)(unat n := ?b)" by auto
  have alloc: "allocateCluster 0 s = Ok (of_nat i, ?s)"
    using assms(4,5) by (simp add: allocateCluster_unlinked created_fs_def)
  have last: "int (32 * k) \<noteq> int (bps s) - 32" using assms(2,11) by simp
  have "create_visit dev name attr c j n (32 * k) (b, s) = Ok (Inr (int i, ?s\<lparr>device := d2\<rparr>))"
    unfolding create_visit_def
    using assms(1,2,3,4,7) get alloc ne i d1(1) d2(1) set last len
    by (simp add: sel eqs new_entry_created write_buf_def sint_of_nat_FAT del: of_nat_mult)
  with d1 d2 show ?thesis by (intro exI [of _ d2]) simp
qed

end
section \<open>Sectors of different entries\<close>

lemma getDiskSector_unat:
  assumes "unat c < FAT_SIZE" and "j < 256"
  shows "unat (getDiskSector s c (int j)) = unat c * spc s + reserved s + j"
proof -
  have spc: "spc s < 256" and res: "reserved s < 65536"
    using unsigned_less [of "sectorsPerCluster (biosParameterBlock s)"] unsigned_less [of "reservedSectors (biosParameterBlock s)"]
    by simp_all
  have "unat c * spc s \<le> 2048 * 256" using assms(1) spc by (intro mult_le_mono) (simp_all add: FAT_SIZE_def)
  then have b: "unat c * spc s + reserved s + j < 4294967296" using assms(2) res by linarith
  have eq: "getDiskSector s c (int j) = of_nat (unat c * spc s + reserved s + j)"
    by (simp add: getDiskSector_def)
  show ?thesis unfolding eq using b by (intro unat_of_nat_small) simp
qed

definition data_chain :: "nat \<Rightarrow> 'd fs \<Rightarrow> dword list \<Rightarrow> bool" where
  "data_chain nb s cs \<longleftrightarrow> is_chain (FAT s) cs \<and> length (FAT s) = FAT_SIZE \<and> (\<forall>c \<in> set cs. 2 \<le> c \<and> readable nb s c)"

lemma data_chain_simps:
  assumes "data_chain nb s cs"
  shows "is_chain (FAT s) cs" "length (FAT s) = FAT_SIZE" "\<forall>c \<in> set cs. readable nb s c"
    "c \<in> set cs \<Longrightarrow> unat c < FAT_SIZE" "c \<in> set cs \<Longrightarrow> 2 \<le> unat c" "distinct cs"
  using assms is_chain_range [of "FAT s" cs c] is_chain_distinct [of "FAT s" cs]
  by (auto simp: data_chain_def word_le_nat_alt)

lemma entry_position:
  assumes "p < length cs * (16 * spc s)"
  shows "p div 16 div spc s < length cs" "entry_sector_num s p < spc s" "0 < spc s"
proof -
  show m: "0 < spc s" using assms by (auto intro: Nat.gr0I)
  then have "p div (16 * spc s) < length cs" using assms by (simp add: div_less_iff_less_mult)
  then show "p div 16 div spc s < length cs" by (simp add: div_mult2_eq)
  show "entry_sector_num s p < spc s" using m by (simp add: entry_sector_num_def)
qed

lemma entry_sector_unat:
  assumes "data_chain nb s cs" and "p < length cs * (16 * spc s)"
  shows "unat (entry_sector s cs p) = unat (entry_dir_cluster s cs p) * spc s + reserved s + entry_sector_num s p"
    "reserved s < unat (entry_sector s cs p)"
proof -
  note pos = entry_position [OF assms(2)]
  have c: "entry_dir_cluster s cs p \<in> set cs" using pos(1) by (simp add: entry_dir_cluster_alt)
  have "spc s < 256" using unsigned_less [of "sectorsPerCluster (biosParameterBlock s)"] by simp
  with pos(2) have "entry_sector_num s p < 256" by linarith
  then show eq: "unat (entry_sector s cs p) = unat (entry_dir_cluster s cs p) * spc s + reserved s + entry_sector_num s p"
    unfolding entry_sector_def using data_chain_simps(4) [OF assms(1) c] by (simp add: getDiskSector_unat)
  have "0 < unat (entry_dir_cluster s cs p) * spc s" using data_chain_simps(5) [OF assms(1) c] pos(3) by simp
  then show "reserved s < unat (entry_sector s cs p)" unfolding eq by linarith
qed

lemma cluster_sector_unique:
  "j < (m :: nat) \<Longrightarrow> j' < m \<Longrightarrow> a * m + j = a' * m + j' \<Longrightarrow> a = a' \<and> j = j'"
proof -
  assume j: "j < m" "j' < m" and eq: "a * m + j = a' * m + j'"
  have "(a * m + j) div m = a" "(a' * m + j') div m = a'" "(a * m + j) mod m = j" "(a' * m + j') mod m = j'" using j by simp_all
  with eq show ?thesis by metis
qed

lemma entry_sector_same:
  assumes "data_chain nb s cs" and "p < length cs * (16 * spc s)" and "q < length cs * (16 * spc s)"
    and "unat (entry_sector s cs p) = unat (entry_sector s cs q)"
  shows "p div 16 = q div 16"
proof -
  note p = entry_position [OF assms(2)] and q = entry_position [OF assms(3)]
  from assms(4) have "unat (entry_dir_cluster s cs p) * spc s + entry_sector_num s p
      = unat (entry_dir_cluster s cs q) * spc s + entry_sector_num s q"
    by (simp add: entry_sector_unat [OF assms(1,2)] entry_sector_unat [OF assms(1,3)])
  from cluster_sector_unique [OF p(2) q(2) this] have eq: "entry_dir_cluster s cs p = entry_dir_cluster s cs q"
    "entry_sector_num s p = entry_sector_num s q" by (auto simp: word_unat_eq_iff)
  then have "p div 16 div spc s = q div 16 div spc s"
    using data_chain_simps(6) [OF assms(1)] p(1) q(1) by (simp add: entry_dir_cluster_alt nth_eq_iff_index_eq)
  with eq(2) show ?thesis unfolding entry_sector_num_def by (metis div_mult_mod_eq)
qed

text \<open>A change of the table's sector and of one directory sector, as a change of the entries.\<close>

lemma nth_dir_entries_update:
  assumes "data_chain nb s cs" and "p < length cs * (16 * spc s)" and "q < length cs * (16 * spc s)"
  shows "dir_entries (C(reserved s := fb, unat (entry_sector s cs p) := b)) s cs ! q =
    (if q div 16 = p div 16 then decode_entry b (32 * (q mod 16)) blank_entry else dir_entries C s cs ! q)"
proof -
  have same: "entry_sector s cs q = entry_sector s cs p" if "q div 16 = p div 16"
    using that by (simp add: entry_sector_def entry_dir_cluster_alt entry_sector_num_def)
  show ?thesis
    using entry_sector_unat(2) [OF assms(1,3)] entry_sector_same [OF assms(1,3,2)] same assms(3)
    by (auto simp: nth_dir_entries)
qed


section \<open>Creating a file\<close>

lemma quiet_create:
  assumes "data_chain nb s cs" and "q < length cs * (16 * spc s)" and "filename (dir_entries C s cs ! q) ! 0 \<noteq> 0"
    and "\<And>k. length (C k) = 512"
  shows "quiet (create_visit dev name attr) s C cs q"
  using assms(2-4) by (simp add: quiet_def Let_def create_visit_quiet nth_dir_entries)

lemma first_free_device [simp]: "first_free (s\<lparr>device := d\<rparr>) = first_free s"
  by (simp add: first_free_def hint_def)

lemma created_fs_device [simp]: "(created_fs i (s\<lparr>device := d\<rparr>))\<lparr>device := d'\<rparr> = (created_fs i s)\<lparr>device := d'\<rparr>"
  by (simp add: created_fs_def take_cluster_def drop_junk_def)

definition new_dir_sector :: "byte list \<Rightarrow> byte \<Rightarrow> nat \<Rightarrow> nat \<Rightarrow> byte list \<Rightarrow> byte list" where
  "new_dir_sector name attr i k b =
     (put_entry (created_entry name attr (of_nat i) (decode_entry b (32 * k) blank_entry)) k b)[32 * k + 32 := 0]"

text \<open>The walk of \<open>createFile\<close>.\<close>

context block_device begin

lemma walk_to_entry:
  assumes chain: "data_chain nblocks s (c # cs)" and dev_ok: "ok (device s)" "bps s = 512"
    and p: "p < length (c # cs) * (16 * spc s)"
    and before: "\<And>q. q < p \<Longrightarrow> quiet visit s (contents (device s)) (c # cs) q"
  shows "\<exists>d. ok d \<and> contents d = contents (device s) \<and> walk_directory dev visit final c s =
    walk_at dev visit final (c # cs) p (contents (device s) (unat (entry_sector s (c # cs) p))) (s\<lparr>device := d\<rparr>)"
proof -
  note data = data_chain_simps [OF chain]
  have m: "0 < spc s" using p by (auto intro: Nat.gr0I)
  from walk_directory_start [of s c cs visit final] data(1-3) m dev_ok obtain d where d: "ok d" "contents d = contents (device s)"
    "walk_directory dev visit final c s =
      walk_at dev visit final (c # cs) 0 (contents (device s) (unat (entry_sector s (c # cs) 0))) (s\<lparr>device := d\<rparr>)" by auto
  from walk_quiet [OF data(1) dev_ok(2) data(3) _ p before d(1,2)] obtain d' where "ok d'" "contents d' = contents (device s)"
    "walk_at dev visit final (c # cs) 0 (contents (device s) (unat (entry_sector s (c # cs) 0))) (s\<lparr>device := d\<rparr>) =
     walk_at dev visit final (c # cs) p (contents (device s) (unat (entry_sector s (c # cs) p))) (s\<lparr>device := d'\<rparr>)" by auto
  with d(3) show ?thesis by auto
qed

lemma create_walk:
  assumes chain: "data_chain nblocks s (c # cs)" and dev_ok: "ok (device s)" "bps s = 512" "reserved s < nblocks"
    and p: "p < length (c # cs) * (16 * spc s)" "p mod 16 < 15"
    and free: "first_free s = Some i" "i < 128" and name: "length name = 11"
    and before: "\<And>q. q < p \<Longrightarrow> filename (dir_entries (contents (device s)) s (c # cs) ! q) ! 0 \<noteq> 0"
    and end_mark: "filename (dir_entries (contents (device s)) s (c # cs) ! p) ! 0 = 0"
  shows "\<exists>d. walk_directory dev (create_visit dev name attr) (-1) c s = Ok (int i, (created_fs i s)\<lparr>device := d\<rparr>)
    \<and> ok d \<and> contents d = (contents (device s))(reserved s := FAT_sector_bytes ((FAT s)[i := 0x0FFFFFFF]),
      unat (entry_sector s (c # cs) p) := new_dir_sector name attr i (p mod 16)
        (contents (device s) (unat (entry_sector s (c # cs) p))))"
proof -
  let ?n = "entry_sector s (c # cs) p" and ?v = "create_visit dev name attr"
  let ?b = "contents (device s) (unat ?n)"
  have len: "length (contents (device s) k) = 512" for k using length_contents dev_ok(1) by blast
  have "quiet ?v s (contents (device s)) (c # cs) q" if "q < p" for q
    using that before p len by (intro quiet_create [OF chain]) auto
  from walk_to_entry [OF chain dev_ok(1,2) p(1) this, of "-1"] obtain d where d: "ok d" "contents d = contents (device s)"
    "walk_directory dev ?v (-1) c s = walk_at dev ?v (-1) (c # cs) p ?b (s\<lparr>device := d\<rparr>)" by auto
  have n: "unat ?n < nblocks" using data_chain_simps(3) [OF chain] p(1) by (intro entry_sector_readable) auto
  have e: "filename (decode_entry ?b (32 * (p mod 16)) blank_entry) ! 0 = 0" using end_mark p(1) by (simp add: nth_dir_entries)
  from create_visit_creates [of ?b "p mod 16" "s\<lparr>device := d\<rparr>" i name ?n attr "entry_dir_cluster s (c # cs) p" "entry_sector_num s p"]
    len p(2) e data_chain_simps(2) [OF chain] free name d n dev_ok obtain d' where
    r: "?v (entry_dir_cluster s (c # cs) p) (entry_sector_num s p) ?n (32 * (p mod 16)) (?b, s\<lparr>device := d\<rparr>)
      = Ok (Inr (int i, (created_fs i s)\<lparr>device := d'\<rparr>))"
    and d': "ok d'" "contents d' = (contents (device s))(reserved s := FAT_sector_bytes ((FAT s)[i := 0x0FFFFFFF]),
      unat ?n := new_dir_sector name attr i (p mod 16) ?b)"
    by (auto simp: new_dir_sector_def)
  have "walk_at dev ?v (-1) (c # cs) p ?b (s\<lparr>device := d\<rparr>) = Ok (int i, (created_fs i s)\<lparr>device := d'\<rparr>)"
    unfolding walk_at_def same_geometry [of "s\<lparr>device := d\<rparr>" s, simplified]
    using r by (intro walk_rest_return) simp_all
  with d(3) d' show ?thesis by auto
qed

lemma create_walk_full:
  assumes chain: "data_chain nblocks s (c # cs)" and dev_ok: "ok (device s)" "bps s = 512"
    and p: "p < length (c # cs) * (16 * spc s)" and free: "first_free s = None"
    and before: "\<And>q. q < p \<Longrightarrow> filename (dir_entries (contents (device s)) s (c # cs) ! q) ! 0 \<noteq> 0"
    and end_mark: "filename (dir_entries (contents (device s)) s (c # cs) ! p) ! 0 = 0"
  shows "\<exists>d. walk_directory dev (create_visit dev name attr) (-1) c s = Ok (-1, drop_junk (s\<lparr>device := d\<rparr>))
    \<and> ok d \<and> contents d = contents (device s)"
proof -
  let ?n = "entry_sector s (c # cs) p" and ?v = "create_visit dev name attr"
  let ?b = "contents (device s) (unat ?n)"
  have len: "length (contents (device s) k) = 512" for k using length_contents dev_ok(1) by blast
  have "quiet ?v s (contents (device s)) (c # cs) q" if "q < p" for q
    using that before p len by (intro quiet_create [OF chain]) auto
  from walk_to_entry [OF chain dev_ok p this, of "-1"] obtain d where d: "ok d" "contents d = contents (device s)"
    "walk_directory dev ?v (-1) c s = walk_at dev ?v (-1) (c # cs) p ?b (s\<lparr>device := d\<rparr>)" by auto
  have e: "filename (decode_entry ?b (32 * (p mod 16)) blank_entry) ! 0 = 0" using end_mark p by (simp add: nth_dir_entries)
  have "walk_at dev ?v (-1) (c # cs) p ?b (s\<lparr>device := d\<rparr>) = Ok (-1, drop_junk (s\<lparr>device := d\<rparr>))"
    unfolding walk_at_def same_geometry [of "s\<lparr>device := d\<rparr>" s, simplified]
    using e len free data_chain_simps(2) [OF chain] by (intro walk_rest_return) (simp_all add: create_visit_full)
  with d show ?thesis by auto
qed

lemma create_walk_no_end:
  assumes chain: "data_chain nblocks s (c # cs)" and dev_ok: "ok (device s)" "bps s = 512" "0 < spc s"
    and used: "\<forall>e \<in> set (dir_entries (contents (device s)) s (c # cs)). filename e ! 0 \<noteq> 0"
  shows "\<exists>d. walk_directory dev (create_visit dev name attr) (-1) c s = Ok (-1, s\<lparr>device := d\<rparr>)
    \<and> ok d \<and> contents d = contents (device s)"
proof -
  note data = data_chain_simps [OF chain]
  have len: "length (contents (device s) k) = 512" for k using length_contents dev_ok(1) by blast
  have q: "quiet (create_visit dev name attr) s (contents (device s)) (c # cs) q" if "q < length (c # cs) * (16 * spc s)" for q
    using that used len nth_mem [of q "dir_entries (contents (device s)) s (c # cs)"] by (intro quiet_create [OF chain]) auto
  from walk_directory_start [of s c cs "create_visit dev name attr" "-1"] data(1-3) dev_ok obtain d where
    d: "ok d" "contents d = contents (device s)"
    "walk_directory dev (create_visit dev name attr) (-1) c s = walk_at dev (create_visit dev name attr) (-1) (c # cs) 0
      (contents (device s) (unat (entry_sector s (c # cs) 0))) (s\<lparr>device := d\<rparr>)" by auto
  from walk_to_end [OF data(1) dev_ok(2) data(3), of 0 "create_visit dev name attr" "contents (device s)" d "-1"] q d dev_ok(3)
  show ?thesis by auto
qed

end
section \<open>The directory after creating\<close>

definition stored_entry :: "byte list \<Rightarrow> byte \<Rightarrow> nat \<Rightarrow> DirectoryEntry" where
  "stored_entry name attr i = blank_entry\<lparr>filename := map clean_char name, attributes := attr,
     first_cluster_hi := scast (ucast (ucast (drop_bit 16 (of_nat i :: dword)) :: word16) :: byte),
     first_cluster_lo := scast (ucast (ucast (of_nat i :: dword) :: word16) :: byte), file_size := 0\<rparr>"

lemma new_dir_sector_entries:
  assumes "length b = 512" "k < 15" "length name = 11" "k' < 16"
  shows "k' \<noteq> k \<Longrightarrow> k' \<noteq> k + 1 \<Longrightarrow>
      decode_entry (new_dir_sector name attr i k b) (32 * k') blank_entry = decode_entry b (32 * k') blank_entry"
    and "k' = k \<Longrightarrow> decode_entry (new_dir_sector name attr i k b) (32 * k') blank_entry = stored_entry name attr i"
    and "k' = k + 1 \<Longrightarrow> filename (decode_entry (new_dir_sector name attr i k b) (32 * k') blank_entry) ! 0 = 0"
proof -
  let ?e = "created_entry name attr (of_nat i) (decode_entry b (32 * k) blank_entry)"
  have len: "length (put_entry ?e k b) = 512" using assms by (intro length_put_entry) simp_all
  have same: "decode_entry (new_dir_sector name attr i k b) (32 * k') blank_entry = decode_entry (put_entry ?e k b) (32 * k') blank_entry"
    if "k' \<noteq> k + 1"
    unfolding new_dir_sector_def using that len assms(4)
    by (intro decode_cong) (auto simp: nth_list_update)
  {
    assume "k' \<noteq> k" "k' \<noteq> k + 1"
    with same decode_put_other [of b k ?e k' blank_entry] assms
    show "decode_entry (new_dir_sector name attr i k b) (32 * k') blank_entry = decode_entry b (32 * k') blank_entry" by simp
  }
  {
    assume "k' = k"
    with same decode_put_same [of b k ?e blank_entry] assms
    show "decode_entry (new_dir_sector name attr i k b) (32 * k') blank_entry = stored_entry name attr i"
      by (simp add: stored_entry_def created_entry_def)
  }
  {
    assume "k' = k + 1"
    then have "32 * k' = 32 * k + 32" by simp
    with len assms show "filename (decode_entry (new_dir_sector name attr i k b) (32 * k') blank_entry) ! 0 = 0"
      by (simp only: new_dir_sector_def) (simp add: decode_entry_def del: add.commute)
  }
qed

lemma stored_entry_cluster: "i < 128 \<Longrightarrow> entry_cluster (stored_entry name attr i) = of_nat i"
  using entry_cluster_small [where c = "of_nat i" and e = "blank_entry\<lparr>filename := map clean_char name, attributes := attr\<rparr>" and z = 0]
  by (simp add: stored_entry_def word_less_nat_alt unat_of_nat)

lemma created_entries:
  assumes chain: "data_chain nb s cs" and p: "p < length cs * (16 * spc s)" "p mod 16 < 15" and name: "length name = 11"
    and len: "\<And>k. length (C k) = 512"
    and C': "C' = C(reserved s := fb, unat (entry_sector s cs p) :=
      new_dir_sector name attr i (p mod 16) (C (unat (entry_sector s cs p))))"
  shows "q < length cs * (16 * spc s) \<Longrightarrow> q \<noteq> p \<Longrightarrow> q \<noteq> p + 1 \<Longrightarrow> dir_entries C' s cs ! q = dir_entries C s cs ! q"
    and "dir_entries C' s cs ! p = stored_entry name attr i"
    and "p + 1 < length cs * (16 * spc s) \<and> filename (dir_entries C' s cs ! (p + 1)) ! 0 = 0"
proof -
  note upd = nth_dir_entries_update [OF chain p(1), of _ C fb "new_dir_sector name attr i (p mod 16) (C (unat (entry_sector s cs p)))",
    folded C']
  note new = new_dir_sector_entries [OF len [of "unat (entry_sector s cs p)"] p(2) name]
  {
    assume q: "q < length cs * (16 * spc s)" "q \<noteq> p" "q \<noteq> p + 1"
    show "dir_entries C' s cs ! q = dir_entries C s cs ! q"
    proof (cases "q div 16 = p div 16")
      case False
      with upd [OF q(1)] show ?thesis by simp
    next
      case True
      then have "q mod 16 \<noteq> p mod 16" using q(2) by (metis div_mult_mod_eq)
      moreover from True have "q mod 16 \<noteq> p mod 16 + 1" using q(3) by (metis add.assoc div_mult_mod_eq)
      moreover have "entry_sector s cs q = entry_sector s cs p"
        using True by (simp add: entry_sector_def entry_dir_cluster_alt entry_sector_num_def)
      ultimately show ?thesis using upd [OF q(1)] True new(1) [of "q mod 16"] q(1) by (simp add: nth_dir_entries)
    qed
  }
  show "dir_entries C' s cs ! p = stored_entry name attr i" using upd [OF p(1)] new(2) by simp
  have next_in: "(p + 1) div 16 = p div 16" "(p + 1) mod 16 = p mod 16 + 1" using p(2) by (simp_all add: div_Suc mod_Suc)
  have "p + 1 < length cs * (16 * spc s)"
  proof -
    have "p div 16 < length cs * spc s" using p(1) by (simp add: div_less_iff_less_mult mult.assoc mult.commute mult.left_commute)
    with next_in(1) have "(p + 1) div 16 < length cs * spc s" by simp
    then show ?thesis by (simp add: div_less_iff_less_mult mult.assoc mult.commute mult.left_commute)
  qed
  with upd [of "p + 1"] next_in new(3) p(2)
  show "p + 1 < length cs * (16 * spc s) \<and> filename (dir_entries C' s cs ! (p + 1)) ! 0 = 0" by simp
qed

lemma scan_created:
  assumes chain: "data_chain nb s cs" and p: "p < length cs * (16 * spc s)" "p mod 16 < 15" and name: "length name = 11"
    and len: "\<And>k. length (C k) = 512" and i: "i < 128"
    and C': "C' = C(reserved s := fb, unat (entry_sector s cs p) :=
      new_dir_sector name attr i (p mod 16) (C (unat (entry_sector s cs p))))"
    and fresh: "scan (map clean_char name) (take p (dir_entries C s cs)) = None"
    and usable: "\<not> skipped (stored_entry name attr i)"
  shows "scan (map clean_char name) (dir_entries C' s cs) = Some ((if attr = 0x10 then Recurse else Return) (of_nat i))"
proof -
  let ?E = "dir_entries C' s cs"
  have take_eq: "take p ?E = take p (dir_entries C s cs)"
    using p(1) created_entries(1) [OF chain p name len C'] by (intro nth_equalityI) auto
  have "p < length ?E" using p(1) by simp
  then have E: "?E = take p ?E @ ?E ! p # drop (Suc p) ?E" by (rule id_take_nth_drop)
  have at_p: "?E ! p = stored_entry name attr i" by (rule created_entries(2) [OF chain p name len C'])
  have nz: "map clean_char name ! 0 \<noteq> 0" using name by (auto simp: clean_char_def)
  show ?thesis
    by (subst E) (use fresh usable at_p nz take_eq i in \<open>simp add: scan_append stored_entry_cluster; simp add: stored_entry_def\<close>)
qed

context block_device begin

lemma createFile_creates:
  assumes res: "resolves (contents (device s)) nblocks s (rootClusterNum (extendedBootRecord s)) (tl (components path)) c"
    and path: "0 \<notin> set path"
    and chain: "data_chain nblocks s (c # cs)" and dev_ok: "ok (device s)" "bps s = 512" "reserved s < nblocks"
    and p: "p < length (c # cs) * (16 * spc s)" "p mod 16 < 15"
    and free: "first_free s = Some i" "i < 128" and name: "length name = 11"
    and before: "\<And>q. q < p \<Longrightarrow> filename (dir_entries (contents (device s)) s (c # cs) ! q) ! 0 \<noteq> 0"
    and end_mark: "filename (dir_entries (contents (device s)) s (c # cs) ! p) ! 0 = 0"
  shows "\<exists>d. createFile dev (path @ [0]) name attr s = Ok (int i, (created_fs i s)\<lparr>device := d\<rparr>)
    \<and> ok d \<and> contents d = (contents (device s))(reserved s := FAT_sector_bytes ((FAT s)[i := 0x0FFFFFFF]),
      unat (entry_sector s (c # cs) p) := new_dir_sector name attr i (p mod 16)
        (contents (device s) (unat (entry_sector s (c # cs) p))))"
proof -
  note data = data_chain_simps [OF chain]
  have c: "c \<noteq> 0xFFFFFFFF" using data(4) [of c] by (auto simp: FAT_SIZE_def)
  from searchFile_resolves [OF res dev_ok(1) path data(2) dev_ok(2)] c obtain d where
    d: "searchFile dev (path @ [0]) s = Ok (sint c, s\<lparr>device := d\<rparr>)" "ok d" "contents d = contents (device s)" by auto
  let ?s = "s\<lparr>device := d\<rparr>"
  note geo = same_geometry [of ?s s, simplified]
  have "data_chain nblocks ?s (c # cs)" using chain by (simp add: data_chain_def)
  from create_walk [OF this, of p i name attr] d dev_ok p free name before end_mark obtain d' where
    "walk_directory dev (create_visit dev name attr) (-1) c ?s = Ok (int i, (created_fs i s)\<lparr>device := d'\<rparr>)" "ok d'"
    "contents d' = (contents (device s))(reserved s := FAT_sector_bytes ((FAT s)[i := 0x0FFFFFFF]),
      unat (entry_sector s (c # cs) p) := new_dir_sector name attr i (p mod 16)
        (contents (device s) (unat (entry_sector s (c # cs) p))))"
    by (auto simp: geo)
  with d(1) show ?thesis by (intro exI [of _ d']) (simp add: createFile_def)
qed

end
end
