(* ===== verification/Fat32_Delete.thy ===== *)
theory Fat32_Delete
  imports Fat32_Create
begin

text \<open>
  What \<open>deleteFile\<close> of file-system/fat32.c does: the entry is flagged as deleted, its chain
  freed, and the walk goes on to the end of the directory, where it returns -2.
\<close>

section \<open>The visit that deletes\<close>

definition erase_entry :: "nat \<Rightarrow> byte list \<Rightarrow> byte list" where
  "erase_entry k b = take (32 * k) b @ 0xE5 # replicate 31 0 @ drop (32 * k + 32) b"

lemma length_erase_entry [simp]: "length b = 512 \<Longrightarrow> k < 16 \<Longrightarrow> length (erase_entry k b) = 512"
  by (simp add: erase_entry_def)

lemma nth_erase_other:
  "length b = 512 \<Longrightarrow> k < 16 \<Longrightarrow> i < 32 * k \<or> 32 * k + 32 \<le> i \<Longrightarrow> i < 512 \<Longrightarrow> erase_entry k b ! i = b ! i"
proof -
  assume b: "length b = 512" "k < 16" and i: "i < 32 * k \<or> 32 * k + 32 \<le> i" "i < 512"
  show ?thesis
  proof (cases "i < 32 * k")
    case True
    with b show ?thesis by (simp add: erase_entry_def nth_append)
  next
    case False
    with i(1) obtain d where "i = 32 * k + 32 + d" using le_Suc_ex by blast
    with b i(2) show ?thesis by (simp add: erase_entry_def nth_append nth_Cons')
  qed
qed

lemma decode_erase_other:
  assumes "length b = 512" "k < 16" "k' < 16" "k' \<noteq> k"
  shows "decode_entry (erase_entry k b) (32 * k') f = decode_entry b (32 * k') f"
proof (rule decode_cong)
  fix i assume i: "32 * k' \<le> i" "i < 32 * k' + 32"
  with assms(3,4) have "i < 32 * k \<or> 32 * k + 32 \<le> i" "i < 512" by auto
  with assms show "erase_entry k b ! i = b ! i" by (simp add: nth_erase_other)
qed (use assms in simp_all)

lemma decode_erase_same:
  assumes "length b = 512" "k < 16"
  shows "decode_entry (erase_entry k b) (32 * k) f =
    f\<lparr>filename := 0xE5 # replicate 10 0, attributes := 0, first_cluster_hi := 0, first_cluster_lo := 0, file_size := 0\<rparr>"
proof -
  have r: "(replicate 31 (0::byte)) = replicate 10 0 @ replicate 21 0" by (simp add: replicate_add [symmetric])
  show ?thesis using assms by (simp add: decode_entry_def erase_entry_def nth_append nth_Cons' r)
qed

lemma erase_rounds:
  "a \<le> b \<Longrightarrow> b \<le> length sec \<Longrightarrow>
   for_each [a..<b] (\<lambda>j sec. bind (aput sec j 0x00) (\<lambda>sec. Ok (Inl sec))) sec
     = Ok (Inl (take a sec @ replicate (b - a) 0 @ drop b sec))"
proof (induction b rule: dec_induct)
  case base
  show ?case by simp
next
  case (step n)
  then have "drop n sec = sec ! n # drop (Suc n) sec" by (simp add: Cons_nth_drop_Suc)
  with step show ?case
    by (simp add: for_each_append list_update_append replicate_append_same [symmetric] Suc_diff_le)
qed

lemma getDirectoryEntry_blank:
  "length b = 512 \<Longrightarrow> k < 16 \<Longrightarrow> getDirectoryEntry b blank_entry (int (32 * k)) = Ok (decode_entry b (32 * k) blank_entry)"
  by (intro getDirectoryEntry_slot) simp_all

lemma delete_visit_quiet:
  assumes "length b = 512" "k < 16" "length name = 11" and "filename (decode_entry b (32 * k) blank_entry) ! 0 \<noteq> 0"
    and "filename (decode_entry b (32 * k) blank_entry) \<noteq> name"
  shows "delete_visit dev name c j n (32 * k) (b, s) = Ok (Inl (b, s))"
proof -
  have "compareFilename name (filename (decode_entry b (32 * k) blank_entry)) = Ok 0"
    using assms by (subst compareFilename_names) (auto simp: decode_entry_def)
  with assms getDirectoryEntry_blank [OF assms(1,2)] show ?thesis by (simp add: delete_visit_def del: of_nat_mult)
qed

lemma delete_visit_end:
  assumes "length b = 512" "k < 16" and "filename (decode_entry b (32 * k) blank_entry) ! 0 = 0"
  shows "delete_visit dev name c j n (32 * k) (b, s) = Ok (Inr (-2, s))"
  using assms getDirectoryEntry_blank [OF assms(1,2)] by (simp add: delete_visit_def del: of_nat_mult)

context block_device begin

lemma delete_visit_deletes:
  assumes b: "length b = 512" "k < 16" and name: "length name = 11"
    and e: "filename (decode_entry b (32 * k) blank_entry) = name" "name ! 0 \<noteq> 0"
      "entry_cluster (decode_entry b (32 * k) blank_entry) = f"
    and chain: "is_chain (FAT s) (f # fs)" "length (FAT s) = FAT_SIZE" "unat f < 128"
    and dev_ok: "ok (device s)" "unat n < nblocks" "reserved s < nblocks"
  shows "\<exists>d. delete_visit dev name c j n (32 * k) (b, s) =
      Ok (Inl (erase_entry k b, s\<lparr>FAT := clear_all (FAT s) (f # fs), device := d\<rparr>))
    \<and> ok d \<and> contents d = (contents (device s))(reserved s := FAT_sector_bytes (clear_all (FAT s) (f # fs)), unat n := erase_entry k b)"
proof -
  let ?F = "clear_all (FAT s) (f # fs)"
  let ?s = "s\<lparr>FAT := ?F\<rparr>"
  have free: "deleteFATchain f s = Ok ?s" using delete_chain_clears [OF chain(1)] by (simp add: deleteFATchain_def)
  from copyFATtoDisk_stores [of ?s f] chain dev_ok obtain d1 where
    d1: "copyFATtoDisk dev f ?s = Ok (?s\<lparr>device := d1\<rparr>)" "ok d1"
      "contents d1 = (contents (device s))(reserved s := FAT_sector_bytes ?F)" by (auto simp: FAT_SIZE_def)
  from write_block [OF d1(2) dev_ok(2), of "erase_entry k b"] b obtain d2 where
    d2: "bwrite dev (erase_entry k b) n d1 = Ok (0, d2)" "ok d2" "contents d2 = (contents d1)(unat n := erase_entry k b)" by auto
  have put: "aput b (32 * k) 0xE5 = Ok (b[32 * k := 0xE5])" using b by simp
  have "drop (32 * k) b = b ! (32 * k) # drop (Suc (32 * k)) b" using b by (simp add: Cons_nth_drop_Suc)
  then have fill: "for_each [32 * k + 1..<32 * k + 32] (\<lambda>j sec. bind (aput sec j 0x00) (\<lambda>sec. Ok (Inl sec))) (b[32 * k := 0xE5])
      = (Ok (Inl (erase_entry k b)) :: (byte list + byte list) res)"
    using b by (subst erase_rounds) (simp_all add: erase_entry_def take_Suc_conv_app_nth)
  have "compareFilename name (filename (decode_entry b (32 * k) blank_entry)) = Ok 1"
    using e(1) name by (simp add: compareFilename_names)
  then have "delete_visit dev name c j n (32 * k) (b, s) = Ok (Inl (erase_entry k b, ?s\<lparr>device := d2\<rparr>))"
    using getDirectoryEntry_blank [OF b] e free d1(1) d2(1) put fill
    by (simp add: delete_visit_def write_buf_def del: of_nat_mult)
  with d1 d2 show ?thesis by (intro exI [of _ d2]) simp
qed

end

section \<open>Deleting a file\<close>

definition deleted_fs :: "dword list \<Rightarrow> 'd fs \<Rightarrow> 'd fs" where
  "deleted_fs fs s = s\<lparr>FAT := clear_all (FAT s) fs\<rparr>"

definition no_match :: "byte list \<Rightarrow> DirectoryEntry \<Rightarrow> bool" where
  "no_match name e \<longleftrightarrow> filename e ! 0 \<noteq> 0 \<and> filename e \<noteq> name"

lemma quiet_delete:
  assumes "q < length cs * (16 * spc s)" and "no_match name (dir_entries C s cs ! q)" and "length name = 11"
    and "\<And>k. length (C k) = 512"
  shows "quiet (delete_visit dev name) s C cs q"
  using assms by (simp add: quiet_def Let_def delete_visit_quiet nth_dir_entries no_match_def)

lemma deleted_entries:
  assumes chain: "data_chain nb s cs" and p: "p < length cs * (16 * spc s)" and len: "\<And>k. length (C k) = 512"
    and C': "C' = C(reserved s := fb, unat (entry_sector s cs p) := erase_entry (p mod 16) (C (unat (entry_sector s cs p))))"
  shows "q < length cs * (16 * spc s) \<Longrightarrow> q \<noteq> p \<Longrightarrow> dir_entries C' s cs ! q = dir_entries C s cs ! q"
    and "filename (dir_entries C' s cs ! p) = 0xE5 # replicate 10 0"
proof -
  note upd = nth_dir_entries_update [OF chain p, of _ C fb "erase_entry (p mod 16) (C (unat (entry_sector s cs p)))", folded C']
  {
    assume q: "q < length cs * (16 * spc s)" "q \<noteq> p"
    show "dir_entries C' s cs ! q = dir_entries C s cs ! q"
    proof (cases "q div 16 = p div 16")
      case False
      with upd [OF q(1)] show ?thesis by simp
    next
      case True
      then have "q mod 16 \<noteq> p mod 16" using q(2) by (metis div_mult_mod_eq)
      moreover have "entry_sector s cs q = entry_sector s cs p"
        using True by (simp add: entry_sector_def entry_dir_cluster_alt entry_sector_num_def)
      ultimately show ?thesis using upd [OF q(1)] True q(1) len by (simp add: nth_dir_entries decode_erase_other)
    qed
  }
  show "filename (dir_entries C' s cs ! p) = 0xE5 # replicate 10 0" using upd [OF p] len by (simp add: decode_erase_same)
qed

context block_device begin

lemma delete_walk_missing:
  assumes chain: "data_chain nblocks s (c # cs)" and dev_ok: "ok (device s)" "bps s = 512"
    and p: "p < length (c # cs) * (16 * spc s)" and name: "length name = 11"
    and before: "\<And>q. q < p \<Longrightarrow> no_match name (dir_entries (contents (device s)) s (c # cs) ! q)"
    and end_mark: "filename (dir_entries (contents (device s)) s (c # cs) ! p) ! 0 = 0"
  shows "\<exists>d. walk_directory dev (delete_visit dev name) 0 c s = Ok (-2, s\<lparr>device := d\<rparr>)
    \<and> ok d \<and> contents d = contents (device s)"
proof -
  let ?n = "entry_sector s (c # cs) p" and ?v = "delete_visit dev name"
  let ?b = "contents (device s) (unat ?n)"
  have len: "length (contents (device s) k) = 512" for k using length_contents dev_ok(1) by blast
  have "quiet ?v s (contents (device s)) (c # cs) q" if "q < p" for q
    using that before p len name by (intro quiet_delete) auto
  from walk_to_entry [OF chain dev_ok p this, of 0] obtain d where d: "ok d" "contents d = contents (device s)"
    "walk_directory dev ?v 0 c s = walk_at dev ?v 0 (c # cs) p ?b (s\<lparr>device := d\<rparr>)" by auto
  have e: "filename (decode_entry ?b (32 * (p mod 16)) blank_entry) ! 0 = 0" using end_mark p by (simp add: nth_dir_entries)
  have "walk_at dev ?v 0 (c # cs) p ?b (s\<lparr>device := d\<rparr>) = Ok (-2, s\<lparr>device := d\<rparr>)"
    unfolding walk_at_def same_geometry [of "s\<lparr>device := d\<rparr>" s, simplified]
    using e len by (intro walk_rest_return) (simp_all add: delete_visit_end)
  with d show ?thesis by auto
qed

lemma delete_walk:
  assumes chain: "data_chain nblocks s (c # cs)" and dev_ok: "ok (device s)" "bps s = 512" "reserved s < nblocks"
    and p: "p < r" "r < length (c # cs) * (16 * spc s)" and name: "length name = 11" "name ! 0 \<noteq> 0"
    and others: "\<And>q. q < r \<Longrightarrow> q \<noteq> p \<Longrightarrow> no_match name (dir_entries (contents (device s)) s (c # cs) ! q)"
    and match: "filename (dir_entries (contents (device s)) s (c # cs) ! p) = name"
      "entry_cluster (dir_entries (contents (device s)) s (c # cs) ! p) = f"
    and end_mark: "filename (dir_entries (contents (device s)) s (c # cs) ! r) ! 0 = 0"
    and fchain: "is_chain (FAT s) (f # fs)" "unat f < 128" "set (f # fs) \<inter> set (c # cs) = {}"
  shows "\<exists>d. walk_directory dev (delete_visit dev name) 0 c s = Ok (-2, (deleted_fs (f # fs) s)\<lparr>device := d\<rparr>)
    \<and> ok d \<and> contents d = (contents (device s))(reserved s := FAT_sector_bytes (clear_all (FAT s) (f # fs)),
      unat (entry_sector s (c # cs) p) := erase_entry (p mod 16) (contents (device s) (unat (entry_sector s (c # cs) p))))"
proof -
  let ?n = "entry_sector s (c # cs) p" and ?v = "delete_visit dev name" and ?C = "contents (device s)"
  let ?b = "?C (unat ?n)"
  define C' where "C' = ?C(reserved s := FAT_sector_bytes (clear_all (FAT s) (f # fs)), unat ?n := erase_entry (p mod 16) ?b)"
  note data = data_chain_simps [OF chain]
  have pN: "p < length (c # cs) * (16 * spc s)" using p by simp
  have len: "length (?C k) = 512" for k using length_contents dev_ok(1) by blast
  have len': "length (C' k) = 512" for k using len data(2) by (simp add: C'_def FAT_SIZE_def)
  have "quiet ?v s ?C (c # cs) q" if "q < p" for q
    using that others p len name by (intro quiet_delete) auto
  from walk_to_entry [OF chain dev_ok(1,2) pN this, of 0] obtain d where d: "ok d" "contents d = ?C"
    "walk_directory dev ?v 0 c s = walk_at dev ?v 0 (c # cs) p ?b (s\<lparr>device := d\<rparr>)" by auto
  have n: "unat ?n < nblocks" using data(3) pN by (intro entry_sector_readable) auto
  from delete_visit_deletes [of ?b "p mod 16" name f "s\<lparr>device := d\<rparr>" fs ?n "entry_dir_cluster s (c # cs) p" "entry_sector_num s p"]
    len match name fchain data(2) d n dev_ok(3) pN obtain d1 where
    d1: "?v (entry_dir_cluster s (c # cs) p) (entry_sector_num s p) ?n (32 * (p mod 16)) (?b, s\<lparr>device := d\<rparr>) =
      Ok (Inl (erase_entry (p mod 16) ?b, (deleted_fs (f # fs) s)\<lparr>device := d1\<rparr>))" "ok d1" "contents d1 = C'"
    by (auto simp: nth_dir_entries C'_def deleted_fs_def)
  let ?s = "deleted_fs (f # fs) s"
  have geo: "biosParameterBlock (?s\<lparr>device := d\<rparr>) = biosParameterBlock s" for d by (simp add: deleted_fs_def)
  note g = same_geometry [OF geo]
  have "biosParameterBlock ?s = biosParameterBlock s" by (simp add: deleted_fs_def)
  note g0 = same_geometry [OF this]
  have chain': "is_chain (FAT ?s) (c # cs)" using is_chain_clear_other [OF data(1) fchain(3)] by (simp add: deleted_fs_def)
  have b': "erase_entry (p mod 16) ?b = contents d1 (unat ?n)" by (simp add: d1(3) C'_def)
  from walk_at_step [of "?s\<lparr>device := d1\<rparr>" "c # cs" p "s\<lparr>device := d\<rparr>" ?v ?b "erase_entry (p mod 16) ?b" 0]
    chain' p d1 geo [of d1] dev_ok(2) data(3) b' obtain d2 where
    d2: "ok d2" "contents d2 = C'" "walk_at dev ?v 0 (c # cs) p ?b (s\<lparr>device := d\<rparr>) =
      walk_at dev ?v 0 (c # cs) (Suc p) (C' (unat (entry_sector s (c # cs) (Suc p)))) (?s\<lparr>device := d2\<rparr>)"
    by (auto simp: same_geometry [of "s\<lparr>device := d\<rparr>" s, simplified])
  have E': "dir_entries C' ?s (c # cs) ! q = dir_entries ?C s (c # cs) ! q" if "q < length (c # cs) * (16 * spc s)" "q \<noteq> p" for q
    using deleted_entries(1) [OF chain pN, where C = ?C and C' = C', OF len C'_def that] by (simp add: g0)
  have quiet': "quiet ?v ?s C' (c # cs) q" if "Suc p \<le> q" "q < r" for q
    using that others [of q] E' [of q] p name len' by (intro quiet_delete) (auto simp: deleted_fs_def)
  have "bps ?s = 512" "spc ?s = spc s" using dev_ok(2) by (simp_all add: deleted_fs_def)
  with walk_quiet [of ?s "c # cs" "Suc p" r ?v C' d2 0, OF chain' _ _ _ _ quiet' d2(1,2)] data(3) p obtain d3 where
    d3: "ok d3" "contents d3 = C'" "walk_at dev ?v 0 (c # cs) (Suc p) (C' (unat (entry_sector s (c # cs) (Suc p)))) (?s\<lparr>device := d2\<rparr>)
      = walk_at dev ?v 0 (c # cs) r (C' (unat (entry_sector s (c # cs) r))) (?s\<lparr>device := d3\<rparr>)"
    by (auto simp: g0)
  have e: "filename (decode_entry (C' (unat (entry_sector s (c # cs) r))) (32 * (r mod 16)) blank_entry) ! 0 = 0"
    using end_mark E' [of r] p by (simp add: nth_dir_entries g0 \<open>spc ?s = spc s\<close>)
  have "walk_at dev ?v 0 (c # cs) r (C' (unat (entry_sector s (c # cs) r))) (?s\<lparr>device := d3\<rparr>) = Ok (-2, ?s\<lparr>device := d3\<rparr>)"
    unfolding walk_at_def g using e len' by (intro walk_rest_return) (simp_all add: delete_visit_end)
  with d(3) d2(3) d3 show ?thesis by (intro exI [of _ d3]) (simp add: C'_def)
qed

text \<open>The directory of a path, found and walked.\<close>

lemma search_then_walk:
  assumes res: "resolves (contents (device s)) nblocks s (rootClusterNum (extendedBootRecord s)) (tl (components path)) c"
    and path: "0 \<notin> set path" and chain: "data_chain nblocks s (c # cs)" and dev_ok: "ok (device s)" "bps s = 512"
  shows "\<exists>d. deleteFile dev (path @ [0]) name s = walk_directory dev (delete_visit dev name) 0 c (s\<lparr>device := d\<rparr>)
    \<and> ok d \<and> contents d = contents (device s) \<and> data_chain nblocks (s\<lparr>device := d\<rparr>) (c # cs)"
proof -
  note data = data_chain_simps [OF chain]
  have c: "c \<noteq> 0xFFFFFFFF" using data(4) [of c] by (auto simp: FAT_SIZE_def)
  from searchFile_resolves [OF res dev_ok(1) path data(2) dev_ok(2)] c obtain d where
    d: "searchFile dev (path @ [0]) s = Ok (sint c, s\<lparr>device := d\<rparr>)" "ok d" "contents d = contents (device s)" by auto
  have "data_chain nblocks (s\<lparr>device := d\<rparr>) (c # cs)" using chain by (simp add: data_chain_def)
  with d show ?thesis by (intro exI [of _ d]) (simp add: deleteFile_def)
qed

lemma deleteFile_deletes:
  assumes res: "resolves (contents (device s)) nblocks s (rootClusterNum (extendedBootRecord s)) (tl (components path)) c"
    and path: "0 \<notin> set path" and chain: "data_chain nblocks s (c # cs)"
    and dev_ok: "ok (device s)" "bps s = 512" "reserved s < nblocks"
    and p: "p < r" "r < length (c # cs) * (16 * spc s)" and name: "length name = 11" "name ! 0 \<noteq> 0"
    and others: "\<And>q. q < r \<Longrightarrow> q \<noteq> p \<Longrightarrow> no_match name (dir_entries (contents (device s)) s (c # cs) ! q)"
    and match: "filename (dir_entries (contents (device s)) s (c # cs) ! p) = name"
      "entry_cluster (dir_entries (contents (device s)) s (c # cs) ! p) = f"
    and end_mark: "filename (dir_entries (contents (device s)) s (c # cs) ! r) ! 0 = 0"
    and fchain: "is_chain (FAT s) (f # fs)" "unat f < 128" "set (f # fs) \<inter> set (c # cs) = {}"
  shows "\<exists>d. deleteFile dev (path @ [0]) name s = Ok (-2, (deleted_fs (f # fs) s)\<lparr>device := d\<rparr>)
    \<and> ok d \<and> contents d = (contents (device s))(reserved s := FAT_sector_bytes (clear_all (FAT s) (f # fs)),
      unat (entry_sector s (c # cs) p) := erase_entry (p mod 16) (contents (device s) (unat (entry_sector s (c # cs) p))))"
proof -
  from search_then_walk [OF res path chain dev_ok(1,2), of name] obtain d where
    d: "deleteFile dev (path @ [0]) name s = walk_directory dev (delete_visit dev name) 0 c (s\<lparr>device := d\<rparr>)"
      "ok d" "contents d = contents (device s)" "data_chain nblocks (s\<lparr>device := d\<rparr>) (c # cs)" by auto
  note geo = same_geometry [of "s\<lparr>device := d\<rparr>" s, simplified]
  have upd: "(deleted_fs fs (s\<lparr>device := d\<rparr>))\<lparr>device := d'\<rparr> = (deleted_fs fs s)\<lparr>device := d'\<rparr>" for fs d'
    by (simp add: deleted_fs_def)
  from delete_walk [OF d(4), of p r name f fs] d dev_ok p name others match end_mark fchain show ?thesis
    by (simp add: geo upd)
qed

lemma deleteFile_missing:
  assumes res: "resolves (contents (device s)) nblocks s (rootClusterNum (extendedBootRecord s)) (tl (components path)) c"
    and path: "0 \<notin> set path" and chain: "data_chain nblocks s (c # cs)" and dev_ok: "ok (device s)" "bps s = 512"
    and p: "p < length (c # cs) * (16 * spc s)" and name: "length name = 11"
    and before: "\<And>q. q < p \<Longrightarrow> no_match name (dir_entries (contents (device s)) s (c # cs) ! q)"
    and end_mark: "filename (dir_entries (contents (device s)) s (c # cs) ! p) ! 0 = 0"
  shows "\<exists>d. deleteFile dev (path @ [0]) name s = Ok (-2, s\<lparr>device := d\<rparr>) \<and> ok d \<and> contents d = contents (device s)"
proof -
  from search_then_walk [OF res path chain dev_ok, of name] obtain d where
    d: "deleteFile dev (path @ [0]) name s = walk_directory dev (delete_visit dev name) 0 c (s\<lparr>device := d\<rparr>)"
      "ok d" "contents d = contents (device s)" "data_chain nblocks (s\<lparr>device := d\<rparr>) (c # cs)" by auto
  note geo = same_geometry [of "s\<lparr>device := d\<rparr>" s, simplified]
  from delete_walk_missing [OF d(4), of p name] d dev_ok p name before end_mark show ?thesis by (simp add: geo)
qed

end
end
