(* ===== verification/Fat32_File.thy ===== *)
theory Fat32_File
  imports Fat32_Delete
begin

text \<open>
  Reading and writing the bytes of a file (\<open>readFile\<close> and \<open>writeFile\<close> of
  file-system/fat32.c). The variables of the transfer loops are the record \<open>'d transfer\<close>; the
  caller's buffer is the list of its bytes. C \<open>int\<close> variables are integers: the largest value
  they take, \<open>offset + size\<close>, stays below \<open>2^31\<close> for every buffer that fits in memory.
\<close>

section \<open>Code\<close>

record 'd transfer =
  cluster :: dword
  clusterSectorNum :: int
  disk_sector :: dword
  localBuffer :: "byte list"
  buffer :: "byte list"
  remainingBytes :: int
  buffer_it :: int
  sector_it :: int
  vol :: "'d fs"

text \<open>\<open>while (clusterChainNum > 0) { cluster = FAT[cluster]; clusterChainNum--; }\<close>\<close>

definition follow :: "'d fs \<Rightarrow> nat \<Rightarrow> dword \<Rightarrow> dword res" where
  "follow s n c = bind (for_each [0..<n] (\<lambda>_ c. bind (aget (FAT s) (unat c)) (\<lambda>v. Ok (Inl v))) c) (\<lambda>r.
     Ok (case r of Inl c \<Rightarrow> c | Inr c \<Rightarrow> c))"

text \<open>The part both functions begin with; \<open>offset\<close> is \<open>startByte % bytesPerSector\<close>.\<close>

definition start_transfer :: "'d blockdev \<Rightarrow> dword \<Rightarrow> byte list \<Rightarrow> int \<Rightarrow> int \<Rightarrow> 'd fs \<Rightarrow> 'd transfer res" where
  "start_transfer dev startingCluster buf len startByte s =
     (let bytesPerCluster = int (bps s) * int (spc s) in
      if bytesPerCluster = 0 then Fault DivByZero
      else
        (let clusterChainNum = startByte sdiv bytesPerCluster;
             csn = (startByte smod bytesPerCluster) sdiv int (bps s);
             offset = startByte smod int (bps s) in
         bind (follow s (nat clusterChainNum) startingCluster) (\<lambda>c.
         let n = getDiskSector s c csn in
         bind (read_buf dev (bps s) None n s) (\<lambda>(b, s).
         Ok \<lparr>cluster = c, clusterSectorNum = csn, disk_sector = n, localBuffer = b, buffer = buf,
             remainingBytes = len, buffer_it = offset, sector_it = offset, vol = s\<rparr>))))"

definition load :: "'d blockdev \<Rightarrow> 'd transfer \<Rightarrow> 'd transfer res" where
  "load dev t = bind (read_buf dev (bps (vol t)) (Some (localBuffer t)) (disk_sector t) (vol t)) (\<lambda>(b, s).
     Ok (t\<lparr>localBuffer := b, vol := s, sector_it := 0\<rparr>))"

text \<open>The end of a sector while reading; \<open>None\<close> is the \<open>break\<close>.\<close>

definition read_next :: "'d blockdev \<Rightarrow> 'd transfer \<Rightarrow> ('d transfer + 'd transfer) res" where
  "read_next dev t =
     (if sector_it t = int (bps (vol t)) then
        if clusterSectorNum t < int (spc (vol t)) then
          bind (load dev (t\<lparr>disk_sector := disk_sector t + 1, clusterSectorNum := clusterSectorNum t + 1\<rparr>)) (\<lambda>t. Ok (Inl t))
        else bind (aget (FAT (vol t)) (unat (cluster t))) (\<lambda>c.
          if 0x0FFFFFF7 < c then Ok (Inr (t\<lparr>cluster := c\<rparr>))
          else bind (load dev (t\<lparr>cluster := c, clusterSectorNum := 0, disk_sector := getDiskSector (vol t) c 0\<rparr>)) (\<lambda>t. Ok (Inl t)))
      else Ok (Inl t))"

definition read_round :: "'d blockdev \<Rightarrow> int \<Rightarrow> 'd transfer \<Rightarrow> ('d transfer + 'd transfer) res" where
  "read_round dev offset t =
     (if 0 < remainingBytes t then
        bind (read_next dev t) (\<lambda>r. case r of Inr t \<Rightarrow> Ok (Inr t) | Inl t \<Rightarrow>
        bind (aget_int (localBuffer t) (sector_it t)) (\<lambda>c.
        bind (aput_int (buffer t) (buffer_it t - offset) c) (\<lambda>buf.
        Ok (Inl (t\<lparr>buffer := buf, buffer_it := buffer_it t + 1, sector_it := sector_it t + 1,
          remainingBytes := remainingBytes t - 1\<rparr>)))))
      else Ok (Inr t))"

definition readFile :: "'d blockdev \<Rightarrow> dword \<Rightarrow> byte list \<Rightarrow> int \<Rightarrow> int \<Rightarrow> 'd fs \<Rightarrow> (int \<times> byte list \<times> 'd fs) res" where
  "readFile dev startingCluster buf len startByte s =
     bind (start_transfer dev startingCluster buf len startByte s) (\<lambda>t.
     bind (loop (read_round dev (sector_it t)) t) (\<lambda>t. Ok (0, buffer t, vol t)))"

definition write_next :: "'d blockdev \<Rightarrow> dword \<Rightarrow> 'd transfer \<Rightarrow> 'd transfer res" where
  "write_next dev startingCluster t =
     (if sector_it t = int (bps (vol t)) then
        bind (write_buf dev (localBuffer t) (disk_sector t) (vol t)) (\<lambda>s.
        let t = t\<lparr>vol := s\<rparr> in
        if clusterSectorNum t < int (spc (vol t)) then
          load dev (t\<lparr>disk_sector := disk_sector t + 1, clusterSectorNum := clusterSectorNum t + 1\<rparr>)
        else bind (aget (FAT (vol t)) (unat (cluster t))) (\<lambda>c.
          bind (if 0x0FFFFFF7 < c then allocateCluster startingCluster (vol t) else Ok (c, vol t)) (\<lambda>(c, s).
          load dev (t\<lparr>cluster := c, disk_sector := getDiskSector s c 0, vol := s\<rparr>))))
      else Ok t)"

definition write_round :: "'d blockdev \<Rightarrow> dword \<Rightarrow> int \<Rightarrow> 'd transfer \<Rightarrow> ('d transfer + 'd transfer) res" where
  "write_round dev startingCluster offset t =
     (if 0 < remainingBytes t then
        bind (write_next dev startingCluster t) (\<lambda>t.
        bind (aget_int (buffer t) (buffer_it t - offset)) (\<lambda>c.
        bind (aput_int (localBuffer t) (sector_it t) c) (\<lambda>b.
        Ok (Inl (t\<lparr>localBuffer := b, buffer_it := buffer_it t + 1, sector_it := sector_it t + 1,
          remainingBytes := remainingBytes t - 1\<rparr>)))))
      else Ok (Inr t))"

definition writeFile :: "'d blockdev \<Rightarrow> dword \<Rightarrow> byte list \<Rightarrow> int \<Rightarrow> int \<Rightarrow> 'd fs \<Rightarrow> (int \<times> 'd fs) res" where
  "writeFile dev startingCluster buf len startByte s =
     bind (start_transfer dev startingCluster buf len startByte s) (\<lambda>t.
     bind (loop (write_round dev startingCluster (sector_it t)) t) (\<lambda>t.
     bind (write_buf dev (localBuffer t) (disk_sector t) (vol t)) (\<lambda>s. Ok (0, s))))"

section \<open>Starting\<close>

lemma follow_chain [safe]:
  "is_chain (FAT s) cs \<Longrightarrow> n < length cs \<Longrightarrow> follow s n (hd cs) = Ok (cs ! n)"
proof -
  assume chain: "is_chain (FAT s) cs"
  have "n < length cs \<Longrightarrow> for_each [0..<n] (\<lambda>_ c. bind (aget (FAT s) (unat c)) (\<lambda>v. Ok (Inl v))) (hd cs)
      = (Ok (Inl (cs ! n)) :: (dword + dword) res)"
  proof (induction n)
    case 0
    then show ?case by (cases cs) auto
  next
    case (Suc n)
    then have "unat (cs ! n) < length (FAT s)" by (intro is_chain_range [OF chain]) auto
    with Suc is_chain_nth [OF chain, of n] show ?case by (simp add: for_each_append)
  qed
  then show "n < length cs \<Longrightarrow> follow s n (hd cs) = Ok (cs ! n)" by (simp add: follow_def)
qed

lemma sdiv_of_nat: "int a sdiv int b = int (a div b)"
  by (cases "b = 0") (simp_all add: sdiv_nonneg zdiv_int)

lemma smod_of_nat: "int a smod int b = int (a mod b)"
  by (cases "b = 0") (simp_all add: smod_nonneg zmod_int)

context block_device begin

lemma start_transfer_starts [safe]:
  assumes "is_chain (FAT s) cs" and "start div (512 * spc s) < length cs" and "bps s = 512" and "0 < spc s"
    and n: "n = getDiskSector s (cs ! (start div (512 * spc s))) (int (start div 512 mod spc s))" "unat n < nblocks"
    and "ok (device s)"
  shows "\<exists>d. start_transfer dev (hd cs) buf len (int start) s = Ok \<lparr>cluster = cs ! (start div (512 * spc s)),
      clusterSectorNum = int (start div 512 mod spc s), disk_sector = n, localBuffer = contents (device s) (unat n),
      buffer = buf, remainingBytes = len, buffer_it = int (start mod 512), sector_it = int (start mod 512),
      vol = s\<lparr>device := d\<rparr>\<rparr> \<and> ok d \<and> contents d = contents (device s)"
proof -
  from read_buf_block [OF assms(7) n(2), of None] obtain d where
    d: "read_buf dev 512 None n s = Ok (contents (device s) (unat n), s\<lparr>device := d\<rparr>)" "ok d" "contents d = contents (device s)" by auto
  have spc0: "uint (sectorsPerCluster (biosParameterBlock s)) \<noteq> 0" using assms(4) by (auto simp: unsigned_eq_0_iff)
  have "start mod (512 * spc s) div 512 = start div 512 mod spc s" by (simp add: mod_mult2_eq)
  then have eqs: "nat (int start sdiv (int 512 * int (spc s))) = start div (512 * spc s)"
    "(int start smod (int 512 * int (spc s))) sdiv int 512 = int (start div 512 mod spc s)"
    "int start smod int 512 = int (start mod 512)"
    using sdiv_of_nat [of start "512 * spc s"] smod_of_nat [of start "512 * spc s"] smod_of_nat [of start 512]
      sdiv_of_nat [of "start mod (512 * spc s)" 512] by simp_all
  have "start_transfer dev (hd cs) buf len (int start) s = Ok \<lparr>cluster = cs ! (start div (512 * spc s)),
      clusterSectorNum = int (start div 512 mod spc s), disk_sector = n, localBuffer = contents (device s) (unat n),
      buffer = buf, remainingBytes = len, buffer_it = int (start mod 512), sector_it = int (start mod 512),
      vol = s\<lparr>device := d\<rparr>\<rparr>"
    using assms(3) spc0 follow_chain [OF assms(1,2)] d(1) n(1)
    unfolding start_transfer_def Let_def assms(3) eqs by simp
  with d show ?thesis by blast
qed

end

section \<open>What reading copies\<close>

text \<open>
  The sectors that \<open>readFile\<close> runs through from cluster to cluster: the test
  \<open>clusterSectorNum < sectorsPerCluster\<close> lets it go to the sector behind the last one of
  the cluster before it follows the chain, so there are \<open>spc + 1\<close> to a cluster.
\<close>

definition run_sector :: "'d fs \<Rightarrow> dword list \<Rightarrow> nat \<Rightarrow> dword" where
  "run_sector s cs y = getDiskSector s (cs ! (y div (spc s + 1))) (int (y mod (spc s + 1)))"

definition run_byte :: "(nat \<Rightarrow> byte list) \<Rightarrow> 'd fs \<Rightarrow> dword list \<Rightarrow> nat \<Rightarrow> byte" where
  "run_byte C s cs x = C (unat (run_sector s cs (x div 512))) ! (x mod 512)"

text \<open>The bytes of the file itself, and how many of them a read from \<open>start\<close> gets.\<close>

definition file_sector :: "'d fs \<Rightarrow> dword list \<Rightarrow> nat \<Rightarrow> dword" where
  "file_sector s cs y = getDiskSector s (cs ! (y div spc s)) (int (y mod spc s))"

definition file_byte :: "(nat \<Rightarrow> byte list) \<Rightarrow> 'd fs \<Rightarrow> dword list \<Rightarrow> nat \<Rightarrow> byte" where
  "file_byte C s cs x = C (unat (file_sector s cs (x div 512))) ! (x mod 512)"

definition copied :: "byte list \<Rightarrow> (nat \<Rightarrow> byte) \<Rightarrow> nat \<Rightarrow> byte list" where
  "copied buf f n = map f [0..<n] @ drop n buf"

lemma copied_0 [simp]: "copied buf f 0 = buf"
  by (simp add: copied_def)

lemma copied_Suc: "n < length buf \<Longrightarrow> (copied buf f n)[n := f n] = copied buf f (Suc n)"
  by (simp add: copied_def list_update_append Cons_nth_drop_Suc [symmetric] del: upt_Suc) (simp add: upt_Suc)

lemma length_copied [simp]: "n \<le> length buf \<Longrightarrow> length (copied buf f n) = length buf"
  by (simp add: copied_def)

text \<open>The state of the loop after \<open>i\<close> bytes, in sector \<open>y\<close> of the run over the clusters \<open>cs\<close>.\<close>

definition at_byte where
  "at_byte d C s cs buf len pos i y t \<longleftrightarrow> vol t = s\<lparr>device := d\<rparr> \<and>
     cluster t = cs ! (y div (spc s + 1)) \<and> clusterSectorNum t = int (y mod (spc s + 1)) \<and>
     disk_sector t = run_sector s cs y \<and> localBuffer t = C (unat (run_sector s cs y)) \<and>
     buffer t = copied buf (\<lambda>i. run_byte C s cs (pos + i)) i \<and> remainingBytes t = int (len - i) \<and> i \<le> len \<and>
     buffer_it t = int (pos mod 512 + i) \<and> y * 512 \<le> pos + i \<and> pos + i \<le> y * 512 + 512 \<and>
     sector_it t = int (pos + i - y * 512)"

lemma at_byte_sector:
  assumes "at_byte d C s cs buf len pos i y t" and "bps s = 512"
  shows "(sector_it t = int (bps (vol t))) = (pos + i = y * 512 + 512)"
    "(clusterSectorNum t < int (spc (vol t))) = (y mod (spc s + 1) < spc s)"
proof -
  have v: "bps (vol t) = 512" "spc (vol t) = spc s" "sector_it t = int (pos + i - y * 512)" "clusterSectorNum t = int (y mod (spc s + 1))"
    "y * 512 \<le> pos + i" "pos + i \<le> y * 512 + 512"
    using assms by (simp_all add: at_byte_def)
  show "(sector_it t = int (bps (vol t))) = (pos + i = y * 512 + 512)"
    unfolding v(1,3) of_nat_eq_iff using v(5,6) by auto
  show "(clusterSectorNum t < int (spc (vol t))) = (y mod (spc s + 1) < spc s)"
    unfolding v(2,4) of_nat_less_iff ..
qed

context block_device begin

lemma load_sector:
  assumes "ok d" and "contents d = C" and "vol t = s\<lparr>device := d\<rparr>" and "bps s = 512" and "length (localBuffer t) = 512"
    and "unat (disk_sector t) < nblocks"
  shows "\<exists>d'. load dev t = Ok (t\<lparr>localBuffer := C (unat (disk_sector t)), vol := s\<lparr>device := d'\<rparr>, sector_it := 0\<rparr>)
    \<and> ok d' \<and> contents d' = C"
proof -
  from read_buf_block [of "s\<lparr>device := d\<rparr>" "disk_sector t" "Some (localBuffer t)"] assms obtain d' where
    "read_buf dev 512 (Some (localBuffer t)) (disk_sector t) (s\<lparr>device := d\<rparr>) = Ok (C (unat (disk_sector t)), s\<lparr>device := d'\<rparr>)"
    "ok d'" "contents d' = C" by auto
  with assms(3,4) show ?thesis by (intro exI [of _ d']) (simp add: load_def)
qed

lemma read_next_sector:
  assumes at: "at_byte d C s cs buf len pos i y t" and d: "ok d" "contents d = C" and "bps s = 512" and full: "pos + i = y * 512 + 512"
    and chain: "is_chain (FAT s) cs" and more: "Suc y < length cs * (spc s + 1)" and n: "unat (run_sector s cs (Suc y)) < nblocks"
  shows "\<exists>d' t'. read_next dev t = Ok (Inl t') \<and> ok d' \<and> contents d' = C \<and> at_byte d' C s cs buf len pos i (Suc y) t'"
proof -
  let ?m = "spc s + 1" and ?n = "run_sector s cs (Suc y)"
  note cond = at_byte_sector [OF at assms(4)]
  have vol: "vol t = s\<lparr>device := d\<rparr>" and cl: "cluster t = cs ! (y div ?m)" using at by (simp_all add: at_byte_def)
  have lb: "length (localBuffer t) = 512" using at length_contents [OF d(1)] d(2) by (simp add: at_byte_def)
  show ?thesis
  proof (cases "y mod ?m < spc s")
    case True
    then have step: "Suc y div ?m = y div ?m" "Suc y mod ?m = Suc (y mod ?m)" by (simp_all add: div_Suc mod_Suc)
    then have n': "?n = run_sector s cs y + 1" by (simp add: run_sector_def getDiskSector_def)
    let ?t = "t\<lparr>disk_sector := disk_sector t + 1, clusterSectorNum := clusterSectorNum t + 1\<rparr>"
    have ds: "disk_sector ?t = ?n" using at by (simp add: at_byte_def n')
    from load_sector [of d C ?t s] d vol assms(4) lb ds n obtain d' where
      d': "load dev ?t = Ok (?t\<lparr>localBuffer := C (unat ?n), vol := s\<lparr>device := d'\<rparr>, sector_it := 0\<rparr>)" "ok d'" "contents d' = C"
      by auto
    have "read_next dev t = bind (load dev ?t) (\<lambda>t. Ok (Inl t))" unfolding read_next_def cond using full True by simp
    moreover have "at_byte d' C s cs buf len pos i (Suc y) (?t\<lparr>localBuffer := C (unat ?n), vol := s\<lparr>device := d'\<rparr>, sector_it := 0\<rparr>)"
      unfolding at_byte_def step using at full ds by (simp add: at_byte_def)
    ultimately show ?thesis using d' by auto
  next
    case False
    then have last: "y mod ?m = spc s" using mod_less_divisor [of ?m y] by linarith
    then have step: "Suc y div ?m = Suc (y div ?m)" "Suc y mod ?m = 0" by (simp_all add: div_Suc mod_Suc)
    have "Suc y div ?m < length cs" using more by (simp add: div_less_iff_less_mult)
    then have i: "Suc (y div ?m) < length cs" unfolding step .
    let ?c = "cs ! Suc (y div ?m)"
    from is_chain_nth [OF chain i] have link: "FAT s ! unat (cluster t) = ?c" "\<not> 0x0FFFFFF7 < ?c"
      by (auto simp: cl word_less_nat_alt)
    have inr: "unat (cluster t) < length (FAT s)" unfolding cl using i by (intro is_chain_range [OF chain]) auto
    have n': "?n = getDiskSector s ?c 0" unfolding run_sector_def step by simp
    let ?t = "t\<lparr>cluster := ?c, clusterSectorNum := 0, disk_sector := getDiskSector (vol t) ?c 0\<rparr>"
    have ds: "disk_sector ?t = ?n" by (simp add: vol n')
    from load_sector [of d C ?t s] d vol assms(4) lb ds n obtain d' where
      d': "load dev ?t = Ok (?t\<lparr>localBuffer := C (unat ?n), vol := s\<lparr>device := d'\<rparr>, sector_it := 0\<rparr>)" "ok d'" "contents d' = C"
      by auto
    have "read_next dev t = bind (load dev ?t) (\<lambda>t. Ok (Inl t))"
      unfolding read_next_def cond using full False link inr by (simp add: vol)
    moreover have "at_byte d' C s cs buf len pos i (Suc y) (?t\<lparr>localBuffer := C (unat ?n), vol := s\<lparr>device := d'\<rparr>, sector_it := 0\<rparr>)"
      unfolding at_byte_def step using at full ds by (simp add: at_byte_def)
    ultimately show ?thesis using d' by auto
  qed
qed

lemma read_next_end:
  assumes at: "at_byte d C s cs buf len pos i y t" and "bps s = 512" and full: "pos + i = y * 512 + 512"
    and chain: "is_chain (FAT s) cs" and last: "Suc y = length cs * (spc s + 1)"
  shows "\<exists>c. read_next dev t = Ok (Inr (t\<lparr>cluster := c\<rparr>))"
proof -
  let ?m = "spc s + 1"
  obtain l where l: "length cs = Suc l" using chain by (cases cs) auto
  have "(l * m + x) div m = l \<and> (l * m + x) mod m = x" if "x < m" for x m :: nat using that by simp
  from this [of "spc s" ?m] have "(l * ?m + spc s) div ?m = l" "(l * ?m + spc s) mod ?m = spc s" by auto
  moreover from last l have "y = l * ?m + spc s" by simp
  ultimately have y: "y div ?m = l" "\<not> y mod ?m < spc s" by (simp_all only: less_irrefl not_False_eq_True)
  have "last cs = cs ! l" using l by (subst last_conv_nth) auto
  with at y(1) have c: "cluster t = last cs" by (simp add: at_byte_def)
  have "last cs \<in> set cs" using l by (cases cs) auto
  then have "unat (last cs) < length (FAT s)" by (rule is_chain_range [OF chain])
  moreover have "0x0FFFFFF7 < FAT s ! unat (last cs)"
    using is_chain_last [OF chain] by (simp add: word_less_nat_alt word_le_nat_alt)
  moreover have "FAT (vol t) = FAT s" using at by (simp add: at_byte_def)
  ultimately show ?thesis unfolding read_next_def at_byte_sector [OF at assms(2)] using c y(2) full by auto
qed

end

section \<open>Reading\<close>

context block_device begin

lemma read_copy_byte:
  assumes at: "at_byte d C s cs buf len pos i y t" and "ok d" "contents d = C"
    and i: "i < len" "pos + i < y * 512 + 512" "len \<le> length buf"
  shows "\<exists>t'. bind (aget_int (localBuffer t) (sector_it t)) (\<lambda>c.
        bind (aput_int (buffer t) (buffer_it t - int (pos mod 512)) c) (\<lambda>buf.
        Ok (Inl (t\<lparr>buffer := buf, buffer_it := buffer_it t + 1, sector_it := sector_it t + 1,
          remainingBytes := remainingBytes t - 1\<rparr>)))) = (Ok (Inl t') :: ('d transfer + 'd transfer) res)
      \<and> at_byte d C s cs buf len pos (Suc i) y t'"
proof -
  let ?c = "C (unat (run_sector s cs y)) ! (pos + i - y * 512)"
  let ?t = "t\<lparr>buffer := copied buf (\<lambda>i. run_byte C s cs (pos + i)) (Suc i), buffer_it := buffer_it t + 1,
    sector_it := sector_it t + 1, remainingBytes := remainingBytes t - 1\<rparr>"
  have y: "y * 512 \<le> pos + i" using at by (simp add: at_byte_def)
  then have dv: "(pos + i) div 512 = y" using i(2) by (auto intro: div_nat_eqI)
  then have "(pos + i) mod 512 = pos + i - y * 512" by (simp add: modulo_nat_def)
  with dv have c: "run_byte C s cs (pos + i) = ?c" by (simp add: run_byte_def)
  have lb: "length (localBuffer t) = 512" using at length_contents [OF assms(2)] assms(3) by (simp add: at_byte_def)
  have sec: "sector_it t = int (pos + i - y * 512)" "localBuffer t = C (unat (run_sector s cs y))" using at by (simp_all add: at_byte_def)
  have get: "aget_int (localBuffer t) (sector_it t) = Ok ?c"
    unfolding sec(1) aget_int_of_nat using lb i(2) y sec(2) by simp
  have "buffer_it t - int (pos mod 512) = int i" "buffer t = copied buf (\<lambda>i. run_byte C s cs (pos + i)) i"
    using at by (simp_all add: at_byte_def)
  then have put: "aput_int (buffer t) (buffer_it t - int (pos mod 512)) ?c = Ok (copied buf (\<lambda>i. run_byte C s cs (pos + i)) (Suc i))"
    using i(1,3) copied_Suc [of i buf "\<lambda>i. run_byte C s cs (pos + i)"] c by simp
  have "at_byte d C s cs buf len pos (Suc i) y ?t"
    unfolding at_byte_def using at i(1,2) y by (auto simp: at_byte_def)
  with get put show ?thesis by simp
qed

text \<open>The whole loop: it stops after \<open>len\<close> bytes or at the end of the run.\<close>

lemma read_loop:
  assumes at: "at_byte d C s cs buf len pos i y t" "ok d" "contents d = C" and geo: "bps s = 512" "is_chain (FAT s) cs"
    and y: "y < length cs * (spc s + 1)" and readable: "\<And>z. z < length cs * (spc s + 1) \<Longrightarrow> unat (run_sector s cs z) < nblocks"
    and len: "len \<le> length buf" and amount: "amount = min len (length cs * (spc s + 1) * 512 - pos)" "pos \<le> length cs * (spc s + 1) * 512"
  shows "\<exists>t' d'. loop (read_round dev (int (pos mod 512))) t = Ok t' \<and> ok d' \<and> contents d' = C \<and> vol t' = s\<lparr>device := d'\<rparr>
    \<and> buffer t' = copied buf (\<lambda>i. run_byte C s cs (pos + i)) amount"
  using at y
proof (induction "len - i" arbitrary: i d y t)
  case 0
  then have i: "i = len" and "remainingBytes t = 0" by (simp_all add: at_byte_def)
  then have "loop (read_round dev (int (pos mod 512))) t = Ok t" by (intro loop_stop) (simp add: read_round_def)
  moreover have "amount = len"
  proof -
    have "pos + i \<le> y * 512 + 512" using 0 by (simp add: at_byte_def)
    moreover have "Suc y * 512 \<le> length cs * (spc s + 1) * 512" using 0 by (intro mult_le_mono1) simp
    ultimately have "pos + len \<le> length cs * (spc s + 1) * 512" using i by simp
    then show ?thesis using amount by linarith
  qed
  ultimately show ?case using 0 i by (auto simp: at_byte_def)
next
  case (Suc n)
  then have i: "i < len" by linarith
  have rem: "0 < remainingBytes t" using Suc.prems(1) i by (simp add: at_byte_def)
  have bound: "pos + i \<le> y * 512 + 512" using Suc.prems(1) by (simp add: at_byte_def)
  have copy: ?case if at': "at_byte d' C s cs buf len pos i y' t'" "ok d'" "contents d' = C" and y': "y' < length cs * (spc s + 1)"
    "pos + i < y' * 512 + 512" and nxt: "read_next dev t = Ok (Inl t')" for d' y' t'
  proof -
    from read_copy_byte [OF at' i y'(2) len] obtain t'' where
      t'': "bind (aget_int (localBuffer t') (sector_it t')) (\<lambda>c.
        bind (aput_int (buffer t') (buffer_it t' - int (pos mod 512)) c) (\<lambda>buf.
        Ok (Inl (t'\<lparr>buffer := buf, buffer_it := buffer_it t' + 1, sector_it := sector_it t' + 1,
          remainingBytes := remainingBytes t' - 1\<rparr>)))) = (Ok (Inl t'') :: ('d transfer + 'd transfer) res)"
      "at_byte d' C s cs buf len pos (Suc i) y' t''" by auto
    have "loop (read_round dev (int (pos mod 512))) t = loop (read_round dev (int (pos mod 512))) t''"
      using rem nxt t''(1) by (intro loop_step) (simp add: read_round_def)
    moreover have "n = len - Suc i" using Suc.hyps(2) by linarith
    ultimately show ?thesis using Suc.hyps(1) [OF _ t''(2) at'(2,3) y'(1)] by simp
  qed
  show ?case
  proof (cases "pos + i = y * 512 + 512")
    case False
    then have "read_next dev t = Ok (Inl t)"
      unfolding read_next_def at_byte_sector [OF Suc.prems(1) geo(1)] by simp
    with False bound Suc.prems show ?thesis by (intro copy [of d y t]) simp_all
  next
    case True
    show ?thesis
    proof (cases "Suc y < length cs * (spc s + 1)")
      case more: True
      from read_next_sector [OF Suc.prems(1-3) geo(1) True geo(2) more readable [OF more]] obtain d' t' where
        "read_next dev t = Ok (Inl t')" "ok d'" "contents d' = C" "at_byte d' C s cs buf len pos i (Suc y) t'" by auto
      with True more show ?thesis by (intro copy [of d' "Suc y" t']) simp_all
    next
      case False
      with Suc.prems(4) have last: "Suc y = length cs * (spc s + 1)" by simp
      from read_next_end [OF Suc.prems(1) geo(1) True geo(2) last] obtain c where
        "read_next dev t = Ok (Inr (t\<lparr>cluster := c\<rparr>))" by auto
      then have stop: "loop (read_round dev (int (pos mod 512))) t = Ok (t\<lparr>cluster := c\<rparr>)"
        using rem by (intro loop_stop) (simp add: read_round_def)
      have "pos + i = length cs * (spc s + 1) * 512" using True last by (metis add.commute mult_Suc)
      then have "amount = i" using amount i by linarith
      with stop Suc.prems show ?thesis by (auto simp: at_byte_def)
    qed
  qed
qed

lemma readFile_reads:
  assumes geo: "bps s = 512" "0 < spc s" and chain: "is_chain (FAT s) cs" and dev_ok: "ok (device s)"
    and k: "start div (512 * spc s) = k" "k < length cs" and len: "len \<le> length buf"
    and readable: "\<And>z. z < (length cs - k) * (spc s + 1) \<Longrightarrow> unat (run_sector s (drop k cs) z) < nblocks"
    and pos: "pos = start mod (512 * spc s)"
    and amount: "amount = min len ((length cs - k) * (spc s + 1) * 512 - pos)"
  shows "\<exists>d. readFile dev (hd cs) buf (int len) (int start) s =
      Ok (0, copied buf (\<lambda>i. run_byte (contents (device s)) s (drop k cs) (pos + i)) amount, s\<lparr>device := d\<rparr>)
    \<and> ok d \<and> contents d = contents (device s)"
proof -
  let ?y = "start div 512 mod spc s" and ?cs = "drop k cs" and ?C = "contents (device s)"
  have y: "?y < spc s" using geo(2) by simp
  have len_cs: "length ?cs = length cs - k" "0 < length ?cs" using k(2) by simp_all
  have run: "run_sector s ?cs ?y = getDiskSector s (cs ! k) (int ?y)" using y k(2) by (simp add: run_sector_def)
  have "?y < length ?cs * (spc s + 1)"
  proof -
    have "spc s + 1 \<le> length ?cs * (spc s + 1)" using len_cs(2) by (cases "length ?cs") simp_all
    with y show ?thesis by linarith
  qed
  note y_in = this
  have pos_split: "pos = ?y * 512 + start mod 512" "pos mod 512 = start mod 512"
    by (simp_all add: pos mod_mult2_eq)
  have chain': "is_chain (FAT s) ?cs"
    using chain k(2) is_chain_suffix [of "FAT s" "take k cs" "cs ! k" "drop (Suc k) cs"] by (simp add: id_take_nth_drop [symmetric] Cons_nth_drop_Suc)
  have n: "unat (getDiskSector s (cs ! k) (int ?y)) < nblocks" using readable [of ?y] y_in len_cs(1) run by simp
  from start_transfer_starts [OF chain _ geo, of start "getDiskSector s (cs ! k) (int ?y)" buf "int len"] k n dev_ok obtain d where
    d: "start_transfer dev (hd cs) buf (int len) (int start) s = Ok \<lparr>cluster = cs ! k,
      clusterSectorNum = int ?y, disk_sector = getDiskSector s (cs ! k) (int ?y), localBuffer = ?C (unat (getDiskSector s (cs ! k) (int ?y))),
      buffer = buf, remainingBytes = int len, buffer_it = int (start mod 512), sector_it = int (start mod 512),
      vol = s\<lparr>device := d\<rparr>\<rparr>" (is "_ = Ok ?t") "ok d" "contents d = ?C" by auto
  have at: "at_byte d ?C s ?cs buf len pos 0 ?y ?t"
    unfolding at_byte_def using y k(2) pos_split by (simp add: run [unfolded run_sector_def] run_sector_def)
  have "spc s * 512 \<le> length ?cs * (spc s + 1) * 512"
    using y_in len_cs(2) by (cases "length ?cs") simp_all
  moreover have "pos < 512 * spc s" using geo(2) by (simp add: pos)
  ultimately have bound: "pos \<le> length ?cs * (spc s + 1) * 512" by linarith
  have readable': "unat (run_sector s ?cs z) < nblocks" if "z < length ?cs * (spc s + 1)" for z
    using that readable by (simp only: len_cs(1))
  from read_loop [OF at d(2,3) geo(1) chain' y_in readable' len amount [folded len_cs(1)] bound]
  obtain t' d' where "loop (read_round dev (int (pos mod 512))) ?t = Ok t'" "ok d'" "contents d' = ?C" "vol t' = s\<lparr>device := d'\<rparr>"
    "buffer t' = copied buf (\<lambda>i. run_byte ?C s ?cs (pos + i)) amount" by blast
  then show ?thesis using d(1) pos_split(2) by (intro exI [of _ d']) (simp add: readFile_def)
qed

end

text \<open>Within the cluster the read starts in, the run is the file.\<close>

lemma run_byte_in_cluster:
  assumes "x < 512 * spc s" and "k < length cs"
  shows "run_byte C s (drop k cs) x = file_byte C s cs (512 * spc s * k + x)"
proof -
  have y: "x div 512 < spc s" using assms(1) by (simp add: div_less_iff_less_mult mult.commute)
  have dv: "(512 * spc s * k + x) div 512 = spc s * k + x div 512" "(512 * spc s * k + x) mod 512 = x mod 512"
    by (simp_all add: mult.assoc)
  have "(spc s * k + x div 512) div spc s = k" "(spc s * k + x div 512) mod spc s = x div 512" using y by simp_all
  with y assms(2) show ?thesis by (simp add: run_byte_def file_byte_def run_sector_def file_sector_def dv)
qed

lemma copied_cong: "(\<And>i. i < n \<Longrightarrow> f i = g i) \<Longrightarrow> copied buf f n = copied buf g n"
  by (simp add: copied_def)

section \<open>Writing\<close>

text \<open>
  The disk after the first \<open>i\<close> bytes of \<open>buf\<close> were put at byte \<open>pos\<close> of the cluster whose
  first block is \<open>base\<close> and that has \<open>m\<close> blocks.
\<close>

definition patched :: "(nat \<Rightarrow> byte list) \<Rightarrow> nat \<Rightarrow> nat \<Rightarrow> byte list \<Rightarrow> nat \<Rightarrow> nat \<Rightarrow> nat \<Rightarrow> byte list" where
  "patched C base m buf pos i n =
     (if base \<le> n \<and> n < base + m
      then map (\<lambda>b. let x = (n - base) * 512 + b in if pos \<le> x \<and> x < pos + i then buf ! (x - pos) else C n ! b) [0..<512]
      else C n)"

lemma patched_0:
  assumes "\<And>k. length (C k) = 512"
  shows "patched C base m buf pos 0 = C"
proof
  fix n
  have "map (\<lambda>b. C n ! b) [0..<512] = C n" using assms [of n] map_nth [of "C n"] by simp
  moreover have "(let x = (n - base) * 512 + b in if pos \<le> x \<and> x < pos + 0 then buf ! (x - pos) else C n ! b) = C n ! b" for b
    by (auto simp: Let_def)
  ultimately show "patched C base m buf pos 0 n = C n" by (simp only: patched_def if_cancel)
qed

lemma length_patched:
  assumes "\<And>k. length (C k) = 512"
  shows "length (patched C base m buf pos i n) = 512"
  using assms by (simp add: patched_def)

lemma patched_Suc_other:
  assumes "pos + i = y * 512 + b" "b < 512" "n \<noteq> base + y"
  shows "patched C base m buf pos (Suc i) n = patched C base m buf pos i n"
proof -
  have "(n - base) * 512 + c \<noteq> pos + i" if "base \<le> n" "c < 512" for c
  proof
    assume "(n - base) * 512 + c = pos + i"
    then have "(n - base) * 512 + c = y * 512 + b" using assms(1) by simp
    from cluster_sector_unique [OF that(2) assms(2) this] have "n - base = y" by simp
    with that(1) assms(3) show False by simp
  qed
  then have "(pos \<le> (n - base) * 512 + c \<and> (n - base) * 512 + c < pos + Suc i) =
      (pos \<le> (n - base) * 512 + c \<and> (n - base) * 512 + c < pos + i)" if "base \<le> n" "c < 512" for c
    using that by (metis add_Suc_right less_Suc_eq)
  then show ?thesis by (auto simp: patched_def Let_def intro!: map_cong)
qed

lemma patched_Suc_same:
  assumes "pos + i = y * 512 + b" "b < 512" "y < m" and "\<And>k. length (C k) = 512"
  shows "(patched C base m buf pos i (base + y))[b := buf ! i] = patched C base m buf pos (Suc i) (base + y)"
proof (rule nth_equalityI)
  show "length ((patched C base m buf pos i (base + y))[b := buf ! i]) = length (patched C base m buf pos (Suc i) (base + y))"
    using length_patched [OF assms(4)] by simp
next
  fix c assume "c < length ((patched C base m buf pos i (base + y))[b := buf ! i])"
  then have c: "c < 512" using length_patched [OF assms(4)] by simp
  show "(patched C base m buf pos i (base + y))[b := buf ! i] ! c = patched C base m buf pos (Suc i) (base + y) ! c"
  proof (cases "c = b")
    case True
    then have "y * 512 + c - pos = i" "pos \<le> y * 512 + c" "y * 512 + c < pos + Suc i" using assms(1) by linarith+
    with True c assms(3) show ?thesis by (simp add: patched_def Let_def)
  next
    case False
    then have "(y * 512 + c < pos + Suc i) = (y * 512 + c < pos + i)" using assms(1) by linarith
    with False c assms(3) show ?thesis by (simp add: patched_def Let_def)
  qed
qed

text \<open>The state of the loop after \<open>i\<close> bytes, in sector \<open>y\<close> of the cluster \<open>c\<close>.\<close>

definition writing_at where
  "writing_at d C s c buf len pos i y t \<longleftrightarrow> vol t = s\<lparr>device := d\<rparr> \<and>
     cluster t = c \<and> clusterSectorNum t = int y \<and> disk_sector t = getDiskSector s c (int y) \<and>
     localBuffer t = patched C (unat c * spc s + reserved s) (spc s) buf pos i (unat c * spc s + reserved s + y) \<and>
     buffer t = buf \<and> remainingBytes t = int (len - i) \<and> i \<le> len \<and>
     buffer_it t = int (pos mod 512 + i) \<and> y * 512 \<le> pos + i \<and> pos + i \<le> y * 512 + 512 \<and>
     sector_it t = int (pos + i - y * 512)"

lemma writing_at_sector:
  assumes "writing_at d C s c buf len pos i y t" and "bps s = 512"
  shows "(sector_it t = int (bps (vol t))) = (pos + i = y * 512 + 512)"
    "(clusterSectorNum t < int (spc (vol t))) = (y < spc s)"
proof -
  have v: "bps (vol t) = 512" "spc (vol t) = spc s" "sector_it t = int (pos + i - y * 512)" "clusterSectorNum t = int y"
    "y * 512 \<le> pos + i" "pos + i \<le> y * 512 + 512"
    using assms by (simp_all add: writing_at_def)
  show "(sector_it t = int (bps (vol t))) = (pos + i = y * 512 + 512)"
    unfolding v(1,3) of_nat_eq_iff using v(5,6) by auto
  show "(clusterSectorNum t < int (spc (vol t))) = (y < spc s)"
    unfolding v(2,4) of_nat_less_iff ..
qed

context block_device begin

lemma write_back:
  assumes "ok d" and "unat n < nblocks" and "length b = 512"
  shows "\<exists>d'. write_buf dev b n (s\<lparr>device := d\<rparr>) = Ok (s\<lparr>device := d'\<rparr>) \<and> ok d' \<and> contents d' = (contents d)(unat n := b)"
proof -
  from write_block [OF assms(1,2), of b] assms(3) obtain d' where
    "bwrite dev b n d = Ok (0, d')" "ok d'" "contents d' = (contents d)(unat n := b)" by auto
  then show ?thesis by (intro exI [of _ d']) (simp add: write_buf_def)
qed

lemma write_next_sector:
  assumes at: "writing_at d C s c buf len pos i y t" and d: "ok d" and same: "\<And>n. n \<noteq> base + y \<Longrightarrow> contents d n = patched C base (spc s) buf pos i n"
    and base: "base = unat c * spc s + reserved s" "unat c < FAT_SIZE" and len: "\<And>k. length (C k) = 512"
    and "bps s = 512" and full: "pos + i = y * 512 + 512" and y: "Suc y < spc s" and readable: "readable nblocks s c"
  shows "\<exists>d' t'. write_next dev st t = Ok t' \<and> ok d' \<and> (\<forall>n. n \<noteq> base + Suc y \<longrightarrow> contents d' n = patched C base (spc s) buf pos i n)
    \<and> writing_at d' C s c buf len pos i (Suc y) t'"
proof -
  let ?n = "getDiskSector s c (int y)" and ?n' = "getDiskSector s c (int (Suc y))" and ?P = "patched C base (spc s) buf pos i"
  have "spc s < 256" using unsigned_less [of "sectorsPerCluster (biosParameterBlock s)"] by simp
  then have n: "unat ?n = base + y" "unat ?n' = base + Suc y" using y base
    by (auto simp: getDiskSector_unat simp del: of_nat_Suc)
  have "unat ?n < nblocks" "unat ?n' < nblocks" using readable y by (auto simp: readable_def cluster_sectors_def simp del: of_nat_Suc)
  note in_range = this
  have lb: "localBuffer t = ?P (base + y)" using at by (simp add: writing_at_def base)
  have vol: "vol t = s\<lparr>device := d\<rparr>" "disk_sector t = ?n" using at by (simp_all add: writing_at_def)
  from write_back [OF d in_range(1), of "localBuffer t" s] length_patched [OF len] lb obtain d1 where
    d1: "write_buf dev (localBuffer t) ?n (s\<lparr>device := d\<rparr>) = Ok (s\<lparr>device := d1\<rparr>)" "ok d1"
      "contents d1 = (contents d)(unat ?n := localBuffer t)" by auto
  have C1: "contents d1 = ?P" using d1(3) lb same n by auto
  let ?t = "t\<lparr>vol := s\<lparr>device := d1\<rparr>, disk_sector := disk_sector t + 1, clusterSectorNum := clusterSectorNum t + 1\<rparr>"
  have ds: "disk_sector ?t = ?n'" by (simp add: vol getDiskSector_def)
  from load_sector [OF d1(2) C1, of ?t s] assms(7) lb length_patched [OF len] in_range(2) ds obtain d2 where
    d2: "load dev ?t = Ok (?t\<lparr>localBuffer := ?P (unat ?n'), vol := s\<lparr>device := d2\<rparr>, sector_it := 0\<rparr>)" "ok d2" "contents d2 = ?P"
    by auto
  have cond: "sector_it t = int (bps (vol t))" "clusterSectorNum t < int (spc (vol t))"
    using writing_at_sector [OF at assms(7)] full y by auto
  have "write_next dev st t = load dev ?t" unfolding write_next_def Let_def using cond d1(1) vol by simp
  moreover have "writing_at d2 C s c buf len pos i (Suc y) (?t\<lparr>localBuffer := ?P (unat ?n'), vol := s\<lparr>device := d2\<rparr>, sector_it := 0\<rparr>)"
    unfolding writing_at_def n base(1) [symmetric] using at full ds n by (simp add: writing_at_def)
  ultimately show ?thesis using d2 by auto
qed

lemma write_copy_byte:
  assumes at: "writing_at d C s c buf len pos i y t" and len: "\<And>k. length (C k) = 512"
    and i: "i < len" "pos + i < y * 512 + 512" "len \<le> length buf" "y < spc s"
  shows "\<exists>t'. bind (aget_int (buffer t) (buffer_it t - int (pos mod 512))) (\<lambda>c.
        bind (aput_int (localBuffer t) (sector_it t) c) (\<lambda>b.
        Ok (Inl (t\<lparr>localBuffer := b, buffer_it := buffer_it t + 1, sector_it := sector_it t + 1,
          remainingBytes := remainingBytes t - 1\<rparr>)))) = (Ok (Inl t') :: ('d transfer + 'd transfer) res)
      \<and> writing_at d C s c buf len pos (Suc i) y t'"
proof -
  let ?base = "unat c * spc s + reserved s"
  let ?b = "pos + i - y * 512"
  let ?t = "t\<lparr>localBuffer := patched C ?base (spc s) buf pos (Suc i) (?base + y), buffer_it := buffer_it t + 1,
    sector_it := sector_it t + 1, remainingBytes := remainingBytes t - 1\<rparr>"
  have y: "y * 512 \<le> pos + i" using at by (simp add: writing_at_def)
  have it: "buffer_it t - int (pos mod 512) = int i" "buffer t = buf" "sector_it t = int ?b"
    "localBuffer t = patched C ?base (spc s) buf pos i (?base + y)" using at by (simp_all add: writing_at_def)
  have get: "aget_int (buffer t) (buffer_it t - int (pos mod 512)) = Ok (buf ! i)" using it(1,2) i(1,3) by simp
  have put: "aput_int (localBuffer t) (sector_it t) (buf ! i) = Ok (patched C ?base (spc s) buf pos (Suc i) (?base + y))"
    unfolding it(3) aput_int_of_nat it(4)
    using patched_Suc_same [of pos i y ?b "spc s" C ?base buf] length_patched [OF len] len i(2,4) y by simp
  have "writing_at d C s c buf len pos (Suc i) y ?t"
    unfolding writing_at_def using at i(1,2) y by (auto simp: writing_at_def)
  with get put show ?thesis by simp
qed

lemma write_loop:
  assumes at: "writing_at d C s c buf len pos i y t" "ok d" "\<And>n. n \<noteq> base + y \<Longrightarrow> contents d n = patched C base (spc s) buf pos i n"
    and y: "y < spc s" and base: "base = unat c * spc s + reserved s" "unat c < FAT_SIZE" and C: "\<And>k. length (C k) = 512"
    and geo: "bps s = 512" "readable nblocks s c" and len: "len \<le> length buf" "pos + len \<le> 512 * spc s"
  shows "\<exists>t' d' y'. loop (write_round dev st (int (pos mod 512))) t = Ok t' \<and> ok d' \<and> y' < spc s
    \<and> writing_at d' C s c buf len pos len y' t' \<and> (\<forall>n. n \<noteq> base + y' \<longrightarrow> contents d' n = patched C base (spc s) buf pos len n)"
  using at y
proof (induction "len - i" arbitrary: i d y t)
  case 0
  then have i: "i = len" and "remainingBytes t = 0" by (simp_all add: writing_at_def)
  then have "loop (write_round dev st (int (pos mod 512))) t = Ok t" by (intro loop_stop) (simp add: write_round_def)
  with 0 i show ?case by blast
next
  case (Suc n)
  then have i: "i < len" by linarith
  have rem: "0 < remainingBytes t" using Suc.prems(1) i by (simp add: writing_at_def)
  have bound: "pos + i \<le> y * 512 + 512" using Suc.prems(1) by (simp add: writing_at_def)
  have copy: ?case if at': "writing_at d' C s c buf len pos i y' t'" "ok d'"
      "\<And>n. n \<noteq> base + y' \<Longrightarrow> contents d' n = patched C base (spc s) buf pos i n" and y': "y' < spc s"
      "pos + i < y' * 512 + 512" and nxt: "write_next dev st t = Ok t'" for d' y' t'
  proof -
    from write_copy_byte [OF at'(1) C i y'(2) len(1) y'(1)] obtain t'' where
      t'': "bind (aget_int (buffer t') (buffer_it t' - int (pos mod 512))) (\<lambda>c.
        bind (aput_int (localBuffer t') (sector_it t') c) (\<lambda>b.
        Ok (Inl (t'\<lparr>localBuffer := b, buffer_it := buffer_it t' + 1, sector_it := sector_it t' + 1,
          remainingBytes := remainingBytes t' - 1\<rparr>)))) = (Ok (Inl t'') :: ('d transfer + 'd transfer) res)"
      "writing_at d' C s c buf len pos (Suc i) y' t''" by auto
    have "loop (write_round dev st (int (pos mod 512))) t = loop (write_round dev st (int (pos mod 512))) t''"
      using rem nxt t''(1) by (intro loop_step) (simp add: write_round_def)
    moreover have "n = len - Suc i" using Suc.hyps(2) by linarith
    moreover have "contents d' k = patched C base (spc s) buf pos (Suc i) k" if "k \<noteq> base + y'" for k
    proof -
      have "y' * 512 \<le> pos + i" using at'(1) by (simp add: writing_at_def)
      then show ?thesis using patched_Suc_other [of pos i y' "pos + i - y' * 512" k base C "spc s" buf] y'(2) that at'(3) by simp
    qed
    ultimately show ?thesis using Suc.hyps(1) [OF _ t''(2) at'(2) _ y'(1)] by simp
  qed
  show ?case
  proof (cases "pos + i = y * 512 + 512")
    case False
    then have "write_next dev st t = Ok t"
      unfolding write_next_def writing_at_sector [OF Suc.prems(1) geo(1)] by simp
    with False bound Suc.prems show ?thesis by (intro copy [of d y t]) simp_all
  next
    case True
    then have "y * 512 + 512 < 512 * spc s" using i len(2) by linarith
    then have more: "Suc y < spc s" by simp
    from write_next_sector [OF Suc.prems(1-3) base C geo(1) True more geo(2), of st] obtain d' t' where
      "write_next dev st t = Ok t'" "ok d'" "\<forall>n. n \<noteq> base + Suc y \<longrightarrow> contents d' n = patched C base (spc s) buf pos i n"
      "writing_at d' C s c buf len pos i (Suc y) t'" by auto
    with True more show ?thesis by (intro copy [of d' "Suc y" t']) simp_all
  qed
qed

lemma writeFile_writes:
  assumes geo: "bps s = 512" "0 < spc s" and chain: "is_chain (FAT s) cs" "length (FAT s) = FAT_SIZE" and dev_ok: "ok (device s)"
    and k: "start div (512 * spc s) = k" "k < length cs" and len: "len \<le> length buf" "pos + len \<le> 512 * spc s"
    and readable: "readable nblocks s (cs ! k)" and pos: "pos = start mod (512 * spc s)"
  shows "\<exists>d. writeFile dev (hd cs) buf (int len) (int start) s = Ok (0, s\<lparr>device := d\<rparr>) \<and> ok d
    \<and> contents d = patched (contents (device s)) (unat (cs ! k) * spc s + reserved s) (spc s) buf pos len"
proof -
  let ?y = "start div 512 mod spc s" and ?c = "cs ! k" and ?C = "contents (device s)"
  define base where "base = unat ?c * spc s + reserved s"
  have y: "?y < spc s" using geo(2) by simp
  have C: "length (?C k) = 512" for k using length_contents dev_ok by blast
  have c: "unat ?c < FAT_SIZE" using is_chain_range [OF chain(1), of ?c] k(2) chain(2) by simp
  have spc: "spc s < 256" using unsigned_less [of "sectorsPerCluster (biosParameterBlock s)"] by simp
  have unat_n: "unat (getDiskSector s ?c (int y)) = base + y" if "y < spc s" for y
    using that c spc by (simp add: getDiskSector_unat base_def)
  have n: "unat (getDiskSector s ?c (int y)) < nblocks" if "y < spc s" for y
    using readable that by (auto simp: readable_def cluster_sectors_def)
  have pos_split: "pos = ?y * 512 + start mod 512" "pos mod 512 = start mod 512"
    by (simp_all add: pos mod_mult2_eq)
  from start_transfer_starts [OF chain(1) _ geo, of start "getDiskSector s ?c (int ?y)" buf "int len"] k n [OF y] dev_ok obtain d where
    d: "start_transfer dev (hd cs) buf (int len) (int start) s = Ok \<lparr>cluster = ?c,
      clusterSectorNum = int ?y, disk_sector = getDiskSector s ?c (int ?y), localBuffer = ?C (unat (getDiskSector s ?c (int ?y))),
      buffer = buf, remainingBytes = int len, buffer_it = int (start mod 512), sector_it = int (start mod 512),
      vol = s\<lparr>device := d\<rparr>\<rparr>" (is "_ = Ok ?t") "ok d" "contents d = ?C" by auto
  have P0: "patched ?C base m buf pos 0 = ?C" for m using C by (rule patched_0)
  have at: "writing_at d ?C s ?c buf len pos 0 ?y ?t"
    unfolding writing_at_def base_def [symmetric] P0 using pos_split unat_n [OF y] by simp
  from write_loop [OF at d(2) _ y base_def c C geo(1) readable len, of "hd cs"] d(3) P0 obtain t' d' y' where
    t': "loop (write_round dev (hd cs) (int (pos mod 512))) ?t = Ok t'" "ok d'" "y' < spc s" "writing_at d' ?C s ?c buf len pos len y' t'"
    "\<forall>n. n \<noteq> base + y' \<longrightarrow> contents d' n = patched ?C base (spc s) buf pos len n" by auto
  have last: "localBuffer t' = patched ?C base (spc s) buf pos len (base + y')" "disk_sector t' = getDiskSector s ?c (int y')"
    "vol t' = s\<lparr>device := d'\<rparr>" using t'(4) by (simp_all add: writing_at_def base_def)
  from write_back [OF t'(2) n [OF t'(3)], of "localBuffer t'" s] length_patched [OF C] last(1) obtain d2 where
    d2: "write_buf dev (localBuffer t') (getDiskSector s ?c (int y')) (s\<lparr>device := d'\<rparr>) = Ok (s\<lparr>device := d2\<rparr>)" "ok d2"
      "contents d2 = (contents d')(unat (getDiskSector s ?c (int y')) := localBuffer t')" by auto
  have "contents d2 = patched ?C base (spc s) buf pos len"
    unfolding d2(3) unat_n [OF t'(3)] last(1) using t'(5) by auto
  moreover have "writeFile dev (hd cs) buf (int len) (int start) s = Ok (0, s\<lparr>device := d2\<rparr>)"
    using d(1) t'(1) d2(1) last pos_split(2) by (simp add: writeFile_def)
  ultimately show ?thesis using d2(2) by (auto simp: base_def)
qed

end
end
