(* ===== verification/Sys_Files.thy ===== *)
theory Sys_Files
  imports Fat32_File Kernel_Sched
begin

text \<open>
  The system calls on files (zeos_full/sys.c, lines 20 to 354): the open file table, the
  channel tables of the processes and the calls that reach the file system. The state \<open>'d system\<close>
  is the kernel's, the file system's and the open file table.

  A user buffer is given by its address, for \<open>access_ok\<close>, and by its bytes. The channel table
  is the last member of \<open>struct task_struct\<close>, right behind the statistics: an index of -1 or -2
  reads two of those (\<open>channel_at\<close>), anything else outside the table is a fault.
\<close>

section \<open>Data\<close>

definition EBADF :: int where "EBADF = 9"
definition EACCES :: int where "EACCES = 13"
definition EMFILE :: int where "EMFILE = 24"
definition EIO :: int where "EIO = 5"
definition ENOSYS :: int where "ENOSYS = 38"
definition LECTURA :: int where "LECTURA = 0"
definition ESCRIPTURA :: int where "ESCRIPTURA = 1"
definition TAM_BUFFER :: int where "TAM_BUFFER = 512"
definition OPEN_FILE_TABLE_SIZE :: nat where "OPEN_FILE_TABLE_SIZE = 100"

lemmas errnos = EBADF_def EACCES_def EFAULT_def EINVAL_def EMFILE_def EIO_def ENOSYS_def

record open_file_table_entry =
  startCluster :: dword
  openCount :: int
  access_offset :: int
  permissions :: int

record 'd system =
  kern :: kernel
  fsys :: "'d fs"
  open_file_table :: "open_file_table_entry list"

section \<open>Tables\<close>

definition init_open_file_table :: "'d system \<Rightarrow> 'd system res" where
  "init_open_file_table s =
     bind (for_each [0..<OPEN_FILE_TABLE_SIZE] (\<lambda>i ft. bind (aput ft i
        \<lparr>startCluster = 0, openCount = 0, access_offset = 0, permissions = -1\<rparr>) (\<lambda>ft. Ok (Inl ft))) (open_file_table s)) (\<lambda>r.
     Ok (s\<lparr>open_file_table := (case r of Inl ft \<Rightarrow> ft | Inr ft \<Rightarrow> ft)\<rparr>))"

definition channel_at :: "task_struct \<Rightarrow> int \<Rightarrow> channel_table_entry res" where
  "channel_at t i =
     (if i = -1 then Ok \<lparr>fd = sint (total_trans (stats t)), OFT_entry_num = sint (remaining_ticks (stats t))\<rparr>
      else if i = -2 then Ok \<lparr>fd = sint (ready_ticks (stats t)), OFT_entry_num = sint (elapsed_total_ticks (stats t))\<rparr>
      else aget_int (channel_table t) i)"

definition current_task :: "'d system \<Rightarrow> task_struct res" where
  "current_task s = get_task (kern s) (cur (kern s))"

definition check_fd :: "int \<Rightarrow> int \<Rightarrow> 'd system \<Rightarrow> int res" where
  "check_fd f perm s =
     bind (current_task s) (\<lambda>t.
     bind (channel_at t (f - 2)) (\<lambda>c.
     if f = 1 then Ok (if perm = LECTURA then -EBADF else 0)
     else bind (aget_int (open_file_table s) (OFT_entry_num c)) (\<lambda>e.
       if startCluster e = 0 then Ok (-EBADF)
       else if perm \<noteq> permissions e then Ok (-EACCES)
       else Ok 0)))"

definition sys_ni_syscall :: int where "sys_ni_syscall = -ENOSYS"

section \<open>Splitting a path\<close>

text \<open>\<open>for (; file_it<11; file_it++, dir_it++) { directory[dir_it] = ' '; filename[file_it] = ' '; }\<close>\<close>

definition pad_both :: "nat \<Rightarrow> nat \<Rightarrow> byte list \<Rightarrow> byte list \<Rightarrow> (nat \<times> byte list \<times> byte list) res" where
  "pad_both dir_it file_it directory fname =
     bind (for_each [file_it..<11] (\<lambda>f (d, dir, fil).
        bind (aput dir d 32) (\<lambda>dir. bind (aput fil f 32) (\<lambda>fil. Ok (Inl (d + 1, dir, fil))))) (dir_it, directory, fname)) (\<lambda>r.
     Ok (case r of Inl x \<Rightarrow> x | Inr x \<Rightarrow> x))"

definition split_round ::
  "byte list \<Rightarrow> nat \<times> nat \<times> nat \<times> byte list \<times> byte list
    \<Rightarrow> ((nat \<times> nat \<times> nat \<times> byte list \<times> byte list) + (nat \<times> nat \<times> byte list \<times> byte list)) res" where
  "split_round path = (\<lambda>(path_it, dir_it, file_it, directory, fname).
     bind (aget path path_it) (\<lambda>c.
     if c = 0 then Ok (Inr (dir_it, file_it, directory, fname))
     else if c = 47 then
       bind (pad_both dir_it file_it directory fname) (\<lambda>(dir_it, directory, fname).
       bind (aput directory dir_it c) (\<lambda>directory.
       Ok (Inl (path_it + 1, dir_it + 1, 0, directory, fname))))
     else
       bind (aput directory dir_it c) (\<lambda>directory.
       bind (aput fname file_it c) (\<lambda>fname.
       Ok (Inl (path_it + 1, dir_it + 1, file_it + 1, directory, fname))))))"

text \<open>The loop back to the last slash runs below the array when there is none.\<close>

definition back_to_slash :: "nat \<Rightarrow> byte list \<Rightarrow> nat res" where
  "back_to_slash dir_it directory =
     loop (\<lambda>i. bind (aget_int directory i) (\<lambda>c. Ok (if c \<noteq> 47 then Inl (i - 1) else Inr (nat i)))) (int dir_it)"

definition split_filename :: "byte list \<Rightarrow> byte list \<Rightarrow> byte list \<Rightarrow> (byte list \<times> byte list) res" where
  "split_filename path directory fname =
     bind (loop (split_round path) (1, 1, 0, directory, fname)) (\<lambda>(dir_it, file_it, directory, fname).
     bind (for_each [file_it..<12] (\<lambda>f fil. bind (aput fil f 32) (\<lambda>fil. Ok (Inl fil))) fname) (\<lambda>r.
     let fname = (case r of Inl f \<Rightarrow> f | Inr f \<Rightarrow> f) in
     bind (back_to_slash dir_it directory) (\<lambda>dir_it.
     bind (aput directory dir_it 0) (\<lambda>directory.
     bind (aput directory 0 47) (\<lambda>directory.
     Ok (directory, fname))))))"

section \<open>Reading and writing\<close>

text \<open>\<open>sys_write_console\<close> of devices.c: the characters go to the screen.\<close>

definition sys_write_console :: "byte list \<Rightarrow> nat \<Rightarrow> 'd fs \<Rightarrow> (int \<times> 'd fs) res" where
  "sys_write_console buf n s =
     bind (for_each [0..<n] (\<lambda>i s. bind (aget buf i) (\<lambda>c. Ok (Inl (s\<lparr>console := console s @ [c]\<rparr>)))) s) (\<lambda>r.
     Ok (int n, case r of Inl s \<Rightarrow> s | Inr s \<Rightarrow> s))"

text \<open>One \<open>copy_from_user\<close> of \<open>n\<close> bytes at \<open>buffer\<close> and the write of them.\<close>

definition write_chunk :: "byte list \<Rightarrow> nat \<Rightarrow> nat \<Rightarrow> 'd fs \<Rightarrow> (int \<times> 'd fs) res" where
  "write_chunk buf at n s =
     (if at + n \<le> length buf then sys_write_console (take n (drop at buf)) n s else Fault OutOfBounds)"

definition write_console :: "byte list \<Rightarrow> int \<Rightarrow> 'd fs \<Rightarrow> (int \<times> 'd fs) res" where
  "write_console buf nbytes s =
     bind (loop (\<lambda>(at, bytes_left, s).
        if TAM_BUFFER < bytes_left then
          bind (write_chunk buf at (nat TAM_BUFFER) s) (\<lambda>(ret, s).
          Ok (if ret < 0 then Inr (Inr (ret, s)) else Inl (at + nat ret, bytes_left - ret, s)))
        else Ok (Inr (Inl (at, bytes_left, s)))) (0, nbytes, s)) (\<lambda>r.
     case r of
       Inr x \<Rightarrow> Ok x
     | Inl (at, bytes_left, s) \<Rightarrow>
         if 0 < bytes_left then
           bind (write_chunk buf at (nat bytes_left) s) (\<lambda>(ret, s).
           Ok (if ret < 0 then (ret, s) else (nbytes - (bytes_left - ret), s)))
         else Ok (nbytes - bytes_left, s))"

definition advance :: "int \<Rightarrow> int \<Rightarrow> 'd system \<Rightarrow> 'd system res" where
  "advance entry n s = bind (aget_int (open_file_table s) entry) (\<lambda>e.
     bind (aput_int (open_file_table s) entry (e\<lparr>access_offset := access_offset e + n\<rparr>)) (\<lambda>ft. Ok (s\<lparr>open_file_table := ft\<rparr>)))"

definition sys_write :: "'d blockdev \<Rightarrow> int \<Rightarrow> dword \<Rightarrow> byte list \<Rightarrow> int \<Rightarrow> 'd system \<Rightarrow> (int \<times> 'd system) res" where
  "sys_write dev f addr buf nbytes s =
     bind (check_fd f ESCRIPTURA s) (\<lambda>ret.
     if ret \<noteq> 0 then Ok (ret, s)
     else if nbytes < 0 then Ok (-EINVAL, s)
     else if access_ok VERIFY_READ addr (word_of_int nbytes) = 0 then Ok (-EFAULT, s)
     else if f = 1 then bind (write_console buf nbytes (fsys s)) (\<lambda>(r, v). Ok (r, s\<lparr>fsys := v\<rparr>))
     else if 1 < f then
       bind (current_task s) (\<lambda>t.
       bind (channel_at t (f - 2)) (\<lambda>c.
       bind (aget_int (open_file_table s) (OFT_entry_num c)) (\<lambda>e.
       bind (writeFile dev (startCluster e) buf nbytes (access_offset e) (fsys s)) (\<lambda>(ret, v).
       let s = s\<lparr>fsys := v\<rparr> in
       if ret \<noteq> 0 then Ok (-EIO, s)
       else bind (advance (OFT_entry_num c) nbytes s) (\<lambda>s. Ok (ret, s))))))
     else Ok (-EBADF, s))"

definition sys_read :: "'d blockdev \<Rightarrow> int \<Rightarrow> dword \<Rightarrow> byte list \<Rightarrow> int \<Rightarrow> 'd system \<Rightarrow> (int \<times> byte list \<times> 'd system) res" where
  "sys_read dev f addr buf nbytes s =
     bind (check_fd f LECTURA s) (\<lambda>ret.
     if ret \<noteq> 0 then Ok (ret, buf, s)
     else if nbytes < 0 then Ok (-EINVAL, buf, s)
     else if access_ok VERIFY_WRITE addr (word_of_int nbytes) = 0 then Ok (-EFAULT, buf, s)
     else
       bind (current_task s) (\<lambda>t.
       bind (channel_at t (f - 2)) (\<lambda>c.
       bind (aget_int (open_file_table s) (OFT_entry_num c)) (\<lambda>e.
       bind (readFile dev (startCluster e) buf nbytes (access_offset e) (fsys s)) (\<lambda>(ret, buf, v).
       let s = s\<lparr>fsys := v\<rparr> in
       if ret \<noteq> 0 then Ok (-EIO, buf, s)
       else bind (advance (OFT_entry_num c) nbytes s) (\<lambda>s. Ok (ret, buf, s)))))))"

section \<open>Opening, closing, seeking, unlinking\<close>

text \<open>The local arrays \<open>filename[11]\<close> and \<open>dir[96]\<close> hold junk before they are written.\<close>

definition junk_array :: "nat \<Rightarrow> 'd system \<Rightarrow> byte list" where
  "junk_array n s = map (junk (fsys s)) [0..<n]"

definition set_channel :: "int \<Rightarrow> channel_table_entry \<Rightarrow> 'd system \<Rightarrow> 'd system res" where
  "set_channel i c s =
     bind (current_task s) (\<lambda>t. bind (aput_int (channel_table t) i c) (\<lambda>ct.
     bind (set_task (cur (kern s)) (\<lambda>t. t\<lparr>channel_table := ct\<rparr>) (kern s)) (\<lambda>k. Ok (s\<lparr>kern := k\<rparr>))))"

text \<open>
  The inner loop over the open file table uses the same \<open>i\<close> as the outer one: after it \<open>i\<close> is
  the number of the free entry of that table, and this is the channel that is assigned.
\<close>

definition install_file :: "dword \<Rightarrow> int \<Rightarrow> 'd system \<Rightarrow> (int \<times> 'd system) res" where
  "install_file fileCluster mode s =
     bind (for_each [0..<OPEN_FILE_TABLE_SIZE] (\<lambda>i _. bind (aget (open_file_table s) i) (\<lambda>e.
        Ok (if startCluster e = 0 then Inr i else Inl ()))) ()) (\<lambda>r.
     case r of
       Inl _ \<Rightarrow> Ok (-EMFILE, s)
     | Inr i \<Rightarrow>
         bind (set_channel (int i) \<lparr>fd = int i + 2, OFT_entry_num = int i\<rparr> s) (\<lambda>s.
         bind (aput (open_file_table s) i \<lparr>startCluster = fileCluster, openCount = 1, access_offset = 0, permissions = mode\<rparr>) (\<lambda>ft.
         Ok (int i + 2, s\<lparr>open_file_table := ft\<rparr>))))"

definition sys_open :: "'d blockdev \<Rightarrow> byte list \<Rightarrow> int \<Rightarrow> 'd system \<Rightarrow> (int \<times> 'd system) res" where
  "sys_open dev path mode s =
     bind (searchFile dev path (fsys s)) (\<lambda>(c, f).
     let s = s\<lparr>fsys := f\<rparr> in
     bind (if word_of_int c = (0 :: dword) then
             bind (split_filename path (junk_array 96 s) (junk_array 11 s)) (\<lambda>(dir, fname).
             bind (createFile dev dir fname 0x20 (fsys s)) (\<lambda>(ret, f). Ok (ret, ret \<noteq> -1, s\<lparr>fsys := f\<rparr>)))
           else Ok (c, True, s)) (\<lambda>(c, found, s).
     if \<not> found then Ok (-EIO, s)
     else bind (current_task s) (\<lambda>t.
       bind (for_each [0..<CHANNEL_TABLE_SIZE] (\<lambda>i _. bind (aget (channel_table t) i) (\<lambda>ch.
          Ok (if fd ch \<noteq> int i + 2 then Inr () else Inl ()))) ()) (\<lambda>r.
       case r of Inl _ \<Rightarrow> Ok (-EMFILE, s) | Inr _ \<Rightarrow> install_file (word_of_int c) mode s))))"

definition sys_close :: "int \<Rightarrow> 'd system \<Rightarrow> (int \<times> 'd system) res" where
  "sys_close f s =
     bind (current_task s) (\<lambda>t.
     bind (channel_at t f) (\<lambda>c.
     if fd c \<noteq> f + 2 then Ok (-EBADF, s)
     else bind (channel_at t (f - 2)) (\<lambda>c'.
     bind (aget_int (open_file_table s) (OFT_entry_num c')) (\<lambda>e.
     bind (aput_int (open_file_table s) (OFT_entry_num c')
        (if 1 < openCount e then e\<lparr>openCount := openCount e - 1\<rparr>
         else \<lparr>startCluster = 0, openCount = 0, access_offset = 0, permissions = -1\<rparr>)) (\<lambda>ft.
     bind (set_channel f (c\<lparr>fd := 0\<rparr>) (s\<lparr>open_file_table := ft\<rparr>)) (\<lambda>s. Ok (0, s)))))))"

definition sys_unlink :: "'d blockdev \<Rightarrow> byte list \<Rightarrow> 'd system \<Rightarrow> (int \<times> 'd system) res" where
  "sys_unlink dev path s =
     bind (searchFile dev path (fsys s)) (\<lambda>(c, f).
     let s = s\<lparr>fsys := f\<rparr> in
     bind (split_filename path (junk_array 96 s) (junk_array 11 s)) (\<lambda>(dir, fname).
     bind (deleteFile dev dir fname (fsys s)) (\<lambda>(ret, f). Ok (ret, s\<lparr>fsys := f\<rparr>))))"

definition sys_lseek :: "int \<Rightarrow> int \<Rightarrow> int \<Rightarrow> 'd system \<Rightarrow> (int \<times> 'd system) res" where
  "sys_lseek f offset whence s =
     (if whence \<noteq> 0 \<and> whence \<noteq> 1 then Ok (-EINVAL, s)
      else bind (current_task s) (\<lambda>t.
      bind (channel_at t (f - 2)) (\<lambda>c.
      if fd c \<noteq> f then Ok (-EBADF, s)
      else bind (aget_int (open_file_table s) (OFT_entry_num c)) (\<lambda>e.
      let ret_seek = (if whence = 0 then offset else access_offset e + offset) in
      bind (aput_int (open_file_table s) (OFT_entry_num c) (e\<lparr>access_offset := ret_seek\<rparr>)) (\<lambda>ft.
      Ok (ret_seek, s\<lparr>open_file_table := ft\<rparr>))))))"

section \<open>Splitting overruns the file name\<close>

text \<open>
  \<open>for (; file_it<=11; file_it++) filename[file_it] = ' '\<close> writes twelve bytes, but the callers
  pass an array of eleven: with such an array the function always leaves it.
\<close>

lemma pad_both_fault:
  assumes "length fname = 11" and "file_it \<le> 11"
  shows "pad_both d file_it dir fname = Fault OutOfBounds \<or>
    (\<exists>d' dir' fname'. pad_both d file_it dir fname = Ok (d', dir', fname') \<and> length fname' = 11)"
proof -
  have "for_each [file_it..<11] (\<lambda>f (d, dir, fil).
        bind (aput dir d 32) (\<lambda>dir. bind (aput fil f 32) (\<lambda>fil. Ok (Inl (d + 1, dir, fil))))) (d, dir, fname)
          = (Fault OutOfBounds :: (nat \<times> byte list \<times> byte list + nat \<times> byte list \<times> byte list) res)
    \<or> (\<exists>x. for_each [file_it..<11] (\<lambda>f (d, dir, fil).
        bind (aput dir d 32) (\<lambda>dir. bind (aput fil f 32) (\<lambda>fil. Ok (Inl (d + 1, dir, fil))))) (d, dir, fname)
          = (Ok (Inl x) :: (nat \<times> byte list \<times> byte list + nat \<times> byte list \<times> byte list) res) \<and> length (snd (snd x)) = 11)"
    using assms(2,1)
  proof (induction "11 - file_it" arbitrary: file_it d dir fname)
    case 0
    then show ?case by simp
  next
    case (Suc n)
    then have lt: "file_it < 11" and up: "[file_it..<11] = file_it # [Suc file_it..<11]" by (simp_all add: upt_conv_Cons)
    show ?case
    proof (cases "d < length dir")
      case False
      then show ?thesis unfolding up using lt Suc.prems by (simp add: aput_def)
    next
      case True
      then show ?thesis unfolding up
        using Suc.hyps(1) [of "Suc file_it" "fname[file_it := 32]" "Suc d" "dir[d := 32]"] Suc.hyps(2) Suc.prems lt by simp
    qed
  qed
  then show ?thesis by (auto simp: pad_both_def)
qed

lemma split_filename_overruns_aux:
  assumes "length fname = 11"
  shows "split_filename (p @ [0]) directory fname = Fault OutOfBounds"
proof -
  let ?path = "p @ [0]"
  define I :: "nat \<times> nat \<times> nat \<times> byte list \<times> byte list \<Rightarrow> bool" where
    "I = (\<lambda>(path_it, d, file_it, dir, fil). length fil = 11 \<and> file_it \<le> 11)"
  define Q :: "nat \<times> nat \<times> byte list \<times> byte list \<Rightarrow> bool" where "Q = (\<lambda>(d, file_it, dir, fil). length fil = 11 \<and> file_it \<le> 11)"
  have "loop (split_round ?path) (1, 1, 0, directory, fname) = Fault OutOfBounds \<or>
    (\<exists>x. loop (split_round ?path) (1, 1, 0, directory, fname) = Ok x \<and> Q x)"
  proof (rule loop_or_fault [where I = I and m = "\<lambda>(path_it, _). Suc (length ?path) - path_it"])
    show "I (1, 1, 0, directory, fname)" using assms by (simp add: I_def)
  next
    fix st assume I: "I st"
    obtain path_it d file_it dir fil where st: "st = (path_it, d, file_it, dir, fil)" by (metis prod_cases5)
    with I have fil: "length fil = 11" "file_it \<le> 11" by (simp_all add: I_def)
    show "split_round ?path st = Fault OutOfBounds \<or>
      (\<exists>s'. split_round ?path st = Ok (Inl s') \<and> I s' \<and> (case s' of (path_it, _) \<Rightarrow> Suc (length ?path) - path_it)
          < (case st of (path_it, _) \<Rightarrow> Suc (length ?path) - path_it))
      \<or> (\<exists>x. split_round ?path st = Ok (Inr x) \<and> Q x)"
    proof (cases "path_it < length ?path")
      case False
      then show ?thesis by (simp add: st split_round_def aget_def)
    next
      case True
      then have c: "aget ?path path_it = Ok (?path ! path_it)" by simp
      consider "?path ! path_it = 0" | "?path ! path_it = 47" | "?path ! path_it \<noteq> 0" "?path ! path_it \<noteq> 47" by blast
      then show ?thesis
      proof cases
        case 1
        with c fil show ?thesis by (simp add: st split_round_def Q_def)
      next
        case 2
        from pad_both_fault [OF fil, of d dir]
        show ?thesis
        proof
          assume "pad_both d file_it dir fil = Fault OutOfBounds"
          with c 2 show ?thesis by (simp add: st split_round_def)
        next
          assume "\<exists>d' dir' fil'. pad_both d file_it dir fil = Ok (d', dir', fil') \<and> length fil' = 11"
          then obtain d' dir' fil' where p: "pad_both d file_it dir fil = Ok (d', dir', fil')" "length fil' = 11" by blast
          show ?thesis
          proof (cases "d' < length dir'")
            case False
            with c 2 p show ?thesis by (simp add: st split_round_def aput_def)
          next
            case lt: True
            have "split_round ?path (path_it, d, file_it, dir, fil) = Ok (Inl (path_it + 1, d' + 1, 0, dir'[d' := 47], fil'))"
              using c 2 p lt by (simp add: st split_round_def aput_def)
            then show ?thesis unfolding st using True p by (simp add: I_def)
          qed
        qed
      next
        case 3
        show ?thesis
        proof (cases "d < length dir \<and> file_it < 11")
          case False
          with c 3 fil show ?thesis by (auto simp: st split_round_def aput_def)
        next
          case lt: True
          have "split_round ?path (path_it, d, file_it, dir, fil) = Ok (Inl (path_it + 1, d + 1, file_it + 1, dir[d := ?path ! path_it], fil[file_it := ?path ! path_it]))"
            using c 3 lt fil by (simp add: st split_round_def aput_def)
          then show ?thesis unfolding st using True lt fil by (simp add: I_def)
        qed
      qed
    qed
  qed
  then show ?thesis
  proof
    assume "loop (split_round ?path) (1, 1, 0, directory, fname) = Fault OutOfBounds"
    then show ?thesis by (simp add: split_filename_def)
  next
    assume "\<exists>x. loop (split_round ?path) (1, 1, 0, directory, fname) = Ok x \<and> Q x"
    then obtain d file_it dir fil where x: "loop (split_round ?path) (1, 1, 0, directory, fname) = Ok (d, file_it, dir, fil)"
      "length fil = 11" "file_it \<le> 11" by (auto simp: Q_def)
    have "for_each [file_it..<12] (\<lambda>f fil. bind (aput fil f 32) (\<lambda>fil. Ok (Inl fil))) fil = (Fault OutOfBounds :: (byte list + byte list) res)"
      by (rule for_each_fault [where I = "\<lambda>fil. length fil = 11" and j = 11]) (use x in \<open>auto simp: aput_def\<close>)
    with x show ?thesis by (simp add: split_filename_def)
  qed
qed

section \<open>Descriptors\<close>

lemma check_fd_screen: "cur (kern s) < length (task (kern s)) \<Longrightarrow> check_fd 1 perm s = Ok (if perm = LECTURA then -EBADF else 0)"
  by (simp add: check_fd_def current_task_def get_task_Ok channel_at_def)

definition channel :: "'d system \<Rightarrow> nat \<Rightarrow> channel_table_entry" where
  "channel s i = channel_table (task (kern s) ! cur (kern s)) ! i"

definition tables_ok :: "'d system \<Rightarrow> bool" where
  "tables_ok s \<longleftrightarrow> cur (kern s) < length (task (kern s)) \<and>
     length (channel_table (task (kern s) ! cur (kern s))) = CHANNEL_TABLE_SIZE \<and> length (open_file_table s) = OPEN_FILE_TABLE_SIZE"

lemma channel_at_nat [simp]:
  "tables_ok s \<Longrightarrow> i < 10 \<Longrightarrow> channel_at (task (kern s) ! cur (kern s)) (int i) = Ok (channel s i)"
  by (simp add: channel_at_def tables_ok_def channel_def CHANNEL_TABLE_SIZE_def)

lemma current_task_Ok [simp]: "tables_ok s \<Longrightarrow> current_task s = Ok (task (kern s) ! cur (kern s))"
  by (simp add: current_task_def tables_ok_def get_task_Ok)

definition first_free_entry :: "'d system \<Rightarrow> nat option" where
  "first_free_entry s = find (\<lambda>i. startCluster (open_file_table s ! i) = 0) [0..<OPEN_FILE_TABLE_SIZE]"

lemma find_entry_rounds:
  "\<forall>i \<in> set is. i < length xs \<Longrightarrow>
   for_each is (\<lambda>i _. bind (aget xs i) (\<lambda>e. Ok (if P e i then Inr (g i) else Inl ()))) ()
     = Ok (case find (\<lambda>i. P (xs ! i) i) is of None \<Rightarrow> Inl () | Some i \<Rightarrow> Inr (g i))"
  by (induction "is") auto

definition opened :: "dword \<Rightarrow> int \<Rightarrow> nat \<Rightarrow> 'd system \<Rightarrow> 'd system" where
  "opened c mode i s = s\<lparr>
     kern := (kern s)\<lparr>task := (task (kern s))[cur (kern s) := (task (kern s) ! cur (kern s))\<lparr>channel_table :=
       (channel_table (task (kern s) ! cur (kern s)))[i := \<lparr>fd = int i + 2, OFT_entry_num = int i\<rparr>]\<rparr>]\<rparr>,
     open_file_table := (open_file_table s)[i := \<lparr>startCluster = c, openCount = 1, access_offset = 0, permissions = mode\<rparr>]\<rparr>"

lemma install_file_installs:
  assumes "tables_ok s" and "first_free_entry s = Some i"
  shows "install_file c mode s = (if i < CHANNEL_TABLE_SIZE then Ok (int i + 2, opened c mode i s) else Fault OutOfBounds)"
proof -
  have i: "i < OPEN_FILE_TABLE_SIZE" using assms(2) unfolding first_free_entry_def by (auto simp: find_Some_iff)
  have "for_each [0..<OPEN_FILE_TABLE_SIZE] (\<lambda>i _. bind (aget (open_file_table s) i) (\<lambda>e.
        Ok (if startCluster e = 0 then Inr i else Inl ()))) () = Ok (Inr i)"
    using find_entry_rounds [of "[0..<OPEN_FILE_TABLE_SIZE]" "open_file_table s" "\<lambda>e _. startCluster e = 0" "\<lambda>i. i"] assms
    by (simp add: first_free_entry_def tables_ok_def)
  then show ?thesis
    using assms(1) i
    by (simp add: install_file_def set_channel_def opened_def tables_ok_def aput_def set_task_def)
qed

lemma sys_open_existing_aux:
  assumes "tables_ok s" and "searchFile dev path (fsys s) = Ok (c, f)" and "word_of_int c \<noteq> (0 :: dword)"
    and "first_free_entry s = Some i" and "\<exists>j < CHANNEL_TABLE_SIZE. fd (channel s j) \<noteq> int j + 2"
  shows "sys_open dev path mode s =
    (if i < CHANNEL_TABLE_SIZE then Ok (int i + 2, opened (word_of_int c) mode i (s\<lparr>fsys := f\<rparr>)) else Fault OutOfBounds)"
proof -
  let ?s = "s\<lparr>fsys := f\<rparr>"
  have ok: "tables_ok ?s" and free: "first_free_entry ?s = Some i" using assms(1,4) by (simp_all add: tables_ok_def first_free_entry_def)
  have "find (\<lambda>j. fd (channel s j) \<noteq> int j + 2) [0..<CHANNEL_TABLE_SIZE] \<noteq> None"
    using assms(5) by (auto simp: find_None_iff)
  then obtain j where j: "find (\<lambda>j. fd (channel s j) \<noteq> int j + 2) [0..<CHANNEL_TABLE_SIZE] = Some j" by auto
  have "for_each [0..<CHANNEL_TABLE_SIZE] (\<lambda>i _. bind (aget (channel_table (task (kern s) ! cur (kern s))) i) (\<lambda>ch.
          Ok (if fd ch \<noteq> int i + 2 then Inr () else Inl ()))) () = Ok (Inr ())"
    using find_entry_rounds [of "[0..<CHANNEL_TABLE_SIZE]" "channel_table (task (kern s) ! cur (kern s))" "\<lambda>ch i. fd ch \<noteq> int i + 2" "\<lambda>_. ()"]
      assms(1) j by (simp add: tables_ok_def channel_def)
  with install_file_installs [OF ok free] assms(1-3) ok show ?thesis
    by (simp add: sys_open_def Let_def)
qed


end
