(* ===== verification/Ide_Driver.thy ===== *)
theory Ide_Driver
  imports Block_Device
begin

text \<open>
  disk-driver/ide.c: the polling driver of an ATA disk. The port instructions (\<open>inb\<close>,
  \<open>outb\<close>, \<open>insl\<close>, \<open>outsl\<close>: single machine instructions in io.c and io_patch.c) and the disk
  behind them are a parameter, a record \<open>'d ports\<close> over a device state \<open>'d\<close>. The driver's
  own globals \<open>havedisk0\<close> and \<open>havedisk1\<close> are the record \<open>ide_state\<close>. \<open>ide_debug\<close> is 0 and
  never assigned, so the debug traces print nothing and are left out.

  The locale \<open>ata_device\<close> states the part of the ATA PIO protocol the driver relies on
  (the specification the comments of ide.c cite); under it the driver is a \<open>block_device\<close>.
  \<open>ata_ports\<close> is a device that keeps the protocol, with any latency after each command.
\<close>

section \<open>The ports\<close>

record 'd ports =
  inb :: "word16 \<Rightarrow> 'd \<Rightarrow> byte \<times> 'd"
  outb :: "word16 \<Rightarrow> byte \<Rightarrow> 'd \<Rightarrow> 'd"
  insl :: "word16 \<Rightarrow> nat \<Rightarrow> 'd \<Rightarrow> byte list \<times> 'd"
  outsl :: "word16 \<Rightarrow> byte list \<Rightarrow> 'd \<Rightarrow> 'd"

definition IDEADDR :: word16 where "IDEADDR = 0x1F0"

definition STATUS :: word16 where "STATUS = IDEADDR OR 0x7"
definition DATA :: word16 where "DATA = IDEADDR OR 0x0"
definition SECCOUNT :: word16 where "SECCOUNT = IDEADDR OR 0x2"
definition LBAL :: word16 where "LBAL = IDEADDR OR 0x3"
definition LBAM :: word16 where "LBAM = IDEADDR OR 0x4"
definition LBAH :: word16 where "LBAH = IDEADDR OR 0x5"
definition DEV :: word16 where "DEV = IDEADDR OR 0x6"
definition CMD :: word16 where "CMD = IDEADDR OR 0x7"
definition DEVCTL :: word16 where "DEVCTL = IDEADDR OR 0x6 OR 0x200"
definition STATUSALT :: word16 where "STATUSALT = DEVCTL"

definition IDE_BSY :: byte where "IDE_BSY = 0x80"
definition IDE_DRDY :: byte where "IDE_DRDY = 0x40"
definition IDE_DF :: byte where "IDE_DF = 0x20"
definition IDE_DRQ :: byte where "IDE_DRQ = 0x08"
definition IDE_ERR :: byte where "IDE_ERR = 0x01"

definition IDE_CMD_READ :: byte where "IDE_CMD_READ = 0x20"
definition IDE_CMD_WRITE :: byte where "IDE_CMD_WRITE = 0x30"

definition BLOCK_SIZE :: nat where "BLOCK_SIZE = 512"

lemmas port_defs = IDEADDR_def STATUS_def DATA_def SECCOUNT_def LBAL_def LBAM_def LBAH_def DEV_def
  CMD_def DEVCTL_def STATUSALT_def
lemmas status_bit_defs = IDE_BSY_def IDE_DRDY_def IDE_DF_def IDE_DRQ_def IDE_ERR_def

section \<open>The driver\<close>

record ide_state =
  havedisk0 :: int
  havedisk1 :: int

definition idewait :: "'d ports \<Rightarrow> bool \<Rightarrow> 'd \<Rightarrow> (int \<times> 'd) res" where
  "idewait P checkerr d =
     bind (loop (\<lambda>d. case inb P STATUSALT d of (r, d') \<Rightarrow>
       if r AND (IDE_BSY OR IDE_DRDY) \<noteq> IDE_DRDY \<and> r \<noteq> 0 then Ok (Inl d') else Ok (Inr (r, d'))) d)
     (\<lambda>(r, d'). if checkerr \<and> (r = 0 \<or> r AND (IDE_DF OR IDE_ERR) \<noteq> 0) then Ok (-1, d') else Ok (0, d'))"

definition ide_soft_reset :: "'d ports \<Rightarrow> 'd \<Rightarrow> 'd res" where
  "ide_soft_reset P d =
     (let d = outb P DEVCTL 0x4 d; d = outb P DEVCTL 0x0 d;
          d = snd (inb P STATUSALT d); d = snd (inb P STATUSALT d);
          d = snd (inb P STATUSALT d); d = snd (inb P STATUSALT d)
      in bind (idewait P False d) (\<lambda>(_, d'). Ok d'))"

text \<open>The two probe loops of \<open>ideinit\<close>: up to 1000 reads of the status register.\<close>

definition probe :: "'d ports \<Rightarrow> 'd \<Rightarrow> (bool \<times> 'd) res" where
  "probe P d =
     bind (for_each [0..<1000] (\<lambda>_ d. case inb P STATUS d of (v, d') \<Rightarrow>
       if v \<noteq> 0 then Ok (Inr d') else Ok (Inl d')) d)
     (\<lambda>r. Ok (case r of Inl d' \<Rightarrow> (False, d') | Inr d' \<Rightarrow> (True, d')))"

definition ideinit :: "'d ports \<Rightarrow> ide_state \<Rightarrow> 'd \<Rightarrow> (int \<times> ide_state \<times> 'd) res" where
  "ideinit P s d =
     bind (ide_soft_reset P d) (\<lambda>d.
     bind (probe P (outb P DEV (0xe0 OR push_bit 4 1) d)) (\<lambda>(found1, d).
     let s = (if found1 then s\<lparr>havedisk1 := 1\<rparr> else s) in
     bind (probe P (outb P DEV (0xe0 OR push_bit 4 0) d)) (\<lambda>(found0, d).
     let s = (if found0 then s\<lparr>havedisk0 := 1\<rparr> else s) in
     Ok (if havedisk0 s \<noteq> 0 \<or> havedisk1 s \<noteq> 0 then 0 else -1, s, d))))"

text \<open>The upper half of the device register: \<open>bits = 0x0F; bits <<= 1; bits |= device; bits <<= 4\<close>.\<close>

definition dev_bits :: "byte \<Rightarrow> byte" where
  "dev_bits device = push_bit 4 (push_bit 1 0x0F OR device)"

definition idesetblock :: "'d ports \<Rightarrow> byte \<Rightarrow> dword \<Rightarrow> byte \<Rightarrow> 'd \<Rightarrow> int \<times> 'd" where
  "idesetblock P sectors block device d =
     (if block \<ge> push_bit 28 1 then (-1, d)
      else if device > 1 then (-1, d)
      else let d = outb P SECCOUNT sectors d;
               d = outb P LBAL (ucast (block AND 0xFF)) d;
               d = outb P LBAM (ucast (drop_bit 8 block AND 0xFF)) d;
               d = outb P LBAH (ucast (drop_bit 16 block AND 0xFF)) d;
               d = outb P DEV (ucast ((drop_bit 24 block AND 0x0F) OR ucast (dev_bits device))) d
           in (0, d))"

text \<open>
  The wait for DRQ in \<open>idewrite\<close> and \<open>ideread\<close>; \<open>times\<close> is an \<open>unsigned\<close>. \<open>False\<close> is the
  early return of \<open>-1\<close>.
\<close>

definition await_drq :: "'d ports \<Rightarrow> 'd \<Rightarrow> (bool \<times> 'd) res" where
  "await_drq P d =
     loop (\<lambda>(times :: dword, d). case inb P STATUSALT d of (r, d') \<Rightarrow>
       if r AND (IDE_BSY OR IDE_DRQ) \<noteq> IDE_DRQ
       then (if times > 4 \<and> r AND IDE_ERR = IDE_ERR then Ok (Inr (False, d')) else Ok (Inl (times + 1, d')))
       else Ok (Inr (True, d'))) (0, d)"

definition idewrite :: "'d ports \<Rightarrow> byte list option \<Rightarrow> dword \<Rightarrow> 'd \<Rightarrow> (int \<times> 'd) res" where
  "idewrite P b bloc d =
     (case b of None \<Rightarrow> Ok (-1, d) | Some buf \<Rightarrow>
      bind (idewait P False d) (\<lambda>(_, d).
      let (_, d) = idesetblock P 1 bloc 0 d;
          d = outb P DEVCTL 0x2 d;
          d = outb P CMD IDE_CMD_WRITE d in
      bind (await_drq P d) (\<lambda>(drq, d).
      if \<not> drq then Ok (-1, d)
      else if length buf < BLOCK_SIZE then Fault OutOfBounds
      else bind (idewait P False (outsl P DATA (take BLOCK_SIZE buf) d)) (\<lambda>(_, d). Ok (0, d)))))"

definition ideread :: "'d ports \<Rightarrow> byte list option \<Rightarrow> dword \<Rightarrow> 'd \<Rightarrow> (int \<times> byte list option \<times> 'd) res" where
  "ideread P b bloc d =
     (case b of None \<Rightarrow> Ok (-1, b, d) | Some buf \<Rightarrow>
      bind (idewait P False d) (\<lambda>(_, d).
      let (_, d) = idesetblock P 1 bloc 0 d;
          d = outb P DEVCTL 0x2 d;
          d = outb P CMD IDE_CMD_READ d in
      bind (await_drq P d) (\<lambda>(drq, d).
      if \<not> drq then Ok (-1, b, d)
      else if length buf < BLOCK_SIZE then Fault OutOfBounds
      else let (data, d) = insl P DATA (BLOCK_SIZE div 4) d in
        bind (idewait P False d) (\<lambda>(_, d). Ok (0, Some (data @ drop BLOCK_SIZE buf), d)))))"

text \<open>\<open>tobinary\<close>: the eight binary digits of a byte, most significant first.\<close>

definition tobinary :: "byte \<Rightarrow> byte list \<Rightarrow> byte list res" where
  "tobinary b tmp =
     bind (aput tmp 8 0) (\<lambda>tmp.
     bind (for_each (rev [0..<8]) (\<lambda>i (b, tmp).
       bind (aput tmp i (if b AND 1 \<noteq> 0 then 49 else 48)) (\<lambda>tmp'. Ok (Inl (drop_bit 1 b, tmp')))) (b, tmp))
     (\<lambda>r. Ok (case r of Inl (_, tmp') \<Rightarrow> tmp' | Inr tmp' \<Rightarrow> tmp')))"

text \<open>\<open>ide_routine\<close>, the interrupt service routine: it reads the alternate status register.\<close>

definition ide_routine :: "'d ports \<Rightarrow> 'd \<Rightarrow> 'd" where
  "ide_routine P d = snd (inb P STATUSALT d)"

text \<open>The driver as the block device the file system is written against.\<close>

definition ide_blockdev :: "'d ports \<Rightarrow> 'd blockdev" where
  "ide_blockdev P = \<lparr>
     bread = (\<lambda>b n d. bind (ideread P (Some b) n d) (\<lambda>(r, b', d'). Ok (r, case b' of Some x \<Rightarrow> x | None \<Rightarrow> b, d'))),
     bwrite = (\<lambda>b n d. idewrite P (Some b) n d)\<rparr>"

section \<open>The ATA PIO protocol\<close>

text \<open>
  What the driver relies on of the disk. \<open>Ready\<close> accepts a command; \<open>DataIn k\<close> and
  \<open>DataOut k\<close> wait for the transfer of sector \<open>k\<close>; \<open>Failed\<close> is the state after a command
  that named a sector the disk does not have.
\<close>

datatype ata_phase = Ready | DataIn nat | DataOut nat | Failed

text \<open>The status register shows the phase once the device is no longer busy.\<close>

definition shows_phase :: "byte \<Rightarrow> ata_phase \<Rightarrow> bool" where
  "shows_phase v p \<longleftrightarrow> v AND IDE_BSY = 0 \<and> v AND IDE_DRDY = IDE_DRDY \<and>
     (case p of Ready \<Rightarrow> v AND IDE_DRQ = 0 \<and> v AND IDE_ERR = 0
      | DataIn _ \<Rightarrow> v AND IDE_DRQ = IDE_DRQ
      | DataOut _ \<Rightarrow> v AND IDE_DRQ = IDE_DRQ
      | Failed \<Rightarrow> v AND IDE_DRQ = 0 \<and> v AND IDE_ERR = IDE_ERR)"

text \<open>The programming view of a disk: its sectors and its command block registers.\<close>

record ata_view =
  sectors :: "nat \<Rightarrow> byte list"
  seccount :: byte
  lbal :: byte
  lbam :: byte
  lbah :: byte
  devreg :: byte
  phase :: ata_phase
  lag :: nat

text \<open>The 28-bit sector address in the registers.\<close>

definition lba :: "'a ata_view_scheme \<Rightarrow> nat" where
  "lba v = unat (lbal v) + 2 ^ 8 * unat (lbam v) + 2 ^ 16 * unat (lbah v) + 2 ^ 24 * unat (devreg v AND 0x0F)"

lemma lba_registers:
  "lba (v\<lparr>seccount := c, lbal := x, lbam := y, lbah := z, devreg := w\<rparr>) =
   unat x + 2 ^ 8 * unat y + 2 ^ 16 * unat z + 2 ^ 24 * unat (w AND 0x0F)"
  by (simp add: lba_def)

text \<open>Drive 0 addressed by LBA, one sector per command.\<close>

definition addressed :: "'a ata_view_scheme \<Rightarrow> bool" where
  "addressed v \<longleftrightarrow> devreg v AND 0xF0 = 0xE0 \<and> seccount v = 1"

definition accepts :: "'a ata_view_scheme \<Rightarrow> bool" where
  "accepts v \<longleftrightarrow> lag v = 0 \<and> (phase v = Ready \<or> phase v = Failed)"

text \<open>Between two commands.\<close>

definition idle :: "'a ata_view_scheme \<Rightarrow> bool" where
  "idle v \<longleftrightarrow> phase v = Ready \<or> phase v = Failed"

locale ata_device =
  fixes P :: "'d ports" and view :: "'d \<Rightarrow> ata_view" and capacity :: nat
  assumes sector_size: "length (sectors (view d) k) = 512"
    and poll: "inb P STATUSALT d = (v, d') \<Longrightarrow> view d' = (view d)\<lparr>lag := lag (view d) - 1\<rparr> \<and>
      (if lag (view d) = 0 then shows_phase v (phase (view d))
       else v AND IDE_BSY = IDE_BSY \<and> v AND IDE_ERR = 0)"
    and write_seccount: "accepts (view d) \<Longrightarrow> view (outb P SECCOUNT x d) = (view d)\<lparr>seccount := x\<rparr>"
    and write_lbal: "accepts (view d) \<Longrightarrow> view (outb P LBAL x d) = (view d)\<lparr>lbal := x\<rparr>"
    and write_lbam: "accepts (view d) \<Longrightarrow> view (outb P LBAM x d) = (view d)\<lparr>lbam := x\<rparr>"
    and write_lbah: "accepts (view d) \<Longrightarrow> view (outb P LBAH x d) = (view d)\<lparr>lbah := x\<rparr>"
    and write_dev: "accepts (view d) \<Longrightarrow> view (outb P DEV x d) = (view d)\<lparr>devreg := x\<rparr>"
    and mask_interrupts: "view (outb P DEVCTL 2 d) = view d"
    and command_read: "accepts (view d) \<Longrightarrow> addressed (view d) \<Longrightarrow>
      \<exists>n. view (outb P CMD IDE_CMD_READ d) = (view d)\<lparr>lag := n,
        phase := if lba (view d) < capacity then DataIn (lba (view d)) else Failed\<rparr>"
    and command_write: "accepts (view d) \<Longrightarrow> addressed (view d) \<Longrightarrow>
      \<exists>n. view (outb P CMD IDE_CMD_WRITE d) = (view d)\<lparr>lag := n,
        phase := if lba (view d) < capacity then DataOut (lba (view d)) else Failed\<rparr>"
    and transfer_in: "phase (view d) = DataIn k \<Longrightarrow> lag (view d) = 0 \<Longrightarrow> insl P DATA 128 d = (bs, d') \<Longrightarrow>
      bs = sectors (view d) k \<and> (\<exists>n. view d' = (view d)\<lparr>lag := n, phase := Ready\<rparr>)"
    and transfer_out: "phase (view d) = DataOut k \<Longrightarrow> lag (view d) = 0 \<Longrightarrow> length bs = 512 \<Longrightarrow>
      \<exists>n. view (outsl P DATA bs d) = (view d)\<lparr>sectors := (sectors (view d))(k := bs), lag := n, phase := Ready\<rparr>"

section \<open>Status bits\<close>

lemma and_disjoint_masks:
  fixes v :: "'a :: len word"
  assumes "A AND B = 0"
  shows "v AND (A OR B) = B \<longleftrightarrow> v AND A = 0 \<and> v AND B = B"
proof -
  have "\<not> (bit A n \<and> bit B n)" for n
    using arg_cong [OF assms, of "\<lambda>w. bit w n"] by (simp add: bit_simps)
  then show ?thesis by (auto simp: bit_eq_iff bit_simps)
qed

lemma and_masks:
  "(v :: byte) AND (IDE_BSY OR IDE_DRDY) = IDE_DRDY \<longleftrightarrow> v AND IDE_BSY = 0 \<and> v AND IDE_DRDY = IDE_DRDY"
  "v AND (IDE_BSY OR IDE_DRQ) = IDE_DRQ \<longleftrightarrow> v AND IDE_BSY = 0 \<and> v AND IDE_DRQ = IDE_DRQ"
  by (rule and_disjoint_masks, simp add: status_bit_defs)+

lemma IDE_bits_nonzero [simp]: "IDE_BSY \<noteq> 0" "IDE_DRDY \<noteq> 0" "IDE_DRQ \<noteq> 0" "IDE_ERR \<noteq> 0" "0 \<noteq> IDE_BSY" "0 \<noteq> IDE_DRQ" "0 \<noteq> IDE_ERR"
  by (simp_all add: status_bit_defs)

lemma busy_nonzero: "v AND IDE_BSY = IDE_BSY \<Longrightarrow> v \<noteq> 0"
  by auto

lemma shows_phase_idle: "shows_phase v p \<Longrightarrow> v AND (IDE_BSY OR IDE_DRDY) = IDE_DRDY"
  by (simp add: shows_phase_def and_masks)

lemma shows_phase_drq: "shows_phase v p \<Longrightarrow>
  v AND (IDE_BSY OR IDE_DRQ) = IDE_DRQ \<longleftrightarrow> (\<exists>k. p = DataIn k \<or> p = DataOut k)"
  by (auto simp: shows_phase_def and_masks split: ata_phase.splits)

lemma shows_phase_err: "shows_phase v Failed \<Longrightarrow> v AND IDE_ERR = IDE_ERR"
  by (simp add: shows_phase_def)

section \<open>The registers after \<open>idesetblock\<close>\<close>

lemma dev_bits_0: "dev_bits 0 = 0xE0"
  by (simp add: dev_bits_def)

lemma unat_shift_byte:
  fixes block :: dword
  shows "unat (ucast (drop_bit k block AND 0xFF) :: byte) = unat block div 2 ^ k mod 2 ^ 8"
proof -
  have "unat (drop_bit k block AND mask 8) = unat block div 2 ^ k mod 2 ^ 8"
    by (simp only: unat_and_mask unat_drop_bit)
  then show ?thesis
    by (simp add: unsigned_ucast_eq take_bit_eq_mod mask_numeral)
qed

lemma unat_shift_byte0:
  fixes block :: dword
  shows "unat (ucast (block AND 0xFF) :: byte) = unat block mod 2 ^ 8"
  using unat_shift_byte [of 0 block] by simp

lemma dev_value:
  fixes block :: dword
  defines "v \<equiv> ucast ((drop_bit 24 block AND 0x0F) OR ucast (dev_bits 0)) :: byte"
  shows "v AND 0xF0 = 0xE0" and "unat (v AND 0x0F) = unat block div 2 ^ 24 mod 2 ^ 4"
proof -
  have v: "v = ucast (drop_bit 24 block AND 0x0F) OR 0xE0"
    by (simp add: v_def dev_bits_0 bit_eq_iff bit_simps)
  have nib: "(ucast (drop_bit 24 block AND mask 4) :: byte) = ucast (drop_bit 24 block) AND mask 4"
    by (rule bit_word_eqI) (auto simp: bit_simps)
  have m: "(0x0F :: byte) = mask 4" "(0x0F :: dword) = mask 4" by (simp_all add: mask_numeral)
  show "v AND 0xF0 = 0xE0"
    unfolding v m nib by (simp add: bit.conj_disj_distrib2 and.assoc mask_numeral)
  have "v AND 0x0F = ucast (drop_bit 24 block AND 0x0F)"
    unfolding v m nib by (simp add: bit.conj_disj_distrib2 and.assoc mask_numeral)
  then show "unat (v AND 0x0F) = unat block div 2 ^ 24 mod 2 ^ 4"
    unfolding m by (simp only: unsigned_ucast_eq unat_and_mask unat_drop_bit) (simp add: take_bit_eq_mod)
qed

lemma base_256_digits:
  "(n :: nat) < 2 ^ 28 \<Longrightarrow>
   n mod 2 ^ 8 + 2 ^ 8 * (n div 2 ^ 8 mod 2 ^ 8) + 2 ^ 16 * (n div 2 ^ 16 mod 2 ^ 8) + 2 ^ 24 * (n div 2 ^ 24 mod 2 ^ 4) = n"
proof -
  assume n: "n < 2 ^ 28"
  have "n div 256 = n div 256 mod 256 + 256 * (n div 65536)"
    using div_mult2_eq [of n 256 256] mod_mult_div_eq [of "n div 256" 256] by simp
  moreover have "n div 65536 = n div 65536 mod 256 + 256 * (n div 16777216)"
    using div_mult2_eq [of n 65536 256] mod_mult_div_eq [of "n div 65536" 256] by simp
  moreover have m16: "n div 16777216 mod 16 = n div 16777216" using n by simp
  ultimately have "n mod 256 + 256 * (n div 256 mod 256) + 65536 * (n div 65536 mod 256)
      + 16777216 * (n div 16777216 mod 16) = n"
    using mod_mult_div_eq [of n 256] by linarith
  then show ?thesis by (simp add: m16)
qed

section \<open>The driver on a disk that keeps the protocol\<close>

context ata_device begin

lemma idewait_0:
  "\<exists>d'. idewait P False d = Ok (0, d') \<and> view d' = (view d)\<lparr>lag := 0\<rparr>"
proof -
  have "\<exists>x. loop (\<lambda>d. case inb P STATUSALT d of (r, d') \<Rightarrow>
       if r AND (IDE_BSY OR IDE_DRDY) \<noteq> IDE_DRDY \<and> r \<noteq> 0 then Ok (Inl d') else Ok (Inr (r, d'))) d = Ok x
     \<and> view (snd x) = (view d)\<lparr>lag := 0\<rparr>"
  proof (rule loop_rule [where I = "\<lambda>e. (view e)\<lparr>lag := 0\<rparr> = (view d)\<lparr>lag := 0\<rparr>" and m = "\<lambda>e. lag (view e)"])
    fix e assume I: "(view e)\<lparr>lag := 0\<rparr> = (view d)\<lparr>lag := 0\<rparr>"
    obtain v e' where v: "inb P STATUSALT e = (v, e')" by (cases "inb P STATUSALT e")
    note p = poll [OF v]
    show "(\<exists>s'. (case inb P STATUSALT e of (r, d') \<Rightarrow>
         if r AND (IDE_BSY OR IDE_DRDY) \<noteq> IDE_DRDY \<and> r \<noteq> 0 then Ok (Inl d') else Ok (Inr (r, d'))) = Ok (Inl s')
         \<and> (view s')\<lparr>lag := 0\<rparr> = (view d)\<lparr>lag := 0\<rparr> \<and> lag (view s') < lag (view e)) \<or>
       (\<exists>x. (case inb P STATUSALT e of (r, d') \<Rightarrow>
         if r AND (IDE_BSY OR IDE_DRDY) \<noteq> IDE_DRDY \<and> r \<noteq> 0 then Ok (Inl d') else Ok (Inr (r, d'))) = Ok (Inr x)
         \<and> view (snd x) = (view d)\<lparr>lag := 0\<rparr>)"
    proof (cases "lag (view e) = 0")
      case True
      then have "v AND (IDE_BSY OR IDE_DRDY) = IDE_DRDY" using p shows_phase_idle [of v "phase (view e)"] by simp
      moreover have "view e' = (view d)\<lparr>lag := 0\<rparr>" using p True I by simp
      ultimately show ?thesis using v by simp
    next
      case False
      then have "v AND IDE_BSY = IDE_BSY" using p by simp
      then show ?thesis using v p I False by (auto simp: and_masks)
    qed
  qed simp
  then show ?thesis by (auto simp: idewait_def)
qed

lemma await_drq_phase:
  assumes "phase (view d) \<noteq> Ready"
  shows "\<exists>d'. await_drq P d = Ok (phase (view d) \<noteq> Failed, d') \<and> view d' = (view d)\<lparr>lag := 0\<rparr>"
proof -
  let ?body = "\<lambda>(times :: dword, d). case inb P STATUSALT d of (r, d') \<Rightarrow>
       if r AND (IDE_BSY OR IDE_DRQ) \<noteq> IDE_DRQ
       then (if times > 4 \<and> r AND IDE_ERR = IDE_ERR then Ok (Inr (False, d')) else Ok (Inl (times + 1, d')))
       else Ok (Inr (True, d'))"
  have "\<exists>x. loop ?body (0 :: dword, d) = Ok x \<and> fst x = (phase (view d) \<noteq> Failed) \<and> view (snd x) = (view d)\<lparr>lag := 0\<rparr>"
  proof (rule loop_rule [where I = "\<lambda>(t :: dword, e). (view e)\<lparr>lag := 0\<rparr> = (view d)\<lparr>lag := 0\<rparr>"
        and m = "\<lambda>(t, e). if lag (view e) = 0 then 5 - unat t else lag (view e) + 5"])
    fix s :: "dword \<times> 'd" assume I: "case s of (t, e) \<Rightarrow> (view e)\<lparr>lag := 0\<rparr> = (view d)\<lparr>lag := 0\<rparr>"
    obtain t e where s: "s = (t, e)" by (cases s)
    obtain v e' where v: "inb P STATUSALT e = (v, e')" by (cases "inb P STATUSALT e")
    note p = poll [OF v]
    from I s have Ie: "(view e)\<lparr>lag := 0\<rparr> = (view d)\<lparr>lag := 0\<rparr>" by simp
    then have ph: "phase (view e) = phase (view d)"
      by (metis ata_view.select_convs(7) ata_view.surjective ata_view.update_convs(8))
    show "(\<exists>s'. ?body s = Ok (Inl s') \<and> (case s' of (t, e) \<Rightarrow> (view e)\<lparr>lag := 0\<rparr> = (view d)\<lparr>lag := 0\<rparr>)
        \<and> (case s' of (t, e) \<Rightarrow> if lag (view e) = 0 then 5 - unat t else lag (view e) + 5)
          < (case s of (t, e) \<Rightarrow> if lag (view e) = 0 then 5 - unat t else lag (view e) + 5)) \<or>
      (\<exists>x. ?body s = Ok (Inr x) \<and> fst x = (phase (view d) \<noteq> Failed) \<and> view (snd x) = (view d)\<lparr>lag := 0\<rparr>)"
    proof (cases "lag (view e) = 0")
      case False
      then have "v AND IDE_BSY = IDE_BSY" "v AND IDE_ERR = 0" using p by auto
      then show ?thesis using v s p Ie False by (auto simp: and_masks)
    next
      case True
      with p ph have sp: "shows_phase v (phase (view d))" and e': "view e' = (view d)\<lparr>lag := 0\<rparr>" using Ie by auto
      show ?thesis
      proof (cases "phase (view d) = Failed")
        case False
        with sp assms have "v AND (IDE_BSY OR IDE_DRQ) = IDE_DRQ"
          by (cases "phase (view d)") (auto simp: shows_phase_drq)
        then show ?thesis using v s e' False by simp
      next
        case failed: True
        with sp have drq: "v AND (IDE_BSY OR IDE_DRQ) \<noteq> IDE_DRQ" and err: "v AND IDE_ERR = IDE_ERR"
          by (auto simp: shows_phase_drq shows_phase_err)
        show ?thesis
        proof (cases "t > 4")
          case True
          then show ?thesis using v s e' failed drq err by simp
        next
          case small: False
          then have "unat (t + 1) = unat t + 1" "unat t < 5"
            by (auto simp: word_less_nat_alt unat_word_ariths)
          then show ?thesis using v s e' failed drq small True by simp
        qed
      qed
    qed
  qed simp
  then show ?thesis by (auto simp: await_drq_def)
qed

text \<open>The five register writes of \<open>idesetblock\<close>, and the address they leave.\<close>

lemma idesetblock_view:
  assumes "accepts (view d)" and "unat n < 2 ^ 28"
  shows "\<exists>d'. idesetblock P 1 n 0 d = (0, d') \<and> accepts (view d') \<and> addressed (view d')
    \<and> lba (view d') = unat n \<and> sectors (view d') = sectors (view d)"
proof -
  have b: "\<not> n \<ge> push_bit 28 1" using assms(2) by (simp add: word_le_nat_alt)
  have acc: "accepts v \<Longrightarrow> accepts (v\<lparr>seccount := x\<rparr>)" "accepts v \<Longrightarrow> accepts (v\<lparr>lbal := x\<rparr>)"
    "accepts v \<Longrightarrow> accepts (v\<lparr>lbam := x\<rparr>)" "accepts v \<Longrightarrow> accepts (v\<lparr>lbah := x\<rparr>)"
    "accepts v \<Longrightarrow> accepts (v\<lparr>devreg := x\<rparr>)" for v :: ata_view and x
    by (simp_all add: accepts_def)
  let ?v = "(view d)\<lparr>seccount := 1, lbal := ucast (n AND 0xFF), lbam := ucast (drop_bit 8 n AND 0xFF),
    lbah := ucast (drop_bit 16 n AND 0xFF), devreg := ucast ((drop_bit 24 n AND 0x0F) OR ucast (dev_bits 0))\<rparr>"
  define e where "e = snd (idesetblock P 1 n 0 d)"
  have "idesetblock P 1 n 0 d = (0, e)" using b by (simp add: e_def idesetblock_def Let_def)
  moreover have "view e = ?v"
    using b assms(1) by (simp add: e_def idesetblock_def Let_def write_seccount write_lbal write_lbam write_lbah write_dev acc)
  moreover have "lba ?v = unat n"
    unfolding lba_registers unat_shift_byte [of 8 n] unat_shift_byte [of 16 n] unat_shift_byte0 [of n] dev_value
    by (rule base_256_digits [OF assms(2)])
  moreover have "addressed ?v" by (simp add: addressed_def dev_value)
  ultimately show ?thesis using acc assms(1) by auto
qed

lemma accepts_lag_0: "idle (view d) \<Longrightarrow> view d' = (view d)\<lparr>lag := 0\<rparr> \<Longrightarrow> accepts (view d')"
  by (simp add: accepts_def idle_def)

text \<open>The commands, from the registers that \<open>idesetblock\<close> leaves.\<close>

lemma ideread_from:
  assumes d1: "idewait P False d = Ok (0, d1)" and d2: "idesetblock P 1 n 0 d1 = (r, d2)"
    and acc: "accepts (view d2)" "addressed (view d2)" and len: "lba (view d2) < capacity \<longrightarrow> 512 \<le> length b"
  shows "\<exists>d'. ideread P (Some b) n d =
      Ok (if lba (view d2) < capacity then (0, Some (sectors (view d2) (lba (view d2)) @ drop 512 b), d') else (-1, Some b, d'))
    \<and> idle (view d') \<and> sectors (view d') = sectors (view d2)"
proof -
  define d3 where "d3 = outb P CMD IDE_CMD_READ (outb P DEVCTL 2 d2)"
  from command_read [of "outb P DEVCTL 2 d2", unfolded mask_interrupts] acc obtain k where d3: "view d3 = (view d2)\<lparr>lag := k,
      phase := if lba (view d2) < capacity then DataIn (lba (view d2)) else Failed\<rparr>"
    unfolding d3_def by blast
  then have "phase (view d3) \<noteq> Ready" by simp
  from await_drq_phase [OF this] obtain d4 where
    d4: "await_drq P d3 = Ok (lba (view d2) < capacity, d4)" "view d4 = (view d3)\<lparr>lag := 0\<rparr>" using d3 by auto
  note run = ideread_def Let_def d1 d2 d3_def [symmetric] d4(1)
  show ?thesis
  proof (cases "lba (view d2) < capacity")
    case False
    then have "ideread P (Some b) n d = Ok (-1, Some b, d4)" by (simp add: run)
    moreover have "idle (view d4)" "sectors (view d4) = sectors (view d2)"
      using False by (simp_all add: idle_def d4(2) d3)
    ultimately show ?thesis using False by simp
  next
    case True
    obtain bs d5 where d5: "insl P DATA 128 d4 = (bs, d5)" by (cases "insl P DATA 128 d4")
    from transfer_in [OF _ _ d5, of "lba (view d2)"] True d3 d4(2) have bs: "bs = sectors (view d2) (lba (view d2))"
      and v5: "\<exists>k. view d5 = (view d4)\<lparr>lag := k, phase := Ready\<rparr>" by auto
    obtain d6 where d6: "idewait P False d5 = Ok (0, d6)" "view d6 = (view d5)\<lparr>lag := 0\<rparr>" using idewait_0 [of d5] by auto
    have "ideread P (Some b) n d = Ok (0, Some (bs @ drop 512 b), d6)"
      using True len by (simp add: run BLOCK_SIZE_def d5 d6(1))
    moreover have "idle (view d6)" "sectors (view d6) = sectors (view d2)"
      using v5 by (auto simp: idle_def d6(2) d4(2) d3)
    ultimately show ?thesis using True bs by simp
  qed
qed

lemma idewrite_from:
  assumes d1: "idewait P False d = Ok (0, d1)" and d2: "idesetblock P 1 n 0 d1 = (r, d2)"
    and acc: "accepts (view d2)" "addressed (view d2)" and len: "lba (view d2) < capacity \<longrightarrow> 512 \<le> length b"
  shows "\<exists>d'. idewrite P (Some b) n d = Ok (if lba (view d2) < capacity then 0 else -1, d') \<and> idle (view d') \<and> sectors (view d') =
    (if lba (view d2) < capacity then (sectors (view d2))(lba (view d2) := take 512 b) else sectors (view d2))"
proof -
  define d3 where "d3 = outb P CMD IDE_CMD_WRITE (outb P DEVCTL 2 d2)"
  from command_write [of "outb P DEVCTL 2 d2", unfolded mask_interrupts] acc obtain k where d3: "view d3 = (view d2)\<lparr>lag := k,
      phase := if lba (view d2) < capacity then DataOut (lba (view d2)) else Failed\<rparr>"
    unfolding d3_def by blast
  then have "phase (view d3) \<noteq> Ready" by simp
  from await_drq_phase [OF this] obtain d4 where
    d4: "await_drq P d3 = Ok (lba (view d2) < capacity, d4)" "view d4 = (view d3)\<lparr>lag := 0\<rparr>" using d3 by auto
  note run = idewrite_def Let_def d1 d2 d3_def [symmetric] d4(1)
  show ?thesis
  proof (cases "lba (view d2) < capacity")
    case False
    then have "idewrite P (Some b) n d = Ok (-1, d4)" by (simp add: run)
    moreover have "idle (view d4)" "sectors (view d4) = sectors (view d2)"
      using False by (simp_all add: idle_def d4(2) d3)
    ultimately show ?thesis using False by simp
  next
    case True
    from transfer_out [of d4 "lba (view d2)" "take 512 b"] True d3 d4(2) len have
      v5: "\<exists>k. view (outsl P DATA (take 512 b) d4) = (view d4)\<lparr>sectors := (sectors (view d2))(lba (view d2) := take 512 b),
        lag := k, phase := Ready\<rparr>" by auto
    obtain d6 where d6: "idewait P False (outsl P DATA (take 512 b) d4) = Ok (0, d6)"
      "view d6 = (view (outsl P DATA (take 512 b) d4))\<lparr>lag := 0\<rparr>" using idewait_0 [of "outsl P DATA (take 512 b) d4"] by auto
    have "idewrite P (Some b) n d = Ok (0, d6)"
      using True len by (simp add: run BLOCK_SIZE_def d6(1))
    moreover have "idle (view d6)" "sectors (view d6) = (sectors (view d2))(lba (view d2) := take 512 b)"
      using v5 by (auto simp: idle_def d6(2))
    ultimately show ?thesis using True by simp
  qed
qed

lemma set_address:
  assumes "idle (view d)" and "unat n < 2 ^ 28"
  obtains d1 d2 where "idewait P False d = Ok (0, d1)" "idesetblock P 1 n 0 d1 = (0, d2)" "accepts (view d2)" "addressed (view d2)"
    "lba (view d2) = unat n" "sectors (view d2) = sectors (view d)"
proof -
  obtain d1 where d1: "idewait P False d = Ok (0, d1)" "view d1 = (view d)\<lparr>lag := 0\<rparr>" using idewait_0 [of d] by auto
  from idesetblock_view [OF accepts_lag_0 [OF assms(1) d1(2)] assms(2)] obtain d2 where
    "idesetblock P 1 n 0 d1 = (0, d2)" "accepts (view d2)" "addressed (view d2)" "lba (view d2) = unat n"
      "sectors (view d2) = sectors (view d1)" by blast
  with d1 that show thesis by simp
qed

lemma ideread_addressed:
  assumes "idle (view d)" and "unat n < 2 ^ 28" and "unat n < capacity \<longrightarrow> 512 \<le> length b"
  shows "\<exists>d'. ideread P (Some b) n d =
      Ok (if unat n < capacity then (0, Some (sectors (view d) (unat n) @ drop 512 b), d') else (-1, Some b, d'))
    \<and> idle (view d') \<and> sectors (view d') = sectors (view d)"
  using set_address [OF assms(1,2)] ideread_from [of d _ n _ _ b] assms(3) by metis

lemma idewrite_addressed:
  assumes "idle (view d)" and "unat n < 2 ^ 28" and "unat n < capacity \<longrightarrow> 512 \<le> length b"
  shows "\<exists>d'. idewrite P (Some b) n d = Ok (if unat n < capacity then 0 else -1, d') \<and> idle (view d')
    \<and> sectors (view d') = (if unat n < capacity then (sectors (view d))(unat n := take 512 b) else sectors (view d))"
  using set_address [OF assms(1,2)] idewrite_from [of d _ n _ _ b] assms(3) by metis

text \<open>A block number of 2^28 or more is refused by \<open>idesetblock\<close>, and nobody looks at its answer.\<close>

lemma idesetblock_refused: "2 ^ 28 \<le> unat n \<Longrightarrow> idesetblock P c n v d = (-1, d)"
proof -
  assume "2 ^ 28 \<le> unat n"
  then have "n \<ge> push_bit 28 1" by (simp add: word_le_nat_alt)
  then show ?thesis by (simp add: idesetblock_def)
qed

lemma refused_address:
  assumes "idle (view d)" and "2 ^ 28 \<le> unat n"
  obtains d1 where "idewait P False d = Ok (0, d1)" "idesetblock P 1 n 0 d1 = (-1, d1)" "accepts (view d1)"
    "view d1 = (view d)\<lparr>lag := 0\<rparr>"
proof -
  obtain d1 where d1: "idewait P False d = Ok (0, d1)" "view d1 = (view d)\<lparr>lag := 0\<rparr>" using idewait_0 [of d] by auto
  with accepts_lag_0 [OF assms(1) d1(2)] idesetblock_refused [OF assms(2)] that show thesis by blast
qed

lemma addressed_lag [simp]: "addressed (v\<lparr>lag := n\<rparr>) = addressed v" "lba (v\<lparr>lag := n\<rparr>) = lba v" for v :: ata_view
  by (simp_all add: addressed_def lba_def)

lemma idewrite_stale:
  assumes "idle (view d)" and "2 ^ 28 \<le> unat n" and "addressed (view d)" and "lba (view d) < capacity" and "512 \<le> length b"
  shows "\<exists>d'. idewrite P (Some b) n d = Ok (0, d') \<and> sectors (view d') = (sectors (view d))(lba (view d) := take 512 b)"
proof -
  from refused_address [OF assms(1,2)] obtain d1 where "idewait P False d = Ok (0, d1)" "idesetblock P 1 n 0 d1 = (-1, d1)"
    "accepts (view d1)" "view d1 = (view d)\<lparr>lag := 0\<rparr>" by blast
  with idewrite_from [of d d1 n "-1" d1 b] assms show ?thesis by auto
qed

end

text \<open>A disk that keeps the protocol makes the driver a block device.\<close>

sublocale ata_device \<subseteq> blk: block_device "ide_blockdev P" "\<lambda>d. sectors (view d)" "\<lambda>d. idle (view d)" "min capacity (2 ^ 28)"
proof
  fix d :: 'd and n :: dword and b :: "byte list" and k
  show "length (sectors (view d) k) = 512" by (rule sector_size)
  assume d: "idle (view d)"
  {
    assume n: "unat n < min capacity (2 ^ 28)" and b: "512 \<le> length b"
    from ideread_addressed [OF d, of n b] n b
    show "\<exists>d'. bread (ide_blockdev P) b n d = Ok (0, sectors (view d) (unat n) @ drop 512 b, d') \<and> idle (view d')
        \<and> sectors (view d') = sectors (view d)" by (auto simp: ide_blockdev_def)
    from idewrite_addressed [OF d, of n b] n b
    show "\<exists>d'. bwrite (ide_blockdev P) b n d = Ok (0, d') \<and> idle (view d')
        \<and> sectors (view d') = (sectors (view d))(unat n := take 512 b)" by (auto simp: ide_blockdev_def)
  }
  {
    assume n: "min capacity (2 ^ 28) \<le> unat n" "unat n < 2 ^ 28"
    then have miss: "\<not> unat n < capacity" by (auto simp: min_def split: if_splits)
    from ideread_addressed [OF d n(2), of b] miss
    show "\<exists>d'. bread (ide_blockdev P) b n d = Ok (-1, b, d') \<and> idle (view d') \<and> sectors (view d') = sectors (view d)"
      by (auto simp: ide_blockdev_def)
    from idewrite_addressed [OF d n(2), of b] miss
    show "\<exists>d'. bwrite (ide_blockdev P) b n d = Ok (-1, d') \<and> idle (view d') \<and> sectors (view d') = sectors (view d)"
      by (auto simp: ide_blockdev_def)
  }
qed

context ata_device begin

lemma is_block_device:
  "block_device (ide_blockdev P) (\<lambda>d. sectors (view d)) (\<lambda>d. idle (view d)) (min capacity (2 ^ 28))"
  by unfold_locales

end

section \<open>A disk\<close>

text \<open>
  A disk of \<open>cap\<close> sectors that stays busy for \<open>lat k\<close> polls after its \<open>k\<close>-th command, for any
  function \<open>lat\<close>. Register writes are ignored while it is busy.
\<close>

record ata_dev = ata_view + cmds :: nat

definition sector512 :: "byte list \<Rightarrow> byte list" where
  "sector512 s = take 512 (s @ replicate 512 0)"

definition ata_status :: "ata_dev \<Rightarrow> byte" where
  "ata_status d =
     (if 0 < lag d then IDE_BSY
      else case phase d of Ready \<Rightarrow> IDE_DRDY | Failed \<Rightarrow> IDE_DRDY OR IDE_ERR
        | DataIn _ \<Rightarrow> IDE_DRDY OR IDE_DRQ | DataOut _ \<Rightarrow> IDE_DRDY OR IDE_DRQ)"

definition ata_inb :: "word16 \<Rightarrow> ata_dev \<Rightarrow> byte \<times> ata_dev" where
  "ata_inb p d =
     (if p = STATUSALT \<or> (p = STATUS \<and> devreg d AND 0x10 = 0) then (ata_status d, d\<lparr>lag := lag d - 1\<rparr>)
      else (0, d))"

definition ata_command :: "(nat \<Rightarrow> nat) \<Rightarrow> nat \<Rightarrow> byte \<Rightarrow> ata_dev \<Rightarrow> ata_dev" where
  "ata_command lat cap c d =
     d\<lparr>cmds := Suc (cmds d), lag := lat (cmds d),
       phase := if addressed d \<and> lba d < cap \<and> c = IDE_CMD_READ then DataIn (lba d)
                else if addressed d \<and> lba d < cap \<and> c = IDE_CMD_WRITE then DataOut (lba d) else Failed\<rparr>"

definition ata_outb :: "(nat \<Rightarrow> nat) \<Rightarrow> nat \<Rightarrow> word16 \<Rightarrow> byte \<Rightarrow> ata_dev \<Rightarrow> ata_dev" where
  "ata_outb lat cap p v d =
     (if p = DEVCTL then (if v AND 4 \<noteq> 0 then d\<lparr>phase := Ready, lag := 0\<rparr> else d)
      else if 0 < lag d then d
      else if p = SECCOUNT then d\<lparr>seccount := v\<rparr>
      else if p = LBAL then d\<lparr>lbal := v\<rparr>
      else if p = LBAM then d\<lparr>lbam := v\<rparr>
      else if p = LBAH then d\<lparr>lbah := v\<rparr>
      else if p = DEV then d\<lparr>devreg := v\<rparr>
      else if p = CMD then ata_command lat cap v d
      else d)"

definition ata_insl :: "(nat \<Rightarrow> nat) \<Rightarrow> word16 \<Rightarrow> nat \<Rightarrow> ata_dev \<Rightarrow> byte list \<times> ata_dev" where
  "ata_insl lat p cnt d =
     (case phase d of DataIn k \<Rightarrow> (take (4 * cnt) (sector512 (sectors d k)),
        d\<lparr>phase := Ready, lag := lat (cmds d), cmds := Suc (cmds d)\<rparr>)
      | _ \<Rightarrow> (replicate (4 * cnt) 0xFF, d))"

definition ata_outsl :: "(nat \<Rightarrow> nat) \<Rightarrow> word16 \<Rightarrow> byte list \<Rightarrow> ata_dev \<Rightarrow> ata_dev" where
  "ata_outsl lat p bs d =
     (case phase d of DataOut k \<Rightarrow>
        d\<lparr>sectors := (sectors d)(k := bs), phase := Ready, lag := lat (cmds d), cmds := Suc (cmds d)\<rparr>
      | _ \<Rightarrow> d)"

definition ata_ports :: "(nat \<Rightarrow> nat) \<Rightarrow> nat \<Rightarrow> ata_dev ports" where
  "ata_ports lat cap = \<lparr>inb = ata_inb, outb = ata_outb lat cap, insl = ata_insl lat, outsl = ata_outsl lat\<rparr>"

definition ata_view_of :: "ata_dev \<Rightarrow> ata_view" where
  "ata_view_of d = (ata_view.truncate d)\<lparr>sectors := \<lambda>k. sector512 (sectors d k)\<rparr>"

lemma ata_view_of_select [simp]:
  "sectors (ata_view_of d) = (\<lambda>k. sector512 (sectors d k))" "seccount (ata_view_of d) = seccount d"
  "lbal (ata_view_of d) = lbal d" "lbam (ata_view_of d) = lbam d" "lbah (ata_view_of d) = lbah d"
  "devreg (ata_view_of d) = devreg d" "phase (ata_view_of d) = phase d" "lag (ata_view_of d) = lag d"
  by (simp_all add: ata_view_of_def ata_view.truncate_def)

lemma ata_view_of_preds [simp]:
  "accepts (ata_view_of d) = accepts d" "addressed (ata_view_of d) = addressed d" "lba (ata_view_of d) = lba d"
  by (simp_all add: accepts_def addressed_def lba_def)

lemma sector512_id [simp]: "length s = 512 \<Longrightarrow> sector512 s = s" "length (sector512 s) = 512"
  by (simp_all add: sector512_def)

lemma ports_distinct:
  "LBAL \<noteq> SECCOUNT" "LBAM \<noteq> SECCOUNT" "LBAM \<noteq> LBAL" "LBAH \<noteq> SECCOUNT" "LBAH \<noteq> LBAL" "LBAH \<noteq> LBAM"
  "DEV \<noteq> SECCOUNT" "DEV \<noteq> LBAL" "DEV \<noteq> LBAM" "DEV \<noteq> LBAH" "CMD \<noteq> SECCOUNT" "CMD \<noteq> LBAL" "CMD \<noteq> LBAM"
  "CMD \<noteq> LBAH" "CMD \<noteq> DEV" "SECCOUNT \<noteq> DEVCTL" "LBAL \<noteq> DEVCTL" "LBAM \<noteq> DEVCTL" "LBAH \<noteq> DEVCTL"
  "DEV \<noteq> DEVCTL" "CMD \<noteq> DEVCTL" "STATUS \<noteq> STATUSALT"
  by (simp_all add: port_defs)

lemma ata_status_shows: "lag d = 0 \<Longrightarrow> shows_phase (ata_status d) (phase d)"
  by (simp add: ata_status_def shows_phase_def status_bit_defs split: ata_phase.split)

interpretation ata: ata_device "ata_ports lat cap" ata_view_of cap for lat cap
proof
  fix d d' :: ata_dev and v x :: byte and k :: nat and bs :: "byte list"
  show "length (sectors (ata_view_of d) k) = 512" by simp
  {
    assume "inb (ata_ports lat cap) STATUSALT d = (v, d')"
    then have "v = ata_status d" "d' = d\<lparr>lag := lag d - 1\<rparr>" by (auto simp: ata_ports_def ata_inb_def)
    then show "ata_view_of d' = (ata_view_of d)\<lparr>lag := lag (ata_view_of d) - 1\<rparr> \<and>
      (if lag (ata_view_of d) = 0 then shows_phase v (phase (ata_view_of d))
       else v AND IDE_BSY = IDE_BSY \<and> v AND IDE_ERR = 0)"
      using ata_status_shows [of d]
      by (simp add: ata_status_def ata_view_of_def ata_view.truncate_def status_bit_defs)
  }
  show "ata_view_of (outb (ata_ports lat cap) DEVCTL 2 d) = ata_view_of d"
    by (simp add: ata_ports_def ata_outb_def)
  {
    assume "accepts (ata_view_of d)"
    then have lag: "lag d = 0" by (simp add: accepts_def)
    note outb = ata_ports_def ata_outb_def ports_distinct ata_view_of_def ata_view.truncate_def lag
    show "ata_view_of (outb (ata_ports lat cap) SECCOUNT x d) = (ata_view_of d)\<lparr>seccount := x\<rparr>"
      "ata_view_of (outb (ata_ports lat cap) LBAL x d) = (ata_view_of d)\<lparr>lbal := x\<rparr>"
      "ata_view_of (outb (ata_ports lat cap) LBAM x d) = (ata_view_of d)\<lparr>lbam := x\<rparr>"
      "ata_view_of (outb (ata_ports lat cap) LBAH x d) = (ata_view_of d)\<lparr>lbah := x\<rparr>"
      "ata_view_of (outb (ata_ports lat cap) DEV x d) = (ata_view_of d)\<lparr>devreg := x\<rparr>"
      by (simp_all add: outb)
    assume adr: "addressed (ata_view_of d)"
    show "\<exists>n. ata_view_of (outb (ata_ports lat cap) CMD IDE_CMD_READ d) = (ata_view_of d)\<lparr>lag := n,
        phase := if lba (ata_view_of d) < cap then DataIn (lba (ata_view_of d)) else Failed\<rparr>"
      "\<exists>n. ata_view_of (outb (ata_ports lat cap) CMD IDE_CMD_WRITE d) = (ata_view_of d)\<lparr>lag := n,
        phase := if lba (ata_view_of d) < cap then DataOut (lba (ata_view_of d)) else Failed\<rparr>"
      using adr lag
      by (auto simp: ata_ports_def ata_outb_def ata_command_def ports_distinct IDE_CMD_READ_def IDE_CMD_WRITE_def
        ata_view_of_def ata_view.truncate_def addressed_def lba_def)
  }
  {
    assume "phase (ata_view_of d) = DataIn k" "lag (ata_view_of d) = 0"
      "insl (ata_ports lat cap) DATA 128 d = (bs, d')"
    then show "bs = sectors (ata_view_of d) k \<and> (\<exists>n. ata_view_of d' = (ata_view_of d)\<lparr>lag := n, phase := Ready\<rparr>)"
      by (auto simp: ata_ports_def ata_insl_def ata_view_of_def ata_view.truncate_def)
  }
  {
    assume "phase (ata_view_of d) = DataOut k" "length bs = 512"
    then show "\<exists>n. ata_view_of (outsl (ata_ports lat cap) DATA bs d) =
        (ata_view_of d)\<lparr>sectors := (sectors (ata_view_of d))(k := bs), lag := n, phase := Ready\<rparr>"
      by (auto simp: ata_ports_def ata_outsl_def ata_view_of_def ata_view.truncate_def fun_eq_iff)
  }
qed

section \<open>Properties\<close>

text \<open>
  C30: on a disk that keeps the ATA protocol, whatever it takes to answer, \<open>ideread\<close> of a block
  returns 0 with the 512 bytes of the sector in the buffer, and -1 with the buffer unchanged for a
  block behind the end of the disk; the disk does not change. A null buffer is refused with -1.
\<close>

theorem ideread_sector:
  assumes "ata_device P view cap" and "idle (view d)" and "unat n < 2 ^ 28" and "512 \<le> length b"
  shows "(\<exists>d'. ideread P (Some b) n d =
      Ok (if unat n < cap then (0, Some (sectors (view d) (unat n) @ drop 512 b), d') else (-1, Some b, d'))
    \<and> idle (view d') \<and> sectors (view d') = sectors (view d)) \<and> ideread P None n d = Ok (-1, None, d)"
  using ata_device.ideread_addressed [OF assms(1-3)] assms(4) by (auto simp: ideread_def)

text \<open>A disk of four sectors that is slow to answer.\<close>

definition sample_disk :: ata_dev where
  "sample_disk = \<lparr>sectors = (\<lambda>k. replicate 512 (of_nat k)), seccount = 1, lbal = 2, lbam = 0, lbah = 0,
     devreg = 0xE0, phase = Ready, lag = 12, cmds = 0\<rparr>"

lemma sample_disk_view: "idle (ata_view_of sample_disk)" "addressed (ata_view_of sample_disk)" "lba (ata_view_of sample_disk) = 2"
  "sectors (ata_view_of sample_disk) k = replicate 512 (of_nat k)"
  by (simp_all add: sample_disk_def idle_def addressed_def lba_def)

theorem ideread_sector_witness:
  "(\<exists>d. ideread (ata_ports (\<lambda>n. 3 * n) 4) (Some (replicate 512 0)) 1 sample_disk = Ok (0, Some (replicate 512 1), d)) \<and>
   (\<exists>d. ideread (ata_ports (\<lambda>n. 3 * n) 4) (Some (replicate 512 0)) 4 sample_disk = Ok (-1, Some (replicate 512 0), d))"
  using ideread_sector [OF ata.ata_device_axioms sample_disk_view(1), of 1 "replicate 512 0" "\<lambda>n. 3 * n" 4]
    ideread_sector [OF ata.ata_device_axioms sample_disk_view(1), of 4 "replicate 512 0" "\<lambda>n. 3 * n" 4]
  by (auto simp: sample_disk_def)

text \<open>
  \<open>idewrite\<close> replaces the sector of the block by the first 512 bytes of the buffer and no other
  sector, and a following \<open>ideread\<close> returns them.
\<close>

lemma idewrite_then_ideread:
  assumes "ata_device P view cap" and "idle (view d)" and "unat n < 2 ^ 28" and "unat n < cap" and "length b = 512" and "length c = 512"
  shows "\<exists>d' d''. idewrite P (Some b) n d = Ok (0, d') \<and> sectors (view d') = (sectors (view d))(unat n := b) \<and>
    ideread P (Some c) n d' = Ok (0, Some b, d'')"
proof -
  from ata_device.idewrite_addressed [OF assms(1-3), of b] assms(4,5) obtain d' where
    d': "idewrite P (Some b) n d = Ok (0, d')" "idle (view d')" "sectors (view d') = (sectors (view d))(unat n := b)" by auto
  from ata_device.ideread_addressed [OF assms(1) d'(2) assms(3), of c] assms(4,6) d' show ?thesis by auto
qed

text \<open>
  A block number of 2^28 or more does not fail: \<open>idesetblock\<close> refuses it without touching the
  registers, \<open>idewrite\<close> does not look at the answer, and the sector addressed last is overwritten.
\<close>

lemma idewrite_overwrites_last:
  assumes "ata_device P view cap" and "idle (view d)" and "2 ^ 28 \<le> unat n" and "addressed (view d)" and "lba (view d) < cap"
    and "length b = 512"
  shows "\<exists>d'. idewrite P (Some b) n d = Ok (0, d') \<and> sectors (view d') = (sectors (view d))(lba (view d) := b)"
  using ata_device.idewrite_stale [OF assms(1-5), of b] assms(6) by simp

lemma probe_none:
  assumes "inb P STATUS d = (0, d)"
  shows "probe P d = Ok (False, d)"
proof -
  have "for_each xs (\<lambda>_ d. case inb P STATUS d of (v, d') \<Rightarrow> if v \<noteq> 0 then Ok (Inr d') else Ok (Inl d')) d = Ok (Inl d)"
    for xs :: "nat list"
    by (induction xs) (simp_all add: assms)
  then show ?thesis by (simp add: probe_def)
qed


lemma probe_found:
  assumes "inb P STATUS d = (v, d')" and "v \<noteq> 0"
  shows "probe P d = Ok (True, d')"
proof -
  have "[0..<1000] = 0 # [Suc 0..<1000]" by (rule upt_conv_Cons) simp
  then show ?thesis using assms by (simp add: probe_def del: upt_rec_numeral)
qed

text \<open>
  \<open>ideinit\<close> finds the disk: it resets it, leaves it idle with drive 0 selected, sets
  \<open>havedisk0\<close>, leaves \<open>havedisk1\<close> alone (no drive 1 answers) and returns 0, from any state of the disk.
\<close>

lemma ideinit_finds_disk:
  "ideinit (ata_ports lat cap) s d = Ok (0, s\<lparr>havedisk0 := 1\<rparr>, d\<lparr>phase := Ready, lag := 0, devreg := 0xE0\<rparr>)"
proof -
  let ?P = "ata_ports lat cap" and ?r = "d\<lparr>phase := Ready, lag := 0\<rparr>"
  have poll: "inb ?P STATUSALT ?r = (IDE_DRDY, ?r)" by (simp add: ata_ports_def ata_inb_def ata_status_def)
  have "outb ?P DEVCTL 0x4 d = ?r" "outb ?P DEVCTL 0 ?r = ?r" by (simp_all add: ata_ports_def ata_outb_def)
  moreover have "idewait ?P False ?r = Ok (0, ?r)"
    unfolding idewait_def by (subst loop_stop) (auto simp: poll status_bit_defs)
  ultimately have reset: "ide_soft_reset ?P d = Ok ?r" by (simp add: ide_soft_reset_def poll)
  let ?one = "?r\<lparr>devreg := 0xF0\<rparr>" and ?zero = "?r\<lparr>devreg := 0xE0\<rparr>"
  have sel: "outb ?P DEV (0xe0 OR push_bit 4 1) ?r = ?one" "outb ?P DEV (0xe0 OR push_bit 4 0) ?one = ?zero"
    using ports_distinct by (simp_all add: ata_ports_def ata_outb_def)
  have "inb ?P STATUS ?one = (0, ?one)" using ports_distinct by (simp add: ata_ports_def ata_inb_def)
  then have one: "probe ?P ?one = Ok (False, ?one)" by (rule probe_none)
  have "inb ?P STATUS ?zero = (IDE_DRDY, ?zero)" by (simp add: ata_ports_def ata_inb_def ata_status_def)
  then have zero: "probe ?P ?zero = Ok (True, ?zero)" by (rule probe_found) simp
  show ?thesis unfolding ideinit_def reset bind.simps sel one zero Let_def split by simp
qed

end
