(* ===== verification/Fat32_Volume.thy ===== *)
theory Fat32_Volume
  imports Fat32_File Ide_Driver
begin

text \<open>
  The file system on the driver: a volume is a disk that keeps the ATA protocol (\<open>ata_device\<close>),
  reached through disk-driver/ide.c, with the globals of file-system/fat32.c. Here the
  operations of fat32.c are put together: what was created is found, what was deleted is not,
  what was written is read. The properties are stated for every disk that keeps the protocol,
  and shown at work on a small one (\<open>demo\<close>).
\<close>

section \<open>The directories on the way\<close>

text \<open>
  \<open>leads C nb s c ns ds d\<close>: from the directory at cluster \<open>c\<close> the names \<open>ns\<close> lead through
  directories to the directory at cluster \<open>d\<close>; the directories passed have the clusters \<open>ds\<close>.
\<close>

inductive leads :: "(nat \<Rightarrow> byte list) \<Rightarrow> nat \<Rightarrow> 'd fs \<Rightarrow> dword \<Rightarrow> byte list list \<Rightarrow> dword list \<Rightarrow> dword \<Rightarrow> bool"
  for C :: "nat \<Rightarrow> byte list" and nb :: nat and s :: "'d fs" where
  there: "leads C nb s c [] [] c"
| through: "data_chain nb s (c # cs) \<Longrightarrow> scan (padded n) (dir_entries C s (c # cs)) = Some (Recurse e) \<Longrightarrow>
     leads C nb s e ns ds d \<Longrightarrow> leads C nb s c (n # ns) (c # cs @ ds) d"

lemma leads_resolves: "leads C nb s c ns ds d \<Longrightarrow> resolves C nb s d ms v \<Longrightarrow> resolves C nb s c (ns @ ms) v"
proof (induction rule: leads.induct)
  case (through c cs n e ns ds d)
  then have "resolves C nb s e (ns @ ms) v" by simp
  with through.hyps(1,2) show ?case
    by (simp add: data_chain_def readable_def) (intro resolves.below [where d = e and cs = cs], auto)
qed simp

lemma resolves_last:
  "data_chain nb s (c # cs) \<Longrightarrow> scan (padded n) (dir_entries C s (c # cs)) = Some r \<Longrightarrow>
   resolves C nb s c [n] (case r of Return v \<Rightarrow> v | Recurse v \<Rightarrow> v)"
proof -
  assume chain: "data_chain nb s (c # cs)" and r: "scan (padded n) (dir_entries C s (c # cs)) = Some r"
  have c: "is_chain (FAT s) (c # cs)" "\<forall>d \<in> set (c # cs). \<forall>n \<in> set (cluster_sectors s d). n < nb"
    using data_chain_simps(1,3) [OF chain] by (simp_all only: readable_def)
  show ?thesis
  proof (cases r)
    case (Return v)
    with resolves.found [OF c] r show ?thesis by simp
  next
    case (Recurse v)
    with resolves.below [OF c _ resolves.here] r show ?thesis by simp
  qed
qed

lemma leads_same:
  assumes "leads C nb s c ns ds d"
    and "\<And>cs. set cs \<subseteq> set ds \<Longrightarrow> data_chain nb s cs \<Longrightarrow> data_chain nb s' cs \<and> dir_entries C' s' cs = dir_entries C s cs"
  shows "leads C' nb s' c ns ds d"
  using assms
proof (induction rule: leads.induct)
  case (there c)
  show ?case by (rule leads.there)
next
  case (through c cs n e ns ds d)
  have "data_chain nb s' (c # cs) \<and> dir_entries C' s' (c # cs) = dir_entries C s (c # cs)"
    using through.hyps(1) by (intro through.prems) auto
  moreover have "leads C' nb s' e ns ds d" using through.prems by (intro through.IH) auto
  ultimately show ?case using through.hyps(2) by (auto intro: leads.through)
qed

text \<open>What one entry of a directory is changed to does not show in another directory.\<close>

lemma cluster_block:
  assumes "data_chain nb s cs" and "c \<in> set cs" and "j < spc s"
  shows "unat (getDiskSector s c (int j)) = unat c * spc s + reserved s + j" "reserved s < unat (getDiskSector s c (int j))"
proof -
  have "spc s < 256" using unsigned_less [of "sectorsPerCluster (biosParameterBlock s)"] by simp
  with assms data_chain_simps(4,5) [OF assms(1,2)]
  show eq: "unat (getDiskSector s c (int j)) = unat c * spc s + reserved s + j"
    by (intro getDiskSector_unat) linarith+
  have "0 < unat c * spc s" using data_chain_simps(5) [OF assms(1,2)] assms(3) by simp
  then show "reserved s < unat (getDiskSector s c (int j))" unfolding eq by linarith
qed

lemma dir_entries_other:
  assumes chain: "data_chain nb s cs" "data_chain nb s ds" "set cs \<inter> set ds = {}" and p: "p < length cs * (16 * spc s)"
  shows "dir_entries (C(reserved s := fb, unat (entry_sector s cs p) := b)) s ds = dir_entries C s ds"
proof -
  note pos = entry_position [OF p]
  have e: "entry_dir_cluster s cs p \<in> set cs" using pos(1) by (simp add: entry_dir_cluster_alt)
  have "unat (getDiskSector s d (int j)) \<noteq> unat (entry_sector s cs p)" if "d \<in> set ds" "j < spc s" for d j
  proof
    assume "unat (getDiskSector s d (int j)) = unat (entry_sector s cs p)"
    then have "unat d * spc s + j = unat (entry_dir_cluster s cs p) * spc s + entry_sector_num s p"
      using cluster_block(1) [OF chain(2) that] cluster_block(1) [OF chain(1) e pos(2)] by (simp add: entry_sector_def)
    then have "(unat d * spc s + j) div spc s = (unat (entry_dir_cluster s cs p) * spc s + entry_sector_num s p) div spc s" by simp
    then have "unat d = unat (entry_dir_cluster s cs p)" using that(2) pos(2) by simp
    then have "d = entry_dir_cluster s cs p" by (simp only: word_unat_eq_iff)
    with e that(1) chain(3) show False by blast
  qed
  moreover have "unat (getDiskSector s d (int j)) \<noteq> reserved s" if "d \<in> set ds" "j < spc s" for d j
    using cluster_block(2) [OF chain(2) that] by simp
  ultimately have "cluster_entries (C(reserved s := fb, unat (entry_sector s cs p) := b)) s d = cluster_entries C s d"
    if "d \<in> set ds" for d
    using that by (auto simp: cluster_entries_def cluster_sectors_def intro!: arg_cong [where f = concat])
  then show ?thesis by (auto simp: dir_entries_def intro!: arg_cong [where f = concat])
qed

lemma data_chain_update:
  assumes "data_chain nb s cs" and "is_chain (FAT s') cs" and "length (FAT s') = FAT_SIZE" and "biosParameterBlock s' = biosParameterBlock s"
  shows "data_chain nb s' cs"
  using assms same_geometry(5) [OF assms(4)] by (simp add: data_chain_def)

lemma components_append: "0 \<notin> set p \<Longrightarrow> 47 \<notin> set n \<Longrightarrow> components (p @ 47 # n) = components p @ [n]"
proof (induction p)
  case Nil
  have "components n = [n]" using Nil(2)
  proof (induction n)
    case (Cons c n)
    then show ?case by auto
  qed simp
  then show ?case by simp
next
  case (Cons c p)
  then show ?case by (cases "components p") auto
qed

lemma scan_take_None:
  assumes "\<And>q. q < p \<Longrightarrow> no_match name (es ! q)" and "p \<le> length es"
  shows "scan name (take p es) = None"
  using assms
proof (induction p)
  case (Suc p)
  then have "take (Suc p) es = take p es @ [es ! p]" by (simp add: take_Suc_conv_app_nth)
  moreover have "no_match name (es ! p)" using Suc.prems(1) [of p] by simp
  ultimately show ?case using Suc by (simp add: scan_append no_match_def)
qed simp

context block_device begin

lemma create_then_search:
  assumes way: "leads (contents (device s)) nblocks s (rootClusterNum (extendedBootRecord s)) (tl (components path)) ds c"
    and path: "0 \<notin> set path" "0 \<notin> set n" "47 \<notin> set n"
    and chain: "data_chain nblocks s (c # cs)" "set (c # cs) \<inter> set ds = {}"
    and dev_ok: "ok (device s)" "bps s = 512" "reserved s < nblocks"
    and p: "p < length (c # cs) * (16 * spc s)" "p mod 16 < 15"
    and free: "first_free s = Some i" "i < 128" and name: "name = padded n" "map clean_char name = name"
    and usable: "\<not> skipped (stored_entry name attr i)"
    and before: "\<And>q. q < p \<Longrightarrow> no_match name (dir_entries (contents (device s)) s (c # cs) ! q)"
    and end_mark: "filename (dir_entries (contents (device s)) s (c # cs) ! p) ! 0 = 0"
  shows "\<exists>s' d. createFile dev (path @ [0]) name attr s = Ok (int i, s') \<and>
    searchFile dev (path @ 47 # n @ [0]) s' = Ok (int i, s'\<lparr>device := d\<rparr>)"
proof -
  let ?C = "contents (device s)"
  have len: "length (?C k) = 512" for k using length_contents dev_ok(1) by blast
  have name11: "length name = 11" using name(1) by simp
  have res: "resolves ?C nblocks s (rootClusterNum (extendedBootRecord s)) (tl (components path)) c"
    using leads_resolves [OF way resolves.here] by simp
  from createFile_creates [OF res path(1) chain(1) dev_ok p free name11 _ end_mark, of attr] before obtain d where
    d: "createFile dev (path @ [0]) name attr s = Ok (int i, (created_fs i s)\<lparr>device := d\<rparr>)" "ok d" and
    C': "contents d = ?C(reserved s := FAT_sector_bytes ((FAT s)[i := 0x0FFFFFFF]),
      unat (entry_sector s (c # cs) p) := new_dir_sector name attr i (p mod 16) (?C (unat (entry_sector s (c # cs) p))))"
    by (auto simp: no_match_def)
  let ?s = "(created_fs i s)\<lparr>device := d\<rparr>"
  have geo: "biosParameterBlock ?s = biosParameterBlock s" "extendedBootRecord ?s = extendedBootRecord s"
    by (simp_all add: created_fs_def take_cluster_def)
  note geo' = same_geometry [OF geo(1)]
  have keep: "data_chain nblocks ?s es" if "data_chain nblocks s es" for es
  proof (rule data_chain_update [OF that _ _ geo(1)])
    have "i \<notin> unat ` set es"
      using is_chain_used [OF data_chain_simps(1) [OF that]] first_free_range [OF free(1)] by auto
    then show "is_chain (FAT ?s) es" using data_chain_simps(1) [OF that] by (simp add: created_fs_FAT is_chain_update_nat)
    show "length (FAT ?s) = FAT_SIZE" using data_chain_simps(2) [OF that] by (simp add: created_fs_FAT)
  qed
  have "leads (contents d) nblocks ?s (rootClusterNum (extendedBootRecord s)) (tl (components path)) ds c"
  proof (rule leads_same [OF way])
    fix es assume es: "set es \<subseteq> set ds" "data_chain nblocks s es"
    with chain have "set (c # cs) \<inter> set es = {}" by blast
    from dir_entries_other [OF chain(1) es(2) this p(1)] keep [OF es(2)]
    show "data_chain nblocks ?s es \<and> dir_entries (contents d) ?s es = dir_entries ?C s es"
      unfolding geo' C' by blast
  qed
  moreover have "scan name (take p (dir_entries ?C s (c # cs))) = None"
    using before p(1) by (intro scan_take_None) (simp_all only: length_dir_entries order_less_imp_le)
  then have fresh: "scan (map clean_char name) (take p (dir_entries ?C s (c # cs))) = None" by (simp only: name(2))
  from scan_created [OF chain(1) p name11 len free(2) C' fresh usable]
  have "scan (padded n) (dir_entries (contents d) ?s (c # cs)) = Some ((if attr = 0x10 then Recurse else Return) (of_nat i))"
    unfolding geo' name(2) by (simp only: name(1))
  from resolves_last [OF keep [OF chain(1)] this] have "resolves (contents d) nblocks ?s c [n] (of_nat i)"
    by (cases "attr = 0x10") simp_all
  ultimately have "resolves (contents d) nblocks ?s (rootClusterNum (extendedBootRecord s)) (tl (components path) @ [n]) (of_nat i)"
    by (rule leads_resolves)
  then have "resolves (contents (device ?s)) nblocks ?s (rootClusterNum (extendedBootRecord ?s)) (tl (components (path @ 47 # n))) (of_nat i)"
    using components_append [OF path(1,3)] geo(2) by (simp add: tl_append2)
  from searchFile_resolves [OF this] path d(2) geo(1) dev_ok(2) data_chain_simps(2) [OF chain(1)] obtain d' where
    "searchFile dev ((path @ 47 # n) @ [0]) ?s = Ok (if of_nat i = (0xFFFFFFFF :: dword) then 0 else sint (of_nat i :: dword), ?s\<lparr>device := d'\<rparr>)"
    by (auto simp: created_fs_FAT)
  moreover have "sint (of_nat i :: dword) = int i" using free(2) by (intro sint_of_nat_small) simp
  moreover have "of_nat i \<noteq> (0xFFFFFFFF :: dword)" using free(2) by (simp add: word_unat_eq_iff unat_of_nat)
  ultimately show ?thesis using d(1) by (intro exI [of _ ?s] exI [of _ d']) simp
qed

lemma delete_then_search:
  assumes way: "leads (contents (device s)) nblocks s (rootClusterNum (extendedBootRecord s)) (tl (components path)) ds c"
    and path: "0 \<notin> set path" "0 \<notin> set n" "47 \<notin> set n"
    and chain: "data_chain nblocks s (c # cs)" "set (c # cs) \<inter> set ds = {}"
    and dev_ok: "ok (device s)" "bps s = 512" "reserved s < nblocks"
    and p: "p < r" "r < length (c # cs) * (16 * spc s)" and name: "name = padded n"
    and others: "\<And>q. q < r \<Longrightarrow> q \<noteq> p \<Longrightarrow> no_match name (dir_entries (contents (device s)) s (c # cs) ! q)"
    and match: "filename (dir_entries (contents (device s)) s (c # cs) ! p) = name"
      "entry_cluster (dir_entries (contents (device s)) s (c # cs) ! p) = f"
    and end_mark: "filename (dir_entries (contents (device s)) s (c # cs) ! r) ! 0 = 0"
    and fchain: "is_chain (FAT s) (f # fs)" "unat f < 128" "set (f # fs) \<inter> set (c # cs @ ds) = {}"
  shows "\<exists>s' d. deleteFile dev (path @ [0]) name s = Ok (-2, s') \<and>
    searchFile dev (path @ 47 # n @ [0]) s' = Ok (0, s'\<lparr>device := d\<rparr>)"
proof -
  let ?C = "contents (device s)"
  have len: "length (?C k) = 512" for k using length_contents dev_ok(1) by blast
  have nz: "0 \<notin> set name" using path(2) by (auto simp: name padded_def dest: in_set_takeD)
  have name11: "length name = 11" "name ! 0 \<noteq> 0" using name nz by (auto simp: in_set_conv_nth)
  have disj: "set (f # fs) \<inter> set (c # cs) = {}" using fchain(3) by auto
  have p': "p < length (c # cs) * (16 * spc s)" using p by linarith
  have res: "resolves ?C nblocks s (rootClusterNum (extendedBootRecord s)) (tl (components path)) c"
    using leads_resolves [OF way resolves.here] by simp
  from deleteFile_deletes [OF res path(1) chain(1) dev_ok p name11 others match end_mark fchain(1,2) disj] obtain d where
    d: "deleteFile dev (path @ [0]) name s = Ok (-2, (deleted_fs (f # fs) s)\<lparr>device := d\<rparr>)" "ok d" and
    C': "contents d = ?C(reserved s := FAT_sector_bytes (clear_all (FAT s) (f # fs)),
      unat (entry_sector s (c # cs) p) := erase_entry (p mod 16) (?C (unat (entry_sector s (c # cs) p))))"
    by auto
  let ?s = "(deleted_fs (f # fs) s)\<lparr>device := d\<rparr>"
  have geo: "biosParameterBlock ?s = biosParameterBlock s" "extendedBootRecord ?s = extendedBootRecord s"
    by (simp_all add: deleted_fs_def)
  note geo' = same_geometry [OF geo(1)]
  have keep: "data_chain nblocks ?s es" if "data_chain nblocks s es" "set (f # fs) \<inter> set es = {}" for es
  proof (rule data_chain_update [OF that(1) _ _ geo(1)])
    show "is_chain (FAT ?s) es"
      using is_chain_clear_other [OF data_chain_simps(1) [OF that(1)] that(2)] by (simp add: deleted_fs_def)
    show "length (FAT ?s) = FAT_SIZE" using data_chain_simps(2) [OF that(1)] by (simp add: deleted_fs_def)
  qed
  have "leads (contents d) nblocks ?s (rootClusterNum (extendedBootRecord s)) (tl (components path)) ds c"
  proof (rule leads_same [OF way])
    fix es assume es: "set es \<subseteq> set ds" "data_chain nblocks s es"
    with chain have o: "set (c # cs) \<inter> set es = {}" by blast
    from es(1) fchain(3) have "set (f # fs) \<inter> set es = {}" by auto
    from dir_entries_other [OF chain(1) es(2) o p'] keep [OF es(2) this]
    show "data_chain nblocks ?s es \<and> dir_entries (contents d) ?s es = dir_entries ?C s es"
      unfolding geo' C' by blast
  qed
  moreover have "scan name (dir_entries (contents d) ?s (c # cs)) = Some (Return 0xFFFFFFFF)"
  proof -
    let ?E = "dir_entries (contents d) s (c # cs)"
    note del = deleted_entries [OF chain(1) p' len C']
    have "no_match name (?E ! q)" if "q < r" for q
    proof (cases "q = p")
      case True
      have "name \<noteq> 0xE5 # replicate 10 0" using nz by auto
      with del(2) True show ?thesis by (simp add: no_match_def)
    next
      case False
      with that del(1) [of q] others [of q] p(2) show ?thesis by simp
    qed
    then have "scan name (take r ?E) = None" using p(2) by (intro scan_take_None) (simp_all only: length_dir_entries order_less_imp_le)
    moreover have "?E = take r ?E @ ?E ! r # drop (Suc r) ?E"
      by (rule id_take_nth_drop) (simp only: length_dir_entries p(2))
    moreover have "filename (?E ! r) ! 0 = 0" using del(1) [of r] p end_mark by simp
    ultimately have "scan name ?E = Some (Return 0xFFFFFFFF)" by (metis scan.simps(2) scan_append option.simps(4))
    then show ?thesis unfolding geo' .
  qed
  from resolves_last [OF keep [OF chain(1) disj] this [unfolded name]]
  have "resolves (contents d) nblocks ?s c [n] 0xFFFFFFFF" by simp
  ultimately have "resolves (contents d) nblocks ?s (rootClusterNum (extendedBootRecord s)) (tl (components path) @ [n]) 0xFFFFFFFF"
    by (rule leads_resolves)
  then have "resolves (contents (device ?s)) nblocks ?s (rootClusterNum (extendedBootRecord ?s)) (tl (components (path @ 47 # n))) 0xFFFFFFFF"
    using components_append [OF path(1,3)] geo(2) by (simp add: tl_append2)
  from searchFile_resolves [OF this] path d(2) geo(1) dev_ok(2) data_chain_simps(2) [OF chain(1)] obtain d' where
    "searchFile dev ((path @ 47 # n) @ [0]) ?s = Ok (0, ?s\<lparr>device := d'\<rparr>)"
    by (auto simp: deleted_fs_def)
  with d(1) show ?thesis by (intro exI [of _ ?s] exI [of _ d']) simp
qed

text \<open>Within a cluster a read gives the bytes of the file, and what was written reads back.\<close>

lemma read_in_cluster:
  assumes geo: "bps s = 512" "0 < spc s" and chain: "data_chain nblocks s cs" and dev_ok: "ok (device s)"
    and k: "start div (512 * spc s) = k" "k < length cs" and len: "len \<le> length buf" "start mod (512 * spc s) + len \<le> 512 * spc s"
    and behind: "\<forall>c \<in> set cs. unat c * spc s + reserved s + spc s < nblocks"
  shows "\<exists>d. readFile dev (hd cs) buf (int len) (int start) s =
      Ok (0, copied buf (\<lambda>i. file_byte (contents (device s)) s cs (start + i)) len, s\<lparr>device := d\<rparr>)
    \<and> ok d \<and> contents d = contents (device s)"
proof -
  define pos where "pos = start mod (512 * spc s)"
  have readable: "unat (run_sector s (drop k cs) z) < nblocks" if z: "z < (length cs - k) * (spc s + 1)" for z
  proof -
    have spc: "spc s < 256" using unsigned_less [of "sectorsPerCluster (biosParameterBlock s)"] by simp
    have "z div (spc s + 1) < length (drop k cs)" using z by (simp add: div_less_iff_less_mult)
    then have c: "drop k cs ! (z div (spc s + 1)) \<in> set cs" by (meson in_set_dropD nth_mem)
    have "z mod (spc s + 1) < spc s + 1" by simp
    with spc have "z mod (spc s + 1) < 256" "z mod (spc s + 1) \<le> spc s" by linarith+
    moreover from behind c have "unat (drop k cs ! (z div (spc s + 1))) * spc s + reserved s + spc s < nblocks" by blast
    moreover note data_chain_simps(4) [OF chain c]
    ultimately show ?thesis unfolding run_sector_def by (subst getDiskSector_unat) linarith+
  qed
  have n: "512 * spc s \<le> (length cs - k) * (spc s + 1) * 512"
  proof -
    have "1 * (spc s + 1) \<le> (length cs - k) * (spc s + 1)" using k(2) by (intro mult_le_mono1) simp
    then show ?thesis by simp
  qed
  have "len = min len ((length cs - k) * (spc s + 1) * 512 - pos)" using n len(2) by (simp add: pos_def)
  then have "\<exists>d. readFile dev (hd cs) buf (int len) (int start) s =
      Ok (0, copied buf (\<lambda>i. run_byte (contents (device s)) s (drop k cs) (pos + i)) len, s\<lparr>device := d\<rparr>)
    \<and> ok d \<and> contents d = contents (device s)"
    by (intro readFile_reads [OF geo data_chain_simps(1) [OF chain] dev_ok k len(1) readable pos_def])
  then obtain d where d: "readFile dev (hd cs) buf (int len) (int start) s =
      Ok (0, copied buf (\<lambda>i. run_byte (contents (device s)) s (drop k cs) (pos + i)) len, s\<lparr>device := d\<rparr>)"
    "ok d" "contents d = contents (device s)" by blast
  have "run_byte (contents (device s)) s (drop k cs) (pos + i) = file_byte (contents (device s)) s cs (start + i)" if "i < len" for i
  proof -
    have "512 * spc s * k + pos = start" using k(1) by (auto simp: pos_def)
    with run_byte_in_cluster [of "pos + i" s k cs "contents (device s)"] k(2) len(2) that show ?thesis
      by (simp add: pos_def add.assoc [symmetric])
  qed
  then have "copied buf (\<lambda>i. run_byte (contents (device s)) s (drop k cs) (pos + i)) len
    = copied buf (\<lambda>i. file_byte (contents (device s)) s cs (start + i)) len" by (intro copied_cong) simp
  with d show ?thesis by auto
qed

lemma patched_reads_back:
  assumes "0 < spc s" and "data_chain nblocks s cs" and k: "start div (512 * spc s) = k" "k < length cs"
    and "start mod (512 * spc s) + len \<le> 512 * spc s" and i: "i < len"
  shows "file_byte (patched C (unat (cs ! k) * spc s + reserved s) (spc s) buf (start mod (512 * spc s)) len) s cs (start + i) = buf ! i"
proof -
  let ?m = "spc s" and ?pos = "start mod (512 * spc s)"
  have x: "?pos + i < 512 * ?m" using assms(5) i by simp
  have at: "start + i = 512 * ?m * k + (?pos + i)" using k(1) mult_div_mod_eq [of "512 * ?m" start] by simp
  have "(start + i) div (512 * ?m) = k" unfolding at using x by simp
  then have cl: "(start + i) div 512 div ?m = k" by (simp add: div_mult2_eq)
  have d: "(start + i) div 512 = ?m * k + (?pos + i) div 512"
    unfolding at by (simp add: mult.assoc)
  have y: "(?pos + i) div 512 < ?m" using x by (simp add: div_less_iff_less_mult)
  then have ym: "(start + i) div 512 mod ?m = (?pos + i) div 512" unfolding d by simp
  have b: "(start + i) mod 512 = (?pos + i) mod 512" unfolding at by (simp add: mult.assoc)
  have "cs ! k \<in> set cs" using k(2) by simp
  from cluster_block(1) [OF assms(2) this y]
  have n: "unat (file_sector s cs ((start + i) div 512)) = unat (cs ! k) * ?m + reserved s + (?pos + i) div 512"
    unfolding file_sector_def cl ym .
  have "(?pos + i) div 512 * 512 + (?pos + i) mod 512 = ?pos + i" by simp
  then show ?thesis unfolding file_byte_def n b patched_def using y i by (simp add: Let_def)
qed

lemma write_then_read:
  assumes geo: "bps s = 512" "0 < spc s" and chain: "data_chain nblocks s cs" and dev_ok: "ok (device s)"
    and k: "start div (512 * spc s) = k" "k < length cs" and len: "len \<le> length buf" "len \<le> length out"
    and inside: "start mod (512 * spc s) + len \<le> 512 * spc s"
    and behind: "\<forall>c \<in> set cs. unat c * spc s + reserved s + spc s < nblocks"
  shows "\<exists>s' d. writeFile dev (hd cs) buf (int len) (int start) s = Ok (0, s') \<and>
    readFile dev (hd cs) out (int len) (int start) s' = Ok (0, take len buf @ drop len out, s'\<lparr>device := d\<rparr>)"
proof -
  have ck: "cs ! k \<in> set cs" using k(2) by simp
  from writeFile_writes [OF geo data_chain_simps(1,2) [OF chain] dev_ok k len(1) inside _ refl] data_chain_simps(3) [OF chain] ck
  obtain d where d: "writeFile dev (hd cs) buf (int len) (int start) s = Ok (0, s\<lparr>device := d\<rparr>)" "ok d"
    "contents d = patched (contents (device s)) (unat (cs ! k) * spc s + reserved s) (spc s) buf (start mod (512 * spc s)) len"
    by auto
  let ?s = "s\<lparr>device := d\<rparr>"
  have "data_chain nblocks ?s cs" using chain by (simp add: data_chain_def)
  from read_in_cluster [OF _ _ this, of start k len out] geo d(2) k len(2) inside behind obtain d' where
    r: "readFile dev (hd cs) out (int len) (int start) ?s =
      Ok (0, copied out (\<lambda>i. file_byte (contents d) ?s cs (start + i)) len, ?s\<lparr>device := d'\<rparr>)" by auto
  have "file_byte (contents d) ?s cs (start + i) = buf ! i" if "i < len" for i
  proof -
    have "file_byte (contents d) ?s cs (start + i) = file_byte (contents d) s cs (start + i)"
      by (simp add: file_byte_def file_sector_def)
    with patched_reads_back [OF geo(2) chain k inside that] show ?thesis by (simp add: d(3))
  qed
  then have "copied out (\<lambda>i. file_byte (contents d) ?s cs (start + i)) len = copied out (\<lambda>i. buf ! i) len"
    by (intro copied_cong)
  also have "\<dots> = take len buf @ drop len out"
    using len(1) unfolding copied_def by (intro arg_cong [where f = "\<lambda>x. x @ drop len out"] nth_equalityI) simp_all
  finally show ?thesis using d(1) r by (intro exI [of _ ?s] exI [of _ d']) simp
qed

end

section \<open>Volumes\<close>

definition disk_size :: "nat \<Rightarrow> nat" where
  "disk_size cap = min cap (2 ^ 28)"

definition blocks :: "('d \<Rightarrow> ata_view) \<Rightarrow> 'd fs \<Rightarrow> nat \<Rightarrow> byte list" where
  "blocks view s = sectors (view (device s))"

definition volume :: "'d ports \<Rightarrow> ('d \<Rightarrow> ata_view) \<Rightarrow> nat \<Rightarrow> 'd fs \<Rightarrow> bool" where
  "volume P view cap s \<longleftrightarrow> ata_device P view cap \<and> idle (view (device s)) \<and> bps s = 512 \<and> 0 < spc s
     \<and> length (FAT s) = FAT_SIZE \<and> reserved s < disk_size cap"

lemma volumeD:
  assumes "volume P view cap s"
  shows "block_device (ide_blockdev P) (\<lambda>d. sectors (view d)) (\<lambda>d. idle (view d)) (disk_size cap)"
    and "idle (view (device s))" "bps s = 512" "0 < spc s" "length (FAT s) = FAT_SIZE" "reserved s < disk_size cap"
  using assms ata_device.is_block_device [of P view cap] by (simp_all add: volume_def disk_size_def)

lemma volume_keep: "volume P view cap s \<Longrightarrow> idle (view d) \<Longrightarrow> volume P view cap (s\<lparr>device := d\<rparr>)"
  by (simp add: volume_def)

text \<open>A small volume: the root directory is cluster 2 and holds the file "A" of one cluster, 3.\<close>

definition demo_dir :: "byte list" where
  "demo_dir = 65 # replicate 10 32 @ 0x20 # replicate 14 0 @ 3 # replicate 485 0"

definition demo_disk :: ata_dev where
  "demo_disk = \<lparr>sectors = (\<lambda>k. if k = 3 then demo_dir else replicate 512 0), seccount = 0, lbal = 0, lbam = 0, lbah = 0,
     devreg = 0, phase = Ready, lag = 7, cmds = 0\<rparr>"

definition demo :: "ata_dev fs" where
  "demo = \<lparr>
     biosParameterBlock = \<lparr>bytesPerSector = 512, sectorsPerCluster = 1, reservedSectors = 1, FATs = 1, rootDirEntries = 0,
       numSectors = 64, mediaDescriptor = 0xF8, sectorsPerTrack = 0, numHeads = 0, hiddenSectors = 0, numSectorsLSC = 0\<rparr>,
     extendedBootRecord = \<lparr>sectorsPerFAT = 1, EBR_flags = 0, FATversion = 0, rootClusterNum = 2, FSInfoSectorNum = 1,
       bkBootSectorNum = 6, driveNum = 0x80, signature = 0x29, systemId = replicate 8 32\<rparr>,
     fsInfoStruct = \<lparr>leadSignature = 0, otherSignature = 0, lastKnownCluster = 0xFFFFFFFF, whereClusters = 0xFFFFFFFF, trailSignature = 0\<rparr>,
     rootDirectory = blank_entry,
     FAT = (replicate FAT_SIZE 0)[0 := 0x0FFFFFF8, 1 := 0x0FFFFFFF, 2 := 0x0FFFFFFF, 3 := 0x0FFFFFFF],
     device = demo_disk, console = [], junk = (\<lambda>_. 0)\<rparr>"

abbreviation demo_ports :: "ata_dev ports" where
  "demo_ports \<equiv> ata_ports (\<lambda>n. n mod 5) 64"

lemma demo_select [simp]:
  "bps demo = 512" "spc demo = 1" "reserved demo = 1" "rootClusterNum (extendedBootRecord demo) = 2" "length (FAT demo) = FAT_SIZE"
  "device demo = demo_disk" "junk demo n = 0" "whereClusters (fsInfoStruct demo) = 0xFFFFFFFF"
  by (simp_all add: demo_def)

lemma demo_FAT: "FAT demo ! 2 = 0x0FFFFFFF" "FAT demo ! 3 = 0x0FFFFFFF" "4 \<le> i \<Longrightarrow> i < FAT_SIZE \<Longrightarrow> FAT demo ! i = 0"
  by (simp_all add: demo_def FAT_SIZE_def)

lemma demo_volume: "volume demo_ports ata_view_of 64 demo"
  using ata.ata_device_axioms [of "\<lambda>n. n mod 5" 64] by (simp add: volume_def idle_def demo_disk_def disk_size_def)

lemma length_demo_dir [simp]: "length demo_dir = 512"
  by (simp add: demo_dir_def)

lemma demo_blocks: "blocks ata_view_of demo = (\<lambda>k. if k = 3 then demo_dir else replicate 512 0)"
  by (auto simp: blocks_def demo_disk_def)

lemma demo_getDiskSector: "getDiskSector demo c j = c + 1 + word_of_int j"
  by (simp add: getDiskSector_def demo_def)

lemma demo_readable: "unat c < 63 \<Longrightarrow> readable (disk_size 64) demo c"
  by (simp add: readable_def cluster_sectors_def demo_getDiskSector disk_size_def unat_word_ariths)

lemma demo_chain: "c = 2 \<or> c = 3 \<Longrightarrow> data_chain (disk_size 64) demo [c]"
  using demo_readable [of c] by (auto simp: data_chain_def demo_FAT FAT_SIZE_def)

lemma demo_root: "dir_entries (blocks ata_view_of demo) demo [2] = sector_entries demo_dir"
  unfolding demo_blocks by (simp add: dir_entries_def cluster_entries_def cluster_sectors_def demo_getDiskSector)

lemma demo_entry:
  "sector_entries demo_dir ! 0 = decode_entry demo_dir 0 blank_entry" "sector_entries demo_dir ! 1 = decode_entry demo_dir 32 blank_entry"
  by (simp_all add: sector_entries_def)

lemma demo_entry_0: "filename (sector_entries demo_dir ! 0) = 65 # replicate 10 32"
  "attributes (sector_entries demo_dir ! 0) = 0x20" "entry_cluster (sector_entries demo_dir ! 0) = 3"
  unfolding demo_entry by (simp_all add: decode_entry_def demo_dir_def entry_cluster_def nth_append)

lemma demo_entry_1: "filename (sector_entries demo_dir ! 1) ! 0 = 0"
  unfolding demo_entry by (simp add: decode_entry_def demo_dir_def)

lemma demo_free: "first_free demo = Some 4"
proof -
  have "[2..<FAT_SIZE] = [2, 3] @ 4 # [5..<FAT_SIZE]" by (simp add: FAT_SIZE_def upt_rec)
  then show ?thesis using demo_FAT by (simp add: first_free_def hint_def FAT_SIZE_def)
qed

section \<open>Looking up, creating and deleting\<close>

text \<open>
  C5: \<open>searchFile\<close> on a path returns what the path resolves to on the volume: the first cluster of
  the file or directory, 0 when a component is missing; it changes nothing on the disk.
\<close>

theorem search_resolves:
  assumes vol: "volume P view cap s" and path: "0 \<notin> set p"
    and res: "resolves (blocks view s) (disk_size cap) s (rootClusterNum (extendedBootRecord s)) (tl (components p)) v"
  shows "\<exists>d. searchFile (ide_blockdev P) (p @ [0]) s = Ok (if v = 0xFFFFFFFF then 0 else sint v, s\<lparr>device := d\<rparr>)
    \<and> volume P view cap (s\<lparr>device := d\<rparr>) \<and> sectors (view d) = blocks view s"
  unfolding blocks_def using block_device.searchFile_resolves [OF volumeD(1) [OF vol] res [unfolded blocks_def] volumeD(2) [OF vol] path volumeD(5,3) [OF vol]]
    volume_keep [OF vol] by auto

lemma demo_leads: "leads (blocks ata_view_of demo) (disk_size 64) demo (rootClusterNum (extendedBootRecord demo)) (tl (components [])) [] 2"
  by (simp add: leads.there)

lemma demo_resolves: "resolves (blocks ata_view_of demo) (disk_size 64) demo (rootClusterNum (extendedBootRecord demo)) (tl (components [47, 65])) 3"
proof -
  obtain e es where e: "sector_entries demo_dir = e # es" by (simp add: sector_entries_def upt_rec)
  then have "filename e = 65 # replicate 10 32" "attributes e = 0x20" "entry_cluster e = 3" using demo_entry_0 by simp_all
  moreover have "padded [65] = 65 # replicate 10 32" by (simp add: padded_def)
  ultimately have "scan (padded [65]) (sector_entries demo_dir) = Some (Return 3)" by (simp add: e skipped_def)
  then show ?thesis using resolves_last [OF demo_chain, of 2 "[65]" "blocks ata_view_of demo"]
    by (simp add: demo_root)
qed

theorem search_resolves_witness:
  "\<exists>d. searchFile (ide_blockdev demo_ports) [47, 65, 0] demo = Ok (3, demo\<lparr>device := d\<rparr>)"
  using search_resolves [OF demo_volume _ demo_resolves] by auto



lemma demo_before: "q < 1 \<Longrightarrow> no_match (66 # replicate 10 32) (dir_entries (blocks ata_view_of demo) demo [2] ! q)"
  unfolding demo_root by (simp add: no_match_def demo_entry_0)



lemma demo_name: "padded [66] = 66 # replicate 10 32"
  by (simp add: padded_def)




text \<open>
  C7: a deleted file is gone: \<open>searchFile\<close> of its path returns 0 after \<open>deleteFile\<close>.
\<close>

theorem delete_then_find:
  assumes vol: "volume P view cap s"
    and way: "leads (blocks view s) (disk_size cap) s (rootClusterNum (extendedBootRecord s)) (tl (components path)) ds c"
    and path: "0 \<notin> set path" "0 \<notin> set n" "47 \<notin> set n"
    and chain: "data_chain (disk_size cap) s (c # cs)" "set (c # cs) \<inter> set ds = {}"
    and p: "p < r" "r < length (c # cs) * (16 * spc s)"
    and others: "\<forall>q < r. q \<noteq> p \<longrightarrow> no_match (padded n) (dir_entries (blocks view s) s (c # cs) ! q)"
    and match: "filename (dir_entries (blocks view s) s (c # cs) ! p) = padded n"
      "entry_cluster (dir_entries (blocks view s) s (c # cs) ! p) = f"
    and end_mark: "filename (dir_entries (blocks view s) s (c # cs) ! r) ! 0 = 0"
    and fchain: "is_chain (FAT s) (f # fs)" "unat f < 128" "set (f # fs) \<inter> set (c # cs @ ds) = {}"
  shows "\<exists>s' d. deleteFile (ide_blockdev P) (path @ [0]) (padded n) s = Ok (-2, s') \<and>
    searchFile (ide_blockdev P) (path @ 47 # n @ [0]) s' = Ok (0, s'\<lparr>device := d\<rparr>)"
  using others unfolding blocks_def
  by (intro block_device.delete_then_search [OF volumeD(1) [OF vol] way [unfolded blocks_def] path chain volumeD(2,3,6) [OF vol] p refl _ match [unfolded blocks_def] end_mark [unfolded blocks_def] fchain]) blast

theorem delete_then_find_witness:
  "\<exists>s' d. deleteFile (ide_blockdev demo_ports) [0] (padded [65]) demo = Ok (-2, s') \<and>
    searchFile (ide_blockdev demo_ports) [47, 65, 0] s' = Ok (0, s'\<lparr>device := d\<rparr>)"
proof -
  have n: "padded [65] = 65 # replicate 10 32" by (simp add: padded_def)
  have e: "filename (dir_entries (blocks ata_view_of demo) demo [2] ! 0) = padded [65]"
    "entry_cluster (dir_entries (blocks ata_view_of demo) demo [2] ! 0) = 3"
    "filename (dir_entries (blocks ata_view_of demo) demo [2] ! 1) ! 0 = 0"
    unfolding demo_root n by (simp_all only: demo_entry_0 demo_entry_1)
  have f: "is_chain (FAT demo) [3]" by (simp add: demo_FAT FAT_SIZE_def)
  from delete_then_find [OF demo_volume demo_leads _ _ _ demo_chain _ _ _ _ e f] show ?thesis by auto
qed

section \<open>When creating fails\<close>

context block_device begin

lemma createFile_walks:
  assumes "resolves (contents (device s)) nblocks s (rootClusterNum (extendedBootRecord s)) (tl (components path)) c"
    and "0 \<notin> set path" and chain: "data_chain nblocks s (c # cs)" and "ok (device s)" "bps s = 512"
  shows "\<exists>d. createFile dev (path @ [0]) name attr s = walk_directory dev (create_visit dev name attr) (-1) c (s\<lparr>device := d\<rparr>)
    \<and> ok d \<and> contents d = contents (device s) \<and> data_chain nblocks (s\<lparr>device := d\<rparr>) (c # cs)"
proof -
  note data = data_chain_simps [OF chain]
  have c: "c \<noteq> 0xFFFFFFFF" using data(4) [of c] by (auto simp: FAT_SIZE_def)
  from searchFile_resolves [OF assms(1,4,2) data(2) assms(5)] c obtain d where
    "searchFile dev (path @ [0]) s = Ok (sint c, s\<lparr>device := d\<rparr>)" "ok d" "contents d = contents (device s)" by auto
  with chain show ?thesis by (intro exI [of _ d]) (simp add: createFile_def data_chain_def)
qed

lemma create_walk_overrun:
  assumes chain: "data_chain nblocks s (c # cs)" and dev_ok: "ok (device s)" "bps s = 512"
    and p: "p < length (c # cs) * (16 * spc s)" and free: "first_free s = Some i" "128 \<le> i"
    and before: "\<And>q. q < p \<Longrightarrow> filename (dir_entries (contents (device s)) s (c # cs) ! q) ! 0 \<noteq> 0"
    and end_mark: "filename (dir_entries (contents (device s)) s (c # cs) ! p) ! 0 = 0"
  shows "walk_directory dev (create_visit dev name attr) (-1) c s = Fault OutOfBounds"
proof -
  let ?n = "entry_sector s (c # cs) p" and ?v = "create_visit dev name attr"
  let ?b = "contents (device s) (unat ?n)"
  have len: "length (contents (device s) k) = 512" for k using length_contents dev_ok(1) by blast
  have "quiet ?v s (contents (device s)) (c # cs) q" if "q < p" for q
    using that before p len by (intro quiet_create [OF chain]) auto
  from walk_to_entry [OF chain dev_ok p this, of "-1"] obtain d where d: "ok d" "contents d = contents (device s)"
    "walk_directory dev ?v (-1) c s = walk_at dev ?v (-1) (c # cs) p ?b (s\<lparr>device := d\<rparr>)" by auto
  have e: "filename (decode_entry ?b (32 * (p mod 16)) blank_entry) ! 0 = 0" using end_mark p by (simp add: nth_dir_entries)
  have "walk_at dev ?v (-1) (c # cs) p ?b (s\<lparr>device := d\<rparr>) = Fault OutOfBounds"
    unfolding walk_at_def same_geometry [of "s\<lparr>device := d\<rparr>" s, simplified]
    using e len free data_chain_simps(2) [OF chain]
    by (intro walk_rest_fault create_visit_overrun [where i = i]) simp_all
  with d show ?thesis by auto
qed

end

lemma first_freeI:
  assumes "hint s \<le> i" and "i < FAT_SIZE" and "FAT s ! i = 0" and "\<And>j. hint s \<le> j \<Longrightarrow> j < i \<Longrightarrow> FAT s ! j \<noteq> 0"
  shows "first_free s = Some i"
  unfolding first_free_def find_Some_iff using assms by (intro exI [of _ "i - hint s"]) auto

text \<open>
  C27: \<open>createFile\<close> returns -1 and leaves the disk alone when the table has no free cluster, and when
  the directory has no end-of-directory entry.
\<close>

theorem create_file_full:
  assumes vol: "volume P view cap s" and path: "0 \<notin> set path"
    and res: "resolves (blocks view s) (disk_size cap) s (rootClusterNum (extendedBootRecord s)) (tl (components path)) c"
    and chain: "data_chain (disk_size cap) s (c # cs)" and p: "p \<le> length (c # cs) * (16 * spc s)"
    and before: "\<forall>q < p. filename (dir_entries (blocks view s) s (c # cs) ! q) ! 0 \<noteq> 0"
    and full: "p = length (c # cs) * (16 * spc s)
      \<or> first_free s = None \<and> filename (dir_entries (blocks view s) s (c # cs) ! p) ! 0 = 0"
  shows "\<exists>s'. createFile (ide_blockdev P) (path @ [0]) name attr s = Ok (-1, s') \<and> blocks view s' = blocks view s \<and> FAT s' = FAT s"
proof -
  note dev = volumeD(1) [OF vol] and v = volumeD [OF vol]
  from block_device.createFile_walks [OF dev res [unfolded blocks_def] path chain v(2,3)] obtain d where
    d: "createFile (ide_blockdev P) (path @ [0]) name attr s =
      walk_directory (ide_blockdev P) (create_visit (ide_blockdev P) name attr) (-1) c (s\<lparr>device := d\<rparr>)"
      "idle (view d)" "sectors (view d) = blocks view s" "data_chain (disk_size cap) (s\<lparr>device := d\<rparr>) (c # cs)"
    unfolding blocks_def by auto
  show ?thesis
  proof (cases "p = length (c # cs) * (16 * spc s)")
    case True
    then have "\<forall>e \<in> set (dir_entries (blocks view s) s (c # cs)). filename e ! 0 \<noteq> 0"
      using before by (auto simp: in_set_conv_nth)
    with block_device.create_walk_no_end [OF dev d(4), where name = name and attr = attr] d v(3,4) show ?thesis
      by (auto simp: blocks_def)
  next
    case False
    with full have "first_free s = None" "filename (dir_entries (blocks view s) s (c # cs) ! p) ! 0 = 0" by auto
    with block_device.create_walk_full [OF dev d(4), where name = name and attr = attr and p = p] d v(3) False p before
    show ?thesis by (auto simp: blocks_def)
  qed
qed

theorem create_file_full_witness:
  "\<exists>s'. createFile (ide_blockdev demo_ports) [0] (66 # replicate 10 32) 0x20
      (demo\<lparr>FAT := replicate FAT_SIZE 0x0FFFFFFF\<rparr>) = Ok (-1, s')"
proof -
  let ?s = "demo\<lparr>FAT := replicate FAT_SIZE 0x0FFFFFFF\<rparr>"
  have "biosParameterBlock ?s = biosParameterBlock demo" by simp
  note geo = same_geometry [OF this]
  have b: "blocks ata_view_of ?s = blocks ata_view_of demo" by (simp add: blocks_def)
  have "readable (disk_size 64) ?s 2" using demo_readable [of 2] by (simp add: geo)
  moreover have "is_chain (FAT ?s) [2]" by (simp add: FAT_SIZE_def nth_append)
  ultimately have c: "data_chain (disk_size 64) ?s [2]" by (simp add: data_chain_def FAT_SIZE_def)
  have "first_free ?s = None" by (auto simp: first_free_def find_None_iff)
  moreover have vol: "volume demo_ports ata_view_of 64 ?s" using demo_volume by (simp add: volume_def FAT_SIZE_def)
  ultimately show ?thesis
    using create_file_full [where p = 1 and s = ?s and path = "[]" and name = "66 # replicate 10 32" and attr = "0x20", OF vol _ _ c] demo_before demo_entry_1
      resolves.here [of "blocks ata_view_of ?s" "disk_size 64" ?s 2]
    by (auto simp: no_match_def geo b demo_root)
qed

text \<open>
  C28: when the first free cluster is 128 or beyond, \<open>createFile\<close> runs over the end of the local
  sector that \<open>copyFATtoDisk\<close> fills.
\<close>

theorem create_file_overrun:
  assumes vol: "volume P view cap s" and path: "0 \<notin> set path"
    and res: "resolves (blocks view s) (disk_size cap) s (rootClusterNum (extendedBootRecord s)) (tl (components path)) c"
    and chain: "data_chain (disk_size cap) s (c # cs)" and p: "p < length (c # cs) * (16 * spc s)"
    and free: "first_free s = Some i" "128 \<le> i"
    and before: "\<forall>q < p. filename (dir_entries (blocks view s) s (c # cs) ! q) ! 0 \<noteq> 0"
    and end_mark: "filename (dir_entries (blocks view s) s (c # cs) ! p) ! 0 = 0"
  shows "createFile (ide_blockdev P) (path @ [0]) name attr s = Fault OutOfBounds"
proof -
  note dev = volumeD(1) [OF vol] and v = volumeD [OF vol]
  from block_device.createFile_walks [OF dev res [unfolded blocks_def] path chain v(2,3)] obtain d where
    d: "createFile (ide_blockdev P) (path @ [0]) name attr s =
      walk_directory (ide_blockdev P) (create_visit (ide_blockdev P) name attr) (-1) c (s\<lparr>device := d\<rparr>)"
      "idle (view d)" "sectors (view d) = blocks view s" "data_chain (disk_size cap) (s\<lparr>device := d\<rparr>) (c # cs)"
    unfolding blocks_def by auto
  with block_device.create_walk_overrun [OF dev d(4), where name = name and attr = attr and p = p and i = i]
    v(3) p free before end_mark show ?thesis by (simp add: blocks_def)
qed

theorem create_file_overrun_witness:
  "createFile (ide_blockdev demo_ports) [0] (66 # replicate 10 32) 0x20
    (demo\<lparr>FAT := replicate 128 0x0FFFFFFF @ replicate (FAT_SIZE - 128) 0\<rparr>) = Fault OutOfBounds"
proof -
  let ?s = "demo\<lparr>FAT := replicate 128 0x0FFFFFFF @ replicate (FAT_SIZE - 128) 0\<rparr>"
  have "biosParameterBlock ?s = biosParameterBlock demo" by simp
  note geo = same_geometry [OF this]
  have b: "blocks ata_view_of ?s = blocks ata_view_of demo" by (simp add: blocks_def)
  have "readable (disk_size 64) ?s 2" using demo_readable [of 2] by (simp add: geo)
  moreover have "is_chain (FAT ?s) [2]" by (simp add: FAT_SIZE_def nth_append)
  ultimately have c: "data_chain (disk_size 64) ?s [2]" by (simp add: data_chain_def FAT_SIZE_def)
  have "first_free ?s = Some 128"
    by (rule first_freeI) (simp_all add: hint_def FAT_SIZE_def nth_append)
  moreover have vol: "volume demo_ports ata_view_of 64 ?s" using demo_volume by (simp add: volume_def FAT_SIZE_def)
  ultimately show ?thesis
    using create_file_overrun [where p = 1 and s = ?s and path = "[]" and name = "66 # replicate 10 32" and attr = "0x20", OF vol _ _ c] demo_before demo_entry_1
      resolves.here [of "blocks ata_view_of ?s" "disk_size 64" ?s 2]
    by (auto simp: no_match_def geo b demo_root)
qed

text \<open>
  \<open>deleteFile\<close> of a name that the directory does not hold also returns -2, and changes nothing
  on the disk or in the table.
\<close>

theorem delete_missing:
  assumes vol: "volume P view cap s" and path: "0 \<notin> set path"
    and res: "resolves (blocks view s) (disk_size cap) s (rootClusterNum (extendedBootRecord s)) (tl (components path)) c"
    and chain: "data_chain (disk_size cap) s (c # cs)" and p: "p < length (c # cs) * (16 * spc s)" and name: "length name = 11"
    and before: "\<forall>q < p. no_match name (dir_entries (blocks view s) s (c # cs) ! q)"
    and end_mark: "filename (dir_entries (blocks view s) s (c # cs) ! p) ! 0 = 0"
  shows "\<exists>d. deleteFile (ide_blockdev P) (path @ [0]) name s = Ok (-2, s\<lparr>device := d\<rparr>) \<and> idle (view d) \<and> sectors (view d) = blocks view s"
  using before unfolding blocks_def
  by (intro block_device.deleteFile_missing [OF volumeD(1) [OF vol] res [unfolded blocks_def] path chain volumeD(2,3) [OF vol] p name _ end_mark [unfolded blocks_def]]) blast

theorem delete_missing_witness:
  "\<exists>d. deleteFile (ide_blockdev demo_ports) [0] (66 # replicate 10 32) demo = Ok (-2, demo\<lparr>device := d\<rparr>)"
  using delete_missing [OF demo_volume, where path = "[]" and c = 2 and cs = "[]" and p = 1 and name = "66 # replicate 10 32"]
    leads_resolves [OF demo_leads resolves.here] demo_chain [of 2] demo_before demo_entry_1
  unfolding demo_root by auto

section \<open>Reading and writing\<close>

text \<open>
  C26: what \<open>readFile\<close> returns: the bytes of the clusters of the chain from the cluster of the start
  position on, each followed by the one sector behind it (\<open>run_byte\<close>), up to the length asked for
  or the end of the chain; nothing on the disk changes.
\<close>

theorem read_run:
  assumes vol: "volume P view cap s" and chain: "is_chain (FAT s) cs"
    and k: "start div (512 * spc s) = k" "k < length cs" and len: "len \<le> length buf"
    and readable: "\<forall>z < (length cs - k) * (spc s + 1). unat (run_sector s (drop k cs) z) < disk_size cap"
  shows "\<exists>d. readFile (ide_blockdev P) (hd cs) buf (int len) (int start) s =
      Ok (0, copied buf (\<lambda>i. run_byte (blocks view s) s (drop k cs) (start mod (512 * spc s) + i))
        (min len ((length cs - k) * (spc s + 1) * 512 - start mod (512 * spc s))), s\<lparr>device := d\<rparr>)
    \<and> idle (view d) \<and> sectors (view d) = blocks view s"
  using readable unfolding blocks_def
  by (intro block_device.readFile_reads [OF volumeD(1) [OF vol] volumeD(3,4) [OF vol] chain volumeD(2) [OF vol] k len _ refl refl]) blast

theorem read_run_witness:
  "\<exists>d. readFile (ide_blockdev demo_ports) 2 (replicate 1100 0) 1100 0 demo =
     Ok (0, copied (replicate 1100 0) (run_byte (blocks ata_view_of demo) demo [2]) 1024, demo\<lparr>device := d\<rparr>)"
proof -
  have "is_chain (FAT demo) [2]" by (simp add: demo_FAT FAT_SIZE_def)
  moreover have "unat (run_sector demo [2] z) < disk_size 64" if "z < 2" for z
    using that by (auto simp: run_sector_def demo_getDiskSector disk_size_def less_2_cases_iff)
  ultimately show ?thesis
    using read_run [OF demo_volume, of "[2]" 0 0 1100 "replicate 1100 0"] by auto
qed

text \<open>
  A read that stays inside one cluster returns the bytes of the file.
\<close>

lemma read_in_cluster_bytes:
  assumes vol: "volume P view cap s" and chain: "data_chain (disk_size cap) s cs"
    and k: "start div (512 * spc s) = k" "k < length cs" and len: "len \<le> length buf" "start mod (512 * spc s) + len \<le> 512 * spc s"
    and behind: "\<forall>c \<in> set cs. unat c * spc s + reserved s + spc s < disk_size cap"
  shows "\<exists>d. readFile (ide_blockdev P) (hd cs) buf (int len) (int start) s =
      Ok (0, copied buf (\<lambda>i. file_byte (blocks view s) s cs (start + i)) len, s\<lparr>device := d\<rparr>)
    \<and> idle (view d) \<and> sectors (view d) = blocks view s"
  unfolding blocks_def
  by (rule block_device.read_in_cluster [OF volumeD(1) [OF vol] volumeD(3,4) [OF vol] chain volumeD(2) [OF vol] k len behind])

text \<open>
  \<open>writeFile\<close> inside one cluster changes exactly the bytes of the range that was written, on the disk.
\<close>

lemma write_in_cluster:
  assumes vol: "volume P view cap s" and chain: "data_chain (disk_size cap) s cs"
    and k: "start div (512 * spc s) = k" "k < length cs" and len: "len \<le> length buf" "start mod (512 * spc s) + len \<le> 512 * spc s"
  shows "\<exists>d. writeFile (ide_blockdev P) (hd cs) buf (int len) (int start) s = Ok (0, s\<lparr>device := d\<rparr>) \<and> idle (view d) \<and>
    sectors (view d) = patched (blocks view s) (unat (cs ! k) * spc s + reserved s) (spc s) buf (start mod (512 * spc s)) len"
proof -
  have "readable (disk_size cap) s (cs ! k)" using data_chain_simps(3) [OF chain] k(2) by simp
  then show ?thesis unfolding blocks_def
    by (intro block_device.writeFile_writes [OF volumeD(1) [OF vol] volumeD(3,4) [OF vol] data_chain_simps(1,2) [OF chain] volumeD(2) [OF vol] k len _ refl])
qed

text \<open>
  C8: what \<open>writeFile\<close> wrote inside one cluster is what \<open>readFile\<close> reads back there.
\<close>

theorem write_then_read_back:
  assumes vol: "volume P view cap s" and chain: "data_chain (disk_size cap) s cs"
    and k: "start div (512 * spc s) = k" "k < length cs" and len: "len \<le> length buf" "len \<le> length out"
    and inside: "start mod (512 * spc s) + len \<le> 512 * spc s"
    and behind: "\<forall>c \<in> set cs. unat c * spc s + reserved s + spc s < disk_size cap"
  shows "\<exists>s' d. writeFile (ide_blockdev P) (hd cs) buf (int len) (int start) s = Ok (0, s') \<and>
    readFile (ide_blockdev P) (hd cs) out (int len) (int start) s' = Ok (0, take len buf @ drop len out, s'\<lparr>device := d\<rparr>)"
  by (rule block_device.write_then_read [OF volumeD(1) [OF vol] volumeD(3,4) [OF vol] chain volumeD(2) [OF vol] k len inside behind])

theorem write_then_read_back_witness:
  "\<exists>s' d. writeFile (ide_blockdev demo_ports) 3 [1, 2, 3] 3 100 demo = Ok (0, s') \<and>
    readFile (ide_blockdev demo_ports) 3 [9, 9, 9, 9] 3 100 s' = Ok (0, [1, 2, 3, 9], s'\<lparr>device := d\<rparr>)"
  using write_then_read_back [OF demo_volume demo_chain [of 3], of 100 0 3 "[1, 2, 3]" "[9, 9, 9, 9]"] by (auto simp: disk_size_def)

section \<open>The table on the disk\<close>

text \<open>
  C29: storing the first sector of the table and loading it into another table: of the 128 entries
  that were stored the first 32 come back, the others keep their old value.
\<close>

theorem store_then_load:
  assumes vol: "volume P view cap s" and c: "unat c < 128" and one: "sectorsPerFAT (extendedBootRecord s) = 1" and F: "length F = FAT_SIZE"
  shows "\<exists>s' s''. copyFATtoDisk (ide_blockdev P) c s = Ok s' \<and> readFATfromDisk (ide_blockdev P) (s'\<lparr>FAT := F\<rparr>) = Ok s''
    \<and> length (FAT s'') = FAT_SIZE \<and> (\<forall>e < FAT_SIZE. FAT s'' ! e = (if e < 32 then FAT s ! e else F ! e))"
proof -
  note dev = volumeD(1) [OF vol] and v = volumeD [OF vol]
  from block_device.copyFATtoDisk_stores [OF dev v(2) c _ v(6)] v(5) obtain d where
    d: "copyFATtoDisk (ide_blockdev P) c s = Ok (s\<lparr>device := d\<rparr>)" "idle (view d)"
      "sectors (view d) = (blocks view s)(reserved s := FAT_sector_bytes (FAT s))"
    by (auto simp: FAT_SIZE_def blocks_def)
  let ?t = "s\<lparr>device := d, FAT := F\<rparr>"
  from block_device.readFATfromDisk_loads [OF dev, of ?t 1] d one F v(6) obtain d' where
    d': "readFATfromDisk (ide_blockdev P) ?t = Ok (printk (chars (''FAT Written to memory'' @ [CHR 0x0A, CHR 0x0A]))
      (?t\<lparr>FAT := loaded_FAT (\<lambda>i. sectors (view d) (reserved s + i)) 1 F, device := d'\<rparr>))" by auto
  have "loaded_FAT (\<lambda>i. sectors (view d) (reserved s + i)) 1 F ! e = (if e < 32 then FAT s ! e else F ! e)" if "e < FAT_SIZE" for e
    using that F v(5) by (auto simp: loaded_FAT_def d(3) FAT_sector_bytes_entry FAT_SIZE_def)
  with d(1) d' F show ?thesis
    by (intro exI [of _ "s\<lparr>device := d\<rparr>"] exI conjI) (auto simp: printk_def)
qed

theorem store_then_load_witness:
  "\<exists>s' s''. copyFATtoDisk (ide_blockdev demo_ports) 3 demo = Ok s' \<and>
     readFATfromDisk (ide_blockdev demo_ports) (s'\<lparr>FAT := replicate FAT_SIZE 0\<rparr>) = Ok s'' \<and> FAT s'' ! 3 = 0x0FFFFFFF"
proof -
  have "sectorsPerFAT (extendedBootRecord demo) = 1" by (simp add: demo_def)
  from store_then_load [OF demo_volume _ this, of 3 "replicate FAT_SIZE 0"] demo_FAT(2) show ?thesis
    by (fastforce simp: FAT_SIZE_def)
qed

section \<open>Mounting\<close>

text \<open>The characters that \<open>printk\<close> prints of a literal.\<close>

definition text_of :: "string \<Rightarrow> byte list" where
  "text_of t = takeWhile (\<lambda>c. c \<noteq> 0) (chars t)"

lemma print_stat_line [safe]:
  assumes "0 \<le> v" and "v < 2 ^ 31" and "length buf = 50"
  shows "\<exists>buf'. print_stat label v tail (buf, s) =
      Ok (buf', s\<lparr>console := console s @ text_of label @ decimal (nat v) @ text_of tail\<rparr>) \<and> length buf' = 50"
proof -
  have "length (decimal (nat v)) \<le> 10" using assms by (intro decimal_length) simp
  with assms have len: "length (decimal (nat v)) < length buf" by simp
  let ?buf = "with_segment 0 (decimal (nat v) @ [0]) buf"
  have "itoaSystem v buf = Ok ?buf"
    using itoa_decimal_aux [OF assms(1) len] by (simp add: itoa_def itoaSystem_def)
  with len assms(3) show ?thesis
    by (intro exI [of _ ?buf])
      (simp add: print_stat_def printk_def text_of_def takeWhile_with_segment [OF decimal_no_nul])
qed

text \<open>The statistics of a volume.\<close>

definition stats_text :: "BPB \<Rightarrow> EBR \<Rightarrow> byte list" where
  "stats_text b e =
     text_of ''Bytes per sector: '' @ decimal (unat (bytesPerSector b)) @ text_of [CHR 0x0A] @
     text_of ''Sectors per cluster: '' @ decimal (unat (sectorsPerCluster b)) @ text_of [CHR 0x0A] @
     text_of ''Reserved sectors: '' @ decimal (unat (reservedSectors b)) @ text_of [CHR 0x0A] @
     text_of ''Sectors per FAT: '' @ decimal (unat (sectorsPerFAT e)) @ text_of [CHR 0x0A] @
     text_of ''Root dir cluster: '' @ decimal (unat (rootClusterNum e)) @ text_of [CHR 0x0A, CHR 0x0A]"

lemma sint_small: "unat (w :: dword) < 2 ^ 31 \<Longrightarrow> sint w = int (unat w)"
  using sint_of_nat_small [of "unat w"] by simp

lemma print_stats_text:
  assumes "unat (sectorsPerFAT (extendedBootRecord s)) < 2 ^ 31" and "unat (rootClusterNum (extendedBootRecord s)) < 2 ^ 31"
  shows "print_stats s = Ok (s\<lparr>console := console s @ stats_text (biosParameterBlock s) (extendedBootRecord s)\<rparr>)"
proof -
  let ?b = "biosParameterBlock s" and ?e = "extendedBootRecord s"
  have v: "0 \<le> uint (bytesPerSector ?b)" "uint (bytesPerSector ?b) < 2 ^ 31" "0 \<le> uint (sectorsPerCluster ?b)" "uint (sectorsPerCluster ?b) < 2 ^ 31"
    "0 \<le> uint (reservedSectors ?b)" "uint (reservedSectors ?b) < 2 ^ 31"
    using uint_bounded [of "bytesPerSector ?b"] uint_bounded [of "sectorsPerCluster ?b"] uint_bounded [of "reservedSectors ?b"]
    by simp_all
  have "int (unat x) < 2 ^ 31" if "unat x < 2 ^ 31" for x :: dword
    using that unfolding of_nat_less_iff [where 'a = int, symmetric] by (simp only: of_nat_power of_nat_numeral)
  then have w: "0 \<le> sint (sectorsPerFAT ?e)" "sint (sectorsPerFAT ?e) < 2 ^ 31" "0 \<le> sint (rootClusterNum ?e)" "sint (rootClusterNum ?e) < 2 ^ 31"
    using assms unfolding sint_small [OF assms(1)] sint_small [OF assms(2)] by (simp_all only: of_nat_0_le_iff)
  define add where "add = (\<lambda>t s. s\<lparr>console := console s @ t\<rparr> :: 'a fs)"
  define line where "line = (\<lambda>l n t. text_of l @ decimal n @ text_of t)"
  have st: "\<exists>buf'. print_stat l v t (buf, r) = Ok (buf', add (line l (nat v) t) r) \<and> length buf' = 50"
    if "0 \<le> v" "v < 2 ^ 31" "length buf = 50" for l v t buf and r :: "'a fs"
    using print_stat_line [OF that, of l t r] by (simp add: add_def line_def)
  obtain b1 where 1: "print_stat ''Bytes per sector: '' (uint (bytesPerSector ?b)) [CHR 0x0A] (replicate 50 0, s) =
    Ok (b1, add (line ''Bytes per sector: '' (nat (uint (bytesPerSector ?b))) [CHR 0x0A]) s)" (is "_ = Ok (_, ?s1)") "length b1 = 50"
    using st [OF v(1,2) length_replicate] by blast
  obtain b2 where 2: "print_stat ''Sectors per cluster: '' (uint (sectorsPerCluster ?b)) [CHR 0x0A] (b1, ?s1) =
    Ok (b2, add (line ''Sectors per cluster: '' (nat (uint (sectorsPerCluster ?b))) [CHR 0x0A]) ?s1)" (is "_ = Ok (_, ?s2)") "length b2 = 50"
    using st [OF v(3,4) 1(2)] by blast
  obtain b3 where 3: "print_stat ''Reserved sectors: '' (uint (reservedSectors ?b)) [CHR 0x0A] (b2, ?s2) =
    Ok (b3, add (line ''Reserved sectors: '' (nat (uint (reservedSectors ?b))) [CHR 0x0A]) ?s2)" (is "_ = Ok (_, ?s3)") "length b3 = 50"
    using st [OF v(5,6) 2(2)] by blast
  obtain b4 where 4: "print_stat ''Sectors per FAT: '' (sint (sectorsPerFAT ?e)) [CHR 0x0A] (b3, ?s3) =
    Ok (b4, add (line ''Sectors per FAT: '' (nat (sint (sectorsPerFAT ?e))) [CHR 0x0A]) ?s3)" (is "_ = Ok (_, ?s4)") "length b4 = 50"
    using st [OF w(1,2) 3(2)] by blast
  obtain b5 where 5: "print_stat ''Root dir cluster: '' (sint (rootClusterNum ?e)) [CHR 0x0A, CHR 0x0A] (b4, ?s4) =
    Ok (b5, add (line ''Root dir cluster: '' (nat (sint (rootClusterNum ?e))) [CHR 0x0A, CHR 0x0A]) ?s4)" (is "_ = Ok (_, ?s5)") "length b5 = 50"
    using st [OF w(3,4) 4(2)] by blast
  have "print_stats s = Ok ?s5" unfolding print_stats_def 1(1) bind.simps 2(1) 3(1) 4(1) 5(1) by simp
  also have "?s5 = s\<lparr>console := console s @ stats_text ?b ?e\<rparr>"
    using sint_small [OF assms(1)] sint_small [OF assms(2)] by (simp add: add_def line_def stats_text_def)
  finally show ?thesis .
qed

text \<open>
  \<open>getFAT32attributes\<close> takes the parameters of the volume from the first two blocks of the disk at
  the offsets of \<open>parse_BPB\<close>, \<open>parse_EBR\<close> and \<open>parse_FSInfo\<close>, changes neither the disk nor the table,
  and prints the statistics in decimal; the warning about unsupported parameters is printed only
  when both the sector size and the cluster size are unsupported.
\<close>

lemma attributes_read:
  assumes dev: "ata_device P view cap" "2 \<le> cap" "idle (view (device s))"
    and b: "b = parse_BPB (blocks view s 0)" and e: "e = parse_EBR (blocks view s 0)" and i: "i = parse_FSInfo (blocks view s 1)"
    and small: "unat (sectorsPerFAT e) < 2 ^ 31" "unat (rootClusterNum e) < 2 ^ 31"
  shows "\<exists>d. getFAT32attributes (ide_blockdev P) s = Ok (s\<lparr>biosParameterBlock := b, extendedBootRecord := e, fsInfoStruct := i,
      device := d, console := console s @ (if bytesPerSector b \<noteq> 512 \<and> sectorsPerCluster b \<noteq> 8
        then text_of (''Unsupported number of bytes per sector and/or sectors per cluster.'' @ [CHR 0x0A]) else []) @ stats_text b e\<rparr>)
    \<and> idle (view d) \<and> sectors (view d) = blocks view s"
proof -
  note bd = ata_device.is_block_device [OF dev(1)]
  from block_device.read_buf_block [OF bd dev(3), of 0 None] dev(2) obtain d1 where
    d1: "read_buf (ide_blockdev P) 512 None 0 s = Ok (blocks view s 0, s\<lparr>device := d1\<rparr>)" "idle (view d1)" "sectors (view d1) = blocks view s"
    by (auto simp: blocks_def)
  from block_device.read_buf_block [OF bd, of "s\<lparr>device := d1\<rparr>" 1 None] d1 dev(2) obtain d2 where
    d2: "read_buf (ide_blockdev P) 512 None 1 (s\<lparr>device := d1\<rparr>) = Ok (blocks view s 1, s\<lparr>device := d2\<rparr>)" "idle (view d2)"
      "sectors (view d2) = blocks view s"
    by auto
  let ?s = "s\<lparr>device := d2, biosParameterBlock := b, extendedBootRecord := e, fsInfoStruct := i\<rparr>"
  have "getFAT32attributes (ide_blockdev P) s = print_stats
      (if bytesPerSector b \<noteq> 512 \<and> sectorsPerCluster b \<noteq> 8
       then printk (chars (''Unsupported number of bytes per sector and/or sectors per cluster.'' @ [CHR 0x0A])) ?s else ?s)"
    by (simp add: getFAT32attributes_def Let_def d1(1) d2(1) b e i)
  then show ?thesis
    using small d2(2,3) by (intro exI [of _ d2]) (simp add: print_stats_text printk_def text_of_def)
qed

lemma root_entry_cluster: "entry_cluster (rootDirectory (initializeRootDir s)) = rootClusterNum (extendedBootRecord s)"
proof -
  let ?r = "rootClusterNum (extendedBootRecord s)"
  have "push_bit 16 (ucast (ucast (drop_bit 16 ?r) :: word16)) OR ucast (ucast ?r :: word16) = ?r"
    by (rule bit_word_eqI) (auto simp: bit_simps)
  then show ?thesis by (simp add: initializeRootDir_def entry_cluster_def Let_def)
qed

text \<open>
  \<open>initializeFAT\<close> mounts the volume: it takes the parameters from the first two blocks of the disk at
  the offsets of \<open>parse_BPB\<close>, \<open>parse_EBR\<close> and \<open>parse_FSInfo\<close>, makes the root directory point to its
  cluster, loads the first 32 entries of every sector of the table (\<open>loaded_FAT\<close>), and writes
  nothing to the disk.
\<close>

lemma initializeFAT_mounts:
  assumes dev: "ata_device P view cap" "2 \<le> cap" "idle (view (device s))"
    and b: "b = parse_BPB (blocks view s 0)" and e: "e = parse_EBR (blocks view s 0)" and i: "i = parse_FSInfo (blocks view s 1)"
    and table: "unat (sectorsPerFAT e) \<le> 16" "unat (rootClusterNum e) < 2 ^ 31" "length (FAT s) = FAT_SIZE"
    and fits: "unat (reservedSectors b) + unat (sectorsPerFAT e) \<le> disk_size cap"
  shows "\<exists>s'. initializeFAT (ide_blockdev P) s = Ok s' \<and> biosParameterBlock s' = b \<and> extendedBootRecord s' = e \<and> fsInfoStruct s' = i \<and>
    entry_cluster (rootDirectory s') = rootClusterNum e \<and>
    FAT s' = loaded_FAT (\<lambda>k. blocks view s (unat (reservedSectors b) + k)) (unat (sectorsPerFAT e)) (FAT s) \<and>
    idle (view (device s')) \<and> blocks view s' = blocks view s"
proof -
  have small: "unat (sectorsPerFAT e) < 2 ^ 31" using table(1) by simp
  from attributes_read [OF dev b e i small table(2)] obtain d screen where
    att: "getFAT32attributes (ide_blockdev P) s = Ok (s\<lparr>biosParameterBlock := b, extendedBootRecord := e, fsInfoStruct := i, device := d, console := screen\<rparr>)"
    (is "_ = Ok ?s") and d: "idle (view d)" "sectors (view d) = blocks view s" by blast
  define r where "r = rootDirectory (initializeRootDir ?s)"
  let ?s' = "?s\<lparr>rootDirectory := r\<rparr>"
  have root: "initializeRootDir ?s = ?s'" by (simp add: r_def initializeRootDir_def Let_def)
  have cl: "entry_cluster r = rootClusterNum e" using root_entry_cluster [of ?s] by (simp add: r_def)
  note bd = ata_device.is_block_device [OF dev(1), folded disk_size_def]
  from block_device.readFATfromDisk_loads [OF bd, of ?s' "unat (sectorsPerFAT e)"] d table fits obtain d' where
    rd: "readFATfromDisk (ide_blockdev P) ?s' = Ok (printk (chars (''FAT Written to memory'' @ [CHR 0x0A, CHR 0x0A]))
      (?s'\<lparr>FAT := loaded_FAT (\<lambda>k. blocks view s (unat (reservedSectors b) + k)) (unat (sectorsPerFAT e)) (FAT s), device := d'\<rparr>))"
    "idle (view d')" "sectors (view d') = blocks view s" by auto
  have "initializeFAT (ide_blockdev P) s = Ok (printk (chars (''FAT Written to memory'' @ [CHR 0x0A, CHR 0x0A]))
      (?s'\<lparr>FAT := loaded_FAT (\<lambda>k. blocks view s (unat (reservedSectors b) + k)) (unat (sectorsPerFAT e)) (FAT s), device := d'\<rparr>))"
    unfolding initializeFAT_def att bind.simps root by (rule rd(1))
  then show ?thesis using cl rd(2,3) by (simp add: printk_def blocks_def)
qed

end
