(* ===== verification/System_Calls.thy ===== *)
theory System_Calls
  imports Sys_Files Kernel_Interrupts Fat32_Volume
begin

text \<open>
  System calls as a program makes them: the stubs of zeos_full/libc.c load the registers and raise
  interrupt 0x80, \<open>system_call_handler\<close> (entry.S) looks the number up in \<open>sys_call_table\<close>
  (sys_call_table.S) and the stub turns a negative answer into -1 and \<open>errno\<close>.

  The state is the system, the memory of the user, the ticks of the clock and \<open>errno\<close>. A call that
  switches to another process does not answer yet: \<open>Waits s\<close> blocked in the semaphore of slot \<open>s\<close>,
  \<open>Leaves\<close> is \<open>exit\<close>. A register that a stub does not load is passed as 0: no call reads it.
\<close>

section \<open>State\<close>

record 'd machine =
  os :: "'d system"
  user_mem :: memory
  ticks_of :: int
  errno :: int

datatype answer = Returns int | Waits nat | Leaves

type_synonym 'd handler_of = "dword \<Rightarrow> dword \<Rightarrow> dword \<Rightarrow> 'd machine \<Rightarrow> (answer \<times> 'd machine) res"

text \<open>What a user pointer leads to: a string up to its terminating zero, and \<open>n\<close> bytes.\<close>

definition string_at :: "memory \<Rightarrow> dword \<Rightarrow> byte list res" where
  "string_at m a = loop (\<lambda>(a, s). Ok (if m a = 0 then Inr (s @ [0]) else Inl (a + 1, s @ [m a]))) (a, [])"

definition bytes_at :: "memory \<Rightarrow> dword \<Rightarrow> nat \<Rightarrow> byte list" where
  "bytes_at m a n = map (\<lambda>i. m (a + of_nat i)) [0..<n]"

definition store_at :: "dword \<Rightarrow> byte list \<Rightarrow> memory \<Rightarrow> memory" where
  "store_at a bs m = (\<lambda>x. if unat (x - a) < length bs then bs ! unat (x - a) else m x)"

definition dword_bytes :: "dword \<Rightarrow> byte list" where
  "dword_bytes v = [ucast v, ucast (drop_bit 8 v), ucast (drop_bit 16 v), ucast (drop_bit 24 v)]"

definition stats_bytes :: "stats \<Rightarrow> byte list" where
  "stats_bytes s = concat (map dword_bytes
     [user_ticks s, system_ticks s, blocked_ticks s, ready_ticks s, elapsed_total_ticks s, total_trans s, remaining_ticks s])"

section \<open>The table of the system calls\<close>

definition on_kern :: "(kernel \<Rightarrow> ('a \<times> kernel) res) \<Rightarrow> 'd machine \<Rightarrow> ('a \<times> 'd machine) res" where
  "on_kern f m = bind (f (kern (os m))) (\<lambda>(r, k). Ok (r, m\<lparr>os := (os m)\<lparr>kern := k\<rparr>\<rparr>))"

definition answers :: "('d machine \<Rightarrow> (int \<times> 'd machine) res) \<Rightarrow> 'd machine \<Rightarrow> (answer \<times> 'd machine) res" where
  "answers f m = bind (f m) (\<lambda>(r, m). Ok (Returns r, m))"

definition on_os :: "('d system \<Rightarrow> (int \<times> 'd system) res) \<Rightarrow> 'd machine \<Rightarrow> (int \<times> 'd machine) res" where
  "on_os f m = bind (f (os m)) (\<lambda>(r, s). Ok (r, m\<lparr>os := s\<rparr>))"

definition call_ni :: "'d handler_of" where "call_ni ebx ecx edx m = Ok (Returns sys_ni_syscall, m)"

definition call_exit :: "'d handler_of" where
  "call_exit ebx ecx edx m = bind (on_kern (\<lambda>k. bind (sys_exit k) (\<lambda>k. Ok ((), k))) m) (\<lambda>(_, m). Ok (Leaves, m))"

definition call_getstats :: "'d handler_of" where
  "call_getstats ebx ecx edx = answers (\<lambda>m.
     bind (sys_getstats (sint ebx) ecx (kern (os m))) (\<lambda>(r, st, k).
     Ok (r, m\<lparr>os := (os m)\<lparr>kern := k\<rparr>,
       user_mem := (case st of None \<Rightarrow> user_mem m | Some st \<Rightarrow> store_at ecx (stats_bytes st) (user_mem m))\<rparr>)))"

definition call_write :: "'d blockdev \<Rightarrow> 'd handler_of" where
  "call_write dev ebx ecx edx = answers (\<lambda>m.
     on_os (sys_write dev (sint ebx) ecx (bytes_at (user_mem m) ecx (nat (sint edx))) (sint edx)) m)"

definition call_read :: "'d blockdev \<Rightarrow> 'd handler_of" where
  "call_read dev ebx ecx edx = answers (\<lambda>m.
     bind (sys_read dev (sint ebx) ecx (bytes_at (user_mem m) ecx (nat (sint edx))) (sint edx) (os m)) (\<lambda>(r, buf, s).
     Ok (r, m\<lparr>os := s, user_mem := store_at ecx buf (user_mem m)\<rparr>)))"

definition call_open :: "'d blockdev \<Rightarrow> 'd handler_of" where
  "call_open dev ebx ecx edx = answers (\<lambda>m.
     bind (string_at (user_mem m) ebx) (\<lambda>path. on_os (sys_open dev path (sint ecx)) m))"

definition call_unlink :: "'d blockdev \<Rightarrow> 'd handler_of" where
  "call_unlink dev ebx ecx edx = answers (\<lambda>m.
     bind (string_at (user_mem m) ebx) (\<lambda>path. on_os (sys_unlink dev path) m))"

definition call_sem_wait :: "'d handler_of" where
  "call_sem_wait ebx ecx edx m = bind (on_kern (sys_sem_wait (sint ebx)) m) (\<lambda>(r, m).
     Ok (case r of Inl r \<Rightarrow> Returns r | Inr s \<Rightarrow> Waits s, m))"

definition sys_call_table :: "'d blockdev \<Rightarrow> 'd handler_of list" where
  "sys_call_table dev =
     [call_ni, call_exit, \<lambda>ebx ecx edx. answers (on_kern sys_fork), call_getstats, call_write dev,
      call_read dev, call_open dev, \<lambda>ebx ecx edx. answers (on_os (sys_close (sint ebx))), call_unlink dev,
      \<lambda>ebx ecx edx. answers (on_os (sys_lseek (sint ebx) (sint ecx) (sint edx))),
      \<lambda>ebx ecx edx m. Ok (Returns (sys_gettime (ticks_of m)), m)] @
     replicate 8 call_ni @
     [\<lambda>ebx ecx edx. answers (on_kern (sys_clone ebx ecx)),
      \<lambda>ebx ecx edx. answers (on_kern (\<lambda>k. bind (sys_getpid k) (\<lambda>r. Ok (r, k)))),
      \<lambda>ebx ecx edx. answers (on_kern (sys_sem_init (sint ebx) ecx)), call_sem_wait,
      \<lambda>ebx ecx edx. answers (on_kern (sys_sem_signal (sint ebx))),
      \<lambda>ebx ecx edx. answers (on_kern (sys_sem_destroy (sint ebx)))] @
     replicate 16 call_ni"

definition MAX_SYSCALL :: int where "MAX_SYSCALL = 41"

section \<open>The handler of interrupt 0x80\<close>

definition at_kern :: "(kernel \<Rightarrow> kernel res) \<Rightarrow> 'd machine \<Rightarrow> 'd machine res" where
  "at_kern f m = bind (f (kern (os m))) (\<lambda>k. Ok (m\<lparr>os := (os m)\<lparr>kern := k\<rparr>\<rparr>))"

definition dispatch :: "'d blockdev \<Rightarrow> dword \<Rightarrow> 'd handler_of" where
  "dispatch dev eax ebx ecx edx m =
     (if sint eax < 0 then Ok (Returns (-ENOSYS), m)
      else if MAX_SYSCALL < sint eax then Ok (Returns (-ENOSYS), m)
      else bind (aget (sys_call_table dev) (nat (sint eax))) (\<lambda>call. call ebx ecx edx m))"

text \<open>A process that waits or leaves does not come to \<open>RESTORE_ALL\<close>: another one goes on.\<close>

definition to_user :: "answer \<times> 'd machine \<Rightarrow> (answer \<times> 'd machine) res" where
  "to_user = (\<lambda>(a, m). case a of Returns r \<Rightarrow> bind (at_kern system2user m) (\<lambda>m. Ok (a, m)) | _ \<Rightarrow> Ok (a, m))"

definition system_call_handler :: "'d blockdev \<Rightarrow> dword \<Rightarrow> 'd handler_of" where
  "system_call_handler dev eax ebx ecx edx m =
     bind (at_kern user2system m) (\<lambda>m. bind (dispatch dev eax ebx ecx edx m) to_user)"

section \<open>The stubs of libc.c\<close>

fun set_errno :: "answer \<times> 'd machine \<Rightarrow> answer \<times> 'd machine" where
  "set_errno (Returns r, m) = (if r < 0 then (Returns (-1), m\<lparr>errno := -r\<rparr>) else (Returns r, m))"
| "set_errno (a, m) = (a, m)"

definition int_0x80 :: "'d blockdev \<Rightarrow> dword \<Rightarrow> 'd handler_of" where
  "int_0x80 dev eax ebx ecx edx m = bind (system_call_handler dev eax ebx ecx edx m) (\<lambda>r. Ok (set_errno r))"

definition lseek :: "'d blockdev \<Rightarrow> dword \<Rightarrow> dword \<Rightarrow> dword \<Rightarrow> 'd machine \<Rightarrow> (answer \<times> 'd machine) res" where
  "lseek dev f offset whence = int_0x80 dev 9 f offset whence"
definition libc_write :: "'d blockdev \<Rightarrow> dword \<Rightarrow> dword \<Rightarrow> dword \<Rightarrow> 'd machine \<Rightarrow> (answer \<times> 'd machine) res" where
  "libc_write dev f buf nbytes = int_0x80 dev 4 f buf nbytes"
definition libc_read :: "'d blockdev \<Rightarrow> dword \<Rightarrow> dword \<Rightarrow> dword \<Rightarrow> 'd machine \<Rightarrow> (answer \<times> 'd machine) res" where
  "libc_read dev f buf nbytes = int_0x80 dev 5 f buf nbytes"
definition libc_open :: "'d blockdev \<Rightarrow> dword \<Rightarrow> dword \<Rightarrow> 'd machine \<Rightarrow> (answer \<times> 'd machine) res" where
  "libc_open dev path mode = int_0x80 dev 6 path mode 0"
definition close :: "'d blockdev \<Rightarrow> dword \<Rightarrow> 'd machine \<Rightarrow> (answer \<times> 'd machine) res" where
  "close dev f = int_0x80 dev 7 f 0 0"
definition unlink :: "'d blockdev \<Rightarrow> dword \<Rightarrow> 'd machine \<Rightarrow> (answer \<times> 'd machine) res" where
  "unlink dev path = int_0x80 dev 8 path 0 0"
definition gettime :: "'d blockdev \<Rightarrow> 'd machine \<Rightarrow> (answer \<times> 'd machine) res" where
  "gettime dev = int_0x80 dev 10 0 0 0"
definition perror :: "'d machine \<Rightarrow> 'd machine" where "perror m = m"
definition libc_exit :: "'d blockdev \<Rightarrow> 'd machine \<Rightarrow> (answer \<times> 'd machine) res" where
  "libc_exit dev = system_call_handler dev 1 0 0 0"
definition getpid :: "'d blockdev \<Rightarrow> 'd machine \<Rightarrow> (answer \<times> 'd machine) res" where
  "getpid dev = int_0x80 dev 20 0 0 0"
definition libc_fork :: "'d blockdev \<Rightarrow> 'd machine \<Rightarrow> (answer \<times> 'd machine) res" where
  "libc_fork dev = int_0x80 dev 2 0 0 0"
definition get_stats :: "'d blockdev \<Rightarrow> dword \<Rightarrow> dword \<Rightarrow> 'd machine \<Rightarrow> (answer \<times> 'd machine) res" where
  "get_stats dev pid s = int_0x80 dev 3 pid s 0"
definition clone :: "'d blockdev \<Rightarrow> dword \<Rightarrow> dword \<Rightarrow> 'd machine \<Rightarrow> (answer \<times> 'd machine) res" where
  "clone dev func stack = int_0x80 dev 19 func stack 0"
definition libc_sem_init :: "'d blockdev \<Rightarrow> dword \<Rightarrow> dword \<Rightarrow> 'd machine \<Rightarrow> (answer \<times> 'd machine) res" where
  "libc_sem_init dev n_sem val = int_0x80 dev 21 n_sem val 0"
definition libc_sem_wait :: "'d blockdev \<Rightarrow> dword \<Rightarrow> 'd machine \<Rightarrow> (answer \<times> 'd machine) res" where
  "libc_sem_wait dev n_sem = int_0x80 dev 22 n_sem 0 0"
definition libc_sem_signal :: "'d blockdev \<Rightarrow> dword \<Rightarrow> 'd machine \<Rightarrow> (answer \<times> 'd machine) res" where
  "libc_sem_signal dev n_sem = int_0x80 dev 23 n_sem 0 0"
definition libc_sem_destroy :: "'d blockdev \<Rightarrow> dword \<Rightarrow> 'd machine \<Rightarrow> (answer \<times> 'd machine) res" where
  "libc_sem_destroy dev n_sem = int_0x80 dev 24 n_sem 0 0"

text \<open>A process that waited in \<open>sem_wait\<close> runs again: it goes on behind the switch and answers.\<close>

definition libc_sem_wait_resumed :: "nat \<Rightarrow> 'd machine \<Rightarrow> (answer \<times> 'd machine) res" where
  "libc_sem_wait_resumed s m =
     bind (answers (on_kern (sem_wait_resumed s)) m) (\<lambda>r. bind (to_user r) (\<lambda>r. Ok (set_errno r)))"

section \<open>Every stub reaches its call\<close>

text \<open>A call from user mode and back, with \<open>errno\<close>, around what the kernel does.\<close>

definition libc_call :: "('d machine \<Rightarrow> (answer \<times> 'd machine) res) \<Rightarrow> 'd machine \<Rightarrow> (answer \<times> 'd machine) res" where
  "libc_call f m = bind (at_kern user2system m) (\<lambda>m. bind (f m) (\<lambda>r. bind (to_user r) (\<lambda>r. Ok (set_errno r))))"

lemma table_length: "length (sys_call_table dev) = 41"
  by (simp add: sys_call_table_def)

lemma int_0x80_calls:
  assumes "sint eax = int n" and "n < 41"
  shows "int_0x80 dev eax ebx ecx edx = libc_call ((sys_call_table dev ! n) ebx ecx edx)"
proof
  fix m :: "'a machine"
  show "int_0x80 dev eax ebx ecx edx m = libc_call ((sys_call_table dev ! n) ebx ecx edx) m"
    using assms
    by (simp add: int_0x80_def system_call_handler_def dispatch_def libc_call_def MAX_SYSCALL_def table_length bind_assoc)
qed

lemma table_entries:
  "sys_call_table dev ! 1 = call_exit" "sys_call_table dev ! 2 = (\<lambda>ebx ecx edx. answers (on_kern sys_fork))"
  "sys_call_table dev ! 3 = call_getstats" "sys_call_table dev ! 4 = call_write dev" "sys_call_table dev ! 5 = call_read dev"
  "sys_call_table dev ! 6 = call_open dev" "sys_call_table dev ! 7 = (\<lambda>ebx ecx edx. answers (on_os (sys_close (sint ebx))))"
  "sys_call_table dev ! 8 = call_unlink dev" "sys_call_table dev ! 9 = (\<lambda>ebx ecx edx. answers (on_os (sys_lseek (sint ebx) (sint ecx) (sint edx))))"
  "sys_call_table dev ! 10 = (\<lambda>ebx ecx edx m. Ok (Returns (sys_gettime (ticks_of m)), m))"
  "sys_call_table dev ! 19 = (\<lambda>ebx ecx edx. answers (on_kern (sys_clone ebx ecx)))"
  "sys_call_table dev ! 20 = (\<lambda>ebx ecx edx. answers (on_kern (\<lambda>k. bind (sys_getpid k) (\<lambda>r. Ok (r, k)))))"
  "sys_call_table dev ! 21 = (\<lambda>ebx ecx edx. answers (on_kern (sys_sem_init (sint ebx) ecx)))"
  "sys_call_table dev ! 22 = call_sem_wait" "sys_call_table dev ! 23 = (\<lambda>ebx ecx edx. answers (on_kern (sys_sem_signal (sint ebx))))"
  "sys_call_table dev ! 24 = (\<lambda>ebx ecx edx. answers (on_kern (sys_sem_destroy (sint ebx))))"
  by (simp_all add: sys_call_table_def nth_append)

lemma table_ni:
  assumes "n < 41" and "n \<notin> {1..10} \<union> {19..24}"
  shows "sys_call_table dev ! n = call_ni"
proof -
  from assms consider "n = 0" | "11 \<le> n" "n < 19" | "25 \<le> n" "n < 41" by fastforce
  then show ?thesis by cases (auto simp: sys_call_table_def nth_append nth_Cons')
qed

lemma stubs_call_aux:
  "lseek dev f off wh = libc_call (answers (on_os (sys_lseek (sint f) (sint off) (sint wh)))) \<and>
   libc_write dev f buf n = libc_call (answers (\<lambda>m. on_os (sys_write dev (sint f) buf (bytes_at (user_mem m) buf (nat (sint n))) (sint n)) m)) \<and>
   libc_read dev f buf n = libc_call (call_read dev f buf n) \<and>
   libc_open dev path mode = libc_call (answers (\<lambda>m. bind (string_at (user_mem m) path) (\<lambda>p. on_os (sys_open dev p (sint mode)) m))) \<and>
   close dev f = libc_call (answers (on_os (sys_close (sint f)))) \<and>
   unlink dev path = libc_call (answers (\<lambda>m. bind (string_at (user_mem m) path) (\<lambda>p. on_os (sys_unlink dev p) m))) \<and>
   gettime dev = libc_call (\<lambda>m. Ok (Returns (sys_gettime (ticks_of m)), m)) \<and>
   getpid dev = libc_call (answers (on_kern (\<lambda>k. bind (sys_getpid k) (\<lambda>r. Ok (r, k))))) \<and>
   libc_fork dev = libc_call (answers (on_kern sys_fork)) \<and>
   get_stats dev pid s = libc_call (call_getstats pid s 0) \<and>
   clone dev func stack = libc_call (answers (on_kern (sys_clone func stack))) \<and>
   libc_sem_init dev i v = libc_call (answers (on_kern (sys_sem_init (sint i) v))) \<and>
   libc_sem_wait dev i = libc_call (call_sem_wait i 0 0) \<and>
   libc_sem_signal dev i = libc_call (answers (on_kern (sys_sem_signal (sint i)))) \<and>
   libc_sem_destroy dev i = libc_call (answers (on_kern (sys_sem_destroy (sint i))))"
proof -
  note defs = lseek_def libc_write_def libc_read_def libc_open_def close_def unlink_def gettime_def getpid_def libc_fork_def
    get_stats_def clone_def libc_sem_init_def libc_sem_wait_def libc_sem_signal_def libc_sem_destroy_def
  have call: "int_0x80 dev eax ebx ecx edx = libc_call (h ebx ecx edx)" if "sys_call_table dev ! n = h" "n < 41" "sint eax = int n" for eax ebx ecx edx n h
    unfolding int_0x80_calls [OF that(3,2)] that(1) ..
  note go = table_entries [of dev, THEN call]
  show ?thesis
    unfolding defs by (simp add: go call_write_def call_read_def call_open_def call_unlink_def)
qed


lemmas stub_open = conjunct1 [OF conjunct2 [OF conjunct2 [OF conjunct2 [OF stubs_call_aux]]]]
lemmas stub_read = conjunct1 [OF conjunct2 [OF conjunct2 [OF stubs_call_aux]]]

section \<open>What a program can do to the kernel\<close>

text \<open>A kernel in order with a process that is not the idle one: it may call anything.\<close>

definition callable :: "'d machine \<Rightarrow> bool" where
  "callable m \<longleftrightarrow> kernel_inv (kern (os m)) \<and> cur (kern (os m)) \<noteq> idle_task (kern (os m))"

text \<open>The call runs, keeps the kernel in order, and does not touch files or the user's \<open>errno\<close>.\<close>

definition harmless :: "('d machine \<Rightarrow> ('a \<times> 'd machine) res) \<Rightarrow> bool" where
  "harmless f \<longleftrightarrow> (\<forall>m. callable m \<longrightarrow> (\<exists>r m'. f m = Ok (r, m') \<and> kernel_inv (kern (os m')) \<and> fsys (os m') = fsys (os m) \<and>
     open_file_table (os m') = open_file_table (os m)))"

lemma harmless_event:
  assumes "\<And>k. event_step e k = bind (f k) (\<lambda>(_, k). Ok k)" and "\<And>k. cur k \<noteq> idle_task k \<Longrightarrow> possible e k"
  shows "harmless (on_kern f)"
  unfolding harmless_def
proof (intro allI impI)
  fix m :: "'b machine" assume m: "callable m"
  with event_sound [OF _ assms(2)] obtain k' where "event_step e (kern (os m)) = Ok k'" "kernel_inv k'" by (auto simp: callable_def)
  with assms(1) show "\<exists>r m'. on_kern f m = Ok (r, m') \<and> kernel_inv (kern (os m')) \<and> fsys (os m') = fsys (os m) \<and> open_file_table (os m') = open_file_table (os m)"
    by (auto simp: on_kern_def)
qed

lemma harmless_answers: "harmless f \<Longrightarrow> harmless (answers f)"
  by (fastforce simp: harmless_def answers_def)

lemma harmless_ni: "harmless (call_ni ebx ecx edx)"
  by (simp add: harmless_def call_ni_def callable_def)

lemma harmless_exit: "harmless (call_exit ebx ecx edx)"
proof -
  have "harmless (on_kern (\<lambda>k. bind (sys_exit k) (\<lambda>k. Ok ((), k))) :: 'a machine \<Rightarrow> (unit \<times> 'a machine) res)"
    by (rule harmless_event [where e = Exit]) (simp_all add: bind_assoc)
  then show ?thesis by (fastforce simp: harmless_def call_exit_def)
qed

lemma harmless_sem_wait: "harmless (call_sem_wait ebx ecx edx)"
proof -
  have "harmless (on_kern (sys_sem_wait (sint ebx)) :: 'a machine \<Rightarrow> ((int + nat) \<times> 'a machine) res)"
    by (rule harmless_event [where e = "Sem_Wait (sint ebx)"]) simp_all
  then show ?thesis by (fastforce simp: harmless_def call_sem_wait_def)
qed

lemma harmless_getstats: "harmless (call_getstats ebx ecx edx)"
  unfolding call_getstats_def
proof (rule harmless_answers, unfold harmless_def, intro allI impI)
  fix m :: "'a machine" assume m: "callable m"
  with event_sound [of "kern (os m)" "Get_Stats (sint ebx) ecx"] obtain r st k' where
    "sys_getstats (sint ebx) ecx (kern (os m)) = Ok (r, st, k')" "kernel_inv k'" by (auto simp: callable_def)
  then show "\<exists>r m'. bind (sys_getstats (sint ebx) ecx (kern (os m))) (\<lambda>(r, st, k).
     Ok (r, m\<lparr>os := (os m)\<lparr>kern := k\<rparr>, user_mem := (case st of None \<Rightarrow> user_mem m | Some st \<Rightarrow> store_at ecx (stats_bytes st) (user_mem m))\<rparr>)) = Ok (r, m') \<and>
     kernel_inv (kern (os m')) \<and> fsys (os m') = fsys (os m) \<and> open_file_table (os m') = open_file_table (os m)" by simp
qed

lemma harmless_getpid: "harmless (answers (on_kern (\<lambda>k. bind (sys_getpid k) (\<lambda>r. Ok (r, k)))))"
  by (rule harmless_answers) (auto simp: harmless_def callable_def on_kern_def sys_getpid_def kernel_inv_def get_task_Ok elim: soundD)

lemma harmless_table:
  assumes "n < 41" and "n \<notin> {4..9}"
  shows "harmless ((sys_call_table dev ! n) ebx ecx edx)"
proof (cases "n \<in> {1..10} \<union> {19..24}")
  case False
  show ?thesis unfolding table_ni [OF assms(1) False] by (rule harmless_ni)
next
  case True
  with assms(2) consider "n = 1" | "n = 2" | "n = 3" | "n = 10" | "n = 19" | "n = 20" | "n = 21" | "n = 22" | "n = 23" | "n = 24" by force
  then show ?thesis
  proof cases
    case 2 show ?thesis unfolding 2 table_entries by (intro harmless_answers harmless_event [where e = Fork]) simp_all
  next
    case 4 show ?thesis unfolding 4 table_entries by (simp add: harmless_def callable_def)
  next
    case 5 show ?thesis unfolding 5 table_entries by (intro harmless_answers harmless_event [where e = "Clone ebx ecx"]) simp_all
  next
    case 7 show ?thesis unfolding 7 table_entries by (intro harmless_answers harmless_event [where e = "Sem_Init (sint ebx) ecx"]) simp_all
  next
    case 9 show ?thesis unfolding 9 table_entries by (intro harmless_answers harmless_event [where e = "Sem_Signal (sint ebx)"]) simp_all
  next
    case 10 show ?thesis unfolding 10 table_entries by (intro harmless_answers harmless_event [where e = "Sem_Destroy (sint ebx)"]) simp_all
  qed (simp_all only: table_entries harmless_exit harmless_getstats harmless_getpid harmless_sem_wait)
qed

lemma mode_switch:
  assumes "kernel_inv k" and "f \<in> {user2system, system2user}"
  shows "\<exists>k'. f k = Ok k' \<and> kernel_inv k' \<and> cur k' = cur k \<and> idle_task k' = idle_task k"
proof -
  from assms(1) obtain Q where Q: "sound k Q" by (auto simp: kernel_inv_def)
  then have "cur k < length (task k)" by (auto elim: soundD)
  with finishUserTime_Ok finishSystemTime_Ok assms(2) obtain k' where
    "f k = Ok k'" "same_queues k k'" "cur k' = cur k" by (force simp: user2system_def system2user_def)
  with same_queues_sound [OF Q] show ?thesis by (auto simp: kernel_inv_def same_queues_def)
qed

lemma enter_kernel:
  assumes "kernel_inv (kern (os m))"
  obtains k where "at_kern user2system m = Ok (m\<lparr>os := (os m)\<lparr>kern := k\<rparr>\<rparr>)" "kernel_inv k" "cur k = cur (kern (os m))" "idle_task k = idle_task (kern (os m))"
  using mode_switch [OF assms, of user2system] by (auto simp: at_kern_def)

lemma leave_kernel:
  assumes "kernel_inv (kern (os m))"
  obtains k where "to_user (a, m) = Ok (a, m\<lparr>os := (os m)\<lparr>kern := k\<rparr>\<rparr>)" "kernel_inv k"
proof (cases a)
  case (Returns r)
  with mode_switch [OF assms, of system2user] that show ?thesis by (auto simp: to_user_def at_kern_def)
qed (use that [of "kern (os m)"] assms in \<open>simp_all add: to_user_def\<close>)


text \<open>The kernel behind its start with the demo volume.\<close>

definition started_machine :: "kernel \<Rightarrow> ata_dev machine" where
  "started_machine k = \<lparr>os = \<lparr>kern = k, fsys = demo, open_file_table = []\<rparr>, user_mem = (\<lambda>_. 0), ticks_of = 0, errno = 0\<rparr>"

lemma started_callable:
  obtains k0 where "boot blank_kernel = Ok k0" "kernel_inv (kern (os (started_machine k0)))"
    "cur (kern (os (started_machine k0))) \<noteq> idle_task (kern (os (started_machine k0)))"
proof -
  obtain k0 where "boot blank_kernel = Ok k0" "sound k0 (boot_queues 8)" "cur k0 = 8" "idle_task k0 = 9" by (rule started)
  then show thesis by (intro that [of k0]) (auto simp: kernel_inv_def started_machine_def)
qed


text \<open>
  Number 41 passes the check of the handler, which compares with the number of calls and not with the last
  one, and calls whatever lies behind the table.
\<close>

lemma call_41_beyond_table:
  assumes "kernel_inv (kern (os m))"
  shows "system_call_handler dev 41 ebx ecx edx m = Fault OutOfBounds"
proof -
  have "aget (sys_call_table dev) 41 = Fault OutOfBounds" by (simp add: aget_def table_length)
  moreover obtain k where "at_kern user2system m = Ok (m\<lparr>os := (os m)\<lparr>kern := k\<rparr>\<rparr>)" by (rule enter_kernel [OF assms])
  ultimately show ?thesis by (simp add: system_call_handler_def dispatch_def MAX_SYSCALL_def)
qed

end
