(* ===== verification/Kernel_Segments.thy ===== *)
theory Kernel_Segments
  imports Kernel_Interrupts Ide_Driver
begin

text \<open>
  Segments, task state and processor registers (zeos_full/mm.c from line 105 on, hardware.c, segment.h,
  types.h, and the tables of bootsect.S): the record \<open>hardware\<close> holds the registers the code
  writes, the table of segments, the task state segment and the interrupt descriptor table. The addresses the
  linker chooses are the parameter \<open>symbols\<close>. An instruction does what the manual of the processor says
  of it; what the processor reads from the tables is a definition of its own (\<open>segment_base\<close>,
  \<open>user_may_use\<close>, \<open>irq_enabled\<close>).
\<close>


section \<open>Data\<close>

definition KERNEL_DS :: word16 where "KERNEL_DS = 0x18"
definition USER_CS :: word16 where "USER_CS = 0x23"
definition USER_DS :: word16 where "USER_DS = 0x2B"
definition KERNEL_TSS :: word16 where "KERNEL_TSS = 0x30"
definition GDT_START :: dword where "GDT_START = 0x901b3"
definition INITIAL_EFLAGS :: dword where "INITIAL_EFLAGS = 0x200"
definition L_USER_START :: dword where "L_USER_START = 0x100000"

text \<open>\<open>L_USER_START+(NUM_PAG_CODE+NUM_PAG_DATA)*0x1000-16\<close>\<close>

definition USER_ESP :: dword where
  "USER_ESP = L_USER_START + (of_nat NUM_PAG_CODE + of_nat NUM_PAG_DATA) * 0x1000 - 16"

definition midByte :: "dword \<Rightarrow> byte" where "midByte a = ucast (drop_bit 16 a AND 0xFF)"
definition highByte :: "dword \<Rightarrow> byte" where "highByte a = ucast (drop_bit (16 + 8) a AND 0xFF)"

record descriptor =
  limit :: word16
  lowBase :: word16
  midBase :: byte
  flags1 :: byte
  flags2 :: byte
  highBase :: byte

record register48 =
  reg_limit :: word16
  reg_base :: dword

text \<open>The members \<open>none1\<close> to \<open>none11\<close> pad the words; they are never written and stay 0.\<close>

record tss =
  PreviousTaskLink :: word16
  t_esp0 :: dword
  t_ss0 :: word16
  t_esp1 :: dword
  t_ss1 :: word16
  t_esp2 :: dword
  t_ss2 :: word16
  t_cr3 :: dword
  t_eip :: dword
  t_eFlags :: dword
  t_eax :: dword
  t_ecx :: dword
  t_edx :: dword
  t_ebx :: dword
  t_esp :: dword
  t_ebp :: dword
  t_esi :: dword
  t_edi :: dword
  t_es :: word16
  t_cs :: word16
  t_ss :: word16
  t_ds :: word16
  t_fs :: word16
  t_gs :: word16
  LDTSegmentSelector :: word16
  debugTrap :: word16
  IOMapBaseAddress :: word16

text \<open>The registers of the processor that the code writes, and the masks of the two interrupt controllers.\<close>

record cpu =
  r_eflags :: dword
  r_cr0 :: dword
  r_cr3 :: dword
  r_gdtr :: register48
  r_idtr :: register48
  r_ldtr :: word16
  r_tr :: word16
  r_cs :: word16
  r_ds :: word16
  r_es :: word16
  r_fs :: word16
  r_gs :: word16
  r_ss :: word16
  r_esp :: dword
  r_eip :: dword
  imr_master :: byte
  imr_slave :: byte

record hardware =
  proc :: cpu
  gdt :: "descriptor list"
  gdtR :: register48
  tss_of :: tss
  idt :: "gate list"
  idtR :: register48

text \<open>The addresses the linker gives the variables and the handlers.\<close>

record symbols =
  tss_at :: dword
  idt_at :: dword
  handler_at :: "handler \<Rightarrow> dword"
  task_at :: "nat \<Rightarrow> dword"
  dir_at :: "nat \<Rightarrow> dword"

definition KERNEL_ESP :: "symbols \<Rightarrow> nat \<Rightarrow> dword" where "KERNEL_ESP y n = task_at y n + 4096"
definition INITIAL_ESP :: "symbols \<Rightarrow> dword" where "INITIAL_ESP y = KERNEL_ESP y 1"

text \<open>The table of descriptors in the boot sector.\<close>

definition boot_gdt :: "descriptor list" where
  "boot_gdt =
     [\<lparr>limit = 0, lowBase = 0, midBase = 0, flags1 = 0, flags2 = 0, highBase = 0\<rparr>,
      \<lparr>limit = 0, lowBase = 0, midBase = 0, flags1 = 0, flags2 = 0, highBase = 0\<rparr>,
      \<lparr>limit = 0xFFFF, lowBase = 0, midBase = 0, flags1 = 0x9A, flags2 = 0xCF, highBase = 0\<rparr>,
      \<lparr>limit = 0xFFFF, lowBase = 0, midBase = 0, flags1 = 0x92, flags2 = 0xCF, highBase = 0\<rparr>,
      \<lparr>limit = 0xFFFF, lowBase = 0, midBase = 0, flags1 = 0xFA, flags2 = 0xCF, highBase = 0\<rparr>,
      \<lparr>limit = 0xFFFF, lowBase = 0, midBase = 0, flags1 = 0xF2, flags2 = 0xCF, highBase = 0\<rparr>,
      \<lparr>limit = 104, lowBase = 0, midBase = 0, flags1 = 0x89, flags2 = 0, highBase = 0\<rparr>]"

section \<open>Instructions\<close>

text \<open>\<open>pushl\<close> and \<open>popfl\<close>; bit 1 of the flags is always set.\<close>

definition get_eflags :: "cpu \<Rightarrow> dword" where "get_eflags c = r_eflags c"
definition set_eflags :: "cpu \<Rightarrow> cpu" where "set_eflags c = c\<lparr>r_eflags := 0 OR 2\<rparr>"
definition set_idt_reg :: "register48 \<Rightarrow> cpu \<Rightarrow> cpu" where "set_idt_reg r c = c\<lparr>r_idtr := r\<rparr>"
definition set_gdt_reg :: "register48 \<Rightarrow> cpu \<Rightarrow> cpu" where "set_gdt_reg r c = c\<lparr>r_gdtr := r\<rparr>"
definition set_ldt_reg :: "word16 \<Rightarrow> cpu \<Rightarrow> cpu" where "set_ldt_reg s c = c\<lparr>r_ldtr := s\<rparr>"
definition set_cr3 :: "dword \<Rightarrow> cpu \<Rightarrow> cpu" where "set_cr3 dir c = c\<lparr>r_cr3 := dir\<rparr>"
definition set_pe_flag :: "cpu \<Rightarrow> cpu" where "set_pe_flag c = (let cr0 = r_cr0 c; cr0 = cr0 OR 0x80000000 in c\<lparr>r_cr0 := cr0\<rparr>)"

definition selector_index :: "word16 \<Rightarrow> nat" where "selector_index s = unat (drop_bit 3 s)"

text \<open>\<open>ltrw\<close> takes the descriptor of an available task state segment and marks it busy.\<close>

definition set_task_reg :: "word16 \<Rightarrow> hardware \<Rightarrow> hardware res" where
  "set_task_reg tr h =
     bind (aget (gdt h) (selector_index tr)) (\<lambda>d.
     bind (aput (gdt h) (selector_index tr) (d\<lparr>flags1 := flags1 d OR 2\<rparr>)) (\<lambda>g.
     Ok (h\<lparr>gdt := g, proc := (proc h)\<lparr>r_tr := tr\<rparr>\<rparr>)))"

text \<open>The masks go to ports 0x21 and 0xA1, then \<open>sti\<close>.\<close>

definition enable_int :: "cpu \<Rightarrow> cpu" where
  "enable_int c = c\<lparr>imr_master := 0xF8, imr_slave := 0x3F, r_eflags := r_eflags c OR 0x200\<rparr>"

text \<open>
  \<open>lret\<close> to a code segment of an outer level also takes the stack from the stack, and clears the
  data segment registers whose descriptor the outer level may not use.
\<close>

definition dpl :: "descriptor \<Rightarrow> byte" where "dpl d = drop_bit 5 (flags1 d) AND 3"
definition rpl :: "word16 \<Rightarrow> word16" where "rpl s = s AND 3"

definition outer :: "hardware \<Rightarrow> word16 \<Rightarrow> word16 \<Rightarrow> word16 res" where
  "outer h cs s =
     (if selector_index s = 0 then Ok s
      else bind (aget (gdt h) (selector_index s)) (\<lambda>d. Ok (if ucast (dpl d) < rpl cs then 0 else s)))"

definition lret :: "dword \<Rightarrow> word16 \<Rightarrow> dword \<Rightarrow> word16 \<Rightarrow> hardware \<Rightarrow> hardware res" where
  "lret eip cs esp ss h =
     (let c = proc h in
      if rpl (r_cs c) < rpl cs
      then bind (outer h cs (r_ds c)) (\<lambda>ds. bind (outer h cs (r_es c)) (\<lambda>es.
           bind (outer h cs (r_fs c)) (\<lambda>fs. bind (outer h cs (r_gs c)) (\<lambda>gs.
           Ok (h\<lparr>proc := c\<lparr>r_eip := eip, r_cs := cs, r_esp := esp, r_ss := ss, r_ds := ds, r_es := es, r_fs := fs, r_gs := gs\<rparr>\<rparr>)))))
      else Ok (h\<lparr>proc := c\<lparr>r_eip := eip, r_cs := cs\<rparr>\<rparr>))"

definition put_dword :: "dword \<Rightarrow> dword \<Rightarrow> memory \<Rightarrow> memory" where
  "put_dword a v m = m(a := ucast v, a + 1 := ucast (drop_bit 8 v), a + 2 := ucast (drop_bit 16 v), a + 3 := ucast (drop_bit 24 v))"

text \<open>\<open>*p_rdtr\<close> is the last argument: it goes to the fourth word above the stack pointer of the user.\<close>

definition return_gate :: "word16 \<Rightarrow> word16 \<Rightarrow> dword \<Rightarrow> word16 \<Rightarrow> dword \<Rightarrow> dword \<Rightarrow> hardware \<times> memory \<Rightarrow> (hardware \<times> memory) res" where
  "return_gate ds ss esp cs eip rdtr = (\<lambda>(h, m).
     (let h = h\<lparr>proc := (proc h)\<lparr>r_es := ds, r_ds := ds\<rparr>\<rparr>; eax = esp + 12;
          m = put_dword eax rdtr m in
      bind (lret eip cs esp ss h) (\<lambda>h. Ok (h, m))))"

section \<open>Segments and the task state\<close>

definition setGdt :: "symbols \<Rightarrow> hardware \<Rightarrow> hardware res" where
  "setGdt y h =
     (let i = selector_index KERNEL_TSS in
      bind (aget (gdt h) i) (\<lambda>d.
      bind (aput (gdt h) i (d\<lparr>lowBase := lowWord (tss_at y), midBase := midByte (tss_at y), highBase := highByte (tss_at y)\<rparr>)) (\<lambda>g.
      let r = \<lparr>reg_limit = 256 * 8, reg_base = GDT_START\<rparr> in
      Ok (h\<lparr>gdt := g, gdtR := r, proc := set_gdt_reg r (proc h)\<rparr>))))"

definition setTSS :: "symbols \<Rightarrow> hardware \<Rightarrow> hardware res" where
  "setTSS y h =
     (let t = (tss_of h)\<lparr>PreviousTaskLink := 0, t_esp0 := INITIAL_ESP y, t_ss0 := KERNEL_DS, t_esp1 := 0, t_ss1 := 0, t_esp2 := 0,
          t_ss2 := 0, t_cr3 := 0, t_eip := 0, t_eFlags := INITIAL_EFLAGS, t_eax := 0, t_ecx := 0, t_edx := 0, t_ebx := 0,
          t_esp := USER_ESP\<rparr>;
          t = t\<lparr>t_ebp := t_esp t, t_esi := 0, t_edi := 0, t_es := USER_DS, t_cs := USER_CS, t_ss := USER_DS, t_ds := USER_DS,
          t_fs := 0, t_gs := 0, LDTSegmentSelector := KERNEL_TSS, debugTrap := 0, IOMapBaseAddress := 0\<rparr> in
      set_task_reg KERNEL_TSS (h\<lparr>tss_of := t\<rparr>))"

text \<open>\<open>setIdt\<close> (interrupt.c) with the register it loads.\<close>

definition load_idt :: "symbols \<Rightarrow> hardware \<Rightarrow> hardware res" where
  "load_idt y h = bind (setIdt (handler_at y) (idt h)) (\<lambda>(i, l).
     let r = \<lparr>reg_limit = of_nat l, reg_base = idt_at y\<rparr> in Ok (h\<lparr>idt := i, idtR := r, proc := set_idt_reg r (proc h)\<rparr>))"

definition set_seg_regs :: "word16 \<Rightarrow> word16 \<Rightarrow> dword \<Rightarrow> cpu \<Rightarrow> cpu" where
  "set_seg_regs data_sel stack_sel esp c =
     c\<lparr>r_eflags := r_eflags c AND NOT 0x400, r_ds := data_sel, r_es := data_sel, r_fs := data_sel, r_gs := data_sel,
       r_ss := stack_sel, r_esp := esp - 5 * 4\<rparr>"

section \<open>What the processor reads from the tables\<close>

definition segment_base :: "descriptor \<Rightarrow> dword" where
  "segment_base d = ucast (lowBase d) OR push_bit 16 (ucast (midBase d)) OR push_bit 24 (ucast (highBase d))"

definition segment_end :: "descriptor \<Rightarrow> nat" where
  "segment_end d =
     (let l = unat (limit d) + 2 ^ 16 * unat (flags2 d AND 0xF) in if bit (flags2 d) 7 then l * 4096 + 4095 else l)"

definition segment_of :: "hardware \<Rightarrow> word16 \<Rightarrow> descriptor" where
  "segment_of h s = gdt h ! selector_index s"

lemma base_join: "ucast (lowWord a) OR push_bit 16 (ucast (midByte a)) OR push_bit 24 (ucast (highByte a)) = a"
proof (rule bit_word_eqI)
  have m: "(0xFFFF :: dword) = mask 16" "(0xFF :: dword) = mask 8" by (simp_all add: mask_numeral)
  fix n assume "n < LENGTH(32)"
  then consider "n < 16" | "16 \<le> n \<and> n < 24" | "24 \<le> n \<and> n < 32" by fastforce
  then show "bit (ucast (lowWord a) OR push_bit 16 (ucast (midByte a)) OR push_bit 24 (ucast (highByte a)) :: dword) n = bit a n"
    unfolding lowWord_def midByte_def highByte_def m by cases (auto simp: bit_simps)
qed

lemmas selectors = KERNEL_CS_def KERNEL_DS_def USER_CS_def USER_DS_def KERNEL_TSS_def

lemma indices: "selector_index KERNEL_CS = 2" "selector_index KERNEL_DS = 3" "selector_index USER_CS = 4"
  "selector_index USER_DS = 5" "selector_index KERNEL_TSS = 6"
  by (simp_all add: selector_index_def selectors unat_drop_bit)

text \<open>The table and the task state behind \<open>setGdt\<close> and \<open>setTSS\<close>.\<close>

definition linked_tss :: "symbols \<Rightarrow> descriptor" where
  "linked_tss y = \<lparr>limit = 104, lowBase = lowWord (tss_at y), midBase = midByte (tss_at y), flags1 = 0x8B, flags2 = 0, highBase = highByte (tss_at y)\<rparr>"

definition first_tss :: "symbols \<Rightarrow> tss" where
  "first_tss y = \<lparr>PreviousTaskLink = 0, t_esp0 = INITIAL_ESP y, t_ss0 = KERNEL_DS, t_esp1 = 0, t_ss1 = 0, t_esp2 = 0, t_ss2 = 0,
     t_cr3 = 0, t_eip = 0, t_eFlags = INITIAL_EFLAGS, t_eax = 0, t_ecx = 0, t_edx = 0, t_ebx = 0, t_esp = USER_ESP, t_ebp = USER_ESP,
     t_esi = 0, t_edi = 0, t_es = USER_DS, t_cs = USER_CS, t_ss = USER_DS, t_ds = USER_DS, t_fs = 0, t_gs = 0,
     LDTSegmentSelector = KERNEL_TSS, debugTrap = 0, IOMapBaseAddress = 0\<rparr>"

definition boot_gdtr :: register48 where "boot_gdtr = \<lparr>reg_limit = 2048, reg_base = GDT_START\<rparr>"

lemma setGdt_Ok:
  assumes "gdt h = boot_gdt"
  shows "setGdt y h = Ok (h\<lparr>gdt := boot_gdt[6 := (linked_tss y)\<lparr>flags1 := 0x89\<rparr>], gdtR := boot_gdtr, proc := (proc h)\<lparr>r_gdtr := boot_gdtr\<rparr>\<rparr>)"
  using assms by (simp add: setGdt_def indices boot_gdt_def linked_tss_def set_gdt_reg_def boot_gdtr_def Let_def)

lemma setTSS_Ok:
  assumes "gdt h = boot_gdt[6 := (linked_tss y)\<lparr>flags1 := 0x89\<rparr>]"
  shows "setTSS y h = Ok (h\<lparr>tss_of := first_tss y, gdt := boot_gdt[6 := linked_tss y], proc := (proc h)\<lparr>r_tr := KERNEL_TSS\<rparr>\<rparr>)"
  using assms by (simp add: setTSS_def set_task_reg_def indices boot_gdt_def linked_tss_def first_tss_def Let_def)

section \<open>Ports of user programs\<close>

text \<open>The task state segment in memory; 11 words of padding are 0.\<close>

definition bytes16 :: "word16 \<Rightarrow> byte list" where "bytes16 w = [ucast w, ucast (drop_bit 8 w)]"

definition tss_bytes :: "tss \<Rightarrow> byte list" where
  "tss_bytes t =
     bytes16 (PreviousTaskLink t) @ [0, 0] @ bytes32 (t_esp0 t) @ bytes16 (t_ss0 t) @ [0, 0] @ bytes32 (t_esp1 t) @ bytes16 (t_ss1 t) @ [0, 0] @
     bytes32 (t_esp2 t) @ bytes16 (t_ss2 t) @ [0, 0] @ bytes32 (t_cr3 t) @ bytes32 (t_eip t) @ bytes32 (t_eFlags t) @ bytes32 (t_eax t) @
     bytes32 (t_ecx t) @ bytes32 (t_edx t) @ bytes32 (t_ebx t) @ bytes32 (t_esp t) @ bytes32 (t_ebp t) @ bytes32 (t_esi t) @ bytes32 (t_edi t) @
     bytes16 (t_es t) @ [0, 0] @ bytes16 (t_cs t) @ [0, 0] @ bytes16 (t_ss t) @ [0, 0] @ bytes16 (t_ds t) @ [0, 0] @ bytes16 (t_fs t) @ [0, 0] @
     bytes16 (t_gs t) @ [0, 0] @ bytes16 (LDTSegmentSelector t) @ [0, 0] @ bytes16 (debugTrap t) @ bytes16 (IOMapBaseAddress t)"

lemma length_tss_bytes: "length (tss_bytes t) = 104"
  by (simp add: tss_bytes_def bytes16_def)

text \<open>
  A program in user mode, with an I/O privilege level of 0, may access a byte port when the processor finds
  its bit in the map clear: the map starts in the segment at \<open>IOMapBaseAddress\<close>, and the two bytes it
  reads must lie within the limit.
\<close>

definition user_may_use :: "hardware \<Rightarrow> nat \<Rightarrow> bool" where
  "user_may_use h p \<longleftrightarrow>
     (let i = unat (IOMapBaseAddress (tss_of h)) + p div 8 in
      i + 1 \<le> segment_end (segment_of h (r_tr (proc h))) \<and> i < 104 \<and> \<not> bit (tss_bytes (tss_of h) ! i) (p mod 8))"

lemma first_tss_bytes:
  assumes "take_bit 12 (INITIAL_ESP y) = 0"
  shows "tss_bytes (first_tss y) ! 4 = 0" "tss_bytes (first_tss y) ! 12 = 0" "tss_bytes (first_tss y) ! 20 = 0"
    "tss_bytes (first_tss y) ! 62 = 0x11" "tss_bytes (first_tss y) ! 8 = 0x18"
proof -
  have "ucast (INITIAL_ESP y) = (0 :: byte)"
  proof (rule bit_word_eqI)
    fix n assume "n < LENGTH(8)"
    moreover from assms have "\<not> bit (take_bit 12 (INITIAL_ESP y)) n" by simp
    ultimately show "bit (ucast (INITIAL_ESP y) :: byte) n = bit 0 n" by (simp add: bit_simps)
  qed
  then show "tss_bytes (first_tss y) ! 4 = 0" by (simp add: tss_bytes_def first_tss_def bytes16_def bytes32_def)
qed (simp_all add: tss_bytes_def first_tss_def bytes16_def bytes32_def USER_ESP_def L_USER_START_def NUM_PAG_CODE_def NUM_PAG_DATA_def KERNEL_DS_def)

lemma loaded_ports:
  assumes "take_bit 12 (INITIAL_ESP y) = 0" and "gdt h = boot_gdt[6 := linked_tss y]" and "tss_of h = first_tss y" and "r_tr (proc h) = KERNEL_TSS"
  shows "user_may_use h 0x20 \<and> user_may_use h 0x21 \<and> user_may_use h 0x60 \<and> user_may_use h 0x64 \<and> user_may_use h 0xA1 \<and>
    user_may_use h 0x1F6 \<and> user_may_use h 0x1F7 \<and> \<not> user_may_use h 0x1F0 \<and> \<not> user_may_use h 0x3F6"
proof -
  have base: "IOMapBaseAddress (first_tss y) = 0" by (simp add: first_tss_def)
  have e: "segment_end (segment_of h KERNEL_TSS) = 104"
    by (simp add: segment_of_def assms(2) indices boot_gdt_def segment_end_def linked_tss_def)
  show ?thesis unfolding user_may_use_def assms(3,4) base e Let_def using first_tss_bytes [OF assms(1)] by (simp add: bit_numeral_rec)
qed


section \<open>Requests of the devices\<close>

text \<open>
  The boot sector moves the requests to the vectors from 0x20 on. A request of the second controller
  comes in through line 2 of the first, which has no device of its own.
\<close>

definition irq_vector :: "nat \<Rightarrow> nat" where
  "irq_vector i = (if i < 8 then 0x20 + i else 0x28 + (i - 8))"

definition irq_enabled :: "cpu \<Rightarrow> nat \<Rightarrow> bool" where
  "irq_enabled c i \<longleftrightarrow> bit (r_eflags c) 9 \<and>
     (if i < 8 then \<not> bit (imr_master c) i else i < 16 \<and> \<not> bit (imr_master c) 2 \<and> \<not> bit (imr_slave c) (i - 8))"

lemma enabled_after: "irq_enabled (enable_int c) i \<longleftrightarrow> i \<in> {0, 1, 2, 14, 15}"
proof -
  have "i < 8 \<Longrightarrow> i \<in> {0, 1, 2, 3, 4, 5, 6, 7}" "8 \<le> i \<Longrightarrow> i < 16 \<Longrightarrow> i \<in> {8, 9, 10, 11, 12, 13, 14, 15}" by auto
  moreover have "\<not> bit (0xF8 :: byte) 2" "\<not> bit (0xF8 :: byte) 0" "\<not> bit (0xF8 :: byte) (Suc 0)" "bit (0xF8 :: byte) 3" "bit (0xF8 :: byte) 4" "bit (0xF8 :: byte) 5" "bit (0xF8 :: byte) 6" "bit (0xF8 :: byte) 7"
    "bit (0x3F :: byte) 0" "bit (0x3F :: byte) (Suc 0)" "bit (0x3F :: byte) 2" "bit (0x3F :: byte) 3" "bit (0x3F :: byte) 4" "bit (0x3F :: byte) 5" "\<not> bit (0x3F :: byte) 6" "\<not> bit (0x3F :: byte) 7"
    "bit (0x200 :: dword) 9"
    by (simp_all add: bit_numeral_rec)
  ultimately show ?thesis by (cases "i < 8"; cases "i < 16") (auto simp: irq_enabled_def enable_int_def bit_or_iff)
qed

definition no_gate :: gate where "no_gate = \<lparr>lowOffset = 0, segmentSelector = 0, flags = 0, highOffset = 0\<rparr>"

definition entered :: "symbols \<Rightarrow> gate list \<Rightarrow> bool" where
  "entered y i \<longleftrightarrow> (\<forall>v < 256. case map_of (rev idt_entries) v of None \<Rightarrow> \<not> gate_present (i ! v)
      | Some (g, pl) \<Rightarrow> gate_target (i ! v) = handler_at y g \<and> gate_present (i ! v))"

lemma load_idt_Ok:
  assumes "idt h = replicate 256 no_gate"
  obtains i where "load_idt y h = Ok (h\<lparr>idt := i, idtR := \<lparr>reg_limit = 2047, reg_base = idt_at y\<rparr>, proc := (proc h)\<lparr>r_idtr := \<lparr>reg_limit = 2047, reg_base = idt_at y\<rparr>\<rparr>\<rparr>)"
    and "length i = 256" and "entered y i"
proof -
  have "length (idt h) = 256" using assms by simp
  from setIdt_enters [OF this, of "handler_at y"] obtain i where
    i: "setIdt (handler_at y) (idt h) = Ok (i, 2047)" "length i = 256" and
    G: "\<forall>v < 256. case map_of (rev idt_entries) v of None \<Rightarrow> i ! v = idt h ! v
      | Some (g, pl) \<Rightarrow> gate_target (i ! v) = handler_at y g \<and> gate_present (i ! v) \<and> gate_dpl (i ! v) = word_of_int pl \<and>
          segmentSelector (i ! v) = KERNEL_CS" by blast
  have "entered y i"
    unfolding entered_def using G assms by (auto simp: gate_present_def no_gate_def split: option.splits)
  with i show thesis by (intro that [of i]) (simp_all add: load_idt_def set_idt_reg_def Let_def)
qed

text \<open>The table of segments, the table of gates and the task state, as \<open>main\<close> sets them up.\<close>

definition set_tables :: "symbols \<Rightarrow> hardware \<Rightarrow> hardware res" where
  "set_tables y h = bind (setGdt y h) (\<lambda>h. bind (load_idt y h) (setTSS y))"

definition fresh_hardware :: "hardware \<Rightarrow> bool" where
  "fresh_hardware h \<longleftrightarrow> gdt h = boot_gdt \<and> idt h = replicate 256 no_gate"

lemma set_tables_Ok:
  assumes "fresh_hardware h"
  obtains h' where "set_tables y h = Ok h'" "gdt h' = boot_gdt[6 := linked_tss y]" "tss_of h' = first_tss y"
    "proc h' = (proc h)\<lparr>r_gdtr := boot_gdtr, r_idtr := \<lparr>reg_limit = 2047, reg_base = idt_at y\<rparr>, r_tr := KERNEL_TSS\<rparr>" "length (idt h') = 256"
    "entered y (idt h')"
proof -
  note f = assms [unfolded fresh_hardware_def]
  let ?h1 = "h\<lparr>gdt := boot_gdt[6 := (linked_tss y)\<lparr>flags1 := 0x89\<rparr>], gdtR := boot_gdtr, proc := (proc h)\<lparr>r_gdtr := boot_gdtr\<rparr>\<rparr>"
  have 1: "setGdt y h = Ok ?h1" using f by (intro setGdt_Ok) simp
  have "idt ?h1 = replicate 256 no_gate" using f by simp
  from load_idt_Ok [OF this, of y] obtain i where
    i: "load_idt y ?h1 = Ok (?h1\<lparr>idt := i, idtR := \<lparr>reg_limit = 2047, reg_base = idt_at y\<rparr>, proc := (proc ?h1)\<lparr>r_idtr := \<lparr>reg_limit = 2047, reg_base = idt_at y\<rparr>\<rparr>\<rparr>)" (is "_ = Ok ?h2")
    "length i = 256" "entered y i" by blast
  have "gdt ?h2 = boot_gdt[6 := (linked_tss y)\<lparr>flags1 := 0x89\<rparr>]" by simp
  note setTSS_Ok [OF this]
  with 1 i show thesis by (intro that [of "?h2\<lparr>tss_of := first_tss y, gdt := boot_gdt[6 := linked_tss y], proc := (proc ?h2)\<lparr>r_tr := KERNEL_TSS\<rparr>\<rparr>"])
    (simp_all add: set_tables_def)
qed

lemma return_gate_Ok:
  assumes "gdt h = boot_gdt[6 := linked_tss y]" and "r_cs (proc h) = KERNEL_CS" and "r_fs (proc h) = KERNEL_DS" "r_gs (proc h) = KERNEL_DS"
  shows "return_gate USER_DS USER_DS esp USER_CS eip v (h, m) =
    Ok (h\<lparr>proc := (proc h)\<lparr>r_eip := eip, r_cs := USER_CS, r_esp := esp, r_ss := USER_DS, r_ds := USER_DS, r_es := USER_DS, r_fs := 0, r_gs := 0\<rparr>\<rparr>, put_dword (esp + 12) v m)"
  using assms by (simp add: return_gate_def lret_def outer_def indices Let_def rpl_def selectors selector_index_def unat_drop_bit boot_gdt_def dpl_def)


section \<open>What the tables promise\<close>

text \<open>
  Behind \<open>setGdt\<close>, \<open>setIdt\<close> and \<open>setTSS\<close> the task register selects the task state segment at its
  address, an interrupt in user mode comes to the kernel stack \<open>INITIAL_ESP\<close>, and the code and data
  segments of kernel and user are the same 4 GB: only the pages keep them apart.
\<close>

lemma segments_loaded:
  assumes "fresh_hardware h"
  shows "\<exists>h'. set_tables y h = Ok h' \<and> r_tr (proc h') = KERNEL_TSS \<and>
    segment_base (segment_of h' KERNEL_TSS) = tss_at y \<and> segment_end (segment_of h' KERNEL_TSS) = 104 \<and>
    t_ss0 (tss_of h') = KERNEL_DS \<and> t_esp0 (tss_of h') = INITIAL_ESP y \<and>
    (\<forall>s \<in> {KERNEL_CS, KERNEL_DS, USER_CS, USER_DS}. segment_base (segment_of h' s) = 0 \<and> segment_end (segment_of h' s) = 2 ^ 32 - 1 \<and>
       ucast (dpl (segment_of h' s)) = rpl s) \<and>
    rpl USER_CS = 3 \<and> rpl USER_DS = 3 \<and> rpl KERNEL_CS = 0 \<and> rpl KERNEL_DS = 0"
proof -
  obtain h' where h': "set_tables y h = Ok h'" "gdt h' = boot_gdt[6 := linked_tss y]" "tss_of h' = first_tss y"
    "proc h' = (proc h)\<lparr>r_gdtr := boot_gdtr, r_idtr := \<lparr>reg_limit = 2047, reg_base = idt_at y\<rparr>, r_tr := KERNEL_TSS\<rparr>"
    by (rule set_tables_Ok [OF assms, of y])
  have "segment_of h' KERNEL_TSS = linked_tss y" by (simp add: segment_of_def h'(2) indices boot_gdt_def)
  moreover have "segment_base (linked_tss y) = tss_at y" using base_join [of "tss_at y"] by (simp add: segment_base_def linked_tss_def)
  moreover have "segment_end (linked_tss y) = 104" by (simp add: segment_end_def linked_tss_def)
  moreover have "segment_base (segment_of h' s) = 0 \<and> segment_end (segment_of h' s) = 2 ^ 32 - 1 \<and> ucast (dpl (segment_of h' s)) = rpl s"
    if "s \<in> {KERNEL_CS, KERNEL_DS, USER_CS, USER_DS}" for s
  proof -
    from that consider "s = KERNEL_CS" | "s = KERNEL_DS" | "s = USER_CS" | "s = USER_DS" by blast
    then show ?thesis
      by cases (simp_all add: segment_of_def h'(2) indices boot_gdt_def segment_base_def segment_end_def bit_numeral_rec dpl_def, simp_all add: rpl_def selectors)
  qed
  moreover have "rpl USER_CS = 3" "rpl USER_DS = 3" "rpl KERNEL_CS = 0" "rpl KERNEL_DS = 0" by (simp_all add: rpl_def selectors)
  ultimately show ?thesis using h' by (simp add: first_tss_def)
qed

text \<open>
  C21: the map of the ports lies at the start of the task state segment, because \<open>IOMapBaseAddress\<close> is 0: the
  stack pointers there are mostly zeros, so that a program in user mode may write the masks of the
  interrupt controllers, read the keyboard and give commands to the disk, though not move its data.
\<close>

theorem user_ports_open:
  assumes "fresh_hardware h" and "take_bit 12 (INITIAL_ESP y) = 0"
  shows "\<exists>h'. set_tables y h = Ok h' \<and> user_may_use h' 0x20 \<and> user_may_use h' 0x21 \<and> user_may_use h' 0xA1 \<and> user_may_use h' 0x60 \<and>
    user_may_use h' (unat DEV) \<and> user_may_use h' (unat CMD) \<and> \<not> user_may_use h' (unat DATA) \<and> \<not> user_may_use h' (unat DEVCTL)"
proof -
  obtain h' where h': "set_tables y h = Ok h'" "gdt h' = boot_gdt[6 := linked_tss y]" "tss_of h' = first_tss y"
    "proc h' = (proc h)\<lparr>r_gdtr := boot_gdtr, r_idtr := \<lparr>reg_limit = 2047, reg_base = idt_at y\<rparr>, r_tr := KERNEL_TSS\<rparr>"
    by (rule set_tables_Ok [OF assms(1), of y])
  then have "r_tr (proc h') = KERNEL_TSS" by simp
  with loaded_ports [OF assms(2) h'(2,3)] h'(1) show ?thesis by (simp add: DEV_def CMD_def DATA_def DEVCTL_def IDEADDR_def)
qed

text \<open>
  C20: behind \<open>enable_int\<close> the processor takes requests of the clock, the keyboard and both disks. Each has
  its handler but the second disk: request 15 comes to vector 47, where the table has no gate.
\<close>

theorem irq_gates:
  assumes "fresh_hardware h"
  shows "\<exists>h'. set_tables y h = Ok h' \<and> {i. irq_enabled (enable_int (proc h')) i} = {0, 1, 2, 14, 15} \<and>
    gate_target (idt h' ! irq_vector 0) = handler_at y Clock \<and> gate_target (idt h' ! irq_vector 1) = handler_at y Keyboard \<and>
    gate_target (idt h' ! irq_vector 14) = handler_at y Ide \<and> \<not> gate_present (idt h' ! irq_vector 15)"
proof -
  obtain h' where h': "set_tables y h = Ok h'" "gdt h' = boot_gdt[6 := linked_tss y]" "tss_of h' = first_tss y"
    "proc h' = (proc h)\<lparr>r_gdtr := boot_gdtr, r_idtr := \<lparr>reg_limit = 2047, reg_base = idt_at y\<rparr>, r_tr := KERNEL_TSS\<rparr>" "length (idt h') = 256"
    "entered y (idt h')"
    by (rule set_tables_Ok [OF assms, of y])
  have e: "map_of (rev idt_entries) 32 = Some (Clock, 0)" "map_of (rev idt_entries) 33 = Some (Keyboard, 0)" "map_of (rev idt_entries) 46 = Some (Ide, 0)"
    "map_of (rev idt_entries) 47 = None" by (simp_all add: idt_entries_def)
  note G = h'(6) [unfolded entered_def]
  have v: "irq_vector 0 = 32" "irq_vector 1 = 33" "irq_vector 14 = 46" "irq_vector 15 = 47" by (simp_all add: irq_vector_def)
  have "gate_target (idt h' ! 32) = handler_at y Clock" "gate_target (idt h' ! 33) = handler_at y Keyboard" "gate_target (idt h' ! 46) = handler_at y Ide"
    "\<not> gate_present (idt h' ! 47)" 
    using spec [where x = 32, OF G] spec [where x = 33, OF G] spec [where x = 46, OF G] spec [where x = 47, OF G] by (simp_all add: e del: rev.simps)
  moreover have "{i. irq_enabled (enable_int (proc h')) i} = {0, 1, 2, 14, 15}" by (simp only: enabled_after Collect_mem_eq)
  ultimately show ?thesis using h'(1) unfolding v by blast
qed

text \<open>The hardware as the boot loader leaves it, and a kernel with its variables from 0x20000 on.\<close>

definition booted :: hardware where
  "booted = \<lparr>proc = \<lparr>r_eflags = 2, r_cr0 = 1, r_cr3 = 0, r_gdtr = \<lparr>reg_limit = 0x8000, reg_base = GDT_START\<rparr>, r_idtr = \<lparr>reg_limit = 0, reg_base = 0\<rparr>,
       r_ldtr = 0, r_tr = 0, r_cs = KERNEL_CS, r_ds = 0x9000, r_es = 0, r_fs = 0, r_gs = 0, r_ss = 0x9000, r_esp = 0x3FF4, r_eip = 0x10010,
       imr_master = 0xFB, imr_slave = 0xFF\<rparr>,
     gdt = boot_gdt, gdtR = \<lparr>reg_limit = 0, reg_base = 0\<rparr>,
     tss_of = \<lparr>PreviousTaskLink = 0, t_esp0 = 0, t_ss0 = 0, t_esp1 = 0, t_ss1 = 0, t_esp2 = 0, t_ss2 = 0, t_cr3 = 0, t_eip = 0, t_eFlags = 0, t_eax = 0,
       t_ecx = 0, t_edx = 0, t_ebx = 0, t_esp = 0, t_ebp = 0, t_esi = 0, t_edi = 0, t_es = 0, t_cs = 0, t_ss = 0, t_ds = 0, t_fs = 0, t_gs = 0,
       LDTSegmentSelector = 0, debugTrap = 0, IOMapBaseAddress = 0\<rparr>,
     idt = replicate 256 no_gate, idtR = \<lparr>reg_limit = 0, reg_base = 0\<rparr>\<rparr>"

definition linked :: symbols where
  "linked = \<lparr>tss_at = 0x20000, idt_at = 0x20100, handler_at = (\<lambda>h. if h = Ide then 0x11110 else 0x11000),
     task_at = (\<lambda>n. 0x30000 + of_nat n * 4096), dir_at = (\<lambda>n. 0x40000 + of_nat n * 4096)\<rparr>"

lemma booted_fresh: "fresh_hardware booted"
  by (simp add: fresh_hardware_def booted_def)

lemma linked_aligned: "take_bit 12 (INITIAL_ESP linked) = 0"
  by (simp add: INITIAL_ESP_def KERNEL_ESP_def linked_def)

theorem user_ports_open_witness: "\<exists>h'. set_tables linked booted = Ok h' \<and> user_may_use h' 0x1F7 \<and> \<not> user_may_use h' 0x1F0"
proof -
  from user_ports_open [OF booted_fresh linked_aligned] obtain h' where "set_tables linked booted = Ok h'" "user_may_use h' (unat CMD)" "\<not> user_may_use h' (unat DATA)" by blast
  then show ?thesis by (simp add: CMD_def DATA_def IDEADDR_def)
qed

theorem irq_gates_witness: "\<exists>h'. set_tables linked booted = Ok h' \<and> gate_target (idt h' ! 46) = 0x11110 \<and> \<not> gate_present (idt h' ! 47)"
proof -
  from irq_gates [OF booted_fresh, of linked] obtain h' where "set_tables linked booted = Ok h'" "gate_target (idt h' ! irq_vector 14) = handler_at linked Ide"
    "\<not> gate_present (idt h' ! irq_vector 15)" by blast
  then show ?thesis by (simp add: irq_vector_def linked_def)
qed

end
