(* ===== verification/Boot_Image.thy ===== *)
theory Boot_Image
  imports Prelude
begin

text \<open>
  The tool that builds the disk image on the host (zeos_full/build.c): it joins the boot sector, the
  system and the user program and fills in their lengths. The state is the record \<open>tool\<close>: the
  global \<open>buf\<close>, the open file, the output and the text on the standard error. A call of \<open>die\<close> ends a
  run with \<open>Inl\<close> of its constructor of \<open>failure\<close>. The host is little-endian.
\<close>


section \<open>Files and output\<close>

text \<open>A file of the host: what \<open>fstat\<close> says of it and what \<open>read\<close> finds in it.\<close>

record host_file =
  content :: "byte list"
  st_size :: nat
  stat_ok :: bool
  read_ok :: bool

text \<open>
  The state of the tool: the global \<open>buf\<close>, the open file with its offset, the standard output as a
  file that holds at most \<open>room\<close> bytes, and what was printed on the standard error. \<open>errno_text\<close> is what \<open>%m\<close> prints.
\<close>

record tool =
  files :: "string \<Rightarrow> host_file option"
  buf :: "byte list"
  fd_of :: "(host_file \<times> nat) option"
  written :: "byte list"
  offset :: nat
  seekable :: bool
  room :: nat
  stderr_text :: string
  errno_text :: string

text \<open>One constructor for each call of \<open>die\<close>.\<close>

datatype failure = Usage | Unable_to_open string | No_header string | Non_Minix string | Data_segment string | Bss_segment string
  | Symbol_table string | Boot_size | Boot_flag | Write_call | Unable_to_stat string | Read_error string | Unexpected_EOF string
  | Write_failed | Seek_failed | Write_image_length | Write_system_length | Write_user_length

type_synonym 'a step = "tool \<Rightarrow> (failure \<times> tool) + ('a \<times> tool)"

definition andthen :: "'a step \<Rightarrow> ('a \<Rightarrow> 'b step) \<Rightarrow> 'b step" where
  "andthen f g s = (case f s of Inl e \<Rightarrow> Inl e | Inr (x, s) \<Rightarrow> g x s)"

definition unit_step :: "'a \<Rightarrow> 'a step" where "unit_step x s = Inr (x, s)"
definition update :: "(tool \<Rightarrow> tool) \<Rightarrow> unit step" where "update f s = Inr ((), f s)"

fun die_text :: "string \<Rightarrow> failure \<Rightarrow> string" where
  "die_text m Usage = ''Usage: build bootsect system user [> image]''"
| "die_text m (Unable_to_open f) = ''Unable to open `'' @ f @ [CHR 0x27] @ '': '' @ m"
| "die_text m (No_header f) = f @ '': Unable to read header''"
| "die_text m (Non_Minix f) = f @ '': Non-Minix header''"
| "die_text m (Data_segment f) = f @ '': Illegal data segment''"
| "die_text m (Bss_segment f) = f @ '': Illegal bss segment''"
| "die_text m (Symbol_table f) = f @ '': Illegal symbol table''"
| "die_text m Boot_size = ''Boot block must be exactly 512 bytes''"
| "die_text m Boot_flag = ''Boot block hasn'' @ [CHR 0x27] @ ''t got boot flag (0xAA55)''"
| "die_text m Write_call = ''Write call failed''"
| "die_text m (Unable_to_stat f) = ''Unable to stat `'' @ f @ [CHR 0x27] @ '': '' @ m"
| "die_text m (Read_error f) = ''Error reading '' @ f @ '': '' @ m"
| "die_text m (Unexpected_EOF f) = f @ '': Unexpected EOF''"
| "die_text m Write_failed = ''Write failed''"
| "die_text m Seek_failed = ''Output: seek failed''"
| "die_text m Write_image_length = ''Write of image length failed''"
| "die_text m Write_system_length = ''Write of system length failed''"
| "die_text m Write_user_length = ''Write of user length failed''"

definition die :: "failure \<Rightarrow> 'a step" where
  "die e s = Inl (e, s\<lparr>stderr_text := stderr_text s @ die_text (errno_text s) e @ [CHR 0x0A]\<rparr>)"

definition check :: "bool \<Rightarrow> failure \<Rightarrow> unit step" where
  "check ok e = (if ok then unit_step () else die e)"

text \<open>\<open>%7d\<close>\<close>

fun digits :: "nat \<Rightarrow> string" where
  "digits n = (if n < 10 then [] else digits (n div 10)) @ [char_of (48 + n mod 10)]"

declare digits.simps [simp del]

definition format7 :: "int \<Rightarrow> string" where
  "format7 i = (let s = (if i < 0 then CHR 0x2D # digits (nat (-i)) else digits (nat i)) in replicate (7 - length s) (CHR 0x20) @ s)"

definition line :: "string \<Rightarrow> int \<Rightarrow> string \<Rightarrow> string" where
  "line before i after = before @ [CHR 0x09] @ format7 i @ after @ [CHR 0x0A]"

definition report :: "string \<Rightarrow> int \<Rightarrow> string \<Rightarrow> unit step" where
  "report before i after = update (\<lambda>s. s\<lparr>stderr_text := stderr_text s @ line before i after\<rparr>)"

section \<open>System calls of the host\<close>

definition open_file :: "string \<Rightarrow> unit step" where
  "open_file name s =
     (case files s name of None \<Rightarrow> die (Unable_to_open name) s | Some f \<Rightarrow> Inr ((), s\<lparr>fd_of := Some (f, 0)\<rparr>))"

definition close_file :: "unit step" where "close_file = update (\<lambda>s. s\<lparr>fd_of := None\<rparr>)"

definition file_size :: "string \<Rightarrow> dword step" where
  "file_size name s =
     (case fd_of s of Some (f, _) \<Rightarrow> if stat_ok f then Inr (of_nat (st_size f), s) else die (Unable_to_stat name) s
      | None \<Rightarrow> die (Unable_to_stat name) s)"

definition read_file :: "nat \<Rightarrow> int step" where
  "read_file n s =
     (case fd_of s of Some (f, p) \<Rightarrow>
        if read_ok f
        then let d = take n (drop p (content f)) in
          Inr (int (length d), s\<lparr>buf := d @ drop (length d) (buf s), fd_of := Some (f, p + length d)\<rparr>)
        else Inr (-1, s)
      | None \<Rightarrow> Inr (-1, s))"

text \<open>Writing at an offset: a gap in front of it is filled with zeros.\<close>

definition splice :: "nat \<Rightarrow> byte list \<Rightarrow> byte list \<Rightarrow> byte list" where
  "splice p d xs = take p xs @ replicate (p - length xs) 0 @ d @ drop (p + length d) xs"

definition write_out :: "nat \<Rightarrow> int step" where
  "write_out n s =
     (let d = take (min n (room s - offset s)) (buf s) in
      Inr (int (length d), s\<lparr>written := (if d = [] then written s else splice (offset s) d (written s)), offset := offset s + length d\<rparr>))"

definition seek_out :: "nat \<Rightarrow> int step" where
  "seek_out p s = (if seekable s then Inr (int p, s\<lparr>offset := p\<rparr>) else Inr (-1, s))"

section \<open>The tool\<close>

definition MINIX_HEADER_LEN :: nat where "MINIX_HEADER_LEN = 32"
definition minix_hdr :: "byte list" where "minix_hdr = [0x01, 0x03, 0x10, 0x04, 0x20, 0x00, 0x00, 0x00]"

definition minix_open :: "string \<Rightarrow> unit step" where
  "minix_open name =
     andthen (open_file name) (\<lambda>_.
     andthen (read_file MINIX_HEADER_LEN) (\<lambda>n.
     andthen (check (n = int MINIX_HEADER_LEN) (No_header name)) (\<lambda>_ s.
     (let lb = (\<lambda>k. le32 (buf s) (4 * k)) in
      andthen (check (take 8 (buf s) = minix_hdr \<and> lb 5 = 0) (Non_Minix name)) (\<lambda>_.
      andthen (check (lb 3 = 0) (Data_segment name)) (\<lambda>_.
      andthen (check (lb 4 = 0) (Bss_segment name)) (\<lambda>_.
      check (lb 7 = 0) (Symbol_table name)))) s))))"

definition set_buf :: "nat \<Rightarrow> byte \<Rightarrow> unit step" where
  "set_buf i c = update (\<lambda>s. s\<lparr>buf := (buf s)[i := c]\<rparr>)"

text \<open>The boot sector.\<close>

definition copy_boot :: "string \<Rightarrow> unit step" where
  "copy_boot name =
     andthen (minix_open name) (\<lambda>_.
     andthen (read_file 1024) (\<lambda>i.
     andthen (report ''Boot sector '' i '' Bytes.'') (\<lambda>_.
     andthen (check (i = 512) Boot_size) (\<lambda>_ s.
     andthen (check (buf s ! 510 = 0x55 \<and> buf s ! 511 = 0xAA) Boot_flag) (\<lambda>_.
     andthen (set_buf 508 0) (\<lambda>_. andthen (set_buf 509 0) (\<lambda>_.
     andthen (write_out 512) (\<lambda>n. andthen (check (n = 512) Write_call) (\<lambda>_. close_file))))) s))))"

text \<open>The loop over a file, 1024 bytes a round.\<close>

definition copy_block :: "string \<Rightarrow> dword \<Rightarrow> unit step" where
  "copy_block name l =
     andthen (read_file (unat l)) (\<lambda>n.
     andthen (check (n = int (unat l)) (if n < 0 then Read_error name else Unexpected_EOF name)) (\<lambda>_.
     andthen (write_out (unat l)) (\<lambda>w. check (w = int (unat l)) Write_failed)))"

function copy_rounds :: "string \<Rightarrow> dword \<Rightarrow> unit step" where
  "copy_rounds name sz s =
     (if 0 < sz
      then let l = (if 1024 < sz then 1024 else sz) in
        case copy_block name l s of Inl e \<Rightarrow> Inl e | Inr (_, s) \<Rightarrow> copy_rounds name (sz - l) s
      else Inr ((), s))"
  by pat_completeness auto
termination by (relation "measure (\<lambda>(_, sz, _). unat sz)") (auto simp: word_less_nat_alt unat_sub word_le_nat_alt split: if_splits)

declare copy_rounds.simps [simp del]

definition copy_part :: "string \<Rightarrow> string \<Rightarrow> string \<Rightarrow> dword step" where
  "copy_part before after name =
     andthen (open_file name) (\<lambda>_.
     andthen (file_size name) (\<lambda>sz.
     andthen (report before (int (unat (sz div 1024))) after) (\<lambda>_.
     andthen (copy_rounds name sz) (\<lambda>_.
     andthen close_file (\<lambda>_. unit_step sz)))))"

definition put_header :: "nat \<Rightarrow> byte list \<Rightarrow> failure \<Rightarrow> unit step" where
  "put_header at b e =
     andthen (update (\<lambda>s. s\<lparr>buf := b @ drop (length b) (buf s)\<rparr>)) (\<lambda>_.
     andthen (seek_out at) (\<lambda>p.
     andthen (check (p = int at) Seek_failed) (\<lambda>_.
     andthen (write_out (length b)) (\<lambda>n. check (n = int (length b)) e))))"

definition size24 :: "dword \<Rightarrow> byte list" where
  "size24 v = [ucast (v AND 0xFF), ucast (drop_bit 8 v AND 0xFF), ucast (drop_bit 16 v AND 0xFF), 0]"

fun build :: "string list \<Rightarrow> unit step" where
  "build [boot, sys, usr] =
     andthen (copy_boot boot) (\<lambda>_.
     andthen (copy_part ''System is '' '' kB '' sys) (\<lambda>sys_size.
     andthen (copy_part ''User is '' '' kB'' usr) (\<lambda>usr_size.
     let im_size = (sys_size + usr_size + 15) div 16 in
     andthen (report ''Image is '' (sint (sys_size + usr_size) sdiv 1024) '' kB'') (\<lambda>_.
     andthen (put_header 500 [ucast (im_size AND 0xFF), ucast (drop_bit 8 im_size AND 0xFF)] Write_image_length) (\<lambda>_.
     andthen (put_header 512 (size24 sys_size) Write_system_length) (\<lambda>_.
     andthen (put_header 516 (size24 usr_size) Write_user_length) (\<lambda>_.
     put_header 520 (size24 0x7E2B) Write_user_length)))))))"
| "build _ = die Usage"


section \<open>What is built\<close>

lemmas steps = andthen_def unit_step_def update_def check_def report_def set_buf_def close_file_def

lemma splice_end [simp]: "p = length xs \<Longrightarrow> splice p d xs = xs @ d"
  by (simp add: splice_def)

lemma length_splice: "p + length d \<le> length xs \<Longrightarrow> length (splice p d xs) = length xs"
  by (simp add: splice_def)

lemma splice_inside: "p + length d \<le> length xs \<Longrightarrow> splice p d xs = take p xs @ d @ drop (p + length d) xs"
  by (simp add: splice_def)

lemma write_out_appends:
  assumes "n \<le> length (buf s)" and "offset s + n \<le> room s" and "offset s = length (written s)"
  shows "write_out n s = Inr (int n, s\<lparr>written := written s @ take n (buf s), offset := offset s + n\<rparr>)"
  using assms by (auto simp: write_out_def)

lemma copy_block_appends:
  assumes fd: "fd_of s = Some (f, p)" "read_ok f" "p + unat l \<le> length (content f)" and l: "unat l \<le> 1024" "length (buf s) = 1024"
    and out: "offset s = length (written s)" "offset s + unat l \<le> room s"
  shows "\<exists>b. copy_block name l s = Inr ((), s\<lparr>buf := b, fd_of := Some (f, p + unat l),
      written := written s @ take (unat l) (drop p (content f)), offset := offset s + unat l\<rparr>) \<and> length b = 1024"
proof -
  let ?d = "take (unat l) (drop p (content f))" and ?s = "s\<lparr>buf := take (unat l) (drop p (content f)) @ drop (unat l) (buf s), fd_of := Some (f, p + unat l)\<rparr>"
  have len: "length ?d = unat l" using fd(3) by simp
  then have rd: "read_file (unat l) s = Inr (int (unat l), ?s)" using fd(1,2) by (simp add: read_file_def Let_def)
  have wr: "write_out (unat l) ?s = Inr (int (unat l), ?s\<lparr>written := written s @ ?d, offset := offset s + unat l\<rparr>)"
    using write_out_appends [of "unat l" ?s] len l out by simp
  show ?thesis by (rule exI [of _ "?d @ drop (unat l) (buf s)"]) (use len l in \<open>simp add: copy_block_def steps rd wr\<close>)
qed

lemma copy_rounds_appends:
  "fd_of s = Some (f, p) \<Longrightarrow> read_ok f \<Longrightarrow> p + unat sz \<le> length (content f) \<Longrightarrow> length (buf s) = 1024 \<Longrightarrow>
   offset s = length (written s) \<Longrightarrow> offset s + unat sz \<le> room s \<Longrightarrow>
   \<exists>b. copy_rounds name sz s = Inr ((), s\<lparr>buf := b, fd_of := Some (f, p + unat sz),
      written := written s @ take (unat sz) (drop p (content f)), offset := offset s + unat sz\<rparr>) \<and> length b = 1024"
proof (induction name sz s arbitrary: p rule: copy_rounds.induct)
  case (1 name sz s)
  show ?case
  proof (cases "0 < sz")
    case False
    then have "sz = 0" by (simp add: word_gt_0)
    then show ?thesis using 1(2,5) by (subst copy_rounds.simps) (auto intro!: exI [of _ "buf s"])
  next
    case True
    define l where "l = (if 1024 < sz then 1024 else sz)"
    have l: "unat l \<le> unat sz" "unat l \<le> 1024" by (auto simp: l_def word_less_nat_alt)
    then have rest: "unat (sz - l) = unat sz - unat l" by (simp add: unat_sub word_le_nat_alt)
    from 1(2-7) l copy_block_appends [of s f p l name] obtain b where
      b: "copy_block name l s = Inr ((), s\<lparr>buf := b, fd_of := Some (f, p + unat l),
        written := written s @ take (unat l) (drop p (content f)), offset := offset s + unat l\<rparr>)" (is "_ = Inr (_, ?s)") "length b = 1024" by auto
    have "fd_of ?s = Some (f, p + unat l)" "p + unat l + unat (sz - l) \<le> length (content f)" "offset ?s = length (written ?s)"
      "offset ?s + unat (sz - l) \<le> room ?s" using 1(4,6,7) l(1) by (simp_all add: rest)
    from 1(1) [OF True l_def b(1) refl this(1) 1(3) this(2) _ this(3,4)] b(2) obtain b' where
      b': "copy_rounds name (sz - l) ?s = Inr ((), ?s\<lparr>buf := b', fd_of := Some (f, p + unat l + unat (sz - l)),
        written := written ?s @ take (unat (sz - l)) (drop (p + unat l) (content f)), offset := offset ?s + unat (sz - l)\<rparr>)" "length b' = 1024" by auto
    have "take (unat l) (drop p (content f)) @ take (unat (sz - l)) (drop (p + unat l) (content f)) = take (unat sz) (drop p (content f))"
      using take_add [of "unat l" "unat (sz - l)" "drop p (content f)"] rest l(1) by (simp add: add.commute)
    with b' True b(1) l(1) show ?thesis
      by (subst copy_rounds.simps) (auto simp: Let_def l_def [symmetric] rest intro!: exI [of _ b'])
  qed
qed


text \<open>What the tool expects of its files, and of the output: an empty file with room for the image that can be positioned.\<close>

definition boot_file :: "byte list \<Rightarrow> byte list \<Rightarrow> bool" where
  "boot_file h b \<longleftrightarrow> length h = 32 \<and> take 8 h = minix_hdr \<and> le32 h 20 = 0 \<and> le32 h 12 = 0 \<and> le32 h 16 = 0 \<and> le32 h 28 = 0 \<and>
     length b = 512 \<and> b ! 510 = 0x55 \<and> b ! 511 = 0xAA"

definition whole :: "byte list \<Rightarrow> host_file" where
  "whole b = \<lparr>content = b, st_size = length b, stat_ok = True, read_ok = True\<rparr>"

definition fresh_output :: "nat \<Rightarrow> tool \<Rightarrow> bool" where
  "fresh_output n s \<longleftrightarrow> written s = [] \<and> offset s = 0 \<and> n \<le> room s \<and> seekable s \<and> length (buf s) = 1024"

lemma minix_open_Ok:
  assumes "files s name = Some f" "content f = h @ b" "read_ok f" and "boot_file h b" and "length (buf s) = 1024"
  shows "minix_open name s = Inr ((), s\<lparr>buf := h @ drop 32 (buf s), fd_of := Some (f, 32)\<rparr>)"
proof -
  have h: "length h = 32" "take 8 h = minix_hdr" "le32 h 20 = 0" "le32 h 12 = 0" "le32 h 16 = 0" "le32 h 28 = 0"
    using assms(4) by (simp_all add: boot_file_def)
  have "le32 (h @ drop 32 (buf s)) i = le32 h i" if "i + 4 \<le> 32" for i
    using that h(1) by (simp add: le32_def nth_append)
  with h show ?thesis using assms(1-3)
    by (simp add: minix_open_def steps open_file_def read_file_def MINIX_HEADER_LEN_def minix_hdr_def)
qed

lemma copy_boot_Ok:
  assumes "files s name = Some f" "content f = h @ b" "read_ok f" "boot_file h b" and out: "fresh_output n s" "512 \<le> n"
  shows "\<exists>b'. copy_boot name s = Inr ((), s\<lparr>buf := b', fd_of := None, written := b[508 := 0, 509 := 0], offset := 512,
    stderr_text := stderr_text s @ line ''Boot sector '' 512 '' Bytes.''\<rparr>) \<and> length b' = 1024"
proof -
  let ?s1 = "s\<lparr>buf := h @ drop 32 (buf s), fd_of := Some (f, 32)\<rparr>"
  have b: "length h = 32" "length b = 512" "b ! 510 = 0x55" "b ! 511 = 0xAA" using assms(4) by (simp_all add: boot_file_def)
  have o: "written s = []" "offset s = 0" "512 \<le> room s" "length (buf s) = 1024" using out by (simp_all add: fresh_output_def)
  let ?s2 = "?s1\<lparr>buf := b @ drop 512 (buf s), fd_of := Some (f, 544)\<rparr>"
  have rd: "read_file 1024 ?s1 = Inr (512, ?s2)" using assms(2,3) b(1,2) by (simp add: read_file_def Let_def)
  have wr: "write_out 512 s' = Inr (512, s'\<lparr>written := take 512 (buf s'), offset := 512\<rparr>)"
    if "length (buf s') = 1024" "written s' = []" "offset s' = 0" "512 \<le> room s'" for s'
    using write_out_appends [of 512 s'] that by simp
  have "take 512 ((b @ drop 512 (buf s))[508 := 0, 509 := 0]) = b[508 := 0, 509 := 0]" using b(2) by (simp add: list_update_append take_update_swap)
  then show ?thesis using b o
    by (intro exI [of _ "(b @ drop 512 (buf s))[508 := 0, 509 := 0]"])
      (simp add: copy_boot_def minix_open_Ok [OF assms(1-4)] steps rd wr nth_append)
qed


lemma copy_part_Ok:
  assumes "files s name = Some (whole b)" and "length b < 2 ^ 32" and "offset s = length (written s)" and "offset s + length b \<le> room s"
    and "length (buf s) = 1024"
  shows "\<exists>b'. copy_part before after name s = Inr (of_nat (length b), s\<lparr>buf := b', fd_of := None, written := written s @ b, offset := offset s + length b,
    stderr_text := stderr_text s @ line before (int (length b div 1024)) after\<rparr>) \<and> length b' = 1024"
proof -
  let ?sz = "of_nat (length b) :: dword" and ?t = "stderr_text s @ line before (int (length b div 1024)) after"
  let ?s = "s\<lparr>fd_of := Some (whole b, 0), stderr_text := ?t\<rparr>"
  have sz: "unat ?sz = length b" using assms(2) by (simp add: unat_of_nat)
  then have kb: "int (unat (?sz div 1024)) = int (length b div 1024)" by (simp add: unat_div)
  obtain b' where "copy_rounds name ?sz ?s = Inr ((), ?s\<lparr>buf := b', fd_of := Some (whole b, length b), written := written s @ b, offset := offset s + length b\<rparr>)"
    "length b' = 1024" using copy_rounds_appends [of ?s "whole b" 0 ?sz name] assms(3-5) sz by (auto simp: whole_def)
  then show ?thesis using assms(1) kb by (intro exI [of _ b']) (simp add: copy_part_def steps open_file_def file_size_def whole_def)
qed

lemma put_header_Ok:
  assumes "seekable s" and "length h \<le> length (buf s)" and "at + length h \<le> room s" and "at + length h \<le> length (written s)" and "h \<noteq> []"
  shows "put_header at h e s = Inr ((), s\<lparr>buf := h @ drop (length h) (buf s), written := splice at h (written s), offset := at + length h\<rparr>)"
  using assms by (simp add: put_header_def steps seek_out_def write_out_def)

text \<open>The image: boot sector, system and user program with the three lengths filled in.\<close>

definition image_of :: "byte list \<Rightarrow> byte list \<Rightarrow> byte list \<Rightarrow> byte list" where
  "image_of boot sys usr =
     (let p = of_nat ((length sys + length usr + 15) div 16) :: dword in
      take 500 boot @ [ucast p, ucast (drop_bit 8 p)] @ take 6 (drop 502 boot) @ [0, 0, 0x55, 0xAA] @
      size24 (of_nat (length sys)) @ size24 (of_nat (length usr)) @ [0x2B, 0x7E, 0, 0] @ drop 12 (sys @ usr))"


lemma low_byte: "ucast (v AND 0xFF :: dword) = (ucast v :: byte)"
proof (rule bit_word_eqI)
  have m: "(0xFF :: dword) = mask 8" by (simp add: mask_numeral)
  fix n assume "n < LENGTH(8)"
  then show "bit (ucast (v AND 0xFF :: dword) :: byte) n = bit (ucast v :: byte) n" unfolding m by (simp add: bit_simps)
qed

text \<open>The four fields that are filled in, in the order the tool writes them.\<close>

lemma headers_in_place:
  assumes "length b = 512" and "b ! 510 = x" "b ! 511 = y" and "length p = 2" "length u = 4" "length v = 4" "length w = 4" and "12 \<le> length r"
  shows "splice 520 w (splice 516 v (splice 512 u (splice 500 p (b[508 := 0, 509 := 0] @ r)))) =
    take 500 b @ p @ take 6 (drop 502 b) @ [0, 0, x, y] @ u @ v @ w @ drop 12 r"
proof -
  have b: "b[508 := 0, 509 := 0] = take 500 b @ take 2 (drop 500 b) @ take 6 (drop 502 b) @ [0, 0, x, y]"
  proof (rule nth_equalityI)
    fix i assume "i < length (b[508 := 0, 509 := 0])"
    then have i: "i < 512" using assms(1) by simp
    consider "i < 508" | "i = 508" | "i = 509" | "i = 510" | "i = 511" using i by linarith
    then show "b[508 := 0, 509 := 0] ! i = (take 500 b @ take 2 (drop 500 b) @ take 6 (drop 502 b) @ [0, 0, x, y]) ! i"
      by cases (use assms(1-3) in \<open>auto simp: nth_append nth_list_update\<close>)
  qed (simp add: assms(1))
  obtain r1 r2 r3 where r: "r = r1 @ r2 @ r3 @ drop 12 r" "length r1 = 4" "length r2 = 4" "length r3 = 4"
  proof (rule that [of "take 4 r" "take 4 (drop 4 r)" "take 4 (drop 8 r)"])
    have "drop 4 r = take 4 (drop 4 r) @ drop 8 r" "drop 8 r = take 4 (drop 8 r) @ drop 12 r"
      using append_take_drop_id [of 4 "drop 4 r"] append_take_drop_id [of 4 "drop 8 r"] by simp_all
    then show "r = take 4 r @ take 4 (drop 4 r) @ take 4 (drop 8 r) @ drop 12 r" by (metis append_take_drop_id)
  qed (use assms(8) in simp_all)
  have len: "length (take 500 b) = 500" "length (take 2 (drop 500 b)) = 2" "length (take 6 (drop 502 b)) = 6" using assms(1) by simp_all
  define A B C D where "A = take 500 b" and "B = take 2 (drop 500 b)" and "C = take 6 (drop 502 b)" and "D = drop 12 r"
  have "b[508 := 0, 509 := 0] @ r = A @ B @ C @ [0, 0, x, y] @ r1 @ r2 @ r3 @ D" unfolding b A_def B_def C_def D_def by (subst r(1)) simp
  moreover have "splice 500 p (A @ B @ C @ [0, 0, x, y] @ r1 @ r2 @ r3 @ D) = A @ p @ C @ [0, 0, x, y] @ r1 @ r2 @ r3 @ D"
    "splice 512 u (A @ p @ C @ [0, 0, x, y] @ r1 @ r2 @ r3 @ D) = A @ p @ C @ [0, 0, x, y] @ u @ r2 @ r3 @ D"
    "splice 516 v (A @ p @ C @ [0, 0, x, y] @ u @ r2 @ r3 @ D) = A @ p @ C @ [0, 0, x, y] @ u @ v @ r3 @ D"
    "splice 520 w (A @ p @ C @ [0, 0, x, y] @ u @ v @ r3 @ D) = A @ p @ C @ [0, 0, x, y] @ u @ v @ w @ D"
    using len assms(4-7) r(2-4) unfolding A_def [symmetric] B_def [symmetric] C_def [symmetric] by (simp_all add: splice_inside)
  ultimately show ?thesis by (simp add: A_def C_def D_def)
qed

lemma build_image_aux:
  assumes "files s boot = Some f" "content f = h @ b" "read_ok f" "boot_file h b"
    and "files s sys = Some (whole ks)" "files s usr = Some (whole us)" and "12 \<le> length ks" "length ks + length us < 2 ^ 31"
    and "fresh_output (512 + length ks + length us) s"
  shows "\<exists>s'. build [boot, sys, usr] s = Inr ((), s') \<and> written s' = image_of b ks us"
proof -
  from copy_boot_Ok [OF assms(1-4,9)] obtain b1 s1 where s1: "copy_boot boot s = Inr ((), s1)" "written s1 = b[508 := 0, 509 := 0]" "offset s1 = 512"
    "length (buf s1) = 1024" "files s1 = files s" "room s1 = room s" "seekable s1" using assms(9) by (auto simp: fresh_output_def)
  have b: "length b = 512" "b ! 510 = 0x55" "b ! 511 = 0xAA" using assms(4) by (simp_all add: boot_file_def)
  have room: "512 + length ks + length us \<le> room s" using assms(9) by (simp add: fresh_output_def)
  from copy_part_Ok [of s1 sys ks "''System is ''" "'' kB ''"] s1 b assms(5,8) room obtain s2 where
    s2: "copy_part ''System is '' '' kB '' sys s1 = Inr (of_nat (length ks), s2)" "written s2 = b[508 := 0, 509 := 0] @ ks" "offset s2 = 512 + length ks"
      "length (buf s2) = 1024" "files s2 = files s" "room s2 = room s" "seekable s2" by auto
  from copy_part_Ok [of s2 usr us "''User is ''" "'' kB''"] s2 b assms(6,8) room obtain s3 where
    s3: "copy_part ''User is '' '' kB'' usr s2 = Inr (of_nat (length us), s3)" "written s3 = (b[508 := 0, 509 := 0] @ ks) @ us" "length (buf s3) = 1024"
      "room s3 = room s" "seekable s3" by auto
  define m where "m = (of_nat (length ks) + of_nat (length us) + 15 :: dword) div 16"
  have m: "m = of_nat ((length ks + length us + 15) div 16)"
    unfolding m_def using assms(8) by (intro word_unat_eq_iff [THEN iffD2]) (simp add: unat_div unat_word_ariths unat_of_nat)
  let ?p = "[ucast (m AND 0xFF), ucast (drop_bit 8 m AND 0xFF)] :: byte list" and ?r = "ks @ us"
  let ?w0 = "b[508 := 0, 509 := 0] @ ?r"
  let ?w1 = "splice 500 ?p ?w0"
  let ?w2 = "splice 512 (size24 (of_nat (length ks))) ?w1"
  let ?w3 = "splice 516 (size24 (of_nat (length us))) ?w2"
  have 24: "length (size24 v) = 4" "size24 v \<noteq> []" for v by (simp_all add: size24_def)
  have len: "length ?w1 = 512 + length ?r" "length ?w2 = 512 + length ?r" "length ?w3 = 512 + length ?r"
    using b assms(7) by (simp_all add: length_splice 24)
  have last: "size24 0x7E2B = [0x2B, 0x7E, 0, 0]" by (simp add: size24_def)
  let ?t = "stderr_text s3 @ line ''Image is '' (sint (of_nat (length ks) + of_nat (length us) :: dword) sdiv 1024) '' kB''"
  let ?s4 = "s3\<lparr>stderr_text := ?t\<rparr>"
  obtain s4 where s4: "put_header 500 ?p Write_image_length ?s4 = Inr ((), s4)" "written s4 = ?w1" "room s4 = room s" "seekable s4" "length (buf s4) = 1024"
    using put_header_Ok [of ?s4 ?p 500] s3(2-5) b room by auto
  obtain s5 where s5: "put_header 512 (size24 (of_nat (length ks))) Write_system_length s4 = Inr ((), s5)" "written s5 = ?w2" "room s5 = room s" "seekable s5" "length (buf s5) = 1024"
    using put_header_Ok [of s4 "size24 (of_nat (length ks))" 512] s4(2-5) len assms(7) room 24 by auto
  obtain s6 where s6: "put_header 516 (size24 (of_nat (length us))) Write_user_length s5 = Inr ((), s6)" "written s6 = ?w3" "room s6 = room s" "seekable s6" "length (buf s6) = 1024"
    using put_header_Ok [of s5 "size24 (of_nat (length us))" 516] s5(2-5) len assms(7) room 24 by auto
  obtain s7 where s7: "put_header 520 (size24 0x7E2B) Write_user_length s6 = Inr ((), s7)" "written s7 = splice 520 (size24 0x7E2B) ?w3"
    using put_header_Ok [of s6 "size24 0x7E2B" 520] s6(2-5) len assms(7) room 24 by auto
  have "build [boot, sys, usr] s = Inr ((), s7)"
    using s1(1) s2(1) s3(1) s4(1) s5(1) s6(1) s7(1) by (simp add: andthen_def report_def update_def Let_def m_def)
  moreover have "written s7 = image_of b ks us"
    unfolding s7(2) using headers_in_place [OF b, of ?p "size24 (of_nat (length ks))" "size24 (of_nat (length us))" "size24 0x7E2B" ?r] assms(7)
    by (simp add: 24 last image_of_def Let_def low_byte m [symmetric])
  ultimately show ?thesis by blast
qed


text \<open>What never changes: the files of the host, the kind of output and the size of the buffer.\<close>

definition same_host :: "tool \<Rightarrow> tool \<Rightarrow> bool" where
  "same_host s s' \<longleftrightarrow> files s' = files s \<and> seekable s' = seekable s \<and> length (buf s') = length (buf s)"

lemma same_host_trans: "same_host s t \<Longrightarrow> same_host t u \<Longrightarrow> same_host s u"
  by (simp add: same_host_def)

lemma andthen_Inr: "andthen f g s = Inr r \<longleftrightarrow> (\<exists>x t. f s = Inr (x, t) \<and> g x t = Inr r)"
  by (auto simp: andthen_def split: sum.splits)

lemma check_Inr: "check ok e s = Inr (u, t) \<longleftrightarrow> ok \<and> t = s"
  by (auto simp: check_def unit_step_def die_def)

lemma update_Inr: "update f s = Inr (u, t) \<longleftrightarrow> t = f s"
  by (auto simp: update_def)

lemma read_file_Inr:
  "read_file n s = Inr (i, t) \<Longrightarrow> n \<le> length (buf s) \<Longrightarrow> same_host s t"
  "read_file n s = Inr (i, t) \<Longrightarrow> fd_of s = Some (f, p) \<Longrightarrow> 0 \<le> i \<Longrightarrow> buf t = take n (drop p (content f)) @ drop (nat i) (buf s) \<and>
     i = int (length (take n (drop p (content f)))) \<and> fd_of t = Some (f, p + nat i)"
  by (auto simp: read_file_def same_host_def Let_def split: option.splits if_splits)

lemma write_out_Inr: "write_out n s = Inr (i, t) \<Longrightarrow> same_host s t \<and> fd_of t = fd_of s"
  by (auto simp: write_out_def same_host_def Let_def)

lemma copy_boot_Inr:
  assumes "copy_boot name s = Inr (u, t)" and "length (buf s) = 1024"
  shows "same_host s t \<and> (\<exists>f. files s name = Some f \<and> boot_file (take 32 (content f)) (drop 32 (content f)))"
proof -
  obtain f where f: "files s name = Some f" using assms(1) by (auto simp: copy_boot_def minix_open_def andthen_Inr open_file_def die_def split: option.splits)
  let ?s1 = "s\<lparr>fd_of := Some (f, 0)\<rparr>"
  from assms(1) f obtain s2 i s3 where s2: "read_file 32 ?s1 = Inr (32, s2)" and hdr: "take 8 (buf s2) = minix_hdr" "le32 (buf s2) 20 = 0" "le32 (buf s2) 12 = 0"
      "le32 (buf s2) 16 = 0" "le32 (buf s2) 28 = 0"
    and s3: "read_file 1024 s2 = Inr (512, s3)" and flag: "buf s3 ! 510 = 0x55" "buf s3 ! 511 = 0xAA"
    and rest: "same_host s3 t"
    by (auto simp: copy_boot_def minix_open_def andthen_Inr check_Inr open_file_def update_Inr report_def set_buf_def close_file_def MINIX_HEADER_LEN_def
        same_host_def dest!: write_out_Inr)
  from read_file_Inr(2) [OF s2, of f 0] have b2: "buf s2 = take 32 (content f) @ drop 32 (buf s)" "length (take 32 (content f)) = 32" "fd_of s2 = Some (f, 32)" by auto
  from read_file_Inr(2) [OF s3 b2(3)] have b3: "buf s3 = take 1024 (drop 32 (content f)) @ drop 512 (buf s2)" "length (take 1024 (drop 32 (content f))) = 512" by auto
  then have l: "length (content f) = 544" by simp
  have "boot_file (take 32 (content f)) (drop 32 (content f))"
    unfolding boot_file_def using hdr b2(1,2) flag b3(1) l by (simp add: le32_def nth_append)
  moreover have "same_host s s2" "same_host s2 s3" using read_file_Inr(1) [OF s2] read_file_Inr(1) [OF s3] assms(2) b2(1,2) by (simp_all add: same_host_def)
  ultimately show ?thesis using rest f same_host_trans by blast
qed

lemma copy_rounds_Inr:
  "copy_rounds name sz s = Inr (u, t) \<Longrightarrow> fd_of s = Some (f, p) \<Longrightarrow> length (buf s) = 1024 \<Longrightarrow>
    same_host s t \<and> (0 < sz \<longrightarrow> p + unat sz \<le> length (content f))"
proof (induction name sz s arbitrary: p rule: copy_rounds.induct)
  case (1 name sz s)
  show ?case
  proof (cases "0 < sz")
    case False
    then show ?thesis using 1(2) by (subst (asm) copy_rounds.simps) (simp add: same_host_def)
  next
    case True
    define l where "l = (if 1024 < sz then 1024 else sz)"
    have l: "unat l \<le> unat sz" "unat l \<le> 1024" by (auto simp: l_def word_less_nat_alt)
    then have rest: "unat (sz - l) = unat sz - unat l" by (simp add: unat_sub word_le_nat_alt)
    obtain s1 where s1: "copy_block name l s = Inr ((), s1)" "copy_rounds name (sz - l) s1 = Inr (u, t)"
      using 1(2) True by (subst (asm) copy_rounds.simps) (auto simp: Let_def l_def [symmetric] split: sum.splits)
    from s1(1) obtain s0 where s0: "read_file (unat l) s = Inr (int (unat l), s0)" and w: "same_host s0 s1" "fd_of s1 = fd_of s0"
      by (auto simp: copy_block_def andthen_Inr check_Inr dest!: write_out_Inr)
    note rd = read_file_Inr(2) [OF s0 1(3) of_nat_0_le_iff]
    from rd have "int (unat l) = int (length (take (unat l) (drop p (content f))))" by blast
    then have "length (take (unat l) (drop p (content f))) = unat l" by (simp only: of_nat_eq_iff)
    with rd have e: "fd_of s0 = Some (f, p + unat l)" "length (take (unat l) (drop p (content f))) = unat l" by simp_all
    have h: "same_host s s1" using read_file_Inr(1) [OF s0] l 1(4) w(1) by (simp add: same_host_def)
    then have "length (buf s1) = 1024" using 1(4) by (simp add: same_host_def)
    from 1(1) [OF True l_def s1(1) refl s1(2) _ this, of "p + unat l"] e(1) w(2)
    have i: "same_host s1 t" "0 < sz - l \<Longrightarrow> p + unat l + unat (sz - l) \<le> length (content f)" by simp_all
    have "p + unat sz \<le> length (content f)"
    proof (cases "0 < sz - l")
      case True then show ?thesis using i(2) rest l(1) by simp
    next
      case False
      then have "unat l = unat sz" using rest l(1) by (simp add: word_gt_0)
      moreover have "0 < unat sz" using \<open>0 < sz\<close> by (simp add: word_less_nat_alt)
      ultimately show ?thesis using e(2) by auto
    qed
    then show ?thesis using h i(1) same_host_trans by blast
  qed
qed

lemma copy_part_Inr:
  assumes "copy_part before after name s = Inr (z, t)" and "length (buf s) = 1024"
  shows "same_host s t \<and> (\<exists>f. files s name = Some f \<and> stat_ok f \<and> z = of_nat (st_size f) \<and> unat z \<le> length (content f))"
proof -
  obtain f where f: "files s name = Some f" "stat_ok f" "z = of_nat (st_size f)"
    using assms(1) by (auto simp: copy_part_def andthen_Inr open_file_def file_size_def unit_step_def die_def split: option.splits if_splits)
  let ?s = "s\<lparr>fd_of := Some (f, 0), stderr_text := stderr_text s @ line before (int (unat (z div 1024))) after\<rparr>"
  obtain t1 where t1: "copy_rounds name z ?s = Inr ((), t1)" "t = t1\<lparr>fd_of := None\<rparr>"
    using assms(1) f by (auto simp: copy_part_def andthen_Inr open_file_def file_size_def unit_step_def report_def update_Inr close_file_def)
  from copy_rounds_Inr [OF t1(1), of f 0] assms(2) have "same_host ?s t1" "0 < z \<longrightarrow> unat z \<le> length (content f)" by simp_all
  then show ?thesis using f t1(2) by (cases "z = 0") (auto simp: same_host_def word_gt_0)
qed

lemma put_header_Inr: "put_header at b e s = Inr r \<Longrightarrow> seekable s"
  by (auto simp: put_header_def andthen_Inr update_Inr check_Inr seek_out_def split: if_splits)


text \<open>
  \<open>build\<close> ends well only with three arguments, a boot file that has the Minix header without data,
  bss and symbols and exactly one sector with the boot flag behind it, files that hold at least
  the bytes \<open>fstat\<close> announced (modulo the 32 bits of the counter), and an output that can be positioned.
\<close>

lemma build_accepts:
  assumes "build args s = Inr (u, s')" and "length (buf s) = 1024"
  shows "\<exists>boot sys usr f g k. args = [boot, sys, usr] \<and> files s boot = Some f \<and> boot_file (take 32 (content f)) (drop 32 (content f)) \<and>
    files s sys = Some g \<and> st_size g mod 2 ^ 32 \<le> length (content g) \<and> files s usr = Some k \<and> st_size k mod 2 ^ 32 \<le> length (content k) \<and> seekable s"
proof -
  obtain boot sys usr where args: "args = [boot, sys, usr]"
    using assms(1) by (cases args rule: build.cases) (auto simp: die_def)
  from assms(1)[unfolded args] obtain s1 x s2 y s3 where
    s1: "copy_boot boot s = Inr ((), s1)" and s2: "copy_part ''System is '' '' kB '' sys s1 = Inr (x, s2)" and s3: "copy_part ''User is '' '' kB'' usr s2 = Inr (y, s3)"
    and t: "seekable s3"
    by (fastforce simp: andthen_Inr Let_def report_def update_Inr dest!: put_header_Inr)
  from copy_boot_Inr [OF s1 assms(2)] obtain f where f: "files s boot = Some f" "boot_file (take 32 (content f)) (drop 32 (content f))" and h1: "same_host s s1" by blast
  then have "length (buf s1) = 1024" using assms(2) by (simp add: same_host_def)
  from copy_part_Inr [OF s2 this] obtain g where g: "files s1 sys = Some g" "unat (of_nat (st_size g) :: dword) \<le> length (content g)" and h2: "same_host s1 s2" by blast
  have "length (buf s2) = 1024" using h1 h2 assms(2) by (simp add: same_host_def)
  from copy_part_Inr [OF s3 this] obtain k where k: "files s2 usr = Some k" "unat (of_nat (st_size k) :: dword) \<le> length (content k)" and h3: "same_host s2 s3" by blast
  then show ?thesis using args f g k h1 h2 t by (auto simp: same_host_def unat_of_nat)
qed

text \<open>A boot sector that is zero but for the flag, a system of 12 bytes and a program of 3.\<close>

definition demo_tool :: tool where
  "demo_tool = \<lparr>files = (\<lambda>n. if n = ''b'' then Some (whole ((minix_hdr @ replicate 24 0) @ replicate 510 0 @ [0x55, 0xAA]))
       else if n = ''s'' then Some (whole (replicate 12 7)) else if n = ''u'' then Some (whole [1, 2, 3]) else None),
     buf = replicate 1024 0, fd_of = None, written = [], offset = 0, seekable = True, room = 2048, stderr_text = [], errno_text = []\<rparr>"

lemma demo_inputs:
  "files demo_tool ''b'' = Some (whole ((minix_hdr @ replicate 24 0) @ replicate 510 0 @ [0x55, 0xAA]))"
  "files demo_tool ''s'' = Some (whole (replicate 12 7))" "files demo_tool ''u'' = Some (whole [1, 2, 3])"
  "fresh_output (512 + 12 + 3) demo_tool" "boot_file (minix_hdr @ replicate 24 0) (replicate 510 0 @ [0x55, 0xAA])"
  by (simp_all add: demo_tool_def fresh_output_def boot_file_def minix_hdr_def le32_def nth_append)


end
