(* ===== verification/System_Start.thy ===== *)
theory System_Start
  imports System_Calls Kernel_Segments Boot_Image
begin

text \<open>
  The start of the system (\<open>main\<close> of zeos_full/system.c), from the image that build.c made to the first
  instruction of the user program. The state \<open>'d computer\<close> joins the hardware, the memory, the
  kernel with its files, and the disks. The memory is the one the kernel sees: below 0x100000 it is the physical memory, and behind
  \<open>init_task1\<close> the addresses from 0x100000 on are the pages of process 1, which that function maps to frames of
  their own. The boot loader (bootsect.S) is the predicate \<open>loaded\<close>.
\<close>


section \<open>State\<close>

record 'd computer =
  hard :: hardware
  ram :: memory
  sysm :: "'d system"
  disks :: ide_state

definition KERNEL_START :: dword where "KERNEL_START = 0x10000"
definition PH_USER_START :: dword where "PH_USER_START = 0x100000"

definition get_dword :: "memory \<Rightarrow> dword \<Rightarrow> dword" where
  "get_dword m a = ucast (m a) OR push_bit 8 (ucast (m (a + 1))) OR push_bit 16 (ucast (m (a + 2))) OR push_bit 24 (ucast (m (a + 3)))"

text \<open>\<open>*p_sys_size\<close>, \<open>*p_usr_size\<close> and \<open>*p_rdtr\<close>, the words the tool put in front of the system\<close>

definition p_sys_size :: dword where "p_sys_size = KERNEL_START"
definition p_usr_size :: dword where "p_usr_size = KERNEL_START + 4"
definition p_rdtr :: dword where "p_rdtr = KERNEL_START + 8"

section \<open>Code\<close>

text \<open>A page that is not present in the current directory faults: the kernel has no way to go on.\<close>

definition mapped :: "kernel \<Rightarrow> dword \<Rightarrow> bool" where
  "mapped k a \<longleftrightarrow> (case cr3 k of None \<Rightarrow> False | Some d \<Rightarrow>
     unat (drop_bit 12 a) < TOTAL_PAGES \<and> pte_present (pagusr_table k ! d ! unat (drop_bit 12 a)))"

definition copy_mapped :: "kernel \<Rightarrow> dword \<Rightarrow> dword \<Rightarrow> int \<Rightarrow> memory \<Rightarrow> memory res" where
  "copy_mapped k start dest len m =
     (if \<forall>i < nat len. mapped k (start + of_nat i) \<and> mapped k (dest + of_nat i) then Ok (copy_data start dest len m) else Fault OutOfBounds)"

definition on_hard :: "(hardware \<Rightarrow> hardware res) \<Rightarrow> 'd computer \<Rightarrow> 'd computer res" where
  "on_hard f c = bind (f (hard c)) (\<lambda>h. Ok (c\<lparr>hard := h\<rparr>))"

definition on_proc :: "(cpu \<Rightarrow> cpu) \<Rightarrow> 'd computer \<Rightarrow> 'd computer" where
  "on_proc f c = c\<lparr>hard := (hard c)\<lparr>proc := f (proc (hard c))\<rparr>\<rparr>"

definition at_kernel :: "(kernel \<Rightarrow> kernel res) \<Rightarrow> 'd computer \<Rightarrow> 'd computer res" where
  "at_kernel f c = bind (f (kern (sysm c))) (\<lambda>k. Ok (c\<lparr>sysm := (sysm c)\<lparr>kern := k\<rparr>\<rparr>))"

definition on_fs :: "('d fs \<Rightarrow> 'd fs res) \<Rightarrow> 'd computer \<Rightarrow> 'd computer res" where
  "on_fs f c = bind (f (fsys (sysm c))) (\<lambda>s. Ok (c\<lparr>sysm := (sysm c)\<lparr>fsys := s\<rparr>\<rparr>))"

definition print :: "string \<Rightarrow> 'd computer \<Rightarrow> 'd computer res" where
  "print s = on_fs (\<lambda>f. Ok (printk (chars s) f))"

text \<open>
  The directory and the stack of the current process, which the functions of the kernel set as
  \<open>cr3\<close> and \<open>tss_esp0\<close>, in the register and in the task state segment.
\<close>

definition load_space :: "symbols \<Rightarrow> 'd computer \<Rightarrow> 'd computer" where
  "load_space y c = on_proc (set_cr3 (case cr3 (kern (sysm c)) of None \<Rightarrow> 0 | Some d \<Rightarrow> dir_at y d)) c"

definition load_esp0 :: "symbols \<Rightarrow> 'd computer \<Rightarrow> 'd computer" where
  "load_esp0 y c = c\<lparr>hard := (hard c)\<lparr>tss_of := (tss_of (hard c))\<lparr>t_esp0 := KERNEL_ESP y (tss_esp0 (kern (sysm c)))\<rparr>\<rparr>\<rparr>"

definition start_disks :: "'d ports \<Rightarrow> 'd computer \<Rightarrow> 'd computer res" where
  "start_disks P c = bind (ideinit P (disks c) (device (fsys (sysm c)))) (\<lambda>(_, i, d).
     Ok (c\<lparr>disks := i, sysm := (sysm c)\<lparr>fsys := (fsys (sysm c))\<lparr>device := d\<rparr>\<rparr>\<rparr>))"

definition move_user :: "'d computer \<Rightarrow> 'd computer res" where
  "move_user c =
     bind (copy_mapped (kern (sysm c)) (KERNEL_START + get_dword (ram c) p_sys_size) PH_USER_START (sint (get_dword (ram c) p_usr_size)) (ram c)) (\<lambda>m.
     Ok (c\<lparr>ram := m\<rparr>))"

definition enter_user :: "'d computer \<Rightarrow> 'd computer res" where
  "enter_user c =
     bind (return_gate USER_DS USER_DS USER_ESP USER_CS L_USER_START (get_dword (ram c) p_rdtr) (hard c, ram c)) (\<lambda>(h, m).
     Ok (c\<lparr>hard := h, ram := m, sysm := (sysm c)\<lparr>kern := (kern (sysm c))\<lparr>cur := tss_esp0 (kern (sysm c))\<rparr>\<rparr>\<rparr>))"

definition load_tables :: "symbols \<Rightarrow> 'd computer \<Rightarrow> 'd computer res" where
  "load_tables y c =
     bind (print ''Kernel Loaded!    '' (on_proc (set_seg_regs KERNEL_DS KERNEL_DS (task_at y 4)) (on_proc set_eflags c))) (\<lambda>c.
     on_hard (set_tables y) c)"

definition start_memory :: "symbols \<Rightarrow> 'd computer \<Rightarrow> 'd computer res" where
  "start_memory y c = bind (at_kernel init_mm c) (\<lambda>c. Ok (on_proc set_pe_flag (load_space y c)))"

definition start_processes :: "symbols \<Rightarrow> 'd computer \<Rightarrow> 'd computer res" where
  "start_processes y c =
     bind (at_kernel init_sched c) (\<lambda>c. bind (at_kernel init_idle c) (\<lambda>c. bind (at_kernel init_task1 c) (\<lambda>c. Ok (load_esp0 y (load_space y c)))))"

definition start_files :: "'d ports \<Rightarrow> 'd computer \<Rightarrow> 'd computer res" where
  "start_files P c =
     bind (on_fs (initializeFAT (ide_blockdev P)) c) (\<lambda>c. bind (init_open_file_table (sysm c)) (\<lambda>s. Ok (c\<lparr>sysm := s\<rparr>)))"

definition start_program :: "'d computer \<Rightarrow> 'd computer res" where
  "start_program c =
     bind (move_user c) (\<lambda>c. bind (print (''Entering user mode...'' @ [CHR 0x0A]) c) (\<lambda>c. enter_user (on_proc enable_int c)))"

definition main :: "symbols \<Rightarrow> 'd ports \<Rightarrow> 'd computer \<Rightarrow> 'd computer res" where
  "main y P c =
     bind (load_tables y c) (\<lambda>c. bind (start_memory y c) (\<lambda>c. bind (start_disks P c) (\<lambda>c.
     bind (start_processes y c) (\<lambda>c. bind (start_files P c) start_program))))"

section \<open>The phases\<close>

lemma fresh_proc: "fresh_hardware (h\<lparr>proc := p\<rparr>) = fresh_hardware h"
  by (simp add: fresh_hardware_def)

lemma load_tables_Ok:
  assumes "fresh_hardware (hard c)" and "r_cs (proc (hard c)) = KERNEL_CS" and "r_cr0 (proc (hard c)) = 1"
  obtains h where "load_tables y c = Ok (c\<lparr>hard := h, sysm := (sysm c)\<lparr>fsys := printk (chars ''Kernel Loaded!    '') (fsys (sysm c))\<rparr>\<rparr>)"
    and "gdt h = boot_gdt[6 := linked_tss y]" and "tss_of h = first_tss y" and "entered y (idt h)"
    and "r_cs (proc h) = KERNEL_CS" "r_fs (proc h) = KERNEL_DS" "r_gs (proc h) = KERNEL_DS" "r_tr (proc h) = KERNEL_TSS" "r_eflags (proc h) = 2" "r_cr0 (proc h) = 1"
proof -
  let ?p = "set_seg_regs KERNEL_DS KERNEL_DS (task_at y 4) (set_eflags (proc (hard c)))"
  have "fresh_hardware ((hard c)\<lparr>proc := ?p\<rparr>)" using assms(1) by (simp add: fresh_proc)
  then obtain h where h: "set_tables y ((hard c)\<lparr>proc := ?p\<rparr>) = Ok h" "gdt h = boot_gdt[6 := linked_tss y]" "tss_of h = first_tss y"
    "proc h = (proc ((hard c)\<lparr>proc := ?p\<rparr>))\<lparr>r_gdtr := boot_gdtr, r_idtr := \<lparr>reg_limit = 2047, reg_base = idt_at y\<rparr>, r_tr := KERNEL_TSS\<rparr>"
    "length (idt h) = 256" "entered y (idt h)" by (rule set_tables_Ok [of _ y])
  have "(2 :: dword) AND NOT 0x400 = 2" by simp
  with h assms(2,3) show thesis
    by (intro that [of h]) (simp_all add: load_tables_def print_def on_fs_def on_hard_def on_proc_def set_seg_regs_def set_eflags_def)
qed

text \<open>The kernel's part of the phases is \<open>boot\<close>.\<close>

lemma boot_phases:
  assumes "blank k"
  obtains k1 k2 k3 k4 where "init_mm k = Ok k1" "init_sched k1 = Ok k2" "init_idle k2 = Ok k3" "init_task1 k3 = Ok k4"
    "boot k = Ok (k4\<lparr>cur := 8\<rparr>)" "tss_esp0 k4 = 8" "user_mapped k4" "kernel_inv (k4\<lparr>cur := 8\<rparr>)" "PID (task k4 ! 8) = 1"
proof -
  from boot_Ok [OF assms] obtain k' where k': "boot k = Ok k'" "sound k' (boot_queues 8)" "cur k' = 8" "PID (task k' ! 8) = 1" "user_mapped k'" by blast
  then obtain k1 k2 k3 k4 where k: "init_mm k = Ok k1" "init_sched k1 = Ok k2" "init_idle k2 = Ok k3" "init_task1 k3 = Ok k4" "k' = k4\<lparr>cur := tss_esp0 k4\<rparr>"
    by (auto simp: boot_def)
  have e: "tss_esp0 k4 = 8" using k'(3) k(5) by simp
  show thesis
    by (rule that [OF k(1-4)]) (use k' k(5) e in \<open>auto simp: user_mapped_def kernel_inv_def\<close>)
qed

lemma init_open_file_table_Ok:
  assumes "length (open_file_table s) = OPEN_FILE_TABLE_SIZE"
  shows "init_open_file_table s = Ok (s\<lparr>open_file_table := replicate OPEN_FILE_TABLE_SIZE \<lparr>startCluster = 0, openCount = 0, access_offset = 0, permissions = -1\<rparr>\<rparr>)"
proof -
  let ?e = "\<lparr>startCluster = 0, openCount = 0, access_offset = 0, permissions = -1\<rparr> :: open_file_table_entry"
  let ?body = "\<lambda>i ft. bind (aput ft i ?e) (\<lambda>ft. Ok (Inl ft))"
  define after where "after = (\<lambda>n. replicate n ?e @ drop n (open_file_table s))"
  have "\<exists>t. for_each [0..<OPEN_FILE_TABLE_SIZE] ?body (open_file_table s) = (Ok (Inl t) :: (open_file_table_entry list + open_file_table_entry list) res) \<and> t = after OPEN_FILE_TABLE_SIZE"
  proof (rule for_upto_rule)
    show "open_file_table s = after 0" by (simp add: after_def)
  next
    fix i t assume i: "i < OPEN_FILE_TABLE_SIZE" and t: "t = after i"
    have "(replicate i ?e @ drop i (open_file_table s))[i := ?e] = replicate (Suc i) ?e @ drop (Suc i) (open_file_table s)"
      using i assms by (simp add: list_update_append replicate_append_same [symmetric] Cons_nth_drop_Suc [symmetric])
    then show "\<exists>t'. ?body i t = (Ok (Inl t') :: (open_file_table_entry list + open_file_table_entry list) res) \<and> t' = after (Suc i)"
      using i assms by (simp add: t after_def)
  qed
  with assms show ?thesis by (simp add: init_open_file_table_def after_def)
qed


section \<open>The image in memory\<close>

text \<open>What the boot loader does: the image without its first sector from 0x10000 on.\<close>

definition loaded :: "byte list \<Rightarrow> 'd computer \<Rightarrow> bool" where
  "loaded img c \<longleftrightarrow> (\<forall>i < length img - 512. ram c (KERNEL_START + of_nat i) = img ! (512 + i))"

lemma size24_join:
  "ucast (ucast (v AND 0xFF :: dword) :: byte) OR push_bit 8 (ucast (ucast (drop_bit 8 v AND 0xFF) :: byte)) OR
     push_bit 16 (ucast (ucast (drop_bit 16 v AND 0xFF) :: byte)) = take_bit 24 v"
proof (rule bit_word_eqI)
  have m: "(0xFF :: dword) = mask 8" by (simp add: mask_numeral)
  fix n assume "n < LENGTH(32)"
  then consider "n < 8" | "8 \<le> n \<and> n < 16" | "16 \<le> n \<and> n < 24" | "24 \<le> n \<and> n < 32" by fastforce
  then show "bit (ucast (ucast (v AND 0xFF :: dword) :: byte) OR push_bit 8 (ucast (ucast (drop_bit 8 v AND 0xFF) :: byte)) OR
     push_bit 16 (ucast (ucast (drop_bit 16 v AND 0xFF) :: byte)) :: dword) n = bit (take_bit 24 v) n"
    unfolding m by cases (auto simp: bit_simps)
qed

lemma take_bit_size: "n < 2 ^ 24 \<Longrightarrow> take_bit 24 (of_nat n :: dword) = of_nat n"
  by (simp add: word_unat_eq_iff unsigned_take_bit_eq take_bit_nat_eq_self unat_of_nat)

lemma image_behind_sector:
  "length b = 512 \<Longrightarrow> drop 512 (image_of b ks us) =
     size24 (of_nat (length ks)) @ size24 (of_nat (length us)) @ [0x2B, 0x7E, 0, 0] @ drop 12 (ks @ us)"
  by (simp add: image_of_def Let_def)

lemma loaded_image:
  assumes "loaded (image_of b ks us) c" and "length b = 512" and "12 \<le> length ks" "length ks < 2 ^ 24" "length us < 2 ^ 24"
  shows "get_dword (ram c) p_sys_size = of_nat (length ks)" and "get_dword (ram c) p_usr_size = of_nat (length us)"
    and "get_dword (ram c) p_rdtr = 0x7E2B" and "\<forall>i < length us. ram c (KERNEL_START + of_nat (length ks) + of_nat i) = us ! i"
proof -
  let ?body = "size24 (of_nat (length ks)) @ size24 (of_nat (length us)) @ [0x2B, 0x7E, 0, 0] @ drop 12 (ks @ us)"
  have len: "length (size24 v) = 4" for v by (simp add: size24_def)
  then have "length ?body = length ks + length us" using assms(3) by simp
  moreover have "length (drop 512 (image_of b ks us)) = length ?body" unfolding image_behind_sector [OF assms(2)] ..
  ultimately have n: "length (image_of b ks us) - 512 = length ks + length us" by simp
  have at: "ram c (KERNEL_START + of_nat i) = ?body ! i" if "i < length ks + length us" for i
  proof -
    have "ram c (KERNEL_START + of_nat i) = image_of b ks us ! (512 + i)" using assms(1) that by (simp add: loaded_def n)
    also have "\<dots> = drop 512 (image_of b ks us) ! i" using n that by (intro nth_drop [symmetric]) simp
    finally show ?thesis unfolding image_behind_sector [OF assms(2)] .
  qed
  have w: "ram c (KERNEL_START + of_nat i) = ?body ! i" if "i < 12" for i using at [of i] that assms(3) by simp
  show "get_dword (ram c) p_sys_size = of_nat (length ks)"
    using w [of 0] w [of 1] w [of 2] w [of 3] size24_join [of "of_nat (length ks)"] take_bit_size [OF assms(4)]
    by (simp add: get_dword_def p_sys_size_def size24_def)
  show "get_dword (ram c) p_usr_size = of_nat (length us)"
    using w [of 4] w [of 5] w [of 6] w [of 7] size24_join [of "of_nat (length us)"] take_bit_size [OF assms(5)]
    by (simp add: get_dword_def p_usr_size_def size24_def add.assoc)
  show "get_dword (ram c) p_rdtr = 0x7E2B"
    using w [of 8] w [of 9] w [of 10] w [of 11] by (simp add: get_dword_def p_rdtr_def size24_def add.assoc)
  show "\<forall>i < length us. ram c (KERNEL_START + of_nat (length ks) + of_nat i) = us ! i"
  proof (intro allI impI)
    fix i assume i: "i < length us"
    have "ram c (KERNEL_START + of_nat (length ks) + of_nat i) = ?body ! (length ks + i)" using at [of "length ks + i"] i by (simp add: add.assoc)
    also have "?body ! (length ks + i) = ((size24 (of_nat (length ks)) @ size24 (of_nat (length us)) @ [0x2B, 0x7E, 0, 0]) @ drop 12 (ks @ us)) !
        (length (size24 (of_nat (length ks)) @ size24 (of_nat (length us)) @ [0x2B, 0x7E, 0, 0]) + (length ks + i - 12))"
      using assms(3) by (simp add: len del: nth_append_length_plus)
    also have "\<dots> = drop 12 (ks @ us) ! (length ks + i - 12)" by (rule nth_append_length_plus)
    also have "\<dots> = (ks @ us) ! (length ks + i)" using assms(3) i by (subst nth_drop) simp_all
    also have "\<dots> = us ! i" by simp
    finally show "ram c (KERNEL_START + of_nat (length ks) + of_nat i) = us ! i" .
  qed
qed

lemma mapped_range:
  assumes "user_mapped k" and "0x1000 \<le> unat a" "unat a < 0x11C000"
  shows "mapped k a"
proof -
  obtain d where d: "cr3 k = Some d" "\<forall>p. 1 \<le> p \<and> p < PAG_LOG_INIT_DATA + NUM_PAG_DATA \<longrightarrow> pte_present (pagusr_table k ! d ! p)"
    using assms(1) by (auto simp: user_mapped_def)
  have "unat (drop_bit 12 a) = unat a div 4096" by (simp add: unat_drop_bit)
  then have "1 \<le> unat (drop_bit 12 a)" "unat (drop_bit 12 a) < 284" using assms(2,3) by (simp_all add: less_eq_div_iff_mult_less_eq div_less_iff_less_mult)
  then show ?thesis using d by (simp add: mapped_def kernel_sizes)
qed

lemma move_user_Ok:
  assumes "user_mapped (kern (sysm c))" and "get_dword (ram c) p_sys_size = of_nat ns" "get_dword (ram c) p_usr_size = of_nat nu"
    and "0x10000 + ns + nu \<le> 0x100000" and "nu \<le> 0x1C000"
  obtains m where "move_user c = Ok (c\<lparr>ram := m\<rparr>)" and "\<forall>i < nu. m (PH_USER_START + of_nat i) = ram c (KERNEL_START + of_nat ns + of_nat i)"
    and "\<forall>a. unat a < 0x100000 \<or> 0x100000 + nu \<le> unat a \<longrightarrow> m a = ram c a"
proof -
  let ?p = "KERNEL_START + of_nat ns" and ?q = PH_USER_START
  have src: "unat (?p + of_nat i) = 0x10000 + ns + i" if "i < nu" for i
    using that assms(4) by (simp add: KERNEL_START_def unat_word_ariths unat_of_nat)
  have dst: "unat (?q + of_nat i) = 0x100000 + i" if "i < nu" for i
    using that assms(4) by (simp add: PH_USER_START_def unat_word_ariths unat_of_nat)
  have "?p + of_nat i \<noteq> ?q + of_nat j" if "i < nu" "j < nu" for i j
  proof
    assume "?p + of_nat i = ?q + of_nat j"
    then have "0x10000 + ns + i = 0x100000 + j" using src [OF that(1)] dst [OF that(2)] by simp
    with that assms(4) show False by linarith
  qed
  then have apart: "apart ?p ?q nu" by (auto simp: apart_def)
  have n: "nu < 2 ^ 31" "nu < 2 ^ 32" using assms(5) by simp_all
  then have s: "sint (of_nat nu :: dword) = int nu" by (intro sint_of_nat_small)
  have "mapped (kern (sysm c)) (?p + of_nat i) \<and> mapped (kern (sysm c)) (?q + of_nat i)" if "i < nu" for i
    using that assms(4,5) src [OF that] dst [OF that] by (intro conjI mapped_range [OF assms(1)]) simp_all
  then have "move_user c = Ok (c\<lparr>ram := copied_over ?p ?q nu (ram c)\<rparr>)"
    unfolding move_user_def assms(2,3) s copy_mapped_def copy_data_copies [OF apart n(2)] by simp
  moreover have "copied_over ?p ?q nu (ram c) (?q + of_nat i) = ram c (?p + of_nat i)" if "i < nu" for i
    using that n by (simp add: copied_over_def unat_of_nat)
  moreover have "copied_over ?p ?q nu (ram c) a = ram c a" if "unat a < 0x100000 \<or> 0x100000 + nu \<le> unat a" for a
  proof -
    have "\<not> unat (a - ?q) < nu"
    proof
      assume l: "unat (a - ?q) < nu"
      from dst [OF l] have "unat a = 0x100000 + unat (a - ?q)" by simp
      with l that show False by linarith
    qed
    then show ?thesis by (simp add: copied_over_def)
  qed
  ultimately show thesis by (intro that [of "copied_over ?p ?q nu (ram c)"]) blast+
qed


section \<open>From the image to the first process\<close>

definition fresh_computer :: "'d computer \<Rightarrow> bool" where
  "fresh_computer c \<longleftrightarrow> fresh_hardware (hard c) \<and> r_cs (proc (hard c)) = KERNEL_CS \<and> r_cr0 (proc (hard c)) = 1 \<and>
     blank (kern (sysm c)) \<and> length (open_file_table (sysm c)) = OPEN_FILE_TABLE_SIZE \<and> length (FAT (fsys (sysm c))) = FAT_SIZE"

text \<open>A FAT32 disk of \<open>cap\<close> sectors whose table fits the array of the kernel.\<close>

definition mountable :: "nat \<Rightarrow> (nat \<Rightarrow> byte list) \<Rightarrow> bool" where
  "mountable cap blk \<longleftrightarrow> 2 \<le> cap \<and> unat (sectorsPerFAT (parse_EBR (blk 0))) \<le> 16 \<and> unat (rootClusterNum (parse_EBR (blk 0))) < 2 ^ 31 \<and>
     unat (reservedSectors (parse_BPB (blk 0))) + unat (sectorsPerFAT (parse_EBR (blk 0))) \<le> disk_size cap"

text \<open>What the phases leave alone, and what they set.\<close>

lemma start_files_Ok:
  fixes c :: "ata_dev computer"
  assumes "mountable cap (blocks ata_view_of (fsys (sysm c)))" and "idle (ata_view_of (device (fsys (sysm c))))"
    and "length (FAT (fsys (sysm c))) = FAT_SIZE" and "length (open_file_table (sysm c)) = OPEN_FILE_TABLE_SIZE"
  obtains f where "start_files (ata_ports lat cap) c = Ok (c\<lparr>sysm := (sysm c)\<lparr>fsys := f,
      open_file_table := replicate OPEN_FILE_TABLE_SIZE \<lparr>startCluster = 0, openCount = 0, access_offset = 0, permissions = -1\<rparr>\<rparr>\<rparr>)"
    and "biosParameterBlock f = parse_BPB (blocks ata_view_of (fsys (sysm c)) 0)" "extendedBootRecord f = parse_EBR (blocks ata_view_of (fsys (sysm c)) 0)"
    "entry_cluster (rootDirectory f) = rootClusterNum (extendedBootRecord f)" "blocks ata_view_of f = blocks ata_view_of (fsys (sysm c))"
    "idle (ata_view_of (device f))"
proof -
  from initializeFAT_mounts [OF ata.ata_device_axioms [of lat cap] _ assms(2) refl refl refl _ _ assms(3)] assms(1) obtain f where
    f: "initializeFAT (ide_blockdev (ata_ports lat cap)) (fsys (sysm c)) = Ok f"
      "biosParameterBlock f = parse_BPB (blocks ata_view_of (fsys (sysm c)) 0)" "extendedBootRecord f = parse_EBR (blocks ata_view_of (fsys (sysm c)) 0)"
      "entry_cluster (rootDirectory f) = rootClusterNum (parse_EBR (blocks ata_view_of (fsys (sysm c)) 0))" "idle (ata_view_of (device f))"
      "blocks ata_view_of f = blocks ata_view_of (fsys (sysm c))" unfolding mountable_def by blast
  have "length (open_file_table ((sysm c)\<lparr>fsys := f\<rparr>)) = OPEN_FILE_TABLE_SIZE" using assms(4) by simp
  note init_open_file_table_Ok [OF this]
  with f show thesis by (intro that [of f]) (simp_all add: start_files_def on_fs_def)
qed

lemma start_program_Ok:
  assumes "move_user c = Ok (c\<lparr>ram := m\<rparr>)" and "gdt (hard c) = boot_gdt[6 := linked_tss y]" and "r_cs (proc (hard c)) = KERNEL_CS"
    and "r_fs (proc (hard c)) = KERNEL_DS" "r_gs (proc (hard c)) = KERNEL_DS" and "tss_esp0 (kern (sysm c)) = 8"
  obtains h where "start_program c = Ok (c\<lparr>hard := h, ram := put_dword (USER_ESP + 12) (get_dword m p_rdtr) m,
      sysm := (sysm c)\<lparr>kern := (kern (sysm c))\<lparr>cur := 8\<rparr>, fsys := printk (chars (''Entering user mode...'' @ [CHR 0x0A])) (fsys (sysm c))\<rparr>\<rparr>)"
    and "proc h = (enable_int (proc (hard c)))\<lparr>r_eip := L_USER_START, r_cs := USER_CS, r_esp := USER_ESP, r_ss := USER_DS, r_ds := USER_DS, r_es := USER_DS, r_fs := 0, r_gs := 0\<rparr>"
    and "tss_of h = tss_of (hard c)"
proof -
  let ?h = "(hard c)\<lparr>proc := enable_int (proc (hard c))\<rparr>"
  have "gdt ?h = boot_gdt[6 := linked_tss y]" "r_cs (proc ?h) = KERNEL_CS" "r_fs (proc ?h) = KERNEL_DS" "r_gs (proc ?h) = KERNEL_DS"
    using assms(2-5) by (simp_all add: enable_int_def)
  note return_gate_Ok [OF this]
  with assms(1,6) show thesis
    by (intro that [of "?h\<lparr>proc := (proc ?h)\<lparr>r_eip := L_USER_START, r_cs := USER_CS, r_esp := USER_ESP, r_ss := USER_DS, r_ds := USER_DS, r_es := USER_DS, r_fs := 0, r_gs := 0\<rparr>\<rparr>"])
      (simp_all add: start_program_def print_def on_fs_def on_proc_def enter_user_def)
qed

lemma put_dword_outside: "4 \<le> unat (x - a) \<Longrightarrow> put_dword a v m x = m x"
  by (auto simp: put_dword_def)

lemma main_Ok:
  fixes c :: "ata_dev computer"
  assumes fresh: "fresh_computer c" and disk: "mountable cap (blocks ata_view_of (fsys (sysm c)))"
    and words: "get_dword (ram c) p_sys_size = of_nat ns" "get_dword (ram c) p_usr_size = of_nat nu"
    and fits: "0x10000 + ns + nu \<le> 0x100000" "nu \<le> 0x1BFFC"
  shows "\<exists>c'. main y (ata_ports lat cap) c = Ok c' \<and> (\<forall>i < nu. ram c' (PH_USER_START + of_nat i) = ram c (KERNEL_START + of_nat ns + of_nat i)) \<and>
    r_eip (proc (hard c')) = L_USER_START \<and> r_cs (proc (hard c')) = USER_CS \<and> r_ss (proc (hard c')) = USER_DS \<and> r_esp (proc (hard c')) = USER_ESP \<and>
    bit (r_eflags (proc (hard c'))) 9 \<and> bit (r_cr0 (proc (hard c'))) 31 \<and> r_tr (proc (hard c')) = KERNEL_TSS \<and> t_esp0 (tss_of (hard c')) = KERNEL_ESP y 8 \<and>
    kernel_inv (kern (sysm c')) \<and> cur (kern (sysm c')) = 8 \<and> PID (task (kern (sysm c')) ! 8) = 1 \<and> havedisk0 (disks c') = 1 \<and>
    biosParameterBlock (fsys (sysm c')) = parse_BPB (blocks ata_view_of (fsys (sysm c)) 0) \<and>
    entry_cluster (rootDirectory (fsys (sysm c'))) = rootClusterNum (parse_EBR (blocks ata_view_of (fsys (sysm c)) 0)) \<and>
    (\<forall>e \<in> set (open_file_table (sysm c')). openCount e = 0)"
proof -
  let ?P = "ata_ports lat cap"
  note fresh = fresh [unfolded fresh_computer_def]
  from fresh have "fresh_hardware (hard c)" "r_cs (proc (hard c)) = KERNEL_CS" "r_cr0 (proc (hard c)) = 1" by simp_all
  then obtain h where c1: "load_tables y c = Ok (c\<lparr>hard := h, sysm := (sysm c)\<lparr>fsys := printk (chars ''Kernel Loaded!    '') (fsys (sysm c))\<rparr>\<rparr>)" (is "_ = Ok ?c1")
    and h: "gdt h = boot_gdt[6 := linked_tss y]" "tss_of h = first_tss y" "entered y (idt h)"
      "r_cs (proc h) = KERNEL_CS" "r_fs (proc h) = KERNEL_DS" "r_gs (proc h) = KERNEL_DS" "r_tr (proc h) = KERNEL_TSS" "r_eflags (proc h) = 2" "r_cr0 (proc h) = 1"
    by (rule load_tables_Ok)
  from fresh have "blank (kern (sysm c))" by simp
  then obtain k1 k2 k3 k4 where k: "init_mm (kern (sysm c)) = Ok k1" "init_sched k1 = Ok k2" "init_idle k2 = Ok k3" "init_task1 k3 = Ok k4"
    "boot (kern (sysm c)) = Ok (k4\<lparr>cur := 8\<rparr>)" "tss_esp0 k4 = 8" "user_mapped k4" "kernel_inv (k4\<lparr>cur := 8\<rparr>)" "PID (task k4 ! 8) = 1" by (rule boot_phases)
  define p2 where "p2 = set_pe_flag (set_cr3 (case cr3 k1 of None \<Rightarrow> 0 | Some d \<Rightarrow> dir_at y d) (proc h))"
  define f1 where "f1 = printk (chars ''Kernel Loaded!    '') (fsys (sysm c))"
  have c2: "start_memory y ?c1 = Ok (c\<lparr>hard := h\<lparr>proc := p2\<rparr>, sysm := (sysm c)\<lparr>kern := k1, fsys := f1\<rparr>\<rparr>)" (is "_ = Ok ?c2")
    using k(1) by (simp add: start_memory_def at_kernel_def load_space_def on_proc_def p2_def f1_def)
  define d3 where "d3 = (device (fsys (sysm c)))\<lparr>phase := Ready, lag := 0, devreg := 0xE0\<rparr>"
  have "device f1 = device (fsys (sysm c))" by (simp add: f1_def printk_def)
  then have c3: "start_disks ?P ?c2 = Ok (c\<lparr>disks := (disks c)\<lparr>havedisk0 := 1\<rparr>, hard := h\<lparr>proc := p2\<rparr>, sysm := (sysm c)\<lparr>kern := k1, fsys := f1\<lparr>device := d3\<rparr>\<rparr>\<rparr>)" (is "_ = Ok ?c3")
    by (simp add: start_disks_def ideinit_finds_disk d3_def)
  define p4 where "p4 = set_cr3 (case cr3 k4 of None \<Rightarrow> 0 | Some d \<Rightarrow> dir_at y d) p2"
  have c4: "start_processes y ?c3 = Ok (c\<lparr>disks := (disks c)\<lparr>havedisk0 := 1\<rparr>, hard := h\<lparr>proc := p4, tss_of := (tss_of h)\<lparr>t_esp0 := KERNEL_ESP y 8\<rparr>\<rparr>,
      sysm := (sysm c)\<lparr>kern := k4, fsys := f1\<lparr>device := d3\<rparr>\<rparr>\<rparr>)" (is "_ = Ok ?c4")
    using k(2-4,6) by (simp add: start_processes_def at_kernel_def load_space_def load_esp0_def on_proc_def p4_def)
  have b4: "blocks ata_view_of (fsys (sysm ?c4)) = blocks ata_view_of (fsys (sysm c))" by (simp add: blocks_def d3_def)
  have 4: "mountable cap (blocks ata_view_of (fsys (sysm ?c4)))" "idle (ata_view_of (device (fsys (sysm ?c4))))"
    "length (FAT (fsys (sysm ?c4))) = FAT_SIZE" "length (open_file_table (sysm ?c4)) = OPEN_FILE_TABLE_SIZE"
    unfolding b4 using disk fresh by (simp_all add: d3_def idle_def f1_def printk_def)
  let ?e = "\<lparr>startCluster = 0, openCount = 0, access_offset = 0, permissions = -1\<rparr> :: open_file_table_entry"
  obtain f5 where c5: "start_files ?P ?c4 = Ok (?c4\<lparr>sysm := (sysm ?c4)\<lparr>fsys := f5, open_file_table := replicate OPEN_FILE_TABLE_SIZE ?e\<rparr>\<rparr>)" (is "_ = Ok ?c5")
    and f5: "biosParameterBlock f5 = parse_BPB (blocks ata_view_of (fsys (sysm ?c4)) 0)" "extendedBootRecord f5 = parse_EBR (blocks ata_view_of (fsys (sysm ?c4)) 0)"
      "entry_cluster (rootDirectory f5) = rootClusterNum (extendedBootRecord f5)" "blocks ata_view_of f5 = blocks ata_view_of (fsys (sysm ?c4))" "idle (ata_view_of (device f5))"
    by (rule start_files_Ok [OF 4, of lat])
  have "user_mapped (kern (sysm ?c5))" "get_dword (ram ?c5) p_sys_size = of_nat ns" "get_dword (ram ?c5) p_usr_size = of_nat nu" "nu \<le> 0x1C000"
    using k(7) words fits(2) by simp_all
  then obtain m where m: "move_user ?c5 = Ok (?c5\<lparr>ram := m\<rparr>)" "\<forall>i < nu. m (PH_USER_START + of_nat i) = ram ?c5 (KERNEL_START + of_nat ns + of_nat i)"
    by (rule move_user_Ok [OF _ _ _ fits(1)])
  have "gdt (hard ?c5) = boot_gdt[6 := linked_tss y]" "r_cs (proc (hard ?c5)) = KERNEL_CS" "r_fs (proc (hard ?c5)) = KERNEL_DS" "r_gs (proc (hard ?c5)) = KERNEL_DS"
    "tss_esp0 (kern (sysm ?c5)) = 8" using h k(6) by (simp_all add: p4_def p2_def set_cr3_def set_pe_flag_def Let_def)
  then obtain h6 where c6: "start_program ?c5 = Ok (?c5\<lparr>hard := h6, ram := put_dword (USER_ESP + 12) (get_dword m p_rdtr) m,
      sysm := (sysm ?c5)\<lparr>kern := (kern (sysm ?c5))\<lparr>cur := 8\<rparr>, fsys := printk (chars (''Entering user mode...'' @ [CHR 0x0A])) (fsys (sysm ?c5))\<rparr>\<rparr>)" (is "_ = Ok ?c6")
    and h6: "proc h6 = (enable_int (proc (hard ?c5)))\<lparr>r_eip := L_USER_START, r_cs := USER_CS, r_esp := USER_ESP, r_ss := USER_DS, r_ds := USER_DS, r_es := USER_DS, r_fs := 0, r_gs := 0\<rparr>"
      "tss_of h6 = tss_of (hard ?c5)" by (rule start_program_Ok [OF m(1)])
  have "main y ?P c = Ok ?c6" unfolding main_def using c1 c2 c3 c4 c5 c6 by simp
  moreover have "ram ?c6 (PH_USER_START + of_nat i) = ram c (KERNEL_START + of_nat ns + of_nat i)" if "i < nu" for i
  proof -
    have "4 \<le> unat (PH_USER_START + of_nat i - (USER_ESP + 12))"
    proof (rule ccontr)
      define z where "z = PH_USER_START + of_nat i - (USER_ESP + 12)"
      assume "\<not> 4 \<le> unat (PH_USER_START + of_nat i - (USER_ESP + 12))"
      then have z: "unat z < 4" by (simp add: z_def)
      have "PH_USER_START + of_nat i = 0x11BFFC + z" by (simp add: z_def USER_ESP_def L_USER_START_def NUM_PAG_CODE_def NUM_PAG_DATA_def)
      then have "unat (PH_USER_START + of_nat i) = unat (0x11BFFC + z)" by simp
      moreover have "unat (PH_USER_START + of_nat i) = 0x100000 + i" using that fits(2) by (simp add: PH_USER_START_def unat_word_ariths unat_of_nat)
      moreover have "unat (0x11BFFC + z) = 0x11BFFC + unat z" using z by (simp add: unat_word_ariths)
      ultimately show False using that fits(2) by linarith
    qed
    then show ?thesis using m(2) that by (simp add: put_dword_outside)
  qed
  moreover have "bit (r_eflags (proc h6)) 9" "bit (r_cr0 (proc h6)) 31"
    using h(8,9) by (simp_all add: h6(1) p4_def p2_def set_cr3_def set_pe_flag_def enable_int_def Let_def bit_or_iff bit_numeral_rec)
  moreover have "r_tr (proc h6) = KERNEL_TSS" using h(7) by (simp add: h6(1) p4_def p2_def set_cr3_def set_pe_flag_def enable_int_def Let_def)
  moreover have "fsys (sysm ?c6) = f5\<lparr>console := console f5 @ takeWhile (\<lambda>c. c \<noteq> 0) (chars (''Entering user mode...'' @ [CHR 0x0A]))\<rparr>" by (simp add: printk_def)
  ultimately show ?thesis using k(8,9) f5(1-3) h6 b4 by (intro exI [of _ ?c6]) simp
qed

section \<open>The system starts\<close>

text \<open>
  C3: the image that \<open>build\<close> makes starts: loaded at 0x10000, \<open>main\<close> sets up tables, memory and processes, finds the
  disk, mounts it, moves the user program, every byte of it, to 0x100000 and enters it in user mode with paging and
  interrupts on, as process 1 of a kernel in a sound state with no file open.
\<close>

theorem image_starts:
  fixes c :: "ata_dev computer"
  assumes inputs: "files s bn = Some f" "content f = h @ b" "read_ok f" "boot_file h b" "files s sn = Some (whole ks)" "files s un = Some (whole us)"
      "12 \<le> length ks" "fresh_output (512 + length ks + length us) s"
    and fits: "0x10000 + length ks + length us \<le> 0x100000" "length us \<le> 0x1BFFC"
    and run: "build [bn, sn, un] s = Inr ((), s')" and mem: "loaded (written s') c"
    and fresh: "fresh_computer c" and disk: "mountable cap (blocks ata_view_of (fsys (sysm c)))"
  shows "\<exists>c'. main y (ata_ports lat cap) c = Ok c' \<and> (\<forall>i < length us. ram c' (PH_USER_START + of_nat i) = us ! i) \<and>
    r_eip (proc (hard c')) = L_USER_START \<and> r_cs (proc (hard c')) = USER_CS \<and> r_ss (proc (hard c')) = USER_DS \<and> r_esp (proc (hard c')) = USER_ESP \<and>
    bit (r_eflags (proc (hard c'))) 9 \<and> bit (r_cr0 (proc (hard c'))) 31 \<and> r_tr (proc (hard c')) = KERNEL_TSS \<and> t_esp0 (tss_of (hard c')) = KERNEL_ESP y 8 \<and>
    kernel_inv (kern (sysm c')) \<and> cur (kern (sysm c')) = 8 \<and> PID (task (kern (sysm c')) ! 8) = 1 \<and> havedisk0 (disks c') = 1 \<and>
    biosParameterBlock (fsys (sysm c')) = parse_BPB (blocks ata_view_of (fsys (sysm c)) 0) \<and>
    entry_cluster (rootDirectory (fsys (sysm c'))) = rootClusterNum (parse_EBR (blocks ata_view_of (fsys (sysm c)) 0)) \<and>
    (\<forall>e \<in> set (open_file_table (sysm c')). openCount e = 0)"
proof -
  have n: "length ks + length us < 2 ^ 31" "length ks < 2 ^ 24" "length us < 2 ^ 24" using fits by simp_all
  have b: "length b = 512" using inputs(4) by (simp add: boot_file_def)
  from build_image_aux [OF inputs(1-7) n(1) inputs(8)] run have "written s' = image_of b ks us" by auto
  with mem have "loaded (image_of b ks us) c" by simp
  note w = loaded_image [OF this b inputs(7) n(2,3)]
  from main_Ok [OF fresh disk w(1,2) fits, of y lat] w(4) show ?thesis by auto
qed

text \<open>A disk as formatted: the boot sector, and a table with the root directory in cluster 2.\<close>

definition boot_sector :: "byte list" where
  "boot_sector = (replicate 512 0)[0x0C := 2, 0x0D := 1, 0x0E := 2, 0x24 := 1, 0x2C := 2]"

definition table_sector :: "byte list" where
  "table_sector = [0xF8, 0xFF, 0xFF, 0x0F, 0xFF, 0xFF, 0xFF, 0x0F, 0xFF, 0xFF, 0xFF, 0x0F] @ replicate 500 0"

definition formatted :: "ata_dev fs" where
  "formatted = demo\<lparr>device := demo_disk\<lparr>sectors := (\<lambda>k. if k = 0 then boot_sector else if k = 2 then table_sector else replicate 512 0)\<rparr>\<rparr>"

lemma formatted_disk: "mountable 64 (blocks ata_view_of formatted)"
proof -
  have blk: "blocks ata_view_of formatted 0 = boot_sector" by (simp add: blocks_def formatted_def sector512_id boot_sector_def)
  have par: "reservedSectors (parse_BPB boot_sector) = 2" "sectorsPerFAT (parse_EBR boot_sector) = 1" "rootClusterNum (parse_EBR boot_sector) = 2"
    by (simp_all add: parse_BPB_def parse_EBR_def boot_sector_def le16_def le32_def)
  show ?thesis unfolding mountable_def blk par by (simp add: disk_size_def)
qed

text \<open>A computer with the formatted disk that has loaded the image of \<open>demo_tool\<close>.\<close>

definition demo_image :: "byte list" where
  "demo_image = image_of (replicate 510 0 @ [0x55, 0xAA]) (replicate 12 7) [1, 2, 3]"

definition demo_computer :: "ata_dev computer" where
  "demo_computer = \<lparr>hard = booted, ram = (\<lambda>a. if unat (a - KERNEL_START) < 15 then demo_image ! (512 + unat (a - KERNEL_START)) else 0),
     sysm = \<lparr>kern = blank_kernel, fsys = formatted, open_file_table = replicate OPEN_FILE_TABLE_SIZE \<lparr>startCluster = 0, openCount = 0, access_offset = 0, permissions = 0\<rparr>\<rparr>,
     disks = \<lparr>havedisk0 = 0, havedisk1 = 0\<rparr>\<rparr>"

theorem image_starts_witness:
  "\<exists>s' c'. build [''b'', ''s'', ''u''] demo_tool = Inr ((), s') \<and> main linked (ata_ports (\<lambda>_. 3) 64) demo_computer = Ok c' \<and>
    ram c' 0x100001 = 2 \<and> r_eip (proc (hard c')) = 0x100000 \<and> PID (task (kern (sysm c')) ! 8) = 1"
proof -
  from build_image_aux [OF demo_inputs(1) _ _ demo_inputs(5,2,3)] demo_inputs(4) obtain s' where
    s': "build [''b'', ''s'', ''u''] demo_tool = Inr ((), s')" "written s' = demo_image" by (auto simp: whole_def demo_image_def)
  have "length demo_image = 527" by (simp add: demo_image_def image_of_def Let_def size24_def)
  then have mem: "loaded (written s') demo_computer" by (simp add: loaded_def s'(2) demo_computer_def unat_of_nat)
  have fresh: "fresh_computer demo_computer"
    using booted_fresh blank_kernel_blank by (simp add: fresh_computer_def demo_computer_def formatted_def) (simp add: booted_def)
  have disk: "mountable 64 (blocks ata_view_of (fsys (sysm demo_computer)))" using formatted_disk by (simp add: demo_computer_def)
  from image_starts [OF demo_inputs(1) _ _ demo_inputs(5,2,3) _ _ _ _ s'(1) mem fresh disk, of linked "\<lambda>_. 3"] demo_inputs(4)
  obtain c' where c': "main linked (ata_ports (\<lambda>_. 3) 64) demo_computer = Ok c'" "\<forall>i < 3. ram c' (PH_USER_START + of_nat i) = [1, 2, 3 :: byte] ! i"
    "r_eip (proc (hard c')) = L_USER_START" "PID (task (kern (sysm c')) ! 8) = 1" by (auto simp: whole_def)
  from spec [where x = 1, OF c'(2)] have "ram c' 0x100001 = 2" by (simp add: PH_USER_START_def)
  with s'(1) c' show ?thesis by (auto simp: L_USER_START_def)
qed

end
