(* ===== verification/File_Calls.thy ===== *)
theory File_Calls
  imports System_Calls
begin

text \<open>
  System calls on files of a volume, over any system: \<open>open\<close> of a path that resolves to a file, \<open>read\<close> of its
  descriptor and \<open>write\<close> to the screen, from the kernel's functions up to the stubs of libc.c.
\<close>

section \<open>System calls on a volume\<close>

text \<open>\<open>searchFile\<close> of the file system of a \<open>system\<close>.\<close>

lemma search_of_system:
  assumes vol: "volume P view cap f" and path: "0 \<notin> set p"
    and res: "resolves (blocks view f) (disk_size cap) f (rootClusterNum (extendedBootRecord f)) (tl (components p)) v"
  obtains d where "searchFile (ide_blockdev P) (p @ [0]) f = Ok (if v = 0xFFFFFFFF then 0 else sint v, f\<lparr>device := d\<rparr>)"
    and "volume P view cap (f\<lparr>device := d\<rparr>)" and "blocks view (f\<lparr>device := d\<rparr>) = blocks view f"
  using block_device.searchFile_resolves [OF volumeD(1) [OF vol] res [unfolded blocks_def] volumeD(2) [OF vol] path volumeD(5,3) [OF vol]]
    volume_keep [OF vol] by (auto simp: blocks_def)

lemma opened_simps [simp]:
  "fsys (opened c mode i s) = fsys s" "cur (kern (opened c mode i s)) = cur (kern s)"
  "tables_ok (opened c mode i s) = tables_ok s"
  "tables_ok s \<Longrightarrow> i < CHANNEL_TABLE_SIZE \<Longrightarrow> channel (opened c mode i s) j = (if j = i then \<lparr>fd = int i + 2, OFT_entry_num = int i\<rparr> else channel s j)"
  "tables_ok s \<Longrightarrow> i < CHANNEL_TABLE_SIZE \<Longrightarrow> open_file_table (opened c mode i s) ! i = \<lparr>startCluster = c, openCount = 1, access_offset = 0, permissions = mode\<rparr>"
  by (auto simp: opened_def tables_ok_def channel_def kernel_sizes OPEN_FILE_TABLE_SIZE_def)

text \<open>\<open>sys_open\<close> of a path that resolves to a file, and \<open>sys_read\<close> of a descriptor of a file, over any system.\<close>

lemma open_resolved:
  assumes vol: "volume P view cap (fsys s)" and path: "0 \<notin> set p"
    and res: "resolves (blocks view (fsys s)) (disk_size cap) (fsys s) (rootClusterNum (extendedBootRecord (fsys s))) (tl (components p)) c"
    and c: "c \<noteq> 0xFFFFFFFF" "c \<noteq> 0"
    and tables: "tables_ok s" "first_free_entry s = Some i" "i < CHANNEL_TABLE_SIZE" "\<exists>j < CHANNEL_TABLE_SIZE. fd (channel s j) \<noteq> int j + 2"
  obtains d where "sys_open (ide_blockdev P) (p @ [0]) mode s = Ok (int i + 2, opened c mode i (s\<lparr>fsys := (fsys s)\<lparr>device := d\<rparr>\<rparr>))"
    and "volume P view cap ((fsys s)\<lparr>device := d\<rparr>)" and "blocks view ((fsys s)\<lparr>device := d\<rparr>) = blocks view (fsys s)"
proof -
  from search_of_system [OF vol path res] obtain d where
    d: "searchFile (ide_blockdev P) (p @ [0]) (fsys s) = Ok (sint c, (fsys s)\<lparr>device := d\<rparr>)"
      "volume P view cap ((fsys s)\<lparr>device := d\<rparr>)" "blocks view ((fsys s)\<lparr>device := d\<rparr>) = blocks view (fsys s)" using c(1) by auto
  then show thesis using that sys_open_existing_aux [OF tables(1) d(1) _ tables(2,4)] c(2) tables(3) by simp
qed

lemma geometry_of_device:
  "bps (f\<lparr>device := d\<rparr>) = bps f" "spc (f\<lparr>device := d\<rparr>) = spc f" "reserved (f\<lparr>device := d\<rparr>) = reserved f"
  "data_chain n f cs \<Longrightarrow> data_chain n (f\<lparr>device := d\<rparr>) cs" "file_byte C (f\<lparr>device := d\<rparr>) xs = file_byte C f xs"
  by (simp_all add: data_chain_def readable_def cluster_sectors_def getDiskSector_def file_byte_def file_sector_def fun_eq_iff)

lemma read_opened:
  assumes vol: "volume P view cap (fsys s)" and chain: "data_chain (disk_size cap) (fsys s) (c # cs)"
    and tables: "tables_ok s" "i < CHANNEL_TABLE_SIZE" "channel s i = \<lparr>fd = int i + 2, OFT_entry_num = int i\<rparr>"
      "open_file_table s ! i = \<lparr>startCluster = c, openCount = 1, access_offset = 0, permissions = LECTURA\<rparr>"
    and old: "access_ok VERIFY_WRITE addr (of_nat n) = 1" "n \<le> length old" "n \<le> 512 * spc (fsys s)"
    and behind: "\<forall>c \<in> set (c # cs). unat c * spc (fsys s) + reserved (fsys s) + spc (fsys s) < disk_size cap"
  obtains d where "sys_read (ide_blockdev P) (int i + 2) addr old (int n) s
      = Ok (0, copied old (file_byte (blocks view (fsys s)) (fsys s) (c # cs)) n,
          s\<lparr>fsys := (fsys s)\<lparr>device := d\<rparr>, open_file_table := (open_file_table s)[i := \<lparr>startCluster = c, openCount = 1, access_offset = int n, permissions = LECTURA\<rparr>]\<rparr>)"
proof -
  let ?f = "fsys s"
  have c0: "c \<noteq> 0" using data_chain_simps(5) [OF chain, of c] by auto
  from block_device.read_in_cluster [OF volumeD(1) [OF vol] volumeD(3,4) [OF vol] chain volumeD(2) [OF vol], of 0 0 n old] old(2,3) behind
  obtain d where
    rd: "readFile (ide_blockdev P) c old (int n) 0 ?f = Ok (0, copied old (file_byte (blocks view ?f) ?f (c # cs)) n, ?f\<lparr>device := d\<rparr>)"
    unfolding blocks_def [symmetric] by auto
  have i: "i < 10" "i < length (open_file_table s)" using tables(1,2) by (simp_all add: tables_ok_def kernel_sizes OPEN_FILE_TABLE_SIZE_def)
  have get: "current_task s = Ok (task (kern s) ! cur (kern s))" "channel_at (task (kern s) ! cur (kern s)) (int i) = Ok (channel s i)"
    "aget_int (open_file_table s) (int i) = Ok (open_file_table s ! i)"
    using tables(1) i by (simp_all only: current_task_Ok channel_at_nat aget_int_of_nat aget_Ok)
  have check: "check_fd (int i + 2) LECTURA s = Ok 0"
    using get tables(3,4) c0 by (simp add: check_fd_def)
  have "advance (int i) (int n) (s\<lparr>fsys := ?f\<lparr>device := d\<rparr>\<rparr>)
      = Ok (s\<lparr>fsys := ?f\<lparr>device := d\<rparr>, open_file_table := (open_file_table s)[i := \<lparr>startCluster = c, openCount = 1, access_offset = int n, permissions = LECTURA\<rparr>]\<rparr>)"
    using get(3) tables(4) i(2) by (simp add: advance_def aput_int_def)
  then have "sys_read (ide_blockdev P) (int i + 2) addr old (int n) s
      = Ok (0, copied old (file_byte (blocks view ?f) ?f (c # cs)) n,
          s\<lparr>fsys := ?f\<lparr>device := d\<rparr>, open_file_table := (open_file_table s)[i := \<lparr>startCluster = c, openCount = 1, access_offset = int n, permissions = LECTURA\<rparr>]\<rparr>)"
    using check get tables(3,4) rd old(1) by (simp add: sys_read_def Let_def)
  then show thesis by (rule that)
qed

text \<open>The two calls in a row, on buffers of their own.\<close>

lemma open_then_read:
  assumes vol: "volume P view cap (fsys s)" and path: "0 \<notin> set p"
    and res: "resolves (blocks view (fsys s)) (disk_size cap) (fsys s) (rootClusterNum (extendedBootRecord (fsys s))) (tl (components p)) c"
    and chain: "data_chain (disk_size cap) (fsys s) (c # cs)" and c: "c \<noteq> 0xFFFFFFFF"
    and tables: "tables_ok s" "first_free_entry s = Some i" "i < CHANNEL_TABLE_SIZE" "\<exists>j < CHANNEL_TABLE_SIZE. fd (channel s j) \<noteq> int j + 2"
    and old: "access_ok VERIFY_WRITE addr (of_nat n) = 1" "n \<le> length old" "n \<le> 512 * spc (fsys s)"
    and behind: "\<forall>c \<in> set (c # cs). unat c * spc (fsys s) + reserved (fsys s) + spc (fsys s) < disk_size cap"
  shows "\<exists>s' s''. sys_open (ide_blockdev P) (p @ [0]) LECTURA s = Ok (int i + 2, s') \<and>
    sys_read (ide_blockdev P) (int i + 2) addr old (int n) s'
      = Ok (0, copied old (file_byte (blocks view (fsys s)) (fsys s) (c # cs)) n, s'')"
proof -
  have c0: "c \<noteq> 0" using data_chain_simps(5) [OF chain, of c] by auto
  obtain d where d: "sys_open (ide_blockdev P) (p @ [0]) LECTURA s = Ok (int i + 2, opened c LECTURA i (s\<lparr>fsys := (fsys s)\<lparr>device := d\<rparr>\<rparr>))"
    "volume P view cap ((fsys s)\<lparr>device := d\<rparr>)" "blocks view ((fsys s)\<lparr>device := d\<rparr>) = blocks view (fsys s)"
    by (rule open_resolved [OF vol path res c c0 tables])
  let ?s = "opened c LECTURA i (s\<lparr>fsys := (fsys s)\<lparr>device := d\<rparr>\<rparr>)"
  have ok: "tables_ok (s\<lparr>fsys := (fsys s)\<lparr>device := d\<rparr>\<rparr>)" using tables(1) by (simp add: tables_ok_def)
  obtain d' where "sys_read (ide_blockdev P) (int i + 2) addr old (int n) ?s = Ok (0, copied old (file_byte (blocks view (fsys s)) (fsys s) (c # cs)) n,
      ?s\<lparr>fsys := (fsys s)\<lparr>device := d'\<rparr>, open_file_table := (open_file_table ?s)[i := \<lparr>startCluster = c, openCount = 1, access_offset = int n, permissions = LECTURA\<rparr>]\<rparr>)"
    by (rule read_opened [where s = ?s, of P view cap c cs i addr n old]) (use d(2,3) chain ok tables(3) old behind in \<open>simp_all add: geometry_of_device\<close>)
  with d(1) show ?thesis by blast
qed

text \<open>Entering and leaving the kernel leaves the tables of the process alone.\<close>

lemma keeps_tables:
  assumes "same_queues (kern s) k" and "cur k = cur (kern s)" and "tables_ok s"
  shows "tables_ok (s\<lparr>kern := k\<rparr>) \<and> channel (s\<lparr>kern := k\<rparr>) = channel s"
  using assms by (auto simp: tables_ok_def channel_def same_queues_def fun_eq_iff)

lemma switch_tables:
  assumes "tables_ok (os m)" and "f \<in> {user2system, system2user}"
  obtains k where "at_kern f m = Ok (m\<lparr>os := (os m)\<lparr>kern := k\<rparr>\<rparr>)" "tables_ok ((os m)\<lparr>kern := k\<rparr>)" "channel ((os m)\<lparr>kern := k\<rparr>) = channel (os m)"
proof -
  have "cur (kern (os m)) < length (task (kern (os m)))" using assms(1) by (simp add: tables_ok_def)
  with finishUserTime_Ok finishSystemTime_Ok assms(2) obtain k where
    "f (kern (os m)) = Ok k" "same_queues (kern (os m)) k" "cur k = cur (kern (os m))" by (force simp: user2system_def system2user_def)
  with that [of k] keeps_tables [OF _ _ assms(1)] show thesis by (simp add: at_kern_def)
qed

lemma string_at_bytes:
  assumes "bytes_at m a (length p + 1) = p @ [0]" and "0 \<notin> set p"
  shows "string_at m a = Ok (p @ [0])"
proof -
  have "loop (\<lambda>(a, s). Ok (if m a = 0 then Inr (s @ [0]) else Inl (a + 1, s @ [m a]))) (a, s) = Ok (s @ p @ [0])"
    if "bytes_at m a (length p + 1) = p @ [0]" "0 \<notin> set p" for s
    using that
  proof (induction p arbitrary: a s)
    case Nil
    then show ?case by (simp add: bytes_at_def loop_stop)
  next
    case (Cons c p)
    have up: "[0..<length (c # p) + 1] = 0 # map Suc [0..<length p + 1]" by (simp add: upt_conv_Cons map_Suc_upt del: upt_Suc)
    have "m a = c" "bytes_at m (a + 1) (length p + 1) = p @ [0]"
      using Cons.prems(1) unfolding bytes_at_def up by (simp_all add: comp_def add.assoc add.left_commute)
    with Cons.IH [of "a + 1" "s @ [c]"] Cons.prems(2) show ?case by (simp add: loop_step)
  qed
  from this [OF assms, of "[]"] show ?thesis by (simp add: string_at_def)
qed

lemma sint_of_small: "n < 2 ^ 31 \<Longrightarrow> sint (of_nat n :: dword) = int n"
  by (simp add: sint_small unat_of_nat)

text \<open>What \<open>libc_read\<close> stores in the memory of the user.\<close>

lemma store_at_bytes:
  assumes "length bs < 2 ^ 32"
  shows "j < length bs \<Longrightarrow> store_at a bs m (a + of_nat j) = bs ! j" and "length bs \<le> unat (x - a) \<Longrightarrow> store_at a bs m x = m x"
  using assms by (simp_all add: store_at_def unat_of_nat)

lemma user_reads_file_aux:
  assumes vol: "volume P view cap (fsys (os m))" and path: "bytes_at (user_mem m) path (length p + 1) = p @ [0]" "0 \<notin> set p"
    and res: "resolves (blocks view (fsys (os m))) (disk_size cap) (fsys (os m)) (rootClusterNum (extendedBootRecord (fsys (os m)))) (tl (components p)) c"
    and chain: "data_chain (disk_size cap) (fsys (os m)) (c # cs)" and c: "c \<noteq> 0xFFFFFFFF"
    and tables: "tables_ok (os m)" "first_free_entry (os m) = Some i" "i < CHANNEL_TABLE_SIZE" "\<exists>j < CHANNEL_TABLE_SIZE. fd (channel (os m) j) \<noteq> int j + 2"
    and old: "access_ok VERIFY_WRITE addr n = 1" "unat n \<le> 512 * spc (fsys (os m))"
    and behind: "\<forall>c \<in> set (c # cs). unat c * spc (fsys (os m)) + reserved (fsys (os m)) + spc (fsys (os m)) < disk_size cap"
  shows "\<exists>m' m''. libc_open (ide_blockdev P) path 0 m = Ok (Returns (int i + 2), m') \<and>
    libc_read (ide_blockdev P) (of_nat (i + 2)) addr n m' = Ok (Returns 0, m'') \<and>
    (\<forall>j < unat n. user_mem m'' (addr + of_nat j) = file_byte (blocks view (fsys (os m))) (fsys (os m)) (c # cs) j) \<and>
    (\<forall>a. unat n \<le> unat (a - addr) \<longrightarrow> user_mem m'' a = user_mem m a) \<and> errno m'' = errno m \<and>
    tables_ok (os m'') \<and> console (fsys (os m'')) = console (fsys (os m))"
proof -
  let ?dev = "ide_blockdev P"
  note calls = stub_open stub_read
  have c0: "c \<noteq> 0" using data_chain_simps(5) [OF chain, of c] by auto
  obtain k1 where k1: "at_kern user2system m = Ok (m\<lparr>os := (os m)\<lparr>kern := k1\<rparr>\<rparr>)" "tables_ok ((os m)\<lparr>kern := k1\<rparr>)"
    "channel ((os m)\<lparr>kern := k1\<rparr>) = channel (os m)" by (rule switch_tables [OF tables(1), of user2system]) simp
  let ?s1 = "(os m)\<lparr>kern := k1\<rparr>"
  obtain d where d: "sys_open ?dev (p @ [0]) LECTURA ?s1 = Ok (int i + 2, opened c LECTURA i (?s1\<lparr>fsys := (fsys (os m))\<lparr>device := d\<rparr>\<rparr>))"
    "volume P view cap ((fsys (os m))\<lparr>device := d\<rparr>)" "blocks view ((fsys (os m))\<lparr>device := d\<rparr>) = blocks view (fsys (os m))"
    by (rule open_resolved [where s = ?s1 and mode = LECTURA, of P view cap p c i]) (use vol path(2) res c c0 k1 tables in \<open>simp_all add: first_free_entry_def\<close>)
  let ?f2 = "(fsys (os m))\<lparr>device := d\<rparr>"
  let ?s2 = "opened c LECTURA i (?s1\<lparr>fsys := ?f2\<rparr>)"
  let ?m2 = "m\<lparr>os := ?s2\<rparr>"
  have ok1: "tables_ok (?s1\<lparr>fsys := ?f2\<rparr>)" using k1(2) by (simp add: tables_ok_def)
  then have t2: "tables_ok ?s2" by simp
  have e2: "channel ?s2 i = \<lparr>fd = int i + 2, OFT_entry_num = int i\<rparr>"
    "open_file_table ?s2 ! i = \<lparr>startCluster = c, openCount = 1, access_offset = 0, permissions = LECTURA\<rparr>"
    using ok1 tables(3) by simp_all
  obtain k2 where k2: "at_kern system2user ?m2 = Ok (?m2\<lparr>os := ?s2\<lparr>kern := k2\<rparr>\<rparr>)" "tables_ok (?s2\<lparr>kern := k2\<rparr>)"
    "channel (?s2\<lparr>kern := k2\<rparr>) = channel ?s2" using switch_tables [of ?m2 system2user] t2 by auto
  let ?m3 = "?m2\<lparr>os := ?s2\<lparr>kern := k2\<rparr>\<rparr>"
  have open_run: "libc_open ?dev path 0 m = Ok (Returns (int i + 2), ?m3)"
    using k1(1) d(1) k2(1) string_at_bytes [OF path]
    by (simp add: calls(1) libc_call_def answers_def on_os_def to_user_def LECTURA_def)
  obtain k3 where k3: "at_kern user2system ?m3 = Ok (?m3\<lparr>os := ?s2\<lparr>kern := k3\<rparr>\<rparr>)" "tables_ok (?s2\<lparr>kern := k3\<rparr>)"
    "channel (?s2\<lparr>kern := k3\<rparr>) = channel ?s2" using switch_tables [of ?m3 user2system] k2 by auto
  let ?s4 = "?s2\<lparr>kern := k3\<rparr>" and ?old = "bytes_at (user_mem m) addr (unat n)" and ?file = "file_byte (blocks view (fsys (os m))) (fsys (os m)) (c # cs)"
  have "spc (fsys (os m)) < 256" using unsigned_less [of "sectorsPerCluster (biosParameterBlock (fsys (os m)))"] by simp
  with old(2) have "unat n < 512 * 256" by linarith
  then have n: "unat n < 2 ^ 31" by simp
  then have sn: "sint n = int (unat n)" "nat (sint n) = unat n" by (simp_all add: sint_small)
  have si: "sint (2 + of_nat i :: dword) = int i + 2" using tables(3) sint_of_small [of "i + 2"] by (simp add: kernel_sizes)
  have len: "length ?old = unat n" by (simp add: bytes_at_def)
  obtain d' where d': "sys_read ?dev (int i + 2) addr ?old (int (unat n)) ?s4 = Ok (0, copied ?old ?file (unat n),
      ?s4\<lparr>fsys := ?f2\<lparr>device := d'\<rparr>, open_file_table := (open_file_table ?s4)[i := \<lparr>startCluster = c, openCount = 1, access_offset = int (unat n), permissions = LECTURA\<rparr>]\<rparr>)"
    by (rule read_opened [where s = ?s4, of P view cap c cs i addr "unat n" ?old])
      (use d(2,3) chain k3 e2 tables(3) old behind len in \<open>simp_all add: geometry_of_device\<close>)
  let ?s5 = "?s4\<lparr>fsys := ?f2\<lparr>device := d'\<rparr>, open_file_table := (open_file_table ?s4)[i := \<lparr>startCluster = c, openCount = 1, access_offset = int (unat n), permissions = LECTURA\<rparr>]\<rparr>"
  let ?bytes = "copied ?old ?file (unat n)"
  let ?m5 = "m\<lparr>os := ?s5, user_mem := store_at addr ?bytes (user_mem m)\<rparr>"
  have "tables_ok ?s5" using k3(2) by (simp add: tables_ok_def)
  then obtain k5 where k5: "at_kern system2user ?m5 = Ok (?m5\<lparr>os := ?s5\<lparr>kern := k5\<rparr>\<rparr>)" "tables_ok (?s5\<lparr>kern := k5\<rparr>)" using switch_tables [of ?m5 system2user] by auto
  have read_run: "libc_read ?dev (of_nat (i + 2)) addr n ?m3 = Ok (Returns 0, ?m5\<lparr>os := ?s5\<lparr>kern := k5\<rparr>\<rparr>)"
    using k3(1) d' k5(1) by (simp add: calls(2) libc_call_def call_read_def answers_def to_user_def sn si)
  have bytes: "?bytes = map ?file [0..<unat n]" using len by (simp add: copied_def)
  then have "length ?bytes = unat n" by simp
  then have "\<forall>j < unat n. store_at addr ?bytes (user_mem m) (addr + of_nat j) = ?file j"
    "\<forall>a. unat n \<le> unat (a - addr) \<longrightarrow> store_at addr ?bytes (user_mem m) a = user_mem m a"
    using store_at_bytes [of ?bytes] n by (simp_all add: bytes)
  with open_run read_run k5(2) show ?thesis
    by - (rule exI [of _ ?m3], rule exI [of _ "?m5\<lparr>os := ?s5\<lparr>kern := k5\<rparr>\<rparr>"], simp)
qed

text \<open>Task 1 of the sample kernel with no open file and the demo volume.\<close>

definition demo_system :: "ata_dev system" where
  "demo_system = \<lparr>kern = sample_kernel 1 5, fsys = demo,
     open_file_table = replicate OPEN_FILE_TABLE_SIZE \<lparr>startCluster = 0, openCount = 0, access_offset = 0, permissions = -1\<rparr>\<rparr>"

lemma demo_system_fs [simp]: "fsys demo_system = demo"
  by (simp add: demo_system_def)

lemma demo_tables:
  "tables_ok demo_system" "first_free_entry demo_system = Some 0" "\<exists>j < CHANNEL_TABLE_SIZE. fd (channel demo_system j) \<noteq> int j + 2"
proof -
  have t: "task (kern demo_system) ! cur (kern demo_system) = sample_task 1"
    by (simp add: demo_system_def sample_kernel_def kernel_sizes)
  have ch: "channel_table (sample_task 1) = replicate CHANNEL_TABLE_SIZE \<lparr>fd = 0, OFT_entry_num = -1\<rparr>" by (simp add: sample_task_def)
  show "tables_ok demo_system"
    unfolding tables_ok_def t ch by (simp add: demo_system_def sample_kernel_def kernel_sizes)
  show "first_free_entry demo_system = Some 0"
    by (simp add: first_free_entry_def demo_system_def OPEN_FILE_TABLE_SIZE_def upt_conv_Cons del: upt_rec_numeral)
  show "\<exists>j < CHANNEL_TABLE_SIZE. fd (channel demo_system j) \<noteq> int j + 2"
    unfolding channel_def t ch by (intro exI [of _ 0]) (simp add: kernel_sizes)
qed


section \<open>Writing to the screen\<close>

lemma console_rounds:
  "n \<le> length b \<Longrightarrow> for_each [0..<n] (\<lambda>i s. bind (aget b i) (\<lambda>c. Ok (Inl (s\<lparr>console := console s @ [c]\<rparr>)))) s
     = (Ok (Inl (s\<lparr>console := console s @ take n b\<rparr>)) :: ('d fs + 'd fs) res)"
proof (induction n)
  case (Suc n)
  then show ?case by (simp add: for_each_append take_Suc_conv_app_nth)
qed simp

lemma sys_write_screen:
  assumes "tables_ok s" and "access_ok VERIFY_READ addr (of_nat n) = 1" and "n \<le> 512" and "length b = n"
  shows "sys_write dev 1 addr b (int n) s = Ok (int n, s\<lparr>fsys := (fsys s)\<lparr>console := console (fsys s) @ b\<rparr>\<rparr>)"
proof -
  have "cur (kern s) < length (task (kern s))" using assms(1) by (simp add: tables_ok_def)
  moreover have "write_console b (int n) (fsys s) = Ok (int n, (fsys s)\<lparr>console := console (fsys s) @ b\<rparr>)"
    using assms(3,4) by (cases "n = 0") (simp_all add: write_console_def loop_stop TAM_BUFFER_def write_chunk_def sys_write_console_def console_rounds)
  ultimately show ?thesis using assms(2) by (simp add: sys_write_def check_fd_screen LECTURA_def ESCRIPTURA_def)
qed

lemmas stub_write = conjunct1 [OF conjunct2 [OF stubs_call_aux]]
lemmas stub_unlink = conjunct1 [OF conjunct2 [OF conjunct2 [OF conjunct2 [OF conjunct2 [OF conjunct2 [OF stubs_call_aux]]]]]]

lemma libc_write_screen:
  assumes "tables_ok (os m)" and "access_ok VERIFY_READ addr (of_nat n) = 1" and "n \<le> 512"
  obtains k where "libc_write dev 1 addr (of_nat n) m = Ok (Returns (int n), m\<lparr>os := (os m)\<lparr>fsys := (fsys (os m))\<lparr>console := console (fsys (os m)) @ bytes_at (user_mem m) addr n\<rparr>,
      kern := k\<rparr>\<rparr>)"
    and "tables_ok ((os m)\<lparr>fsys := (fsys (os m))\<lparr>console := console (fsys (os m)) @ bytes_at (user_mem m) addr n\<rparr>, kern := k\<rparr>)"
proof -
  let ?b = "bytes_at (user_mem m) addr n" and ?dev = dev
  obtain k1 where k1: "at_kern user2system m = Ok (m\<lparr>os := (os m)\<lparr>kern := k1\<rparr>\<rparr>)" "tables_ok ((os m)\<lparr>kern := k1\<rparr>)"
    using switch_tables [OF assms(1), of user2system] by auto
  let ?s1 = "(os m)\<lparr>kern := k1\<rparr>"
  have len: "length ?b = n" by (simp add: bytes_at_def)
  let ?s2 = "?s1\<lparr>fsys := (fsys (os m))\<lparr>console := console (fsys (os m)) @ ?b\<rparr>\<rparr>"
  have w: "sys_write dev 1 addr ?b (int n) ?s1 = Ok (int n, ?s2)" using sys_write_screen [OF k1(2) assms(2,3) len] by simp
  have "tables_ok ?s2" using k1(2) by (simp add: tables_ok_def)
  then obtain k2 where k2: "at_kern system2user (m\<lparr>os := ?s2\<rparr>) = Ok (m\<lparr>os := ?s2\<lparr>kern := k2\<rparr>\<rparr>)" "tables_ok (?s2\<lparr>kern := k2\<rparr>)"
    using switch_tables [of "m\<lparr>os := ?s2\<rparr>" system2user] by auto
  have sn: "sint (of_nat n :: dword) = int n" using assms(3) by (intro sint_of_small) simp
  have "libc_write dev 1 addr (of_nat n) m = Ok (Returns (int n), m\<lparr>os := ?s2\<lparr>kern := k2\<rparr>\<rparr>)"
    using k1(1) w k2(1) by (simp add: stub_write libc_call_def answers_def on_os_def to_user_def sn)
  with k2(2) show thesis by (intro that [of k2]) simp_all
qed


end
