(* ===== verification/Self_Tests.thy ===== *)
theory Self_Tests
  imports Fat32_Volume
begin

text \<open>
  The self tests of the file system and of the driver: \<open>ide_check_disk\<close> and \<open>decodeStatusRegister\<close> of disk-driver/ide.c with the
  disk, the flags \<open>ideinit\<close> set, the text printed and \<open>proso_blocks\<close> as state (\<open>bench\<close>), and \<open>FStest\<close> of file-system/fat32.c over
  the globals of fat32.c. The lemmas show what a run of the disk test leaves on the disk and on the screen, and what the read test
  of the file system prints.
\<close>

section \<open>The disk test of the driver\<close>

text \<open>
  The disk, what \<open>ideinit\<close> found, the text printed and the global \<open>proso_blocks\<close>. The buffer of the test is a local array: its
  first contents are the parameter \<open>b\<close>.
\<close>

record 'd bench =
  disk :: 'd
  found :: ide_state
  said :: "byte list"
  proso_blocks :: dword

definition say :: "byte list \<Rightarrow> 'd bench \<Rightarrow> 'd bench" where
  "say t s = s\<lparr>said := said s @ takeWhile (\<lambda>c. c \<noteq> 0) t\<rparr>"

definition BLOC :: nat where "BLOC = 512"

definition init_block :: "byte list \<Rightarrow> byte \<Rightarrow> byte list res" where
  "init_block b c = bind (for_each [0..<BLOC] (\<lambda>i b. bind (aput b i c) (\<lambda>b. Ok (Inl b))) b) (\<lambda>r. Ok (case r of Inl b \<Rightarrow> b | Inr b \<Rightarrow> b))"

definition check_block :: "byte list \<Rightarrow> byte \<Rightarrow> int res" where
  "check_block b val = bind (for_each [0..<BLOC] (\<lambda>i u. bind (aget b i) (\<lambda>c. Ok (if c \<noteq> val then Inr (int i) else Inl u))) ()) (\<lambda>r.
     Ok (case r of Inl _ \<Rightarrow> -1 | Inr i \<Rightarrow> i))"

text \<open>The loops that write, and read, until the driver refuses a block.\<close>

definition fill_round :: "'d ports \<Rightarrow> byte list \<Rightarrow> int \<times> dword \<times> 'd \<Rightarrow> ((int \<times> dword \<times> 'd) + (dword \<times> 'd)) res" where
  "fill_round P b = (\<lambda>(r, i, d). if 0 \<le> r then bind (idewrite P (Some b) i d) (\<lambda>(r, d). Ok (Inl (r, i + 1, d))) else Ok (Inr (i, d)))"

definition read_back :: "'d ports \<Rightarrow> byte list \<Rightarrow> dword \<Rightarrow> 'd \<Rightarrow> (int \<times> byte list \<times> 'd) res" where
  "read_back P b i d = bind (ideread P (Some b) i d) (\<lambda>(r, b', d). Ok (r, case b' of Some x \<Rightarrow> x | None \<Rightarrow> b, d))"

definition check_round :: "'d ports \<Rightarrow> int \<times> dword \<times> byte list \<times> 'd \<Rightarrow> ((int \<times> dword \<times> byte list \<times> 'd) + (dword \<times> byte list \<times> 'd)) res" where
  "check_round P = (\<lambda>(r, i, b, d). if 0 \<le> r then bind (read_back P b i d) (\<lambda>(r, b, d). Ok (Inl (r, i + 1, b, d))) else Ok (Inr (i, b, d)))"

text \<open>\<open>itoa(i-1, b); printk("\n"); printk(b); printk(text)\<close>\<close>

definition report_blocks :: "string \<Rightarrow> dword \<Rightarrow> byte list \<Rightarrow> 'd bench \<Rightarrow> (byte list \<times> 'd bench) res" where
  "report_blocks t i b s = bind (itoa (sint (i - 1)) b) (\<lambda>b. Ok (b, say (chars t) (say b (say [10] s))))"

definition put_pattern :: "'d ports \<Rightarrow> string \<Rightarrow> dword \<Rightarrow> byte \<Rightarrow> byte list \<times> 'd bench \<Rightarrow> (byte list \<times> 'd bench) res" where
  "put_pattern P t n c = (\<lambda>(b, s).
     bind (init_block b c) (\<lambda>b. bind (idewrite P (Some b) n (disk s)) (\<lambda>(_, d). Ok (b, (say (chars t) s)\<lparr>disk := d\<rparr>))))"

definition check_pattern :: "'d ports \<Rightarrow> string \<Rightarrow> dword \<Rightarrow> byte \<Rightarrow> byte list \<times> 'd bench \<Rightarrow> (byte list \<times> 'd bench) res" where
  "check_pattern P t n c = (\<lambda>(b, s).
     bind (init_block b 0xFF) (\<lambda>b. bind (read_back P b n (disk s)) (\<lambda>(_, b, d).
     bind (check_block b c) (\<lambda>r. Ok (b, say (chars (if 0 \<le> r then ''[KO]'' @ [CHR 0x0A] else ''[OK]'' @ [CHR 0x0A])) (say (chars t) (s\<lparr>disk := d\<rparr>)))))))"

definition ide_check_disk :: "'d ports \<Rightarrow> byte list \<Rightarrow> 'd bench \<Rightarrow> (int \<times> 'd bench) res" where
  "ide_check_disk P b s =
     (if \<not> (havedisk0 (found s) \<noteq> 0 \<or> havedisk1 (found s) \<noteq> 0) then Ok (-1, say (chars ([CHR 0x0A] @ ''No disk available'' @ [CHR 0x0A])) s)
      else
        let s = say (chars (''** Starting tests **'' @ [CHR 0x0A])) s in
        bind (init_block b 0xFF) (\<lambda>b.
        bind (loop (fill_round P b) (0, 0, disk s)) (\<lambda>(i, d).
        bind (report_blocks ('' blocs written'' @ [CHR 0x0A]) i b (s\<lparr>disk := d\<rparr>)) (\<lambda>(b, s).
        let s = s\<lparr>proso_blocks := i - 1\<rparr> in
        bind (loop (check_round P) (0, 0, b, disk s)) (\<lambda>(i, b, d).
        bind (report_blocks ('' blocs read'' @ [CHR 0x0A, CHR 0x0A]) i b (s\<lparr>disk := d\<rparr>)) (\<lambda>bs.
        bind (put_pattern P (''Write block 1 with 512 '' @ [CHR 0x27] @ ''0xab'' @ [CHR 0x27] @ '' bytes '' @ [CHR 0x0A]) 1 0xAB bs) (\<lambda>bs.
        bind (put_pattern P (''Write block 3 with 512 '' @ [CHR 0x27] @ ''0xca'' @ [CHR 0x27] @ '' bytes '' @ [CHR 0x0A]) 3 0xCA bs) (\<lambda>bs.
        bind (put_pattern P (''Write block 5 with 512 '' @ [CHR 0x27] @ ''0xab'' @ [CHR 0x27] @ '' bytes '' @ [CHR 0x0A]) 5 0xAB bs) (\<lambda>bs.
        bind (check_pattern P (''Read block 5 that contain 512 '' @ [CHR 0x27] @ ''0xab'' @ [CHR 0x27] @ '' bytes '') 5 0xAB bs) (\<lambda>bs.
        bind (check_pattern P (''Read block 3 that contain 512 '' @ [CHR 0x27] @ ''0xca'' @ [CHR 0x27] @ '' bytes '') 3 0xCA bs) (\<lambda>bs.
        bind (check_pattern P (''Read block 1 that contain 512 '' @ [CHR 0x27] @ ''0xab'' @ [CHR 0x27] @ '' bytes '') 1 0xAB bs) (\<lambda>bs.
        bind (put_pattern P (''Write block 2 with 512 '' @ [CHR 0x27] @ ''0x22'' @ [CHR 0x27] @ '' bytes '' @ [CHR 0x0A]) 2 0x22 bs) (\<lambda>bs.
        bind (check_pattern P (''Read block 2 that contain 512 '' @ [CHR 0x27] @ ''0x22'' @ [CHR 0x27] @ '' bytes '') 2 0x22 bs) (\<lambda>(b, s).
        Ok (0, say (chars (''** Finished tests **'' @ [CHR 0x0A, CHR 0x0A])) s)))))))))))))))"

text \<open>\<open>decodeStatusRegister\<close>: what the driver prints of a status register while \<open>ide_debug\<close> is set.\<close>

definition decodeStatusRegister :: "bool \<Rightarrow> byte \<Rightarrow> 'd bench \<Rightarrow> 'd bench res" where
  "decodeStatusRegister ide_debug b s =
     (if \<not> ide_debug then Ok s
      else bind (itoa (uint b) (replicate 20 0)) (\<lambda>tmp. bind (tobinary b tmp) (\<lambda>bin.
        Ok (fold (\<lambda>t. say t) [chars ''Status Register: '', tmp, chars '' - '', bin, chars '' - '',
          chars (if b AND IDE_BSY \<noteq> 0 then ''BUSY'' else ''busy''), chars ''|'',
          chars (if b AND IDE_DRDY \<noteq> 0 then ''READY'' else ''ready''), chars ''|'',
          chars (if b AND IDE_DF \<noteq> 0 then ''FAULT'' else ''fault''), chars ''|#|'',
          chars (if b AND IDE_DRQ \<noteq> 0 then ''DATA REQ'' else ''data_req''), chars ''|-|-|'',
          chars (if b AND IDE_ERR \<noteq> 0 then ''ERROR'' else ''error''), chars [CHR 0x0A]] s))))"


section \<open>What the disk test does\<close>

text \<open>The text of a run on a disk of \<open>n\<close> blocks.\<close>

definition test_text :: "nat \<Rightarrow> byte list" where
  "test_text n = chars (''** Starting tests **'' @ [CHR 0x0A]) @ [10] @ decimal n @ chars ('' blocs written'' @ [CHR 0x0A]) @
     [10] @ decimal n @ chars ('' blocs read'' @ [CHR 0x0A, CHR 0x0A]) @
     chars (''Write block 1 with 512 '' @ [CHR 0x27] @ ''0xab'' @ [CHR 0x27] @ '' bytes '' @ [CHR 0x0A]) @
     chars (''Write block 3 with 512 '' @ [CHR 0x27] @ ''0xca'' @ [CHR 0x27] @ '' bytes '' @ [CHR 0x0A]) @
     chars (''Write block 5 with 512 '' @ [CHR 0x27] @ ''0xab'' @ [CHR 0x27] @ '' bytes '' @ [CHR 0x0A]) @
     chars (''Read block 5 that contain 512 '' @ [CHR 0x27] @ ''0xab'' @ [CHR 0x27] @ '' bytes '') @ chars (''[OK]'' @ [CHR 0x0A]) @
     chars (''Read block 3 that contain 512 '' @ [CHR 0x27] @ ''0xca'' @ [CHR 0x27] @ '' bytes '') @ chars (''[OK]'' @ [CHR 0x0A]) @
     chars (''Read block 1 that contain 512 '' @ [CHR 0x27] @ ''0xab'' @ [CHR 0x27] @ '' bytes '') @ chars (''[OK]'' @ [CHR 0x0A]) @
     chars (''Write block 2 with 512 '' @ [CHR 0x27] @ ''0x22'' @ [CHR 0x27] @ '' bytes '' @ [CHR 0x0A]) @
     chars (''Read block 2 that contain 512 '' @ [CHR 0x27] @ ''0x22'' @ [CHR 0x27] @ '' bytes '') @ chars (''[OK]'' @ [CHR 0x0A]) @
     chars (''** Finished tests **'' @ [CHR 0x0A, CHR 0x0A])"

definition tested :: "nat \<Rightarrow> (nat \<Rightarrow> byte list) \<Rightarrow> nat \<Rightarrow> byte list" where
  "tested n C = (\<lambda>k. if k < n then replicate 512 0xFF else C k)
     (1 := replicate 512 0xAB, 3 := replicate 512 0xCA, 5 := replicate 512 0xAB, 2 := replicate 512 0x22)"

lemma takeWhile_chars: "\<forall>c \<in> set t. of_char c \<noteq> (0 :: byte) \<Longrightarrow> takeWhile (\<lambda>c. c \<noteq> 0) (chars t) = chars t"
  by (auto simp: chars_def)


lemma init_block_Ok: "length b = 512 \<Longrightarrow> init_block b c = Ok (replicate 512 c)"
proof -
  assume b: "length b = 512"
  define after where "after = (\<lambda>n. replicate n c @ drop n b)"
  let ?body = "\<lambda>i b. bind (aput b i c) (\<lambda>b. Ok (Inl b))"
  have "\<exists>t. for_each [0..<BLOC] ?body b = (Ok (Inl t) :: (byte list + byte list) res) \<and> t = after BLOC"
  proof (rule for_upto_rule)
    show "b = after 0" by (simp add: after_def)
  next
    fix i t assume i: "i < BLOC" and t: "t = after i"
    have "(replicate i c @ drop i b)[i := c] = replicate (Suc i) c @ drop (Suc i) b"
      using i b by (simp add: BLOC_def list_update_append replicate_append_same [symmetric] Cons_nth_drop_Suc [symmetric])
    then show "\<exists>t'. ?body i t = (Ok (Inl t') :: (byte list + byte list) res) \<and> t' = after (Suc i)"
      using i b by (simp add: t after_def BLOC_def)
  qed
  with b show ?thesis by (simp add: init_block_def after_def BLOC_def)
qed

lemma check_block_Ok: "check_block (replicate 512 c) c = Ok (-1)"
proof -
  let ?body = "\<lambda>i u. bind (aget (replicate 512 c) i) (\<lambda>x. Ok (if x \<noteq> c then Inr (int i) else Inl u))"
  have "\<exists>t. for_each [0..<BLOC] ?body () = (Ok (Inl t) :: (unit + int) res) \<and> True"
    by (rule for_upto_rule) (simp_all add: BLOC_def)
  then show ?thesis by (auto simp: check_block_def)
qed

context ata_device begin

lemma write_to_end:
  assumes "capacity < 2 ^ 28" and "length b = 512"
  shows "i \<le> capacity \<Longrightarrow> idle (view d) \<Longrightarrow> \<exists>d'. loop (fill_round P b) (0, of_nat i, d) = Ok (of_nat (capacity + 1), d') \<and> idle (view d') \<and>
    sectors (view d') = (\<lambda>k. if i \<le> k \<and> k < capacity then b else sectors (view d) k)"
proof (induction "capacity - i" arbitrary: i d)
  case 0
  then have i: "i = capacity" by simp
  have n: "unat (of_nat i :: dword) = i" using assms(1) i by (simp add: unat_of_nat)
  from idewrite_addressed [OF 0(3), of "of_nat i" b] assms n i obtain d' where
    d': "idewrite P (Some b) (of_nat i) d = Ok (-1, d')" "idle (view d')" "sectors (view d') = sectors (view d)" by auto
  have "loop (fill_round P b) (0, of_nat i, d) = loop (fill_round P b) (-1, of_nat i + 1, d')"
    by (rule loop_step) (simp add: fill_round_def d'(1))
  also have "\<dots> = Ok (of_nat i + 1, d')" by (rule loop_stop) (simp add: fill_round_def)
  finally show ?case using d' i by (intro exI [of _ d']) (auto simp: fun_eq_iff add.commute)
next
  case (Suc m)
  then have i: "i < capacity" by simp
  have n: "unat (of_nat i :: dword) = i" using assms(1) i by (simp add: unat_of_nat)
  from idewrite_addressed [OF Suc(4), of "of_nat i" b] assms n i obtain d1 where
    d1: "idewrite P (Some b) (of_nat i) d = Ok (0, d1)" "idle (view d1)" "sectors (view d1) = (sectors (view d))(i := b)" by auto
  have step: "loop (fill_round P b) (0, of_nat i, d) = loop (fill_round P b) (0, of_nat (Suc i), d1)"
    by (rule loop_step) (simp add: fill_round_def d1(1) add.commute)
  have "m = capacity - Suc i" "Suc i \<le> capacity" using Suc(2) i by simp_all
  from Suc(1) [OF this d1(2)] obtain d' where "loop (fill_round P b) (0, of_nat (Suc i), d1) = Ok (of_nat (capacity + 1), d')" "idle (view d')"
    "sectors (view d') = (\<lambda>k. if Suc i \<le> k \<and> k < capacity then b else sectors (view d1) k)" by blast
  with step d1(3) i show ?case by (intro exI [of _ d']) auto
qed

lemma read_to_end:
  assumes "capacity < 2 ^ 28"
  shows "i \<le> capacity \<Longrightarrow> idle (view d) \<Longrightarrow> length b = 512 \<Longrightarrow> \<exists>b' d'. loop (check_round P) (0, of_nat i, b, d) = Ok (of_nat (capacity + 1), b', d') \<and>
    idle (view d') \<and> sectors (view d') = sectors (view d) \<and> length b' = 512"
proof (induction "capacity - i" arbitrary: i b d)
  case 0
  then have i: "i = capacity" by simp
  have n: "unat (of_nat i :: dword) = i" using assms(1) i by (simp add: unat_of_nat)
  from ideread_addressed [OF 0(3), of "of_nat i" b] assms n i 0(4) obtain d' where
    d': "ideread P (Some b) (of_nat i) d = Ok (-1, Some b, d')" "idle (view d')" "sectors (view d') = sectors (view d)" by auto
  have "loop (check_round P) (0, of_nat i, b, d) = loop (check_round P) (-1, of_nat i + 1, b, d')"
    by (rule loop_step) (simp add: check_round_def read_back_def d'(1))
  also have "\<dots> = Ok (of_nat i + 1, b, d')" by (rule loop_stop) (simp add: check_round_def)
  finally show ?case using d' i 0(4) by (auto simp: add.commute)
next
  case (Suc m)
  then have i: "i < capacity" by simp
  have n: "unat (of_nat i :: dword) = i" using assms(1) i by (simp add: unat_of_nat)
  from ideread_addressed [OF Suc(4), of "of_nat i" b] assms n i Suc(5) obtain d1 where
    d1: "ideread P (Some b) (of_nat i) d = Ok (0, Some (sectors (view d) i), d1)" "idle (view d1)" "sectors (view d1) = sectors (view d)" by auto
  have step: "loop (check_round P) (0, of_nat i, b, d) = loop (check_round P) (0, of_nat (Suc i), sectors (view d) i, d1)"
    by (rule loop_step) (simp add: check_round_def read_back_def d1(1) add.commute)
  have "m = capacity - Suc i" "Suc i \<le> capacity" "length (sectors (view d) i) = 512" using Suc(2) i sector_size by simp_all
  from Suc(1) [OF this(1,2) d1(2) this(3)] step d1(3) show ?case by auto
qed

text \<open>The state between two patterns: the disk is idle and holds \<open>C\<close>.\<close>

definition testing :: "(nat \<Rightarrow> byte list) \<Rightarrow> byte list \<times> 'd bench \<Rightarrow> bool" where
  "testing C bs \<longleftrightarrow> length (fst bs) = 512 \<and> idle (view (disk (snd bs))) \<and> sectors (view (disk (snd bs))) = C"

lemma put_pattern_Ok:
  assumes "testing C bs" and "unat n < capacity" "unat n < 2 ^ 28"
  obtains bs' where "put_pattern P t n c bs = Ok bs'" "testing (C(unat n := replicate 512 c)) bs'"
    "said (snd bs') = said (snd bs) @ takeWhile (\<lambda>c. c \<noteq> 0) (chars t)" "proso_blocks (snd bs') = proso_blocks (snd bs)"
proof -
  obtain b s where bs: "bs = (b, s)" by (cases bs)
  have b: "init_block b c = Ok (replicate 512 c)" using assms(1) by (intro init_block_Ok) (simp add: testing_def bs)
  have "idle (view (disk s))" using assms(1) by (simp add: testing_def bs)
  from idewrite_addressed [OF this assms(3), of "replicate 512 c"] assms(2) obtain d where
    d: "idewrite P (Some (replicate 512 c)) n (disk s) = Ok (0, d)" "idle (view d)" "sectors (view d) = (sectors (view (disk s)))(unat n := replicate 512 c)" by auto
  with b assms(1) show thesis
    by (intro that [of "(replicate 512 c, (say (chars t) s)\<lparr>disk := d\<rparr>)"]) (simp_all add: put_pattern_def bs testing_def say_def)
qed

lemma check_pattern_Ok:
  assumes "testing C bs" and "unat n < capacity" "unat n < 2 ^ 28" "C (unat n) = replicate 512 c"
  obtains bs' where "check_pattern P t n c bs = Ok bs'" "testing C bs'"
    "said (snd bs') = said (snd bs) @ takeWhile (\<lambda>c. c \<noteq> 0) (chars t) @ chars (''[OK]'' @ [CHR 0x0A])" "proso_blocks (snd bs') = proso_blocks (snd bs)"
proof -
  obtain b s where bs: "bs = (b, s)" by (cases bs)
  have b: "init_block b 0xFF = Ok (replicate 512 0xFF)" using assms(1) by (intro init_block_Ok) (simp add: testing_def bs)
  have "idle (view (disk s))" "sectors (view (disk s)) (unat n) = replicate 512 c" using assms(1,4) by (simp_all add: testing_def bs)
  with ideread_addressed [OF this(1) assms(3), of "replicate 512 0xFF"] assms(2) obtain d where
    d: "ideread P (Some (replicate 512 0xFF)) n (disk s) = Ok (0, Some (replicate 512 c), d)" "idle (view d)" "sectors (view d) = sectors (view (disk s))" by auto
  with b assms(1) check_block_Ok [of c] show thesis
    by (intro that [of "(replicate 512 c, say (chars (''[OK]'' @ [CHR 0x0A])) (say (chars t) (s\<lparr>disk := d\<rparr>)))"])
      (simp_all add: check_pattern_def read_back_def bs testing_def say_def chars_def)
qed

lemma report_blocks_Ok:
  assumes "n < 2 ^ 28" and "length b = 512"
  obtains b' where "report_blocks t (of_nat (n + 1)) b s = Ok (b', s\<lparr>said := said s @ [10] @ decimal n @ takeWhile (\<lambda>c. c \<noteq> 0) (chars t)\<rparr>)" "length b' = 512"
proof -
  have small: "n < 2 ^ 31" using assms(1) by simp
  have l: "length (decimal n) < length b" using decimal_length [OF small] assms(2) by simp
  then have "itoa (int n) b = Ok (with_segment 0 (decimal n @ [0]) b)" using itoa_decimal_aux [of "int n" b] by simp
  moreover have "takeWhile (\<lambda>c. c \<noteq> 0) (with_segment 0 (decimal n @ [0]) b) = decimal n" by (rule takeWhile_with_segment [OF decimal_no_nul])
  moreover have "length (with_segment 0 (decimal n @ [0]) b) = 512" using l assms(2) by (simp add: with_segment_def)
  ultimately show thesis by (intro that) (simp_all add: report_blocks_def sint_of_nat_small [OF small] say_def)
qed

lemma ide_check_disk_tests:
  assumes cap: "6 \<le> capacity" "capacity < 2 ^ 28" and s: "idle (view (disk s))" "havedisk0 (found s) \<noteq> 0" and b: "length b = 512"
  shows "\<exists>s'. ide_check_disk P b s = Ok (0, s') \<and> sectors (view (disk s')) = tested capacity (sectors (view (disk s))) \<and>
    said s' = said s @ test_text capacity \<and> proso_blocks s' = of_nat capacity"
proof -
  define C0 where "C0 = (\<lambda>k. if k < capacity then replicate 512 0xFF else sectors (view (disk s)) k)"
  define s1 where "s1 = say (chars (''** Starting tests **'' @ [CHR 0x0A])) s"
  have b0: "init_block b 0xFF = Ok (replicate 512 0xFF)" by (rule init_block_Ok [OF b])
  have ds: "disk s1 = disk s" by (simp add: s1_def say_def)
  from write_to_end [OF cap(2) _ _ s(1), of "replicate 512 0xFF" 0] obtain d1 where
    w: "loop (fill_round P (replicate 512 0xFF)) (0, 0, disk s) = Ok (of_nat (capacity + 1), d1)" "idle (view d1)" "sectors (view d1) = C0"
    by (auto simp: C0_def)
  obtain b2 where b2: "report_blocks ('' blocs written'' @ [CHR 0x0A]) (of_nat (capacity + 1)) (replicate 512 0xFF) (s1\<lparr>disk := d1\<rparr>) =
      Ok (b2, (s1\<lparr>disk := d1\<rparr>)\<lparr>said := said (s1\<lparr>disk := d1\<rparr>) @ [10] @ decimal capacity @ takeWhile (\<lambda>c. c \<noteq> 0) (chars ('' blocs written'' @ [CHR 0x0A]))\<rparr>)" "length b2 = 512"
    by (rule report_blocks_Ok [OF cap(2) length_replicate])
  let ?s2 = "(s1\<lparr>disk := d1\<rparr>)\<lparr>said := said (s1\<lparr>disk := d1\<rparr>) @ [10] @ decimal capacity @ takeWhile (\<lambda>c. c \<noteq> 0) (chars ('' blocs written'' @ [CHR 0x0A]))\<rparr>"
  define s2 where "s2 = ?s2"
  define s3 where "s3 = s2\<lparr>proso_blocks := of_nat (capacity + 1) - 1\<rparr>"
  note b2 = b2 [folded s2_def]
  have "idle (view (disk s3))" using w(2) by (simp add: s3_def s2_def)
  from read_to_end [OF cap(2) _ this b2(2), of 0] obtain b3 d3 where
    r: "loop (check_round P) (0, 0, b2, disk s3) = Ok (of_nat (capacity + 1), b3, d3)" "idle (view d3)" "sectors (view d3) = C0" "length b3 = 512"
    using w(3) by (auto simp: s3_def s2_def)
  obtain b4 where b4: "report_blocks ('' blocs read'' @ [CHR 0x0A, CHR 0x0A]) (of_nat (capacity + 1)) b3 (s3\<lparr>disk := d3\<rparr>) =
      Ok (b4, (s3\<lparr>disk := d3\<rparr>)\<lparr>said := said (s3\<lparr>disk := d3\<rparr>) @ [10] @ decimal capacity @ takeWhile (\<lambda>c. c \<noteq> 0) (chars ('' blocs read'' @ [CHR 0x0A, CHR 0x0A]))\<rparr>)" "length b4 = 512"
    by (rule report_blocks_Ok [OF cap(2) r(4)])
  define s4 where "s4 = (s3\<lparr>disk := d3\<rparr>)\<lparr>said := said (s3\<lparr>disk := d3\<rparr>) @ [10] @ decimal capacity @ takeWhile (\<lambda>c. c \<noteq> 0) (chars ('' blocs read'' @ [CHR 0x0A, CHR 0x0A]))\<rparr>"
  note b4 = b4 [folded s4_def]
  have t4: "testing C0 (b4, s4)" using r b4(2) by (simp add: testing_def s4_def)
  have n: "unat (1 :: dword) = 1" "unat (3 :: dword) = 3" "unat (5 :: dword) = 5" "unat (2 :: dword) = 2" by simp_all
  have lt: "unat (1 :: dword) < capacity" "unat (3 :: dword) < capacity" "unat (5 :: dword) < capacity" "unat (2 :: dword) < capacity" using cap(1) by simp_all
  have lt28: "unat (1 :: dword) < 2 ^ 28" "unat (3 :: dword) < 2 ^ 28" "unat (5 :: dword) < 2 ^ 28" "unat (2 :: dword) < 2 ^ 28" by simp_all
  obtain p1 where p1: "put_pattern P (''Write block 1 with 512 '' @ [CHR 0x27] @ ''0xab'' @ [CHR 0x27] @ '' bytes '' @ [CHR 0x0A]) 1 0xAB (b4, s4) = Ok p1" "testing (C0(1 := replicate 512 0xAB)) p1"
    "said (snd p1) = said (snd (b4, s4)) @ takeWhile (\<lambda>c. c \<noteq> 0) (chars (''Write block 1 with 512 '' @ [CHR 0x27] @ ''0xab'' @ [CHR 0x27] @ '' bytes '' @ [CHR 0x0A]))" "proso_blocks (snd p1) = proso_blocks (snd (b4, s4))"
    by (rule put_pattern_Ok [OF t4 lt(1) lt28(1), unfolded n])
  obtain p2 where p2: "put_pattern P (''Write block 3 with 512 '' @ [CHR 0x27] @ ''0xca'' @ [CHR 0x27] @ '' bytes '' @ [CHR 0x0A]) 3 0xCA p1 = Ok p2" "testing (C0(1 := replicate 512 0xAB, 3 := replicate 512 0xCA)) p2"
    "said (snd p2) = said (snd p1) @ takeWhile (\<lambda>c. c \<noteq> 0) (chars (''Write block 3 with 512 '' @ [CHR 0x27] @ ''0xca'' @ [CHR 0x27] @ '' bytes '' @ [CHR 0x0A]))" "proso_blocks (snd p2) = proso_blocks (snd p1)"
    by (rule put_pattern_Ok [OF p1(2) lt(2) lt28(2), unfolded n])
  obtain p3 where p3: "put_pattern P (''Write block 5 with 512 '' @ [CHR 0x27] @ ''0xab'' @ [CHR 0x27] @ '' bytes '' @ [CHR 0x0A]) 5 0xAB p2 = Ok p3" "testing (C0(1 := replicate 512 0xAB, 3 := replicate 512 0xCA, 5 := replicate 512 0xAB)) p3"
    "said (snd p3) = said (snd p2) @ takeWhile (\<lambda>c. c \<noteq> 0) (chars (''Write block 5 with 512 '' @ [CHR 0x27] @ ''0xab'' @ [CHR 0x27] @ '' bytes '' @ [CHR 0x0A]))" "proso_blocks (snd p3) = proso_blocks (snd p2)"
    by (rule put_pattern_Ok [OF p2(2) lt(3) lt28(3), unfolded n])
  obtain p4 where p4: "check_pattern P (''Read block 5 that contain 512 '' @ [CHR 0x27] @ ''0xab'' @ [CHR 0x27] @ '' bytes '') 5 0xAB p3 = Ok p4" "testing (C0(1 := replicate 512 0xAB, 3 := replicate 512 0xCA, 5 := replicate 512 0xAB)) p4"
    "said (snd p4) = said (snd p3) @ takeWhile (\<lambda>c. c \<noteq> 0) (chars (''Read block 5 that contain 512 '' @ [CHR 0x27] @ ''0xab'' @ [CHR 0x27] @ '' bytes '')) @ chars (''[OK]'' @ [CHR 0x0A])" "proso_blocks (snd p4) = proso_blocks (snd p3)"
    by (rule check_pattern_Ok [OF p3(2) lt(3) lt28(3), where c = "0xAB", unfolded n]) simp
  obtain p5 where p5: "check_pattern P (''Read block 3 that contain 512 '' @ [CHR 0x27] @ ''0xca'' @ [CHR 0x27] @ '' bytes '') 3 0xCA p4 = Ok p5" "testing (C0(1 := replicate 512 0xAB, 3 := replicate 512 0xCA, 5 := replicate 512 0xAB)) p5"
    "said (snd p5) = said (snd p4) @ takeWhile (\<lambda>c. c \<noteq> 0) (chars (''Read block 3 that contain 512 '' @ [CHR 0x27] @ ''0xca'' @ [CHR 0x27] @ '' bytes '')) @ chars (''[OK]'' @ [CHR 0x0A])" "proso_blocks (snd p5) = proso_blocks (snd p4)"
    by (rule check_pattern_Ok [OF p4(2) lt(2) lt28(2), where c = "0xCA", unfolded n]) simp
  obtain p6 where p6: "check_pattern P (''Read block 1 that contain 512 '' @ [CHR 0x27] @ ''0xab'' @ [CHR 0x27] @ '' bytes '') 1 0xAB p5 = Ok p6" "testing (C0(1 := replicate 512 0xAB, 3 := replicate 512 0xCA, 5 := replicate 512 0xAB)) p6"
    "said (snd p6) = said (snd p5) @ takeWhile (\<lambda>c. c \<noteq> 0) (chars (''Read block 1 that contain 512 '' @ [CHR 0x27] @ ''0xab'' @ [CHR 0x27] @ '' bytes '')) @ chars (''[OK]'' @ [CHR 0x0A])" "proso_blocks (snd p6) = proso_blocks (snd p5)"
    by (rule check_pattern_Ok [OF p5(2) lt(1) lt28(1), where c = "0xAB", unfolded n]) simp
  obtain p7 where p7: "put_pattern P (''Write block 2 with 512 '' @ [CHR 0x27] @ ''0x22'' @ [CHR 0x27] @ '' bytes '' @ [CHR 0x0A]) 2 0x22 p6 = Ok p7" "testing (C0(1 := replicate 512 0xAB, 3 := replicate 512 0xCA, 5 := replicate 512 0xAB, 2 := replicate 512 0x22)) p7"
    "said (snd p7) = said (snd p6) @ takeWhile (\<lambda>c. c \<noteq> 0) (chars (''Write block 2 with 512 '' @ [CHR 0x27] @ ''0x22'' @ [CHR 0x27] @ '' bytes '' @ [CHR 0x0A]))" "proso_blocks (snd p7) = proso_blocks (snd p6)"
    by (rule put_pattern_Ok [OF p6(2) lt(4) lt28(4), unfolded n])
  obtain p8 where p8: "check_pattern P (''Read block 2 that contain 512 '' @ [CHR 0x27] @ ''0x22'' @ [CHR 0x27] @ '' bytes '') 2 0x22 p7 = Ok p8" "testing (C0(1 := replicate 512 0xAB, 3 := replicate 512 0xCA, 5 := replicate 512 0xAB, 2 := replicate 512 0x22)) p8"
    "said (snd p8) = said (snd p7) @ takeWhile (\<lambda>c. c \<noteq> 0) (chars (''Read block 2 that contain 512 '' @ [CHR 0x27] @ ''0x22'' @ [CHR 0x27] @ '' bytes '')) @ chars (''[OK]'' @ [CHR 0x0A])" "proso_blocks (snd p8) = proso_blocks (snd p7)"
    by (rule check_pattern_Ok [OF p7(2) lt(4) lt28(4), where c = "0x22", unfolded n]) simp
  define s' where "s' = say (chars (''** Finished tests **'' @ [CHR 0x0A, CHR 0x0A])) (snd p8)"
  have "ide_check_disk P b s = Ok (0, s')"
    unfolding ide_check_disk_def Let_def s1_def [symmetric] ds b0 bind.simps w(1) split b2(1) s3_def [symmetric] r(1) b4(1)
      p1(1) p2(1) p3(1) p4(1) p5(1) p6(1) p7(1) p8(1)
    using s(2) by (simp add: s'_def split_beta)
  moreover have "sectors (view (disk s')) = tested capacity (sectors (view (disk s)))"
    using p8(2) by (simp add: testing_def s'_def say_def tested_def C0_def)
  moreover have "proso_blocks s' = of_nat capacity"
    by (simp add: s'_def say_def p8(4) p7(4) p6(4) p5(4) p4(4) p3(4) p2(4) p1(4) s4_def s3_def)
  moreover have "said s' = said s @ test_text capacity"
    unfolding test_text_def s'_def say_def
    by (simp add: p8(3) p7(3) p6(3) p5(3) p4(3) p3(3) p2(3) p1(3) s4_def s3_def s2_def s1_def say_def takeWhile_chars)
  ultimately show ?thesis by blast
qed

end

text \<open>
  The disk test destroys the disk: on a disk of at least six blocks that \<open>ideinit\<close> found it writes every block, finds the
  end of the disk by the first write that fails, reports the number of blocks and leaves 0xFF in all of them but 1, 2, 3 and 5,
  which hold the patterns it reads back; it prints OK for each and returns 0.
\<close>

lemma disk_test_erases:
  assumes dev: "ata_device P view cap" and cap: "6 \<le> cap" "cap < 2 ^ 28" and s: "idle (view (disk s))" "havedisk0 (found s) \<noteq> 0" and b: "length b = 512"
  shows "\<exists>s'. ide_check_disk P b s = Ok (0, s') \<and> sectors (view (disk s')) = tested cap (sectors (view (disk s))) \<and>
    said s' = said s @ test_text cap \<and> proso_blocks s' = of_nat cap"
  by (rule ata_device.ide_check_disk_tests [OF dev cap s b])

section \<open>The test of the file system\<close>

text \<open>
  The strings of \<open>FStest\<close> are local arrays of 30 and 50 bytes filled up with zeros, the names arrays of 11 bytes without
  an end. \<open>fileContent\<close> is not initialised: its first contents are the parameter \<open>b\<close>. \<open>printk\<close> of it reads on behind the array
  when there is no zero in it.
\<close>

definition local_array :: "nat \<Rightarrow> string \<Rightarrow> byte list" where
  "local_array n t = chars t @ replicate (n - length t) 0"

definition print_array :: "byte list \<Rightarrow> 'd fs \<Rightarrow> 'd fs res" where
  "print_array b s = (if 0 \<in> set b then Ok (printk b s) else Fault OutOfBounds)"

definition search_DWord :: "'d blockdev \<Rightarrow> string \<Rightarrow> 'd fs \<Rightarrow> (dword \<times> 'd fs) res" where
  "search_DWord dev path s = bind (searchFile dev (local_array 30 path) s) (\<lambda>(r, s). Ok (word_of_int r, s))"

definition search_three :: "'d blockdev \<Rightarrow> 'd fs \<Rightarrow> (dword \<times> dword \<times> dword \<times> 'd fs) res" where
  "search_three dev s =
     bind (search_DWord dev ''/DIR1/FILE0'' s) (\<lambda>(c0, s).
     bind (search_DWord dev ''/DIR1/FILE1'' s) (\<lambda>(c1, s).
     bind (search_DWord dev ''/DIR2/FILE2'' s) (\<lambda>(c2, s). Ok (c0, c1, c2, s))))"

definition show_file :: "'d blockdev \<Rightarrow> dword \<Rightarrow> int \<Rightarrow> string \<Rightarrow> byte list \<times> 'd fs \<Rightarrow> (byte list \<times> 'd fs) res" where
  "show_file dev c start label = (\<lambda>(fileContent, s).
     bind (readFile dev c fileContent 50 start s) (\<lambda>(_, fileContent, s).
     bind (print_array fileContent (printk (chars label) s)) (\<lambda>s. Ok (fileContent, printk [10] s))))"

definition FS_read_test :: "'d blockdev \<Rightarrow> byte list \<Rightarrow> 'd fs \<Rightarrow> 'd fs res" where
  "FS_read_test dev fileContent s =
     bind (search_three dev s) (\<lambda>(c0, c1, c2, s).
     bind (show_file dev c0 0 ''file0 content: '' (fileContent, s)) (\<lambda>fs.
     bind (show_file dev c1 0 ''file1 content: '' fs) (\<lambda>fs.
     bind (show_file dev c0 5 ''file2 content, starting position=5: '' fs) (\<lambda>(_, s). Ok s))))"

definition FS_write_test :: "'d blockdev \<Rightarrow> 'd fs \<Rightarrow> 'd fs res" where
  "FS_write_test dev s =
     bind (search_three dev s) (\<lambda>(c0, c1, c2, s).
     bind (writeFile dev c0 (local_array 50 ''Overwritten FILE0'') 50 0 s) (\<lambda>(_, s).
     bind (writeFile dev c1 (local_array 50 ''Overwritten FILE1'') 50 0 s) (\<lambda>(_, s).
     bind (writeFile dev c2 (local_array 50 ''Overwritten FILE2'') 50 5 s) (\<lambda>(_, s).
     Ok (printk (chars (''Files written'' @ [CHR 0x0A])) s)))))"

definition FS_create_test :: "'d blockdev \<Rightarrow> 'd fs \<Rightarrow> 'd fs res" where
  "FS_create_test dev s =
     bind (createFile dev (local_array 30 ''/DIR1'') (chars ''FILE3      '') 0x20 s) (\<lambda>(_, s).
     bind (createFile dev (local_array 30 ''/DIR1'') (chars ''FILE4      '') 0x20 s) (\<lambda>(_, s).
     bind (createFile dev (local_array 30 ''/DIR1'') (chars ''DIR3       '') 0x10 s) (\<lambda>(_, s).
     bind (createFile dev (local_array 30 ''/DIR1/DIR3'') (chars ''FILE6      '') 0x20 s) (\<lambda>(_, s).
     Ok (printk (chars (''Files created'' @ [CHR 0x0A])) s)))))"

definition FS_delete_test :: "'d blockdev \<Rightarrow> 'd fs \<Rightarrow> 'd fs res" where
  "FS_delete_test dev s =
     bind (deleteFile dev (local_array 30 ''/DIR1'') (chars ''FILE1      '') s) (\<lambda>(_, s).
     bind (deleteFile dev (local_array 30 ''/DIR2'') (chars ''FILE2      '') s) (\<lambda>(_, s).
     Ok (printk (chars (''Files deleted'' @ [CHR 0x0A])) s)))"

definition FStest :: "'d blockdev \<Rightarrow> byte list \<Rightarrow> int \<Rightarrow> 'd fs \<Rightarrow> 'd fs res" where
  "FStest dev fileContent testNum s =
     bind (if testNum = 1 then FS_read_test dev fileContent s
           else if testNum = 2 then FS_write_test dev s
           else if testNum = 3 then FS_create_test dev s
           else if testNum = 4 then FS_delete_test dev s
           else Ok s) (\<lambda>s. copyFATtoDisk dev 0 s)"


section \<open>What the read test prints\<close>

text \<open>The volume \<open>s\<close> after reads: the disk may have moved on and text may be printed.\<close>

definition same_volume :: "('d \<Rightarrow> ata_view) \<Rightarrow> 'd fs \<Rightarrow> byte list \<Rightarrow> 'd fs \<Rightarrow> bool" where
  "same_volume view s t s' \<longleftrightarrow> (\<exists>d. s' = s\<lparr>device := d, console := console s @ t\<rparr> \<and> idle (view d) \<and> sectors (view d) = blocks view s)"

lemma resolves_device: "resolves C nb s c ns v \<Longrightarrow> resolves C nb (s\<lparr>device := d\<rparr>) c ns v"
proof (induction rule: resolves.induct)
  case (missing c cs n ns)
  then show ?case by (intro resolves.missing [where cs = cs]) simp_all
next
  case (found c cs n v ns)
  then show ?case by (intro resolves.found [where cs = cs]) simp_all
next
  case (below c cs n e ns v)
  then show ?case by (intro resolves.below [where cs = cs and d = e]) simp_all
qed (rule resolves.here)

lemma search_DWord_resolves:
  assumes vol: "volume P view cap s" and path: "0 \<notin> set (chars path)" "length path < 30"
    and res: "resolves (blocks view s) (disk_size cap) s (rootClusterNum (extendedBootRecord s)) (tl (components (chars path))) v"
    and v: "v \<noteq> 0xFFFFFFFF" and d: "idle (view d)" "sectors (view d) = blocks view s"
  obtains d' where "search_DWord (ide_blockdev P) path (s\<lparr>device := d\<rparr>) = Ok (v, s\<lparr>device := d'\<rparr>)" "idle (view d')" "sectors (view d') = blocks view s"
proof -
  have n: "30 - length path = Suc (29 - length path)" using path(2) by simp
  have a: "local_array 30 path = chars path @ 0 # replicate (29 - length path) 0"
    unfolding local_array_def n by (simp only: replicate_Suc)
  have "resolves (sectors (view (device (s\<lparr>device := d\<rparr>)))) (disk_size cap) (s\<lparr>device := d\<rparr>) (rootClusterNum (extendedBootRecord (s\<lparr>device := d\<rparr>))) (tl (components (chars path))) v"
    using resolves_device [OF res] d(2) by simp
  from block_device.searchFile_resolves [OF volumeD(1) [OF vol] this _ path(1)] volumeD(3,5) [OF vol] d obtain d' where
    d': "searchFile (ide_blockdev P) (chars path @ [0]) (s\<lparr>device := d\<rparr>) = Ok (if v = 0xFFFFFFFF then 0 else sint v, s\<lparr>device := d'\<rparr>)"
    "idle (view d')" "sectors (view d') = blocks view s" by auto
  have "search_DWord (ide_blockdev P) path (s\<lparr>device := d\<rparr>) = Ok (v, s\<lparr>device := d'\<rparr>)"
    unfolding search_DWord_def a using v by (subst searchFile_array [OF path(1)]) (simp add: d'(1))
  then show thesis by (rule that [OF _ d'(2,3)])
qed

definition leads_to :: "('d \<Rightarrow> ata_view) \<Rightarrow> nat \<Rightarrow> 'd fs \<Rightarrow> string \<Rightarrow> dword \<Rightarrow> bool" where
  "leads_to view cap s path v \<longleftrightarrow> v \<noteq> 0xFFFFFFFF \<and>
     resolves (blocks view s) (disk_size cap) s (rootClusterNum (extendedBootRecord s)) (tl (components (chars path))) v"

lemma search_three_resolves:
  assumes vol: "volume P view cap s" and "leads_to view cap s ''/DIR1/FILE0'' v0" "leads_to view cap s ''/DIR1/FILE1'' v1"
    "leads_to view cap s ''/DIR2/FILE2'' v2"
  obtains s' where "search_three (ide_blockdev P) s = Ok (v0, v1, v2, s')" "same_volume view s [] s'"
proof -
  have p: "0 \<notin> set (chars ''/DIR1/FILE0'')" "0 \<notin> set (chars ''/DIR1/FILE1'')" "0 \<notin> set (chars ''/DIR2/FILE2'')" by (simp_all add: chars_def)
  have l: "length ''/DIR1/FILE0'' < 30" "length ''/DIR1/FILE1'' < 30" "length ''/DIR2/FILE2'' < 30" by simp_all
  note r = assms(2-4) [unfolded leads_to_def]
  obtain d0 where 0: "search_DWord (ide_blockdev P) ''/DIR1/FILE0'' (s\<lparr>device := device s\<rparr>) = Ok (v0, s\<lparr>device := d0\<rparr>)" "idle (view d0)" "sectors (view d0) = blocks view s"
    by (rule search_DWord_resolves [OF vol p(1) l(1) conjunct2 [OF r(1)] conjunct1 [OF r(1)] volumeD(2) [OF vol] blocks_def [symmetric]])
  obtain d1 where 1: "search_DWord (ide_blockdev P) ''/DIR1/FILE1'' (s\<lparr>device := d0\<rparr>) = Ok (v1, s\<lparr>device := d1\<rparr>)" "idle (view d1)" "sectors (view d1) = blocks view s"
    by (rule search_DWord_resolves [OF vol p(2) l(2) conjunct2 [OF r(2)] conjunct1 [OF r(2)] 0(2,3)])
  obtain d2 where 2: "search_DWord (ide_blockdev P) ''/DIR2/FILE2'' (s\<lparr>device := d1\<rparr>) = Ok (v2, s\<lparr>device := d2\<rparr>)" "idle (view d2)" "sectors (view d2) = blocks view s"
    by (rule search_DWord_resolves [OF vol p(3) l(3) conjunct2 [OF r(3)] conjunct1 [OF r(3)] 1(2,3)])
  have "s\<lparr>device := device s\<rparr> = s" by simp
  note 0 = 0 [unfolded this]
  show thesis
    by (rule that [of "s\<lparr>device := d2\<rparr>"])
      (unfold search_three_def 0(1) 1(1) 2(1) bind.simps split, use 2 in \<open>auto simp: same_volume_def\<close>)
qed

text \<open>A file on the volume whose 50 bytes from \<open>start\<close> lie in its first cluster and hold a zero.\<close>

definition shown :: "('d \<Rightarrow> ata_view) \<Rightarrow> nat \<Rightarrow> 'd fs \<Rightarrow> dword list \<Rightarrow> bool" where
  "shown view cap s cs \<longleftrightarrow> cs \<noteq> [] \<and> data_chain (disk_size cap) s cs \<and> (\<forall>c \<in> set cs. unat c * spc s + reserved s + spc s < disk_size cap)"

definition window :: "('d \<Rightarrow> ata_view) \<Rightarrow> 'd fs \<Rightarrow> dword list \<Rightarrow> nat \<Rightarrow> byte list" where
  "window view s cs start = map (\<lambda>i. file_byte (blocks view s) s cs (start + i)) [0..<50]"

lemma same_volume_chain:
  assumes "volume P view cap s" and "same_volume view s t s'" and "shown view cap s cs"
  shows "volume P view cap s'" "shown view cap s' cs" "window view s' cs = window view s cs" "blocks view s' = blocks view s"
  using assms
  by (auto simp: same_volume_def volume_def shown_def data_chain_def readable_def cluster_sectors_def getDiskSector_def window_def file_byte_def
      file_sector_def blocks_def)

lemma show_file_prints:
  assumes vol: "volume P view cap s" and same: "same_volume view s t s'" and shown: "shown view cap s cs"
    and w: "0 \<in> set (window view s cs start)" and start: "start \<le> 400" "i = int start" and b: "length b = 50"
  obtains b' s'' where "show_file (ide_blockdev P) (hd cs) i label (b, s') = Ok (b', s'')" "length b' = 50"
    "same_volume view s (t @ takeWhile (\<lambda>c. c \<noteq> 0) (chars label) @ takeWhile (\<lambda>c. c \<noteq> 0) (window view s cs start) @ [10]) s''"
proof -
  note s' = same_volume_chain [OF vol same shown]
  have pos: "512 \<le> 512 * spc s'" using volumeD(4) [OF s'(1)] by simp
  have k: "start div (512 * spc s') = 0" "0 < length cs" using start(1) pos s'(2) by (simp_all add: shown_def)
  have m: "start mod (512 * spc s') = start" using start(1) pos by simp
  have c: "data_chain (disk_size cap) s' cs" "\<forall>c \<in> set cs. unat c * spc s' + reserved s' + spc s' < disk_size cap" using s'(2) by (simp_all add: shown_def)
  have l: "50 \<le> length b" "start mod (512 * spc s') + 50 \<le> 512 * spc s'" using start(1) pos b unfolding m by simp_all
  from read_in_cluster_bytes [OF s'(1) c(1) k l c(2)] obtain d where
    d: "readFile (ide_blockdev P) (hd cs) b (int 50) (int start) s' = Ok (0, copied b (\<lambda>i. file_byte (blocks view s') s' cs (start + i)) 50, s'\<lparr>device := d\<rparr>)"
    "idle (view d)" "sectors (view d) = blocks view s'" by blast
  have cp: "copied b (\<lambda>i. file_byte (blocks view s') s' cs (start + i)) 50 = window view s cs start"
    using b unfolding s'(3) [symmetric] by (simp add: copied_def window_def)
  show thesis
  proof (rule that [of "window view s cs start" "printk [10] (printk (window view s cs start) (printk (chars label) (s'\<lparr>device := d\<rparr>)))"])
    show "show_file (ide_blockdev P) (hd cs) i label (b, s') =
        Ok (window view s cs start, printk [10] (printk (window view s cs start) (printk (chars label) (s'\<lparr>device := d\<rparr>))))"
      using w d(1) unfolding cp start(2) by (simp add: show_file_def print_array_def)
    show "length (window view s cs start) = 50" by (simp add: window_def)
    show "same_volume view s (t @ takeWhile (\<lambda>c. c \<noteq> 0) (chars label) @ takeWhile (\<lambda>c. c \<noteq> 0) (window view s cs start) @ [10])
        (printk [10] (printk (window view s cs start) (printk (chars label) (s'\<lparr>device := d\<rparr>))))"
      using same d(2,3) s'(4) by (auto simp: same_volume_def printk_def)
  qed
qed

text \<open>
  The read test prints what the three files hold from the start of the first two, and from byte 5 on of the first again:
  the third read takes \<open>c0\<close>, so that "/DIR2/FILE2" is searched but never read.
\<close>

definition read_test_text :: "('d \<Rightarrow> ata_view) \<Rightarrow> 'd fs \<Rightarrow> dword list \<Rightarrow> dword list \<Rightarrow> byte list" where
  "read_test_text view s cs0 cs1 =
     text_of ''file0 content: '' @ takeWhile (\<lambda>c. c \<noteq> 0) (window view s cs0 0) @ [10] @
     text_of ''file1 content: '' @ takeWhile (\<lambda>c. c \<noteq> 0) (window view s cs1 0) @ [10] @
     text_of ''file2 content, starting position=5: '' @ takeWhile (\<lambda>c. c \<noteq> 0) (window view s cs0 5) @ [10]"

text \<open>
  The read test of \<open>FStest\<close> on a volume with the tree it names prints the start of "/DIR1/FILE0" and of "/DIR1/FILE1", and under
  the label of the third file "/DIR1/FILE0" again from byte 5 on; it changes nothing on the disk but the first sector of the table, which
  it stores.
\<close>

lemma read_test_prints:
  assumes vol: "volume P view cap s"
    and paths: "leads_to view cap s ''/DIR1/FILE0'' (hd cs0)" "leads_to view cap s ''/DIR1/FILE1'' (hd cs1)" "leads_to view cap s ''/DIR2/FILE2'' v2"
    and files: "shown view cap s cs0" "shown view cap s cs1"
    and zero: "0 \<in> set (window view s cs0 0)" "0 \<in> set (window view s cs1 0)" "0 \<in> set (window view s cs0 5)" and b: "length b = 50"
  shows "\<exists>s'. FStest (ide_blockdev P) b 1 s = Ok s' \<and> console s' = console s @ read_test_text view s cs0 cs1 \<and>
    blocks view s' = (blocks view s)(reserved s := FAT_sector_bytes (FAT s)) \<and> volume P view cap s'"
proof -
  obtain s1 where 1: "search_three (ide_blockdev P) s = Ok (hd cs0, hd cs1, v2, s1)" "same_volume view s [] s1"
    by (rule search_three_resolves [OF vol paths])
  have small: "0 \<le> (400 :: nat)" "5 \<le> (400 :: nat)" "0 = int 0" "5 = int 5" by simp_all
  obtain b2 s2 where 2: "show_file (ide_blockdev P) (hd cs0) 0 ''file0 content: '' (b, s1) = Ok (b2, s2)" "length b2 = 50"
    "same_volume view s ([] @ text_of ''file0 content: '' @ takeWhile (\<lambda>c. c \<noteq> 0) (window view s cs0 0) @ [10]) s2"
    by (rule show_file_prints [OF vol 1(2) files(1) zero(1) small(1,3) b, where label = "''file0 content: ''", folded text_of_def])
  obtain b3 s3 where 3: "show_file (ide_blockdev P) (hd cs1) 0 ''file1 content: '' (b2, s2) = Ok (b3, s3)" "length b3 = 50"
    "same_volume view s (([] @ text_of ''file0 content: '' @ takeWhile (\<lambda>c. c \<noteq> 0) (window view s cs0 0) @ [10]) @
      text_of ''file1 content: '' @ takeWhile (\<lambda>c. c \<noteq> 0) (window view s cs1 0) @ [10]) s3"
    by (rule show_file_prints [OF vol 2(3) files(2) zero(2) small(1,3) 2(2), where label = "''file1 content: ''", folded text_of_def])
  obtain b4 s4 where 4: "show_file (ide_blockdev P) (hd cs0) 5 ''file2 content, starting position=5: '' (b3, s3) = Ok (b4, s4)"
    "same_volume view s ((([] @ text_of ''file0 content: '' @ takeWhile (\<lambda>c. c \<noteq> 0) (window view s cs0 0) @ [10]) @
      text_of ''file1 content: '' @ takeWhile (\<lambda>c. c \<noteq> 0) (window view s cs1 0) @ [10]) @
      text_of ''file2 content, starting position=5: '' @ takeWhile (\<lambda>c. c \<noteq> 0) (window view s cs0 5) @ [10]) s4"
    by (rule show_file_prints [OF vol 3(3) files(1) zero(3) small(2,4) 3(2), where label = "''file2 content, starting position=5: ''", folded text_of_def])
  have rt: "FS_read_test (ide_blockdev P) b s = Ok s4"
    unfolding FS_read_test_def 1(1) bind.simps split 2(1) 3(1) 4(1) ..
  note s4 = same_volume_chain [OF vol 4(2) files(1)]
  from block_device.copyFATtoDisk_stores [OF volumeD(1) [OF s4(1)] volumeD(2) [OF s4(1)], of 0] volumeD(5,6) [OF s4(1)] obtain d where
    d: "copyFATtoDisk (ide_blockdev P) 0 s4 = Ok (s4\<lparr>device := d\<rparr>)" "idle (view d)"
    "sectors (view d) = (sectors (view (device s4)))(reserved s4 := FAT_sector_bytes (FAT s4))" by (auto simp: FAT_SIZE_def)
  have "console s4 = console s @ read_test_text view s cs0 cs1" "reserved s4 = reserved s" "FAT s4 = FAT s"
    using 4(2) by (auto simp: same_volume_def read_test_text_def)
  with d s4 rt show ?thesis
    by (intro exI [of _ "s4\<lparr>device := d\<rparr>"]) (auto simp: FStest_def blocks_def volume_keep)
qed

text \<open>A volume with the tree the test expects, one cluster each: directories 2, 3 and 4, files 5, 6 and 7.\<close>

definition tree_entry :: "string \<Rightarrow> byte \<Rightarrow> byte \<Rightarrow> byte list" where
  "tree_entry name attr c = chars name @ attr # replicate 14 0 @ c # replicate 5 0"

definition tree_dir :: "byte list list \<Rightarrow> byte list" where
  "tree_dir es = concat es @ replicate (512 - 32 * length es) 0"

definition tree_disk :: ata_dev where
  "tree_disk = demo_disk\<lparr>sectors := (\<lambda>_. replicate 512 0)(
     3 := tree_dir [tree_entry ''DIR1       '' 0x10 3, tree_entry ''DIR2       '' 0x10 4],
     4 := tree_dir [tree_entry ''FILE0      '' 0x20 5, tree_entry ''FILE1      '' 0x20 6],
     5 := tree_dir [tree_entry ''FILE2      '' 0x20 7],
     6 := chars ''the first file'' @ replicate 498 0, 7 := chars ''the second'' @ replicate 502 0, 8 := chars ''the third'' @ replicate 503 0)\<rparr>"

definition tree :: "ata_dev fs" where
  "tree = demo\<lparr>device := tree_disk, FAT := (replicate FAT_SIZE 0)[0 := 0x0FFFFFF8, 1 := 0x0FFFFFFF, 2 := 0x0FFFFFFF, 3 := 0x0FFFFFFF,
     4 := 0x0FFFFFFF, 5 := 0x0FFFFFFF, 6 := 0x0FFFFFFF, 7 := 0x0FFFFFFF]\<rparr>"

lemma length_tree_entry: "length name = 11 \<Longrightarrow> length (tree_entry name a c) = 32"
  by (simp add: tree_entry_def chars_def)

lemma decode_tree_entry:
  assumes "length name = 11" and "b = pre @ tree_entry name a c @ post" and "length pre = k"
  shows "filename (decode_entry b k blank_entry) = chars name" "attributes (decode_entry b k blank_entry) = a"
    "entry_cluster (decode_entry b k blank_entry) = ucast (scast c :: word16)"
  using assms
  by (simp_all add: decode_entry_def tree_entry_def entry_cluster_def nth_append chars_def)

lemma length_tree_dir: "\<forall>e \<in> set es. length e = 32 \<Longrightarrow> length es \<le> 16 \<Longrightarrow> length (tree_dir es) = 512"
proof -
  assume es: "\<forall>e \<in> set es. length e = 32" and n: "length es \<le> 16"
  from es have "length (concat es) = 32 * length es" by (induction es) auto
  with n show ?thesis by (simp add: tree_dir_def)
qed

lemma tree_select:
  "bps tree = 512" "spc tree = 1" "reserved tree = 1" "rootClusterNum (extendedBootRecord tree) = 2" "length (FAT tree) = FAT_SIZE" "console tree = []"
  "getDiskSector tree c j = c + 1 + word_of_int j"
  using demo_getDiskSector [of c j] by (simp_all add: tree_def demo_def getDiskSector_def)

lemma tree_blocks: "blocks ata_view_of tree = sectors tree_disk"
proof -
  have "length (chars ''the first file'' @ replicate 498 0) = 512" "length (chars ''the second'' @ replicate 502 0) = 512"
    "length (chars ''the third'' @ replicate 503 0) = 512" by (simp_all add: chars_def)
  moreover have "length (tree_dir [tree_entry ''DIR1       '' 0x10 3, tree_entry ''DIR2       '' 0x10 4]) = 512"
    "length (tree_dir [tree_entry ''FILE0      '' 0x20 5, tree_entry ''FILE1      '' 0x20 6]) = 512"
    "length (tree_dir [tree_entry ''FILE2      '' 0x20 7]) = 512" by (simp_all add: length_tree_dir length_tree_entry)
  ultimately show ?thesis by (simp add: blocks_def tree_def tree_disk_def fun_eq_iff)
qed

lemma tree_volume: "volume demo_ports ata_view_of 64 tree"
  using ata.ata_device_axioms [of "\<lambda>n. n mod 5" 64] tree_select
  by (simp add: volume_def idle_def tree_def tree_disk_def demo_disk_def disk_size_def)

lemma tree_chain: "c \<in> {2, 3, 4, 5, 6, 7} \<Longrightarrow> data_chain (disk_size 64) tree [c]"
proof -
  assume c: "c \<in> {2, 3, 4, 5, 6, 7}"
  have "FAT tree ! unat c = 0x0FFFFFFF" using c by (auto simp: tree_def FAT_SIZE_def)
  with c show ?thesis by (auto simp: data_chain_def readable_def cluster_sectors_def tree_select disk_size_def FAT_SIZE_def)
qed

lemma tree_entries: "dir_entries (blocks ata_view_of tree) tree [c] = sector_entries (sectors tree_disk (unat (c + 1)))"
  unfolding tree_blocks by (simp add: dir_entries_def cluster_entries_def cluster_sectors_def tree_select)

lemma scan_first:
  assumes "length name = 11" and "chars name ! 0 \<notin> {0, 0x2E, 0xE5}" and "a \<noteq> 0x0F"
  shows "scan (chars name) (sector_entries (tree_dir (tree_entry name a c # es))) =
    Some (if a = 0x10 then Recurse (ucast (scast c :: word16)) else Return (ucast (scast c :: word16)))"
proof -
  let ?b = "tree_dir (tree_entry name a c # es)"
  define e where "e = decode_entry ?b 0 blank_entry"
  obtain rest where "sector_entries ?b = e # rest" by (simp add: sector_entries_def upt_rec e_def)
  moreover have "filename e = chars name" "attributes e = a" "entry_cluster e = ucast (scast c :: word16)"
    unfolding e_def using assms(1) by (auto simp: tree_dir_def intro: decode_tree_entry [where pre = "[]"])
  ultimately show ?thesis using assms by (simp add: skipped_def)
qed

lemma scan_second:
  assumes "length n1 = 11" "length n2 = 11" and "chars n1 ! 0 \<noteq> 0" "chars n2 ! 0 \<notin> {0, 0x2E, 0xE5}" "chars n1 \<noteq> chars n2" and "a2 \<noteq> 0x0F"
  shows "scan (chars n2) (sector_entries (tree_dir (tree_entry n1 a1 c1 # tree_entry n2 a2 c2 # es))) =
    Some (if a2 = 0x10 then Recurse (ucast (scast c2 :: word16)) else Return (ucast (scast c2 :: word16)))"
proof -
  let ?b = "tree_dir (tree_entry n1 a1 c1 # tree_entry n2 a2 c2 # es)"
  define e1 e2 where "e1 = decode_entry ?b 0 blank_entry" and "e2 = decode_entry ?b 32 blank_entry"
  obtain rest where "sector_entries ?b = e1 # e2 # rest" by (simp add: sector_entries_def upt_rec e1_def e2_def)
  moreover have "filename e1 = chars n1"
    unfolding e1_def using assms(1) by (auto simp: tree_dir_def intro: decode_tree_entry(1) [where pre = "[]"])
  moreover have "filename e2 = chars n2" "attributes e2 = a2" "entry_cluster e2 = ucast (scast c2 :: word16)"
    unfolding e2_def using assms(1,2) by (auto simp: tree_dir_def length_tree_entry intro: decode_tree_entry [where pre = "tree_entry n1 a1 c1"])
  ultimately show ?thesis using assms by (simp add: skipped_def)
qed

lemma replicate_numeral: "replicate (numeral k) x = x # replicate (pred_numeral k) x"
  by (simp add: numeral_eq_Suc)

lemma tree_components: "tl (components (chars ''/DIR1/FILE0'')) = [chars ''DIR1'', chars ''FILE0'']"
  "tl (components (chars ''/DIR1/FILE1'')) = [chars ''DIR1'', chars ''FILE1'']" "tl (components (chars ''/DIR2/FILE2'')) = [chars ''DIR2'', chars ''FILE2'']"
  "padded (chars ''DIR1'') = chars ''DIR1       ''" "padded (chars ''DIR2'') = chars ''DIR2       ''" "padded (chars ''FILE0'') = chars ''FILE0      ''"
  "padded (chars ''FILE1'') = chars ''FILE1      ''" "padded (chars ''FILE2'') = chars ''FILE2      ''"
  by (simp_all add: chars_def padded_def replicate_numeral)

lemma tree_scan:
  "scan (padded (chars ''DIR1'')) (dir_entries (blocks ata_view_of tree) tree [2]) = Some (Recurse 3)"
  "scan (padded (chars ''DIR2'')) (dir_entries (blocks ata_view_of tree) tree [2]) = Some (Recurse 4)"
  "scan (padded (chars ''FILE0'')) (dir_entries (blocks ata_view_of tree) tree [3]) = Some (Return 5)"
  "scan (padded (chars ''FILE1'')) (dir_entries (blocks ata_view_of tree) tree [3]) = Some (Return 6)"
  "scan (padded (chars ''FILE2'')) (dir_entries (blocks ata_view_of tree) tree [4]) = Some (Return 7)"
  unfolding tree_components tree_entries tree_disk_def
  using scan_first [of "''DIR1       ''" "0x10" 3 "[tree_entry ''DIR2       '' 0x10 4]"]
    scan_second [of "''DIR1       ''" "''DIR2       ''" "0x10" "0x10" 3 4 "[]"]
    scan_first [of "''FILE0      ''" "0x20" 5 "[tree_entry ''FILE1      '' 0x20 6]"]
    scan_second [of "''FILE0      ''" "''FILE1      ''" "0x20" "0x20" 5 6 "[]"] scan_first [of "''FILE2      ''" "0x20" 7 "[]"]
  by (simp_all add: chars_def)

lemma tree_leads:
  "leads_to ata_view_of 64 tree ''/DIR1/FILE0'' 5" "leads_to ata_view_of 64 tree ''/DIR1/FILE1'' 6" "leads_to ata_view_of 64 tree ''/DIR2/FILE2'' 7"
proof -
  let ?C = "blocks ata_view_of tree"
  have step: "resolves ?C (disk_size 64) tree c (n # ns) v"
    if "data_chain (disk_size 64) tree [c]" "scan (padded n) (dir_entries ?C tree [c]) = Some (Recurse d)" "resolves ?C (disk_size 64) tree d ns v" for c n d ns v
    using that by (intro resolves.below [where cs = "[]" and d = d]) (auto simp: data_chain_def readable_def)
  have 2: "data_chain (disk_size 64) tree [2]" and 3: "data_chain (disk_size 64) tree [3]" and 4: "data_chain (disk_size 64) tree [4]"
    by (simp_all add: tree_chain)
  have "resolves ?C (disk_size 64) tree 3 [chars ''FILE0''] 5" "resolves ?C (disk_size 64) tree 3 [chars ''FILE1''] 6" "resolves ?C (disk_size 64) tree 4 [chars ''FILE2''] 7"
    using resolves_last [OF 3 tree_scan(3)] resolves_last [OF 3 tree_scan(4)] resolves_last [OF 4 tree_scan(5)] by simp_all
  then show "leads_to ata_view_of 64 tree ''/DIR1/FILE0'' 5" "leads_to ata_view_of 64 tree ''/DIR1/FILE1'' 6" "leads_to ata_view_of 64 tree ''/DIR2/FILE2'' 7"
    unfolding leads_to_def tree_components tree_select
    by (simp_all add: step [OF 2 tree_scan(1)] step [OF 2 tree_scan(2)])
qed

lemma tree_shown: "c \<in> {5, 6} \<Longrightarrow> shown ata_view_of 64 tree [c]"
  using tree_chain [of c] by (auto simp: shown_def tree_select disk_size_def)

lemma tree_window:
  assumes "start < 400"
  shows "window ata_view_of tree [5] start = take 50 (drop start (chars ''the first file'' @ replicate 498 0))"
    "window ata_view_of tree [6] start = take 50 (drop start (chars ''the second'' @ replicate 502 0))"
proof -
  have b: "file_byte (blocks ata_view_of tree) tree [c] k = sectors tree_disk (unat (c + 1)) ! k" if "k < 512" for c k
    using that unfolding tree_blocks by (simp add: file_byte_def file_sector_def tree_select)
  show "window ata_view_of tree [5] start = take 50 (drop start (chars ''the first file'' @ replicate 498 0))"
    using assms by (intro nth_equalityI) (simp_all add: window_def b tree_disk_def chars_def)
  show "window ata_view_of tree [6] start = take 50 (drop start (chars ''the second'' @ replicate 502 0))"
    using assms by (intro nth_equalityI) (simp_all add: window_def b tree_disk_def chars_def)
qed

lemma tree_windows:
  "window ata_view_of tree [5] 0 = chars ''the first file'' @ replicate 36 0" "window ata_view_of tree [6] 0 = chars ''the second'' @ replicate 40 0"
  "window ata_view_of tree [5] 5 = chars ''irst file'' @ replicate 41 0"
  by (simp_all add: tree_window chars_def)

end
