(* ===== verification/User_Program.thy ===== *)
theory User_Program
  imports File_Calls Self_Tests
begin

text \<open>
  The user program (zeos_full/user.c) as a client of the stubs of libc.c: its four tests with the switches at the
  top of the file as a record, its arrays and literals at any addresses of the user's memory. The
  properties say what the program of the image does, and what it does when the switches are set to the read test.
\<close>

section \<open>The program\<close>

text \<open>The switches of user.c, and where the linker and the compiler put its arrays and its literals.\<close>

record switches =
  READ_TEST :: bool
  WRITE_TEST :: bool
  CREATE_TEST :: bool
  LSEEK_TEST :: bool
  UNLINK_TEST :: bool

definition shipped :: switches where
  "shipped = \<lparr>READ_TEST = False, WRITE_TEST = False, CREATE_TEST = False, LSEEK_TEST = False, UNLINK_TEST = True\<rparr>"

record places =
  filepathR :: dword
  filebufferR :: dword
  filepathW :: dword
  filebufferW :: dword
  openFile :: dword
  delFile :: dword
  literal :: "string \<Rightarrow> dword"

definition SEEK_SET :: dword where "SEEK_SET = 0"

definition init_array :: "dword \<Rightarrow> string \<Rightarrow> 'd machine \<Rightarrow> 'd machine" where
  "init_array a t m = m\<lparr>user_mem := store_at a (local_array 30 t) (user_mem m)\<rparr>"

text \<open>A statement behind a call: it runs when the call has answered.\<close>

definition on_return :: "(answer \<times> 'd machine) res \<Rightarrow> (int \<Rightarrow> 'd machine \<Rightarrow> (answer \<times> 'd machine) res) \<Rightarrow> (answer \<times> 'd machine) res" where
  "on_return r f = bind r (\<lambda>(a, m). case a of Returns v \<Rightarrow> f v m | _ \<Rightarrow> Ok (a, m))"

definition say_text :: "'d blockdev \<Rightarrow> places \<Rightarrow> string \<Rightarrow> nat \<Rightarrow> 'd machine \<Rightarrow> (answer \<times> 'd machine) res" where
  "say_text dev u t n m = libc_write dev 1 (literal u t) (of_nat n) m"

definition read_test :: "'d blockdev \<Rightarrow> places \<Rightarrow> 'd machine \<Rightarrow> (answer \<times> 'd machine) res" where
  "read_test dev u m =
     on_return (libc_open dev (filepathR u) 0 (init_array (filepathR u) ''/DIR1/FILE1'' m)) (\<lambda>f m.
     on_return (libc_read dev (word_of_int f) (filebufferR u) 30 m) (\<lambda>ret_read m.
     on_return (say_text dev u ''Read contents: '' 17 m) (\<lambda>_ m.
     on_return (if ret_read = 0
       then bind (strlen (bytes_at (user_mem m) (filebufferR u) 60)) (\<lambda>n. libc_write dev 1 (filebufferR u) (of_nat n) m)
       else Ok (Returns 0, m)) (\<lambda>_ m.
     say_text dev u [CHR 0x0A] 1 m))))"

definition write_test :: "'d blockdev \<Rightarrow> bool \<Rightarrow> places \<Rightarrow> 'd machine \<Rightarrow> (answer \<times> 'd machine) res" where
  "write_test dev lseek_too u m =
     (let m = init_array (filebufferW u) ''FILE1 written here'' (init_array (filepathW u) ''/DIR1/FILE1'' m) in
     on_return (libc_open dev (filepathW u) 1 m) (\<lambda>f m.
     on_return (libc_write dev (word_of_int f) (filebufferW u) 30 m) (\<lambda>ret_write m.
     on_return (if ret_write = 0 then say_text dev u (''Write successful'' @ [CHR 0x0A]) 17 m
       else say_text dev u (''Write unsuccessful'' @ [CHR 0x0A]) 19 m) (\<lambda>_ m.
     if lseek_too then
       on_return (lseek dev (word_of_int f) 30 SEEK_SET m) (\<lambda>_ m. libc_write dev (word_of_int f) (filebufferW u) 30 m)
     else Ok (Returns 0, m)))))"

definition create_test :: "'d blockdev \<Rightarrow> places \<Rightarrow> 'd machine \<Rightarrow> (answer \<times> 'd machine) res" where
  "create_test dev u m =
     on_return (libc_open dev (openFile u) 0 (init_array (openFile u) ''/DIR1/FILE5'' m)) (\<lambda>ret_open m.
     if 1 < ret_open then say_text dev u (''File creation successful'' @ [CHR 0x0A]) 25 m
     else say_text dev u (''File creation unsuccessful'' @ [CHR 0x0A]) 27 m)"

definition unlink_test :: "'d blockdev \<Rightarrow> places \<Rightarrow> 'd machine \<Rightarrow> (answer \<times> 'd machine) res" where
  "unlink_test dev u m =
     on_return (unlink dev (delFile u) (init_array (delFile u) ''/DIR1/FILE1'' m)) (\<lambda>ret_unlink m.
     if ret_unlink = 0 then say_text dev u (''Unlink successful'' @ [CHR 0x0A]) 18 m
     else say_text dev u (''Unlink unsuccessful'' @ [CHR 0x0A]) 20 m)"

definition optional :: "bool \<Rightarrow> ('d machine \<Rightarrow> (answer \<times> 'd machine) res) \<Rightarrow> 'd machine \<Rightarrow> (answer \<times> 'd machine) res" where
  "optional b f m = (if b then f m else Ok (Returns 0, m))"

text \<open>\<open>main\<close> up to the loop at its end, and with it.\<close>

definition user_tests :: "switches \<Rightarrow> 'd blockdev \<Rightarrow> places \<Rightarrow> 'd machine \<Rightarrow> (answer \<times> 'd machine) res" where
  "user_tests sw dev u m =
     on_return (optional (READ_TEST sw) (read_test dev u) m) (\<lambda>_ m.
     on_return (optional (WRITE_TEST sw) (write_test dev (LSEEK_TEST sw) u) m) (\<lambda>_ m.
     on_return (optional (CREATE_TEST sw) (create_test dev u) m) (\<lambda>_ m.
     optional (UNLINK_TEST sw) (unlink_test dev u) m)))"

definition user_main :: "switches \<Rightarrow> 'd blockdev \<Rightarrow> places \<Rightarrow> 'd machine \<Rightarrow> (answer \<times> 'd machine) res" where
  "user_main sw dev u m = on_return (user_tests sw dev u m) (\<lambda>_ m. loop (\<lambda>_. Ok (Inl ())) ())"

section \<open>The program of the image\<close>

lemma bytes_at_store:
  assumes "n \<le> length bs" and "length bs < 2 ^ 32"
  shows "bytes_at (store_at a bs m) a n = take n bs"
  using assms by (intro nth_equalityI) (simp_all add: bytes_at_def store_at_def unat_of_nat)

lemma path_in_array:
  assumes "0 \<notin> set (chars t)" and "length t < 30"
  shows "string_at (store_at a (local_array 30 t) m) a = Ok (chars t @ [0])"
proof (rule string_at_bytes [OF _ assms(1)])
  have l: "length (chars t) = length t" by (simp add: chars_def)
  have "replicate (30 - length t) (0 :: byte) = 0 # replicate (29 - length t) 0" using assms(2) by (simp add: Suc_diff_le [symmetric] replicate_Suc [symmetric] del: replicate_Suc)
  with l show "bytes_at (store_at a (local_array 30 t) m) a (length (chars t) + 1) = chars t @ [0]"
    using assms(2) by (subst bytes_at_store) (simp_all add: local_array_def)
qed


lemma sys_unlink_overruns:
  assumes vol: "volume P view cap (fsys s)" and path: "0 \<notin> set p"
    and res: "resolves (blocks view (fsys s)) (disk_size cap) (fsys s) (rootClusterNum (extendedBootRecord (fsys s))) (tl (components p)) v"
  shows "sys_unlink (ide_blockdev P) (p @ [0]) s = Fault OutOfBounds"
proof -
  from search_of_system [OF assms] obtain d where
    d: "searchFile (ide_blockdev P) (p @ [0]) (fsys s) = Ok (if v = 0xFFFFFFFF then 0 else sint v, (fsys s)\<lparr>device := d\<rparr>)" by blast
  have "split_filename (p @ [0]) (junk_array 96 t) (junk_array 11 t) = Fault OutOfBounds" for t :: "'a system"
    by (rule split_filename_overruns_aux) (simp add: junk_array_def)
  with d show ?thesis by (auto simp: sys_unlink_def Let_def)
qed

lemma on_return_simps [simp]:
  "on_return (Ok (Returns v, m)) f = f v m" "on_return (Fault e) f = Fault e"
  by (simp_all add: on_return_def)

lemma unlink_test_overruns:
  assumes vol: "volume P view cap (fsys (os m))" and tables: "tables_ok (os m)"
    and res: "resolves (blocks view (fsys (os m))) (disk_size cap) (fsys (os m)) (rootClusterNum (extendedBootRecord (fsys (os m)))) (tl (components (chars ''/DIR1/FILE1''))) v"
  shows "unlink_test (ide_blockdev P) u m = Fault OutOfBounds"
proof -
  let ?m = "init_array (delFile u) ''/DIR1/FILE1'' m"
  have p: "0 \<notin> set (chars ''/DIR1/FILE1'')" by (simp add: chars_def)
  have os: "os ?m = os m" by (simp add: init_array_def)
  obtain k where k: "at_kern user2system ?m = Ok (?m\<lparr>os := (os m)\<lparr>kern := k\<rparr>\<rparr>)" using switch_tables [of ?m user2system] tables unfolding os by auto
  have s: "string_at (user_mem ?m) (delFile u) = Ok (chars ''/DIR1/FILE1'' @ [0])"
    using path_in_array [OF p] by (simp add: init_array_def)
  have "sys_unlink (ide_blockdev P) (chars ''/DIR1/FILE1'' @ [0]) ((os m)\<lparr>kern := k\<rparr>) = Fault OutOfBounds"
    by (rule sys_unlink_overruns [OF _ p]) (use vol res in simp_all)
  with k s have "unlink (ide_blockdev P) (delFile u) ?m = Fault OutOfBounds"
    by (simp add: stub_unlink libc_call_def answers_def on_os_def)
  then show ?thesis by (simp add: unlink_test_def)
qed

text \<open>
  C4: the program in the image does not get far: its one test, \<open>unlink("/DIR1/FILE1")\<close>, runs over the end of an array in the kernel
  on every volume, whether the file is there or not.
\<close>

theorem shipped_program_overruns:
  assumes "volume P view cap (fsys (os m))" and "tables_ok (os m)"
    and "resolves (blocks view (fsys (os m))) (disk_size cap) (fsys (os m)) (rootClusterNum (extendedBootRecord (fsys (os m)))) (tl (components (chars ''/DIR1/FILE1''))) v"
  shows "user_main shipped (ide_blockdev P) u m = Fault OutOfBounds"
  using unlink_test_overruns [OF assms] by (simp add: user_main_def user_tests_def shipped_def optional_def)

text \<open>Bytes that an array does not touch.\<close>

definition apart :: "dword \<Rightarrow> nat \<Rightarrow> dword \<Rightarrow> nat \<Rightarrow> bool" where
  "apart b k a n \<longleftrightarrow> (\<forall>i < k. n \<le> unat (b + of_nat i - a))"

lemma bytes_at_apart: "\<forall>x. n \<le> unat (x - a) \<longrightarrow> m' x = m x \<Longrightarrow> apart b k a n \<Longrightarrow> bytes_at m' b k = bytes_at m b k"
  by (simp add: bytes_at_def apart_def)


lemma access_shorter:
  assumes "access_ok VERIFY_WRITE a (of_nat n) = 1" and "k \<le> n" "n \<le> 4096"
  shows "access_ok VERIFY_READ a (of_nat k) = 1"
proof -
  note A = assms(1) [unfolded access_ok_pages]
  from A have a: "unat a < 0x11D000" by linarith
  have u: "unat (a + of_nat j) = unat a + j" if "j \<le> n" for j
    using a that assms(3) by (subst unat_add_lem [THEN iffD1]) (simp_all add: unat_of_nat)
  have "unat (a + of_nat k) div 4096 \<le> unat (a + of_nat n) div 4096" using u [of k] u [of n] assms(2) by (simp add: div_le_mono)
  moreover have "unat a div 4096 \<le> unat (a + of_nat k) div 4096" using u [of k] assms(2) by (simp add: div_le_mono)
  ultimately show ?thesis using A unfolding access_ok_pages by simp
qed

lemma strlen_takeWhile:
  assumes "0 \<in> set b"
  shows "strlen b = Ok (length (takeWhile (\<lambda>c. c \<noteq> 0) b))"
proof -
  have "b = takeWhile (\<lambda>c. c \<noteq> 0) b @ 0 # tl (dropWhile (\<lambda>c. c \<noteq> 0) b)"
    using assms by (metis (mono_tags, lifting) dropWhile_eq_Nil_conv hd_dropWhile list.collapse takeWhile_dropWhile_id)
  then have "holds_string b (takeWhile (\<lambda>c. c \<noteq> 0) b)"
    unfolding holds_string_def by (auto dest: set_takeWhileD)
  then show ?thesis by (rule strlen_holds_string)
qed


lemma bytes_at_split: "bytes_at m a (n + k) = bytes_at m a n @ bytes_at m (a + of_nat n) k"
proof (rule nth_equalityI)
  fix i assume "i < length (bytes_at m a (n + k))"
  then have i: "i < n + k" by (simp add: bytes_at_def)
  have "a + of_nat n + of_nat (i - n) = a + of_nat i" if "\<not> i < n" using that by (simp add: add.assoc flip: of_nat_add)
  with i show "bytes_at m a (n + k) ! i = (bytes_at m a n @ bytes_at m (a + of_nat n) k) ! i"
    by (cases "i < n") (simp_all add: bytes_at_def nth_append)
qed (simp add: bytes_at_def)

lemma read_test_prints_file:
  assumes vol: "volume P view cap (fsys (os m))"
    and res: "resolves (blocks view (fsys (os m))) (disk_size cap) (fsys (os m)) (rootClusterNum (extendedBootRecord (fsys (os m)))) (tl (components (chars ''/DIR1/FILE1''))) c"
    and chain: "data_chain (disk_size cap) (fsys (os m)) (c # cs)" and c: "c \<noteq> 0xFFFFFFFF"
    and tables: "tables_ok (os m)" "first_free_entry (os m) = Some i" "i < CHANNEL_TABLE_SIZE" "\<exists>j < CHANNEL_TABLE_SIZE. fd (channel (os m) j) \<noteq> int j + 2"
    and behind: "\<forall>c \<in> set (c # cs). unat c * spc (fsys (os m)) + reserved (fsys (os m)) + spc (fsys (os m)) < disk_size cap"
    and zero: "0 \<in> set b" and b: "b = map (file_byte (blocks view (fsys (os m))) (fsys (os m)) (c # cs)) [0..<30]"
    and access: "access_ok VERIFY_WRITE (filebufferR u) 30 = 1" "access_ok VERIFY_READ (literal u ''Read contents: '') 17 = 1" "access_ok VERIFY_READ (literal u [CHR 0x0A]) 1 = 1"
    and place: "apart (literal u ''Read contents: '') 17 (filepathR u) 30" "apart (literal u ''Read contents: '') 17 (filebufferR u) 30"
      "apart (literal u [CHR 0x0A]) 1 (filepathR u) 30" "apart (literal u [CHR 0x0A]) 1 (filebufferR u) 30"
    and says: "bytes_at (user_mem m) (literal u ''Read contents: '') 17 = t17" "bytes_at (user_mem m) (literal u [CHR 0x0A]) 1 = [10]"
  obtains m' where "read_test (ide_blockdev P) u m = Ok (Returns 1, m')" "tables_ok (os m')"
    "console (fsys (os m')) = console (fsys (os m)) @ t17 @ takeWhile (\<lambda>c. c \<noteq> 0) b @ [10]"
proof -
  let ?dev = "ide_blockdev P" and ?m0 = "init_array (filepathR u) ''/DIR1/FILE1'' m" and ?s = "takeWhile (\<lambda>c. c \<noteq> 0) b"
  have p: "0 \<notin> set (chars ''/DIR1/FILE1'')" by (simp add: chars_def)
  have os: "os ?m0 = os m" by (simp add: init_array_def)
  have m0: "user_mem ?m0 = store_at (filepathR u) (local_array 30 ''/DIR1/FILE1'') (user_mem m)" by (simp add: init_array_def)
  have l30: "length (local_array 30 ''/DIR1/FILE1'') = 30" by (simp add: local_array_def chars_def)
  have "bytes_at (user_mem ?m0) (filepathR u) (length (chars ''/DIR1/FILE1'') + 1) = chars ''/DIR1/FILE1'' @ [0]"
    unfolding m0 by (subst bytes_at_store) (simp_all add: l30, simp_all add: local_array_def chars_def)
  moreover have "unat (30 :: dword) \<le> 512 * spc (fsys (os m))" using volumeD(4) [OF vol] by simp
  ultimately obtain m1 m2 where 1: "libc_open ?dev (filepathR u) 0 ?m0 = Ok (Returns (int i + 2), m1)"
    and 2: "libc_read ?dev (of_nat (i + 2)) (filebufferR u) 30 m1 = Ok (Returns 0, m2)"
    and mem: "\<forall>j < 30. user_mem m2 (filebufferR u + of_nat j) = file_byte (blocks view (fsys (os m))) (fsys (os m)) (c # cs) j"
      "\<forall>a. 30 \<le> unat (a - filebufferR u) \<longrightarrow> user_mem m2 a = user_mem ?m0 a" and ok2: "tables_ok (os m2)" "console (fsys (os m2)) = console (fsys (os m))"
    using user_reads_file_aux [where m = ?m0 and P = P and view = view and cap = cap and path = "filepathR u" and p = "chars ''/DIR1/FILE1''" and c = c and cs = cs
        and i = i and addr = "filebufferR u" and n = 30, unfolded os, OF vol _ p res chain c tables access(1) _ behind] by auto
  have "\<forall>a. 30 \<le> unat (a - filepathR u) \<longrightarrow> user_mem ?m0 a = user_mem m a" unfolding m0 by (simp add: store_at_def l30)
  note keep = bytes_at_apart [OF mem(2)] bytes_at_apart [OF this]
  have lit: "bytes_at (user_mem m2) (literal u ''Read contents: '') 17 = t17" "bytes_at (user_mem m2) (literal u [CHR 0x0A]) 1 = [10]"
    using keep(1) [OF place(2)] keep(2) [OF place(1)] keep(1) [OF place(4)] keep(2) [OF place(3)] says by simp_all
  have buf: "bytes_at (user_mem m2) (filebufferR u) 30 = b" using mem(1) by (simp add: bytes_at_def b)
  have "bytes_at (user_mem m2) (filebufferR u) 60 = b @ bytes_at (user_mem m2) (filebufferR u + 30) 30"
    using bytes_at_split [of "user_mem m2" "filebufferR u" 30 30] buf by simp
  then have len: "strlen (bytes_at (user_mem m2) (filebufferR u) 60) = Ok (length ?s)"
    using strlen_takeWhile [of "bytes_at (user_mem m2) (filebufferR u) 60"] zero takeWhile_append1 [of 0 b "\<lambda>c. c \<noteq> 0"] by simp
  obtain k3 where k3: "libc_write ?dev 1 (literal u ''Read contents: '') (of_nat 17) m2 = Ok (Returns (int 17), m2\<lparr>os := (os m2)\<lparr>fsys := (fsys (os m2))\<lparr>console := console (fsys (os m2)) @ t17\<rparr>, kern := k3\<rparr>\<rparr>)"
    "tables_ok ((os m2)\<lparr>fsys := (fsys (os m2))\<lparr>console := console (fsys (os m2)) @ t17\<rparr>, kern := k3\<rparr>)"
    using libc_write_screen [OF ok2(1), of "literal u ''Read contents: ''" 17 ?dev] access(2) lit(1) by auto
  define m3 where "m3 = m2\<lparr>os := (os m2)\<lparr>fsys := (fsys (os m2))\<lparr>console := console (fsys (os m2)) @ t17\<rparr>, kern := k3\<rparr>\<rparr>"
  have ls: "length ?s \<le> 30" using length_takeWhile_le [of "\<lambda>c. c \<noteq> 0" b] by (simp add: b)
  then have acc: "access_ok VERIFY_READ (filebufferR u) (of_nat (length ?s)) = 1" using access_shorter [of "filebufferR u" 30 "length ?s"] access(1) by simp
  have "bytes_at (user_mem m2) (filebufferR u) (length ?s) = take (length ?s) (bytes_at (user_mem m2) (filebufferR u) 30)"
    using ls by (intro nth_equalityI) (simp_all add: bytes_at_def)
  also have "\<dots> = ?s" unfolding buf by (metis append_eq_conv_conj takeWhile_dropWhile_id)
  finally have bs: "bytes_at (user_mem m3) (filebufferR u) (length ?s) = ?s" by (simp add: m3_def)
  have ok3: "tables_ok (os m3)" using k3(2) by (simp add: m3_def)
  obtain k4 where k4: "libc_write ?dev 1 (filebufferR u) (of_nat (length ?s)) m3 = Ok (Returns (int (length ?s)), m3\<lparr>os := (os m3)\<lparr>fsys := (fsys (os m3))\<lparr>console := console (fsys (os m3)) @ ?s\<rparr>, kern := k4\<rparr>\<rparr>)"
    "tables_ok ((os m3)\<lparr>fsys := (fsys (os m3))\<lparr>console := console (fsys (os m3)) @ ?s\<rparr>, kern := k4\<rparr>)"
    using libc_write_screen [OF ok3 acc, of ?dev] ls unfolding bs by auto
  define m4 where "m4 = m3\<lparr>os := (os m3)\<lparr>fsys := (fsys (os m3))\<lparr>console := console (fsys (os m3)) @ ?s\<rparr>, kern := k4\<rparr>\<rparr>"
  have lit4: "bytes_at (user_mem m4) (literal u [CHR 0x0A]) 1 = [10]" using lit(2) by (simp add: m4_def m3_def)
  have ok4: "tables_ok (os m4)" using k4(2) by (simp add: m4_def)
  obtain k5 where k5: "libc_write ?dev 1 (literal u [CHR 0x0A]) (of_nat 1) m4 = Ok (Returns (int 1), m4\<lparr>os := (os m4)\<lparr>fsys := (fsys (os m4))\<lparr>console := console (fsys (os m4)) @ [10]\<rparr>, kern := k5\<rparr>\<rparr>)"
    "tables_ok ((os m4)\<lparr>fsys := (fsys (os m4))\<lparr>console := console (fsys (os m4)) @ [10]\<rparr>, kern := k5\<rparr>)"
    using libc_write_screen [OF ok4, of "literal u [CHR 0x0A]" 1 ?dev] access(3) unfolding lit4 by auto
  have fd: "word_of_int (int i + 2) = (of_nat (i + 2) :: dword)" by simp
  have mm: "user_mem m3 = user_mem m2" by (simp add: m3_def)
  show thesis
  proof (rule that)
    show "read_test ?dev u m = Ok (Returns 1, m4\<lparr>os := (os m4)\<lparr>fsys := (fsys (os m4))\<lparr>console := console (fsys (os m4)) @ [10]\<rparr>, kern := k5\<rparr>\<rparr>)"
      unfolding read_test_def 1 on_return_simps fd 2 say_text_def k3(1) m3_def [symmetric] mm
      by (simp add: len k4(1) m4_def [symmetric] k5(1) [simplified])
  qed (use k5(2) ok2(2) in \<open>simp_all add: m4_def m3_def\<close>)
qed

definition only_read :: switches where
  "only_read = shipped\<lparr>READ_TEST := True, UNLINK_TEST := False\<rparr>"

text \<open>
  C2: with the switch of the read test the program prints the file: the text, with its end and the byte behind it (17 bytes of a
  literal of 16), what the file holds up to the first zero, and a line feed. Then it loops for ever.
\<close>

theorem read_program_prints:
  assumes vol: "volume P view cap (fsys (os m))" and res: "leads_to view cap (fsys (os m)) ''/DIR1/FILE1'' c" and chain: "shown view cap (fsys (os m)) (c # cs)"
    and tables: "tables_ok (os m)" "first_free_entry (os m) = Some i" "i < CHANNEL_TABLE_SIZE" "\<exists>j < CHANNEL_TABLE_SIZE. fd (channel (os m) j) \<noteq> int j + 2"
    and zero: "0 \<in> set b" and b: "b = map (file_byte (blocks view (fsys (os m))) (fsys (os m)) (c # cs)) [0..<30]"
    and access: "access_ok VERIFY_WRITE (filebufferR u) 30 = 1" "access_ok VERIFY_READ (literal u ''Read contents: '') 17 = 1" "access_ok VERIFY_READ (literal u [CHR 0x0A]) 1 = 1"
    and place: "apart (literal u ''Read contents: '') 17 (filepathR u) 30" "apart (literal u ''Read contents: '') 17 (filebufferR u) 30"
      "apart (literal u [CHR 0x0A]) 1 (filepathR u) 30" "apart (literal u [CHR 0x0A]) 1 (filebufferR u) 30"
    and says: "bytes_at (user_mem m) (literal u ''Read contents: '') 17 = chars ''Read contents: '' @ [0, x]" "bytes_at (user_mem m) (literal u [CHR 0x0A]) 1 = [10]"
  shows "\<exists>m'. user_tests only_read (ide_blockdev P) u m = Ok (Returns 0, m') \<and>
    console (fsys (os m')) = console (fsys (os m)) @ chars ''Read contents: '' @ [0, x] @ takeWhile (\<lambda>c. c \<noteq> 0) b @ [10] \<and>
    user_main only_read (ide_blockdev P) u m = Fault Diverges"
proof -
  have L: "c \<noteq> 0xFFFFFFFF" "resolves (blocks view (fsys (os m))) (disk_size cap) (fsys (os m)) (rootClusterNum (extendedBootRecord (fsys (os m)))) (tl (components (chars ''/DIR1/FILE1''))) c"
    using res by (simp_all add: leads_to_def)
  have S: "data_chain (disk_size cap) (fsys (os m)) (c # cs)" "\<forall>c \<in> set (c # cs). unat c * spc (fsys (os m)) + reserved (fsys (os m)) + spc (fsys (os m)) < disk_size cap"
    using chain by (simp_all add: shown_def)
  obtain m' where m': "read_test (ide_blockdev P) u m = Ok (Returns 1, m')"
    "console (fsys (os m')) = console (fsys (os m)) @ (chars ''Read contents: '' @ [0, x]) @ takeWhile (\<lambda>c. c \<noteq> 0) b @ [10]"
    by (rule read_test_prints_file [OF vol L(2) S(1) L(1) tables S(2) zero b access place says])
  then have t: "user_tests only_read (ide_blockdev P) u m = Ok (Returns 0, m')"
    by (simp add: user_tests_def only_read_def shipped_def optional_def)
  have "loop (\<lambda>_. Ok (Inl ())) () = (Fault Diverges :: (answer \<times> 'a machine) res)"
    by (rule loop_diverges [where I = "\<lambda>_. True"]) auto
  with t m'(2) show ?thesis by (simp add: user_main_def)
qed

text \<open>The two programs on the volume \<open>tree\<close>.\<close>

definition tree_places :: places where
  "tree_places = \<lparr>filepathR = 0x109000, filebufferR = 0x109040, filepathW = 0x109080, filebufferW = 0x1090C0, openFile = 0x109100, delFile = 0x109140,
     literal = (\<lambda>t. if t = [CHR 0x0A] then 0x108040 else 0x108000)\<rparr>"

definition tree_machine :: "ata_dev machine" where
  "tree_machine = \<lparr>os = demo_system\<lparr>fsys := tree\<rparr>,
     user_mem = store_at 0x108040 [10] (store_at 0x108000 (chars ''Read contents: '' @ [0, 88]) (\<lambda>_. 7)), ticks_of = 0, errno = 0\<rparr>"

lemma tree_system: "tables_ok (os tree_machine)" "first_free_entry (os tree_machine) = Some 0"
  "\<exists>j < CHANNEL_TABLE_SIZE. fd (channel (os tree_machine) j) \<noteq> int j + 2" "fsys (os tree_machine) = tree"
  using demo_tables by (simp_all add: tree_machine_def tables_ok_def first_free_entry_def channel_def)

theorem shipped_program_overruns_witness: "user_main shipped (ide_blockdev demo_ports) tree_places tree_machine = Fault OutOfBounds"
  using shipped_program_overruns [of demo_ports ata_view_of 64 tree_machine 6] tree_volume tree_system tree_leads(2) by (simp add: leads_to_def)

theorem read_program_prints_witness:
  "\<exists>m'. user_tests only_read (ide_blockdev demo_ports) tree_places tree_machine = Ok (Returns 0, m') \<and>
    console (fsys (os m')) = chars ''Read contents: '' @ [0, 88] @ chars ''the second'' @ [10]"
proof -
  define b where "b = map (file_byte (blocks ata_view_of tree) tree [6]) [0..<30]"
  have "b = take 30 (window ata_view_of tree [6] 0)" by (simp add: b_def window_def take_map)
  then have b: "b = chars ''the second'' @ replicate 20 0" unfolding tree_windows by (simp add: chars_def)
  have lits: "literal tree_places ''Read contents: '' = 0x108000" "literal tree_places [CHR 0x0A] = 0x108040" "filepathR tree_places = 0x109000"
    "filebufferR tree_places = 0x109040" by (simp_all add: tree_places_def)
  have acc: "access_ok VERIFY_WRITE 0x109040 30 = 1" "access_ok VERIFY_READ 0x108000 17 = 1" "access_ok VERIFY_READ 0x108040 1 = 1"
    unfolding access_ok_pages by simp_all
  have apart: "apart 0x108000 17 0x109000 30" "apart 0x108000 17 0x109040 30" "apart 0x108040 1 0x109000 30" "apart 0x108040 1 0x109040 30"
    by (simp_all add: apart_def unat_sub_if_size word_size unat_word_ariths unat_of_nat)
  have mem: "bytes_at (user_mem tree_machine) 0x108040 1 = [10]" "bytes_at (user_mem tree_machine) 0x108000 17 = chars ''Read contents: '' @ [0, 88]"
  proof -
    let ?M = "store_at 0x108000 (chars ''Read contents: '' @ [0, 88]) (\<lambda>_. 7)"
    have um: "user_mem tree_machine = store_at 0x108040 [10] ?M" by (simp add: tree_machine_def)
    show "bytes_at (user_mem tree_machine) 0x108040 1 = [10]" unfolding um by (subst bytes_at_store) simp_all
    have "\<forall>y. 1 \<le> unat (y - 0x108040) \<longrightarrow> user_mem tree_machine y = ?M y" unfolding um by (simp add: store_at_def)
    moreover have "apart 0x108000 17 0x108040 1" by (simp add: apart_def unat_sub_if_size word_size unat_word_ariths unat_of_nat)
    ultimately have "bytes_at (user_mem tree_machine) 0x108000 17 = bytes_at ?M 0x108000 17" by (rule bytes_at_apart)
    then show "bytes_at (user_mem tree_machine) 0x108000 17 = chars ''Read contents: '' @ [0, 88]"
      by (subst (asm) bytes_at_store) (simp_all add: chars_def)
  qed
  have con: "console tree = []" by (simp add: tree_select)
  have z: "0 \<in> set b" by (simp add: b)
  obtain m' where "user_tests only_read (ide_blockdev demo_ports) tree_places tree_machine = Ok (Returns 0, m')"
    "console (fsys (os m')) = chars ''Read contents: '' @ [0, 88] @ takeWhile (\<lambda>c. c \<noteq> 0) b @ [10]"
    using read_program_prints [where m = tree_machine and u = tree_places and P = demo_ports and view = ata_view_of and cap = 64 and c = 6 and cs = "[]" and i = 0 and b = b and x = 88,
      unfolded tree_system(4) lits, OF tree_volume tree_leads(2) tree_shown [of 6] tree_system(1,2) _ tree_system(3) z b_def acc apart mem(2,1)] con
    by (auto simp: kernel_sizes)
  moreover have "takeWhile (\<lambda>c. c \<noteq> 0) b = chars ''the second''" unfolding b by (simp add: chars_def)
  ultimately show ?thesis by auto
qed

end
