(* ===== verification/Kernel_Stacks.thy ===== *)
theory Kernel_Stacks
  imports Kernel_Segments System_Calls
begin

text \<open>
  The kernel stacks of the processes and the assembler that works on them: \<open>SAVE_ALL\<close>, \<open>RESTORE_ALL\<close> and the
  handlers of entry.S and zeos_entry.S, \<open>current()\<close> and \<open>task_switch\<close> of sched.c, and what \<open>sys_fork\<close>,
  \<open>sys_clone\<close> and \<open>init_idle\<close> write on the stack of a new process.

  A value is a number, the address of a word of a kernel stack or the address of a place in the kernel's code: so a
  saved stack pointer and a return address can be stored, loaded and followed. The rest of the kernel is the state
  \<open>krn\<close> of the other theories, with \<open>cur\<close> taken from the stack pointer as \<open>current()\<close> does. A C
  function is what the compiler promises of it: it keeps EBX, ESI, EDI, EBP and the stack above its return address;
  what it leaves elsewhere, and how many words of stack it needs, are the parameter \<open>leftovers\<close>.
\<close>

section \<open>The processor and the stacks\<close>

datatype reg = EAX | EBX | ECX | EDX | ESI | EDI | EBP | ESP
datatype sreg = CS | DS | ES | FS | GS | SS
datatype operand = R reg | S sreg

text \<open>\<open>Fin\<close> is the label of the same name, \<open>After_inner\<close> the instruction behind \<open>call inner_task_switch\<close>.\<close>

datatype label = Ret_from_fork | Cpu_idle | After_inner | Fin | Site nat

text \<open>\<open>Stk n i\<close> is \<open>&task[n].stack[i]\<close>; \<open>Stk n 0\<close> is also \<open>&task[n]\<close>.\<close>

datatype val = Num dword | Stk nat nat | Code label

record core =
  gpr :: "reg \<Rightarrow> val"
  seg :: "sreg \<Rightarrow> word16"
  eflags :: dword
  eip :: val
  stacks :: "nat \<Rightarrow> nat \<Rightarrow> val"
  kernel_esp :: "nat \<Rightarrow> val"
  krn :: kernel

record leftovers =
  regs_l :: "reg \<Rightarrow> val"
  eflags_l :: dword
  words_l :: "nat \<Rightarrow> val"
  size_l :: nat

definition KERNEL_STACK_SIZE :: nat where "KERNEL_STACK_SIZE = 1024"

text \<open>The words of \<open>union task_union\<close> that \<open>struct task_struct\<close> takes: 132 bytes.\<close>

definition PCB_WORDS :: nat where "PCB_WORDS = 33"

definition set_reg :: "reg \<Rightarrow> val \<Rightarrow> core \<Rightarrow> core" where "set_reg r v c = c\<lparr>gpr := (gpr c)(r := v)\<rparr>"
definition set_seg :: "sreg \<Rightarrow> word16 \<Rightarrow> core \<Rightarrow> core" where "set_seg s w c = c\<lparr>seg := (seg c)(s := w)\<rparr>"
definition set_word :: "nat \<Rightarrow> nat \<Rightarrow> val \<Rightarrow> core \<Rightarrow> core" where
  "set_word n i v c = c\<lparr>stacks := (stacks c)(n := (stacks c n)(i := v))\<rparr>"

fun content :: "core \<Rightarrow> operand \<Rightarrow> val" where
  "content c (R r) = gpr c r"
| "content c (S s) = Num (ucast (seg c s))"

fun number :: "val \<Rightarrow> dword res" where
  "number (Num w) = Ok w"
| "number _ = Fault OutOfBounds"

fun assign :: "operand \<Rightarrow> val \<Rightarrow> core \<Rightarrow> core res" where
  "assign (R r) v c = Ok (set_reg r v c)"
| "assign (S s) v c = bind (number v) (\<lambda>w. Ok (set_seg s (ucast w) c))"

text \<open>A push below the process control block overwrites it.\<close>

definition push :: "val \<Rightarrow> core \<Rightarrow> core res" where
  "push v c = (case gpr c ESP of
     Stk n i \<Rightarrow> if PCB_WORDS < i \<and> i \<le> KERNEL_STACK_SIZE then Ok (set_reg ESP (Stk n (i - 1)) (set_word n (i - 1) v c))
       else Fault OutOfBounds
   | _ \<Rightarrow> Fault OutOfBounds)"

definition pop :: "core \<Rightarrow> (val \<times> core) res" where
  "pop c = (case gpr c ESP of
     Stk n i \<Rightarrow> if i < KERNEL_STACK_SIZE then Ok (stacks c n i, set_reg ESP (Stk n (i + 1)) c) else Fault OutOfBounds
   | _ \<Rightarrow> Fault OutOfBounds)"

text \<open>The word \<open>d\<close> words above the address in a register.\<close>

definition word_at :: "reg \<Rightarrow> nat \<Rightarrow> core \<Rightarrow> val res" where
  "word_at r d c = (case gpr c r of Stk n i \<Rightarrow> if i + d < KERNEL_STACK_SIZE then Ok (stacks c n (i + d)) else Fault OutOfBounds
     | _ \<Rightarrow> Fault OutOfBounds)"

fun push_all :: "val list \<Rightarrow> core \<Rightarrow> core res" where
  "push_all [] c = Ok c"
| "push_all (v # vs) c = bind (push v c) (push_all vs)"

fun pop_all :: "operand list \<Rightarrow> core \<Rightarrow> core res" where
  "pop_all [] c = Ok c"
| "pop_all (x # xs) c = bind (pop c) (\<lambda>(v, c). bind (assign x v c) (pop_all xs))"

definition ret :: "core \<Rightarrow> core res" where
  "ret c = bind (pop c) (\<lambda>(v, c). Ok (c\<lparr>eip := v\<rparr>))"

text \<open>\<open>current()\<close>: the stack pointer with its last twelve bits cleared.\<close>

definition current :: "core \<Rightarrow> nat res" where
  "current c = (case gpr c ESP of Stk n i \<Rightarrow> Ok (if i < KERNEL_STACK_SIZE then n else Suc n) | _ \<Rightarrow> Fault OutOfBounds)"

text \<open>The kernel as code that runs on this stack sees it.\<close>

definition kernel_view :: "core \<Rightarrow> kernel res" where
  "kernel_view c = bind (current c) (\<lambda>n. Ok ((krn c)\<lparr>cur := n\<rparr>))"

section \<open>C functions\<close>

text \<open>The locals of a function, and what functions it calls leave below.\<close>

definition scratch :: "leftovers \<Rightarrow> core \<Rightarrow> core res" where
  "scratch l c = (case gpr c ESP of
     Stk n i \<Rightarrow> if PCB_WORDS + size_l l \<le> i
       then Ok (c\<lparr>stacks := (stacks c)(n := \<lambda>j. if i - size_l l \<le> j \<and> j < i then words_l l j else stacks c n j)\<rparr>)
       else Fault OutOfBounds
   | _ \<Rightarrow> Fault OutOfBounds)"

definition c_call :: "label \<Rightarrow> (core \<Rightarrow> (val \<times> core) res) \<Rightarrow> leftovers \<Rightarrow> core \<Rightarrow> core res" where
  "c_call back f l c =
     bind (push (Code back) c) (\<lambda>c. bind (scratch l c) (\<lambda>c. bind (f c) (\<lambda>(v, c).
     ret (c\<lparr>gpr := (gpr c)(EAX := v, ECX := regs_l l ECX, EDX := regs_l l EDX), eflags := eflags_l l\<rparr>))))"

text \<open>A C function that returns nothing leaves anything in EAX.\<close>

definition c_void :: "(kernel \<Rightarrow> kernel res) \<Rightarrow> leftovers \<Rightarrow> core \<Rightarrow> (val \<times> core) res" where
  "c_void f l c = bind (kernel_view c) (\<lambda>k. bind (f k) (\<lambda>k. Ok (regs_l l EAX, c\<lparr>krn := k\<rparr>)))"

definition c_int :: "(kernel \<Rightarrow> (int \<times> kernel) res) \<Rightarrow> core \<Rightarrow> (val \<times> core) res" where
  "c_int f c = bind (kernel_view c) (\<lambda>k. bind (f k) (\<lambda>(r, k). Ok (Num (word_of_int r), c\<lparr>krn := k\<rparr>)))"

section \<open>Entry and exit\<close>

text \<open>
  What the processor does through an interrupt gate: from user mode it takes the stack of the task state segment;
  IF, TF, NT, RF and VM are cleared.
\<close>

definition user_mode :: "core \<Rightarrow> bool" where "user_mode c \<longleftrightarrow> seg c CS AND 3 = 3"

definition enter_gate :: "core \<Rightarrow> core res" where
  "enter_gate c =
     bind (if user_mode c
           then push_all [Num (ucast (seg c SS)), gpr c ESP]
             (set_seg SS KERNEL_DS (set_reg ESP (Stk (tss_esp0 (krn c)) KERNEL_STACK_SIZE) c))
           else Ok c) (\<lambda>c'.
     bind (push_all [Num (eflags c), Num (ucast (seg c CS)), eip c] c') (\<lambda>c'.
     Ok (set_seg CS KERNEL_CS (c'\<lparr>eflags := eflags c AND NOT 0x34300\<rparr>))))"

definition iret :: "core \<Rightarrow> core res" where
  "iret c =
     bind (ret c) (\<lambda>c. bind (pop_all [S CS] c) (\<lambda>c. bind (pop c) (\<lambda>(f, c). bind (number f) (\<lambda>f.
     let c = c\<lparr>eflags := f\<rparr> in
     if user_mode c then bind (pop c) (\<lambda>(sp, c). bind (pop_all [S SS] c) (\<lambda>c. Ok (set_reg ESP sp c))) else Ok c))))"

definition SAVE_ALL :: "leftovers \<Rightarrow> core \<Rightarrow> core res" where
  "SAVE_ALL l c =
     bind (push_all (map (content c) [S GS, S FS, S ES, S DS, R EAX, R EBP, R EDI, R ESI, R EDX, R ECX, R EBX]) c) (\<lambda>c.
     let c = set_reg EDX (Num (ucast KERNEL_DS)) c;
         c = set_seg DS KERNEL_DS c;
         c = set_seg ES KERNEL_DS c in
     bind (push_all [content c (R EAX)] c) (\<lambda>c.
     bind (c_call (Site 0) (c_void user2system l) l c) (pop_all [R EAX])))"

definition RESTORE_ALL :: "leftovers \<Rightarrow> core \<Rightarrow> core res" where
  "RESTORE_ALL l c =
     bind (c_call (Site 1) (c_void system2user l) l c)
       (pop_all [R EBX, R ECX, R EDX, R ESI, R EDI, R EBP, R EAX, S DS, S ES, S FS, S GS])"

text \<open>\<open>movb $0x20, %al\<close>; of an address the other bytes are not followed.\<close>

definition EOI :: "leftovers \<Rightarrow> core \<Rightarrow> core" where
  "EOI l c = (case gpr c EAX of
     Num w \<Rightarrow> set_reg EAX (Num ((w AND 0xFFFFFF00) OR 0x20)) c
   | _ \<Rightarrow> set_reg EAX (regs_l l EAX) c)"

text \<open>\<open>keyboard_handler\<close>, \<open>clock_handler\<close> and \<open>ide_handler\<close>, whose routine is \<open>f\<close>\<close>

definition irq_handler :: "(kernel \<Rightarrow> kernel res) \<Rightarrow> leftovers \<Rightarrow> leftovers \<Rightarrow> leftovers \<Rightarrow> core \<Rightarrow> core res" where
  "irq_handler f l1 l2 l3 c =
     bind (enter_gate c) (\<lambda>c. bind (SAVE_ALL l1 c) (\<lambda>c. bind (c_call (Site 2) (c_void f l2) l2 (EOI l1 c)) (\<lambda>c.
     bind (RESTORE_ALL l3 c) iret)))"

definition fin :: "leftovers \<Rightarrow> core \<Rightarrow> core res" where
  "fin l c = bind (case gpr c ESP of
       Stk n i \<Rightarrow> if i + 6 < KERNEL_STACK_SIZE then Ok (set_word n (i + 6) (gpr c EAX) c) else Fault OutOfBounds
     | _ \<Rightarrow> Fault OutOfBounds) (\<lambda>c. bind (RESTORE_ALL l c) iret)"

text \<open>\<open>system_call_handler\<close>, with \<open>sys_call_table\<close> as the functions on the stacks\<close>

definition system_call_entry :: "(int \<Rightarrow> core \<Rightarrow> (val \<times> core) res) \<Rightarrow> leftovers \<Rightarrow> leftovers \<Rightarrow> leftovers \<Rightarrow> core \<Rightarrow> core res" where
  "system_call_entry table l1 l2 l3 c =
     bind (enter_gate c) (\<lambda>c. bind (SAVE_ALL l1 c) (\<lambda>c. bind (number (gpr c EAX)) (\<lambda>n.
     bind (if sint n < 0 \<or> MAX_SYSCALL < sint n then Ok (set_reg EAX (Num (word_of_int (-ENOSYS))) c)
           else c_call Fin (table (sint n)) l2 c) (fin l3))))"

text \<open>The handlers of the exceptions, whose routines print and loop, and \<open>mifault_handler\<close>, which calls without saving.\<close>

definition exception_entry :: "(kernel \<Rightarrow> kernel res) \<Rightarrow> leftovers \<Rightarrow> leftovers \<Rightarrow> leftovers \<Rightarrow> core \<Rightarrow> core res" where
  "exception_entry f l1 l2 l3 c =
     bind (enter_gate c) (\<lambda>c. bind (SAVE_ALL l1 c) (\<lambda>c. bind (c_call (Site 2) (c_void f l2) l2 c) (\<lambda>c.
     bind (RESTORE_ALL l3 c) iret)))"

definition mifault_entry :: "(kernel \<Rightarrow> kernel res) \<Rightarrow> leftovers \<Rightarrow> core \<Rightarrow> core res" where
  "mifault_entry f l c = bind (enter_gate c) (c_call (Site 2) (c_void f l) l)"

text \<open>Interrupt 0x82: the table is indexed with the register as it is.\<close>

definition zeos_call_entry :: "(int \<Rightarrow> core \<Rightarrow> (val \<times> core) res) \<Rightarrow> leftovers \<Rightarrow> leftovers \<Rightarrow> leftovers \<Rightarrow> core \<Rightarrow> core res" where
  "zeos_call_entry table l1 l2 l3 c =
     bind (enter_gate c) (\<lambda>c. bind (SAVE_ALL l1 c) (\<lambda>c. bind (number (gpr c EAX)) (\<lambda>n.
     bind (c_call Fin (table (sint n)) l2 c) (fin l3))))"

section \<open>Words of a stack\<close>

text \<open>\<open>below n i c c'\<close>: of the stacks only words of stack \<open>n\<close> below \<open>i\<close> differ.\<close>

definition below :: "nat \<Rightarrow> nat \<Rightarrow> core \<Rightarrow> core \<Rightarrow> bool" where
  "below n i c c' \<longleftrightarrow> kernel_esp c' = kernel_esp c \<and> (\<forall>m j. m \<noteq> n \<or> i \<le> j \<longrightarrow> stacks c' m j = stacks c m j)"

lemma below_refl [simp]: "below n i c c"
  by (simp add: below_def)

lemma below_trans: "below n i c c' \<Longrightarrow> below n i c' c'' \<Longrightarrow> below n i c c''"
  by (simp add: below_def)

lemma below_mono: "below n i c c' \<Longrightarrow> i \<le> k \<Longrightarrow> below n k c c'"
  unfolding below_def by (meson order_trans)

text \<open>\<open>frame c n i vs\<close>: the words from \<open>i\<close> on are \<open>vs\<close>.\<close>

definition frame :: "core \<Rightarrow> nat \<Rightarrow> nat \<Rightarrow> val list \<Rightarrow> bool" where
  "frame c n i vs \<longleftrightarrow> i + length vs \<le> KERNEL_STACK_SIZE \<and> (\<forall>j < length vs. stacks c n (i + j) = vs ! j)"

lemma frame_le: "frame c n i vs \<Longrightarrow> i + length vs \<le> KERNEL_STACK_SIZE"
  by (simp add: frame_def)

lemma frame_upd [simp]: "frame (c\<lparr>gpr := g\<rparr>) = frame c" "frame (c\<lparr>seg := s\<rparr>) = frame c" "frame (c\<lparr>eip := v\<rparr>) = frame c"
  "frame (c\<lparr>eflags := f\<rparr>) = frame c" "frame (c\<lparr>krn := k\<rparr>) = frame c"
  by (simp_all add: frame_def fun_eq_iff)

lemma frame_Nil [simp]: "frame c n i [] \<longleftrightarrow> i \<le> KERNEL_STACK_SIZE"
  by (simp add: frame_def)

lemma frame_Cons: "frame c n i (v # vs) \<longleftrightarrow> i < KERNEL_STACK_SIZE \<and> stacks c n i = v \<and> frame c n (Suc i) vs"
  by (auto simp: frame_def All_less_Suc2)

lemma frame_append: "frame c n i (us @ vs) \<longleftrightarrow> frame c n i us \<and> frame c n (i + length us) vs"
  by (induction us arbitrary: i) (auto simp: frame_Cons dest: frame_le)

lemma frame_below: "below n i c c' \<Longrightarrow> i \<le> j \<Longrightarrow> frame c n j vs \<Longrightarrow> frame c' n j vs"
  by (simp add: frame_def below_def)

lemma frame_same: "stacks c' = stacks c \<Longrightarrow> frame c' n i vs = frame c n i vs"
  by (simp add: frame_def)

text \<open>What a push or a pop leaves alone.\<close>

definition same_code :: "core \<Rightarrow> core \<Rightarrow> bool" where
  "same_code c c' \<longleftrightarrow> eip c' = eip c \<and> eflags c' = eflags c \<and> krn c' = krn c"

lemma push_Ok:
  assumes "gpr c ESP = Stk n i" "PCB_WORDS < i" "i \<le> KERNEL_STACK_SIZE"
  obtains c' where "push v c = Ok c'" "gpr c' = (gpr c)(ESP := Stk n (i - 1))" "seg c' = seg c" "same_code c c'"
    "below n i c c'" "stacks c' n (i - 1) = v"
proof
  show "push v c = Ok (set_reg ESP (Stk n (i - 1)) (set_word n (i - 1) v c))" using assms by (simp add: push_def)
qed (use assms in \<open>auto simp: set_reg_def set_word_def same_code_def below_def\<close>)

lemma push_all_Ok:
  assumes "gpr c ESP = Stk n i" "PCB_WORDS + length vs \<le> i" "i \<le> KERNEL_STACK_SIZE"
  shows "\<exists>c'. push_all vs c = Ok c' \<and> gpr c' = (gpr c)(ESP := Stk n (i - length vs)) \<and> seg c' = seg c \<and> same_code c c' \<and>
    below n i c c' \<and> frame c' n (i - length vs) (rev vs)"
  using assms
proof (induction vs arbitrary: c i)
  case Nil
  then show ?case by (auto simp: same_code_def)
next
  case (Cons v vs)
  then obtain c1 where 1: "push v c = Ok c1" "gpr c1 = (gpr c)(ESP := Stk n (i - 1))" "seg c1 = seg c" "same_code c c1"
    "below n i c c1" "stacks c1 n (i - 1) = v" by (auto elim!: push_Ok [of c n i v])
  then obtain c2 where 2: "push_all vs c1 = Ok c2" "gpr c2 = (gpr c1)(ESP := Stk n (i - 1 - length vs))" "seg c2 = seg c1" "same_code c1 c2"
    "below n (i - 1) c1 c2" "frame c2 n (i - 1 - length vs) (rev vs)"
    using Cons.IH [of c1 "i - 1"] Cons.prems by fastforce
  have "i - 1 - length vs + length (rev vs) = i - 1" "Suc (i - 1) = i" using Cons.prems by auto
  moreover have "stacks c2 n (i - 1) = v" using 1(6) 2(5) by (simp add: below_def)
  ultimately have "frame c2 n (i - length (v # vs)) (rev (v # vs))" using 2(6) Cons.prems
    by (simp add: frame_append frame_Cons PCB_WORDS_def)
  then show ?case using 1(1-4) 2(1-4) below_trans [OF 1(5) below_mono [OF 2(5)]] by (auto simp: same_code_def)
qed

lemma pop_Ok: "gpr c ESP = Stk n i \<Longrightarrow> i < KERNEL_STACK_SIZE \<Longrightarrow> pop c = Ok (stacks c n i, set_reg ESP (Stk n (Suc i)) c)"
  by (simp add: pop_def)

lemma ucast_word16 [simp]: "(ucast (ucast (w :: word16) :: dword) :: word16) = w"
  by (rule bit_word_eqI) (simp add: bit_simps)

lemma content_other: "y \<noteq> R r \<Longrightarrow> content (c\<lparr>gpr := (gpr c)(r := v)\<rparr>) y = content c y"
  "y \<noteq> S s \<Longrightarrow> content (c\<lparr>seg := (seg c)(s := w)\<rparr>) y = content c y"
  by (cases y; auto)+

lemma assign_Ok: "\<exists>c'. assign x (content c0 x) c = Ok c' \<and> content c' x = content c0 x \<and> (\<forall>y. y \<noteq> x \<longrightarrow> content c' y = content c y) \<and>
    same_code c c' \<and> stacks c' = stacks c \<and> kernel_esp c' = kernel_esp c"
proof (cases x)
  case (R r)
  then show ?thesis by (auto simp: set_reg_def same_code_def content_other)
next
  case (S s)
  then show ?thesis by (auto simp: set_seg_def same_code_def content_other)
qed

text \<open>Registers that are popped from words that hold what they were get it back.\<close>

lemma pop_all_Ok:
  assumes "gpr c ESP = Stk n i" "frame c n i (map (content c0) xs)" "R ESP \<notin> set xs"
  shows "\<exists>c'. pop_all xs c = Ok c' \<and> (\<forall>x \<in> set xs. content c' x = content c0 x) \<and>
    (\<forall>x. x \<notin> set xs \<longrightarrow> x \<noteq> R ESP \<longrightarrow> content c' x = content c x) \<and> gpr c' ESP = Stk n (i + length xs) \<and>
    same_code c c' \<and> stacks c' = stacks c \<and> kernel_esp c' = kernel_esp c"
  using assms
proof (induction xs arbitrary: c i)
  case Nil
  then show ?case by (auto simp: same_code_def)
next
  case (Cons x xs)
  let ?c = "set_reg ESP (Stk n (Suc i)) c"
  have c: "i < KERNEL_STACK_SIZE" "stacks c n i = content c0 x" "frame ?c n (Suc i) (map (content c0) xs)"
    using Cons.prems(2) by (simp_all add: frame_Cons set_reg_def)
  from assign_Ok [of x c0 ?c] obtain c1 where 1: "assign x (content c0 x) ?c = Ok c1" "content c1 x = content c0 x"
    "\<And>y. y \<noteq> x \<Longrightarrow> content c1 y = content ?c y" "same_code ?c c1" "stacks c1 = stacks ?c" "kernel_esp c1 = kernel_esp ?c" by blast
  have "gpr c1 ESP = Stk n (Suc i)" using 1(3) [of "R ESP"] Cons.prems(3) by (auto simp: set_reg_def)
  moreover have "frame c1 n (Suc i) (map (content c0) xs)" using c(3) frame_same [OF 1(5)] by simp
  ultimately obtain c2 where 2: "pop_all xs c1 = Ok c2" "\<forall>x \<in> set xs. content c2 x = content c0 x"
    "\<forall>x. x \<notin> set xs \<longrightarrow> x \<noteq> R ESP \<longrightarrow> content c2 x = content c1 x" "gpr c2 ESP = Stk n (Suc i + length xs)"
    "same_code c1 c2" "stacks c2 = stacks c1" "kernel_esp c2 = kernel_esp c1" using Cons.IH [of c1 "Suc i"] Cons.prems(3) by auto
  have other: "content ?c y = content c y" if "y \<noteq> R ESP" for y
    using that by (cases y) (auto simp: set_reg_def)
  have x: "x \<noteq> R ESP" using Cons.prems(3) by auto
  have run: "pop_all (x # xs) c = Ok c2" using pop_Ok [OF Cons.prems(1) c(1)] c(2) 1(1) 2(1) by simp
  have "\<forall>y \<in> set (x # xs). content c2 y = content c0 y" using 2(2,3) 1(2) x by auto
  moreover have "\<forall>y. y \<notin> set (x # xs) \<longrightarrow> y \<noteq> R ESP \<longrightarrow> content c2 y = content c y" using 2(3) 1(3) other by auto
  ultimately show ?case using run 2(4-7) 1(4-6) by (auto simp: same_code_def set_reg_def)
qed

section \<open>Calls\<close>

lemma below_upd [simp]: "below n i c (c'\<lparr>gpr := g\<rparr>) = below n i c c'" "below n i c (c'\<lparr>seg := s\<rparr>) = below n i c c'"
  "below n i c (c'\<lparr>eip := v\<rparr>) = below n i c c'" "below n i c (c'\<lparr>eflags := f\<rparr>) = below n i c c'"
  "below n i c (c'\<lparr>krn := k\<rparr>) = below n i c c'"
  by (simp_all add: below_def)

text \<open>Up to the body of a C function, and from its end on.\<close>

lemma call_enter:
  assumes "gpr c ESP = Stk n i" "PCB_WORDS + size_l l < i" "i \<le> KERNEL_STACK_SIZE"
  obtains c1 where "bind (push (Code back) c) (scratch l) = Ok c1" "gpr c1 = (gpr c)(ESP := Stk n (i - 1))" "seg c1 = seg c" "same_code c c1"
    "below n i c c1" "stacks c1 n (i - 1) = Code back"
proof -
  from assms obtain c1 where 1: "push (Code back) c = Ok c1" "gpr c1 = (gpr c)(ESP := Stk n (i - 1))" "seg c1 = seg c" "same_code c c1"
    "below n i c c1" "stacks c1 n (i - 1) = Code back" by (auto elim!: push_Ok [of c n i "Code back"])
  define c2 where "c2 = c1\<lparr>stacks := (stacks c1)(n := \<lambda>j. if i - 1 - size_l l \<le> j \<and> j < i - 1 then words_l l j else stacks c1 n j)\<rparr>"
  have "scratch l c1 = Ok c2" using assms 1(2) by (simp add: scratch_def c2_def)
  with 1(1) have "bind (push (Code back) c) (scratch l) = Ok c2" by simp
  moreover have "below n i c c2" using 1(5) by (auto simp: below_def c2_def)
  ultimately show ?thesis using 1(2-4,6) assms by (intro that [of c2]) (simp_all add: same_code_def c2_def)
qed

lemma ret_Ok:
  assumes "gpr c ESP = Stk n i" "i < KERNEL_STACK_SIZE"
  shows "ret c = Ok (set_reg ESP (Stk n (Suc i)) c\<lparr>eip := stacks c n i\<rparr>)"
  using assms by (simp add: ret_def pop_Ok)

lemma c_call_body:
  assumes i: "gpr c ESP = Stk n i" "PCB_WORDS + size_l l < i" "i \<le> KERNEL_STACK_SIZE"
    and f: "\<And>c1. gpr c1 = (gpr c)(ESP := Stk n (i - 1)) \<Longrightarrow> seg c1 = seg c \<Longrightarrow> same_code c c1 \<Longrightarrow> below n i c c1 \<Longrightarrow> stacks c1 n (i - 1) = Code back \<Longrightarrow>
      \<exists>c2. f c1 = Ok (v, c2) \<and> gpr c2 = gpr c1 \<and> seg c2 = seg c1 \<and> stacks c2 n = stacks c1 n \<and> P c2"
    and P: "\<And>c1 g e p. P c1 \<Longrightarrow> P (c1\<lparr>gpr := g, eflags := e, eip := p\<rparr>)"
  shows "\<exists>c'. c_call back f l c = Ok c' \<and> gpr c' = (gpr c)(EAX := v, ECX := regs_l l ECX, EDX := regs_l l EDX) \<and> seg c' = seg c \<and>
    (\<forall>j \<ge> i. stacks c' n j = stacks c n j) \<and> eip c' = Code back \<and> P c'"
proof -
  from call_enter [OF i, of "back"] obtain c1 where 1: "bind (push (Code back) c) (scratch l) = Ok c1" "gpr c1 = (gpr c)(ESP := Stk n (i - 1))"
    "seg c1 = seg c" "same_code c c1" "below n i c c1" "stacks c1 n (i - 1) = Code back" .
  from f [OF 1(2-6)] obtain c2 where 2: "f c1 = Ok (v, c2)" "gpr c2 = gpr c1" "seg c2 = seg c1" "stacks c2 n = stacks c1 n" "P c2" by blast
  let ?g = "(gpr c2)(EAX := v, ECX := regs_l l ECX, EDX := regs_l l EDX)"
  have S: "Suc (i - 1) = i" using i by simp
  have "c_call back f l c = ret (c2\<lparr>gpr := ?g, eflags := eflags_l l\<rparr>)" using 1(1) 2(1) by (auto simp: c_call_def)
  also have "\<dots> = Ok (c2\<lparr>gpr := ?g(ESP := Stk n i), eflags := eflags_l l, eip := Code back\<rparr>)"
    using i 1(2,6) 2(2,4) S by (subst ret_Ok [of _ n "i - 1"]) (auto simp: set_reg_def)
  finally have run: "c_call back f l c = Ok (c2\<lparr>gpr := ?g(ESP := Stk n i), eflags := eflags_l l, eip := Code back\<rparr>)" .
  show ?thesis unfolding run
    by (rule exI conjI refl)+ (use i 1 2 P in \<open>auto simp: fun_eq_iff below_def\<close>)
qed

text \<open>A call that changes nothing but the state of the kernel.\<close>

lemma c_call_Ok:
  assumes i: "gpr c ESP = Stk n i" "PCB_WORDS + size_l l < i" "i \<le> KERNEL_STACK_SIZE"
    and f: "\<And>c1. krn c1 = krn c \<Longrightarrow> current c1 = Ok n \<Longrightarrow> f c1 = Ok (v, c1\<lparr>krn := k\<rparr>)"
  shows "\<exists>c'. c_call back f l c = Ok c' \<and> gpr c' = (gpr c)(EAX := v, ECX := regs_l l ECX, EDX := regs_l l EDX) \<and> seg c' = seg c \<and>
    krn c' = k \<and> below n i c c'"
proof -
  let ?P = "\<lambda>c'. krn c' = k \<and> below n i c c'"
  have "\<exists>c'. c_call back f l c = Ok c' \<and> gpr c' = (gpr c)(EAX := v, ECX := regs_l l ECX, EDX := regs_l l EDX) \<and> seg c' = seg c \<and>
    (\<forall>j \<ge> i. stacks c' n j = stacks c n j) \<and> eip c' = Code back \<and> ?P c'"
  proof (rule c_call_body [OF i, where P = ?P])
    fix c1 assume c1: "gpr c1 = (gpr c)(ESP := Stk n (i - 1))" "seg c1 = seg c" "same_code c c1" "below n i c c1"
    have "current c1 = Ok n" using c1(1) i by (simp add: current_def)
    then show "\<exists>c2. f c1 = Ok (v, c2) \<and> gpr c2 = gpr c1 \<and> seg c2 = seg c1 \<and> stacks c2 n = stacks c1 n \<and> ?P c2"
      using f [of c1] c1 by (simp add: same_code_def)
  qed simp
  then show ?thesis by blast
qed

text \<open>Entering and leaving the kernel only reads the clock and changes the statistics of the task.\<close>

definition times_only :: "kernel \<Rightarrow> kernel \<Rightarrow> bool" where
  "times_only k k' \<longleftrightarrow> same_queues k k' \<and> tss_esp0 k' = tss_esp0 k \<and> next_PID k' = next_PID k \<and> frame_mem k' = frame_mem k \<and> quantum_left k' = quantum_left k"

lemma mode_times:
  assumes "f = user2system \<or> f = system2user" "n < length (task k)"
  obtains k' where "f (k\<lparr>cur := n\<rparr>) = Ok k'" "times_only k k'" "cur k' = n"
  using assms read_clock_Ok [of "k\<lparr>cur := n\<rparr>"]
  by (auto simp: user2system_def system2user_def finishUserTime_def finishSystemTime_def set_task_Ok times_only_def same_queues_def nth_list_update)

section \<open>What entry saves and exit restores\<close>

definition saved_regs :: "operand list" where
  "saved_regs = [R EBX, R ECX, R EDX, R ESI, R EDI, R EBP, R EAX, S DS, S ES, S FS, S GS]"

lemma length_saved [simp]: "length (map f saved_regs) = 11" "length saved_regs = 11"
  by (simp_all add: saved_regs_def)

lemma SAVE_ALL_Ok:
  assumes i: "gpr c ESP = Stk n i" "PCB_WORDS + 13 + size_l l < i" "i \<le> KERNEL_STACK_SIZE" and n: "n < length (task (krn c))"
  shows "\<exists>c'. SAVE_ALL l c = Ok c' \<and> gpr c' = (gpr c)(EDX := gpr c' EDX, ECX := gpr c' ECX, ESP := Stk n (i - 11)) \<and>
    seg c' CS = seg c CS \<and> seg c' SS = seg c SS \<and> frame c' n (i - 11) (map (content c) saved_regs) \<and> below n i c c' \<and>
    times_only (krn c) (krn c') \<and> cur (krn c') = n"
proof -
  define vs where "vs = map (content c) [S GS, S FS, S ES, S DS, R EAX, R EBP, R EDI, R ESI, R EDX, R ECX, R EBX]"
  have vs: "rev vs = map (content c) saved_regs" "length vs = 11" by (simp_all add: vs_def saved_regs_def)
  from push_all_Ok [OF i(1), of vs, unfolded vs] i(2,3) obtain c1 where 1: "push_all vs c = Ok c1" "gpr c1 = (gpr c)(ESP := Stk n (i - 11))"
    "seg c1 = seg c" "same_code c c1" "below n i c c1" "frame c1 n (i - 11) (map (content c) saved_regs)" by auto
  define c2 where "c2 = set_seg ES KERNEL_DS (set_seg DS KERNEL_DS (set_reg EDX (Num (ucast KERNEL_DS)) c1))"
  have 2: "gpr c2 = (gpr c1)(EDX := Num (ucast KERNEL_DS))" "below n i c c2" "frame c2 n (i - 11) (map (content c) saved_regs)" "krn c2 = krn c"
    "seg c2 CS = seg c CS" "seg c2 SS = seg c SS"
    using 1(3-6) by (simp_all add: c2_def set_seg_def set_reg_def same_code_def)
  have "gpr c2 ESP = Stk n (i - 11)" "gpr c2 EAX = gpr c EAX" using 1(2) 2(1) by simp_all
  moreover have "PCB_WORDS + length [gpr c2 EAX] \<le> i - 11" "i - 11 \<le> KERNEL_STACK_SIZE" using i(2,3) by simp_all
  ultimately obtain c3 where 3: "push_all [content c2 (R EAX)] c2 = Ok c3"
    "gpr c3 = (gpr c2)(ESP := Stk n (i - 12))" "seg c3 = seg c2" "same_code c2 c3" "below n (i - 11) c2 c3" "frame c3 n (i - 12) [content c (R EAX)]"
    using push_all_Ok [of c2 n "i - 11" "[gpr c2 EAX]"] by auto
  have n3: "n < length (task (krn c3))" using n 2(4) 3(4) by (simp add: same_code_def)
  from mode_times [OF _ n3, of user2system] obtain k where k: "user2system ((krn c3)\<lparr>cur := n\<rparr>) = Ok k" "times_only (krn c3) k" "cur k = n" by auto
  have "gpr c3 ESP = Stk n (i - 12)" "PCB_WORDS + size_l l < i - 12" "i - 12 \<le> KERNEL_STACK_SIZE" using 3(2) i by simp_all
  from c_call_Ok [OF this, of "c_void user2system l" "regs_l l EAX" k "Site 0"] k(1)
  obtain c4 where 4: "c_call (Site 0) (c_void user2system l) l c3 = Ok c4"
    "gpr c4 = (gpr c3)(EAX := regs_l l EAX, ECX := regs_l l ECX, EDX := regs_l l EDX)" "seg c4 = seg c3" "krn c4 = k" "below n (i - 12) c3 c4"
    by (auto simp: c_void_def kernel_view_def)
  have "gpr c4 ESP = Stk n (i - 12)" "frame c4 n (i - 12) (map (content c) [R EAX])"
    using 3(2) 4(2) frame_below [OF 4(5) _ 3(6)] by simp_all
  from pop_all_Ok [OF this] obtain c5 where 5: "pop_all [R EAX] c4 = Ok c5" "content c5 (R EAX) = content c (R EAX)"
    "\<forall>x. x \<noteq> R EAX \<longrightarrow> x \<noteq> R ESP \<longrightarrow> content c5 x = content c4 x" "gpr c5 ESP = Stk n (i - 12 + 1)" "same_code c4 c5" "stacks c5 = stacks c4"
    "kernel_esp c5 = kernel_esp c4" by auto
  have run: "SAVE_ALL l c = Ok c5" unfolding SAVE_ALL_def vs_def [symmetric] using 1(1) 3(1) 4(1) 5(1) by (simp add: Let_def c2_def)
  have regs: "gpr c5 r = gpr c4 r" if "r \<noteq> EAX" "r \<noteq> ESP" for r using 5(3) [rule_format, of "R r"] that by simp
  have "gpr c5 r = ((gpr c)(EDX := gpr c5 EDX, ECX := gpr c5 ECX, ESP := Stk n (i - 11))) r" for r
    using regs [of r] 5(2,4) 1(2) 2(1) 3(2) 4(2) i(2) by (cases r) simp_all
  then have "gpr c5 = (gpr c)(EDX := gpr c5 EDX, ECX := gpr c5 ECX, ESP := Stk n (i - 11))" by blast
  moreover have s: "seg c5 s = seg c4 s" for s using 5(3) [rule_format, of "S s"] by (metis content.simps(2) operand.distinct(1) ucast_word16 val.inject(1))
  have "seg c5 CS = seg c CS" "seg c5 SS = seg c SS" using s 2(5,6) 3(3) 4(3) by simp_all
  moreover have b: "below n (i - 11) c2 c5"
    using below_trans [OF 3(5) below_mono [OF 4(5)]] 5(6,7) by (simp add: below_def)
  then have "below n i c c5" "frame c5 n (i - 11) (map (content c) saved_regs)"
    using below_trans [OF 2(2) below_mono [OF b]] frame_below [OF b _ 2(3)] by simp_all
  moreover have "times_only (krn c) (krn c5)" "cur (krn c5) = n" using k(2,3) 4(4) 5(5) 2(4) 3(4) by (simp_all add: same_code_def)
  ultimately show ?thesis using run by blast
qed

lemma RESTORE_ALL_Ok:
  assumes i: "gpr c ESP = Stk n i" "PCB_WORDS + size_l l < i" and saved: "frame c n i (map (content c0) saved_regs)" and n: "n < length (task (krn c))"
  shows "\<exists>c'. RESTORE_ALL l c = Ok c' \<and> gpr c' = (gpr c0)(ESP := Stk n (i + 11)) \<and>
    (\<forall>s. s \<noteq> CS \<longrightarrow> s \<noteq> SS \<longrightarrow> seg c' s = seg c0 s) \<and> seg c' CS = seg c CS \<and> seg c' SS = seg c SS \<and> below n i c c' \<and>
    times_only (krn c) (krn c') \<and> cur (krn c') = n"
proof -
  from mode_times [OF _ n, of system2user] obtain k where k: "system2user ((krn c)\<lparr>cur := n\<rparr>) = Ok k" "times_only (krn c) k" "cur k = n" by auto
  have "i \<le> KERNEL_STACK_SIZE" using frame_le [OF saved] by simp
  from c_call_Ok [OF i this, of "c_void system2user l" "regs_l l EAX" k "Site 1"] k(1)
  obtain c1 where 1: "c_call (Site 1) (c_void system2user l) l c = Ok c1"
    "gpr c1 = (gpr c)(EAX := regs_l l EAX, ECX := regs_l l ECX, EDX := regs_l l EDX)" "seg c1 = seg c" "krn c1 = k" "below n i c c1"
    by (auto simp: c_void_def kernel_view_def)
  have "gpr c1 ESP = Stk n i" "frame c1 n i (map (content c0) saved_regs)" using i 1(2) frame_below [OF 1(5) order_refl saved] by simp_all
  moreover have "R ESP \<notin> set saved_regs" by (simp add: saved_regs_def)
  ultimately obtain c2 where 2: "pop_all saved_regs c1 = Ok c2" "\<forall>x \<in> set saved_regs. content c2 x = content c0 x"
    "\<forall>x. x \<notin> set saved_regs \<longrightarrow> x \<noteq> R ESP \<longrightarrow> content c2 x = content c1 x" "gpr c2 ESP = Stk n (i + 11)" "same_code c1 c2" "stacks c2 = stacks c1"
    "kernel_esp c2 = kernel_esp c1" using pop_all_Ok [of c1 n i c0 saved_regs] by auto
  have seg: "seg a s = seg b s" if "content a (S s) = content b (S s)" for a b s using that by (metis content.simps(2) ucast_word16 val.inject(1))
  have "gpr c2 r = ((gpr c0)(ESP := Stk n (i + 11))) r" for r
    using bspec [OF 2(2), of "R r"] 2(4) by (cases r) (simp_all add: saved_regs_def)
  then have "gpr c2 = (gpr c0)(ESP := Stk n (i + 11))" by blast
  moreover have "seg c2 s = seg c0 s" if "s \<noteq> CS" "s \<noteq> SS" for s using that by (cases s) (rule seg, rule bspec [OF 2(2)], simp add: saved_regs_def)+
  moreover have "seg c2 CS = seg c1 CS" "seg c2 SS = seg c1 SS" by (rule seg, rule 2(3) [rule_format]; simp add: saved_regs_def)+
  moreover have "RESTORE_ALL l c = Ok c2" unfolding RESTORE_ALL_def saved_regs_def [symmetric] using 1(1) 2(1) by simp
  ultimately show ?thesis using 1(3-5) 2(5-7) k(2,3) by (simp add: below_def same_code_def)
qed

text \<open>Where an interrupt saves the state \<open>c\<close>: stack \<open>n\<close> below \<open>i\<close>; and what it saves.\<close>

definition entered_at :: "core \<Rightarrow> nat \<Rightarrow> nat \<Rightarrow> bool" where
  "entered_at c n i \<longleftrightarrow> (if user_mode c then n = tss_esp0 (krn c) \<and> i = KERNEL_STACK_SIZE
     else gpr c ESP = Stk n i \<and> PCB_WORDS + 3 \<le> i \<and> i \<le> KERNEL_STACK_SIZE)"

definition interrupted :: "core \<Rightarrow> val list" where
  "interrupted c = [eip c, Num (ucast (seg c CS)), Num (eflags c)] @ (if user_mode c then [gpr c ESP, Num (ucast (seg c SS))] else [])"

lemma interrupt_Ok:
  assumes "entered_at c n i"
  shows "\<exists>c'. enter_gate c = Ok c' \<and> gpr c' = (gpr c)(ESP := Stk n (i - length (interrupted c))) \<and>
    (\<forall>s. s \<noteq> CS \<longrightarrow> s \<noteq> SS \<longrightarrow> seg c' s = seg c s) \<and> (\<not> user_mode c \<longrightarrow> seg c' SS = seg c SS) \<and> krn c' = krn c \<and>
    frame c' n (i - length (interrupted c)) (interrupted c) \<and> below n i c c'"
proof (cases "user_mode c")
  case False
  let ?vs = "[Num (eflags c), Num (ucast (seg c CS)), eip c]"
  from False assms have i: "gpr c ESP = Stk n i" "PCB_WORDS + length ?vs \<le> i" "i \<le> KERNEL_STACK_SIZE" by (simp_all add: entered_at_def)
  obtain c1 where 1: "push_all ?vs c = Ok c1" "gpr c1 = (gpr c)(ESP := Stk n (i - 3))" "seg c1 = seg c" "same_code c c1"
    "below n i c c1" "frame c1 n (i - 3) (interrupted c)" using push_all_Ok [OF i] False by (auto simp: interrupted_def numeral_3_eq_3)
  then have "enter_gate c = Ok (set_seg CS KERNEL_CS (c1\<lparr>eflags := eflags c AND NOT 0x34300\<rparr>))" using False
    by (simp add: enter_gate_def del: push_all.simps bind_eq_Ok)
  with 1(2-6) False show ?thesis by (simp add: set_seg_def same_code_def interrupted_def numeral_3_eq_3)
next
  case True
  let ?c = "set_seg SS KERNEL_DS (set_reg ESP (Stk (tss_esp0 (krn c)) KERNEL_STACK_SIZE) c)"
  let ?us = "[Num (ucast (seg c SS)), gpr c ESP]" and ?vs = "[Num (eflags c), Num (ucast (seg c CS)), eip c]"
  from True assms have n: "n = tss_esp0 (krn c)" "i = KERNEL_STACK_SIZE" by (simp_all add: entered_at_def)
  have "gpr ?c ESP = Stk n i" "PCB_WORDS + length ?us \<le> i" "i \<le> KERNEL_STACK_SIZE"
    by (simp_all add: n set_seg_def set_reg_def KERNEL_STACK_SIZE_def PCB_WORDS_def)
  from push_all_Ok [OF this] obtain c1 where 1: "push_all ?us ?c = Ok c1" "gpr c1 = (gpr ?c)(ESP := Stk n (i - 2))" "seg c1 = seg ?c" "same_code ?c c1"
    "below n i ?c c1" "frame c1 n (i - 2) (rev ?us)" by (auto simp: numeral_2_eq_2)
  have "gpr c1 ESP = Stk n (i - 2)" "PCB_WORDS + length ?vs \<le> i - 2" "i - 2 \<le> KERNEL_STACK_SIZE"
    using 1(2) by (simp_all add: n KERNEL_STACK_SIZE_def PCB_WORDS_def)
  from push_all_Ok [OF this] obtain c2 where 2: "push_all ?vs c1 = Ok c2" "gpr c2 = (gpr c1)(ESP := Stk n (i - 5))" "seg c2 = seg c1" "same_code c1 c2"
    "below n (i - 2) c1 c2" "frame c2 n (i - 5) (rev ?vs)" by (auto simp: eval_nat_numeral)
  have "i - 5 + length (rev ?vs) = i - 2" by (simp add: n KERNEL_STACK_SIZE_def)
  then have "frame c2 n (i - 5) (rev ?vs @ rev ?us)" unfolding frame_append using 2(6) frame_below [OF 2(5) order_refl 1(6)] by simp
  moreover have len: "length (interrupted c) = 5" and w: "rev ?vs @ rev ?us = interrupted c" using True by (simp_all add: interrupted_def)
  moreover have "enter_gate c = Ok (set_seg CS KERNEL_CS (c2\<lparr>eflags := eflags c AND NOT 0x34300\<rparr>))"
    using True 1(1) 2(1) by (simp add: enter_gate_def del: push_all.simps bind_eq_Ok)
  moreover have "below n i c c2" using below_trans [OF 1(5) below_mono [OF 2(5)]] by (simp add: below_def set_seg_def set_reg_def)
  moreover have "gpr c2 = (gpr c)(ESP := Stk n (i - 5))" using 1(2) 2(2) by (simp add: set_seg_def set_reg_def fun_eq_iff)
  moreover have "krn c2 = krn c" "seg c2 = (seg c)(SS := KERNEL_DS)" using 1(3,4) 2(3,4) by (simp_all add: same_code_def set_seg_def set_reg_def)
  ultimately show ?thesis using True by (simp add: set_seg_def)
qed

lemma iret_Ok:
  assumes c: "gpr c ESP = Stk n j" "frame c n j (interrupted c0)"
    and k: "\<not> user_mode c0 \<Longrightarrow> gpr c0 ESP = Stk n (j + 3) \<and> seg c SS = seg c0 SS"
  shows "\<exists>c'. iret c = Ok c' \<and> gpr c' = (gpr c)(ESP := gpr c0 ESP) \<and> seg c' = (seg c)(CS := seg c0 CS, SS := seg c0 SS) \<and>
    eip c' = eip c0 \<and> eflags c' = eflags c0 \<and> krn c' = krn c \<and> stacks c' = stacks c \<and> kernel_esp c' = kernel_esp c"
proof (cases "user_mode c0")
  case False
  then have f: "j < KERNEL_STACK_SIZE" "stacks c n j = eip c0" "Suc j < KERNEL_STACK_SIZE" "stacks c n (Suc j) = Num (ucast (seg c0 CS))"
    "Suc (Suc j) < KERNEL_STACK_SIZE" "stacks c n (Suc (Suc j)) = Num (eflags c0)" using c(2) by (simp_all add: interrupted_def frame_Cons)
  have "seg c0 CS AND 3 \<noteq> 3" using False by (simp add: user_mode_def)
  then show ?thesis using c(1) f k [OF False]
    by (simp add: iret_def ret_def pop_def set_reg_def set_seg_def user_mode_def Let_def fun_eq_iff)
next
  case True
  then have f: "j < KERNEL_STACK_SIZE" "stacks c n j = eip c0" "Suc j < KERNEL_STACK_SIZE" "stacks c n (Suc j) = Num (ucast (seg c0 CS))"
    "Suc (Suc j) < KERNEL_STACK_SIZE" "stacks c n (Suc (Suc j)) = Num (eflags c0)"
    "Suc (Suc (Suc j)) < KERNEL_STACK_SIZE" "stacks c n (Suc (Suc (Suc j))) = gpr c0 ESP"
    "Suc (Suc (Suc (Suc j))) < KERNEL_STACK_SIZE" "stacks c n (Suc (Suc (Suc (Suc j)))) = Num (ucast (seg c0 SS))"
    using c(2) by (simp_all add: interrupted_def frame_Cons)
  have "seg c0 CS AND 3 = 3" using True by (simp add: user_mode_def)
  then show ?thesis using c(1) f
    by (simp add: iret_def ret_def pop_def set_reg_def set_seg_def user_mode_def Let_def fun_eq_iff)
qed

section \<open>An interrupt does not show\<close>

text \<open>From the saved registers back to where the interrupt came in.\<close>

definition resumes :: "core \<Rightarrow> core \<Rightarrow> bool" where
  "resumes c c' \<longleftrightarrow> gpr c' = gpr c \<and> seg c' = seg c \<and> eip c' = eip c \<and> eflags c' = eflags c"

text \<open>\<open>context_of c n j\<close>: what \<open>SAVE_ALL\<close> and the interrupt put on stack \<open>n\<close> from \<open>j\<close> on.\<close>

definition context_of :: "core \<Rightarrow> val list" where
  "context_of c = map (content c) saved_regs @ interrupted c"

definition save_place :: "core \<Rightarrow> nat \<Rightarrow> nat" where
  "save_place c i = i - length (context_of c)"

lemma enter_Ok:
  assumes e: "entered_at c n i" "PCB_WORDS + 29 + size_l l < i" "i \<le> KERNEL_STACK_SIZE" "n < length (task (krn c))"
  shows "\<exists>c'. bind (enter_gate c) (SAVE_ALL l) = Ok c' \<and> gpr c' = (gpr c)(EDX := gpr c' EDX, ECX := gpr c' ECX, ESP := Stk n (save_place c i)) \<and>
    (\<not> user_mode c \<longrightarrow> seg c' SS = seg c SS) \<and> frame c' n (save_place c i) (context_of c) \<and> below n i c c' \<and> times_only (krn c) (krn c') \<and> cur (krn c') = n"
proof -
  have len: "length (interrupted c) \<le> 5" by (simp add: interrupted_def)
  from interrupt_Ok [OF e(1)] obtain c1 where 1: "enter_gate c = Ok c1" "gpr c1 = (gpr c)(ESP := Stk n (i - length (interrupted c)))"
    "\<forall>s. s \<noteq> CS \<longrightarrow> s \<noteq> SS \<longrightarrow> seg c1 s = seg c s" "\<not> user_mode c \<longrightarrow> seg c1 SS = seg c SS" "krn c1 = krn c"
    "frame c1 n (i - length (interrupted c)) (interrupted c)" "below n i c c1" by blast
  have "gpr c1 ESP = Stk n (i - length (interrupted c))" "PCB_WORDS + 13 + size_l l < i - length (interrupted c)" "i - length (interrupted c) \<le> KERNEL_STACK_SIZE"
    "n < length (task (krn c1))" using 1(2,5) len e by simp_all
  from SAVE_ALL_Ok [OF this] obtain c2 where 2: "SAVE_ALL l c1 = Ok c2"
    "gpr c2 = (gpr c1)(EDX := gpr c2 EDX, ECX := gpr c2 ECX, ESP := Stk n (i - length (interrupted c) - 11))" "seg c2 SS = seg c1 SS"
    "frame c2 n (i - length (interrupted c) - 11) (map (content c1) saved_regs)" "below n (i - length (interrupted c)) c1 c2"
    "times_only (krn c1) (krn c2)" "cur (krn c2) = n" by blast
  have m: "map (content c1) saved_regs = map (content c) saved_regs" using 1(2,3) by (simp add: saved_regs_def)
  have p: "save_place c i = i - length (interrupted c) - 11" "save_place c i + 11 = i - length (interrupted c)" using len e(2)
    by (simp_all add: save_place_def context_of_def)
  have "frame c2 n (save_place c i) (context_of c)"
    unfolding context_of_def frame_append using 2(4) m p frame_below [OF 2(5) order_refl 1(6)] by simp
  moreover have "gpr c2 = (gpr c)(EDX := gpr c2 EDX, ECX := gpr c2 ECX, ESP := Stk n (save_place c i))"
    by (rule trans [OF 2(2)]) (simp add: 1(2) p(1) fun_eq_iff)
  moreover have "below n i c c2" using below_trans [OF 1(7) below_mono [OF 2(5)]] by simp
  ultimately show ?thesis using 1(1,4,5) 2(1,3,6,7) by auto
qed

lemma leave_Ok:
  assumes c: "gpr c ESP = Stk n (save_place c0 i)" "frame c n (save_place c0 i) (context_of c0)" "PCB_WORDS + size_l l < save_place c0 i"
    and e: "\<not> user_mode c0 \<Longrightarrow> entered_at c0 n i \<and> seg c SS = seg c0 SS" and n: "n < length (task (krn c))"
  shows "\<exists>c'. bind (RESTORE_ALL l c) iret = Ok c' \<and> resumes c0 c' \<and> below n i c c' \<and> times_only (krn c) (krn c') \<and> cur (krn c') = n"
proof -
  from c(2) have f: "frame c n (save_place c0 i) (map (content c0) saved_regs)" "frame c n (save_place c0 i + 11) (interrupted c0)"
    by (simp_all add: context_of_def frame_append)
  from RESTORE_ALL_Ok [OF c(1,3) f(1) n] obtain c1 where 1: "RESTORE_ALL l c = Ok c1" "gpr c1 = (gpr c0)(ESP := Stk n (save_place c0 i + 11))"
    "\<forall>s. s \<noteq> CS \<longrightarrow> s \<noteq> SS \<longrightarrow> seg c1 s = seg c0 s" "seg c1 SS = seg c SS" "below n (save_place c0 i) c c1" "times_only (krn c) (krn c1)" "cur (krn c1) = n"
    by blast
  have "gpr c1 ESP = Stk n (save_place c0 i + 11)" "frame c1 n (save_place c0 i + 11) (interrupted c0)"
    using 1(2) frame_below [OF 1(5) _ f(2)] by simp_all
  moreover have "\<not> user_mode c0 \<Longrightarrow> gpr c0 ESP = Stk n (save_place c0 i + 11 + 3) \<and> seg c1 SS = seg c0 SS"
    using e 1(4) c(3) by (simp add: entered_at_def save_place_def context_of_def interrupted_def)
  ultimately obtain c2 where 2: "iret c1 = Ok c2" "gpr c2 = (gpr c1)(ESP := gpr c0 ESP)" "seg c2 = (seg c1)(CS := seg c0 CS, SS := seg c0 SS)"
    "eip c2 = eip c0" "eflags c2 = eflags c0" "krn c2 = krn c1" "stacks c2 = stacks c1" "kernel_esp c2 = kernel_esp c1" using iret_Ok by blast
  have "seg c2 = seg c0" using 1(3) 2(3) by (simp add: fun_eq_iff)
  moreover have "gpr c2 = gpr c0" using 1(2) 2(2) by (simp add: fun_eq_iff)
  moreover have "below n i c c2" using below_mono [OF 1(5), of i] 2(7,8) by (simp add: below_def save_place_def)
  ultimately show ?thesis using 1(1,6,7) 2(1,4-6) by (auto simp: resumes_def)
qed

lemma times_onlyD: "times_only k k' \<Longrightarrow> length (task k') = length (task k) \<and> tss_esp0 k' = tss_esp0 k"
  by (simp add: times_only_def same_queues_def)

lemma irq_Ok:
  assumes e: "entered_at c n i" "PCB_WORDS + 29 + size_l l1 < i" "i \<le> KERNEL_STACK_SIZE" "n < length (task (krn c))"
    and sizes: "PCB_WORDS + 29 + size_l l2 < i" "PCB_WORDS + 29 + size_l l3 < i"
    and f: "\<And>k. times_only (krn c) k \<Longrightarrow> cur k = n \<Longrightarrow> \<exists>k'. f k = Ok k' \<and> length (task k') = length (task k)"
  shows "\<exists>c'. irq_handler f l1 l2 l3 c = Ok c' \<and> resumes c c' \<and> below n i c c' \<and> cur (krn c') = n"
proof -
  from enter_Ok [OF e] obtain c1 where 1: "bind (enter_gate c) (SAVE_ALL l1) = Ok c1" "gpr c1 ESP = Stk n (save_place c i)"
    "\<not> user_mode c \<longrightarrow> seg c1 SS = seg c SS" "frame c1 n (save_place c i) (context_of c)" "below n i c c1" "times_only (krn c) (krn c1)" "cur (krn c1) = n"
    by (metis fun_upd_same)
  from f [OF 1(6,7)] obtain k where k: "f (krn c1) = Ok k" "length (task k) = length (task (krn c1))" by blast
  define c2 where "c2 = EOI l1 c1"
  have 2: "seg c2 = seg c1" "krn c2 = krn c1" "below n (save_place c i) c1 c2" "gpr c2 ESP = Stk n (save_place c i)"
    using 1(2) by (simp_all add: c2_def EOI_def set_reg_def split: val.split)
  have le: "length (context_of c) \<le> 16" "save_place c i \<le> i" by (simp_all add: context_of_def interrupted_def save_place_def)
  have "PCB_WORDS + size_l l2 < save_place c i" "save_place c i \<le> KERNEL_STACK_SIZE" using le sizes e(3) by (simp_all add: save_place_def)
  from c_call_Ok [OF 2(4) this, of "c_void f l2" "regs_l l2 EAX" k "Site 2"] obtain c3 where 3: "c_call (Site 2) (c_void f l2) l2 c2 = Ok c3"
    "gpr c3 ESP = Stk n (save_place c i)" "seg c3 = seg c2" "krn c3 = k" "below n (save_place c i) c2 c3"
    using k(1) 1(7) 2(2,4) by (auto simp: c_void_def kernel_view_def)
  have b: "below n (save_place c i) c1 c3" using below_trans [OF 2(3) 3(5)] .
  have "frame c3 n (save_place c i) (context_of c)" using frame_below [OF b order_refl 1(4)] .
  moreover have "PCB_WORDS + size_l l3 < save_place c i" using le sizes by (simp add: save_place_def)
  moreover have "n < length (task (krn c3))" using e(4) k(2) 3(4) times_onlyD [OF 1(6)] by simp
  moreover have "\<not> user_mode c \<Longrightarrow> seg c3 SS = seg c SS" using 1(3) 2(1) 3(3) by simp
  ultimately obtain c4 where 4: "bind (RESTORE_ALL l3 c3) iret = Ok c4" "resumes c c4" "below n i c3 c4" "cur (krn c4) = n"
    using leave_Ok [OF 3(2)] e(1) by blast
  have "irq_handler f l1 l2 l3 c = Ok c4" using 1(1) 3(1) 4(1) by (auto simp: irq_handler_def c2_def)
  then show ?thesis using 4(2,4) below_trans [OF below_trans [OF 1(5) below_mono [OF b le(2)]] 4(3)] by blast
qed

text \<open>An exception of a user process never comes back: its routine loops.\<close>

lemma exception_gate_hangs:
  assumes e: "entered_at c n i" "PCB_WORDS + 29 + size_l l1 < i" "i \<le> KERNEL_STACK_SIZE" "n < length (task (krn c))" "PCB_WORDS + 29 + size_l l2 < i"
  shows "exception_entry (\<lambda>_. Fault Diverges) l1 l2 l3 c = Fault Diverges"
proof -
  from enter_Ok [OF e(1-4)] obtain c1 where 1: "bind (enter_gate c) (SAVE_ALL l1) = Ok c1" "gpr c1 ESP = Stk n (save_place c i)" by (metis fun_upd_same)
  have "length (context_of c) \<le> 16" by (simp add: context_of_def interrupted_def)
  then have p: "PCB_WORDS + size_l l2 < save_place c i" "save_place c i \<le> KERNEL_STACK_SIZE" using e(3,5) by (simp_all add: save_place_def)
  from call_enter [OF 1(2) p, of "Site 2"] obtain c2 where 2: "bind (push (Code (Site 2)) c1) (scratch l2) = Ok c2" "gpr c2 = (gpr c1)(ESP := Stk n (save_place c i - 1))" .
  then have "c_call (Site 2) (c_void (\<lambda>_. Fault Diverges) l2) l2 c1 = Fault Diverges"
    by (auto simp: c_call_def c_void_def kernel_view_def current_def)
  then show ?thesis using 1(1) by (auto simp: exception_entry_def)
qed

end
