(* ===== verification/Kernel_Switch.thy ===== *)
theory Kernel_Switch
  imports Kernel_Stacks
begin

text \<open>
  \<open>task_switch\<close> and \<open>inner_task_switch\<close> of sched.c on the kernel stacks, and the first stacks of new tasks:
  \<open>init_idle\<close>, \<open>sys_fork\<close> and \<open>sys_clone\<close>. A task that is switched out leaves its place in
  \<open>kernel_esp\<close>; as long as nobody writes its stack (\<open>others\<close>) the switch back to it goes on behind its call.
\<close>

section \<open>The switch\<close>

text \<open>
  \<open>inner_task_switch\<close> from its first instruction to the \<open>ret\<close> of its assembler, which pops from the other stack.
  The compiler's own use of registers is \<open>regs_l\<close>.
\<close>

definition inner_task_switch :: "leftovers \<Rightarrow> core \<Rightarrow> core res" where
  "inner_task_switch l c =
     bind (push (gpr c EBP) c) (\<lambda>c.
     let c = set_reg EBP (gpr c ESP) c in
     bind (word_at EBP 2 c) (\<lambda>p. case p of
       Stk new 0 \<Rightarrow>
         bind (kernel_view c) (\<lambda>k. bind (task_switch new k) (\<lambda>k'.
         let c = c\<lparr>kernel_esp := (kernel_esp c)(cur k := gpr c EBP), krn := k'\<rparr>;
             c = c\<lparr>gpr := (regs_l l)(EBP := gpr c EBP, ESP := kernel_esp c new)\<rparr> in
         bind (pop_all [R EBP] c) ret))
     | _ \<Rightarrow> Fault OutOfBounds))"

text \<open>The call \<open>task_switch(new)\<close> with its return address, up to where another task goes on.\<close>

definition task_switch_code :: "nat \<Rightarrow> label \<Rightarrow> leftovers \<Rightarrow> core \<Rightarrow> core res" where
  "task_switch_code new from l c =
     bind (push_all [Stk new 0, Code from, gpr c EBP] c) (\<lambda>c.
     let c = set_reg EBP (gpr c ESP) c in
     bind (push_all [gpr c EBX, gpr c ESI, gpr c EDI] c) (\<lambda>c.
     bind (word_at EBP 2 c) (\<lambda>p.
     bind (push_all [p, Code After_inner] c) (inner_task_switch l))))"

text \<open>From \<open>After_inner\<close> to the caller of \<open>task_switch\<close>, which drops the argument.\<close>

definition drop :: "core \<Rightarrow> core res" where "drop c = bind (pop c) (\<lambda>(_, c). Ok c)"

definition leave :: "core \<Rightarrow> core res" where
  "leave c = bind (pop_all [R EBP] (set_reg ESP (gpr c EBP) c)) ret"

definition resume_switch :: "core \<Rightarrow> core res" where
  "resume_switch c =
     bind (drop c) (\<lambda>c. bind (pop_all [R EDI, R ESI, R EBX] c) (\<lambda>c. bind (leave c) drop))"

text \<open>The words a switched out task leaves from its \<open>kernel_esp\<close> on.\<close>

definition switch_words :: "core \<Rightarrow> nat \<Rightarrow> nat \<Rightarrow> nat \<Rightarrow> label \<Rightarrow> val list" where
  "switch_words c n i new from = [Stk n (i - 3), Code After_inner, Stk new 0, gpr c EDI, gpr c ESI, gpr c EBX, gpr c EBP, Code from, Stk new 0]"

lemma task_switch_kernel:
  assumes "cur k < length (task k)" "new < length (task k)"
  obtains k' where "task_switch new k = Ok k'" "cur k' = new" "tss_esp0 k' = new" "task k' = task k"
  using assms by (auto simp: task_switch_def get_DIR_def get_task_Ok Let_def)

lemma word_at_Ok: "gpr c r = Stk n i \<Longrightarrow> i + d < KERNEL_STACK_SIZE \<Longrightarrow> word_at r d c = Ok (stacks c n (i + d))"
  by (simp add: word_at_def)

lemma switch_Ok:
  assumes i: "gpr c ESP = Stk n i" "PCB_WORDS + 9 \<le> i" "i \<le> KERNEL_STACK_SIZE" and ne: "new \<noteq> n"
    and to: "kernel_esp c new = Stk new m" "frame c new m [b, p]" and n: "n < length (task (krn c))" "new < length (task (krn c))"
  shows "\<exists>c'. task_switch_code new from l c = Ok c' \<and> kernel_esp c' = (kernel_esp c)(n := Stk n (i - 9)) \<and>
    frame c' n (i - 9) (switch_words c n i new from) \<and> (\<forall>j \<ge> i. stacks c' n j = stacks c n j) \<and> (\<forall>t. t \<noteq> n \<longrightarrow> stacks c' t = stacks c t) \<and>
    gpr c' ESP = Stk new (m + 2) \<and> gpr c' EBP = b \<and> eip c' = p \<and> seg c' = seg c \<and>
    cur (krn c') = new \<and> tss_esp0 (krn c') = new \<and> task (krn c') = task (krn c)"
proof -
  have K: "i - 1 - 8 = i - 9" "i - 3 - 5 = i - 8" "i - 8 - 1 = i - 9" "i - 9 + 2 = i - 7" "i - 3 + 2 = i - 1" "i - 3 - 3 = i - 6" "i - 6 - 2 = i - 8"
    "i - 9 + 3 = i - 6" "i - 6 + 3 = i - 3" "i - 9 + 1 = i - 8" "i - 8 + 1 = i - 7" using i by (simp_all add: PCB_WORDS_def)
  let ?us = "[Stk new 0, Code from, gpr c EBP]"
  have "PCB_WORDS + length ?us \<le> i" "i \<le> KERNEL_STACK_SIZE" using i by simp_all
  from push_all_Ok [OF i(1) this] obtain c1 where 1: "push_all ?us c = Ok c1" "gpr c1 = (gpr c)(ESP := Stk n (i - 3))" "seg c1 = seg c" "same_code c c1"
    "below n i c c1" "frame c1 n (i - 3) [gpr c EBP, Code from, Stk new 0]" by (auto simp: numeral_3_eq_3)
  define c2 where "c2 = set_reg EBP (Stk n (i - 3)) c1"
  let ?vs = "[gpr c2 EBX, gpr c2 ESI, gpr c2 EDI]"
  have g2: "gpr c2 = (gpr c)(EBP := Stk n (i - 3), ESP := Stk n (i - 3))" using 1(2) by (simp add: c2_def set_reg_def fun_upd_twist)
  then have "gpr c2 ESP = Stk n (i - 3)" "PCB_WORDS + length ?vs \<le> i - 3" "i - 3 \<le> KERNEL_STACK_SIZE" using i by simp_all
  from push_all_Ok [OF this] obtain c3 where 3: "push_all ?vs c2 = Ok c3" "gpr c3 = (gpr c2)(ESP := Stk n (i - 6))" "seg c3 = seg c2" "same_code c2 c3"
    "below n (i - 3) c2 c3" "frame c3 n (i - 6) [gpr c EDI, gpr c ESI, gpr c EBX]" using K by (auto simp: g2 eval_nat_numeral)
  have b13: "below n (i - 3) c1 c3" using 3(5) by (simp add: c2_def set_reg_def below_def)
  have f3: "frame c3 n (i - 3) [gpr c EBP, Code from, Stk new 0]" using frame_below [OF b13 order_refl 1(6)] .
  then have w3: "word_at EBP 2 c3 = Ok (Stk new 0)"
    using 3(2) g2 word_at_Ok [of c3 EBP n "i - 3" 2] i by (simp add: frame_Cons eval_nat_numeral)
  let ?ws = "[Stk new 0, Code After_inner]"
  have "gpr c3 ESP = Stk n (i - 6)" "PCB_WORDS + length ?ws \<le> i - 6" "i - 6 \<le> KERNEL_STACK_SIZE" using 3(2) i by simp_all
  from push_all_Ok [OF this] obtain c4 where 4: "push_all ?ws c3 = Ok c4" "gpr c4 = (gpr c3)(ESP := Stk n (i - 8))" "seg c4 = seg c3" "same_code c3 c4"
    "below n (i - 6) c3 c4" "frame c4 n (i - 8) [Code After_inner, Stk new 0]" using K by (auto simp: eval_nat_numeral)
  have "gpr c4 ESP = Stk n (i - 8)" "PCB_WORDS < i - 8" "i - 8 \<le> KERNEL_STACK_SIZE" using 4(2) i by simp_all
  moreover have ebp: "gpr c4 EBP = Stk n (i - 3)" using 4(2) 3(2) g2 by simp
  ultimately obtain c5 where 5: "push (gpr c4 EBP) c4 = Ok c5" "gpr c5 = (gpr c4)(ESP := Stk n (i - 9))" "seg c5 = seg c4"
    "same_code c4 c5" "below n (i - 8) c4 c5" "stacks c5 n (i - 9) = Stk n (i - 3)" using push_Ok [of c4 n "i - 8" "gpr c4 EBP"] K by metis
  have b: "below n (i - 6) c3 c5" "below n (i - 3) c1 c5"
    using below_trans [OF 4(5) below_mono [OF 5(5)]] below_trans [OF b13 below_mono [OF below_trans [OF 4(5) below_mono [OF 5(5)]]]] by simp_all
  have bi: "below n i c c5" using below_trans [OF 1(5) below_mono [OF b(2)]] by simp
  have "frame c5 n (i - 9) ([Stk n (i - 3)] @ [Code After_inner, Stk new 0] @ [gpr c EDI, gpr c ESI, gpr c EBX] @ [gpr c EBP, Code from, Stk new 0])"
    unfolding frame_append list.size using 5(6) frame_below [OF 5(5) order_refl 4(6)] frame_below [OF b(1) order_refl 3(6)] frame_below [OF b(2) order_refl 1(6)] K i
    by (simp add: frame_Cons eval_nat_numeral)
  then have words: "frame c5 n (i - 9) (switch_words c n i new from)" by (simp add: switch_words_def)
  define c6 where "c6 = set_reg EBP (Stk n (i - 9)) c5"
  have "stacks c5 n (i - 7) = Stk new 0" using words K by (simp add: switch_words_def frame_Cons eval_nat_numeral Suc_diff_le)
  then have w6: "word_at EBP 2 c6 = Ok (Stk new 0)"
    using word_at_Ok [of c6 EBP n "i - 9" 2] i K by (simp add: c6_def set_reg_def)
  have same: "krn c5 = krn c" "seg c5 = seg c" using 1(3,4) 3(3,4) 4(3,4) 5(3,4) by (simp_all add: same_code_def c2_def set_reg_def)
  have v6: "kernel_view c6 = Ok ((krn c)\<lparr>cur := n\<rparr>)" using 5(2) i same by (simp add: kernel_view_def current_def c6_def set_reg_def)
  from task_switch_kernel [of "(krn c)\<lparr>cur := n\<rparr>" new] n obtain k where k: "task_switch new ((krn c)\<lparr>cur := n\<rparr>) = Ok k" "cur k = new" "tss_esp0 k = new"
    "task k = task (krn c)" by auto
  define c7 where "c7 = c6\<lparr>kernel_esp := (kernel_esp c)(n := Stk n (i - 9)), krn := k, gpr := (regs_l l)(EBP := Stk n (i - 9), ESP := Stk new m)\<rparr>"
  have "stacks c5 new = stacks c new" using bi ne by (auto simp: below_def)
  then have f7: "frame c7 new m [b, p]" using to(2) by (simp add: c7_def c6_def set_reg_def frame_def)
  have m: "m < KERNEL_STACK_SIZE" "Suc m < KERNEL_STACK_SIZE" "stacks c7 new m = b" "stacks c7 new (Suc m) = p" using f7 by (simp_all add: frame_Cons)
  let ?c = "c7\<lparr>gpr := (gpr c7)(EBP := b, ESP := Stk new (m + 2)), eip := p\<rparr>"
  have inner: "inner_task_switch l c4 = bind (pop_all [R EBP] c7) ret"
    using 5(1,2) w6 v6 k(1) to(1) ne bi by (simp add: inner_task_switch_def c6_def c7_def set_reg_def Let_def below_def)
  also have "\<dots> = Ok ?c" using m by (simp add: pop_def ret_def set_reg_def c7_def fun_upd_twist)
  finally have "task_switch_code new from l c = Ok ?c" using 1(1) 3(1) w3 4(1)
    by (simp add: task_switch_code_def c2_def 1(2) Let_def del: push_all.simps bind_eq_Ok)
  moreover have "frame ?c n (i - 9) (switch_words c n i new from)" using words by (simp add: frame_def c7_def c6_def set_reg_def)
  moreover have "stacks ?c = stacks c5" by (simp add: c7_def c6_def set_reg_def)
  then have "\<forall>j \<ge> i. stacks ?c n j = stacks c n j" "\<forall>t. t \<noteq> n \<longrightarrow> stacks ?c t = stacks c t" using bi by (auto simp: below_def)
  ultimately show ?thesis using same k by (intro exI [of _ ?c]) (simp add: c7_def c6_def set_reg_def)
qed

text \<open>Where a task that comes back goes on, and what it finds in its registers.\<close>

lemma resume_switch_Ok:
  assumes i: "PCB_WORDS + 9 \<le> i" "gpr c' ESP = Stk n (i - 7)" "gpr c' EBP = Stk n (i - 3)" and w: "frame c' n (i - 9) (switch_words c n i new from)"
  shows "\<exists>c''. resume_switch c' = Ok c'' \<and> eip c'' = Code from \<and> gpr c'' ESP = Stk n i \<and> (\<forall>r \<in> {EBX, ESI, EDI, EBP}. gpr c'' r = gpr c r) \<and>
    seg c'' = seg c' \<and> krn c'' = krn c' \<and> stacks c'' = stacks c' \<and> kernel_esp c'' = kernel_esp c'"
proof -
  have K: "Suc (i - 9) = i - 8" "Suc (i - 8) = i - 7" "Suc (i - 7) = i - 6" "Suc (i - 6) = i - 5" "Suc (i - 5) = i - 4" "Suc (i - 4) = i - 3"
    "Suc (i - 3) = i - 2" "Suc (i - 2) = i - 1" "Suc (i - 1) = i" using i by (simp_all add: PCB_WORDS_def)
  from w have f: "i - 7 < KERNEL_STACK_SIZE" "stacks c' n (i - 6) = gpr c EDI" "i - 6 < KERNEL_STACK_SIZE" "stacks c' n (i - 5) = gpr c ESI"
    "i - 5 < KERNEL_STACK_SIZE" "stacks c' n (i - 4) = gpr c EBX" "i - 4 < KERNEL_STACK_SIZE" "stacks c' n (i - 3) = gpr c EBP" "i - 3 < KERNEL_STACK_SIZE"
    "stacks c' n (i - 2) = Code from" "i - 2 < KERNEL_STACK_SIZE" "i - 1 < KERNEL_STACK_SIZE"
    unfolding switch_words_def frame_Cons K by simp_all
  have S: "Suc (i - Suc 0) = i" using K(9) by simp
  show ?thesis using i(2,3) f S
    by (simp add: resume_switch_def drop_def leave_def ret_def pop_def set_reg_def K)
qed

section \<open>C functions that call the switch\<close>

text \<open>
  A C function between the handler and \<open>task_switch\<close>: the compiler saves what it has to keep, takes its locals and
  uses the registers; its end restores them from EBP (the code is compiled with frame pointers).
\<close>

definition prologue :: "label \<Rightarrow> leftovers \<Rightarrow> core \<Rightarrow> core res" where
  "prologue from l c =
     bind (push_all [Code from, gpr c EBP] c) (\<lambda>c.
     let c = set_reg EBP (gpr c ESP) c in
     bind (push_all [gpr c EBX, gpr c ESI, gpr c EDI] c) (\<lambda>c.
     bind (scratch l c) (\<lambda>c.
     case gpr c ESP of
       Stk n i \<Rightarrow> Ok (c\<lparr>gpr := (regs_l l)(EBP := gpr c EBP, ESP := Stk n (i - size_l l)), eflags := eflags_l l\<rparr>)
     | _ \<Rightarrow> Fault OutOfBounds)))"

definition epilogue :: "core \<Rightarrow> core res" where
  "epilogue c = (case gpr c EBP of
     Stk n i \<Rightarrow> bind (pop_all [R EDI, R ESI, R EBX, R EBP] (set_reg ESP (Stk n (i - 3)) c)) ret
   | _ \<Rightarrow> Fault OutOfBounds)"

fun call_chain :: "(label \<times> leftovers) list \<Rightarrow> core \<Rightarrow> core res" where
  "call_chain [] c = Ok c"
| "call_chain ((from, l) # fs) c = bind (prologue from l c) (call_chain fs)"

fun unwind :: "nat \<Rightarrow> core \<Rightarrow> core res" where
  "unwind 0 c = Ok c"
| "unwind (Suc n) c = bind (unwind n c) epilogue"

text \<open>\<open>kept c c'\<close>: the registers a C function has to keep.\<close>

definition kept :: "core \<Rightarrow> core \<Rightarrow> bool" where
  "kept c c' \<longleftrightarrow> (\<forall>r \<in> {EBX, ESI, EDI, EBP, ESP}. gpr c' r = gpr c r)"

text \<open>\<open>still n i c c'\<close>: stack \<open>n\<close> from \<open>i\<close> on is as it was.\<close>

definition still :: "nat \<Rightarrow> nat \<Rightarrow> core \<Rightarrow> core \<Rightarrow> bool" where
  "still n i c c' \<longleftrightarrow> (\<forall>j \<ge> i. stacks c' n j = stacks c n j)"

lemma below_still: "below n i c c' \<Longrightarrow> still n i c c'"
  by (simp add: below_def still_def)

lemma still_trans: "still n i c c' \<Longrightarrow> still n i c' c'' \<Longrightarrow> still n i c c''"
  by (simp add: still_def)

lemma still_mono: "still n i c c' \<Longrightarrow> i \<le> k \<Longrightarrow> still n k c c'"
  unfolding still_def by (meson order_trans)

lemma frame_still: "still n i c c' \<Longrightarrow> i \<le> j \<Longrightarrow> frame c n j vs \<Longrightarrow> frame c' n j vs"
  by (simp add: frame_def still_def)

definition same_rest :: "core \<Rightarrow> core \<Rightarrow> bool" where
  "same_rest c c' \<longleftrightarrow> seg c' = seg c \<and> krn c' = krn c \<and> stacks c' = stacks c \<and> kernel_esp c' = kernel_esp c"

lemma prologue_inv:
  assumes "gpr c ESP = Stk n i" "i \<le> KERNEL_STACK_SIZE" "PCB_WORDS + 5 + size_l l \<le> i"
  shows "\<exists>c'. prologue from l c = Ok c' \<and> gpr c' ESP = Stk n (i - 5 - size_l l) \<and> gpr c' EBP = Stk n (i - 2) \<and>
    frame c' n (i - 5) [gpr c EDI, gpr c ESI, gpr c EBX, gpr c EBP, Code from] \<and> below n i c c' \<and> seg c' = seg c \<and> krn c' = krn c"
proof -
  let ?us = "[Code from, gpr c EBP]"
  have "PCB_WORDS + length ?us \<le> i" using assms by simp
  from push_all_Ok [OF assms(1) this assms(2)] obtain c1 where 1: "push_all ?us c = Ok c1" "gpr c1 = (gpr c)(ESP := Stk n (i - 2))" "seg c1 = seg c"
    "same_code c c1" "below n i c c1" "frame c1 n (i - 2) [gpr c EBP, Code from]" by (auto simp: numeral_2_eq_2)
  define c2 where "c2 = set_reg EBP (Stk n (i - 2)) c1"
  let ?vs = "[gpr c2 EBX, gpr c2 ESI, gpr c2 EDI]"
  have g2: "gpr c2 = (gpr c)(EBP := Stk n (i - 2), ESP := Stk n (i - 2))" using 1(2) by (simp add: c2_def set_reg_def fun_upd_twist)
  then have "gpr c2 ESP = Stk n (i - 2)" "PCB_WORDS + length ?vs \<le> i - 2" "i - 2 \<le> KERNEL_STACK_SIZE" using assms by simp_all
  from push_all_Ok [OF this] obtain c3 where 3: "push_all ?vs c2 = Ok c3" "gpr c3 = (gpr c2)(ESP := Stk n (i - 5))" "seg c3 = seg c2" "same_code c2 c3"
    "below n (i - 2) c2 c3" "frame c3 n (i - 5) [gpr c EDI, gpr c ESI, gpr c EBX]" by (auto simp: g2 eval_nat_numeral)
  define c4 where "c4 = c3\<lparr>stacks := (stacks c3)(n := \<lambda>j. if i - 5 - size_l l \<le> j \<and> j < i - 5 then words_l l j else stacks c3 n j)\<rparr>"
  have 4: "scratch l c3 = Ok c4" using 3(2) assms by (simp add: scratch_def c4_def)
  have b4: "below n (i - 5) c3 c4" by (simp add: below_def c4_def)
  have b13: "below n (i - 2) c1 c3" using 3(5) by (simp add: c2_def set_reg_def below_def)
  have b14: "below n (i - 2) c1 c4" using below_trans [OF b13 below_mono [OF b4]] by simp
  have e: "i - 5 + length [gpr c EDI, gpr c ESI, gpr c EBX] = i - 2" using assms by simp
  have "frame c4 n (i - 5) ([gpr c EDI, gpr c ESI, gpr c EBX] @ [gpr c EBP, Code from])"
    unfolding frame_append e using frame_below [OF b4 order_refl 3(6)] frame_below [OF b14 order_refl 1(6)] by simp
  moreover have "prologue from l c = Ok (c4\<lparr>gpr := (regs_l l)(EBP := Stk n (i - 2), ESP := Stk n (i - 5 - size_l l)), eflags := eflags_l l\<rparr>)"
    using 1(1) 3(1) 4 by (simp add: prologue_def 1(2) c2_def [symmetric] Let_def del: push_all.simps bind_eq_Ok) (simp add: c4_def 3(2) g2)
  moreover have "below n i c c4" using below_trans [OF 1(5) below_mono [OF b14]] by simp
  ultimately show ?thesis using 1(3,4) 3(3,4) by (simp add: c4_def c2_def set_reg_def same_code_def)
qed

lemma epilogue_Ok:
  assumes "gpr c ESP = Stk n i" "PCB_WORDS + 5 \<le> i"
    and w: "frame c' n (i - 5) [gpr c EDI, gpr c ESI, gpr c EBX, gpr c EBP, Code from]" "gpr c' EBP = Stk n (i - 2)"
  shows "\<exists>c''. epilogue c' = Ok c'' \<and> kept c c'' \<and> eip c'' = Code from \<and> same_rest c' c''"
proof -
  have K: "i - 2 - 3 = i - 5" "Suc (i - 5) = i - 4" "Suc (i - 4) = i - 3" "Suc (i - 3) = i - 2" "Suc (i - 2) = i - 1" "Suc (i - Suc 0) = i"
    using assms(2) by (simp_all add: PCB_WORDS_def)
  from w(1) have f: "stacks c' n (i - 5) = gpr c EDI" "i - 5 < KERNEL_STACK_SIZE" "stacks c' n (i - 4) = gpr c ESI"
    "i - 4 < KERNEL_STACK_SIZE" "stacks c' n (i - 3) = gpr c EBX" "i - 3 < KERNEL_STACK_SIZE" "stacks c' n (i - 2) = gpr c EBP" "i - 2 < KERNEL_STACK_SIZE"
    "stacks c' n (i - 1) = Code from" "i - 1 < KERNEL_STACK_SIZE"
    unfolding frame_Cons K by simp_all
  show ?thesis using assms(1) w(2) f K(6)
    by (simp add: epilogue_def ret_def pop_def set_reg_def K(1-5) kept_def same_rest_def)
qed

definition room :: "(label \<times> leftovers) list \<Rightarrow> nat" where
  "room fs = (\<Sum>(_, l) \<leftarrow> fs. 5 + size_l l)"

lemma room_simps [simp]: "room [] = 0" "room ((from, l) # fs) = 5 + size_l l + room fs"
  by (simp_all add: room_def)

lemma kept_trans: "kept c c' \<Longrightarrow> kept c' c'' \<Longrightarrow> kept c c''"
  by (simp add: kept_def)

lemma same_rest_trans: "same_rest c c' \<Longrightarrow> same_rest c' c'' \<Longrightarrow> same_rest c c''"
  by (simp add: same_rest_def)

text \<open>
  \<open>unwinds n i k c c1\<close>: from any state with the kept registers of \<open>c1\<close> and its stack, \<open>k\<close> ends of functions lead back to
  the kept registers of \<open>c\<close>.
\<close>

definition unwinds :: "nat \<Rightarrow> nat \<Rightarrow> nat \<Rightarrow> core \<Rightarrow> core \<Rightarrow> bool" where
  "unwinds n i k c c1 \<longleftrightarrow> (\<forall>c2. kept c1 c2 \<longrightarrow> still n i c1 c2 \<longrightarrow> (\<exists>c3. unwind k c2 = Ok c3 \<and> kept c c3 \<and> same_rest c2 c3))"

lemma call_chain_Ok:
  assumes "gpr c ESP = Stk n i" "i \<le> KERNEL_STACK_SIZE" "PCB_WORDS + room fs \<le> i"
  shows "\<exists>c1. call_chain fs c = Ok c1 \<and> gpr c1 ESP = Stk n (i - room fs) \<and> below n i c c1 \<and> seg c1 = seg c \<and> krn c1 = krn c \<and>
    unwinds n (i - room fs) (length fs) c c1"
  using assms
proof (induction fs arbitrary: c i)
  case Nil
  then show ?case by (simp add: unwinds_def same_rest_def)
next
  case (Cons fl fs)
  obtain w l where fl: "fl = (w, l)" by (cases fl)
  let ?i = "i - 5 - size_l l"
  from Cons.prems fl have i: "PCB_WORDS + 5 + size_l l \<le> i" "?i \<le> KERNEL_STACK_SIZE" "PCB_WORDS + room fs \<le> ?i" by simp_all
  from prologue_inv [OF Cons.prems(1,2) i(1), of w] obtain c1 where 1: "prologue w l c = Ok c1" "gpr c1 ESP = Stk n ?i" "gpr c1 EBP = Stk n (i - 2)"
    "frame c1 n (i - 5) [gpr c EDI, gpr c ESI, gpr c EBX, gpr c EBP, Code w]" "below n i c c1" "seg c1 = seg c" "krn c1 = krn c" by blast
  from Cons.IH [OF 1(2) i(2,3)] obtain c2 where 2: "call_chain fs c1 = Ok c2" "gpr c2 ESP = Stk n (?i - room fs)" "below n ?i c1 c2"
    "seg c2 = seg c1" "krn c2 = krn c1" "unwinds n (?i - room fs) (length fs) c1 c2" by blast
  have r: "i - room (fl # fs) = ?i - room fs" by (simp add: fl)
  have "unwinds n (i - room (fl # fs)) (length (fl # fs)) c c2"
    unfolding unwinds_def
  proof (intro allI impI)
    fix c3 assume c3: "kept c2 c3" "still n (i - room (fl # fs)) c2 c3"
    with 2(6) r obtain c4 where 4: "unwind (length fs) c3 = Ok c4" "kept c1 c4" "same_rest c3 c4" by (auto simp: unwinds_def)
    have st: "still n ?i c1 c4" using still_trans [OF below_still [OF 2(3)] still_mono [OF c3(2), of ?i]] 4(3) r
      by (simp add: still_def same_rest_def)
    have "frame c4 n (i - 5) [gpr c EDI, gpr c ESI, gpr c EBX, gpr c EBP, Code w]" "gpr c4 EBP = Stk n (i - 2)"
      using frame_still [OF st _ 1(4)] 4(2) 1(3) by (simp_all add: kept_def)
    moreover have "PCB_WORDS + 5 \<le> i" using i(1) by simp
    ultimately obtain c5 where "epilogue c4 = Ok c5" "kept c c5" "same_rest c4 c5" using epilogue_Ok [OF Cons.prems(1)] by blast
    with 4(1) same_rest_trans [OF 4(3)] show "\<exists>c5. unwind (length (fl # fs)) c3 = Ok c5 \<and> kept c c5 \<and> same_rest c3 c5" by auto
  qed
  moreover have "below n i c c2" using below_trans [OF 1(5) below_mono [OF 2(3)]] by simp
  ultimately show ?case using 1(1,6,7) 2(1,2,4,5) r by (auto simp: fl)
qed

section \<open>A process that waits and comes back\<close>

text \<open>
  A handler whose functions \<open>fs\<close> end in a call of \<open>task_switch\<close>: \<open>f\<close> is the code that chooses the next task. With
  \<open>resume_in\<close> the task comes back to the handler.
\<close>

definition block_in :: "(kernel \<Rightarrow> (nat \<times> kernel) res) \<Rightarrow> (label \<times> leftovers) list \<Rightarrow> label \<Rightarrow> leftovers \<Rightarrow> core \<Rightarrow> core res" where
  "block_in f fs from l c =
     bind (call_chain fs c) (\<lambda>c. bind (kernel_view c) (\<lambda>k. bind (f k) (\<lambda>(new, k). task_switch_code new from l (c\<lparr>krn := k\<rparr>))))"

definition resume_in :: "(label \<times> leftovers) list \<Rightarrow> core \<Rightarrow> core res" where
  "resume_in fs c = bind (resume_switch c) (unwind (length fs))"

text \<open>\<open>waits c n p d\<close>: task \<open>n\<close> is switched out at \<open>p\<close>, with the saved frame pointer \<open>b\<close> and the place \<open>r\<close> to go on at.\<close>

definition waits :: "core \<Rightarrow> nat \<Rightarrow> nat \<Rightarrow> val \<Rightarrow> val \<Rightarrow> bool" where
  "waits c n p b r \<longleftrightarrow> kernel_esp c n = Stk n p \<and> frame c n p [b, r]"

lemma block_Ok:
  assumes c: "gpr c ESP = Stk n i" "i < KERNEL_STACK_SIZE" "PCB_WORDS + 9 + room fs \<le> i"
    and f: "f ((krn c)\<lparr>cur := n\<rparr>) = Ok (new, k)" "new \<noteq> n" "n < length (task k)" "new < length (task k)" and w: "waits c new m b r"
  shows "\<exists>c1 p b1. block_in f fs from l c = Ok c1 \<and> waits c1 n p b1 (Code After_inner) \<and> still n i c c1 \<and>
    gpr c1 ESP = Stk new (m + 2) \<and> gpr c1 EBP = b \<and> eip c1 = r \<and> seg c1 = seg c \<and> (\<forall>t. t \<noteq> n \<longrightarrow> stacks c1 t = stacks c t \<and> kernel_esp c1 t = kernel_esp c t) \<and>
    cur (krn c1) = new \<and> tss_esp0 (krn c1) = new \<and> task (krn c1) = task k \<and>
    (\<forall>c3. gpr c3 ESP = Stk n (p + 2) \<longrightarrow> gpr c3 EBP = b1 \<longrightarrow> stacks c3 n = stacks c1 n \<longrightarrow>
      (\<exists>c4. resume_in fs c3 = Ok c4 \<and> kept c c4 \<and> same_rest c3 c4))"
proof -
  let ?i = "i - room fs"
  from c have i: "i \<le> KERNEL_STACK_SIZE" "PCB_WORDS + room fs \<le> i" "PCB_WORDS + 9 \<le> ?i" "?i \<le> KERNEL_STACK_SIZE" by simp_all
  from call_chain_Ok [OF c(1) i(1,2)] obtain c1 where 1: "call_chain fs c = Ok c1" "gpr c1 ESP = Stk n ?i" "below n i c c1" "seg c1 = seg c" "krn c1 = krn c"
    "unwinds n ?i (length fs) c c1" by blast
  define c2 where "c2 = c1\<lparr>krn := k\<rparr>"
  have v: "kernel_view c1 = Ok ((krn c)\<lparr>cur := n\<rparr>)" using 1(2,5) c(2) by (simp add: kernel_view_def current_def)
  have 2: "gpr c2 ESP = Stk n ?i" "kernel_esp c2 new = Stk new m" "frame c2 new m [b, r]" "n < length (task (krn c2))" "new < length (task (krn c2))"
    "below n i c c2" "seg c2 = seg c"
    using 1(2-4) f(2-4) w by (auto simp: c2_def waits_def below_def frame_def)
  from switch_Ok [OF 2(1) i(3,4) f(2) 2(2-5), of "from" l] obtain c3 where 3: "task_switch_code new from l c2 = Ok c3"
    "kernel_esp c3 = (kernel_esp c2)(n := Stk n (?i - 9))" "frame c3 n (?i - 9) (switch_words c2 n ?i new from)" "\<forall>j \<ge> ?i. stacks c3 n j = stacks c2 n j"
    "\<forall>t. t \<noteq> n \<longrightarrow> stacks c3 t = stacks c2 t" "gpr c3 ESP = Stk new (m + 2)" "gpr c3 EBP = b" "eip c3 = r" "seg c3 = seg c2"
    "cur (krn c3) = new" "tss_esp0 (krn c3) = new" "task (krn c3) = task (krn c2)" by blast
  have st: "still n i c c3" using still_trans [OF below_still [OF 2(6)] still_mono [of n ?i c2 c3 i]] 3(4) by (simp add: still_def)
  have K: "?i - 9 + 2 = ?i - 7" using i(3) by simp
  have ws: "waits c3 n (?i - 9) (Stk n (?i - 3)) (Code After_inner)" using 3(2,3) by (simp add: waits_def switch_words_def frame_Cons)
  have other: "stacks c3 t = stacks c t \<and> kernel_esp c3 t = kernel_esp c t" if "t \<noteq> n" for t using 3(2,5) 2(6) that by (auto simp: below_def)
  have returns: "\<exists>c5. resume_in fs c4 = Ok c5 \<and> kept c c5 \<and> same_rest c4 c5"
    if c4: "gpr c4 ESP = Stk n (?i - 9 + 2)" "gpr c4 EBP = Stk n (?i - 3)" "stacks c4 n = stacks c3 n" for c4
  proof -
    have "frame c4 n (?i - 9) (switch_words c2 n ?i new from)" using 3(3) c4(3) by (simp add: frame_def)
    from resume_switch_Ok [OF i(3) c4(1) [unfolded K] c4(2) this] obtain c5 where 5: "resume_switch c4 = Ok c5" "gpr c5 ESP = Stk n ?i"
      "\<forall>r \<in> {EBX, ESI, EDI, EBP}. gpr c5 r = gpr c2 r" "same_rest c4 c5" by (auto simp: same_rest_def)
    have "kept c1 c5" using 5(2,3) 1(2) by (simp add: kept_def c2_def)
    moreover have "still n ?i c1 c5" using 3(4) c4(3) 5(4) by (simp add: still_def same_rest_def c2_def)
    ultimately show ?thesis using 1(6) 5(1) same_rest_trans [OF 5(4)] by (auto simp: unwinds_def resume_in_def)
  qed
  have run: "block_in f fs from l c = Ok c3" using 1(1) v f(1) 3(1) by (simp add: block_in_def c2_def)
  show ?thesis
    by (rule exI [of _ c3], rule exI [of _ "?i - 9"], rule exI [of _ "Stk n (?i - 3)"])
      (use run ws st 3(6-12) 2(7) other returns in \<open>simp add: c2_def\<close>)
qed

text \<open>The switch back to a task that waits, by any other task.\<close>

lemma switch_back_Ok:
  assumes w: "waits c n p b r" and c: "gpr c ESP = Stk t i" "t \<noteq> n" "PCB_WORDS + 9 \<le> i" "i \<le> KERNEL_STACK_SIZE"
    and n: "t < length (task (krn c))" "n < length (task (krn c))"
  shows "\<exists>c'. task_switch_code n from l c = Ok c' \<and> gpr c' ESP = Stk n (p + 2) \<and> gpr c' EBP = b \<and> eip c' = r \<and> stacks c' n = stacks c n \<and>
    seg c' = seg c \<and> cur (krn c') = n \<and> tss_esp0 (krn c') = n \<and> task (krn c') = task (krn c)"
  using switch_Ok [OF c(1,3,4) _ _ _ n, of p b r "from" l] w c(2) by (auto simp: waits_def)

end
