(* ===== verification/Kernel_Tasks.thy ===== *)
theory Kernel_Tasks
  imports Kernel_Switch
begin

text \<open>
  The first stacks of new tasks (\<open>init_idle\<close> of sched.c, \<open>sys_fork\<close> and \<open>sys_clone\<close> of sys.c, \<open>cpu_idle\<close>), and what
  the stacks make of processes: an interrupt does not show, a preempted process comes back with all its registers, a
  forked process returns twice, a thread starts at its function, and the idle process is where interrupts come from.
\<close>

section \<open>New stacks\<close>

text \<open>\<open>init_idle\<close>, on the stack of the PCB it took\<close>

definition prepare_idle :: "nat \<Rightarrow> core \<Rightarrow> core" where
  "prepare_idle t c =
     (let c = set_word t (KERNEL_STACK_SIZE - 1) (Code Cpu_idle) c;
          c = set_word t (KERNEL_STACK_SIZE - 2) (Num 0) c
      in c\<lparr>kernel_esp := (kernel_esp c)(t := Stk t (KERNEL_STACK_SIZE - 2))\<rparr>)"

text \<open>\<open>sti\<close>, and the loop that changes nothing\<close>

definition cpu_idle :: "core \<Rightarrow> core" where
  "cpu_idle c = c\<lparr>eflags := eflags c OR 0x200\<rparr>"

text \<open>\<open>copy_data( current(), child, sizeof(union task_union) )\<close>: the words above the PCB and \<open>kernel_esp\<close>.\<close>

definition copy_union :: "nat \<Rightarrow> nat \<Rightarrow> core \<Rightarrow> core" where
  "copy_union t child c = c\<lparr>stacks := (stacks c)(child := stacks c t), kernel_esp := (kernel_esp c)(child := kernel_esp c t)\<rparr>"

definition prepare_child :: "nat \<Rightarrow> core \<Rightarrow> core" where
  "prepare_child child c =
     (let pos = KERNEL_STACK_SIZE - 5 - 11 - 1;
          c = set_word child (pos - 1) (Code Ret_from_fork) c;
          c = set_word child (pos - 2) (Num 0) c
      in c\<lparr>kernel_esp := (kernel_esp c)(child := Stk child (pos - 2))\<rparr>)"

definition sys_fork_code :: "core \<Rightarrow> (val \<times> core) res" where
  "sys_fork_code c =
     bind (current c) (\<lambda>t. let k = (krn c)\<lparr>cur := t\<rparr> in
     bind (list_empty (links k) Free_Queue) (\<lambda>e. if e then Ok (Num (word_of_int (-ENOMEM)), c\<lparr>krn := k\<rparr>) else
     bind (list_first (links k) Free_Queue) (\<lambda>l.
     bind (list_head_to_task_struct l) (\<lambda>child.
     bind (take_frames k) (\<lambda>r. case r of
       Inr k \<Rightarrow> Ok (Num (word_of_int (-ENOMEM)), c\<lparr>krn := k\<rparr>)
     | Inl (v, k) \<Rightarrow>
         bind (on_lists (list_del l) k) (\<lambda>k.
         bind (copy_PCB child k) (\<lambda>k.
         let c = copy_union t child c in
         bind (inherit_space child v k) (\<lambda>k.
         bind (start_child child k) (\<lambda>k.
         Ok (Num (next_PID k), prepare_child child (c\<lparr>krn := k\<rparr>)))))))))))"

definition sys_clone_code :: "dword \<Rightarrow> dword \<Rightarrow> core \<Rightarrow> (val \<times> core) res" where
  "sys_clone_code func stack c =
     bind (current c) (\<lambda>t. let k = (krn c)\<lparr>cur := t\<rparr> in
     if func = 0 then Ok (Num (word_of_int (-EFAULT)), c\<lparr>krn := k\<rparr>)
     else if stack = 0 then Ok (Num (word_of_int (-EFAULT)), c\<lparr>krn := k\<rparr>)
     else if access_ok VERIFY_READ func 4 = 0 then Ok (Num (word_of_int (-EFAULT)), c\<lparr>krn := k\<rparr>)
     else if access_ok VERIFY_WRITE stack 4 = 0 then Ok (Num (word_of_int (-EFAULT)), c\<lparr>krn := k\<rparr>)
     else
       bind (list_empty (links k) Free_Queue) (\<lambda>e. if e then Ok (Num (word_of_int (-ENOMEM)), c\<lparr>krn := k\<rparr>) else
       bind (list_first (links k) Free_Queue) (\<lambda>l.
       bind (on_lists (list_del l) k) (\<lambda>k.
       bind (list_head_to_task_struct l) (\<lambda>child.
       bind (copy_PCB child k) (\<lambda>k.
       let c = copy_union t child c in
       bind (find_dir_usage child k) (\<lambda>dir.
       bind (add_dir_usage dir 1 k) (\<lambda>(_, k).
       bind (start_child child k) (\<lambda>k.
       bind (get_task k child) (\<lambda>t.
       let c = prepare_child child (c\<lparr>krn := k\<rparr>);
           c = set_word child (KERNEL_STACK_SIZE - 2) (Num stack) c;
           c = set_word child (KERNEL_STACK_SIZE - 5) (Num func) c in
       Ok (Num (word_of_int (PID t)), c)))))))))))"

text \<open>\<open>ret_from_fork\<close>, which returns into the handler of the system call\<close>

definition run_child :: "leftovers \<Rightarrow> core \<Rightarrow> core res" where
  "run_child l c = (if eip c = Code Ret_from_fork
     then bind (ret (set_reg EAX (Num (word_of_int ret_from_fork)) c)) (\<lambda>c. if eip c = Code Fin then fin l c else Fault OutOfBounds)
     else Fault OutOfBounds)"

section \<open>The detailed calls refine the system calls\<close>

lemma bind_cases:
  "bind (if b then x else y) f = (if b then bind x f else bind y f)"
  "bind (case r of Inl p \<Rightarrow> g p | Inr q \<Rightarrow> h q) f = (case r of Inl p \<Rightarrow> bind (g p) f | Inr q \<Rightarrow> bind (h q) f)"
  by (simp_all split: sum.split)

lemma krn_steps [simp]: "krn (set_word n i v c) = krn c" "krn (copy_union t n c) = krn c" "krn (prepare_child n c) = krn c"
  by (simp_all add: set_word_def copy_union_def prepare_child_def Let_def)

lemma fork_code_refines:
  "bind (sys_fork_code c) (\<lambda>(v, c'). Ok (v, krn c')) = bind (kernel_view c) (\<lambda>k. bind (sys_fork k) (\<lambda>(r, k). Ok (Num (word_of_int r), k)))"
  unfolding sys_fork_code_def sys_fork_def
  by (simp add: kernel_view_def bind_assoc bind_cases split_def Let_def cong: if_cong sum.case_cong)

lemma clone_code_refines:
  "bind (sys_clone_code func stack c) (\<lambda>(v, c'). Ok (v, krn c')) =
     bind (kernel_view c) (\<lambda>k. bind (sys_clone func stack k) (\<lambda>(r, k). Ok (Num (word_of_int r), k)))"
  unfolding sys_clone_code_def sys_clone_def
  by (simp add: kernel_view_def bind_assoc bind_cases split_def Let_def cong: if_cong sum.case_cong)

text \<open>What a successful call leaves on the stacks.\<close>

definition new_stack :: "core \<Rightarrow> nat \<Rightarrow> nat \<Rightarrow> core \<Rightarrow> bool" where
  "new_stack c t child c' \<longleftrightarrow> gpr c' = gpr c \<and> seg c' = seg c \<and>
     stacks c' = (stacks c)(child := (stacks c t)(1006 := Code Ret_from_fork, 1005 := Num 0)) \<and>
     kernel_esp c' = (kernel_esp c)(child := Stk child 1005)"

lemma prepare_new_stack: "new_stack c t child (prepare_child child ((copy_union t child c)\<lparr>krn := k\<rparr>))"
  by (simp add: new_stack_def prepare_child_def copy_union_def set_word_def KERNEL_STACK_SIZE_def Let_def fun_upd_twist)

lemma fork_code_Ok:
  assumes t: "current c = Ok t" and k: "k = (krn c)\<lparr>cur := t\<rparr>" and s: "sound k Q" "t \<noteq> idle_task k"
    and free: "Q Free_Queue = Some (Task ch # fs)" "NUM_PAG_DATA \<le> length (allocatable k)" and rs: "Q Ready_Queue = Some rs"
  shows "\<exists>c'. sys_fork_code c = Ok (Num (next_PID k + 1), c') \<and> new_stack c t ch c' \<and> sys_fork k = Ok (sint (next_PID k + 1), krn c') \<and>
    cur (krn c') = t \<and> length (task (krn c')) = NR_TASKS"
proof -
  from s(1) obtain f where q: "holds_lists (links k) Q" "length (phys_mem k) = TOTAL_PAGES" and f: "dir_of k (cur k) = Some f" by (rule soundD) blast
  from s(2) k have "cur k \<noteq> idle_task k" by simp
  from fork_runs [OF s(1) this free f rs] obtain k' d where k': "sys_fork k = Ok (sint (next_PID k + 1), k')" "forked k k' ch f d" by blast
  have lk: "links (krn c) = links k" by (simp add: k)
  have e: "list_empty (links k) Free_Queue = Ok False" "list_first (links k) Free_Queue = Ok (Task ch)"
    using lists.empty_law [OF q(1) free(1)] lists.first_law [OF q(1) free(1)] by simp_all
  from take_frames_cases [OF q(2)] free(2) obtain v k1 where v: "take_frames k = Ok (Inl (v, k1))" by auto
  from k'(1) e v obtain k2 k3 k4 where st: "on_lists (list_del (Task ch)) k1 = Ok k2" "copy_PCB ch k2 = Ok k3" "inherit_space ch v k3 = Ok k4"
    "start_child ch k4 = Ok k'" "sint (next_PID k') = sint (next_PID k + 1)" by (auto simp: sys_fork_def)
  have "next_PID k' = next_PID k + 1" using arg_cong [OF st(5), of "word_of_int :: int \<Rightarrow> dword"] by simp
  then have "sys_fork_code c = Ok (Num (next_PID k + 1), prepare_child ch ((copy_union t ch c)\<lparr>krn := k'\<rparr>))"
    using t e v st(1-4) lk by (simp add: sys_fork_code_def k [symmetric])
  moreover have "cur k' = t" "length (task k') = NR_TASKS" using k'(2) k by (simp_all add: forked_def)
  ultimately show ?thesis using prepare_new_stack [of c t ch k'] k'(1)
    by (intro exI [of _ "prepare_child ch ((copy_union t ch c)\<lparr>krn := k'\<rparr>)"]) (simp add: krn_steps)
qed

lemma clone_code_Ok:
  assumes t: "current c = Ok t" and k: "k = (krn c)\<lparr>cur := t\<rparr>" and s: "sound k Q"
    and free: "Q Free_Queue = Some (Task ch # fs)" and rs: "Q Ready_Queue = Some rs"
    and args: "func \<noteq> 0" "stk \<noteq> 0" "access_ok VERIFY_READ func 4 \<noteq> 0" "access_ok VERIFY_WRITE stk 4 \<noteq> 0"
  shows "\<exists>c'. sys_clone_code func stk c = Ok (Num (next_PID k + 1), c') \<and> sys_clone func stk k = Ok (sint (next_PID k + 1), krn c') \<and>
    gpr c' = gpr c \<and> seg c' = seg c \<and> stacks c' = (stacks c)(ch := (stacks c t)(1006 := Code Ret_from_fork, 1005 := Num 0, 1022 := Num stk, 1019 := Num func)) \<and>
    kernel_esp c' = (kernel_esp c)(ch := Stk ch 1005) \<and> cur (krn c') = t \<and> length (task (krn c')) = NR_TASKS"
proof -
  from s obtain f where q: "holds_lists (links k) Q" and f: "dir_of k (cur k) = Some f" by (rule soundD) blast
  from clone_runs [OF s free f rs args] obtain k' where k': "sys_clone func stk k = Ok (sint (next_PID k + 1), k')" "cur k' = cur k"
    "consistent (Task ` {..<NR_TASKS}) k' (Q(Free_Queue \<mapsto> fs, Ready_Queue \<mapsto> rs @ [Task ch]))" by blast
  have len: "length (task k') = NR_TASKS" using k'(3) by (simp add: consistent_def queues_def queues0_def)
  have lk: "links (krn c) = links k" by (simp add: k)
  have e: "list_empty (links k) Free_Queue = Ok False" "list_first (links k) Free_Queue = Ok (Task ch)"
    using lists.empty_law [OF q free] lists.first_law [OF q free] by simp_all
  from k'(1) e args obtain k1 k2 d u k3 x where st: "on_lists (list_del (Task ch)) k = Ok k1" "copy_PCB ch k1 = Ok k2" "find_dir_usage ch k2 = Ok d"
    "add_dir_usage d 1 k2 = Ok (u, k3)" "start_child ch k3 = Ok k'" "get_task k' ch = Ok x" "PID x = sint (next_PID k + 1)" by (auto simp: sys_clone_def)
  let ?c = "prepare_child ch ((copy_union t ch c)\<lparr>krn := k'\<rparr>)"
  define c' where "c' = set_word ch (KERNEL_STACK_SIZE - 5) (Num func) (set_word ch (KERNEL_STACK_SIZE - 2) (Num stk) ?c)"
  have "sys_clone_code func stk c = Ok (Num (next_PID k + 1), c')"
    using t e st args lk by (simp add: sys_clone_code_def k [symmetric] c'_def)
  moreover have "new_stack c t ch ?c" by (rule prepare_new_stack)
  ultimately show ?thesis using k'(1,2) len k
    by (intro exI [of _ c']) (simp add: c'_def new_stack_def set_word_def KERNEL_STACK_SIZE_def)
qed

section \<open>What the other tasks leave alone\<close>

definition off :: "nat \<Rightarrow> core \<Rightarrow> bool" where
  "off t c \<longleftrightarrow> (\<forall>i. gpr c ESP \<noteq> Stk t i)"

text \<open>
  \<open>others t c c'\<close>: a run in which task \<open>t\<close> does not run and is not made the child of a call: its stack pointer is
  not used, it is not switched to. \<open>compute\<close> is any work in registers and in the data of the kernel.
\<close>

inductive others :: "nat \<Rightarrow> core \<Rightarrow> core \<Rightarrow> bool" for t where
  stop: "others t c c"
| compute: "others t c a \<Longrightarrow> others t c (a\<lparr>gpr := g, seg := s, eflags := f, eip := p, krn := k\<rparr>)"
| pushes: "others t c a \<Longrightarrow> off t a \<Longrightarrow> push v a = Ok b \<Longrightarrow> others t c b"
| locals: "others t c a \<Longrightarrow> off t a \<Longrightarrow> scratch l a = Ok b \<Longrightarrow> others t c b"
| enters: "others t c a \<Longrightarrow> user_mode a \<Longrightarrow> tss_esp0 (krn a) \<noteq> t \<Longrightarrow> enter_gate a = Ok b \<Longrightarrow> others t c b"
| switches: "others t c a \<Longrightarrow> off t a \<Longrightarrow> new \<noteq> t \<Longrightarrow> task_switch_code new from l a = Ok b \<Longrightarrow> others t c b"
| forks: "others t c a \<Longrightarrow> off t a \<Longrightarrow> list_first (links (krn a)) Free_Queue \<noteq> Ok (Task t) \<Longrightarrow> sys_fork_code a = Ok (v, b) \<Longrightarrow> others t c b"
| clones: "others t c a \<Longrightarrow> off t a \<Longrightarrow> list_first (links (krn a)) Free_Queue \<noteq> Ok (Task t) \<Longrightarrow> sys_clone_code func stk a = Ok (v, b) \<Longrightarrow>
    others t c b"

definition spared :: "nat \<Rightarrow> core \<Rightarrow> core \<Rightarrow> bool" where
  "spared t c c' \<longleftrightarrow> stacks c' t = stacks c t \<and> kernel_esp c' t = kernel_esp c t"

lemma spared_refl [simp]: "spared t c c"
  by (simp add: spared_def)

lemma spared_trans: "spared t c c' \<Longrightarrow> spared t c' c'' \<Longrightarrow> spared t c c''"
  by (simp add: spared_def)

lemma push_spares:
  assumes "off t a" "push v a = Ok b"
  shows "spared t a b \<and> off t b \<and> current b \<noteq> Ok t \<and> krn b = krn a"
  using assms by (auto simp: push_def off_def spared_def set_reg_def set_word_def current_def split: val.splits if_splits)

lemma push_all_spares: "off t a \<Longrightarrow> push_all vs a = Ok b \<Longrightarrow> spared t a b \<and> off t b"
proof (induction vs arbitrary: a)
  case (Cons v vs)
  then obtain a1 where "push v a = Ok a1" "push_all vs a1 = Ok b" by auto
  with Cons push_spares [of t a v a1] spared_trans show ?case by blast
qed simp

lemma pop_keeps: "pop c = Ok (v, c') \<Longrightarrow> stacks c' = stacks c \<and> kernel_esp c' = kernel_esp c"
  by (cases "gpr c ESP") (auto simp: pop_def set_reg_def split: if_splits)

lemma ret_keeps: "ret c = Ok c' \<Longrightarrow> stacks c' = stacks c \<and> kernel_esp c' = kernel_esp c"
  by (auto simp: ret_def dest!: pop_keeps)

lemma scratch_spares: "off t a \<Longrightarrow> scratch l a = Ok b \<Longrightarrow> spared t a b"
  by (auto simp: scratch_def off_def spared_def split: val.splits if_splits)

lemma interrupt_spares:
  assumes "user_mode a" "tss_esp0 (krn a) \<noteq> t" "enter_gate a = Ok b"
  shows "spared t a b"
proof -
  let ?a = "set_seg SS KERNEL_DS (set_reg ESP (Stk (tss_esp0 (krn a)) KERNEL_STACK_SIZE) a)"
  from assms(1,3) obtain a1 a2 where 1: "push_all [Num (ucast (seg a SS)), gpr a ESP] ?a = Ok a1"
    "push_all [Num (eflags a), Num (ucast (seg a CS)), eip a] a1 = Ok a2" "b = set_seg CS KERNEL_CS (a2\<lparr>eflags := eflags a AND NOT 0x34300\<rparr>)"
    by (auto simp: enter_gate_def simp del: push_all.simps)
  have "off t ?a" using assms(2) by (simp add: off_def set_seg_def set_reg_def)
  from push_all_spares [OF this 1(1)] push_all_spares [OF _ 1(2)] have "spared t ?a a2" using spared_trans by blast
  then show ?thesis unfolding 1(3) by (simp add: spared_def set_seg_def set_reg_def)
qed

lemma switch_spares:
  assumes "off t a" "new \<noteq> t" "task_switch_code new from l a = Ok b"
  shows "spared t a b"
proof -
  from assms(3) obtain a1 a2 w a3 where 1: "push_all [Stk new 0, Code from, gpr a EBP] a = Ok a1"
    "push_all [gpr a1 EBX, gpr a1 ESI, gpr a1 EDI] (set_reg EBP (gpr a1 ESP) a1) = Ok a2" "push_all [w, Code After_inner] a2 = Ok a3"
    "inner_task_switch l a3 = Ok b"
    by (auto simp: task_switch_code_def Let_def set_reg_def simp del: push_all.simps)
  have s1: "spared t a a1" "off t a1" using push_all_spares [OF assms(1) 1(1)] by simp_all
  then have "off t (set_reg EBP (gpr a1 ESP) a1)" by (simp add: off_def set_reg_def)
  from push_all_spares [OF this 1(2)] have s2: "spared t a1 a2" "off t a2" by (simp_all add: spared_def set_reg_def)
  have s3: "spared t a2 a3" "off t a3" using push_all_spares [OF s2(2) 1(3)] by simp_all
  from 1(4) obtain a4 where 4: "push (gpr a3 EBP) a3 = Ok a4" by (auto simp: inner_task_switch_def)
  note s4 = push_spares [OF s3(2) 4]
  let ?a = "set_reg EBP (gpr a4 ESP) a4"
  from 1(4) 4 obtain w' where w': "word_at EBP 2 ?a = Ok w'" by (auto simp: inner_task_switch_def Let_def)
  with 1(4) 4 obtain m where m: "w' = Stk m 0"
    by (cases w') (auto simp: inner_task_switch_def Let_def split: nat.splits)
  from 1(4) 4 w' m obtain k k' where k: "kernel_view ?a = Ok k" "task_switch m k = Ok k'"
    "bind (pop_all [R EBP] (?a\<lparr>kernel_esp := (kernel_esp ?a)(cur k := gpr ?a EBP), krn := k', gpr := (regs_l l)(EBP := gpr ?a EBP, ESP := ((kernel_esp ?a)(cur k := gpr ?a EBP)) m)\<rparr>)) ret = Ok b"
    by (auto simp: inner_task_switch_def Let_def simp del: pop_all.simps)
  have "current ?a = current a4" by (simp add: current_def set_reg_def)
  with k(1) s4 have "cur k \<noteq> t" by (auto simp: kernel_view_def)
  with k(3) have "spared t a4 b"
    by (auto simp: spared_def set_reg_def dest!: pop_keeps ret_keeps)
  with s1(1) s2(1) s3(1) s4 spared_trans show ?thesis by blast
qed

lemma new_stack_spares: "new_stack c n child c' \<Longrightarrow> child \<noteq> t \<Longrightarrow> spared t c c'"
  by (simp add: new_stack_def spared_def)

lemma fork_spares:
  assumes "list_first (links (krn a)) Free_Queue \<noteq> Ok (Task t)" "sys_fork_code a = Ok (v, b)"
  shows "spared t a b"
proof -
  have node: "list_head_to_task_struct l = Ok n \<Longrightarrow> l = Task n" for l n by (cases l) simp_all
  from assms(2) obtain n e where "current a = Ok n" "list_empty (links (krn a)) Free_Queue = Ok e" by (auto simp: sys_fork_code_def Let_def)
  with assms show ?thesis
  proof (cases e)
    case False
    with assms(2) \<open>current a = Ok n\<close> \<open>list_empty (links (krn a)) Free_Queue = Ok e\<close> obtain l m r where
      l: "list_first (links (krn a)) Free_Queue = Ok l" "list_head_to_task_struct l = Ok m" "take_frames ((krn a)\<lparr>cur := n\<rparr>) = Ok r"
      by (auto simp: sys_fork_code_def Let_def)
    with node assms(1) have "m \<noteq> t" by metis
    with l False assms(2) \<open>current a = Ok n\<close> \<open>list_empty (links (krn a)) Free_Queue = Ok e\<close> show ?thesis
      by (cases r) (auto simp: sys_fork_code_def Let_def spared_def prepare_child_def copy_union_def set_word_def)
  qed (auto simp: sys_fork_code_def Let_def spared_def)
qed

lemma clone_spares:
  assumes "list_first (links (krn a)) Free_Queue \<noteq> Ok (Task t)" "sys_clone_code func stk a = Ok (v, b)"
  shows "spared t a b"
proof -
  have "list_head_to_task_struct l = Ok n \<Longrightarrow> l = Task n" for l n by (cases l) simp_all
  with assms show ?thesis
    by (fastforce simp: sys_clone_code_def Let_def spared_def prepare_child_def copy_union_def set_word_def split: if_splits)
qed

lemma others_spare: "others t c c' \<Longrightarrow> spared t c c'"
proof (induction rule: others.induct)
  case (compute c a g s f p k)
  then show ?case by (simp add: spared_def)
next
  case (pushes c a v b)
  then show ?case using push_spares spared_trans by blast
next
  case (locals c a l b)
  then show ?case using scratch_spares spared_trans by blast
next
  case (enters c a b)
  then show ?case using interrupt_spares spared_trans by blast
next
  case (switches c a new w l b)
  then show ?case using switch_spares spared_trans by blast
next
  case (forks c a v b)
  then show ?case using fork_spares spared_trans by blast
next
  case (clones c a func stk v b)
  then show ?case using clone_spares spared_trans by blast
qed simp

lemma spared_waits: "spared t c c' \<Longrightarrow> waits c t p b r \<Longrightarrow> waits c' t p b r"
  by (simp add: spared_def waits_def frame_def)

section \<open>System calls on the stacks\<close>

lemma user_place: "user_mode c \<Longrightarrow> save_place c KERNEL_STACK_SIZE = 1008" "user_mode c \<Longrightarrow> length (context_of c) = 16"
  by (simp_all add: save_place_def context_of_def interrupted_def KERNEL_STACK_SIZE_def)

lemma user_entered: "user_mode c \<Longrightarrow> entered_at c (tss_esp0 (krn c)) KERNEL_STACK_SIZE"
  by (simp add: entered_at_def)

lemma frame_set:
  assumes "frame c n i vs" "d < length vs" "i + d = j"
  shows "frame (set_word n j v c) n i (vs[d := v])"
  using assms by (auto simp: frame_def set_word_def nth_list_update)

lemma fin_Ok:
  assumes c: "gpr c ESP = Stk n 1008" "frame c n 1008 (context_of c0)" "size_l l \<le> 900" and u: "user_mode c0" and n: "n < length (task (krn c))"
  shows "\<exists>c'. fin l c = Ok c' \<and> resumes (set_reg EAX (gpr c EAX) c0) c' \<and> below n KERNEL_STACK_SIZE c c' \<and> times_only (krn c) (krn c') \<and> cur (krn c') = n"
proof -
  let ?d = "set_reg EAX (gpr c EAX) c0" and ?c = "set_word n 1014 (gpr c EAX) c"
  have u0: "user_mode (set_reg EAX v c0)" for v using u by (simp add: user_mode_def set_reg_def)
  have "(context_of c0)[6 := gpr c EAX] = context_of ?d" using u
    by (simp add: context_of_def saved_regs_def interrupted_def set_reg_def user_mode_def)
  then have "frame ?c n 1008 (context_of ?d)" using frame_set [OF c(2), of 6 1014 "gpr c EAX"] user_place(2) [OF u] by simp
  moreover have "gpr ?c ESP = Stk n 1008" "n < length (task (krn ?c))" using c(1) n by (simp_all add: set_word_def)
  moreover have "PCB_WORDS + size_l l < 1008" using c(3) by (simp add: PCB_WORDS_def)
  ultimately obtain c' where c': "bind (RESTORE_ALL l ?c) iret = Ok c'" "resumes ?d c'" "below n KERNEL_STACK_SIZE ?c c'"
    "times_only (krn ?c) (krn c')" "cur (krn c') = n" using leave_Ok [of ?c n ?d KERNEL_STACK_SIZE l] u0 user_place(1) [OF u0 [of "gpr c EAX"]] by auto
  moreover have "fin l c = bind (RESTORE_ALL l ?c) iret" using c(1) by (simp add: fin_def KERNEL_STACK_SIZE_def)
  moreover have "below n KERNEL_STACK_SIZE c c'" using c'(3) by (auto simp: below_def set_word_def KERNEL_STACK_SIZE_def)
  ultimately show ?thesis by (auto simp: krn_steps)
qed

text \<open>A system call that returns: the function of the table sees the arguments behind its return address.\<close>

lemma system_call_Ok:
  assumes u: "user_mode c" "tss_esp0 (krn c) = t" "t < length (task (krn c))" and n: "gpr c EAX = Num w" "0 \<le> sint w" "sint w \<le> MAX_SYSCALL"
    and sizes: "size_l l1 \<le> 900" "size_l l2 \<le> 900" "size_l l3 \<le> 900"
    and g: "\<And>cb. gpr cb ESP = Stk t 1007 \<Longrightarrow> frame cb t 1007 (Code Fin # context_of c) \<Longrightarrow> times_only (krn c) (krn cb) \<Longrightarrow> cur (krn cb) = t \<Longrightarrow>
      \<exists>cb'. table (sint w) cb = Ok (v, cb') \<and> gpr cb' = gpr cb \<and> seg cb' = seg cb \<and> stacks cb' t = stacks cb t \<and> t < length (task (krn cb')) \<and> P cb'"
    and P: "\<And>c1 c2. P c1 \<Longrightarrow> (\<forall>n. n \<noteq> t \<longrightarrow> stacks c2 n = stacks c1 n) \<Longrightarrow> kernel_esp c2 = kernel_esp c1 \<Longrightarrow> P c2"
  shows "\<exists>c'. system_call_entry table l1 l2 l3 c = Ok c' \<and> resumes (set_reg EAX v c) c' \<and> cur (krn c') = t \<and> P c'"
proof -
  have e: "entered_at c t KERNEL_STACK_SIZE" "PCB_WORDS + 29 + size_l l1 < KERNEL_STACK_SIZE"
    using user_entered [OF u(1)] u(2) sizes(1) by (simp_all add: PCB_WORDS_def KERNEL_STACK_SIZE_def)
  note place = user_place [OF u(1)]
  from enter_Ok [OF e order_refl u(3)] obtain c1 where 1: "bind (enter_gate c) (SAVE_ALL l1) = Ok c1"
    "gpr c1 = (gpr c)(EDX := gpr c1 EDX, ECX := gpr c1 ECX, ESP := Stk t 1008)" "frame c1 t 1008 (context_of c)" "times_only (krn c) (krn c1)"
    "cur (krn c1) = t" "below t KERNEL_STACK_SIZE c c1" unfolding place by blast
  have g1: "gpr c1 EAX = Num w" "gpr c1 ESP = Stk t 1008" by (subst 1(2), simp add: n)+
  let ?Q = "\<lambda>c'. P c' \<and> t < length (task (krn c'))"
  have "\<exists>c2. c_call Fin (table (sint w)) l2 c1 = Ok c2 \<and> gpr c2 = (gpr c1)(EAX := v, ECX := regs_l l2 ECX, EDX := regs_l l2 EDX) \<and> seg c2 = seg c1 \<and>
    (\<forall>j \<ge> 1008. stacks c2 t j = stacks c1 t j) \<and> eip c2 = Code Fin \<and> ?Q c2"
  proof (rule c_call_body [OF g1(2), where P = ?Q])
    show "PCB_WORDS + size_l l2 < 1008" "(1008 :: nat) \<le> KERNEL_STACK_SIZE" using sizes by (simp_all add: PCB_WORDS_def KERNEL_STACK_SIZE_def)
  next
    fix cb assume cb: "gpr cb = (gpr c1)(ESP := Stk t (1008 - 1))" "seg cb = seg c1" "same_code c1 cb" "below t 1008 c1 cb" "stacks cb t (1008 - 1) = Code Fin"
    have "frame cb t 1007 (Code Fin # context_of c)" using cb(5) frame_below [OF cb(4) order_refl 1(3)] by (simp add: frame_Cons KERNEL_STACK_SIZE_def)
    then show "\<exists>c2. table (sint w) cb = Ok (v, c2) \<and> gpr c2 = gpr cb \<and> seg c2 = seg cb \<and> stacks c2 t = stacks cb t \<and> ?Q c2"
      using g [of cb] cb(1,3) 1(4,5) by (auto simp: same_code_def)
  next
    fix c1 g e p assume "?Q c1" then show "?Q (c1\<lparr>gpr := g, eflags := e, eip := p\<rparr>)" using P [of c1 "c1\<lparr>gpr := g, eflags := e, eip := p\<rparr>"] by simp
  qed
  then obtain c2 where 2: "c_call Fin (table (sint w)) l2 c1 = Ok c2" "gpr c2 = (gpr c1)(EAX := v, ECX := regs_l l2 ECX, EDX := regs_l l2 EDX)"
    "\<forall>j \<ge> 1008. stacks c2 t j = stacks c1 t j" "P c2" "t < length (task (krn c2))" by blast
  have "gpr c2 ESP = Stk t 1008" "frame c2 t 1008 (context_of c)" "gpr c2 EAX = v"
    using 2(2,3) g1 1(3) by (simp_all add: frame_def)
  from fin_Ok [OF this(1,2) sizes(3) u(1) 2(5)] this(3) obtain c3 where 3: "fin l3 c2 = Ok c3" "resumes (set_reg EAX v c) c3"
    "below t KERNEL_STACK_SIZE c2 c3" "cur (krn c3) = t" by auto
  have "P c3" using P [OF 2(4), of c3] 3(3) by (auto simp: below_def)
  moreover have "system_call_entry table l1 l2 l3 c = Ok c3" using 1(1) g1(1) n(2,3) 2(1) 3(1)
    by (auto simp: system_call_entry_def intro!: exI [of _ w])
  ultimately show ?thesis using 3(2,4) by blast
qed

text \<open>A new task runs for the first time when some task switches to it.\<close>

definition child_words :: "core \<Rightarrow> val list" where
  "child_words c = [Num 0, Code Ret_from_fork, Code Fin] @ context_of c"

lemma child_runs:
  assumes w: "kernel_esp c1 n = Stk n 1005" "frame c1 n 1005 (child_words c0)" and u: "user_mode c0" and o: "others n c1 c2"
    and c: "gpr c2 ESP = Stk t i" "t \<noteq> n" "PCB_WORDS + 9 \<le> i" "i \<le> KERNEL_STACK_SIZE" "t < length (task (krn c2))" "n < length (task (krn c2))"
    and l: "size_l l \<le> 900"
  shows "\<exists>c3 c4. task_switch_code n from l' c2 = Ok c3 \<and> run_child l c3 = Ok c4 \<and> resumes (set_reg EAX (Num 0) c0) c4 \<and> cur (krn c4) = n \<and> tss_esp0 (krn c4) = n"
proof -
  have "waits c1 n 1005 (Num 0) (Code Ret_from_fork)" using w by (simp add: waits_def child_words_def frame_Cons)
  from spared_waits [OF others_spare [OF o] this] switch_back_Ok [OF _ c, of 1005 "Num 0" "Code Ret_from_fork" "from" l'] obtain c3 where
    3: "task_switch_code n from l' c2 = Ok c3" "gpr c3 ESP = Stk n 1007" "eip c3 = Code Ret_from_fork" "stacks c3 n = stacks c2 n"
    "cur (krn c3) = n" "tss_esp0 (krn c3) = n" "task (krn c3) = task (krn c2)" by auto
  have "frame c3 n 1005 (child_words c0)" using w(2) others_spare [OF o] 3(4) by (simp add: frame_def spared_def)
  then have f: "stacks c3 n 1007 = Code Fin" "frame c3 n 1008 (context_of c0)" by (simp_all add: child_words_def frame_Cons)
  let ?c = "(set_reg ESP (Stk n 1008) (set_reg EAX (Num 0) c3))\<lparr>eip := Code Fin\<rparr>"
  have r: "ret (set_reg EAX (Num (word_of_int ret_from_fork)) c3) = Ok ?c"
    using 3(2) f(1) by (simp add: ret_def pop_def set_reg_def ret_from_fork_def KERNEL_STACK_SIZE_def)
  have "gpr ?c ESP = Stk n 1008" "frame ?c n 1008 (context_of c0)" "n < length (task (krn ?c))" using f(2) c(6) 3(7) by (simp_all add: set_reg_def)
  from fin_Ok [OF this(1,2) l u this(3)] obtain c4 where 4: "fin l ?c = Ok c4" "resumes (set_reg EAX (Num 0) c0) c4" "times_only (krn ?c) (krn c4)" "cur (krn c4) = n"
    by (auto simp: set_reg_def)
  have "run_child l c3 = Ok c4" using 3(3) r 4(1) by (simp add: run_child_def)
  moreover have "tss_esp0 (krn c4) = n" using times_onlyD [OF 4(3)] 3(6) by (simp add: set_reg_def)
  ultimately show ?thesis using 3(1) 4(2,4) by blast
qed

section \<open>Preemption\<close>

text \<open>\<open>sched_next_rr\<close> up to its \<open>task_switch\<close>, and \<open>scheduling\<close> up to there when \<open>needs_sched_rr\<close> answers 1.\<close>

definition pick_next :: "kernel \<Rightarrow> (nat \<times> kernel) res" where
  "pick_next k =
     bind (list_empty (links k) Ready_Queue) (\<lambda>e.
     bind (if \<not> e then
             bind (list_first (links k) Ready_Queue) (\<lambda>l.
             bind (list_head_to_task_struct l) (\<lambda>t.
             bind (on_lists (list_del l) k) (\<lambda>k. Ok (t, k))))
           else Ok (idle_task k, k)) (\<lambda>(t, k).
     bind (get_quantum t k) (\<lambda>q.
     bind (finishSystemTime (cur k) (k\<lparr>quantum_left := q\<rparr>)) (\<lambda>k.
     bind (if t \<noteq> idle_task k then finishReadyTime t k else Ok k) (\<lambda>k. Ok (t, k))))))"

definition expire :: "kernel \<Rightarrow> (nat \<times> kernel) res" where
  "expire k = bind (needs_sched_rr (update_sched_data_rr k)) (\<lambda>(_, k). bind (update_process_state_rr (cur k) Ready_Queue k) pick_next)"

lemma pick_next_refines: "sched_next_rr k = bind (pick_next k) (\<lambda>(t, k). task_switch t k)"
  by (simp add: sched_next_rr_def pick_next_def bind_assoc split_def)

lemma expire_refines:
  assumes "needs_sched_rr (update_sched_data_rr k) = Ok (r, k')" "r \<noteq> 0"
  shows "scheduling k = bind (expire k) (\<lambda>(t, k). task_switch t k)"
proof -
  have "sched_next_rr = (\<lambda>k. bind (pick_next k) (\<lambda>(t, k). task_switch t k))" by (rule ext) (rule pick_next_refines)
  then show ?thesis using assms by (simp add: scheduling_def expire_def bind_assoc)
qed

lemma expire_Ok:
  assumes k: "queues k Q" "cur k \<noteq> idle_task k" "quantum_left k = 1" "Q Ready_Queue = Some (Task new # rs)"
  shows "\<exists>k'. expire k = Ok (new, k') \<and> length (task k') = NR_TASKS \<and> new < NR_TASKS \<and> new \<noteq> cur k"
proof -
  from scheduling_expired_aux [OF k] obtain k1 where 1: "scheduling k = Ok k1" "cur k1 = new" "queues k1 (Q(Ready_Queue \<mapsto> rs @ [Task (cur k)]))" by auto
  have "needs_sched_rr (update_sched_data_rr k) = Ok (1, k\<lparr>quantum_left := 0\<rparr>)" using k(2,3) by (simp add: needs_sched_rr_def update_sched_data_rr_def)
  from expire_refines [OF this] 1(1) have "bind (expire k) (\<lambda>(t, k). task_switch t k) = Ok k1" by simp
  then obtain t k2 where 2: "expire k = Ok (t, k2)" "task_switch t k2 = Ok k1" by auto
  then have "cur k1 = t" "task k1 = task k2" by (auto simp: task_switch_def Let_def split: if_splits)
  moreover have "length (task k1) = NR_TASKS" "cur k1 < NR_TASKS" using 1(3) by (simp_all add: queues_def queues0_def)
  moreover have "free_node Q (Task (cur k))" using k(1) by (simp add: queues_def)
  then have "new \<noteq> cur k" using k(4) by (fastforce simp: free_node_def)
  ultimately show ?thesis using 1(2) 2(1) by auto
qed

text \<open>\<open>clock_handler\<close> of a process whose quantum ends; \<open>fs\<close> are the functions down to \<open>sched_next_rr\<close>.\<close>

definition preempt :: "leftovers \<Rightarrow> (label \<times> leftovers) list \<Rightarrow> label \<Rightarrow> leftovers \<Rightarrow> core \<Rightarrow> core res" where
  "preempt l1 fs from l2 c = bind (enter_gate c) (\<lambda>c. bind (SAVE_ALL l1 c) (\<lambda>c. block_in expire fs from l2 (EOI l1 c)))"

definition resume_irq :: "(label \<times> leftovers) list \<Rightarrow> leftovers \<Rightarrow> core \<Rightarrow> core res" where
  "resume_irq fs l c = bind (resume_in fs c) (\<lambda>c. bind (RESTORE_ALL l c) iret)"

definition runs_at :: "core \<Rightarrow> nat \<Rightarrow> nat \<Rightarrow> bool" where
  "runs_at c t i \<longleftrightarrow> gpr c ESP = Stk t i \<and> PCB_WORDS + 9 \<le> i \<and> i \<le> KERNEL_STACK_SIZE \<and> t < length (task (krn c))"

text \<open>A task that waits in the middle of its clock handler goes on there when another task switches to it.\<close>

lemma handler_goes_on:
  assumes o: "others t c3 c4" and n: "runs_at c4 n i" "n \<noteq> t" "t < length (task (krn c4))"
    and wt: "waits c3 t p b1 (Code After_inner)" and f3: "frame c3 t 1008 (context_of c)" and e: "gpr c2 ESP = Stk t 1008"
    and u: "user_mode c" "tss_esp0 (krn c) = t" and sz: "size_l l3 \<le> 900"
    and resume: "\<And>d. gpr d ESP = Stk t (p + 2) \<Longrightarrow> gpr d EBP = b1 \<Longrightarrow> stacks d t = stacks c3 t \<Longrightarrow>
      \<exists>d'. resume_in fs d = Ok d' \<and> kept c2 d' \<and> same_rest d d'"
  shows "\<exists>c5 c6. task_switch_code t w l c4 = Ok c5 \<and> resume_irq fs l3 c5 = Ok c6 \<and> resumes c c6 \<and> cur (krn c6) = t \<and> tss_esp0 (krn c6) = t"
proof -
  from switch_back_Ok [OF spared_waits [OF others_spare [OF o] wt]] n obtain c5 where 5: "task_switch_code t w l c4 = Ok c5" "gpr c5 ESP = Stk t (p + 2)"
    "gpr c5 EBP = b1" "stacks c5 t = stacks c4 t" "cur (krn c5) = t" "tss_esp0 (krn c5) = t" "task (krn c5) = task (krn c4)"
    unfolding runs_at_def by metis
  have st: "stacks c5 t = stacks c3 t" using 5(4) others_spare [OF o] by (simp add: spared_def)
  from resume [OF 5(2,3) st] obtain d where d: "resume_in fs c5 = Ok d" "kept c2 d" "same_rest c5 d" by blast
  have "gpr d ESP = Stk t 1008" "frame d t 1008 (context_of c)" "t < length (task (krn d))" "PCB_WORDS + size_l l3 < 1008"
    using d(2,3) e f3 st 5(7) n(3) sz by (simp_all add: kept_def same_rest_def frame_def PCB_WORDS_def)
  then obtain c6 where "bind (RESTORE_ALL l3 d) iret = Ok c6" "resumes c c6" "times_only (krn d) (krn c6)" "cur (krn c6) = t"
    using leave_Ok [of d t c KERNEL_STACK_SIZE l3] user_place(1) [OF u(1)] u(1) by auto
  moreover have "tss_esp0 (krn d) = t" using d(3) 5(6) by (simp add: same_rest_def)
  ultimately show ?thesis using 5(1) d(1) times_onlyD by (auto simp: resume_irq_def)
qed

text \<open>
  C11: preemption does not show. The clock interrupts a user process whose quantum ends: the next process of the queue
  goes on where it was switched out. Whatever the other tasks then do, when any of them switches back, the process
  leaves its handler with every register, its stack pointer, flags and instruction pointer as they were.
\<close>

theorem preempted_resumes:
  assumes u: "user_mode c" "tss_esp0 (krn c) = t" "cur (krn c) = t"
    and q: "queues (krn c) Q" "t \<noteq> idle_task (krn c)" "quantum_left (krn c) = 1" "Q Ready_Queue = Some (Task new # rs)"
    and w: "waits c new m b r" and sizes: "size_l l1 \<le> 900" "room fs \<le> 900" "size_l l3 \<le> 900"
  shows "\<exists>c1. preempt l1 fs from l2 c = Ok c1 \<and> cur (krn c1) = new \<and> eip c1 = r \<and> gpr c1 ESP = Stk new (m + 2) \<and> gpr c1 EBP = b \<and>
    length (task (krn c1)) = NR_TASKS \<and>
    (\<forall>c2 n i l w. others t c1 c2 \<longrightarrow> runs_at c2 n i \<longrightarrow> n \<noteq> t \<longrightarrow> t < length (task (krn c2)) \<longrightarrow>
      (\<exists>c3 c4. task_switch_code t w l c2 = Ok c3 \<and> resume_irq fs l3 c3 = Ok c4 \<and> resumes c c4 \<and> cur (krn c4) = t \<and> tss_esp0 (krn c4) = t))"
proof -
  have len: "t < length (task (krn c))" "length (task (krn c)) = NR_TASKS" using q(1) u(3) by (auto simp: queues_def queues0_def)
  have e: "entered_at c t KERNEL_STACK_SIZE" "PCB_WORDS + 29 + size_l l1 < KERNEL_STACK_SIZE"
    using user_entered [OF u(1)] u(2) sizes(1) by (simp_all add: PCB_WORDS_def KERNEL_STACK_SIZE_def)
  note place = user_place [OF u(1)]
  from enter_Ok [OF e order_refl len(1)] obtain c1 where 1: "bind (enter_gate c) (SAVE_ALL l1) = Ok c1"
    "gpr c1 = (gpr c)(EDX := gpr c1 EDX, ECX := gpr c1 ECX, ESP := Stk t 1008)" "frame c1 t 1008 (context_of c)" "times_only (krn c) (krn c1)"
    "cur (krn c1) = t" "below t KERNEL_STACK_SIZE c c1" unfolding place by blast
  define c2 where "c2 = EOI l1 c1"
  have "gpr c1 ESP = Stk t 1008" by (subst 1(2)) simp
  then have 2: "gpr c2 ESP = Stk t 1008" "krn c2 = krn c1" "stacks c2 = stacks c1" "kernel_esp c2 = kernel_esp c1"
    by (simp_all add: c2_def EOI_def set_reg_def split: val.split)
  have k: "queues (krn c1) Q" "cur (krn c1) \<noteq> idle_task (krn c1)" "quantum_left (krn c1) = 1" "(krn c2)\<lparr>cur := t\<rparr> = krn c1"
    using 1(4,5) 2(2) q u(3) by (simp_all add: times_only_def same_queues_def queues_def queues0_def)
  from expire_Ok [OF k(1-3) q(4)] 1(5) obtain k' where k': "expire (krn c1) = Ok (new, k')" "new \<noteq> t" "t < length (task k')" "new < length (task k')"
    "length (task k') = NR_TASKS" using len by auto
  have "stacks c1 new = stacks c new" "kernel_esp c1 = kernel_esp c" using 1(6) k'(2) by (auto simp: below_def)
  then have w2: "waits c2 new m b r" using w 2(3,4) by (simp add: waits_def frame_def)
  have i: "(1008 :: nat) < KERNEL_STACK_SIZE" "PCB_WORDS + 9 + room fs \<le> 1008" using sizes(2) by (simp_all add: PCB_WORDS_def KERNEL_STACK_SIZE_def)
  from block_Ok [OF 2(1) i, of expire new k' m b r "from" l2] k(4) k' w2 obtain c3 p b1 where
    3: "block_in expire fs from l2 c2 = Ok c3" "waits c3 t p b1 (Code After_inner)" "still t 1008 c2 c3" "gpr c3 ESP = Stk new (m + 2)" "gpr c3 EBP = b"
      "eip c3 = r" "cur (krn c3) = new" "task (krn c3) = task k'"
    and resume: "\<And>d. gpr d ESP = Stk t (p + 2) \<Longrightarrow> gpr d EBP = b1 \<Longrightarrow> stacks d t = stacks c3 t \<Longrightarrow> \<exists>d'. resume_in fs d = Ok d' \<and> kept c2 d' \<and> same_rest d d'"
    by auto
  have run: "preempt l1 fs from l2 c = Ok c3" using 1(1) 3(1) by (auto simp: preempt_def c2_def)
  have f3: "frame c3 t 1008 (context_of c)" using frame_still [OF 3(3) order_refl] 1(3) 2(3) frame_same by blast
  have "\<exists>c5 c6. task_switch_code t w l c4 = Ok c5 \<and> resume_irq fs l3 c5 = Ok c6 \<and> resumes c c6 \<and> cur (krn c6) = t \<and> tss_esp0 (krn c6) = t"
    if "others t c3 c4" "runs_at c4 n i" "n \<noteq> t" "t < length (task (krn c4))" for c4 n i l w
    by (rule handler_goes_on [OF that 3(2) f3 2(1) u(1,2) sizes(3)]) (rule resume)
  with run 3(4-8) k'(5) show ?thesis by (intro exI [of _ c3]) simp
qed

section \<open>Fork, threads and the idle process\<close>

text \<open>
  C12: a fork returns twice. The parent leaves interrupt 0x80 with the process number of the child in EAX; the child,
  when some task switches to it, leaves the same interrupt on its own kernel stack with 0 in EAX. Every other register,
  segment, flag and the instruction pointer are those of the call, in both.
\<close>

theorem fork_returns_twice:
  assumes u: "user_mode c" "gpr c EAX = Num 2" "table 2 = sys_fork_code" and t: "tss_esp0 (krn c) = t" "cur (krn c) = t" "t \<noteq> idle_task (krn c)"
    and s: "sound (krn c) Q" "Q Free_Queue = Some (Task ch # fs)" "Q Ready_Queue = Some rs" "NUM_PAG_DATA \<le> length (allocatable (krn c))"
    and sizes: "size_l l1 \<le> 900" "size_l l2 \<le> 900" "size_l l3 \<le> 900" "size_l l4 \<le> 900"
  shows "\<exists>c1. system_call_entry table l1 l2 l3 c = Ok c1 \<and> resumes (set_reg EAX (Num (next_PID (krn c) + 1)) c) c1 \<and> cur (krn c1) = t \<and>
    (\<forall>c2 n i l w. others ch c1 c2 \<longrightarrow> runs_at c2 n i \<longrightarrow> n \<noteq> ch \<longrightarrow> ch < length (task (krn c2)) \<longrightarrow>
      (\<exists>c3 c4. task_switch_code ch w l c2 = Ok c3 \<and> run_child l4 c3 = Ok c4 \<and> resumes (set_reg EAX (Num 0) c) c4 \<and>
        cur (krn c4) = ch \<and> tss_esp0 (krn c4) = ch))"
proof -
  from s(1) have len: "length (task (krn c)) = NR_TASKS" "cur (krn c) < NR_TASKS" and sep: "separate Q" by (rule soundD, blast)+
  from s(1,2) have chl: "ch < NR_TASKS" by (elim soundD) auto
  have ne: "ch \<noteq> t" using live_taken(2) [OF sep s(2) chl] sound_live(1) [OF s(1)] t(2) by auto
  let ?P = "\<lambda>c'. kernel_esp c' ch = Stk ch 1005 \<and> frame c' ch 1005 (child_words c)"
  have "\<exists>c'. system_call_entry table l1 l2 l3 c = Ok c' \<and> resumes (set_reg EAX (Num (next_PID (krn c) + 1)) c) c' \<and> cur (krn c') = t \<and> ?P c'"
  proof (rule system_call_Ok [OF u(1) t(1) _ u(2), where P = ?P])
    fix cb assume cb: "gpr cb ESP = Stk t 1007" "frame cb t 1007 (Code Fin # context_of c)" "times_only (krn c) (krn cb)" "cur (krn cb) = t"
    have k: "current cb = Ok t" "krn cb = (krn cb)\<lparr>cur := t\<rparr>" using cb(1,4) by (simp_all add: current_def KERNEL_STACK_SIZE_def)
    have sm: "same_queues (krn c) (krn cb)" "next_PID (krn cb) = next_PID (krn c)" using cb(3) by (simp_all add: times_only_def)
    have "sound (krn cb) Q" using same_queues_sound [OF s(1) sm(1)] cb(4) t(2) by simp
    moreover have "t \<noteq> idle_task (krn cb)" "allocatable (krn cb) = allocatable (krn c)" using sm t(3) by (simp_all add: same_queues_def allocatable_def)
    ultimately obtain c' where c': "sys_fork_code cb = Ok (Num (next_PID (krn cb) + 1), c')" "new_stack cb t ch c'" "length (task (krn c')) = NR_TASKS"
      using fork_code_Ok [OF k, of Q ch fs rs] s(2-4) by auto
    have "frame c' ch 1005 (child_words c)" using c'(2) cb(2) unfolding child_words_def
      by (simp add: frame_Cons new_stack_def) (simp add: frame_def)
    then show "\<exists>cb'. table (sint (2 :: dword)) cb = Ok (Num (next_PID (krn c) + 1), cb') \<and> gpr cb' = gpr cb \<and> seg cb' = seg cb \<and> stacks cb' t = stacks cb t \<and>
        t < length (task (krn cb')) \<and> ?P cb'"
      using c' sm(2) u(3) len t(2) ne by (intro exI [of _ c']) (simp add: new_stack_def)
  next
    fix c1 c2 :: core assume "?P c1" "\<forall>n. n \<noteq> t \<longrightarrow> stacks c2 n = stacks c1 n" "kernel_esp c2 = kernel_esp c1"
    then show "?P c2" using ne by (simp add: frame_def)
  qed (use sizes len t in \<open>simp_all add: MAX_SYSCALL_def\<close>)
  then obtain c1 where 1: "system_call_entry table l1 l2 l3 c = Ok c1" "resumes (set_reg EAX (Num (next_PID (krn c) + 1)) c) c1" "cur (krn c1) = t" "?P c1" by blast
  then show ?thesis using child_runs [OF _ _ u(1) _ _ _ _ _ _ _ sizes(4)] unfolding runs_at_def by blast
qed

text \<open>The arguments of \<open>sys_clone\<close>: the registers EBX and ECX that \<open>SAVE_ALL\<close> pushed last.\<close>

definition call_clone_code :: "core \<Rightarrow> (val \<times> core) res" where
  "call_clone_code c = bind (word_at ESP 1 c) (\<lambda>f. bind (number f) (\<lambda>f. bind (word_at ESP 2 c) (\<lambda>s. bind (number s) (\<lambda>s. sys_clone_code f s c))))"

text \<open>The registers a thread starts with.\<close>

definition thread_start :: "dword \<Rightarrow> dword \<Rightarrow> core \<Rightarrow> core" where
  "thread_start func stk c = (set_reg ESP (Num stk) c)\<lparr>eip := Num func\<rparr>"

lemma thread_words:
  assumes "frame cb t 1007 (Code Fin # context_of c)" "user_mode c"
    and "stacks c' ch = (stacks cb t)(1006 := Code Ret_from_fork, 1005 := Num 0, 1022 := Num stk, 1019 := Num func)"
  shows "frame c' ch 1005 (child_words (thread_start func stk c))"
proof -
  have "user_mode (thread_start func stk c)" using assms(2) by (simp add: thread_start_def user_mode_def set_reg_def)
  with assms show ?thesis
    by (simp add: child_words_def context_of_def interrupted_def saved_regs_def frame_Cons) (simp add: thread_start_def set_reg_def KERNEL_STACK_SIZE_def)
qed

text \<open>
  C13: a thread starts at its function. After \<open>clone(func, stk)\<close> the caller goes on with the process number of the
  thread; the thread, when some task switches to it, leaves interrupt 0x80 to \<open>func\<close> with its stack pointer at
  \<open>stk\<close> and 0 in EAX, all else as in the caller.
\<close>

theorem thread_starts:
  assumes u: "user_mode c" "gpr c EAX = Num 19" "gpr c EBX = Num func" "gpr c ECX = Num stk" "table 19 = call_clone_code"
    and t: "tss_esp0 (krn c) = t" "cur (krn c) = t" and s: "sound (krn c) Q" "Q Free_Queue = Some (Task ch # fs)" "Q Ready_Queue = Some rs"
    and args: "func \<noteq> 0" "stk \<noteq> 0" "access_ok VERIFY_READ func 4 \<noteq> 0" "access_ok VERIFY_WRITE stk 4 \<noteq> 0"
    and sizes: "size_l l1 \<le> 900" "size_l l2 \<le> 900" "size_l l3 \<le> 900" "size_l l4 \<le> 900"
  shows "\<exists>c1. system_call_entry table l1 l2 l3 c = Ok c1 \<and> resumes (set_reg EAX (Num (next_PID (krn c) + 1)) c) c1 \<and> cur (krn c1) = t \<and>
    (\<forall>c2 n i l w. others ch c1 c2 \<longrightarrow> runs_at c2 n i \<longrightarrow> n \<noteq> ch \<longrightarrow> ch < length (task (krn c2)) \<longrightarrow>
      (\<exists>c3 c4. task_switch_code ch w l c2 = Ok c3 \<and> run_child l4 c3 = Ok c4 \<and> resumes (set_reg EAX (Num 0) (thread_start func stk c)) c4 \<and>
        cur (krn c4) = ch \<and> tss_esp0 (krn c4) = ch))"
proof -
  from s(1) have len: "length (task (krn c)) = NR_TASKS" "cur (krn c) < NR_TASKS" and sep: "separate Q" by (rule soundD, blast)+
  from s(1,2) have chl: "ch < NR_TASKS" by (elim soundD) auto
  have ne: "ch \<noteq> t" using live_taken(2) [OF sep s(2) chl] sound_live(1) [OF s(1)] t(2) by auto
  have ut: "user_mode (thread_start func stk c)" using u(1) by (simp add: thread_start_def user_mode_def set_reg_def)
  let ?P = "\<lambda>c'. kernel_esp c' ch = Stk ch 1005 \<and> frame c' ch 1005 (child_words (thread_start func stk c))"
  have "\<exists>c'. system_call_entry table l1 l2 l3 c = Ok c' \<and> resumes (set_reg EAX (Num (next_PID (krn c) + 1)) c) c' \<and> cur (krn c') = t \<and> ?P c'"
  proof (rule system_call_Ok [OF u(1) t(1) _ u(2), where P = ?P])
    fix cb assume cb: "gpr cb ESP = Stk t 1007" "frame cb t 1007 (Code Fin # context_of c)" "times_only (krn c) (krn cb)" "cur (krn cb) = t"
    have k: "current cb = Ok t" "krn cb = (krn cb)\<lparr>cur := t\<rparr>" using cb(1,4) by (simp_all add: current_def KERNEL_STACK_SIZE_def)
    have sm: "same_queues (krn c) (krn cb)" "next_PID (krn cb) = next_PID (krn c)" using cb(3) by (simp_all add: times_only_def)
    have "sound (krn cb) Q" using same_queues_sound [OF s(1) sm(1)] cb(4) t(2) by simp
    from clone_code_Ok [OF k this s(2,3) args] obtain c' where c': "sys_clone_code func stk cb = Ok (Num (next_PID (krn cb) + 1), c')"
      "gpr c' = gpr cb" "seg c' = seg cb" "kernel_esp c' = (kernel_esp cb)(ch := Stk ch 1005)" "length (task (krn c')) = NR_TASKS"
      "stacks c' = (stacks cb)(ch := (stacks cb t)(1006 := Code Ret_from_fork, 1005 := Num 0, 1022 := Num stk, 1019 := Num func))" by blast
    have "frame c' ch 1005 (child_words (thread_start func stk c))" using thread_words [OF cb(2) u(1)] c'(6) by simp
    moreover have "call_clone_code cb = Ok (Num (next_PID (krn c) + 1), c')" using cb(1,2) u(3,4) c'(1) sm(2)
      by (simp add: call_clone_code_def word_at_Ok context_of_def saved_regs_def frame_Cons KERNEL_STACK_SIZE_def)
    ultimately show "\<exists>cb'. table (sint (19 :: dword)) cb = Ok (Num (next_PID (krn c) + 1), cb') \<and> gpr cb' = gpr cb \<and> seg cb' = seg cb \<and>
        stacks cb' t = stacks cb t \<and> t < length (task (krn cb')) \<and> ?P cb'"
      using c'(2-6) u(5) len t(2) ne by (intro exI [of _ c']) simp
  next
    fix c1 c2 :: core assume "?P c1" "\<forall>n. n \<noteq> t \<longrightarrow> stacks c2 n = stacks c1 n" "kernel_esp c2 = kernel_esp c1"
    then show "?P c2" using ne by (simp add: frame_def)
  qed (use sizes len t in \<open>simp_all add: MAX_SYSCALL_def\<close>)
  then obtain c1 where 1: "system_call_entry table l1 l2 l3 c = Ok c1" "resumes (set_reg EAX (Num (next_PID (krn c) + 1)) c) c1" "cur (krn c1) = t" "?P c1" by blast
  then show ?thesis using child_runs [OF _ _ ut _ _ _ _ _ _ _ sizes(4)] unfolding runs_at_def by blast
qed

text \<open>
  C15: the idle process takes interrupts and goes on. When a task switches to it for the first time it is in
  \<open>cpu_idle\<close> with nothing on its stack, where \<open>current()\<close> would name the next task; but an interrupt pushes first,
  so its handler runs as the idle process, ends, and leaves every register of the loop as it was.
\<close>

theorem idle_goes_on:
  assumes o: "others n (prepare_idle n c) c1" and r: "runs_at c1 t i" "t \<noteq> n" "n < length (task (krn c1))" "\<not> user_mode c1"
    and sizes: "size_l l1 \<le> 900" "size_l l2 \<le> 900" "size_l l3 \<le> 900"
    and f: "\<And>k. length (task k) = length (task (krn c1)) \<Longrightarrow> cur k = n \<Longrightarrow> \<exists>k'. f k = Ok k' \<and> length (task k') = length (task k)"
  shows "\<exists>c2 c3. task_switch_code n from l c1 = Ok c2 \<and> eip c2 = Code Cpu_idle \<and> current c2 = Ok (Suc n) \<and>
    irq_handler f l1 l2 l3 (cpu_idle c2) = Ok c3 \<and> resumes (cpu_idle c2) c3 \<and> cur (krn c3) = n"
proof -
  have "waits (prepare_idle n c) n 1022 (Num 0) (Code Cpu_idle)"
    by (simp add: waits_def prepare_idle_def frame_Cons Let_def KERNEL_STACK_SIZE_def) (simp add: set_word_def)
  from switch_back_Ok [OF spared_waits [OF others_spare [OF o] this], of t i "from" l] r(1-3) obtain c2 where 2: "task_switch_code n from l c1 = Ok c2" "gpr c2 ESP = Stk n 1024"
    "eip c2 = Code Cpu_idle" "seg c2 = seg c1" "task (krn c2) = task (krn c1)" unfolding runs_at_def by auto
  let ?c = "cpu_idle c2"
  have e: "entered_at ?c n KERNEL_STACK_SIZE" using 2(2,4) r(4)
    by (simp add: entered_at_def cpu_idle_def user_mode_def KERNEL_STACK_SIZE_def PCB_WORDS_def)
  have sz: "PCB_WORDS + 29 + size_l l < KERNEL_STACK_SIZE" if "size_l l \<le> 900" for l using that by (simp add: PCB_WORDS_def KERNEL_STACK_SIZE_def)
  have "\<exists>c'. irq_handler f l1 l2 l3 ?c = Ok c' \<and> resumes ?c c' \<and> below n KERNEL_STACK_SIZE ?c c' \<and> cur (krn c') = n"
    by (rule irq_Ok [OF e sz [OF sizes(1)] order_refl _ sz [OF sizes(2)] sz [OF sizes(3)]])
      (use r(3) f 2(5) times_onlyD in \<open>auto simp: cpu_idle_def\<close>)
  then show ?thesis using 2 by (auto simp: current_def KERNEL_STACK_SIZE_def)
qed

section \<open>Concrete runs\<close>

definition demo_core :: "kernel \<Rightarrow> core" where
  "demo_core k = \<lparr>gpr = (\<lambda>_. Num 7)(EAX := Num 2), seg = (\<lambda>_. USER_DS)(CS := USER_CS), eflags = 0x202, eip = Num 0x100010,
     stacks = \<lambda>_ _. Num 0, kernel_esp = \<lambda>_. Num 0, krn = k\<rparr>"

definition demo_left :: leftovers where
  "demo_left = \<lparr>regs_l = \<lambda>_. Num 99, eflags_l = 0, words_l = \<lambda>_. Num 99, size_l = 8\<rparr>"

definition run_on :: "nat \<Rightarrow> kernel \<Rightarrow> core \<Rightarrow> core" where
  "run_on n k c = c\<lparr>gpr := (gpr c)(ESP := Stk n 1000), seg := (seg c)(CS := KERNEL_CS), eflags := eflags c, eip := Code (Site 9), krn := k\<rparr>"

lemma run_on_others: "others t c c' \<Longrightarrow> others t c (run_on n k c')"
  unfolding run_on_def by (rule others.compute)

lemma run_on_runs: "n < length (task k) \<Longrightarrow> runs_at (run_on n k c) n 1000" "krn (run_on n k c) = k" "\<not> user_mode (run_on n k c)"
  by (simp_all add: runs_at_def run_on_def PCB_WORDS_def KERNEL_STACK_SIZE_def user_mode_def KERNEL_CS_def)

lemma demo_simps: "user_mode (demo_core k)" "gpr (demo_core k) EAX = Num 2" "krn (demo_core k) = k" "eip (demo_core k) = Num 0x100010" "size_l demo_left = 8"
  by (simp_all add: demo_core_def demo_left_def user_mode_def USER_CS_def)

theorem fork_returns_twice_witness:
  "\<exists>k0 c1 c3 c4. boot blank_kernel = Ok k0 \<and>
     system_call_entry (\<lambda>_. sys_fork_code) demo_left demo_left demo_left (demo_core (k0\<lparr>tss_esp0 := 8\<rparr>)) = Ok c1 \<and> gpr c1 EAX = Num 3 \<and> eip c1 = Num 0x100010 \<and>
     task_switch_code 7 (Site 5) demo_left (run_on 8 k0 c1) = Ok c3 \<and> run_child demo_left c3 = Ok c4 \<and> gpr c4 EAX = Num 0 \<and> eip c4 = Num 0x100010"
proof -
  obtain k0 where k0: "boot blank_kernel = Ok k0" "sound k0 (boot_queues 8)" "cur k0 = 8" "idle_task k0 = 9" "next_PID k0 = 2"
    "NUM_PAG_DATA \<le> length (allocatable k0)" "boot_queues 8 Free_Queue = Some (Task 7 # map Task (rev [0..<7]))" "boot_queues 8 Ready_Queue = Some []"
    by (rule started)
  let ?k = "k0\<lparr>tss_esp0 := 8\<rparr>"
  have s: "sound ?k (boot_queues 8)" by (rule same_queues_sound [OF k0(2)]) (simp_all add: same_queues_def)
  have al: "allocatable ?k = allocatable k0" by (simp add: allocatable_def)
  have len: "length (task k0) = NR_TASKS" using k0(2) by (rule soundD)
  obtain c1 where c1: "system_call_entry (\<lambda>_. sys_fork_code) demo_left demo_left demo_left (demo_core ?k) = Ok c1"
    "resumes (set_reg EAX (Num 3) (demo_core ?k)) c1"
    "\<forall>c2 n i l w. others 7 c1 c2 \<longrightarrow> runs_at c2 n i \<longrightarrow> n \<noteq> 7 \<longrightarrow> 7 < length (task (krn c2)) \<longrightarrow>
      (\<exists>c3 c4. task_switch_code 7 w l c2 = Ok c3 \<and> run_child demo_left c3 = Ok c4 \<and> resumes (set_reg EAX (Num 0) (demo_core ?k)) c4 \<and>
        cur (krn c4) = 7 \<and> tss_esp0 (krn c4) = 7)"
    using fork_returns_twice [of "demo_core ?k" "\<lambda>_. sys_fork_code" 8 "boot_queues 8" 7 "map Task (rev [0..<7])" "[]" demo_left demo_left demo_left demo_left]
      demo_simps s k0(3-8) al by auto
  have "others 7 c1 (run_on 8 k0 c1)" by (rule run_on_others) (rule others.stop)
  moreover have "runs_at (run_on 8 k0 c1) 8 1000" "7 < length (task (krn (run_on 8 k0 c1)))" using run_on_runs(1,2) len by (simp_all add: NR_TASKS_def)
  ultimately obtain c3 c4 where "task_switch_code 7 (Site 5) demo_left (run_on 8 k0 c1) = Ok c3" "run_child demo_left c3 = Ok c4"
    "resumes (set_reg EAX (Num 0) (demo_core ?k)) c4" using c1(3) by fastforce
  with k0(1) c1(1,2) show ?thesis
    by (intro exI [of _ k0] exI [of _ c1] exI [of _ c3] exI [of _ c4]) (simp add: resumes_def set_reg_def demo_simps)
qed

lemma sample_pair: "queues (sample_kernel 1 1) sample_queues" "length (task (sample_kernel 1 1)) = NR_TASKS"
  using sample_consistent(2) [of 1] by (auto simp: queues_def queues0_def)

theorem preempted_resumes_witness:
  "\<exists>c1 c3 c4. preempt demo_left [(Site 6, demo_left), (Site 7, demo_left), (Site 8, demo_left)] (Site 3) demo_left
       (prepare_child 2 (demo_core (sample_kernel 1 1))) = Ok c1 \<and> cur (krn c1) = 2 \<and> eip c1 = Code Ret_from_fork \<and>
     task_switch_code 1 (Site 5) demo_left (run_on 2 (sample_kernel 1 1) c1) = Ok c3 \<and>
     resume_irq [(Site 6, demo_left), (Site 7, demo_left), (Site 8, demo_left)] demo_left c3 = Ok c4 \<and>
     gpr c4 = (\<lambda>_. Num 7)(EAX := Num 2) \<and> eip c4 = Num 0x100010 \<and> cur (krn c4) = 1"
proof -
  let ?k = "sample_kernel 1 1" and ?fs = "[(Site 6, demo_left), (Site 7, demo_left), (Site 8, demo_left)]"
  let ?c = "prepare_child 2 (demo_core ?k)"
  have w: "waits ?c 2 1005 (Num 0) (Code Ret_from_fork)"
    by (simp add: waits_def prepare_child_def frame_Cons Let_def KERNEL_STACK_SIZE_def) (simp add: set_word_def)
  have c: "gpr ?c = gpr (demo_core ?k)" "seg ?c = seg (demo_core ?k)" "eip ?c = eip (demo_core ?k)"
    by (simp_all add: prepare_child_def set_word_def Let_def)
  have u: "user_mode ?c" using demo_simps(1) [of ?k] c(2) by (simp only: user_mode_def)
  have k: "tss_esp0 (krn ?c) = 1" "cur (krn ?c) = 1" "idle_task (krn ?c) = 0" "quantum_left (krn ?c) = 1" "queues (krn ?c) sample_queues"
    "sample_queues Ready_Queue = Some [Task 2]"
    using sample_pair(1) by (simp_all add: krn_steps demo_simps) (simp_all add: sample_kernel_def sample_queues_def)
  have z: "size_l demo_left \<le> 900" "room ?fs \<le> 900" by (simp_all add: demo_simps)
  from preempted_resumes [OF u k(1,2,5) _ k(4,6) w z(1,2) z(1), of "Site 3" demo_left] k(3) obtain c1 where
    c1: "preempt demo_left ?fs (Site 3) demo_left ?c = Ok c1" "cur (krn c1) = 2" "eip c1 = Code Ret_from_fork"
    and after: "\<forall>c2 n i l w. others 1 c1 c2 \<longrightarrow> runs_at c2 n i \<longrightarrow> n \<noteq> 1 \<longrightarrow> 1 < length (task (krn c2)) \<longrightarrow>
      (\<exists>c3 c4. task_switch_code 1 w l c2 = Ok c3 \<and> resume_irq ?fs demo_left c3 = Ok c4 \<and> resumes ?c c4 \<and> cur (krn c4) = 1 \<and> tss_esp0 (krn c4) = 1)"
    by auto
  have "others 1 c1 (run_on 2 (sample_kernel 1 1) c1)" by (rule run_on_others) (rule others.stop)
  moreover have "runs_at (run_on 2 (sample_kernel 1 1) c1) 2 1000" "1 < length (task (krn (run_on 2 (sample_kernel 1 1) c1)))"
    using run_on_runs(1,2) sample_pair(2) by (simp_all add: NR_TASKS_def)
  ultimately obtain c3 c4 where "task_switch_code 1 (Site 5) demo_left (run_on 2 (sample_kernel 1 1) c1) = Ok c3" "resume_irq ?fs demo_left c3 = Ok c4"
    "resumes ?c c4" "cur (krn c4) = 1" using after by fastforce
  moreover from this(3) have "gpr c4 = (\<lambda>_. Num 7)(EAX := Num 2)" "eip c4 = Num 0x100010" unfolding resumes_def c by (simp_all add: demo_core_def)
  ultimately show ?thesis using c1 by blast
qed

theorem idle_goes_on_witness:
  "\<exists>c2 c3. task_switch_code 9 (Site 5) demo_left (run_on 3 (sample_kernel 1 1) (prepare_idle 9 (demo_core blank_kernel))) = Ok c2 \<and> eip c2 = Code Cpu_idle \<and>
     irq_handler Ok demo_left demo_left demo_left (cpu_idle c2) = Ok c3 \<and> resumes (cpu_idle c2) c3 \<and> cur (krn c3) = 9"
proof -
  have "others 9 (prepare_idle 9 (demo_core blank_kernel)) (run_on 3 (sample_kernel 1 1) (prepare_idle 9 (demo_core blank_kernel)))"
    by (rule run_on_others) (rule others.stop)
  moreover have "runs_at (run_on 3 (sample_kernel 1 1) (prepare_idle 9 (demo_core blank_kernel))) 3 1000"
    "9 < length (task (krn (run_on 3 (sample_kernel 1 1) (prepare_idle 9 (demo_core blank_kernel)))))"
    using run_on_runs(1,2) sample_pair(2) by (simp_all add: NR_TASKS_def)
  ultimately show ?thesis using idle_goes_on [of 9 "demo_core blank_kernel" "run_on 3 (sample_kernel 1 1) (prepare_idle 9 (demo_core blank_kernel))" 3 1000
      demo_left demo_left demo_left Ok "Site 5" demo_left] run_on_runs(3) demo_simps(5) by auto
qed

text \<open>
  C14: an interrupt does not show. A handler whose routine switches to no other task leaves every register, segment,
  flag and the instruction pointer as the interrupt found them, whether it came in user or in kernel mode, and nothing
  on any stack but below the interrupted one.
\<close>

theorem interrupt_does_not_show:
  assumes "entered_at c n i" "i \<le> KERNEL_STACK_SIZE" "n < length (task (krn c))"
    and "PCB_WORDS + 29 + size_l l1 < i" "PCB_WORDS + 29 + size_l l2 < i" "PCB_WORDS + 29 + size_l l3 < i"
    and "\<And>k. times_only (krn c) k \<Longrightarrow> cur k = n \<Longrightarrow> \<exists>k'. f k = Ok k' \<and> length (task k') = length (task k)"
  shows "\<exists>c'. irq_handler f l1 l2 l3 c = Ok c' \<and> resumes c c' \<and> below n i c c' \<and> cur (krn c') = n"
  by (rule irq_Ok [OF assms(1,4,2,3,5,6)]) (rule assms(7))

theorem interrupt_does_not_show_witness:
  "(\<exists>c'. irq_handler Ok demo_left demo_left demo_left (demo_core (sample_kernel 1 1)) = Ok c' \<and> gpr c' = (\<lambda>_. Num 7)(EAX := Num 2)) \<and>
   (\<exists>c'. irq_handler Ok demo_left demo_left demo_left (run_on 3 (sample_kernel 1 1) (demo_core blank_kernel)) = Ok c' \<and> gpr c' ESP = Stk 3 1000)"
proof
  let ?c = "demo_core (sample_kernel 1 1)" and ?d = "run_on 3 (sample_kernel 1 1) (demo_core blank_kernel)"
  have tss: "tss_esp0 (sample_kernel 1 1) = 1" by (simp add: sample_kernel_def)
  have "entered_at ?c 1 KERNEL_STACK_SIZE" using user_entered [OF demo_simps(1) [of "sample_kernel 1 1"]] tss by (simp add: demo_simps)
  moreover have "entered_at ?d 3 1000" using run_on_runs(1,3) [of 3 "sample_kernel 1 1" "demo_core blank_kernel"] sample_pair(2)
    by (simp add: entered_at_def runs_at_def NR_TASKS_def)
  moreover have "1 < length (task (krn ?c))" "3 < length (task (krn ?d))" using sample_pair(2) by (simp_all add: demo_simps run_on_runs NR_TASKS_def)
  ultimately have "\<exists>c'. irq_handler Ok demo_left demo_left demo_left ?c = Ok c' \<and> resumes ?c c'" "\<exists>c'. irq_handler Ok demo_left demo_left demo_left ?d = Ok c' \<and> resumes ?d c'"
    using interrupt_does_not_show [of ?c 1 KERNEL_STACK_SIZE demo_left demo_left demo_left Ok] interrupt_does_not_show [of ?d 3 1000 demo_left demo_left demo_left Ok]
    by (auto simp: demo_simps PCB_WORDS_def KERNEL_STACK_SIZE_def)
  then show "\<exists>c'. irq_handler Ok demo_left demo_left demo_left ?c = Ok c' \<and> gpr c' = (\<lambda>_. Num 7)(EAX := Num 2)"
    "\<exists>c'. irq_handler Ok demo_left demo_left demo_left ?d = Ok c' \<and> gpr c' ESP = Stk 3 1000"
    by (auto simp: resumes_def demo_core_def run_on_def)
qed

theorem thread_starts_witness:
  "\<exists>k0 c0 c1 c3 c4. boot blank_kernel = Ok k0 \<and>
     c0 = set_reg EAX (Num 19) (set_reg EBX (Num 0x101000) (set_reg ECX (Num 0x109000) (demo_core (k0\<lparr>tss_esp0 := 8\<rparr>)))) \<and>
     system_call_entry (\<lambda>_. call_clone_code) demo_left demo_left demo_left c0 = Ok c1 \<and> gpr c1 EAX = Num 3 \<and> eip c1 = Num 0x100010 \<and>
     task_switch_code 7 (Site 5) demo_left (run_on 8 k0 c1) = Ok c3 \<and> run_child demo_left c3 = Ok c4 \<and> eip c4 = Num 0x101000 \<and> gpr c4 ESP = Num 0x109000"
proof -
  obtain k0 where k0: "boot blank_kernel = Ok k0" "sound k0 (boot_queues 8)" "cur k0 = 8" "next_PID k0 = 2"
    "boot_queues 8 Free_Queue = Some (Task 7 # map Task (rev [0..<7]))" "boot_queues 8 Ready_Queue = Some []"
    by (rule started)
  let ?k = "k0\<lparr>tss_esp0 := 8\<rparr>"
  define c0 where "c0 = set_reg EAX (Num 19) (set_reg EBX (Num 0x101000) (set_reg ECX (Num 0x109000) (demo_core ?k)))"
  have s: "sound ?k (boot_queues 8)" by (rule same_queues_sound [OF k0(2)]) (simp_all add: same_queues_def)
  have len: "length (task k0) = NR_TASKS" using k0(2) by (rule soundD)
  have c: "user_mode c0" "gpr c0 EAX = Num 19" "gpr c0 EBX = Num 0x101000" "gpr c0 ECX = Num 0x109000" "krn c0 = ?k" "eip c0 = Num 0x100010"
    using demo_simps(1) [of ?k] by (simp_all add: c0_def set_reg_def user_mode_def demo_simps)
  have args: "access_ok VERIFY_READ 0x101000 4 \<noteq> 0" "access_ok VERIFY_WRITE 0x109000 4 \<noteq> 0"
    by (simp_all add: access_ok_def VERIFY_READ_def VERIFY_WRITE_def USER_FIRST_PAGE_def NUM_PAG_CODE_def NUM_PAG_DATA_def Let_def)
  obtain c1 where c1: "system_call_entry (\<lambda>_. call_clone_code) demo_left demo_left demo_left c0 = Ok c1" "resumes (set_reg EAX (Num 3) c0) c1"
    "\<forall>c2 n i l w. others 7 c1 c2 \<longrightarrow> runs_at c2 n i \<longrightarrow> n \<noteq> 7 \<longrightarrow> 7 < length (task (krn c2)) \<longrightarrow>
      (\<exists>c3 c4. task_switch_code 7 w l c2 = Ok c3 \<and> run_child demo_left c3 = Ok c4 \<and> resumes (set_reg EAX (Num 0) (thread_start 0x101000 0x109000 c0)) c4 \<and>
        cur (krn c4) = 7 \<and> tss_esp0 (krn c4) = 7)"
    using thread_starts [of c0 "0x101000" "0x109000" "\<lambda>_. call_clone_code" 8 "boot_queues 8" 7 "map Task (rev [0..<7])" "[]" demo_left demo_left demo_left demo_left]
      c s k0(3-6) args demo_simps(5) by auto
  have "others 7 c1 (run_on 8 k0 c1)" by (rule run_on_others) (rule others.stop)
  moreover have "runs_at (run_on 8 k0 c1) 8 1000" "7 < length (task (krn (run_on 8 k0 c1)))" using run_on_runs(1,2) len by (simp_all add: NR_TASKS_def)
  ultimately obtain c3 c4 where "task_switch_code 7 (Site 5) demo_left (run_on 8 k0 c1) = Ok c3" "run_child demo_left c3 = Ok c4"
    "resumes (set_reg EAX (Num 0) (thread_start 0x101000 0x109000 c0)) c4" using c1(3) by fastforce
  with k0(1) c1(1,2) c(6) show ?thesis
    by (intro exI [of _ k0] exI [of _ c0] exI [of _ c1] exI [of _ c3] exI [of _ c4]) (simp add: resumes_def thread_start_def set_reg_def c0_def)
qed

end
