(* ===== verification/Sched_Support.thy ===== *)
theory Sched_Support
  imports System_Calls
begin

text \<open>
  The support library soa_supportE3: a first-come-first-served scheduler (zeos_sched.c), the choice of the policy and
  another \<open>sys_read\<close> (zeos_sys.c), a console whose reads last a number of ticks (zeos_devices.c), and the stubs of both
  calls (zeos_libc.c). The library is built for kernels that define \<open>get_task_stats\<close>, \<open>get_task_list\<close>, \<open>block_process\<close>
  and \<open>unblock_process\<close>; sched.c does not, so they are parameters.
\<close>

section \<open>First come, first served\<close>

text \<open>The two readings of the clock: the ready time, then the new mark.\<close>

definition ready_time :: "nat \<Rightarrow> kernel \<Rightarrow> kernel res" where
  "ready_time st k =
     bind (read_clock k) (\<lambda>(a, k).
     bind (set_task st (\<lambda>t. t\<lparr>stats := (stats t)\<lparr>ready_ticks := ready_ticks (stats t) + (a - elapsed_total_ticks (stats t))\<rparr>\<rparr>) k) (\<lambda>k.
     bind (read_clock k) (\<lambda>(b, k).
     set_task st (\<lambda>t. t\<lparr>stats := (stats t)\<lparr>elapsed_total_ticks := b\<rparr>\<rparr>) k)))"

definition sched_next_fcfs :: "(nat \<Rightarrow> nat) \<Rightarrow> kernel \<Rightarrow> kernel res" where
  "sched_next_fcfs get_task_stats k =
     bind (list_empty (links k) Ready_Queue) (\<lambda>e.
     bind (if \<not> e then
             bind (list_first (links k) Ready_Queue) (\<lambda>l.
             bind (on_lists (list_del l) k) (\<lambda>k.
             bind (list_head_to_task_struct l) (\<lambda>t. Ok (t, k))))
           else Ok (idle_task k, k)) (\<lambda>(t, k).
     bind (ready_time (get_task_stats t) k) (task_switch t)))"

definition update_process_state_fcfs :: "(nat \<Rightarrow> node) \<Rightarrow> nat \<Rightarrow> node \<Rightarrow> kernel \<Rightarrow> kernel res" where
  "update_process_state_fcfs get_task_list t dest_queue k =
     (let src = get_task_list t in
      bind (if nxt (links k) src \<noteq> NULL then on_lists (list_del src) k else Ok k) (\<lambda>k.
      if dest_queue \<noteq> NULL \<and> t \<noteq> idle_task k then on_lists (list_add_tail src dest_queue) k else Ok k))"

definition needs_sched_fcfs :: "kernel \<Rightarrow> int res" where
  "needs_sched_fcfs k = (if cur k = idle_task k then bind (list_empty (links k) Ready_Queue) (\<lambda>e. Ok (if \<not> e then 1 else 0)) else Ok 0)"

definition update_sched_data_fcfs :: "kernel \<Rightarrow> kernel" where "update_sched_data_fcfs k = k"

section \<open>The policy\<close>

text \<open>The four function pointers: each is the function of one of the two policies.\<close>

datatype policy = Rr | Fcfs

record pointers =
  p_sched_next :: policy
  p_update_process_state :: policy
  p_needs_sched :: policy
  p_update_sched_data :: policy

definition init_sched_policy :: "pointers \<Rightarrow> pointers" where
  "init_sched_policy p = p\<lparr>p_sched_next := Fcfs, p_update_process_state := Fcfs, p_needs_sched := Fcfs, p_update_sched_data := Fcfs\<rparr>"

definition sys_set_sched_policy :: "int \<Rightarrow> pointers \<Rightarrow> int \<times> pointers" where
  "sys_set_sched_policy n p =
     (if n \<noteq> 0 \<and> n \<noteq> 1 then (-EINVAL, p)
      else if n = 0 then (0, p\<lparr>p_sched_next := Rr, p_update_process_state := Rr, p_needs_sched := Rr, p_update_sched_data := Rr\<rparr>)
      else (0, p\<lparr>p_sched_next := Fcfs, p_update_process_state := Fcfs, p_needs_sched := Fcfs, p_update_sched_data := Fcfs\<rparr>))"

section \<open>The console\<close>

definition EAGAIN :: int where "EAGAIN = 11"

record iorb =
  iorb_t :: nat
  io_ticks :: int

text \<open>The anchor of \<open>iorbs[i]\<close> is \<open>Iorb i\<close>.\<close>

record support =
  skern :: kernel
  iorbs :: "iorb list"

definition on_links :: "(links \<Rightarrow> links res) \<Rightarrow> support \<Rightarrow> support res" where
  "on_links f s = bind (on_lists f (skern s)) (\<lambda>k. Ok (s\<lparr>skern := k\<rparr>))"

fun list_entry_iorb :: "node \<Rightarrow> nat res" where
  "list_entry_iorb (Iorb i) = Ok i"
| "list_entry_iorb NULL = Fault NullPointer"
| "list_entry_iorb _ = Fault OutOfBounds"

definition set_iorb :: "nat \<Rightarrow> (iorb \<Rightarrow> iorb) \<Rightarrow> support \<Rightarrow> support res" where
  "set_iorb i f s = bind (aget (iorbs s) i) (\<lambda>x. bind (aput (iorbs s) i (f x)) (\<lambda>xs. Ok (s\<lparr>iorbs := xs\<rparr>)))"

definition zeos_console_init :: "support \<Rightarrow> support res" where
  "zeos_console_init s =
     bind (on_links (INIT_LIST_HEAD Pending_Reads) s) (\<lambda>s.
     bind (on_links (INIT_LIST_HEAD Console_Blocked) s) (\<lambda>s.
     bind (on_links (INIT_LIST_HEAD Free_Iorbs) s) (\<lambda>s.
     bind (for_each [0..<NR_TASKS] (\<lambda>i s. bind (on_links (list_add (Iorb i) Free_Iorbs) s) (\<lambda>s. Ok (Inl s))) s) (\<lambda>r.
     Ok (last_state r)))))"

definition zeos_read_console_emul :: "(node \<Rightarrow> support \<Rightarrow> support res) \<Rightarrow> int \<Rightarrow> support \<Rightarrow> (int \<times> support) res" where
  "zeos_read_console_emul block_process nticks s =
     bind (list_empty (links (skern s)) Free_Iorbs) (\<lambda>e. if e then Ok (-EAGAIN, s) else
     bind (list_first (links (skern s)) Free_Iorbs) (\<lambda>l.
     bind (list_entry_iorb l) (\<lambda>io.
     bind (on_links (list_del (Iorb io)) s) (\<lambda>s.
     bind (set_iorb io (\<lambda>x. x\<lparr>io_ticks := nticks\<rparr>) s) (\<lambda>s.
     bind (set_iorb io (\<lambda>x. x\<lparr>iorb_t := cur (skern s)\<rparr>) s) (\<lambda>s.
     bind (on_links (list_add_tail (Iorb io) Pending_Reads) s) (\<lambda>s.
     bind (block_process Console_Blocked s) (\<lambda>s. Ok (nticks, s)))))))))"

definition sys_read_console :: "(node \<Rightarrow> support \<Rightarrow> support res) \<Rightarrow> int \<Rightarrow> support \<Rightarrow> (int \<times> support) res" where
  "sys_read_console block_process n s = zeos_read_console_emul block_process n s"

definition support_sys_read :: "(node \<Rightarrow> support \<Rightarrow> support res) \<Rightarrow> int \<Rightarrow> int \<Rightarrow> support \<Rightarrow> (int \<times> support) res" where
  "support_sys_read block_process f n s =
     (if f \<noteq> 0 then Ok (-EBADF, s) else if n < 0 then Ok (-EINVAL, s) else sys_read_console block_process n s)"

definition zeos_update_read_console_emul :: "(nat \<Rightarrow> support \<Rightarrow> support res) \<Rightarrow> support \<Rightarrow> support res" where
  "zeos_update_read_console_emul unblock_process s =
     bind (list_empty (links (skern s)) Pending_Reads) (\<lambda>e. if e then Ok s else
     bind (list_first (links (skern s)) Pending_Reads) (\<lambda>l.
     bind (list_entry_iorb l) (\<lambda>i.
     bind (set_iorb i (\<lambda>x. x\<lparr>io_ticks := io_ticks x - 1\<rparr>) s) (\<lambda>s.
     bind (aget (iorbs s) i) (\<lambda>x.
     if io_ticks x \<le> 0 then
       bind (on_links (list_del (Iorb i)) s) (\<lambda>s.
       bind (on_links (list_add (Iorb i) Free_Iorbs) s) (\<lambda>s.
       unblock_process (iorb_t x) s))
     else Ok s)))))"

section \<open>The address space of a single process\<close>

text \<open>\<open>monoprocess_init_addr_space\<close> of zeos_mm.c, for kernels with one process: its task is the first one.\<close>

definition monoprocess_init_addr_space :: "kernel \<Rightarrow> kernel res" where
  "monoprocess_init_addr_space k = bind (set_user_pages 0 k) (\<lambda>k. bind (get_DIR 0 k) (\<lambda>d. Ok (k\<lparr>cr3 := d\<rparr>)))"

section \<open>The stubs\<close>

definition support_read :: "'d blockdev \<Rightarrow> dword \<Rightarrow> dword \<Rightarrow> dword \<Rightarrow> 'd machine \<Rightarrow> (answer \<times> 'd machine) res" where
  "support_read dev f buf n = int_0x80 dev 3 f buf n"
definition set_sched_policy :: "'d blockdev \<Rightarrow> dword \<Rightarrow> 'd machine \<Rightarrow> (answer \<times> 'd machine) res" where
  "set_sched_policy dev policy_id = int_0x80 dev 17 policy_id 0 0"

section \<open>What the policy promises\<close>

lemma ready_time_Ok:
  "st < length (task k) \<Longrightarrow> \<exists>k'. ready_time st k = Ok k' \<and> same_queues k k' \<and> cur k' = cur k \<and> quantum_left k' = quantum_left k"
  using read_clock_Ok [of k] read_clock_Ok
  by (fastforce simp: ready_time_def set_task_Ok same_queues_def nth_list_update)

text \<open>
  Under this policy the clock takes the processor from no process but the idle one; when the process leaves by itself the
  one that has waited longest runs, as with round robin.
\<close>

lemma fcfs_never_preempts: "cur k \<noteq> idle_task k \<Longrightarrow> needs_sched_fcfs (update_sched_data_fcfs k) = Ok 0"
  by (simp add: needs_sched_fcfs_def update_sched_data_fcfs_def)

lemma update_process_state_same: "update_process_state_fcfs Task = update_process_state_rr"
  by (simp add: fun_eq_iff update_process_state_fcfs_def update_process_state_rr_def Let_def)

lemma fcfs_serves_in_order:
  assumes "queues0 k Q" and "Q Ready_Queue = Some rs"
  shows "\<exists>k'. sched_next_fcfs id k = Ok k' \<and> Task (cur k') = hd (rs @ [Task (idle_task k)]) \<and> holds_lists (links k') (Q(Ready_Queue \<mapsto> tl rs)) \<and>
    quantum_left k' = quantum_left k \<and> same_queues (k\<lparr>links := links k'\<rparr>) k'"
proof -
  note q = queues0D [OF assms(1)]
  note e = lists.empty_law [OF q(1) assms(2)]
  have switch: "\<exists>k'. bind (ready_time t k1) (task_switch t) = Ok k' \<and> cur k' = t \<and> same_queues k1 k' \<and> quantum_left k' = quantum_left k1"
    if t: "t < length (task k1)" "cur k1 < length (task k1)" for t k1
  proof -
    from ready_time_Ok [OF t(1)] obtain k2 where k2: "ready_time t k1 = Ok k2" "same_queues k1 k2" "cur k2 = cur k1" "quantum_left k2 = quantum_left k1" by blast
    then have "t < length (task k2)" "cur k2 < length (task k2)" using t by (simp_all add: same_queues_def)
    from task_switch_Ok [OF this] k2 same_queues_trans [OF k2(2)] show ?thesis by fastforce
  qed
  show ?thesis
  proof (cases rs)
    case Nil
    from switch [of "idle_task k" k] q(2-4) obtain k' where "bind (ready_time (idle_task k) k) (task_switch (idle_task k)) = Ok k'" "cur k' = idle_task k"
      "same_queues k k'" "quantum_left k' = quantum_left k" by auto
    moreover have "Q(Ready_Queue \<mapsto> tl rs) = Q" using assms(2) Nil by auto
    ultimately show ?thesis using Nil e q(1) by (intro exI [of _ k']) (auto simp: sched_next_fcfs_def same_queues_def)
  next
    case (Cons x xs)
    then obtain i where i: "x = Task i" "i < NR_TASKS" using q(6) [OF assms(2)] by auto
    from lists.del_law [OF q(1), of Ready_Queue "[]" x xs] assms(2) Cons obtain h where
      h: "list_del x (links k) = Ok h" "holds_lists h (Q(Ready_Queue \<mapsto> xs))" by auto
    have f: "list_first (links k) Ready_Queue = Ok x" using lists.first_law [OF q(1)] assms(2) Cons by simp
    from switch [of i "k\<lparr>links := h\<rparr>"] q(2-4) i(2) obtain k' where k': "bind (ready_time i (k\<lparr>links := h\<rparr>)) (task_switch i) = Ok k'" "cur k' = i"
      "same_queues (k\<lparr>links := h\<rparr>) k'" "quantum_left k' = quantum_left k" by auto
    then have "links k' = h" by (simp add: same_queues_def)
    with Cons e f h k' i show ?thesis by (intro exI [of _ k']) (auto simp: sched_next_fcfs_def on_lists_def)
  qed
qed

lemma policy_set:
  "n \<in> {0, 1} \<Longrightarrow> fst (sys_set_sched_policy n p) = 0 \<and> p_sched_next (snd (sys_set_sched_policy n p)) = (if n = 0 then Rr else Fcfs)"
  "n \<notin> {0, 1} \<Longrightarrow> sys_set_sched_policy n p = (-EINVAL, p)"
  by (auto simp: sys_set_sched_policy_def)

section \<open>What the console promises\<close>

lemma on_links_Ok: "f (links (skern s)) = Ok h \<Longrightarrow> on_links f s = Ok (s\<lparr>skern := (skern s)\<lparr>links := h\<rparr>\<rparr>)"
  by (simp add: on_links_def on_lists_def)

lemma set_iorb_Ok: "i < length (iorbs s) \<Longrightarrow> set_iorb i f s = Ok (s\<lparr>iorbs := (iorbs s)[i := f (iorbs s ! i)]\<rparr>)"
  by (simp add: set_iorb_def)

text \<open>A read takes the first free request and waits behind all others; without one it answers \<open>-EAGAIN\<close>.\<close>

lemma read_queues:
  assumes q: "holds_lists (links (skern s)) Q" "Q Free_Iorbs = Some (Iorb i # fs)" "Q Pending_Reads = Some ps" and i: "i < length (iorbs s)"
  shows "\<exists>h. zeos_read_console_emul block_process n s =
      bind (block_process Console_Blocked (s\<lparr>iorbs := (iorbs s)[i := (iorbs s ! i)\<lparr>io_ticks := n, iorb_t := cur (skern s)\<rparr>], skern := (skern s)\<lparr>links := h\<rparr>\<rparr>)) (\<lambda>s. Ok (n, s)) \<and>
    holds_lists h (Q(Free_Iorbs \<mapsto> fs, Pending_Reads \<mapsto> ps @ [Iorb i]))"
proof -
  have e: "list_empty (links (skern s)) Free_Iorbs = Ok False" "list_first (links (skern s)) Free_Iorbs = Ok (Iorb i)"
    using lists.empty_law [OF q(1,2)] lists.first_law [OF q(1,2)] by simp_all
  from lists.del_law [OF q(1), of Free_Iorbs "[]" "Iorb i" fs] q(2) obtain h1 where
    h1: "list_del (Iorb i) (links (skern s)) = Ok h1" "holds_lists h1 (Q(Free_Iorbs \<mapsto> fs))" by auto
  have "free_node (Q(Free_Iorbs \<mapsto> fs)) (Iorb i)" using lists.removed_free [OF q(1), of Free_Iorbs "[]" "Iorb i" fs] q(2) by simp
  from lists.add_tail_law [OF h1(2) _ _ this, of Pending_Reads ps] q(3) obtain h2 where
    h2: "list_add_tail (Iorb i) Pending_Reads h1 = Ok h2" "holds_lists h2 (Q(Free_Iorbs \<mapsto> fs, Pending_Reads \<mapsto> ps @ [Iorb i]))" by auto
  show ?thesis using e h1(1) h2 i
    by (intro exI [of _ h2]) (simp add: zeos_read_console_emul_def on_links_Ok set_iorb_Ok)
qed

fun updates :: "(nat \<Rightarrow> support \<Rightarrow> support res) \<Rightarrow> nat \<Rightarrow> support \<Rightarrow> support res" where
  "updates u 0 s = Ok s"
| "updates u (Suc n) s = bind (zeos_update_read_console_emul u s) (updates u n)"

lemma update_waits:
  assumes q: "holds_lists (links (skern s)) Q" "Q Pending_Reads = Some (Iorb i # ps)" and i: "i < length (iorbs s)" "1 < io_ticks (iorbs s ! i)"
  shows "zeos_update_read_console_emul u s = Ok (s\<lparr>iorbs := (iorbs s)[i := (iorbs s ! i)\<lparr>io_ticks := io_ticks (iorbs s ! i) - 1\<rparr>]\<rparr>)"
  using lists.empty_law [OF q] lists.first_law [OF q] i by (simp add: zeos_update_read_console_emul_def set_iorb_Ok)

lemma update_ends:
  assumes q: "holds_lists (links (skern s)) Q" "Q Pending_Reads = Some (Iorb i # ps)" "Q Free_Iorbs = Some fs" and i: "i < length (iorbs s)" "io_ticks (iorbs s ! i) \<le> 1"
  shows "\<exists>h. zeos_update_read_console_emul u s = u (iorb_t (iorbs s ! i)) (s\<lparr>iorbs := (iorbs s)[i := (iorbs s ! i)\<lparr>io_ticks := io_ticks (iorbs s ! i) - 1\<rparr>],
      skern := (skern s)\<lparr>links := h\<rparr>\<rparr>) \<and>
    holds_lists h (Q(Pending_Reads \<mapsto> ps, Free_Iorbs \<mapsto> Iorb i # fs))"
proof -
  from lists.del_law [OF q(1), of Pending_Reads "[]" "Iorb i" ps] q(2) obtain h1 where
    h1: "list_del (Iorb i) (links (skern s)) = Ok h1" "holds_lists h1 (Q(Pending_Reads \<mapsto> ps))" by auto
  have "free_node (Q(Pending_Reads \<mapsto> ps)) (Iorb i)" using lists.removed_free [OF q(1), of Pending_Reads "[]" "Iorb i" ps] q(2) by simp
  from lists.add_law [OF h1(2) _ _ this, of Free_Iorbs fs] q(3) obtain h2 where
    h2: "list_add (Iorb i) Free_Iorbs h1 = Ok h2" "holds_lists h2 (Q(Pending_Reads \<mapsto> ps, Free_Iorbs \<mapsto> Iorb i # fs))" by auto
  show ?thesis using lists.empty_law [OF q(1,2)] lists.first_law [OF q(1,2)] h1(1) h2 i
    by (intro exI [of _ h2]) (simp add: zeos_update_read_console_emul_def set_iorb_Ok on_links_Ok)
qed

text \<open>
  C38: a read of the console ends when its ticks are over, in the order of the reads. While the first request has
  ticks left an update counts one of them and wakes nobody; the last of its ticks gives the request back to the front
  of the free ones and wakes the process that asked, and the next request is the first.
\<close>

theorem reads_end_in_order:
  assumes q: "holds_lists (links (skern s)) Q" "Q Pending_Reads = Some (Iorb i # ps)" "Q Free_Iorbs = Some fs"
    and i: "i < length (iorbs s)" "io_ticks (iorbs s ! i) = int n" "0 < n"
  shows "(\<forall>m < n. \<exists>s'. updates u m s = Ok s' \<and> skern s' = skern s \<and> io_ticks (iorbs s' ! i) = int (n - m)) \<and>
    (\<exists>h s'. updates u n s = u (iorb_t (iorbs s ! i)) s' \<and> skern s' = (skern s)\<lparr>links := h\<rparr> \<and> io_ticks (iorbs s' ! i) = 0 \<and>
      holds_lists h (Q(Pending_Reads \<mapsto> ps, Free_Iorbs \<mapsto> Iorb i # fs)))"
  using q i
proof (induction n arbitrary: s)
  case (Suc n)
  show ?case
  proof (cases "n = 0")
    case True
    with update_ends [OF Suc.prems(1-4), of u] Suc.prems(5) obtain h where h: "zeos_update_read_console_emul u s =
        u (iorb_t (iorbs s ! i)) (s\<lparr>iorbs := (iorbs s)[i := (iorbs s ! i)\<lparr>io_ticks := 0\<rparr>], skern := (skern s)\<lparr>links := h\<rparr>\<rparr>)"
      "holds_lists h (Q(Pending_Reads \<mapsto> ps, Free_Iorbs \<mapsto> Iorb i # fs))" by auto
    have "updates u 0 = Ok" by (rule ext) simp
    then have "updates u 1 s = zeos_update_read_console_emul u s" by simp
    with h True Suc.prems(4,5) show ?thesis by fastforce
  next
    case False
    let ?s = "s\<lparr>iorbs := (iorbs s)[i := (iorbs s ! i)\<lparr>io_ticks := io_ticks (iorbs s ! i) - 1\<rparr>]\<rparr>"
    have up: "zeos_update_read_console_emul u s = Ok ?s" using update_waits [OF Suc.prems(1,2,4)] Suc.prems(5) False by simp
    have IH: "(\<forall>m < n. \<exists>s'. updates u m ?s = Ok s' \<and> skern s' = skern ?s \<and> io_ticks (iorbs s' ! i) = int (n - m)) \<and>
      (\<exists>h s'. updates u n ?s = u (iorb_t (iorbs ?s ! i)) s' \<and> skern s' = (skern ?s)\<lparr>links := h\<rparr> \<and> io_ticks (iorbs s' ! i) = 0 \<and>
        holds_lists h (Q(Pending_Reads \<mapsto> ps, Free_Iorbs \<mapsto> Iorb i # fs)))"
      by (rule Suc.IH) (use Suc.prems False in simp_all)
    have "\<exists>s'. updates u m s = Ok s' \<and> skern s' = skern s \<and> io_ticks (iorbs s' ! i) = int (Suc n - m)" if "m < Suc n" for m
      using that IH up Suc.prems(5) by (cases m) auto
    moreover have step: "updates u (Suc n) s = updates u n ?s" using up by simp
    have "iorb_t (iorbs ?s ! i) = iorb_t (iorbs s ! i)" "skern ?s = skern s" using Suc.prems(4) by simp_all
    then have "\<exists>h s'. updates u (Suc n) s = u (iorb_t (iorbs s ! i)) s' \<and> skern s' = (skern s)\<lparr>links := h\<rparr> \<and> io_ticks (iorbs s' ! i) = 0 \<and>
        holds_lists h (Q(Pending_Reads \<mapsto> ps, Free_Iorbs \<mapsto> Iorb i # fs))" unfolding step using IH by metis
    ultimately show ?thesis by blast
  qed
qed simp

text \<open>Two reads: task 2 asked for two ticks, task 3 behind it for one.\<close>

definition demo_support :: support where
  "demo_support = \<lparr>skern = (sample_kernel 0 1)\<lparr>links := \<lparr>
     nxt = (\<lambda>_. NULL)(Pending_Reads := Iorb 0, Iorb 0 := Iorb 1, Iorb 1 := Pending_Reads, Free_Iorbs := Free_Iorbs),
     prv = (\<lambda>_. NULL)(Pending_Reads := Iorb 1, Iorb 0 := Pending_Reads, Iorb 1 := Iorb 0, Free_Iorbs := Free_Iorbs)\<rparr>\<rparr>,
     iorbs = [\<lparr>iorb_t = 2, io_ticks = 2\<rparr>, \<lparr>iorb_t = 3, io_ticks = 1\<rparr>]\<rparr>"

definition demo_requests :: "node \<rightharpoonup> node list" where
  "demo_requests = [Pending_Reads \<mapsto> [Iorb 0, Iorb 1], Free_Iorbs \<mapsto> []]"

lemma demo_requests: "holds_lists (links (skern demo_support)) demo_requests"
proof -
  have Q: "demo_requests q = Some xs \<longleftrightarrow> q = Pending_Reads \<and> xs = [Iorb 0, Iorb 1] \<or> q = Free_Iorbs \<and> xs = []" for q xs
    by (auto simp: demo_requests_def)
  have free: "free_node demo_requests x \<longleftrightarrow> x \<notin> {Pending_Reads, Iorb 0, Iorb 1, Free_Iorbs}" for x
    unfolding free_node_def Q by auto
  show ?thesis
    unfolding holds_lists_def free separate_def Q
    by (auto simp: demo_support_def is_list_def)
qed

theorem reads_end_in_order_witness:
  "\<exists>s1 s2. updates (\<lambda>t s. Ok (s\<lparr>skern := (skern s)\<lparr>cur := t\<rparr>\<rparr>)) 1 demo_support = Ok s1 \<and> cur (skern s1) = 0 \<and>
     updates (\<lambda>t s. Ok (s\<lparr>skern := (skern s)\<lparr>cur := t\<rparr>\<rparr>)) 2 demo_support = Ok s2 \<and> cur (skern s2) = 2"
proof -
  let ?u = "\<lambda>t s. Ok (s\<lparr>skern := (skern s)\<lparr>cur := t\<rparr>\<rparr>)"
  have d: "demo_requests Pending_Reads = Some (Iorb 0 # [Iorb 1])" "demo_requests Free_Iorbs = Some []" "0 < length (iorbs demo_support)"
    "io_ticks (iorbs demo_support ! 0) = int 2" "iorb_t (iorbs demo_support ! 0) = 2" "cur (skern demo_support) = 0"
    by (simp_all add: demo_requests_def demo_support_def sample_kernel_def)
  have "(0 :: nat) < 2" by simp
  note r = reads_end_in_order [OF demo_requests d(1-4) this, of ?u]
  from conjunct1 [OF r, rule_format, of 1] obtain s1 where "updates ?u 1 demo_support = Ok s1" "cur (skern s1) = 0" using d(6) by (auto simp del: updates.simps)
  moreover from r obtain s2 where "updates ?u 2 demo_support = Ok s2" "cur (skern s2) = 2" using d(5) by fastforce
  ultimately show ?thesis by blast
qed

text \<open>The numbers of the library are other calls in the table of this kernel: its stubs would reach \<open>sys_getstats\<close> and nothing.\<close>

lemma support_stubs:
  "support_read dev f buf n = libc_call (call_getstats f buf n)"
  "set_sched_policy dev p = libc_call (call_ni p 0 0)"
  using int_0x80_calls [of 3 3 dev f buf n] int_0x80_calls [of 17 17 dev p 0 0] table_entries(3) [of dev] table_ni [of 17 dev]
  by (simp_all add: support_read_def set_sched_policy_def)

end
