(* ===== verification/Spec2Isabelle.thy ===== *)
theory Spec2Isabelle
  imports Kernel_Zsem System_Start User_Program Kernel_Tasks Sched_Support
begin

text \<open>
  A verification development for ZeOS_Filesystem: a FAT32 file system (src/file-system/fat32.c) and
  an IDE disk driver (src/disk-driver/ide.c) inside the teaching kernel ZeOS (src/zeos_full).

  The parts and their theories, in the order they are built:

  \<^item> \<open>Prelude\<close>: machine integers (\<open>byte\<close>, \<open>word16\<close>, \<open>dword\<close>), the result type \<open>'a res\<close> with its faults
    (an access outside an array, a null pointer, an uninitialised array, a division by zero, a
    loop that never ends), bounds-checked array access, and two kinds of loops: \<open>for_each\<close> over a
    list of indices and \<open>loop\<close>, a partial function whose endless runs are \<open>Fault Diverges\<close>. No
    fuel is used anywhere.
  \<^item> \<open>Text\<close>: \<open>strlen\<close>, the three copies of \<open>itoa\<close> and \<open>itoahex\<close> (libc.c, zeos_interrupt.c, fat32.c,
    utils.c).
  \<^item> \<open>Block_Device\<close>: the interface between driver and file system as a locale: reading and writing
    blocks of 512 bytes.
  \<^item> \<open>Ide_Driver\<close>: ide.c over a parameter \<open>'d ports\<close> (the port instructions and the disk behind
    them). The locale \<open>ata_device\<close> states the part of the ATA protocol the driver relies on, is
    interpreted by a device with any latency (\<open>ata\<close>), and is a sublocale of \<open>block_device\<close>.
  \<^item> \<open>Fat32_Layout\<close> (boot sector, directory entries), \<open>Fat32_Table\<close> (the file allocation table),
    \<open>Fat32_Path\<close> and \<open>Fat32_Search\<close> (\<open>searchFile\<close>), \<open>Fat32_Dir\<close>, \<open>Fat32_Create\<close>, \<open>Fat32_Delete\<close>
    (\<open>createFile\<close>, \<open>deleteFile\<close>), \<open>Fat32_File\<close> (\<open>readFile\<close>, \<open>writeFile\<close>): fat32.c function by function
    over any block device. The state is the record \<open>'d fs\<close>: the globals of fat32.c, the device, the
    text on the screen, and what uninitialised variables happen to hold (\<open>junk\<close>).
  \<^item> \<open>Fat32_Volume\<close>: the file system on the driver: the contents of the disk in front of and behind
    each operation, with the abstract relation \<open>resolves\<close> (what a path leads to) as specification.
  \<^item> \<open>Kernel_List\<close> (list.c over an explicit store of anchors; the locale \<open>queue_family\<close> is the
    contract of a family of queues), \<open>Kernel_Utils\<close> (utils.c), \<open>Kernel_State\<close> (the kernel's data as one
    record), \<open>Kernel_Memory\<close> (mm.c), \<open>Kernel_Sched\<close> (sched.c), \<open>Kernel_Sem\<close> (sem.c).
  \<^item> \<open>Kernel_Events\<close>: the clock tick and the semaphore calls keep the queues consistent.
  \<^item> \<open>Sys_Process\<close>: the system calls on processes (sys.c from line 358). \<open>Kernel_Spaces\<close>: the address
    spaces of the processes and the invariant of the kernel, \<open>sound\<close>. \<open>Kernel_Fork\<close> (\<open>sys_fork\<close>,
    \<open>sys_clone\<close>) and \<open>Kernel_Exit\<close> (\<open>sys_exit\<close>): what they do and that they keep it. \<open>Kernel_Boot\<close>: the
    start of memory and processes (\<open>init_mm\<close>, \<open>main\<close>) establishes it.
  \<^item> \<open>Kernel_Runs\<close>: clock ticks and system calls in any order as a step relation from the start of the
    kernel, with the invariant of every state that is reached.
  \<^item> \<open>Console\<close>: the screen memory and the cursor (io.c). \<open>Kernel_Interrupts\<close>: the interrupt descriptor
    table, the exceptions, the clock and the keyboard (interrupt.c, zeos_interrupt.c, entry.S), over the
    record \<open>pc\<close>: the kernel, the screen and the counters of the clock.
  \<^item> \<open>Sys_Files\<close>: the system calls on files (sys.c, lines 20 to 354, and devices.c).
  \<^item> \<open>Kernel_Zsem\<close>: the second semaphores (zeos_semaphores.c), and the locale \<open>counting_semaphore\<close> that both
    implementations keep.
  \<^item> \<open>System_Calls\<close>: a system call as a program makes it: the stubs of libc.c, the registers, the table and
    the handler of interrupt 0x80 (sys_call_table.S, entry.S), over the record \<open>'d machine\<close> with the memory
    of the user and \<open>errno\<close>.
  \<^item> \<open>Boot_Image\<close>: the host tool that builds the image (build.c): the files of the host and the output as
    state, every call of \<open>die\<close> as a value.
  \<^item> \<open>Kernel_Segments\<close>: the registers of the processor (\<open>cpu\<close>), the segment table, the task state segment
    and the masks of the interrupt controllers (hardware.c, mm.c from line 140, the tables of bootsect.S).
  \<^item> \<open>System_Start\<close>: \<open>main\<close> of system.c over the record \<open>'d computer\<close>: memory, processor, disk and the
    system of \<open>Sys_Files\<close>. It joins the image of \<open>Boot_Image\<close>, the tables of \<open>Kernel_Segments\<close>, the start of the
    kernel of \<open>Kernel_Boot\<close>, the driver and the mounting of the volume.
  \<^item> \<open>Self_Tests\<close>: \<open>ide_check_disk\<close> and \<open>decodeStatusRegister\<close> (ide.c), \<open>FStest\<close> (fat32.c).
  \<^item> \<open>File_Calls\<close>: open, read and the writing of the screen through libc.c as lemmas on the machine, and a concrete
    system. \<open>User_Program\<close>: the program of the image (user.c) with its switches; where the compiler puts its arrays
    is the parameter \<open>places\<close>.
  \<^item> \<open>Kernel_Stacks\<close>, \<open>Kernel_Switch\<close>, \<open>Kernel_Tasks\<close>: the kernel stacks, over the record \<open>core\<close> of registers, stacks and
    saved stack pointers around the record of the kernel: \<open>SAVE_ALL\<close>, \<open>RESTORE_ALL\<close> and the handlers (entry.S,
    zeos_entry.S, zeos_semaphores_syscall.S), \<open>current()\<close>, \<open>task_switch\<close> and \<open>cpu_idle\<close> (sched.c), and what \<open>sys_fork\<close>,
    \<open>sys_clone\<close> and \<open>init_idle\<close> write on the stack of a new task. \<open>sys_fork_code\<close>, \<open>sys_clone_code\<close> and \<open>pick_next\<close> refine the
    calls of \<open>Sys_Process\<close> and \<open>sched_next_rr\<close>; the step relation \<open>others\<close> is what other tasks do meanwhile. What a C function
    leaves in registers and below its frame, and the words it needs, are the parameter \<open>leftovers\<close>.
  \<^item> \<open>Sched_Support\<close>: the support library soa_supportE3: a first-come-first-served scheduler, the choice of the
    policy, and the console whose reads last a number of ticks.
  \<^item> This theory: the system calls on a volume, which join all of them.

  What the groups of lemmas show. Driver: a read returns the sector, a write replaces it, and a
  block number beyond 2^28 acts on the block addressed before. Table: what allocation and freeing do to the
  chains, and that loading and storing do not fit together. File system: the result of each
  operation and the contents of the disk behind it, on every branch that the callers can reach on a
  volume with 512-byte sectors; searching is a refinement of \<open>resolves\<close>. Kernel: the queues hold what the abstract
  map \<open>Q\<close> says, scheduling is round robin, no sequence of events runs
  into a fault or loses a process, and processes with different directories never share a data frame.
  Start: from the image the tool builds, loaded as the boot loader does, to the user program in user mode; what
  the tables of segments and gates allow and forget. Stacks: an interrupt does not show, a process that was switched
  out comes back with all its registers, a fork returns twice. User program: what it prints, and where it fails.

  Conventions. A C array is a list and an access outside it is a fault, so a theorem that ends in
  \<open>Fault OutOfBounds\<close> says that the code leaves the array. \<open>int\<close> is a HOL \<open>int\<close> where the code keeps it
  small and a word where it may wrap. An address of a user buffer is used for \<open>access_ok\<close>
  only; the bytes are passed beside it.

  Not modelled: the 16-bit code of the boot loader (bootsect.S, calls of the BIOS; what it leaves in memory is the
  hypothesis \<open>loaded\<close>, and its tables are modelled), the kernel functions soa_supportE3 expects and this
  kernel does not define (\<open>block_process\<close> and the like are parameters of \<open>Sched_Support\<close>), and code that is not
  compiled (under \<open>#if 0\<close>: the copy of \<open>itoa\<close> in ide.c and \<open>zeos_IO_emulation\<close> in zeos_interrupt.c).
\<close>

section \<open>System calls on a volume\<close>


text \<open>A program with the path \<open>/A\<close> at the start of its data, and everything else 9.\<close>

definition demo_machine :: "ata_dev machine" where
  "demo_machine = \<lparr>os = demo_system, user_mem = (\<lambda>a. 9)(0x108000 := 47, 0x108001 := 65, 0x108002 := 0), ticks_of = 0, errno = 0\<rparr>"


text \<open>
  C32: the system calls that have to split a path always run over the end of an array: on a volume,
  \<open>sys_unlink\<close> of any path writes the byte behind \<open>filename[11]\<close>, and so does \<open>sys_open\<close> of every path
  that is not there, which it would have to create.
\<close>

theorem split_overruns:
  assumes vol: "volume P view cap (fsys s)" and path: "0 \<notin> set p"
    and res: "resolves (blocks view (fsys s)) (disk_size cap) (fsys s) (rootClusterNum (extendedBootRecord (fsys s))) (tl (components p)) v"
  shows "sys_unlink (ide_blockdev P) (p @ [0]) s = Fault OutOfBounds \<and>
    (v = 0 \<or> v = 0xFFFFFFFF \<longrightarrow> sys_open (ide_blockdev P) (p @ [0]) mode s = Fault OutOfBounds)"
proof -
  from search_of_system [OF vol path res] obtain d where
    d: "searchFile (ide_blockdev P) (p @ [0]) (fsys s) = Ok (if v = 0xFFFFFFFF then 0 else sint v, (fsys s)\<lparr>device := d\<rparr>)" by blast
  have "split_filename (p @ [0]) (junk_array 96 t) (junk_array 11 t) = Fault OutOfBounds" for t :: "'a system"
    by (rule split_filename_overruns_aux) (simp add: junk_array_def)
  with d show ?thesis by (auto simp: sys_unlink_def sys_open_def Let_def)
qed

text \<open>
  A file that was opened cannot be closed by its descriptor: \<open>sys_close\<close> looks at the channel
  number \<open>fd\<close> and not at \<open>fd - 2\<close>, and answers \<open>-EBADF\<close> unless that one happens to be open.
\<close>

lemma close_misses:
  assumes "tables_ok s" and "searchFile dev path (fsys s) = Ok (c, f)" and "word_of_int c \<noteq> (0 :: dword)"
    and "first_free_entry s = Some i" and "\<exists>j < CHANNEL_TABLE_SIZE. fd (channel s j) \<noteq> int j + 2"
    and "i + 2 < CHANNEL_TABLE_SIZE" and "fd (channel s (i + 2)) \<noteq> int i + 4"
  shows "\<exists>s'. sys_open dev path mode s = Ok (int i + 2, s') \<and> fd (channel s' i) = int i + 2 \<and> sys_close (int i + 2) s' = Ok (-EBADF, s')"
proof -
  let ?s = "opened (word_of_int c) mode i (s\<lparr>fsys := f\<rparr>)"
  have ok1: "tables_ok (s\<lparr>fsys := f\<rparr>)" using assms(1) by (simp add: tables_ok_def)
  then have ok: "tables_ok (s\<lparr>fsys := f\<rparr>)" "tables_ok ?s" by simp_all
  have i: "i < CHANNEL_TABLE_SIZE" "i + 2 < 10" using assms(6) by (simp_all add: kernel_sizes)
  have ch: "channel ?s i = \<lparr>fd = int i + 2, OFT_entry_num = int i\<rparr>" "channel ?s (i + 2) = channel s (i + 2)"
    using opened_simps(4) [OF ok(1) i(1)] by simp_all (simp add: channel_def)
  have "channel_at (task (kern ?s) ! cur (kern ?s)) (int (i + 2)) = Ok (channel ?s (i + 2))" by (rule channel_at_nat [OF ok(2) i(2)])
  then have "sys_close (int (i + 2)) ?s = Ok (-EBADF, ?s)"
    using ok(2) ch(2) assms(7) by (simp add: sys_close_def)
  with sys_open_existing_aux [OF assms(1-5)] i(1) ch(1) show ?thesis by (simp add: add.commute)
qed

theorem split_overruns_witness:
  "sys_unlink (ide_blockdev demo_ports) [47, 65, 0] demo_system = Fault OutOfBounds"
  using split_overruns [of demo_ports ata_view_of 64 demo_system "[47, 65]" 3] demo_volume demo_resolves by simp

end
